(* ===== verification/Prelude.thy ===== *)
theory Prelude
  imports
    Main
    "HOL-Library.Char_ord"
    "HOL-Library.List_Lexorder"
    "HOL-Library.Product_Lexorder"
    "HOL-Library.Sublist"
begin

text \<open>
  What the components share.

  Results: a Rust \<open>Result<T, E>\<close> is a sum \<open>'e + 'a\<close> with \<open>Inl\<close> for the error;
  \<open>bind_res\<close> is the \<open>?\<close> operator and \<open>ensure\<close> the early return
  \<open>if !ok { return Err(e) }\<close>.

  Text: a Rust \<open>String\<close> is its UTF-8 bytes, a \<open>string\<close> (one \<open>char\<close> per byte), so
  \<open>len()\<close> is \<open>length\<close> and the derived \<open>Ord\<close> is the lexicographic order of
  \<open>List_Lexorder\<close> over \<open>Char_ord\<close>. The operations of \<open>str\<close> that the sources call
  (prefixes, splits, joins, searches) are the functions of the section below; they are
  polymorphic in the element type, so the components that work on code points use them too.

  Machines: a component that reacts to events is a step function that may refuse; the locales
  \<open>guarded_machine\<close> and \<open>ranked_machine\<close> lift a one-step fact to every run.
\<close>

section \<open>Results\<close>

named_theorems result_simps \<open>inversion of results\<close>

definition bind_res :: "'e + 'a \<Rightarrow> ('a \<Rightarrow> 'e + 'b) \<Rightarrow> 'e + 'b" where
  "bind_res m f = (case m of Inl e \<Rightarrow> Inl e | Inr a \<Rightarrow> f a)"

definition ensure :: "bool \<Rightarrow> 'e \<Rightarrow> 'e + unit" where
  "ensure c e = (if c then Inr () else Inl e)"

definition ok_or :: "'a option \<Rightarrow> 'e \<Rightarrow> 'e + 'a" where
  "ok_or x e = (case x of None \<Rightarrow> Inl e | Some a \<Rightarrow> Inr a)"

lemma bind_res_simps [simp]:
  "bind_res (Inl e) f = Inl e"
  "bind_res (Inr a) f = f a"
  by (simp_all add: bind_res_def)

lemma ensure_simps [simp]:
  "ensure True e = Inr ()"
  "ensure False e = Inl e"
  by (simp_all add: ensure_def)

lemma ok_or_simps [simp]:
  "ok_or None e = Inl e"
  "ok_or (Some a) e = Inr a"
  by (simp_all add: ok_or_def)

lemma bind_res_Inr [result_simps]:
  "bind_res m f = Inr y \<longleftrightarrow> (\<exists>a. m = Inr a \<and> f a = Inr y)"
  by (cases m) auto

lemma bind_res_Inl [result_simps]:
  "bind_res m f = Inl x \<longleftrightarrow> m = Inl x \<or> (\<exists>a. m = Inr a \<and> f a = Inl x)"
  by (cases m) auto

lemma ensure_iff [result_simps]:
  "ensure c e = Inr u \<longleftrightarrow> c"
  "ensure c e = Inl x \<longleftrightarrow> \<not> c \<and> x = e"
  by (auto simp: ensure_def)

lemma ok_or_iff [result_simps]:
  "ok_or x e = Inr a \<longleftrightarrow> x = Some a"
  "ok_or x e = Inl f \<longleftrightarrow> x = None \<and> f = e"
  by (auto simp: ok_or_def split: option.splits)

section \<open>Integers\<close>

text \<open>
  Signed 64-bit values are \<open>int\<close>, unsigned ones \<open>nat\<close>, with the bounds below wherever the
  code checks, saturates or may overflow.
\<close>

definition i64_max :: int where "i64_max = 9223372036854775807"
definition i64_min :: int where "i64_min = - 9223372036854775808"
definition u32_max :: nat where "u32_max = 4294967295"
definition u64_max :: nat where "u64_max = 18446744073709551615"

text \<open>\<open>i64::checked_add\<close>, \<open>u32::checked_add\<close> and \<open>u64::checked_add\<close>.\<close>

definition checked_add_i64 :: "int \<Rightarrow> int \<Rightarrow> int option" where
  "checked_add_i64 a b = (if i64_min \<le> a + b \<and> a + b \<le> i64_max then Some (a + b) else None)"

definition checked_add_u32 :: "nat \<Rightarrow> nat \<Rightarrow> nat option" where
  "checked_add_u32 a b = (if a + b \<le> u32_max then Some (a + b) else None)"

definition checked_add_u64 :: "nat \<Rightarrow> nat \<Rightarrow> nat option" where
  "checked_add_u64 a b = (if a + b \<le> u64_max then Some (a + b) else None)"

lemma checked_add_i64_Some [result_simps]:
  "checked_add_i64 a b = Some c \<longleftrightarrow> c = a + b \<and> i64_min \<le> c \<and> c \<le> i64_max"
  by (auto simp: checked_add_i64_def)

lemma checked_add_u32_Some [result_simps]:
  "checked_add_u32 a b = Some c \<longleftrightarrow> c = a + b \<and> c \<le> u32_max"
  by (auto simp: checked_add_u32_def)

lemma checked_add_u64_Some [result_simps]:
  "checked_add_u64 a b = Some c \<longleftrightarrow> c = a + b \<and> c \<le> u64_max"
  by (auto simp: checked_add_u64_def)

section \<open>Text\<close>

definition byte :: "char \<Rightarrow> nat" where
  "byte c = of_char c"

definition is_ascii_lower :: "char \<Rightarrow> bool" where
  "is_ascii_lower c \<longleftrightarrow> 97 \<le> byte c \<and> byte c \<le> 122"

definition is_ascii_upper :: "char \<Rightarrow> bool" where
  "is_ascii_upper c \<longleftrightarrow> 65 \<le> byte c \<and> byte c \<le> 90"

definition is_ascii_digit :: "char \<Rightarrow> bool" where
  "is_ascii_digit c \<longleftrightarrow> 48 \<le> byte c \<and> byte c \<le> 57"

definition is_ascii_alpha :: "char \<Rightarrow> bool" where
  "is_ascii_alpha c \<longleftrightarrow> is_ascii_lower c \<or> is_ascii_upper c"

text \<open>\<open>u8::is_ascii_graphic\<close>: \<open>'!'\<close> to \<open>'~'\<close>.\<close>

definition is_ascii_graphic :: "char \<Rightarrow> bool" where
  "is_ascii_graphic c \<longleftrightarrow> 33 \<le> byte c \<and> byte c \<le> 126"

definition is_ascii :: "char \<Rightarrow> bool" where
  "is_ascii c \<longleftrightarrow> byte c < 128"

lemmas char_class_defs =
  byte_def is_ascii_lower_def is_ascii_upper_def is_ascii_digit_def is_ascii_alpha_def
  is_ascii_graphic_def is_ascii_def

text \<open>\<open>u8::to_ascii_lowercase\<close> and \<open>str::eq_ignore_ascii_case\<close>.\<close>

definition to_ascii_lower :: "char \<Rightarrow> char" where
  "to_ascii_lower c = (if is_ascii_upper c then char_of (byte c + 32) else c)"

definition eq_ignore_ascii_case :: "string \<Rightarrow> string \<Rightarrow> bool" where
  "eq_ignore_ascii_case s t \<longleftrightarrow> map to_ascii_lower s = map to_ascii_lower t"

lemma eq_ignore_ascii_case_refl [simp]: "eq_ignore_ascii_case s s"
  by (simp add: eq_ignore_ascii_case_def)

text \<open>\<open>str::strip_prefix\<close>; \<open>starts_with\<close> is \<open>prefix p s\<close>, \<open>ends_with\<close> is \<open>suffix p s\<close>.\<close>

definition strip_prefix :: "'a list \<Rightarrow> 'a list \<Rightarrow> 'a list option" where
  "strip_prefix p s = (if prefix p s then Some (drop (length p) s) else None)"

lemma strip_prefix_Some: "strip_prefix p s = Some r \<longleftrightarrow> s = p @ r"
  by (auto simp: strip_prefix_def prefix_def)

lemma strip_prefix_None: "strip_prefix p s = None \<longleftrightarrow> \<not> prefix p s"
  by (simp add: strip_prefix_def)

lemma strip_prefix_append [simp]: "strip_prefix p (p @ r) = Some r"
  by (simp add: strip_prefix_Some)

text \<open>\<open>str::split(c)\<close> (never empty) and \<open>str::split_once(c)\<close> (at the first \<open>c\<close>).\<close>

fun split_on :: "'a \<Rightarrow> 'a list \<Rightarrow> 'a list list" where
  "split_on c [] = [[]]"
| "split_on c (x # xs) =
     (if x = c then [] # split_on c xs
      else (case split_on c xs of [] \<Rightarrow> [[x]] | w # ws \<Rightarrow> (x # w) # ws))"

fun split_once :: "'a \<Rightarrow> 'a list \<Rightarrow> ('a list \<times> 'a list) option" where
  "split_once c [] = None"
| "split_once c (x # xs) =
     (if x = c then Some ([], xs)
      else map_option (\<lambda>(a, b). (x # a, b)) (split_once c xs))"

lemma split_on_not_Nil [simp]: "split_on c s \<noteq> []"
  by (induction s) (auto split: list.splits)

lemma split_on_word: "c \<notin> set s \<Longrightarrow> split_on c s = [s]"
  by (induction s) auto

lemma split_on_append: "c \<notin> set w \<Longrightarrow> split_on c (w @ c # s) = w # split_on c s"
  by (induction w) auto

lemma split_on_parts: "w \<in> set (split_on c s) \<Longrightarrow> c \<notin> set w"
  by (induction s arbitrary: w) (auto split: list.splits if_splits)

lemma split_once_Some: "split_once c s = Some (a, b) \<longleftrightarrow> s = a @ c # b \<and> c \<notin> set a"
proof (induction s arbitrary: a)
  case Nil
  then show ?case by simp
next
  case (Cons x xs)
  then show ?case by (cases a) auto
qed

lemma split_once_None: "split_once c s = None \<longleftrightarrow> c \<notin> set s"
  by (induction s) auto

lemma split_once_append [simp]: "c \<notin> set a \<Longrightarrow> split_once c (a @ c # b) = Some (a, b)"
  by (simp add: split_once_Some)

text \<open>\<open>[String]::join(sep)\<close>.\<close>

fun join :: "'a list \<Rightarrow> 'a list list \<Rightarrow> 'a list" where
  "join sep [] = []"
| "join sep [w] = w"
| "join sep (w # ws) = w @ sep @ join sep ws"

lemma join_split_on: "join [c] (split_on c s) = s"
proof (induction s)
  case Nil
  then show ?case by simp
next
  case (Cons x xs)
  obtain w ws where "split_on c xs = w # ws" by (cases "split_on c xs") auto
  with Cons show ?case by (cases ws) auto
qed

text \<open>\<open>str::find(pat)\<close>: the offset of the first occurrence.\<close>

fun find_sub :: "'a list \<Rightarrow> 'a list \<Rightarrow> nat option" where
  "find_sub p [] = (if p = [] then Some 0 else None)"
| "find_sub p (x # xs) = (if prefix p (x # xs) then Some 0 else map_option Suc (find_sub p xs))"

lemma find_sub_Some: "find_sub p s = Some i \<Longrightarrow> prefix p (drop i s) \<and> i + length p \<le> length s"
proof (induction s arbitrary: i)
  case Nil
  then show ?case by (auto split: if_splits)
next
  case (Cons x xs)
  show ?case
  proof (cases "prefix p (x # xs)")
    case True
    with Cons.prems show ?thesis using prefix_length_le[OF True] by auto
  next
    case False
    with Cons.prems obtain j where "find_sub p xs = Some j" "i = Suc j" by auto
    with Cons.IH show ?thesis by auto
  qed
qed

lemma find_sub_first: "find_sub p s = Some i \<Longrightarrow> j < i \<Longrightarrow> \<not> prefix p (drop j s)"
proof (induction s arbitrary: i j)
  case Nil
  then show ?case by (auto split: if_splits)
next
  case (Cons x xs)
  show ?case
  proof (cases j)
    case 0
    with Cons.prems show ?thesis by (auto split: if_splits)
  next
    case (Suc k)
    with Cons.prems obtain i' where "find_sub p xs = Some i'" "i = Suc i'"
      by (auto split: if_splits)
    with Suc Cons show ?thesis by auto
  qed
qed

lemma find_sub_append: "find_sub p s = Some i \<Longrightarrow> find_sub p (s @ r) = Some i"
proof (induction s arbitrary: i)
  case Nil
  then show ?case by (cases r) (auto split: if_splits)
next
  case (Cons x xs)
  show ?case
  proof (cases "prefix p (x # xs)")
    case True
    with Cons.prems show ?thesis by (auto intro: prefix_order.trans)
  next
    case False
    with Cons.prems obtain j where j: "find_sub p xs = Some j" "i = Suc j" by auto
    have "length p \<le> length xs" using find_sub_Some [OF j(1)] by simp
    then have "\<not> prefix p (x # xs @ r)"
      using False prefix_length_prefix [of p "(x # xs) @ r" "x # xs"] by auto
    with j Cons.IH [OF j(1)] False show ?thesis by simp
  qed
qed

text \<open>
  \<open>str::from_utf8\<close>: the well-formed byte sequences of the Unicode standard (no overlong forms,
  no surrogates, nothing above U+10FFFF).
\<close>

definition utf8_cont :: "char \<Rightarrow> bool" where
  "utf8_cont c \<longleftrightarrow> 128 \<le> byte c \<and> byte c \<le> 191"

definition byte_in :: "nat \<Rightarrow> nat \<Rightarrow> char \<Rightarrow> bool" where
  "byte_in lo hi c \<longleftrightarrow> lo \<le> byte c \<and> byte c \<le> hi"

fun utf8_valid :: "string \<Rightarrow> bool" where
  "utf8_valid [] \<longleftrightarrow> True"
| "utf8_valid (a # s) \<longleftrightarrow>
     (if is_ascii a then utf8_valid s
      else if byte_in 194 223 a then
        (case s of b # t \<Rightarrow> utf8_cont b \<and> utf8_valid t | _ \<Rightarrow> False)
      else if byte_in 224 239 a then
        (case s of
           b # c # t \<Rightarrow>
             utf8_cont b \<and> utf8_cont c
             \<and> (byte a = 224 \<longrightarrow> 160 \<le> byte b) \<and> (byte a = 237 \<longrightarrow> byte b \<le> 159)
             \<and> utf8_valid t
         | _ \<Rightarrow> False)
      else if byte_in 240 244 a then
        (case s of
           b # c # d # t \<Rightarrow>
             utf8_cont b \<and> utf8_cont c \<and> utf8_cont d
             \<and> (byte a = 240 \<longrightarrow> 144 \<le> byte b) \<and> (byte a = 244 \<longrightarrow> byte b \<le> 143)
             \<and> utf8_valid t
         | _ \<Rightarrow> False)
      else False)"

lemma utf8_valid_Cons_ascii: "is_ascii a \<Longrightarrow> utf8_valid (a # s) = utf8_valid s"
  by (simp only: utf8_valid.simps if_True)

declare utf8_valid.simps(2) [simp del]

lemma utf8_valid_ascii: "\<forall>c \<in> set s. is_ascii c \<Longrightarrow> utf8_valid s"
  by (induction s) (simp_all add: utf8_valid_Cons_ascii)

section \<open>Ordered maps and sets\<close>

text \<open>
  A \<open>BTreeMap\<close> is its entries in key order: an association list with strictly increasing
  keys. \<open>get\<close> is \<open>map_of\<close>, iteration is the list. A \<open>BTreeSet\<close> is a strictly sorted
  list.
\<close>

fun bt_insert :: "'k::linorder \<Rightarrow> 'v \<Rightarrow> ('k \<times> 'v) list \<Rightarrow> ('k \<times> 'v) list" where
  "bt_insert k v [] = [(k, v)]"
| "bt_insert k v ((k', v') # m) =
     (if k < k' then (k, v) # (k', v') # m
      else if k = k' then (k, v) # m
      else (k', v') # bt_insert k v m)"

definition bt_inv :: "('k::linorder \<times> 'v) list \<Rightarrow> bool" where
  "bt_inv m \<longleftrightarrow> sorted_wrt (<) (map fst m)"

definition bt_of_list :: "('k::linorder \<times> 'v) list \<Rightarrow> ('k \<times> 'v) list" where
  "bt_of_list kvs = foldl (\<lambda>m (k, v). bt_insert k v m) [] kvs"

definition bs_of_list :: "'k::linorder list \<Rightarrow> 'k list" where
  "bs_of_list xs = map fst (bt_of_list (map (\<lambda>x. (x, ())) xs))"

lemma bt_get_insert [simp]: "map_of (bt_insert k v m) = (map_of m)(k \<mapsto> v)"
  by (induction k v m rule: bt_insert.induct) auto

lemma bt_keys_insert [simp]: "fst ` set (bt_insert k v m) = insert k (fst ` set m)"
  by (induction k v m rule: bt_insert.induct) auto

lemma bt_inv_Nil [simp]: "bt_inv []"
  by (simp add: bt_inv_def)

lemma bt_inv_insert [simp]: "bt_inv m \<Longrightarrow> bt_inv (bt_insert k v m)"
proof (induction k v m rule: bt_insert.induct)
  case (1 k v)
  then show ?case by (simp add: bt_inv_def)
next
  case (2 k v k' v' m)
  then have m: "bt_inv m" and lt: "\<forall>x \<in> fst ` set m. k' < x"
    by (auto simp: bt_inv_def)
  show ?case
  proof (cases "k < k' \<or> k = k'")
    case True
    with 2 lt show ?thesis by (auto simp: bt_inv_def)
  next
    case False
    then have "k' < k" by auto
    with 2 m lt have "bt_inv (bt_insert k v m)" "\<forall>x \<in> fst ` set (bt_insert k v m). k' < x"
      by auto
    with \<open>k' < k\<close> show ?thesis by (auto simp: bt_inv_def)
  qed
qed

lemma bt_inv_distinct: "bt_inv m \<Longrightarrow> distinct (map fst m)"
  by (simp add: bt_inv_def strict_sorted_iff)

lemma bt_insert_last: "\<forall>x \<in> fst ` set m. x < k \<Longrightarrow> bt_insert k v m = m @ [(k, v)]"
  by (induction k v m rule: bt_insert.induct) auto

lemma bt_foldl_inv: "bt_inv m \<Longrightarrow> bt_inv (foldl (\<lambda>m (k, v). bt_insert k v m) m kvs)"
  by (induction kvs arbitrary: m) auto

lemma bt_of_list_inv [simp]: "bt_inv (bt_of_list kvs)"
  by (simp add: bt_of_list_def bt_foldl_inv)

lemma bt_foldl_get:
  "map_of (foldl (\<lambda>m (k, v). bt_insert k v m) m kvs) = map_of m ++ map_of (rev kvs)"
  by (induction kvs arbitrary: m) auto

lemma bt_get_of_list: "map_of (bt_of_list kvs) = map_of (rev kvs)"
  by (simp add: bt_of_list_def bt_foldl_get)

lemma bt_foldl_keys:
  "fst ` set (foldl (\<lambda>m (k, v). bt_insert k v m) m kvs) = fst ` set m \<union> fst ` set kvs"
proof (induction kvs arbitrary: m)
  case Nil
  then show ?case by simp
next
  case (Cons kv kvs)
  obtain k v where kv: "kv = (k, v)" by (cases kv)
  from Cons.IH [of "bt_insert k v m"] show ?case by (simp add: kv del: set_append)
qed

lemma bt_keys_of_list [simp]: "fst ` set (bt_of_list kvs) = fst ` set kvs"
  by (simp add: bt_of_list_def bt_foldl_keys)

lemma bt_of_list_mem: "(k, v) \<in> set (bt_of_list m) \<Longrightarrow> (k, v) \<in> set m"
proof -
  assume "(k, v) \<in> set (bt_of_list m)"
  then have "map_of (bt_of_list m) k = Some v"
    by (rule map_of_is_SomeI [OF bt_inv_distinct [OF bt_of_list_inv]])
  then have "(k, v) \<in> set (rev m)" using map_of_SomeD [of "rev m" k v] by (simp add: bt_get_of_list)
  then show ?thesis by simp
qed

text \<open>Inserting entries that are already in order appends them: a map rebuilds itself.\<close>

lemma bt_foldl_sorted:
  "bt_inv (m @ kvs) \<Longrightarrow> foldl (\<lambda>m (k, v). bt_insert k v m) m kvs = m @ kvs"
proof (induction kvs arbitrary: m)
  case Nil
  then show ?case by simp
next
  case (Cons kv kvs)
  obtain k v where kv: "kv = (k, v)" by (cases kv)
  from Cons.prems have "\<forall>x \<in> fst ` set m. x < k"
    by (auto simp: kv bt_inv_def sorted_wrt_append)
  then have "bt_insert k v m = m @ [(k, v)]" by (rule bt_insert_last)
  with Cons.IH [of "m @ [(k, v)]"] Cons.prems show ?case by (simp add: kv)
qed

lemma bt_of_list_sorted: "bt_inv m \<Longrightarrow> bt_of_list m = m"
  using bt_foldl_sorted [of "[]" m] by (simp add: bt_of_list_def)

lemma bt_from_keys: "bt_inv m \<Longrightarrow> m = map (\<lambda>k. (k, the (map_of m k))) (map fst m)"
proof -
  assume "bt_inv m"
  then have "distinct (map fst m)" by (rule bt_inv_distinct)
  then have "\<And>k v. (k, v) \<in> set m \<Longrightarrow> map_of m k = Some v" by simp
  then show ?thesis by (auto intro!: map_idI [symmetric])
qed

lemma bt_keys_eq:
  assumes "bt_inv m" "bt_inv n" "fst ` set m = fst ` set n"
  shows "map fst m = map fst n"
  using assms by (intro strict_sorted_equal) (auto simp: bt_inv_def)

lemma bt_ext:
  assumes "bt_inv m" "bt_inv n" "map_of m = map_of n"
  shows "m = n"
proof -
  have "fst ` set m = fst ` set n"
    using assms(3) by (metis dom_map_of_conv_image_fst)
  with assms(1,2) have "map fst m = map fst n" by (rule bt_keys_eq)
  with assms show ?thesis by (metis bt_from_keys)
qed

lemma bs_of_list_set [simp]: "set (bs_of_list xs) = set xs"
  using bt_keys_of_list [of "map (\<lambda>x. (x, ())) xs"] by (simp add: bs_of_list_def image_image)

lemma bs_of_list_sorted: "sorted_wrt (<) (bs_of_list xs)"
  using bt_of_list_inv by (simp add: bs_of_list_def bt_inv_def)

section \<open>Round trips\<close>

text \<open>
  A printer and the parser that reads it back. What every client draws from the law is that the
  printed form identifies the value.
\<close>

locale roundtrip =
  fixes print_it :: "'a \<Rightarrow> 'c"
    and parse_it :: "'c \<Rightarrow> 'e + 'a"
    and good :: "'a \<Rightarrow> bool"
  assumes parse_print: "good x \<Longrightarrow> parse_it (print_it x) = Inr x"
begin

lemma print_inj:
  assumes "good x" "good y" "print_it x = print_it y"
  shows "x = y"
proof -
  have "(Inr x :: 'e + 'a) = parse_it (print_it x)" by (rule parse_print [OF assms(1), symmetric])
  also have "\<dots> = parse_it (print_it y)" by (simp only: assms(3))
  also have "\<dots> = Inr y" by (rule parse_print [OF assms(2)])
  finally show ?thesis by (simp only: sum.inject)
qed

lemma print_eq_iff: "good x \<Longrightarrow> good y \<Longrightarrow> print_it x = print_it y \<longleftrightarrow> x = y"
  using print_inj by blast

end

text \<open>A parser that yields good values only: printing what was parsed is a normal form.\<close>

locale canonical_roundtrip = roundtrip +
  assumes parse_good: "parse_it c = Inr x \<Longrightarrow> good x"
begin

lemma normal_form: "parse_it c = Inr x \<Longrightarrow> parse_it (print_it x) = Inr x"
  by (rule parse_print [OF parse_good])

lemma same_parse_same_print:
  assumes "parse_it c = Inr x" "parse_it d = Inr y"
  shows "print_it x = print_it y \<longleftrightarrow> x = y"
  using assms by (intro print_eq_iff parse_good)

end

section \<open>Machines\<close>

text \<open>
  A refused event leaves the state as it was: the sources never write a state they return an
  error for.
\<close>

definition attempt_step :: "('s \<Rightarrow> 'e \<Rightarrow> 'err + 's) \<Rightarrow> 's \<Rightarrow> 'e \<Rightarrow> 's" where
  "attempt_step step s e = (case step s e of Inl _ \<Rightarrow> s | Inr s' \<Rightarrow> s')"

definition run_events :: "('s \<Rightarrow> 'e \<Rightarrow> 'err + 's) \<Rightarrow> 's \<Rightarrow> 'e list \<Rightarrow> 's" where
  "run_events step s es = foldl (attempt_step step) s es"

lemma run_events_simps [simp]:
  "run_events step s [] = s"
  "run_events step s (e # es) = run_events step (attempt_step step s e) es"
  by (simp_all add: run_events_def)

lemma run_events_append: "run_events step s (es @ fs) = run_events step (run_events step s es) fs"
  by (simp add: run_events_def)

locale guarded_machine =
  fixes step :: "'s \<Rightarrow> 'e \<Rightarrow> 'err + 's"
    and inv :: "'s \<Rightarrow> bool"
  assumes step_inv: "inv s \<Longrightarrow> step s e = Inr s' \<Longrightarrow> inv s'"
begin

lemma attempt_inv: "inv s \<Longrightarrow> inv (attempt_step step s e)"
  by (auto simp: attempt_step_def split: sum.splits intro: step_inv)

lemma run_inv: "inv s \<Longrightarrow> inv (run_events step s es)"
  by (induction es arbitrary: s) (auto intro: attempt_inv)

end

locale ranked_machine = guarded_machine +
  fixes rank :: "'s \<Rightarrow> nat"
  assumes step_rank: "inv s \<Longrightarrow> step s e = Inr s' \<Longrightarrow> rank s \<le> rank s'"
begin

lemma attempt_rank: "inv s \<Longrightarrow> rank s \<le> rank (attempt_step step s e)"
  by (auto simp: attempt_step_def split: sum.splits intro: step_rank)

lemma run_rank: "inv s \<Longrightarrow> rank s \<le> rank (run_events step s es)"
proof (induction es arbitrary: s)
  case Nil
  then show ?case by simp
next
  case (Cons e es)
  have "rank s \<le> rank (attempt_step step s e)" by (rule attempt_rank [OF Cons.prems])
  also have "\<dots> \<le> rank (run_events step (attempt_step step s e) es)"
    by (rule Cons.IH [OF attempt_inv [OF Cons.prems]])
  finally show ?case by simp
qed

end

end
