(* ===== verification/Contribution.thy ===== *)
theory Contribution
  imports Prelude "HOL-Library.Option_ord"
begin

text \<open>
  \<open>oxplow-domain/src/contribution.rs\<close>: what every extension contribution carries. The kinds and
  their table, the validity of names, a contribution's identity (\<open>ContributionId\<close>), the parts of
  its public reference (\<open>RefParts\<close>, ordered as Rust's derived \<open>Ord\<close> orders them) and the
  registry of a catalog's descriptors, which refuses a second holder of an unshared global name.
\<close>

section \<open>Kinds\<close>

datatype contribution_kind =
  Dataset | Measure | Metric | Dimension | Collector | EventType | Resource | Command | Job
  | AiProfile | Effect | Advisory | Skill | Implementation | Provider | Page | Panel | Slot
  | Decorator | Replacement | CustomComponent

text \<open>The derived \<open>Ord\<close> of a field-less enum is the order of its variants.\<close>

fun kind_index :: "contribution_kind \<Rightarrow> nat" where
  "kind_index Dataset = 0"
| "kind_index Measure = 1"
| "kind_index Metric = 2"
| "kind_index Dimension = 3"
| "kind_index Collector = 4"
| "kind_index EventType = 5"
| "kind_index Resource = 6"
| "kind_index Command = 7"
| "kind_index Job = 8"
| "kind_index AiProfile = 9"
| "kind_index Effect = 10"
| "kind_index Advisory = 11"
| "kind_index Skill = 12"
| "kind_index Implementation = 13"
| "kind_index Provider = 14"
| "kind_index Page = 15"
| "kind_index Panel = 16"
| "kind_index Slot = 17"
| "kind_index Decorator = 18"
| "kind_index Replacement = 19"
| "kind_index CustomComponent = 20"

lemma kind_index_inj: "kind_index a = kind_index b \<Longrightarrow> a = b"
  by (cases a; cases b) simp_all

instantiation contribution_kind :: linorder
begin

definition less_eq_contribution_kind :: "contribution_kind \<Rightarrow> contribution_kind \<Rightarrow> bool" where
  "less_eq_contribution_kind a b \<longleftrightarrow> kind_index a \<le> kind_index b"

definition less_contribution_kind :: "contribution_kind \<Rightarrow> contribution_kind \<Rightarrow> bool" where
  "less_contribution_kind a b \<longleftrightarrow> kind_index a < kind_index b"

instance
  by standard
    (auto simp: less_eq_contribution_kind_def less_contribution_kind_def intro: kind_index_inj)

end

record kind_spec =
  ks_kind :: contribution_kind
  ks_key :: string
  ks_title :: string
  ks_summary :: string
  ks_dotted :: bool
  ks_shares_names :: bool

definition spec ::
  "contribution_kind \<Rightarrow> string \<Rightarrow> string \<Rightarrow> string \<Rightarrow> bool \<Rightarrow> bool \<Rightarrow> kind_spec" where
  "spec kind key title summary dotted shares_names =
     \<lparr>ks_kind = kind, ks_key = key, ks_title = title, ks_summary = summary,
      ks_dotted = dotted, ks_shares_names = shares_names\<rparr>"

definition KINDS :: "kind_spec list" where
  "KINDS = [
    spec Dataset ''datasets'' ''Dataset''
      (''SQL views over oxplow'' @ [CHR 0x27] @ ''s datasets, published as `v_<ext>_<name>`'')
      False False,
    spec Measure ''measures'' ''Measure''
      (''what a metric'' @ [CHR 0x27] @ ''s facts measure'')
      True False,
    spec Metric ''metrics'' ''Metric''
      ''a number tracked over a measure''
      True False,
    spec Dimension ''dimensions'' ''Dimension''
      ''a way to slice metrics''
      True False,
    spec Collector ''collectors'' ''Collector''
      ''outside data brought in as entities, or facts for metrics''
      True False,
    spec EventType ''event_types'' ''Event type''
      (''its own namespace'' @ [CHR 0x27] @ ''s event types'')
      True False,
    spec Resource ''resources'' ''Resource''
      ''kinds of thing a URI can name''
      False False,
    spec Command ''commands'' ''Command''
      (''commands on oxplow'' @ [CHR 0x27] @ ''s command bus'')
      True False,
    spec Job ''jobs'' ''Job''
      ''durable host operations scheduled by an extension''
      False False,
    spec AiProfile ''ai_profiles'' ''AI profile''
      ''a named model need an extension declares: bound by the person, or falling back to a built-in role''
      False False,
    spec Effect ''effects'' ''Effect''
      ''scripts that react to logged events''
      False False,
    spec Advisory ''advisories'' ''Advisory''
      ''guidance queries for the coding agent''
      False False,
    spec Skill ''skills'' ''Skill''
      ''skills and slash commands for the coding agent''
      False False,
    spec Implementation ''implementations'' ''Implementation''
      ''an implementation of a capability: a built-in, or an AI provider or effort policy written as a script''
      True False,
    spec Provider ''providers'' ''Provider''
      ''an external program implementing a capability, such as the work list''
      False False,
    spec Page ''pages'' ''Page''
      ''a page: its data loaders and the view that shows them''
      False False,
    spec Panel ''panels'' ''Panel''
      ''a rail panel showing its pages compact''
      False False,
    spec Slot ''ui.mounts'' ''Slot mount''
      (''a page placed at another page'' @ [CHR 0x27] @ ''s slot (`at: <extension>/<page>.<slot>`)'')
      True True,
    spec Decorator ''ui.decorators'' ''Decorator''
      ''labels on core refs''
      False True,
    spec Replacement ''ui.mounts'' ''Replacement''
      ''a page placed in place of a core component (`at: <target>`, `v_replaceable`)''
      True False,
    spec CustomComponent ''custom_components'' ''Custom component''
      ''sandboxed HTML components a page draws, fed its loaders''
      False False]"

text \<open>
  \<open>ContributionKind::spec\<close>: the first row of the kind; the source's \<open>expect\<close> is the
  \<open>None\<close> that \<open>kind_spec_total\<close> excludes.
\<close>

definition kind_spec_of :: "contribution_kind \<Rightarrow> kind_spec option" where
  "kind_spec_of k = find (\<lambda>s. ks_kind s = k) KINDS"

lemma kind_spec_total: "\<exists>s. kind_spec_of k = Some s \<and> ks_kind s = k"
  by (cases k) (simp_all add: kind_spec_of_def KINDS_def spec_def)

definition kspec :: "contribution_kind \<Rightarrow> kind_spec" where
  "kspec k = the (kind_spec_of k)"

definition global_name :: "contribution_kind \<Rightarrow> bool" where
  "global_name k \<longleftrightarrow> k = Command \<or> k = Measure \<or> k = Metric \<or> k = Dimension \<or> k = EventType"

fun segment :: "contribution_kind \<Rightarrow> string" where
  "segment Dataset = ''dataset''"
| "segment Measure = ''measure''"
| "segment Metric = ''metric''"
| "segment Dimension = ''dimension''"
| "segment Collector = ''collector''"
| "segment EventType = ''event_type''"
| "segment Resource = ''resource''"
| "segment Command = ''command''"
| "segment Job = ''job''"
| "segment AiProfile = ''ai_profile''"
| "segment Effect = ''effect''"
| "segment Advisory = ''advisory''"
| "segment Skill = ''skill''"
| "segment Implementation = ''implementation''"
| "segment Provider = ''provider''"
| "segment Page = ''page''"
| "segment Panel = ''panel''"
| "segment Slot = ''slot''"
| "segment Decorator = ''decorator''"
| "segment Replacement = ''replacement''"
| "segment CustomComponent = ''custom_component''"

lemma segment_inj: "segment a = segment b \<Longrightarrow> a = b"
  by (cases a; cases b) simp_all

definition resource :: "contribution_kind \<Rightarrow> string" where
  "resource k = ''oxplow/'' @ segment k"

section \<open>Names\<close>

definition extension_namespace :: "string \<Rightarrow> string" where
  "extension_namespace ext = map (\<lambda>c. if c = CHR ''-'' then CHR ''_'' else c) ext"

definition starts_lower :: "string \<Rightarrow> bool" where
  "starts_lower s = (case s of [] \<Rightarrow> False | c # _ \<Rightarrow> is_ascii_lower c)"

definition valid_extension_name :: "string \<Rightarrow> bool" where
  "valid_extension_name name \<longleftrightarrow>
     starts_lower name
     \<and> \<not> suffix ''-'' name
     \<and> find_sub ''--'' name = None
     \<and> (\<forall>c \<in> set name. is_ascii_lower c \<or> is_ascii_digit c \<or> c = CHR ''-'')"

definition valid_local :: "contribution_kind \<Rightarrow> string \<Rightarrow> bool" where
  "valid_local kind local \<longleftrightarrow>
     (let dotted = ks_dotted (kspec kind) in
       starts_lower local
       \<and> \<not> (suffix ''-'' local \<or> suffix ''_'' local \<or> suffix ''.'' local)
       \<and> (\<forall>c \<in> set local.
             is_ascii_lower c \<or> is_ascii_digit c \<or> c = CHR ''-'' \<or> c = CHR ''_''
             \<or> (dotted \<and> c = CHR ''.'')))"

definition implementation_local :: "string \<Rightarrow> string \<Rightarrow> string" where
  "implementation_local capability ident = capability @ ''.'' @ ident"

section \<open>Identity and references\<close>

record contribution_id =
  ci_extension :: string
  ci_kind :: contribution_kind
  ci_local :: string

definition contribution_id_new ::
  "string \<Rightarrow> contribution_kind \<Rightarrow> string \<Rightarrow> contribution_id" where
  "contribution_id_new ext kind local =
     \<lparr>ci_extension = ext, ci_kind = kind, ci_local = local\<rparr>"

definition problem :: "contribution_id \<Rightarrow> string option" where
  "problem cid =
     (let ownerless = ci_extension cid = [] \<and> global_name (ci_kind cid) in
      if \<not> ownerless \<and> \<not> valid_extension_name (ci_extension cid) then
        Some (''`'' @ ci_extension cid @ ''` isn'' @ [CHR 0x27] @
          ''t an extension name (lowercase letters, digits and single dashes, '' @
          ''starting with a letter)'')
      else if \<not> valid_local (ci_kind cid) (ci_local cid) then
        Some (ks_title (kspec (ci_kind cid)) @ '' id `'' @ ci_local cid @
          ''` must be lowercase letters, digits, `-` and `_`'' @
          (if ks_dotted (kspec (ci_kind cid)) then '' (and `.`)'' else []) @
          '', starting with a letter'')
      else None)"

definition producer_label :: "contribution_id \<Rightarrow> string" where
  "producer_label cid = (if ci_extension cid = [] then ci_local cid else ci_extension cid)"

datatype contribution_ref =
  RefParts (ref_kind: contribution_kind) (ref_extension: "string option") (ref_name: string)

text \<open>The derived \<open>Ord\<close> of a struct compares its fields in turn; \<open>None\<close> is below \<open>Some\<close>.\<close>

definition ref_key :: "contribution_ref \<Rightarrow> contribution_kind \<times> string option \<times> string" where
  "ref_key r = (ref_kind r, ref_extension r, ref_name r)"

lemma ref_key_inj: "ref_key a = ref_key b \<Longrightarrow> a = b"
  by (cases a; cases b) (simp add: ref_key_def)

instantiation contribution_ref :: linorder
begin

definition less_eq_contribution_ref :: "contribution_ref \<Rightarrow> contribution_ref \<Rightarrow> bool" where
  "less_eq_contribution_ref a b \<longleftrightarrow> ref_key a \<le> ref_key b"

definition less_contribution_ref :: "contribution_ref \<Rightarrow> contribution_ref \<Rightarrow> bool" where
  "less_contribution_ref a b \<longleftrightarrow> ref_key a < ref_key b"

instance
  by standard
    (auto simp: less_eq_contribution_ref_def less_contribution_ref_def intro: ref_key_inj)

end

definition reference :: "contribution_id \<Rightarrow> contribution_ref" where
  "reference cid =
     RefParts (ci_kind cid)
       (if global_name (ci_kind cid) then None else Some (ci_extension cid))
       (ci_local cid)"

definition ref_id :: "contribution_ref \<Rightarrow> contribution_id option" where
  "ref_id r = map_option (\<lambda>ext. contribution_id_new ext (ref_kind r) (ref_name r)) (ref_extension r)"

section \<open>The registry\<close>

record owner =
  own_extension :: string
  own_origin :: string
  own_version :: "string option"

datatype runs_on =
  Events "string list" | Schedule string | Run | Call | Query | Mount | Agent | Declared

record declared_at =
  da_file :: string
  da_line :: "nat option"

record descriptor =
  d_id :: contribution_id
  d_owner :: owner
  d_contract_version :: "nat option"
  d_trigger :: runs_on
  d_needs :: "string list"
  d_after :: "string list"
  d_order_level :: "nat option"
  d_global :: "string option"
  d_description :: "string option"
  d_source :: declared_at

definition descriptor_new ::
  "contribution_id \<Rightarrow> owner \<Rightarrow> runs_on \<Rightarrow> declared_at \<Rightarrow> descriptor" where
  "descriptor_new i ow trigger source =
     \<lparr>d_id = i, d_owner = ow, d_contract_version = None, d_trigger = trigger, d_needs = [],
      d_after = [], d_order_level = None, d_global = None, d_description = None,
      d_source = source\<rparr>"

record collision =
  col_kind :: contribution_kind
  col_global :: string
  col_kept :: contribution_id
  col_refused :: contribution_id

record registry =
  descriptors :: "descriptor list"
  by_global :: "(contribution_kind \<times> string) \<rightharpoonup> contribution_id"

definition registry_default :: registry where
  "registry_default = \<lparr>descriptors = [], by_global = Map.empty\<rparr>"

definition registry_push :: "registry \<Rightarrow> descriptor \<Rightarrow> registry" where
  "registry_push r d = r\<lparr>descriptors := descriptors r @ [d]\<rparr>"

definition registry_add :: "registry \<Rightarrow> descriptor \<Rightarrow> collision + registry" where
  "registry_add r d =
     (case d_global d of
        None \<Rightarrow> Inr (registry_push r d)
      | Some global \<Rightarrow>
          if ks_shares_names (kspec (ci_kind (d_id d))) then Inr (registry_push r d)
          else
            (let key = (ci_kind (d_id d), global) in
             case by_global r key of
               Some kept \<Rightarrow>
                 Inl \<lparr>col_kind = ci_kind (d_id d), col_global = global, col_kept = kept,
                      col_refused = d_id d\<rparr>
             | None \<Rightarrow>
                 Inr (registry_push (r\<lparr>by_global := (by_global r)(key \<mapsto> d_id d)\<rparr>) d)))"

definition of_kind :: "registry \<Rightarrow> contribution_kind \<Rightarrow> descriptor list" where
  "of_kind r kind = filter (\<lambda>d. ci_kind (d_id d) = kind) (descriptors r)"

definition registry_get :: "registry \<Rightarrow> contribution_id \<Rightarrow> descriptor option" where
  "registry_get r i = find (\<lambda>d. d_id d = i) (descriptors r)"

text \<open>The unshared global name a descriptor takes, if any.\<close>

definition claims :: "descriptor \<Rightarrow> (contribution_kind \<times> string) option" where
  "claims d =
     (case d_global d of
        Some g \<Rightarrow> if ks_shares_names (kspec (ci_kind (d_id d))) then None
                  else Some (ci_kind (d_id d), g)
      | None \<Rightarrow> None)"

lemma registry_add_Inr:
  "registry_add r d = Inr r' \<longleftrightarrow>
     (case claims d of
        None \<Rightarrow> r' = registry_push r d
      | Some key \<Rightarrow> by_global r key = None
          \<and> r' = registry_push (r\<lparr>by_global := (by_global r)(key \<mapsto> d_id d)\<rparr>) d)"
  by (auto simp: registry_add_def claims_def Let_def split: option.splits)

text \<open>
  What a registry built by \<open>registry_add\<close> keeps: the index holds exactly the claims of its
  descriptors, and no two descriptors make the same claim.
\<close>

fun claims_once :: "descriptor list \<Rightarrow> bool" where
  "claims_once [] \<longleftrightarrow> True"
| "claims_once (d # ds) \<longleftrightarrow>
     (claims d = None \<or> claims d \<notin> claims ` set ds) \<and> claims_once ds"

definition registry_inv :: "registry \<Rightarrow> bool" where
  "registry_inv r \<longleftrightarrow>
     claims_once (descriptors r)
     \<and> (\<forall>key i. by_global r key = Some i \<longleftrightarrow>
            (\<exists>d \<in> set (descriptors r). claims d = Some key \<and> d_id d = i))"

lemma claims_once_snoc:
  "claims_once (ds @ [d]) \<longleftrightarrow>
     claims_once ds \<and> (claims d = None \<or> claims d \<notin> claims ` set ds)"
  by (induction ds) (auto simp: image_iff)

lemma registry_default_inv: "registry_inv registry_default"
  by (simp add: registry_inv_def registry_default_def)

lemma registry_add_inv:
  assumes inv: "registry_inv r" and add: "registry_add r d = Inr r'"
  shows "registry_inv r'"
proof (cases "claims d")
  case None
  with add have "r' = registry_push r d" by (simp add: registry_add_Inr)
  with inv None show ?thesis
    by (auto simp: registry_inv_def registry_push_def claims_once_snoc)
next
  case (Some key)
  with add have free: "by_global r key = None"
    and r': "r' = registry_push (r\<lparr>by_global := (by_global r)(key \<mapsto> d_id d)\<rparr>) d"
    by (auto simp: registry_add_Inr)
  have "\<forall>e \<in> set (descriptors r). claims e \<noteq> Some key"
    using inv free by (metis option.distinct(1) registry_inv_def)
  with inv Some r' show ?thesis
    by (auto simp: registry_inv_def registry_push_def claims_once_snoc)
qed

interpretation registry: guarded_machine registry_add registry_inv
  by unfold_locales (rule registry_add_inv)

section \<open>Properties\<close>

text \<open>
  However descriptors are offered to a catalog, accepted or refused, the registry never holds
  two that take one unshared global name, and its index names, for every name taken, the
  descriptor that holds it.
\<close>

theorem registry_names_are_unique:
  "registry_inv (run_events registry_add registry_default ds)"
  by (rule registry.run_inv [OF registry_default_inv])

end
