(* ===== verification/Extension_Job.thy ===== *)
theory Extension_Job
  imports Contribution
begin

text \<open>
  \<open>oxplow-domain/src/extension_job.rs\<close>: the lifecycle of a durable extension job. A job is a
  record, \<open>transition\<close> applies one event to it or refuses with a \<open>transition_error\<close>; attempts
  are fenced by a counter that every claim and every recovery advances. The lemmas give the
  invariant of reachable jobs, the monotone fence, and what a run of events can never do.

  The \<open>uuid\<close> crate is a parameter (\<open>uuid_lib\<close>): the model says only what the source asks of it.
\<close>

section \<open>Data\<close>

definition MAX_PERSISTED_COUNTER :: nat where "MAX_PERSISTED_COUNTER = nat i64_max"
definition MAX_ATTEMPTS :: nat where "MAX_ATTEMPTS = 3"
definition MAX_INTENT_KEY_BYTES :: nat where "MAX_INTENT_KEY_BYTES = 128"
definition MAX_OWNER_IDENTITY_BYTES :: nat where "MAX_OWNER_IDENTITY_BYTES = 256"

text \<open>\<open>Uuid::parse_str\<close>, \<open>get_version_num\<close>, \<open>get_variant() == RFC4122\<close> and \<open>to_string\<close>.\<close>

record 'u uuid_lib =
  uuid_parse_str :: "string \<Rightarrow> 'u option"
  uuid_version_num :: "'u \<Rightarrow> nat"
  uuid_rfc4122 :: "'u \<Rightarrow> bool"
  uuid_to_string :: "'u \<Rightarrow> string"

datatype transition_error =
  InvalidIdentity | InvalidOwner | InvalidIntentKey | InvalidState | InvalidTime
  | TimeWentBackwards | FenceMismatch | LeaseExpired | LeaseActive | IntentKeyMismatch
  | InvalidTransition | ReplayNotAllowed | CounterOverflow

datatype replay_policy = Never | Idempotent

datatype job_state = Queued | Running | Interrupted | Succeeded | Failed | Cancelled

datatype completion = CompletionSucceeded | CompletionFailed

datatype job_output_kind = OutText | OutToolCall | OutToolResult | OutUsage

fun output_kind_as_str :: "job_output_kind \<Rightarrow> string" where
  "output_kind_as_str OutText = ''text''"
| "output_kind_as_str OutToolCall = ''tool_call''"
| "output_kind_as_str OutToolResult = ''tool_result''"
| "output_kind_as_str OutUsage = ''usage''"

definition output_kind_parse :: "string \<Rightarrow> job_output_kind option" where
  "output_kind_parse name =
     (if name = ''text'' then Some OutText
      else if name = ''tool_call'' then Some OutToolCall
      else if name = ''tool_result'' then Some OutToolResult
      else if name = ''usage'' then Some OutUsage
      else None)"

record job_owner =
  o_contribution :: contribution_id
  o_package_version :: "string option"
  o_contract_version :: "nat option"
  o_deployment :: "string option"

record attempt_fence =
  tok_attempt :: nat
  tok_fence :: nat

record extension_job =
  j_id :: string
  j_owner :: job_owner
  j_run_id :: string
  j_intent_key :: string
  j_replay_policy :: replay_policy
  j_state :: job_state
  j_attempt :: nat
  j_fence :: nat
  j_lease_until_ms :: "int option"
  j_cancel_at_ms :: "int option"
  j_created_at_ms :: int
  j_updated_at_ms :: int

datatype job_event =
  Claim (ev_now: int) (ev_lease: int) (ev_intent: string)
| Renew (ev_now: int) (ev_lease: int) (ev_token: attempt_fence)
| Complete (ev_now: int) (ev_token: attempt_fence) completion
| RequestCancellation (ev_now: int)
| ConfirmStopped (ev_now: int) (ev_token: attempt_fence)
| RecoverExpired (ev_now: int)
| RetryInterrupted (ev_now: int) (ev_intent: string)
| Rebind (ev_now: int) (ev_owner: job_owner)

record job_transition =
  t_job :: extension_job
  t_token :: "attempt_fence option"

section \<open>Validation\<close>

definition is_uuid_v7 :: "'u uuid_lib \<Rightarrow> string \<Rightarrow> bool" where
  "is_uuid_v7 ul v =
     (case uuid_parse_str ul v of
        None \<Rightarrow> False
      | Some u \<Rightarrow> uuid_version_num ul u = 7 \<and> uuid_rfc4122 ul u \<and> uuid_to_string ul u = v)"

definition valid_owner_identity :: "string \<Rightarrow> bool" where
  "valid_owner_identity v \<longleftrightarrow>
     v \<noteq> [] \<and> length v \<le> MAX_OWNER_IDENTITY_BYTES \<and> list_all is_ascii_graphic v"

definition job_id_validate :: "'u uuid_lib \<Rightarrow> string \<Rightarrow> transition_error + unit" where
  "job_id_validate ul i = (if is_uuid_v7 ul i then Inr () else Inl InvalidIdentity)"

definition intent_validate :: "string \<Rightarrow> transition_error + unit" where
  "intent_validate v =
     (if v = [] \<or> length v > MAX_INTENT_KEY_BYTES \<or> \<not> list_all is_ascii v
         \<or> \<not> list_all is_ascii_graphic v
      then Inl InvalidIntentKey else Inr ())"

definition intent_key_new :: "string \<Rightarrow> transition_error + string" where
  "intent_key_new v = bind_res (intent_validate v) (\<lambda>_. Inr v)"

definition owner_validate :: "job_owner \<Rightarrow> transition_error + unit" where
  "owner_validate ow =
     (if length (ci_extension (o_contribution ow)) > 128
         \<or> length (ci_local (o_contribution ow)) > MAX_OWNER_IDENTITY_BYTES
         \<or> problem (o_contribution ow) \<noteq> None
         \<or> (case o_package_version ow of None \<Rightarrow> False | Some v \<Rightarrow> \<not> valid_owner_identity v)
         \<or> o_contract_version ow = Some 0
         \<or> (case o_deployment ow of None \<Rightarrow> False | Some h \<Rightarrow> \<not> valid_owner_identity h)
      then Inl InvalidOwner else Inr ())"

text \<open>The counters and times of every state, then what each state adds.\<close>

definition counters_bad :: "'u uuid_lib \<Rightarrow> extension_job \<Rightarrow> bool" where
  "counters_bad ul j \<longleftrightarrow>
     \<not> is_uuid_v7 ul (j_run_id j)
     \<or> j_created_at_ms j < 0
     \<or> j_updated_at_ms j < j_created_at_ms j
     \<or> j_fence j > MAX_PERSISTED_COUNTER
     \<or> j_attempt j > j_fence j
     \<or> (j_replay_policy j = Never \<and> j_attempt j > 1)
     \<or> j_attempt j > MAX_ATTEMPTS"

definition cancel_bad :: "extension_job \<Rightarrow> bool" where
  "cancel_bad j \<longleftrightarrow>
     (case j_cancel_at_ms j of
        None \<Rightarrow> False
      | Some r \<Rightarrow> r < j_created_at_ms j \<or> r > j_updated_at_ms j)"

definition recovered_fence :: "extension_job \<Rightarrow> nat" where
  "recovered_fence j = j_attempt j * 2"

definition claimed_fence :: "extension_job \<Rightarrow> nat" where
  "claimed_fence j = recovered_fence j - 1"

definition state_bad :: "extension_job \<Rightarrow> bool" where
  "state_bad j =
     (case j_state j of
        Queued \<Rightarrow>
          j_lease_until_ms j \<noteq> None
          \<or> j_cancel_at_ms j \<noteq> None
          \<or> ((j_attempt j = 0) \<noteq> (j_fence j = 0))
          \<or> j_fence j \<noteq> recovered_fence j
          \<or> (j_attempt j > 0 \<and> j_replay_policy j \<noteq> Idempotent)
      | Running \<Rightarrow>
          j_attempt j = 0
          \<or> j_fence j = 0
          \<or> j_fence j \<noteq> claimed_fence j
          \<or> (case j_lease_until_ms j of None \<Rightarrow> True | Some until \<Rightarrow> until \<le> j_created_at_ms j)
      | Interrupted \<Rightarrow>
          j_attempt j = 0 \<or> j_fence j \<noteq> recovered_fence j \<or> j_lease_until_ms j \<noteq> None
      | Succeeded \<Rightarrow>
          j_attempt j = 0 \<or> j_fence j \<noteq> claimed_fence j \<or> j_lease_until_ms j \<noteq> None
      | Failed \<Rightarrow>
          j_attempt j = 0 \<or> j_fence j \<noteq> claimed_fence j \<or> j_lease_until_ms j \<noteq> None
      | Cancelled \<Rightarrow>
          j_lease_until_ms j \<noteq> None
          \<or> j_cancel_at_ms j = None
          \<or> ((j_attempt j = 0) \<noteq> (j_fence j = 0))
          \<or> (j_attempt j > 0 \<and> j_fence j \<noteq> claimed_fence j))"

definition job_validate :: "'u uuid_lib \<Rightarrow> extension_job \<Rightarrow> transition_error + unit" where
  "job_validate ul j =
     bind_res (job_id_validate ul (j_id j)) (\<lambda>_.
     bind_res (owner_validate (j_owner j)) (\<lambda>_.
     bind_res (intent_validate (j_intent_key j)) (\<lambda>_.
       if counters_bad ul j then Inl InvalidState
       else if cancel_bad j then Inl InvalidState
       else if state_bad j then Inl InvalidState
       else Inr ())))"

definition job_queued ::
  "'u uuid_lib \<Rightarrow> string \<Rightarrow> job_owner \<Rightarrow> string \<Rightarrow> string \<Rightarrow> replay_policy \<Rightarrow> int
     \<Rightarrow> transition_error + extension_job" where
  "job_queued ul i ow run_id intent_key policy now_ms =
     (if now_ms < 0 then Inl InvalidTime
      else
        (let job = \<lparr>j_id = i, j_owner = ow, j_run_id = run_id, j_intent_key = intent_key,
                    j_replay_policy = policy, j_state = Queued, j_attempt = 0, j_fence = 0,
                    j_lease_until_ms = None, j_cancel_at_ms = None,
                    j_created_at_ms = now_ms, j_updated_at_ms = now_ms\<rparr> in
         bind_res (job_validate ul job) (\<lambda>_. Inr job)))"

section \<open>Transitions\<close>

definition check_time :: "extension_job \<Rightarrow> int \<Rightarrow> transition_error + unit" where
  "check_time j now_ms =
     (if now_ms < 0 then Inl InvalidTime
      else if now_ms < j_updated_at_ms j then Inl TimeWentBackwards
      else Inr ())"

definition check_intent :: "extension_job \<Rightarrow> string \<Rightarrow> transition_error + unit" where
  "check_intent j key =
     bind_res (intent_validate key) (\<lambda>_. ensure (key = j_intent_key j) IntentKeyMismatch)"

definition check_running_token ::
  "extension_job \<Rightarrow> attempt_fence \<Rightarrow> int \<Rightarrow> transition_error + unit" where
  "check_running_token j tok now_ms =
     (if j_state j \<noteq> Running
         \<or> tok_attempt tok \<noteq> j_attempt j
         \<or> tok_fence tok \<noteq> j_fence j
         \<or> tok_attempt tok = 0
         \<or> tok_fence tok = 0
      then Inl FenceMismatch
      else bind_res (ok_or (j_lease_until_ms j) InvalidState)
        (\<lambda>until. if until \<le> now_ms then Inl LeaseExpired else Inr ()))"

definition lease_expiry :: "int \<Rightarrow> int \<Rightarrow> transition_error + int" where
  "lease_expiry now_ms lease_ms =
     (if now_ms < 0 \<or> lease_ms \<le> 0 then Inl InvalidTime
      else
        (case checked_add_i64 now_ms lease_ms of
           None \<Rightarrow> Inl InvalidTime
         | Some expiry \<Rightarrow> if expiry > now_ms then Inr expiry else Inl InvalidTime))"

definition next_counter :: "nat \<Rightarrow> transition_error + nat" where
  "next_counter n =
     (case checked_add_u64 n 1 of
        None \<Rightarrow> Inl CounterOverflow
      | Some v \<Rightarrow> if v \<le> MAX_PERSISTED_COUNTER then Inr v else Inl CounterOverflow)"

fun apply_event ::
  "extension_job \<Rightarrow> job_event \<Rightarrow> transition_error + (extension_job \<times> attempt_fence option)" where
  "apply_event j (Claim now_ms lease_ms intent_key) =
     bind_res (check_time j now_ms) (\<lambda>_.
     bind_res (check_intent j intent_key) (\<lambda>_.
     if j_state j \<noteq> Queued \<or> j_cancel_at_ms j \<noteq> None then Inl InvalidTransition
     else
       bind_res (lease_expiry now_ms lease_ms) (\<lambda>expiry.
       bind_res (ok_or (checked_add_u32 (j_attempt j) 1) CounterOverflow) (\<lambda>attempt.
       bind_res (next_counter (j_fence j)) (\<lambda>fence.
         Inr (j\<lparr>j_attempt := attempt, j_fence := fence, j_state := Running,
                j_lease_until_ms := Some expiry, j_updated_at_ms := now_ms\<rparr>,
              Some \<lparr>tok_attempt = attempt, tok_fence = fence\<rparr>))))))"
| "apply_event j (Renew now_ms lease_ms tok) =
     bind_res (check_time j now_ms) (\<lambda>_.
     bind_res (check_running_token j tok now_ms) (\<lambda>_.
     bind_res (lease_expiry now_ms lease_ms) (\<lambda>expiry.
     bind_res (ok_or (j_lease_until_ms j) InvalidState) (\<lambda>until.
       if expiry < until then Inl InvalidTime
       else Inr (j\<lparr>j_lease_until_ms := Some expiry, j_updated_at_ms := now_ms\<rparr>, None)))))"
| "apply_event j (Complete now_ms tok outcome) =
     bind_res (check_time j now_ms) (\<lambda>_.
     bind_res (check_running_token j tok now_ms) (\<lambda>_.
       Inr (j\<lparr>j_state := (case outcome of CompletionSucceeded \<Rightarrow> Succeeded
                            | CompletionFailed \<Rightarrow> Failed),
              j_lease_until_ms := None, j_updated_at_ms := now_ms\<rparr>, None)))"
| "apply_event j (RequestCancellation now_ms) =
     (if j_state j = Succeeded \<or> j_state j = Failed \<or> j_state j = Cancelled
      then Inl InvalidTransition
      else
        bind_res (check_time j now_ms) (\<lambda>_.
          Inr ((if j_cancel_at_ms j = None then
                  j\<lparr>j_cancel_at_ms := Some now_ms,
                    j_state := (if j_state j = Queued then
                                  (if j_attempt j = 0 then Cancelled else Interrupted)
                                else j_state j),
                    j_updated_at_ms := now_ms\<rparr>
                else j\<lparr>j_updated_at_ms := now_ms\<rparr>), None)))"
| "apply_event j (ConfirmStopped now_ms tok) =
     bind_res (check_time j now_ms) (\<lambda>_.
     bind_res (check_running_token j tok now_ms) (\<lambda>_.
       if j_cancel_at_ms j = None then Inl InvalidTransition
       else Inr (j\<lparr>j_state := Cancelled, j_lease_until_ms := None,
                   j_updated_at_ms := now_ms\<rparr>, None)))"
| "apply_event j (RecoverExpired now_ms) =
     bind_res (check_time j now_ms) (\<lambda>_.
       if j_state j \<noteq> Running then Inl InvalidTransition
       else
         bind_res (ok_or (j_lease_until_ms j) InvalidState) (\<lambda>expiry.
           if now_ms < expiry then Inl LeaseActive
           else
             bind_res (next_counter (j_fence j)) (\<lambda>fence.
               Inr (j\<lparr>j_fence := fence, j_state := Interrupted, j_lease_until_ms := None,
                      j_updated_at_ms := now_ms\<rparr>, None))))"
| "apply_event j (RetryInterrupted now_ms intent_key) =
     bind_res (check_time j now_ms) (\<lambda>_.
     bind_res (check_intent j intent_key) (\<lambda>_.
       if j_state j \<noteq> Interrupted
          \<or> j_replay_policy j \<noteq> Idempotent
          \<or> j_cancel_at_ms j \<noteq> None
          \<or> j_attempt j \<ge> MAX_ATTEMPTS
       then Inl ReplayNotAllowed
       else Inr (j\<lparr>j_state := Queued, j_updated_at_ms := now_ms\<rparr>, None)))"
| "apply_event j (Rebind now_ms ow) =
     bind_res (check_time j now_ms) (\<lambda>_.
     bind_res (owner_validate ow) (\<lambda>_.
       if j_state j \<noteq> Queued
          \<or> j_cancel_at_ms j \<noteq> None
          \<or> o_contribution ow \<noteq> o_contribution (j_owner j)
          \<or> o_contract_version ow \<noteq> o_contract_version (j_owner j)
       then Inl InvalidTransition
       else Inr (j\<lparr>j_owner := ow, j_updated_at_ms := now_ms\<rparr>, None)))"

definition transition ::
  "'u uuid_lib \<Rightarrow> extension_job \<Rightarrow> job_event \<Rightarrow> transition_error + job_transition" where
  "transition ul j ev =
     bind_res (job_validate ul j) (\<lambda>_.
     bind_res (apply_event j ev) (\<lambda>(next, issued).
     bind_res (job_validate ul next) (\<lambda>_.
       Inr \<lparr>t_job = next, t_token = issued\<rparr>)))"

text \<open>A transition as a machine step: the host stores the job it returns.\<close>

definition job_step ::
  "'u uuid_lib \<Rightarrow> extension_job \<Rightarrow> job_event \<Rightarrow> transition_error + extension_job" where
  "job_step ul j ev = bind_res (transition ul j ev) (\<lambda>t. Inr (t_job t))"

section \<open>The invariant of stored jobs\<close>

text \<open>
  A job the host ever stores passes \<open>validate\<close>, and is queued only with an attempt left. The
  clauses of \<open>validate\<close> in positive form, then the invariant.
\<close>

definition job_inv :: "'u uuid_lib \<Rightarrow> extension_job \<Rightarrow> bool" where
  "job_inv ul j \<longleftrightarrow>
     job_validate ul j = Inr () \<and> (j_state j = Queued \<longrightarrow> j_attempt j < MAX_ATTEMPTS)"

lemma job_validate_Inr:
  "job_validate ul j = Inr u \<longleftrightarrow>
     is_uuid_v7 ul (j_id j) \<and> owner_validate (j_owner j) = Inr ()
     \<and> intent_validate (j_intent_key j) = Inr ()
     \<and> \<not> counters_bad ul j \<and> \<not> cancel_bad j \<and> \<not> state_bad j"
  by (auto simp: job_validate_def job_id_validate_def result_simps)

lemmas job_state_simps =
  counters_bad_def cancel_bad_def state_bad_def recovered_fence_def claimed_fence_def

lemma check_time_iff [result_simps]:
  "check_time j now = Inr u \<longleftrightarrow> 0 \<le> now \<and> j_updated_at_ms j \<le> now"
  by (auto simp: check_time_def)

lemma check_intent_iff [result_simps]:
  "check_intent j key = Inr u \<longleftrightarrow> key = j_intent_key j \<and> intent_validate key = Inr ()"
  by (auto simp: check_intent_def result_simps)

lemma check_running_token_iff [result_simps]:
  "check_running_token j tok now = Inr u \<longleftrightarrow>
     j_state j = Running \<and> tok_attempt tok = j_attempt j \<and> tok_fence tok = j_fence j
     \<and> 0 < j_attempt j \<and> 0 < j_fence j
     \<and> (\<exists>until. j_lease_until_ms j = Some until \<and> now < until)"
  by (cases "j_lease_until_ms j") (auto simp: check_running_token_def not_le)

lemma lease_expiry_iff [result_simps]:
  "lease_expiry now lease = Inr e \<longleftrightarrow>
     0 \<le> now \<and> 0 < lease \<and> e = now + lease \<and> e \<le> i64_max"
  by (auto simp: lease_expiry_def checked_add_i64_def i64_min_def)

lemma next_counter_iff [result_simps]:
  "next_counter n = Inr m \<longleftrightarrow> m = n + 1 \<and> m \<le> MAX_PERSISTED_COUNTER"
  by (auto simp: next_counter_def checked_add_u64_def MAX_PERSISTED_COUNTER_def i64_max_def
      u64_max_def)

lemmas counter_bounds =
  MAX_PERSISTED_COUNTER_def MAX_ATTEMPTS_def i64_max_def u32_max_def u64_max_def

text \<open>What each accepted event does to a job that passes \<open>validate\<close>.\<close>

lemma apply_Claim_iff:
  "apply_event j (Claim now lease key) = Inr (n, t) \<longleftrightarrow>
     0 \<le> now \<and> j_updated_at_ms j \<le> now \<and> key = j_intent_key j \<and> intent_validate key = Inr ()
     \<and> j_state j = Queued \<and> j_cancel_at_ms j = None \<and> 0 < lease \<and> now + lease \<le> i64_max
     \<and> j_attempt j + 1 \<le> u32_max \<and> j_fence j + 1 \<le> MAX_PERSISTED_COUNTER
     \<and> n = j\<lparr>j_attempt := j_attempt j + 1, j_fence := j_fence j + 1, j_state := Running,
             j_lease_until_ms := Some (now + lease), j_updated_at_ms := now\<rparr>
     \<and> t = Some \<lparr>tok_attempt = j_attempt j + 1, tok_fence = j_fence j + 1\<rparr>"
  by (auto simp: result_simps split: if_splits)

lemma apply_Renew_iff:
  "apply_event j (Renew now lease tok) = Inr (n, t) \<longleftrightarrow>
     0 \<le> now \<and> j_updated_at_ms j \<le> now \<and> check_running_token j tok now = Inr ()
     \<and> 0 < lease \<and> now + lease \<le> i64_max
     \<and> (\<exists>until. j_lease_until_ms j = Some until \<and> until \<le> now + lease)
     \<and> n = j\<lparr>j_lease_until_ms := Some (now + lease), j_updated_at_ms := now\<rparr> \<and> t = None"
  by (cases "j_lease_until_ms j") (auto simp: result_simps split: if_splits)

lemma apply_Complete_iff:
  "apply_event j (Complete now tok oc) = Inr (n, t) \<longleftrightarrow>
     0 \<le> now \<and> j_updated_at_ms j \<le> now \<and> check_running_token j tok now = Inr ()
     \<and> n = j\<lparr>j_state := (case oc of CompletionSucceeded \<Rightarrow> Succeeded
                          | CompletionFailed \<Rightarrow> Failed),
             j_lease_until_ms := None, j_updated_at_ms := now\<rparr> \<and> t = None"
  by (auto simp: result_simps)

lemma apply_RequestCancellation_iff:
  "apply_event j (RequestCancellation now) = Inr (n, t) \<longleftrightarrow>
     j_state j \<notin> {Succeeded, Failed, Cancelled} \<and> 0 \<le> now \<and> j_updated_at_ms j \<le> now
     \<and> n = (if j_cancel_at_ms j = None then
               j\<lparr>j_cancel_at_ms := Some now,
                 j_state := (if j_state j = Queued then
                               (if j_attempt j = 0 then Cancelled else Interrupted)
                             else j_state j),
                 j_updated_at_ms := now\<rparr>
             else j\<lparr>j_updated_at_ms := now\<rparr>) \<and> t = None"
  by (simp add: result_simps) blast

lemma apply_ConfirmStopped_iff:
  "apply_event j (ConfirmStopped now tok) = Inr (n, t) \<longleftrightarrow>
     0 \<le> now \<and> j_updated_at_ms j \<le> now \<and> check_running_token j tok now = Inr ()
     \<and> j_cancel_at_ms j \<noteq> None
     \<and> n = j\<lparr>j_state := Cancelled, j_lease_until_ms := None, j_updated_at_ms := now\<rparr>
     \<and> t = None"
  by (auto simp: result_simps split: if_splits)

lemma apply_RecoverExpired_iff:
  "apply_event j (RecoverExpired now) = Inr (n, t) \<longleftrightarrow>
     0 \<le> now \<and> j_updated_at_ms j \<le> now \<and> j_state j = Running
     \<and> (\<exists>until. j_lease_until_ms j = Some until \<and> until \<le> now)
     \<and> j_fence j + 1 \<le> MAX_PERSISTED_COUNTER
     \<and> n = j\<lparr>j_fence := j_fence j + 1, j_state := Interrupted, j_lease_until_ms := None,
             j_updated_at_ms := now\<rparr> \<and> t = None"
  by (cases "j_lease_until_ms j") (auto simp: result_simps split: if_splits)

lemma apply_RetryInterrupted_iff:
  "apply_event j (RetryInterrupted now key) = Inr (n, t) \<longleftrightarrow>
     0 \<le> now \<and> j_updated_at_ms j \<le> now \<and> key = j_intent_key j \<and> intent_validate key = Inr ()
     \<and> j_state j = Interrupted \<and> j_replay_policy j = Idempotent \<and> j_cancel_at_ms j = None
     \<and> j_attempt j < MAX_ATTEMPTS
     \<and> n = j\<lparr>j_state := Queued, j_updated_at_ms := now\<rparr> \<and> t = None"
  by (auto simp: result_simps split: if_splits)

lemma apply_Rebind_iff:
  "apply_event j (Rebind now ow) = Inr (n, t) \<longleftrightarrow>
     0 \<le> now \<and> j_updated_at_ms j \<le> now \<and> owner_validate ow = Inr ()
     \<and> j_state j = Queued \<and> j_cancel_at_ms j = None
     \<and> o_contribution ow = o_contribution (j_owner j)
     \<and> o_contract_version ow = o_contract_version (j_owner j)
     \<and> n = j\<lparr>j_owner := ow, j_updated_at_ms := now\<rparr> \<and> t = None"
  by (auto simp: result_simps split: if_splits)

lemmas apply_iffs =
  apply_Claim_iff apply_Renew_iff apply_Complete_iff apply_RequestCancellation_iff
  apply_ConfirmStopped_iff apply_RecoverExpired_iff apply_RetryInterrupted_iff apply_Rebind_iff

declare apply_event.simps [simp del]

lemma apply_preserves_inv:
  assumes inv: "job_inv ul j" and app: "apply_event j ev = Inr (n, t)"
  shows "job_inv ul n"
proof (cases ev)
  case (Claim now lease key)
  with assms show ?thesis
    by (auto simp: job_inv_def job_validate_Inr apply_iffs job_state_simps counter_bounds)
next
  case (Renew now lease tok)
  with assms show ?thesis
    by (auto simp: job_inv_def job_validate_Inr apply_iffs job_state_simps result_simps
        split: option.splits)
next
  case (Complete now tok oc)
  with assms show ?thesis
    by (cases oc) (auto simp: job_inv_def job_validate_Inr apply_iffs job_state_simps
        result_simps split: option.splits)
next
  case (RequestCancellation now)
  with assms show ?thesis
    by (cases "j_state j")
      (auto simp: job_inv_def job_validate_Inr apply_iffs job_state_simps split: option.splits
        if_splits)
next
  case (ConfirmStopped now tok)
  with assms show ?thesis
    by (auto simp: job_inv_def job_validate_Inr apply_iffs job_state_simps result_simps
        split: option.splits)
next
  case (RecoverExpired now)
  with assms show ?thesis
    by (auto simp: job_inv_def job_validate_Inr apply_iffs job_state_simps split: option.splits)
next
  case (RetryInterrupted now key)
  with assms show ?thesis
    by (auto simp: job_inv_def job_validate_Inr apply_iffs job_state_simps split: option.splits)
next
  case (Rebind now ow)
  with assms show ?thesis
    by (auto simp: job_inv_def job_validate_Inr apply_iffs job_state_simps split: option.splits)
qed

lemma transition_of_inv:
  assumes "job_inv ul j"
  shows "transition ul j ev =
     (case apply_event j ev of Inl e \<Rightarrow> Inl e | Inr (n, t) \<Rightarrow> Inr \<lparr>t_job = n, t_token = t\<rparr>)"
proof (cases "apply_event j ev")
  case (Inl e)
  with assms show ?thesis by (simp add: transition_def job_inv_def)
next
  case (Inr r)
  obtain n t where r: "r = (n, t)" by (cases r)
  with Inr assms have "job_inv ul n" by (auto dest: apply_preserves_inv)
  with assms Inr r show ?thesis by (simp add: transition_def job_inv_def)
qed

lemma job_step_of_inv:
  "job_inv ul j \<Longrightarrow> job_step ul j ev = bind_res (apply_event j ev) (\<lambda>(n, t). Inr n)"
  by (auto simp: job_step_def transition_of_inv split: sum.splits)

lemma job_step_inv: "job_inv ul j \<Longrightarrow> job_step ul j ev = Inr n \<Longrightarrow> job_inv ul n"
  by (auto simp: job_step_of_inv result_simps dest: apply_preserves_inv)

lemma job_step_fence:
  assumes "job_inv ul j" "job_step ul j ev = Inr n"
  shows "j_fence j \<le> j_fence n"
  using assms
  by (cases ev) (auto simp: job_step_of_inv result_simps apply_iffs split: completion.splits)

interpretation job: ranked_machine "job_step ul" "job_inv ul" j_fence
proof
  show "job_inv ul j \<Longrightarrow> job_step ul j ev = Inr n \<Longrightarrow> job_inv ul n" for j ev n
    by (rule job_step_inv)
  show "job_inv ul j \<Longrightarrow> job_step ul j ev = Inr n \<Longrightarrow> j_fence j \<le> j_fence n" for j ev n
    by (rule job_step_fence)
qed

lemma job_queued_inv: "job_queued ul i ow r k p now = Inr j \<Longrightarrow> job_inv ul j"
  by (auto simp: job_queued_def Let_def result_simps job_inv_def MAX_ATTEMPTS_def
      split: if_splits)

section \<open>Runs\<close>

text \<open>The tokens a run hands out, in order.\<close>

fun issued :: "'u uuid_lib \<Rightarrow> extension_job \<Rightarrow> job_event list \<Rightarrow> attempt_fence list" where
  "issued ul j [] = []"
| "issued ul j (ev # evs) =
     (case transition ul j ev of
        Inl e \<Rightarrow> issued ul j evs
      | Inr t \<Rightarrow> (case t_token t of None \<Rightarrow> [] | Some tok \<Rightarrow> [tok]) @ issued ul (t_job t) evs)"

fun event_token :: "job_event \<Rightarrow> attempt_fence option" where
  "event_token (Renew now lease tok) = Some tok"
| "event_token (Complete now tok oc) = Some tok"
| "event_token (ConfirmStopped now tok) = Some tok"
| "event_token ev = None"

definition terminal :: "job_state \<Rightarrow> bool" where
  "terminal st \<longleftrightarrow> st = Succeeded \<or> st = Failed \<or> st = Cancelled"

definition attempt_limit :: "replay_policy \<Rightarrow> nat" where
  "attempt_limit p = (case p of Never \<Rightarrow> 1 | Idempotent \<Rightarrow> MAX_ATTEMPTS)"

lemma token_needs_fence:
  "event_token ev = Some tok \<Longrightarrow> apply_event j ev = Inr r \<Longrightarrow> tok_fence tok = j_fence j"
  by (cases r; cases ev) (auto simp: apply_iffs result_simps)

lemma recover_advances:
  assumes "job_inv ul j" "job_step ul j (RecoverExpired now) = Inr j'"
  shows "job_inv ul j'" "j_fence j < j_fence j'"
  using job_step_inv [OF assms] assms by (auto simp: job_step_of_inv result_simps apply_iffs)

lemma stale_token_refused:
  assumes inv: "job_inv ul j" and newer: "tok_fence tok < j_fence j" and tok: "event_token ev = Some tok"
  shows "\<exists>e. job_step ul (run_events (job_step ul) j evs) ev = Inl e"
proof -
  let ?k = "run_events (job_step ul) j evs"
  have k: "job_inv ul ?k" by (rule job.run_inv [OF inv])
  have "tok_fence tok \<noteq> j_fence ?k"
    using newer job.run_rank [OF inv, of evs] by simp
  then have "\<And>r. apply_event ?k ev \<noteq> Inr r" using tok token_needs_fence by blast
  then show ?thesis using k by (cases "apply_event ?k ev") (auto simp: job_step_of_inv)
qed

lemma terminal_refuses:
  assumes "job_inv ul j" "terminal (j_state j)"
  shows "\<exists>e. apply_event j ev = Inl e"
proof -
  have "\<And>n t. apply_event j ev \<noteq> Inr (n, t)"
    using assms by (cases ev) (auto simp: apply_iffs result_simps terminal_def)
  then show ?thesis by (cases "apply_event j ev") auto
qed

lemma terminal_absorbs:
  assumes "job_inv ul j" "terminal (j_state j)"
  shows "run_events (job_step ul) j evs = j"
proof (induction evs)
  case Nil
  then show ?case by simp
next
  case (Cons ev evs)
  obtain e where "apply_event j ev = Inl e" using terminal_refuses [OF assms] by blast
  then have "attempt_step (job_step ul) j ev = j"
    by (simp add: attempt_step_def job_step_of_inv [OF assms(1)])
  with Cons show ?case by simp
qed

lemma apply_keeps_policy:
  "apply_event j ev = Inr (n, t) \<Longrightarrow> j_replay_policy n = j_replay_policy j"
  by (cases ev) (auto simp: apply_iffs)

lemma inv_attempt_limit: "job_inv ul j \<Longrightarrow> j_attempt j \<le> attempt_limit (j_replay_policy j)"
  by (cases "j_replay_policy j")
    (auto simp: job_inv_def job_validate_Inr counters_bad_def attempt_limit_def)

text \<open>The token of attempt \<open>k\<close>: every claim and every recovery advances the fence by one.\<close>

definition nth_token :: "nat \<Rightarrow> attempt_fence" where
  "nth_token k = \<lparr>tok_attempt = k, tok_fence = 2 * k - 1\<rparr>"

lemma apply_token:
  assumes "job_inv ul j" "apply_event j ev = Inr (n, t)"
  shows "(t = None \<and> j_attempt n = j_attempt j)
    \<or> (t = Some (nth_token (j_attempt n)) \<and> j_attempt n = j_attempt j + 1)"
  using assms
  by (cases ev) (auto simp: apply_iffs nth_token_def job_inv_def job_validate_Inr job_state_simps)

lemma issued_tokens:
  assumes "job_inv ul j"
  shows "issued ul j evs =
    map nth_token [j_attempt j + 1 ..< j_attempt (run_events (job_step ul) j evs) + 1]
    \<and> j_attempt j \<le> j_attempt (run_events (job_step ul) j evs)
    \<and> j_replay_policy (run_events (job_step ul) j evs) = j_replay_policy j"
  using assms
proof (induction evs arbitrary: j)
  case Nil
  then show ?case by simp
next
  case (Cons ev evs)
  show ?case
  proof (cases "apply_event j ev")
    case (Inl e)
    with Cons show ?thesis by (simp add: transition_of_inv job_step_of_inv attempt_step_def)
  next
    case (Inr r)
    obtain n t where r: "r = (n, t)" by (cases r)
    have n: "job_inv ul n" using Cons.prems Inr r by (auto dest: apply_preserves_inv)
    have "j_replay_policy n = j_replay_policy j" using Inr r apply_keeps_policy by simp
    with apply_token [OF Cons.prems Inr [unfolded r]] Cons.IH [OF n] Cons.prems Inr r
    show ?thesis
      by (auto simp: transition_of_inv job_step_of_inv attempt_step_def
          upt_conv_Cons [of "Suc (j_attempt j)"] intro!: arg_cong [of _ _ nth_token])
  qed
qed

lemma cancel_kept:
  assumes "job_inv ul j" "j_cancel_at_ms j = Some c" "apply_event j ev = Inr (n, t)"
  shows "j_cancel_at_ms n = Some c \<and> t = None \<and> j_state n \<noteq> Queued"
  using assms
  by (cases ev) (auto simp: apply_iffs job_inv_def job_validate_Inr state_bad_def
      split: completion.splits)

lemma cancel_run:
  assumes "job_inv ul j" "j_cancel_at_ms j = Some c"
  shows "j_cancel_at_ms (run_events (job_step ul) j evs) = Some c \<and> issued ul j evs = []"
  using assms
proof (induction evs arbitrary: j)
  case Nil
  then show ?case by simp
next
  case (Cons ev evs)
  show ?case
  proof (cases "apply_event j ev")
    case (Inl e)
    with Cons show ?thesis by (simp add: transition_of_inv job_step_of_inv attempt_step_def)
  next
    case (Inr r)
    obtain n t where r: "r = (n, t)" by (cases r)
    have "job_inv ul n" using Cons.prems Inr r by (auto dest: apply_preserves_inv)
    with cancel_kept [OF Cons.prems Inr [unfolded r]] Cons.IH [of n] Cons.prems Inr r
    show ?thesis by (simp add: transition_of_inv job_step_of_inv attempt_step_def)
  qed
qed

lemma apply_errors:
  assumes "job_inv ul j"
  shows "apply_event j ev \<notin> {Inl InvalidState, Inl InvalidIdentity, Inl CounterOverflow}"
  using assms
  by (cases ev) (auto simp: apply_event.simps result_simps check_time_def check_intent_def
      intent_validate_def check_running_token_def lease_expiry_def next_counter_def owner_validate_def
      checked_add_i64_def checked_add_u32_def checked_add_u64_def counter_bounds
      job_inv_def job_validate_Inr job_state_simps split: if_splits option.splits)

section \<open>Properties\<close>

text \<open>A deployment of the uuid crate and a job, for the witnesses below.\<close>

definition demo_uuid :: "unit uuid_lib" where
  "demo_uuid =
     \<lparr>uuid_parse_str = (\<lambda>s. if s = ''018f'' then Some () else None), uuid_version_num = (\<lambda>_. 7),
      uuid_rfc4122 = (\<lambda>_. True), uuid_to_string = (\<lambda>_. ''018f'')\<rparr>"

definition demo_owner :: job_owner where
  "demo_owner =
     \<lparr>o_contribution = \<lparr>ci_extension = ''acme'', ci_kind = Job, ci_local = ''a''\<rparr>,
      o_package_version = Some ''1.0'', o_contract_version = Some 1, o_deployment = None\<rparr>"

definition demo_job :: extension_job where
  "demo_job =
     \<lparr>j_id = ''018f'', j_owner = demo_owner, j_run_id = ''018f'', j_intent_key = ''k'',
      j_replay_policy = Idempotent, j_state = Queued, j_attempt = 0, j_fence = 0,
      j_lease_until_ms = None, j_cancel_at_ms = None, j_created_at_ms = 5, j_updated_at_ms = 5\<rparr>"

lemma demo_owner_ok: "owner_validate demo_owner = Inr ()"
  by (simp add: owner_validate_def demo_owner_def problem_def Let_def global_name_def kspec_def
      kind_spec_of_def KINDS_def valid_extension_name_def starts_lower_def char_class_defs
      valid_local_def suffix_to_prefix valid_owner_identity_def MAX_OWNER_IDENTITY_BYTES_def)

lemma demo_uuid_ok: "is_uuid_v7 demo_uuid ''018f''"
  by (simp add: is_uuid_v7_def demo_uuid_def)

lemma demo_key_ok: "intent_validate ''k'' = Inr ()"
  by (simp add: intent_validate_def MAX_INTENT_KEY_BYTES_def char_class_defs)

lemma demo_job_queued:
  "job_queued demo_uuid ''018f'' demo_owner ''018f'' ''k'' Idempotent 5 = Inr demo_job"
  by (simp add: job_queued_def job_validate_Inr bind_res_Inr demo_owner_ok demo_uuid_ok demo_key_ok
      job_state_simps demo_job_def Let_def)

lemmas demo_job_inv = job_queued_inv [OF demo_job_queued]

text \<open>The demo job claimed at 10 for 20 ms, and recovered at 30.\<close>

definition demo_running :: extension_job where
  "demo_running =
     demo_job\<lparr>j_attempt := 1, j_fence := 1, j_state := Running, j_lease_until_ms := Some 30,
              j_updated_at_ms := 10\<rparr>"

lemma demo_running_step: "job_step demo_uuid demo_job (Claim 10 20 ''k'') = Inr demo_running"
  by (simp add: job_step_of_inv [OF demo_job_inv] bind_res_Inr apply_iffs demo_key_ok)
    (simp add: demo_job_def demo_running_def counter_bounds)

lemmas demo_running_inv = job_step_inv [OF demo_job_inv demo_running_step]

lemma demo_recovered_step:
  "job_step demo_uuid demo_running (RecoverExpired 30) =
     Inr (demo_running\<lparr>j_fence := 2, j_state := Interrupted, j_lease_until_ms := None,
                       j_updated_at_ms := 30\<rparr>)"
  by (simp add: job_step_of_inv [OF demo_running_inv] bind_res_Inr apply_iffs)
    (simp add: demo_job_def demo_running_def counter_bounds)

text \<open>
  In every run from a freshly queued job, whatever events were tried and refused on the way,
  a further event is never refused because the stored job failed its own validation, or because
  a counter ran out: the closing \<open>validate\<close> of \<open>transition\<close> never fires, and every refusal is
  one of the event's own guards.
\<close>

theorem job_refusals_are_guards:
  assumes "job_queued ul i ow r k p t0 = Inr j0"
  shows "transition ul (run_events (job_step ul) j0 evs) ev
    \<notin> {Inl InvalidState, Inl InvalidIdentity, Inl CounterOverflow}"
proof -
  have inv: "job_inv ul (run_events (job_step ul) j0 evs)"
    by (rule job.run_inv [OF job_queued_inv [OF assms]])
  show ?thesis
    using apply_errors [OF inv] by (auto simp: transition_of_inv [OF inv] split: sum.splits)
qed

lemma job_refusals_are_guards_witness:
  "transition demo_uuid (run_events (job_step demo_uuid) demo_job [Claim 10 20 ''k'']) (RecoverExpired 20)
     \<notin> {Inl InvalidState, Inl InvalidIdentity, Inl CounterOverflow}"
  by (rule job_refusals_are_guards [OF demo_job_queued])

text \<open>
  C4. Fencing. Once an expired attempt has been recovered, nobody holding its token, or any
  older one, can renew, complete or confirm anything again, however the job goes on.
\<close>

theorem recovered_token_is_dead:
  assumes "job_inv ul j" and "job_step ul j (RecoverExpired now) = Inr j'"
    and "event_token ev = Some tok" and "tok_fence tok \<le> j_fence j"
  shows "\<exists>e. job_step ul (run_events (job_step ul) j' evs) ev = Inl e"
  using recover_advances [OF assms(1,2)] assms(3,4) by (intro stale_token_refused) auto

lemma recovered_token_is_dead_witness:
  "\<exists>e. job_step demo_uuid
     (run_events (job_step demo_uuid)
        (demo_running\<lparr>j_fence := 2, j_state := Interrupted, j_lease_until_ms := None,
                      j_updated_at_ms := 30\<rparr>)
        [RetryInterrupted 40 ''k'', Claim 50 20 ''k''])
     (Complete 60 \<lparr>tok_attempt = 1, tok_fence = 1\<rparr> CompletionSucceeded) = Inl e"
  by (rule recovered_token_is_dead [OF demo_running_inv demo_recovered_step event_token.simps(2)])
    (simp add: demo_running_def demo_job_def)

text \<open>
  C31. The tokens a run hands out are exactly the tokens of attempts one, two, and so on, each
  once and in order, with strictly growing fences; a \<open>Never\<close> job gets at most one attempt and
  an \<open>Idempotent\<close> one at most three.
\<close>

theorem attempts_are_bounded:
  assumes "job_queued ul i ow r k p t0 = Inr j0"
  shows "\<exists>n \<le> attempt_limit p. issued ul j0 evs = map nth_token [1 ..< n + 1]"
proof -
  have inv: "job_inv ul j0" by (rule job_queued_inv [OF assms])
  have new: "j_attempt j0 = 0" "j_replay_policy j0 = p"
    using assms by (auto simp: job_queued_def Let_def result_simps split: if_splits)
  let ?n = "j_attempt (run_events (job_step ul) j0 evs)"
  have "?n \<le> attempt_limit p"
    using inv_attempt_limit [OF job.run_inv [OF inv, of evs]] issued_tokens [OF inv, of evs] new
    by simp
  moreover have "issued ul j0 evs = map nth_token [1 ..< ?n + 1]"
    using issued_tokens [OF inv, of evs] new by simp
  ultimately show ?thesis by blast
qed

lemma attempts_are_bounded_witness:
  "\<exists>n \<le> attempt_limit Idempotent.
     issued demo_uuid demo_job [Claim 10 20 ''k'', RecoverExpired 30] = map nth_token [1 ..< n + 1]"
  by (rule attempts_are_bounded [OF demo_job_queued])

text \<open>
  A job that has succeeded, failed or been cancelled stays exactly as it is: every further
  event is refused.
\<close>

theorem terminal_jobs_stay:
  assumes "job_inv ul j" and "terminal (j_state j)"
  shows "run_events (job_step ul) j evs = j"
  by (rule terminal_absorbs [OF assms])

definition demo_done :: extension_job where
  "demo_done = demo_running\<lparr>j_state := Succeeded, j_lease_until_ms := None, j_updated_at_ms := 20\<rparr>"

lemma demo_done_step:
  "job_step demo_uuid demo_running
     (Complete 20 \<lparr>tok_attempt = 1, tok_fence = 1\<rparr> CompletionSucceeded) = Inr demo_done"
  by (simp add: job_step_of_inv [OF demo_running_inv] bind_res_Inr apply_iffs result_simps)
    (simp add: demo_job_def demo_running_def demo_done_def)

lemma terminal_jobs_stay_witness:
  "run_events (job_step demo_uuid) demo_done [RequestCancellation 30, Claim 40 5 ''k''] = demo_done"
  by (rule terminal_jobs_stay [OF job_step_inv [OF demo_running_inv demo_done_step]])
    (simp add: demo_done_def terminal_def)

text \<open>
  A cancellation request is never withdrawn or moved, and no attempt starts after it.
\<close>

theorem cancellation_is_final:
  assumes "job_inv ul j" and "j_cancel_at_ms j = Some c"
  shows "j_cancel_at_ms (run_events (job_step ul) j evs) = Some c \<and> issued ul j evs = []"
  by (rule cancel_run [OF assms])

lemma demo_cancel_step:
  "job_step demo_uuid demo_running (RequestCancellation 12) =
     Inr (demo_running\<lparr>j_cancel_at_ms := Some 12, j_updated_at_ms := 12\<rparr>)"
  by (simp add: job_step_of_inv [OF demo_running_inv] bind_res_Inr apply_iffs)
    (simp add: demo_job_def demo_running_def)

lemma cancellation_is_final_witness:
  "let j = demo_running\<lparr>j_cancel_at_ms := Some 12, j_updated_at_ms := 12\<rparr>;
       evs = [RequestCancellation 20, RecoverExpired 40, RetryInterrupted 50 ''k'']
   in j_cancel_at_ms (run_events (job_step demo_uuid) j evs) = Some 12 \<and> issued demo_uuid j evs = []"
  unfolding Let_def
  by (rule cancellation_is_final [OF job_step_inv [OF demo_running_inv demo_cancel_step]]) simp

text \<open>
  At every instant exactly one side may end a running attempt: the holder of the current
  token can complete it strictly before the lease runs out, the host can recover it from then on.
\<close>

theorem lease_decides:
  assumes "job_inv ul j" and "j_state j = Running" and "0 \<le> now" and "j_updated_at_ms j \<le> now"
  shows "(\<exists>n. job_step ul j
            (Complete now \<lparr>tok_attempt = j_attempt j, tok_fence = j_fence j\<rparr> oc) = Inr n)
    \<noteq> (\<exists>n. job_step ul j (RecoverExpired now) = Inr n)"
proof -
  obtain until where "j_lease_until_ms j = Some until" "0 < j_attempt j" "0 < j_fence j"
    "j_fence j + 1 \<le> MAX_PERSISTED_COUNTER"
    using assms(1,2)
    by (auto simp: job_inv_def job_validate_Inr job_state_simps counter_bounds split: option.splits)
  with assms show ?thesis
    by (auto simp: job_step_of_inv bind_res_Inr apply_iffs result_simps)
qed

lemma lease_decides_witness:
  "(\<exists>n. job_step demo_uuid demo_running
       (Complete 30 \<lparr>tok_attempt = j_attempt demo_running, tok_fence = j_fence demo_running\<rparr>
          CompletionFailed) = Inr n)
    \<noteq> (\<exists>n. job_step demo_uuid demo_running (RecoverExpired 30) = Inr n)"
  by (rule lease_decides [OF demo_running_inv]) (simp_all add: demo_running_def demo_job_def)

end
