(* ===== verification/Uri.thy ===== *)
theory Uri
  imports Contribution
begin

text \<open>
  \<open>oxplow-domain/src/uri/oxplow_uri.rs\<close> and the builder of \<open>uri/build.rs\<close>: oxplow's URIs,
  \<open>oxplow:<extension>/<name>?key=value&...#key=value&...\<close>. The parser with its errors, the
  percent escapes, and the canonical printer, whose round trip is the point of the lemmas.
\<close>

section \<open>Resource names and keys\<close>

record resource_name =
  rn_extension :: string
  rn_name :: string

datatype uri_error =
  UriEmpty | NotOxplow string | Authority string | BadResource string | BadParam string
  | DuplicateParam string | BadEscape string | NotUtf8 string | Unescaped string

fun reason :: "uri_error \<Rightarrow> string" where
  "reason UriEmpty = ''empty''"
| "reason (NotOxplow _) = ''not_oxplow''"
| "reason (Authority _) = ''authority''"
| "reason (BadResource _) = ''bad_resource''"
| "reason (BadParam _) = ''bad_param''"
| "reason (DuplicateParam _) = ''duplicate_param''"
| "reason (BadEscape _) = ''bad_escape''"
| "reason (NotUtf8 _) = ''not_utf8''"
| "reason (Unescaped _) = ''unescaped''"

definition is_extension :: "string \<Rightarrow> bool" where
  "is_extension s =
     (case s of [] \<Rightarrow> False
      | c # cs \<Rightarrow> is_ascii_lower c
          \<and> list_all (\<lambda>c. is_ascii_lower c \<or> is_ascii_digit c \<or> c = CHR ''-'') cs)"

definition is_name :: "string \<Rightarrow> bool" where
  "is_name s =
     (case s of [] \<Rightarrow> False
      | c # cs \<Rightarrow> is_ascii_lower c
          \<and> list_all (\<lambda>c. is_ascii_lower c \<or> is_ascii_digit c \<or> c = CHR ''_'') cs)"

definition is_key :: "string \<Rightarrow> bool" where
  "is_key s =
     (case s of [] \<Rightarrow> False
      | c # cs \<Rightarrow> is_ascii_alpha c
          \<and> list_all (\<lambda>c. is_ascii_alpha c \<or> is_ascii_digit c
               \<or> c = CHR ''_'' \<or> c = CHR ''.'' \<or> c = CHR ''-'') cs)"

definition is_raw :: "char \<Rightarrow> bool" where
  "is_raw b \<longleftrightarrow> is_ascii_alpha b \<or> is_ascii_digit b
     \<or> b \<in> set (''-._~/:?,@!$()*;'' @ [CHR 0x27])"

definition resource_name_new :: "string \<Rightarrow> string \<Rightarrow> uri_error + resource_name" where
  "resource_name_new ext name =
     (if \<not> is_extension ext \<or> \<not> is_name name then Inl (BadResource (ext @ ''/'' @ name))
      else Inr \<lparr>rn_extension = ext, rn_name = name\<rparr>)"

definition resource_name_parse :: "string \<Rightarrow> uri_error + resource_name" where
  "resource_name_parse s =
     bind_res (ok_or (split_once CHR ''/'' s) (BadResource s))
       (\<lambda>(ext, name). resource_name_new ext name)"

definition resource_name_display :: "resource_name \<Rightarrow> string" where
  "resource_name_display r = rn_extension r @ ''/'' @ rn_name r"

definition resource_ok :: "resource_name \<Rightarrow> bool" where
  "resource_ok r \<longleftrightarrow> is_extension (rn_extension r) \<and> is_name (rn_name r)"

section \<open>Percent escapes\<close>

definition hex_digit :: "char \<Rightarrow> nat option" where
  "hex_digit c =
     (if is_ascii_digit c then Some (byte c - 48)
      else if 97 \<le> byte c \<and> byte c \<le> 102 then Some (byte c - 87)
      else if 65 \<le> byte c \<and> byte c \<le> 70 then Some (byte c - 55)
      else None)"

text \<open>
  \<open>u8::from_str_radix(h, 16)\<close>: an optional leading \<open>+\<close> when something follows it, then hex
  digits, at least one, at most 255.
\<close>

fun hex_value :: "nat \<Rightarrow> string \<Rightarrow> nat option" where
  "hex_value n [] = Some n"
| "hex_value n (c # s) =
     (case hex_digit c of None \<Rightarrow> None
      | Some d \<Rightarrow> if 16 * n + d \<le> 255 then hex_value (16 * n + d) s else None)"

definition u8_from_hex :: "string \<Rightarrow> char option" where
  "u8_from_hex h =
     (let ds = (case h of c # d # r \<Rightarrow> if c = CHR ''+'' then d # r else h | _ \<Rightarrow> h) in
      if ds = [] then None else map_option char_of (hex_value 0 ds))"

fun decode_bytes :: "string \<Rightarrow> string \<Rightarrow> uri_error + string" where
  "decode_bytes v [] = Inr []"
| "decode_bytes v (b # s) =
     (if b = CHR ''%'' then
        (case s of
           h1 # h2 # t \<Rightarrow>
             (case u8_from_hex [h1, h2] of
                None \<Rightarrow> Inl (BadEscape v)
              | Some x \<Rightarrow> bind_res (decode_bytes v t) (\<lambda>out. Inr (x # out)))
         | _ \<Rightarrow> Inl (BadEscape v))
      else if is_raw b \<or> b = CHR ''+'' then bind_res (decode_bytes v s) (\<lambda>out. Inr (b # out))
      else Inl (Unescaped v))"

definition decode :: "string \<Rightarrow> uri_error + string" where
  "decode v =
     bind_res (decode_bytes v v) (\<lambda>out. if utf8_valid out then Inr out else Inl (NotUtf8 v))"

definition hex_upper :: "nat \<Rightarrow> char" where
  "hex_upper d = (if d < 10 then char_of (48 + d) else char_of (55 + d))"

definition encode_byte :: "char \<Rightarrow> string" where
  "encode_byte b =
     (if is_raw b then [b] else [CHR ''%'', hex_upper (byte b div 16), hex_upper (byte b mod 16)])"

definition encode :: "string \<Rightarrow> string" where
  "encode v = concat (map encode_byte v)"

section \<open>Parsing and printing\<close>

fun pairs_loop ::
  "(string \<times> string) list \<Rightarrow> string list \<Rightarrow> uri_error + (string \<times> string) list" where
  "pairs_loop out [] = Inr out"
| "pairs_loop out (pair # rest) =
     (case split_once CHR ''='' pair of
        None \<Rightarrow> Inl (BadParam pair)
      | Some (key, v) \<Rightarrow>
          if \<not> is_key key then Inl (BadParam pair)
          else bind_res (decode v) (\<lambda>value.
            if map_of out key \<noteq> None then Inl (DuplicateParam key)
            else pairs_loop (bt_insert key value out) rest))"

definition pairs :: "string \<Rightarrow> uri_error + (string \<times> string) list" where
  "pairs text = (if text = [] then Inr [] else pairs_loop [] (split_on CHR ''&'' text))"

record oxplow_uri =
  u_resource :: resource_name
  u_params :: "(string \<times> string) list"
  u_view :: "(string \<times> string) list"

text \<open>\<open>OxplowUri::new\<close>; its \<open>assert!\<close> on the keys is \<open>None\<close>.\<close>

definition uri_new ::
  "resource_name \<Rightarrow> (string \<times> string) list \<Rightarrow> (string \<times> string) list \<Rightarrow> oxplow_uri option" where
  "uri_new r params view =
     (if list_all is_key (map fst params @ map fst view)
      then Some \<lparr>u_resource = r, u_params = params, u_view = view\<rparr> else None)"

definition uri_build ::
  "resource_name \<Rightarrow> (string \<times> string) list \<Rightarrow> (string \<times> string) list \<Rightarrow> uri_error + oxplow_uri" where
  "uri_build r params view =
     (case find (\<lambda>k. \<not> is_key k) (map fst params @ map fst view) of
        Some key \<Rightarrow> Inl (BadParam key)
      | None \<Rightarrow> Inr \<lparr>u_resource = r, u_params = params, u_view = view\<rparr>)"

definition split_or :: "char \<Rightarrow> string \<Rightarrow> string \<times> string" where
  "split_or c s = (case split_once c s of Some (a, b) \<Rightarrow> (a, b) | None \<Rightarrow> (s, []))"

definition uri_parse :: "string \<Rightarrow> uri_error + oxplow_uri" where
  "uri_parse text =
     (if text = [] then Inl UriEmpty
      else bind_res (ok_or (strip_prefix ''oxplow:'' text) (NotOxplow text)) (\<lambda>rest.
        if prefix ''//'' rest then Inl (Authority text)
        else
          (let (before_view, view) = split_or CHR ''#'' rest;
               (path, query) = split_or CHR ''?'' before_view in
           bind_res (resource_name_parse path) (\<lambda>r.
           bind_res (pairs query) (\<lambda>ps.
           bind_res (pairs view) (\<lambda>vs.
             Inr \<lparr>u_resource = r, u_params = ps, u_view = vs\<rparr>))))))"

definition write_pair :: "string \<times> string \<Rightarrow> string" where
  "write_pair kv = fst kv @ ''='' @ encode (snd kv)"

fun write_pairs :: "char \<Rightarrow> (string \<times> string) list \<Rightarrow> string" where
  "write_pairs lead [] = []"
| "write_pairs lead (kv # kvs) = lead # write_pair kv @ write_pairs CHR ''&'' kvs"

definition identity :: "oxplow_uri \<Rightarrow> string" where
  "identity u = ''oxplow:'' @ resource_name_display (u_resource u) @ write_pairs CHR ''?'' (u_params u)"

definition uri_display :: "oxplow_uri \<Rightarrow> string" where
  "uri_display u = identity u @ write_pairs CHR ''#'' (u_view u)"

definition uri_param :: "oxplow_uri \<Rightarrow> string \<Rightarrow> string option" where
  "uri_param u key = map_of (u_params u) key"

definition with_view :: "oxplow_uri \<Rightarrow> (string \<times> string) list \<Rightarrow> oxplow_uri option" where
  "with_view u view = uri_new (u_resource u) (u_params u) view"

text \<open>
  \<open>build::of_with_view\<close>: a bad resource name or key is a panic, \<open>None\<close> here.
\<close>

definition of_with_view ::
  "string \<Rightarrow> (string \<times> string) list \<Rightarrow> (string \<times> string) list \<Rightarrow> string option" where
  "of_with_view res params view =
     (case resource_name_parse res of
        Inl _ \<Rightarrow> None
      | Inr name \<Rightarrow> map_option uri_display (uri_new name (bt_of_list params) (bt_of_list view)))"

definition uri_of :: "string \<Rightarrow> (string \<times> string) list \<Rightarrow> string option" where
  "uri_of res params = of_with_view res params []"

section \<open>Escapes round trip\<close>

lemma byte_lt [simp]: "byte c < 256"
  by (simp add: byte_def of_char_def horner_sum_bit_eq_take_bit
      take_bit_nat_less_exp [of 8, simplified])

lemma char_of_byte [simp]: "char_of (byte c) = c"
  by (simp add: byte_def)

lemma hex_cases:
  "(d::nat) < 16 \<Longrightarrow>
     d = 0 \<or> d = 1 \<or> d = 2 \<or> d = 3 \<or> d = 4 \<or> d = 5 \<or> d = 6 \<or> d = 7 \<or> d = 8
     \<or> d = 9 \<or> d = 10 \<or> d = 11 \<or> d = 12 \<or> d = 13 \<or> d = 14 \<or> d = 15"
  by presburger

lemma hex_digit_upper: "d < 16 \<Longrightarrow> hex_digit (hex_upper d) = Some d"
proof -
  assume "d < 16"
  from hex_cases [OF this] show ?thesis
    by (elim disjE) (simp_all add: hex_digit_def hex_upper_def char_class_defs)
qed

lemma hex_upper_raw:
  assumes "d < 16"
  shows "is_raw (hex_upper d)" "hex_upper d \<noteq> CHR ''+''"
proof -
  have "is_raw (hex_upper d) \<and> byte (hex_upper d) \<noteq> byte CHR ''+''"
    using hex_cases [OF assms]
    by (elim disjE) (simp_all add: is_raw_def hex_upper_def char_class_defs)
  then show "is_raw (hex_upper d)" "hex_upper d \<noteq> CHR ''+''" by auto
qed

lemma u8_from_hex_byte:
  "u8_from_hex [hex_upper (byte b div 16), hex_upper (byte b mod 16)] = Some b"
proof -
  have hi: "byte b div 16 < 16" using byte_lt [of b] by arith
  have lo: "byte b mod 16 < 16" by simp
  have "16 * (byte b div 16) + byte b mod 16 = byte b" by simp
  moreover have "byte b \<le> 255" using byte_lt [of b] by linarith
  ultimately show ?thesis
    using hex_digit_upper [OF hi] hex_digit_upper [OF lo] hex_upper_raw [OF hi]
    by (auto simp: u8_from_hex_def Let_def)
qed

lemma not_raw: "\<not> is_raw CHR ''%''" "\<not> is_raw CHR ''&''" "\<not> is_raw CHR ''=''" "\<not> is_raw CHR ''#''"
  by (simp_all add: is_raw_def char_class_defs)

lemma encode_simps [simp]: "encode [] = []" "encode (b # v) = encode_byte b @ encode v"
  by (simp_all add: encode_def)

lemma decode_bytes_encode: "decode_bytes w (encode v) = Inr v"
proof (induction v)
  case Nil
  then show ?case by simp
next
  case (Cons b v)
  show ?case
  proof (cases "is_raw b")
    case True
    then have "b \<noteq> CHR ''%''" using not_raw by metis
    with True Cons.IH show ?thesis by (simp add: encode_byte_def)
  next
    case False
    with Cons.IH show ?thesis by (simp add: encode_byte_def u8_from_hex_byte)
  qed
qed

lemma decode_encode: "utf8_valid v \<Longrightarrow> decode (encode v) = Inr v"
  by (simp add: decode_def decode_bytes_encode)

lemma decode_utf8: "decode w = Inr v \<Longrightarrow> utf8_valid v"
  by (auto simp: decode_def bind_res_Inr split: if_splits)

interpretation uri_value: canonical_roundtrip encode decode utf8_valid
  by unfold_locales (rule decode_encode, assumption, rule decode_utf8)

section \<open>Whole URIs round trip\<close>

definition pairs_ok :: "(string \<times> string) list \<Rightarrow> bool" where
  "pairs_ok m \<longleftrightarrow> bt_inv m \<and> (\<forall>(k, v) \<in> set m. is_key k \<and> utf8_valid v)"

definition uri_ok :: "oxplow_uri \<Rightarrow> bool" where
  "uri_ok u \<longleftrightarrow> resource_ok (u_resource u) \<and> pairs_ok (u_params u) \<and> pairs_ok (u_view u)"

lemma encode_chars: "c \<in> set (encode v) \<Longrightarrow> is_raw c \<or> c = CHR ''%''"
proof (induction v)
  case Nil
  then show ?case by simp
next
  case (Cons b v)
  have "byte b div 16 < 16" "byte b mod 16 < 16" using byte_lt [of b] by arith+
  then show ?case
    using Cons hex_upper_raw by (auto simp: encode_byte_def split: if_splits)
qed

lemma encode_free: "CHR ''&'' \<notin> set (encode v)" "CHR ''#'' \<notin> set (encode v)"
  using encode_chars not_raw by fastforce+

lemma key_chars:
  assumes "is_key k" "c \<in> set k"
  shows "is_ascii_alpha c \<or> is_ascii_digit c \<or> c = CHR ''_'' \<or> c = CHR ''.'' \<or> c = CHR ''-''"
  using assms by (auto simp: is_key_def list_all_iff split: list.splits)

lemma key_free: "is_key k \<Longrightarrow> CHR ''='' \<notin> set k \<and> CHR ''&'' \<notin> set k \<and> CHR ''#'' \<notin> set k"
  using key_chars by (fastforce simp: char_class_defs)

lemma name_chars:
  "is_extension s \<or> is_name s \<Longrightarrow> c \<in> set s \<Longrightarrow>
     is_ascii_lower c \<or> is_ascii_digit c \<or> c = CHR ''-'' \<or> c = CHR ''_''"
  by (auto simp: is_extension_def is_name_def list_all_iff split: list.splits)

lemma name_free:
  "is_extension s \<or> is_name s \<Longrightarrow>
     CHR ''/'' \<notin> set s \<and> CHR ''?'' \<notin> set s \<and> CHR ''#'' \<notin> set s"
  using name_chars by (fastforce simp: char_class_defs)

lemma resource_parse_display:
  "resource_ok r \<Longrightarrow> resource_name_parse (resource_name_display r) = Inr r"
  using name_free [of "rn_extension r"]
  by (simp add: resource_name_parse_def resource_name_display_def resource_name_new_def
      resource_ok_def)

lemma resource_parse_ok: "resource_name_parse s = Inr r \<Longrightarrow> resource_ok r"
  by (auto simp: resource_name_parse_def resource_name_new_def resource_ok_def bind_res_Inr
      split: if_splits)

lemma write_pairs_join:
  "kvs \<noteq> [] \<Longrightarrow> write_pairs lead kvs = lead # join [CHR ''&''] (map write_pair kvs)"
proof (induction kvs arbitrary: lead)
  case Nil
  then show ?case by simp
next
  case (Cons kv kvs)
  then show ?case by (cases kvs) auto
qed

lemma split_on_join:
  "ws \<noteq> [] \<Longrightarrow> \<forall>w \<in> set ws. c \<notin> set w \<Longrightarrow> split_on c (join [c] ws) = ws"
proof (induction ws)
  case Nil
  then show ?case by simp
next
  case (Cons w ws)
  then show ?case by (cases ws) (auto simp: split_on_word split_on_append)
qed

lemma write_pair_free:
  "is_key (fst kv) \<Longrightarrow> CHR ''&'' \<notin> set (write_pair kv) \<and> CHR ''#'' \<notin> set (write_pair kv)"
  using key_free encode_free by (auto simp: write_pair_def)

lemma pairs_loop_write:
  assumes "\<forall>(k, v) \<in> set kvs. is_key k \<and> utf8_valid v" "bt_inv (out @ kvs)"
  shows "pairs_loop out (map write_pair kvs) = Inr (out @ kvs)"
  using assms
proof (induction kvs arbitrary: out)
  case Nil
  then show ?case by simp
next
  case (Cons kv kvs)
  obtain k v where kv: "kv = (k, v)" by (cases kv)
  from Cons.prems(2) have lt: "\<forall>x \<in> fst ` set out. x < k"
    by (auto simp: kv bt_inv_def sorted_wrt_append)
  then have "map_of out k = None" by (auto simp: map_of_eq_None_iff)
  moreover have "bt_insert k v out = out @ [(k, v)]" by (rule bt_insert_last [OF lt])
  moreover have "split_once CHR ''='' (write_pair kv) = Some (k, encode v)"
    using Cons.prems(1) key_free by (auto simp: write_pair_def kv)
  ultimately show ?case
    using Cons.IH [of "out @ [(k, v)]"] Cons.prems by (simp add: kv decode_encode)
qed

lemma pairs_write: "pairs_ok m \<Longrightarrow> pairs (drop 1 (write_pairs lead m)) = Inr m"
proof (cases "m = []")
  case True
  then show ?thesis by (simp add: pairs_def)
next
  case False
  assume ok: "pairs_ok m"
  let ?ws = "map write_pair m"
  have "\<forall>w \<in> set ?ws. CHR ''&'' \<notin> set w"
    using ok write_pair_free by (fastforce simp: pairs_ok_def)
  with False have "split_on CHR ''&'' (join [CHR ''&''] ?ws) = ?ws"
    by (intro split_on_join) auto
  moreover have "join [CHR ''&''] ?ws \<noteq> []"
    using False by (cases m; cases "tl m") (auto simp: write_pair_def)
  ultimately show ?thesis
    using ok False pairs_loop_write [of m "[]"]
    by (simp add: pairs_def write_pairs_join pairs_ok_def)
qed

lemma pairs_loop_ok:
  "pairs_loop out ps = Inr m \<Longrightarrow> pairs_ok out \<Longrightarrow> pairs_ok m"
proof (induction out ps rule: pairs_loop.induct)
  case (1 out)
  then show ?case by simp
next
  case (2 out pair rest)
  from "2.prems"(1) obtain key v dv where
    sp: "split_once CHR ''='' pair = Some (key, v)" and key: "is_key key"
    and dec: "decode v = Inr dv" and fresh: "map_of out key = None"
    and rest: "pairs_loop (bt_insert key dv out) rest = Inr m"
    by (auto simp: bind_res_Inr split: option.splits if_splits)
  have "pairs_ok (bt_insert key dv out)"
  proof -
    have inv: "bt_inv (bt_insert key dv out)" using "2.prems"(2) by (simp add: pairs_ok_def)
    have "is_key k \<and> utf8_valid w" if "(k, w) \<in> set (bt_insert key dv out)" for k w
    proof -
      have "map_of (bt_insert key dv out) k = Some w"
        by (rule map_of_is_SomeI [OF bt_inv_distinct [OF inv] that])
      then have "(k = key \<and> w = dv) \<or> map_of out k = Some w" by (auto split: if_splits)
      then show ?thesis
        using key decode_utf8 [OF dec] "2.prems"(2) by (auto simp: pairs_ok_def dest: map_of_SomeD)
    qed
    with inv show ?thesis by (auto simp: pairs_ok_def)
  qed
  with "2.IH" sp key dec fresh rest show ?case by auto
qed

lemma pairs_parse_ok: "pairs s = Inr m \<Longrightarrow> pairs_ok m"
  by (auto simp: pairs_def pairs_ok_def split: if_splits dest!: pairs_loop_ok)

lemma write_pairs_free:
  assumes "pairs_ok m" "lead \<noteq> CHR ''#''"
  shows "CHR ''#'' \<notin> set (write_pairs lead m)"
proof -
  have "CHR ''#'' \<notin> set (write_pair kv)" if "kv \<in> set m" for kv
    using that assms(1) write_pair_free by (fastforce simp: pairs_ok_def)
  then show ?thesis
    using assms(2) by (induction m arbitrary: lead) (auto simp: pairs_ok_def)
qed

lemma split_or_write:
  assumes "c \<notin> set a"
  shows "split_or c (a @ write_pairs c m) = (a, drop 1 (write_pairs c m))"
  using assms by (cases m) (auto simp: split_or_def split_once_None [THEN iffD2])

lemma parse_display:
  assumes ok: "uri_ok u"
  shows "uri_parse (uri_display u) = Inr u"
proof -
  let ?path = "resource_name_display (u_resource u)"
  let ?q = "write_pairs CHR ''?'' (u_params u)" and ?v = "write_pairs CHR ''#'' (u_view u)"
  have ext: "is_extension (rn_extension (u_resource u))" and name: "is_name (rn_name (u_resource u))"
    and ps: "pairs_ok (u_params u)" and vs: "pairs_ok (u_view u)"
    and res: "resource_ok (u_resource u)"
    using ok by (auto simp: uri_ok_def resource_ok_def)
  have path: "CHR ''?'' \<notin> set ?path" "CHR ''#'' \<notin> set ?path" "\<not> prefix ''//'' (?path @ ?q @ ?v)"
    using name_free [of "rn_extension (u_resource u)"] name_free [of "rn_name (u_resource u)"] ext name
    by (auto simp: resource_name_display_def is_extension_def split: list.splits)
  have "CHR ''#'' \<notin> set (?path @ ?q)" using path write_pairs_free [OF ps] by simp
  from split_or_write [OF this]
  have s1: "split_or CHR ''#'' (?path @ ?q @ ?v) = (?path @ ?q, drop 1 ?v)" by simp
  have s2: "split_or CHR ''?'' (?path @ ?q) = (?path, drop 1 ?q)"
    by (rule split_or_write [OF path(1)])
  have disp: "uri_display u = ''oxplow:'' @ (?path @ ?q @ ?v)"
    by (simp add: uri_display_def identity_def)
  have pre: "strip_prefix ''oxplow:'' (uri_display u) = Some (?path @ ?q @ ?v)"
    unfolding disp by (rule strip_prefix_append)
  show ?thesis
    using pre path(3) s1 s2 resource_parse_display [OF res] pairs_write [OF ps] pairs_write [OF vs]
    by (simp add: uri_parse_def disp)
qed

lemma parse_ok: "uri_parse s = Inr u \<Longrightarrow> uri_ok u"
  by (auto simp: uri_parse_def uri_ok_def bind_res_Inr Let_def
      split: if_splits prod.splits dest: resource_parse_ok pairs_parse_ok)

interpretation uri: canonical_roundtrip uri_display uri_parse uri_ok
  by unfold_locales (rule parse_display, assumption, rule parse_ok)

lemma identity_no_view: "identity u = uri_display (u\<lparr>u_view := []\<rparr>)"
  by (simp add: uri_display_def identity_def)

lemma uri_ok_no_view: "uri_ok u \<Longrightarrow> uri_ok (u\<lparr>u_view := []\<rparr>)"
  by (simp add: uri_ok_def pairs_ok_def)

lemma identity_eq_iff:
  assumes "uri_ok u" "uri_ok v"
  shows "identity u = identity v \<longleftrightarrow> u_resource u = u_resource v \<and> u_params u = u_params v"
proof -
  have "identity u = identity v \<longleftrightarrow> u\<lparr>u_view := []\<rparr> = v\<lparr>u_view := []\<rparr>"
    using uri.print_eq_iff [OF uri_ok_no_view uri_ok_no_view] assms
    by (simp add: identity_no_view)
  then show ?thesis by (cases u; cases v) auto
qed

section \<open>Properties\<close>

definition demo_uri :: oxplow_uri where
  "demo_uri =
     \<lparr>u_resource = \<lparr>rn_extension = ''oxplow'', rn_name = ''file''\<rparr>,
      u_params = [(''path'', ''a b'')], u_view = [(''lines'', ''1'')]\<rparr>"

lemma demo_uri_ok: "uri_ok demo_uri"
  by (simp add: demo_uri_def uri_ok_def resource_ok_def pairs_ok_def bt_inv_def is_extension_def
      is_name_def is_key_def char_class_defs utf8_valid_Cons_ascii)

text \<open>
  C34. Printing a URI and parsing it again gives the same URI: its resource, and every param and
  view value, whatever characters the values hold.
\<close>

theorem uri_prints_and_parses:
  assumes "uri_ok u"
  shows "uri_parse (uri_display u) = Inr u"
  by (rule uri.parse_print [OF assms])

lemma uri_prints_and_parses_witness: "uri_parse (uri_display demo_uri) = Inr demo_uri"
  by (rule uri_prints_and_parses [OF demo_uri_ok])

text \<open>
  A parsed URI prints in one canonical form: two texts that parse print alike exactly when
  they name the same thing with the same view, and the canonical text is a fixed point.
\<close>

theorem uri_canonical_form:
  assumes "uri_parse s = Inr u" and "uri_parse t = Inr v"
  shows "(uri_display u = uri_display v \<longleftrightarrow> u = v) \<and> uri_parse (uri_display u) = Inr u"
  using uri.same_parse_same_print [OF assms] uri.normal_form [OF assms(1)] by blast

lemma uri_canonical_form_witness:
  "(uri_display demo_uri = uri_display demo_uri \<longleftrightarrow> demo_uri = demo_uri)
    \<and> uri_parse (uri_display demo_uri) = Inr demo_uri"
  by (rule uri_canonical_form [OF parse_display parse_display]) (rule demo_uri_ok)+

text \<open>
  A URI's identity, its text without the view, is equal for two well-formed URIs exactly when
  their resource and their params are: nothing else a URI carries enters a stored key.
\<close>

theorem identity_is_resource_and_params:
  assumes "uri_ok u" and "uri_ok v"
  shows "identity u = identity v \<longleftrightarrow> u_resource u = u_resource v \<and> u_params u = u_params v"
  by (rule identity_eq_iff [OF assms])

lemma identity_is_resource_and_params_witness:
  "identity demo_uri = identity demo_uri \<longleftrightarrow>
     u_resource demo_uri = u_resource demo_uri \<and> u_params demo_uri = u_params demo_uri"
  by (rule identity_is_resource_and_params [OF demo_uri_ok demo_uri_ok])

text \<open>
  An escape is documented as two hex digits, but \<open>u8::from_str_radix\<close> also reads a leading plus
  sign: \<open>%+5\<close> decodes to the byte 5.
\<close>

lemma plus_escape_accepted: "decode ''%+5'' = Inr [CHR 0x05]"
  by (simp add: decode_def u8_from_hex_def hex_digit_def char_class_defs utf8_valid_Cons_ascii
      Let_def char_of_def bit_0)

end
