(* ===== verification/Uri_Build.thy ===== *)
theory Uri_Build
  imports Uri Contribution
begin

text \<open>
  \<open>oxplow-domain/src/uri/build.rs\<close>, the builders and readers of oxplow's URIs, and the text form
  of a contribution's ref (\<open>Display\<close> and \<open>FromStr\<close> of \<open>ContributionRef\<close> in
  \<open>contribution.rs\<close>), which is one of them. A builder that panics on a bad resource or key is
  \<open>None\<close>. The lemmas: every reader reads back what its builder wrote, the builders never panic
  on the resources they are called with, and a work item has one accepted spelling.
\<close>

section \<open>Builders and readers\<close>

definition FILE :: string where "FILE = ''oxplow/file''"
definition DIR :: string where "DIR = ''oxplow/dir''"
definition SYMBOL :: string where "SYMBOL = ''oxplow/symbol''"
definition WORK_ITEM :: string where "WORK_ITEM = ''oxplow/work_item''"
definition CONSUMER :: string where "CONSUMER = ''oxplow/consumer''"
definition FS_LOCAL :: string where "FS_LOCAL = ''oxplow:local''"

lemmas resource_consts = FILE_def DIR_def SYMBOL_def WORK_ITEM_def CONSUMER_def

definition key_param :: "string \<Rightarrow> string option" where
  "key_param res =
     (case split_once CHR ''/'' res of
        None \<Rightarrow> None
      | Some (ext, name) \<Rightarrow>
          if ext \<noteq> ''oxplow'' then Some ''id''
          else if list_ex (\<lambda>k. segment (ks_kind k) = name) KINDS then Some name
          else if name = ''commit'' then Some ''sha''
          else if name = ''branch'' \<or> name = ''ai_model'' \<or> name = ''extension'' \<or> name = ''consumer''
          then Some ''name''
          else if name = ''wiki'' then Some ''slug''
          else if name = ''config'' then Some ''key''
          else if name = ''nudge'' then Some ''kind''
          else if name = ''file'' \<or> name = ''dir'' \<or> name = ''symbol'' \<or> name = ''work_item''
                  \<or> name = ''subagent'' \<or> name = ''block'' \<or> name = ''test''
                  \<or> name = ''extension_deployment''
          then None
          else Some ''id'')"

definition expand_short :: "string \<Rightarrow> string option" where
  "expand_short t =
     (if prefix ''oxplow:'' t then None
      else
        (case split_once CHR '':'' t of
           None \<Rightarrow> None
         | Some (name, v) \<Rightarrow>
             (let res = ''oxplow/'' @ name in
              case resource_name_parse res of
                Inl _ \<Rightarrow> None
              | Inr _ \<Rightarrow>
                  (case key_param res of
                     None \<Rightarrow> None
                   | Some key \<Rightarrow> if v \<noteq> [] then uri_of res [(key, v)] else None))))"

record not_a =
  na_text :: string
  na_resource :: string

definition parse_resource :: "string \<Rightarrow> string \<Rightarrow> not_a + oxplow_uri" where
  "parse_resource t res =
     (case uri_parse t of
        Inl _ \<Rightarrow> Inl \<lparr>na_text = t, na_resource = res\<rparr>
      | Inr u \<Rightarrow>
          if resource_name_display (u_resource u) = res then Inr u
          else Inl \<lparr>na_text = t, na_resource = res\<rparr>)"

definition param_of :: "string \<Rightarrow> string \<Rightarrow> string \<Rightarrow> not_a + string" where
  "param_of t res name =
     bind_res (parse_resource t res)
       (\<lambda>u. ok_or (uri_param u name) \<lparr>na_text = t, na_resource = res\<rparr>)"

definition id_of :: "string \<Rightarrow> string \<Rightarrow> not_a + string" where
  "id_of t res =
     bind_res (ok_or (key_param res) \<lparr>na_text = t, na_resource = res\<rparr>) (\<lambda>key.
     bind_res (parse_resource t res) (\<lambda>u.
       if length (u_params u) \<noteq> 1 \<or> u_view u \<noteq> [] then Inl \<lparr>na_text = t, na_resource = res\<rparr>
       else ok_or (uri_param u key) \<lparr>na_text = t, na_resource = res\<rparr>))"

definition resource_of :: "string \<Rightarrow> string option" where
  "resource_of t =
     (case uri_parse t of Inl _ \<Rightarrow> None | Inr u \<Rightarrow> Some (resource_name_display (u_resource u)))"

definition keyed :: "string \<Rightarrow> string \<Rightarrow> string option" where
  "keyed res v = Option.bind (key_param res) (\<lambda>key. uri_of res [(key, v)])"

definition consumer_uri :: "string \<Rightarrow> string option" where
  "consumer_uri name = keyed CONSUMER name"

section \<open>Files, symbols, work items\<close>

definition located :: "string \<Rightarrow> string option \<Rightarrow> string option \<Rightarrow> (string \<times> string) list" where
  "located path fs rv =
     [(''path'', path)]
     @ (case fs of Some f \<Rightarrow> if f \<noteq> FS_LOCAL then [(''filesystem'', f)] else [] | None \<Rightarrow> [])
     @ (case rv of Some r \<Rightarrow> [(''rev'', r)] | None \<Rightarrow> [])"

definition file_uri_at ::
  "string \<Rightarrow> string option \<Rightarrow> string option \<Rightarrow> string option \<Rightarrow> string option" where
  "file_uri_at path fs rv lns =
     (let view = (case lns of Some l \<Rightarrow> [(''lines'', l)] | None \<Rightarrow> []) in
      of_with_view FILE (located path fs rv) view)"

record file_ref =
  fr_path :: string
  fr_filesystem :: "string option"
  fr_rev :: "string option"
  fr_lines :: "string option"

definition file_of_uri :: "string \<Rightarrow> not_a + file_ref" where
  "file_of_uri t =
     bind_res (parse_resource t FILE) (\<lambda>u.
     bind_res (ok_or (uri_param u ''path'') \<lparr>na_text = t, na_resource = FILE\<rparr>) (\<lambda>path.
       Inr \<lparr>fr_path = path,
            fr_filesystem =
              (case uri_param u ''filesystem'' of
                 Some f \<Rightarrow> if f \<noteq> FS_LOCAL then Some f else None
               | None \<Rightarrow> None),
            fr_rev = uri_param u ''rev'',
            fr_lines = map_of (u_view u) ''lines''\<rparr>))"

definition dir_uri_at :: "string \<Rightarrow> string option \<Rightarrow> string option \<Rightarrow> string option" where
  "dir_uri_at path fs rv = uri_of DIR (located path fs rv)"

definition symbol_uri_at :: "string \<Rightarrow> string \<Rightarrow> string option \<Rightarrow> string option" where
  "symbol_uri_at path i rv =
     uri_of SYMBOL
       ([(''path'', path), (''symbol'', i)] @ (case rv of Some r \<Rightarrow> [(''rev'', r)] | None \<Rightarrow> []))"

definition work_item_uri :: "string \<Rightarrow> string \<Rightarrow> string option" where
  "work_item_uri provider i = uri_of WORK_ITEM [(''provider'', provider), (''id'', i)]"

definition work_item_of_uri :: "string \<Rightarrow> (string \<times> string) option" where
  "work_item_of_uri t =
     (case parse_resource t WORK_ITEM of
        Inl _ \<Rightarrow> None
      | Inr u \<Rightarrow>
          (case uri_param u ''provider'' of
             None \<Rightarrow> None
           | Some p \<Rightarrow> (case uri_param u ''id'' of None \<Rightarrow> None | Some i \<Rightarrow> Some (p, i))))"

datatype work_item_problem =
  WiNotUri uri_error | WiNotWorkItem | WiNoProviderOrId | WiOtherParams | WiNotCanonical string

definition provider_name_ok :: "string \<Rightarrow> bool" where
  "provider_name_ok p \<longleftrightarrow>
     starts_lower p
     \<and> list_all (\<lambda>c. is_ascii_lower c \<or> is_ascii_digit c \<or> c = CHR ''_'' \<or> c = CHR ''-'') p"

definition validate_work_item_uri :: "string \<Rightarrow> work_item_problem + unit" where
  "validate_work_item_uri t =
     (case uri_parse t of
        Inl e \<Rightarrow> Inl (WiNotUri e)
      | Inr u \<Rightarrow>
          if resource_name_display (u_resource u) \<noteq> WORK_ITEM then Inl WiNotWorkItem
          else if \<not> (case uri_param u ''provider'' of None \<Rightarrow> False | Some p \<Rightarrow> provider_name_ok p)
                  \<or> (case uri_param u ''id'' of None \<Rightarrow> True | Some i \<Rightarrow> i = [])
          then Inl WiNoProviderOrId
          else if length (u_params u) \<noteq> 2 \<or> u_view u \<noteq> [] then Inl WiOtherParams
          else if uri_display u \<noteq> t then Inl (WiNotCanonical (uri_display u))
          else Inr ())"

section \<open>Contribution refs as text\<close>

datatype ref_problem =
  RefNotUri uri_error | RefNotAKind string | RefNotOneParam string | RefNotExtensionId string
  | RefBadId string | RefBadName string

definition ref_display :: "contribution_ref \<Rightarrow> string option" where
  "ref_display r =
     (let i = (case ref_extension r of Some ext \<Rightarrow> ext @ ''/'' @ ref_name r | None \<Rightarrow> ref_name r);
          seg = segment (ref_kind r) in
      uri_of (''oxplow/'' @ seg) [(seg, i)])"

definition ref_from_str :: "string \<Rightarrow> ref_problem + contribution_ref" where
  "ref_from_str s =
     (case uri_parse s of
        Inl e \<Rightarrow> Inl (RefNotUri e)
      | Inr parsed \<Rightarrow>
          (let res = u_resource parsed in
           bind_res
             (ok_or (find (\<lambda>k. rn_extension res = ''oxplow'' \<and> segment k = rn_name res)
                       (map ks_kind KINDS))
                (RefNotAKind (resource_name_display res))) (\<lambda>kind.
           bind_res
             (ok_or (if length (u_params parsed) = 1 \<and> u_view parsed = []
                     then uri_param parsed (segment kind) else None)
                (RefNotOneParam s)) (\<lambda>i.
           bind_res
             (if global_name kind then Inr (RefParts kind None i)
              else
                bind_res (ok_or (split_once CHR ''/'' i) (RefNotExtensionId s)) (\<lambda>(ext, name).
                  case problem (contribution_id_new ext kind name) of
                    Some p \<Rightarrow> Inl (RefBadId p)
                  | None \<Rightarrow> Inr (RefParts kind (Some ext) name))) (\<lambda>parts.
             if ref_extension parts = None \<and> \<not> valid_local kind (ref_name parts)
             then Inl (RefBadName (ref_name parts))
             else Inr parts)))))"

section \<open>Readers read builders\<close>

lemma resource_display_parse:
  "resource_name_parse s = Inr r \<Longrightarrow> resource_name_display r = s"
  by (auto simp: resource_name_parse_def resource_name_new_def resource_name_display_def
      bind_res_Inr ok_or_iff split_once_Some split: if_splits)

lemma built_pairs_ok:
  assumes "list_all is_key (map fst (bt_of_list m))" "\<forall>kv \<in> set m. utf8_valid (snd kv)"
  shows "pairs_ok (bt_of_list m)"
proof -
  have "is_key k \<and> utf8_valid v" if kv: "(k, v) \<in> set (bt_of_list m)" for k v
    using assms bt_of_list_mem [OF kv] imageI [OF kv, of fst]
    by (simp only: list_all_iff set_map) fastforce
  then show ?thesis by (auto simp: pairs_ok_def)
qed

lemma of_with_view_parse:
  assumes "of_with_view res params view = Some t"
    and "\<forall>kv \<in> set (params @ view). utf8_valid (snd kv)"
  shows "\<exists>r. resource_name_parse res = Inr r
    \<and> uri_parse t = Inr \<lparr>u_resource = r, u_params = bt_of_list params, u_view = bt_of_list view\<rparr>"
proof -
  obtain r where r: "resource_name_parse res = Inr r"
    and keys: "list_all is_key (map fst (bt_of_list params) @ map fst (bt_of_list view))"
    and t: "t = uri_display \<lparr>u_resource = r, u_params = bt_of_list params, u_view = bt_of_list view\<rparr>"
    using assms(1) by (auto simp: of_with_view_def uri_new_def split: sum.splits if_splits)
  have "pairs_ok (bt_of_list params)" "pairs_ok (bt_of_list view)"
    using keys assms(2) by (auto intro!: built_pairs_ok simp: list_all_append simp del: bt_keys_of_list)
  then have "uri_ok \<lparr>u_resource = r, u_params = bt_of_list params, u_view = bt_of_list view\<rparr>"
    using resource_parse_ok [OF r] by (simp add: uri_ok_def)
  with r t show ?thesis by (auto dest: parse_display)
qed

lemma keys_build:
  "resource_name_parse res = Inr r \<Longrightarrow> \<forall>kv \<in> set (params @ view). is_key (fst kv) \<Longrightarrow>
     \<exists>t. of_with_view res params view = Some t"
proof -
  assume res: "resource_name_parse res = Inr r" and keys: "\<forall>kv \<in> set (params @ view). is_key (fst kv)"
  have "set (map fst (bt_of_list params) @ map fst (bt_of_list view)) = fst ` set (params @ view)"
    by (simp add: image_Un)
  with keys have "list_all is_key (map fst (bt_of_list params) @ map fst (bt_of_list view))"
    by (simp only: list_all_iff) auto
  with res show ?thesis by (simp add: of_with_view_def uri_new_def)
qed

lemma of_parse_resource:
  assumes "of_with_view res params view = Some t"
    and "\<forall>kv \<in> set (params @ view). utf8_valid (snd kv)"
  shows "\<exists>r. parse_resource t res =
    Inr \<lparr>u_resource = r, u_params = bt_of_list params, u_view = bt_of_list view\<rparr>"
  using of_with_view_parse [OF assms] by (auto simp: parse_resource_def dest: resource_display_parse)

lemma bt_of_list_one [simp]: "bt_of_list [kv] = [kv]"
  by (cases kv) (simp add: bt_of_list_def)

lemma bt_of_list_Nil [simp]: "bt_of_list [] = []"
  by (simp add: bt_of_list_def)

lemma id_of_keyed:
  assumes "keyed res v = Some t" "utf8_valid v"
  shows "id_of t res = Inr v"
proof -
  obtain key where key: "key_param res = Some key" and t: "uri_of res [(key, v)] = Some t"
    using assms(1) by (auto simp: keyed_def bind_eq_Some_conv)
  with assms(2) show ?thesis
    using of_parse_resource [of res "[(key, v)]" "[]" t]
    by (auto simp: uri_of_def id_of_def uri_param_def)
qed


lemma file_of_file_uri:
  assumes t: "file_uri_at path fs rv lns = Some t"
    and u8: "utf8_valid path" "\<forall>f \<in> set_option fs. utf8_valid f" "\<forall>r \<in> set_option rv. utf8_valid r"
      "\<forall>l \<in> set_option lns. utf8_valid l"
  shows "file_of_uri t =
    Inr \<lparr>fr_path = path, fr_filesystem = (if fs = Some FS_LOCAL then None else fs), fr_rev = rv,
         fr_lines = lns\<rparr>"
proof -
  let ?view = "case lns of Some l \<Rightarrow> [(''lines'', l)] | None \<Rightarrow> []"
  have "\<forall>kv \<in> set (located path fs rv @ ?view). utf8_valid (snd kv)"
    using u8 by (auto simp: located_def split: option.splits)
  with of_parse_resource [of FILE "located path fs rv" ?view t] t
  obtain r where "parse_resource t FILE =
      Inr \<lparr>u_resource = r, u_params = bt_of_list (located path fs rv), u_view = bt_of_list ?view\<rparr>"
    unfolding file_uri_at_def Let_def by blast
  then show ?thesis
    by (simp add: file_of_uri_def uri_param_def bt_get_of_list located_def split: option.splits)
qed

lemma file_uri_total: "\<exists>t. file_uri_at path fs rv lns = Some t"
proof -
  have "resource_name_parse FILE = Inr \<lparr>rn_extension = ''oxplow'', rn_name = ''file''\<rparr>"
    by (simp add: FILE_def resource_name_parse_def resource_name_new_def is_extension_def is_name_def
        char_class_defs)
  then show ?thesis
    unfolding file_uri_at_def Let_def
    by (rule keys_build) (auto simp: located_def is_key_def char_class_defs split: option.splits if_splits)
qed

lemma work_item_of_work_item_uri:
  assumes "work_item_uri p i = Some t" "utf8_valid p" "utf8_valid i"
  shows "work_item_of_uri t = Some (p, i)"
proof -
  obtain r where "parse_resource t WORK_ITEM =
      Inr \<lparr>u_resource = r, u_params = bt_of_list [(''provider'', p), (''id'', i)], u_view = []\<rparr>"
    using assms of_parse_resource [of WORK_ITEM "[(''provider'', p), (''id'', i)]" "[]" t]
    by (auto simp: work_item_uri_def uri_of_def)
  then show ?thesis by (simp add: work_item_of_uri_def uri_param_def bt_get_of_list)
qed

text \<open>A spelling that validates is determined by the item it names.\<close>

lemma two_keys:
  assumes "bt_inv m" "length m = 2" "map_of m a = Some v" "map_of m b = Some w" "a \<noteq> b"
  shows "map_of m = [a \<mapsto> v, b \<mapsto> w]"
proof -
  have "dom (map_of m) = {a, b}"
  proof (rule sym, rule card_seteq)
    show "finite (dom (map_of m))" by (rule finite_dom_map_of)
    show "{a, b} \<subseteq> dom (map_of m)" using assms by auto
    have "card (dom (map_of m)) \<le> length m"
      by (metis card_length dom_map_of_conv_image_fst length_map list.set_map)
    then show "card (dom (map_of m)) \<le> card {a, b}" using assms by simp
  qed
  then show ?thesis
    using assms by (intro ext) (metis (mono_tags) domIff fun_upd_apply insertE singletonD)
qed

lemma validated_work_item:
  assumes "validate_work_item_uri t = Inr ()"
  obtains u p i where "uri_parse t = Inr u" "uri_display u = t" "work_item_of_uri t = Some (p, i)"
    "map_of (u_params u) = [''provider'' \<mapsto> p, ''id'' \<mapsto> i]" "u_view u = []"
    "resource_name_display (u_resource u) = WORK_ITEM"
proof -
  from assms obtain u where u: "uri_parse t = Inr u" by (auto simp: validate_work_item_uri_def split: sum.splits)
  with assms obtain p i where ok: "resource_name_display (u_resource u) = WORK_ITEM"
    "uri_param u ''provider'' = Some p" "uri_param u ''id'' = Some i"
    "length (u_params u) = 2" "u_view u = []" "uri_display u = t"
    by (auto simp: validate_work_item_uri_def split: if_splits option.splits)
  have "bt_inv (u_params u)" using parse_ok [OF u] by (simp add: uri_ok_def pairs_ok_def)
  then have "map_of (u_params u) = [''provider'' \<mapsto> p, ''id'' \<mapsto> i]"
    using ok by (intro two_keys) (auto simp: uri_param_def)
  moreover have "work_item_of_uri t = Some (p, i)"
    using u ok by (simp add: work_item_of_uri_def parse_resource_def)
  ultimately show ?thesis using that u ok by blast
qed

lemma one_spelling:
  assumes "validate_work_item_uri s = Inr ()" "validate_work_item_uri t = Inr ()"
    "work_item_of_uri s = work_item_of_uri t"
  shows "s = t"
proof -
  obtain u p i where u: "uri_parse s = Inr u" "uri_display u = s" "work_item_of_uri s = Some (p, i)"
    "map_of (u_params u) = [''provider'' \<mapsto> p, ''id'' \<mapsto> i]" "u_view u = []"
    "resource_name_display (u_resource u) = WORK_ITEM"
    by (rule validated_work_item [OF assms(1)])
  obtain v q j where v: "uri_parse t = Inr v" "uri_display v = t" "work_item_of_uri t = Some (q, j)"
    "map_of (u_params v) = [''provider'' \<mapsto> q, ''id'' \<mapsto> j]" "u_view v = []"
    "resource_name_display (u_resource v) = WORK_ITEM"
    by (rule validated_work_item [OF assms(2)])
  note ok = parse_ok [OF u(1)] parse_ok [OF v(1)]
  have "u_resource u = u_resource v"
    using resource_parse_display [of "u_resource u"] resource_parse_display [of "u_resource v"] ok u v
    by (simp add: uri_ok_def)
  moreover have "u_params u = u_params v"
    using ok u v assms(3) by (intro bt_ext) (auto simp: uri_ok_def pairs_ok_def)
  ultimately have "u = v" using u(5) v(5) by (intro oxplow_uri.equality) simp_all
  then show ?thesis using u(2) v(2) by simp
qed

section \<open>Contribution refs round trip\<close>

definition ref_ok :: "contribution_ref \<Rightarrow> bool" where
  "ref_ok r \<longleftrightarrow>
     utf8_valid (ref_name r)
     \<and> (case ref_extension r of
          None \<Rightarrow> global_name (ref_kind r) \<and> valid_local (ref_kind r) (ref_name r)
        | Some ext \<Rightarrow> \<not> global_name (ref_kind r)
            \<and> problem (contribution_id_new ext (ref_kind r) (ref_name r)) = None)"

lemma segment_is_name: "is_name (segment k)"
  by (cases k) (simp_all add: is_name_def char_class_defs)

lemma segment_is_key: "is_key (segment k)"
  by (cases k) (simp_all add: is_key_def char_class_defs)

lemma kinds_all: "k \<in> set (map ks_kind KINDS)"
  by (cases k) (simp_all add: KINDS_def spec_def)

lemma find_kind:
  "find (\<lambda>x. ext = ''oxplow'' \<and> segment x = segment k) (map ks_kind KINDS) =
     (if ext = ''oxplow'' then Some k else None)"
proof (cases "find (\<lambda>x. ext = ''oxplow'' \<and> segment x = segment k) (map ks_kind KINDS)")
  case None
  then have "\<forall>x \<in> set (map ks_kind KINDS). \<not> (ext = ''oxplow'' \<and> segment x = segment k)"
    by (simp only: find_None_iff) blast
  with kinds_all [of k] None show ?thesis by auto
next
  case (Some x)
  then have "ext = ''oxplow'' \<and> segment x = segment k" by (auto simp: find_Some_iff)
  with Some show ?thesis by (auto dest: segment_inj)
qed

lemma find_kind': "find (\<lambda>x. segment x = segment k) (map ks_kind KINDS) = Some k"
  using find_kind [of "''oxplow''" k] by simp

lemma valid_extension_ascii:
  "valid_extension_name e \<Longrightarrow> utf8_valid e \<and> CHR ''/'' \<notin> set e"
proof -
  assume "valid_extension_name e"
  then have "\<forall>c \<in> set e. is_ascii_lower c \<or> is_ascii_digit c \<or> c = CHR ''-''"
    by (simp add: valid_extension_name_def)
  then show ?thesis by (intro conjI utf8_valid_ascii) (auto simp: char_class_defs)
qed

lemma segment_resource:
  "resource_name_parse (''oxplow/'' @ segment k) = Inr \<lparr>rn_extension = ''oxplow'', rn_name = segment k\<rparr>"
  using segment_is_name [of k]
  by (simp add: resource_name_parse_def resource_name_new_def is_extension_def char_class_defs)

definition ref_text_id :: "contribution_ref \<Rightarrow> string" where
  "ref_text_id r =
     (case ref_extension r of Some ext \<Rightarrow> ext @ ''/'' @ ref_name r | None \<Rightarrow> ref_name r)"

lemma ref_display_total: "\<exists>t. ref_display r = Some t"
  using keys_build [OF segment_resource, of "[(segment (ref_kind r), ref_text_id r)]" "[]" "ref_kind r"]
    segment_is_key
  by (simp add: ref_display_def ref_text_id_def Let_def uri_of_def)

lemma utf8_append_ascii:
  "\<forall>c \<in> set a. is_ascii c \<Longrightarrow> utf8_valid (a @ b) = utf8_valid b"
  by (induction a) (simp_all add: utf8_valid_Cons_ascii)

lemma ref_ok_parts:
  assumes "ref_ok r" "ref_extension r = Some ext"
  shows "utf8_valid (ext @ ''/'' @ ref_name r) \<and> CHR ''/'' \<notin> set ext"
proof -
  from assms have "\<not> global_name (ref_kind r)"
    "problem (contribution_id_new ext (ref_kind r) (ref_name r)) = None"
    by (auto simp: ref_ok_def)
  then have "valid_extension_name ext"
    by (auto simp: problem_def contribution_id_new_def Let_def split: if_splits)
  then have sl: "CHR ''/'' \<notin> set ext" and "\<forall>c \<in> set (ext @ ''/''). is_ascii c"
    using valid_extension_ascii by (auto simp: valid_extension_name_def char_class_defs)
  with assms utf8_append_ascii [of "ext @ ''/''" "ref_name r"] show ?thesis
    by (simp add: ref_ok_def)
qed

lemma ref_from_display:
  assumes ok: "ref_ok r" and t: "ref_display r = Some t"
  shows "ref_from_str t = Inr r"
proof -
  let ?k = "ref_kind r" and ?i = "ref_text_id r"
  have u8: "utf8_valid ?i"
    using ok ref_ok_parts [OF ok] by (auto simp: ref_text_id_def ref_ok_def split: option.splits)
  have parse: "uri_parse t = Inr \<lparr>u_resource = \<lparr>rn_extension = ''oxplow'', rn_name = segment ?k\<rparr>,
      u_params = [(segment ?k, ?i)], u_view = []\<rparr>"
    using t u8 of_with_view_parse [of "''oxplow/'' @ segment ?k" "[(segment ?k, ?i)]" "[]" t]
      segment_resource [of ?k]
    by (auto simp: ref_display_def ref_text_id_def Let_def uri_of_def)
  show ?thesis
  proof (cases "ref_extension r")
    case None
    with ok have "global_name ?k" "valid_local ?k (ref_name r)" by (auto simp: ref_ok_def)
    with None parse show ?thesis
      by (cases r) (simp add: ref_from_str_def find_kind' uri_param_def ref_text_id_def)
  next
    case (Some ext)
    with ok have "\<not> global_name ?k" "problem (contribution_id_new ext ?k (ref_name r)) = None"
      by (auto simp: ref_ok_def)
    with Some parse ref_ok_parts [OF ok Some] show ?thesis
      by (cases r) (simp add: ref_from_str_def find_kind' uri_param_def ref_text_id_def)
  qed
qed

lemma utf8_after_ascii: "utf8_valid (a @ b) \<Longrightarrow> \<forall>c \<in> set a. is_ascii c \<Longrightarrow> utf8_valid b"
  by (simp add: utf8_append_ascii)

lemma ref_from_str_ok:
  assumes "ref_from_str s = Inr r"
  shows "ref_ok r"
proof -
  obtain u k i where u: "uri_parse s = Inr u" and i: "uri_param u (segment k) = Some i"
    and r: "(global_name k \<and> r = RefParts k None i \<and> valid_local k i)
      \<or> (\<not> global_name k \<and> (\<exists>ext nm. split_once CHR ''/'' i = Some (ext, nm)
           \<and> problem (contribution_id_new ext k nm) = None \<and> r = RefParts k (Some ext) nm))"
    using assms
    by (fastforce simp: ref_from_str_def Let_def bind_res_Inr ok_or_iff
        split: sum.splits if_splits option.splits)
  have "utf8_valid i"
    using parse_ok [OF u] i by (auto simp: uri_ok_def pairs_ok_def uri_param_def dest: map_of_SomeD)
  from r show ?thesis
  proof (elim disjE conjE exE)
    assume "global_name k" "r = RefParts k None i" "valid_local k i"
    with \<open>utf8_valid i\<close> show ?thesis by (simp add: ref_ok_def)
  next
    fix ext nm
    assume a: "\<not> global_name k" "split_once CHR ''/'' i = Some (ext, nm)"
      "problem (contribution_id_new ext k nm) = None" "r = RefParts k (Some ext) nm"
    then have "valid_extension_name ext"
      by (auto simp: problem_def contribution_id_new_def Let_def split: if_splits)
    then have "\<forall>c \<in> set (ext @ ''/''). is_ascii c"
      by (auto simp: valid_extension_name_def char_class_defs)
    moreover have "utf8_valid ((ext @ ''/'') @ nm)"
      using a \<open>utf8_valid i\<close> by (simp add: split_once_Some)
    ultimately have "utf8_valid nm" by (rule utf8_after_ascii [rotated])
    with a show ?thesis by (simp add: ref_ok_def)
  qed
qed

interpretation ref: canonical_roundtrip "\<lambda>r. the (ref_display r)" ref_from_str ref_ok
proof
  show "ref_ok r \<Longrightarrow> ref_from_str (the (ref_display r)) = Inr r" for r
    using ref_display_total [of r] ref_from_display by fastforce
  show "ref_from_str s = Inr r \<Longrightarrow> ref_ok r" for s r
    by (rule ref_from_str_ok)
qed

section \<open>Properties\<close>

text \<open>
  The one param that names a thing reads back: \<open>id_of\<close> of the URI \<open>keyed\<close> builds for any
  resource that has a key param is the value it was built with.
\<close>

theorem keyed_reads_back:
  assumes "keyed res v = Some t" and "utf8_valid v"
  shows "id_of t res = Inr v"
  by (rule id_of_keyed [OF assms])

lemma keyed_reads_back_witness:
  "\<exists>t. id_of t CONSUMER = Inr ''a b''"
proof -
  have "key_param CONSUMER = Some ''name''"
    by (simp add: key_param_def CONSUMER_def KINDS_def spec_def)
  moreover have "\<exists>t. uri_of CONSUMER [(''name'', ''a b'')] = Some t"
    unfolding uri_of_def
    by (rule keys_build [of _ "\<lparr>rn_extension = ''oxplow'', rn_name = ''consumer''\<rparr>"])
      (simp_all add: CONSUMER_def resource_name_parse_def resource_name_new_def is_extension_def
        is_name_def is_key_def char_class_defs)
  ultimately obtain t where "keyed CONSUMER ''a b'' = Some t" by (auto simp: keyed_def)
  then have "id_of t CONSUMER = Inr ''a b''"
    by (rule keyed_reads_back) (simp add: utf8_valid_Cons_ascii char_class_defs)
  then show ?thesis by blast
qed

text \<open>
  A file's URI always builds, and reads back as the file, revision and lines it was built
  from; the local filesystem, named or left out, is one and the same.
\<close>

theorem file_uri_reads_back:
  assumes "utf8_valid path" and "\<forall>f \<in> set_option fs. utf8_valid f"
    and "\<forall>r \<in> set_option rv. utf8_valid r" and "\<forall>l \<in> set_option lns. utf8_valid l"
  shows "\<exists>t. file_uri_at path fs rv lns = Some t
    \<and> file_of_uri t =
        Inr \<lparr>fr_path = path, fr_filesystem = (if fs = Some FS_LOCAL then None else fs),
             fr_rev = rv, fr_lines = lns\<rparr>"
  using file_uri_total [of path fs rv lns] file_of_file_uri [OF _ assms] by blast

lemma file_uri_reads_back_witness:
  "\<exists>t. file_uri_at ''a/b'' (Some FS_LOCAL) (Some ''git:HEAD'') None = Some t
    \<and> file_of_uri t =
        Inr \<lparr>fr_path = ''a/b'',
             fr_filesystem = (if Some FS_LOCAL = Some FS_LOCAL then None else Some FS_LOCAL),
             fr_rev = Some ''git:HEAD'', fr_lines = None\<rparr>"
  by (rule file_uri_reads_back) (simp_all add: FS_LOCAL_def utf8_valid_Cons_ascii char_class_defs)

text \<open>
  A work item has one accepted spelling: two texts that validate and name the same item are
  the same text, so the unique index on an effort's work item sees no alias.
\<close>

theorem work_item_has_one_spelling:
  assumes "validate_work_item_uri s = Inr ()" and "validate_work_item_uri t = Inr ()"
    and "work_item_of_uri s = work_item_of_uri t"
  shows "s = t"
  by (rule one_spelling [OF assms])

definition demo_item :: oxplow_uri where
  "demo_item =
     \<lparr>u_resource = \<lparr>rn_extension = ''oxplow'', rn_name = ''work_item''\<rparr>,
      u_params = [(''id'', ''7''), (''provider'', ''tasks'')], u_view = []\<rparr>"

lemma demo_item_parse: "uri_parse (uri_display demo_item) = Inr demo_item"
  by (rule parse_display)
    (simp add: demo_item_def uri_ok_def resource_ok_def pairs_ok_def bt_inv_def is_extension_def
      is_name_def is_key_def char_class_defs utf8_valid_Cons_ascii)

lemma demo_item_valid: "validate_work_item_uri (uri_display demo_item) = Inr ()"
  unfolding validate_work_item_uri_def demo_item_parse
  by (simp add: demo_item_def resource_name_display_def WORK_ITEM_def uri_param_def
      provider_name_ok_def starts_lower_def char_class_defs)

lemma work_item_has_one_spelling_witness:
  "validate_work_item_uri (uri_display demo_item) = Inr ()
    \<and> uri_display demo_item = uri_display demo_item"
  using work_item_has_one_spelling [OF demo_item_valid demo_item_valid refl] demo_item_valid by simp

text \<open>
  A contribution's ref always prints, and parsing its text gives it back: text and ref stand
  one for one, for local and for global kinds.
\<close>

theorem ref_prints_and_parses:
  assumes "ref_ok r"
  shows "\<exists>t. ref_display r = Some t \<and> ref_from_str t = Inr r"
  using ref_display_total [of r] ref_from_display [OF assms] by blast

lemma ref_prints_and_parses_witness:
  "\<exists>t. ref_display (RefParts Job (Some ''acme'') ''a'') = Some t
    \<and> ref_from_str t = Inr (RefParts Job (Some ''acme'') ''a'')"
  by (rule ref_prints_and_parses)
    (simp add: ref_ok_def contribution_id_new_def problem_def Let_def global_name_def kspec_def
      kind_spec_of_def KINDS_def spec_def valid_extension_name_def starts_lower_def char_class_defs
      valid_local_def suffix_to_prefix utf8_valid_Cons_ascii)

end
