(* ===== verification/Ordering.thy ===== *)
theory Ordering
  imports Uri_Build "HOL-Library.Multiset"
begin

text \<open>
  \<open>oxplow-domain/src/ordering.rs\<close>: the \<open>after:\<close> of effects and collectors, resolved to targets
  and compiled into levels by Kahn's algorithm. \<open>kahn\<close> is the loop of \<open>Order::compile\<close>,
  \<open>walk\<close> and \<open>cycles\<close> the report of what it could not place. The lemmas: a compiled order puts
  every target strictly below what waits on it, compiling fails only for an unknown target or a
  real cycle, every reported cycle is one, and \<open>sorted\<close> runs predecessors first.
\<close>

section \<open>Targets\<close>

datatype after = AfterContribution contribution_ref | AfterConsumer string

fun to_ref :: "after \<Rightarrow> string" where
  "to_ref (AfterContribution r) = the (ref_display r)"
| "to_ref (AfterConsumer name) = the (consumer_uri name)"

datatype after_problem = AfterBadRef ref_problem | AfterWrongKind string contribution_kind | AfterUnresolved string

definition article :: "string \<Rightarrow> string" where
  "article word =
     (case word of
        [] \<Rightarrow> ''a''
      | c # _ \<Rightarrow> if to_ascii_lower c \<in> set ''aeiou'' then ''an'' else ''a'')"

definition after_parse :: "string \<Rightarrow> after_problem + after" where
  "after_parse t =
     (case id_of t CONSUMER of
        Inr name \<Rightarrow> Inr (AfterConsumer name)
      | Inl _ \<Rightarrow>
          (case ref_from_str t of
             Inl e \<Rightarrow> Inl (AfterBadRef e)
           | Inr r \<Rightarrow>
               if ref_kind r = Effect \<or> ref_kind r = Collector then Inr (AfterContribution r)
               else Inl (AfterWrongKind (article (ks_title (kspec (ref_kind r)))) (ref_kind r))))"

definition resolve ::
  "string \<Rightarrow> string \<Rightarrow> (contribution_kind \<Rightarrow> string \<Rightarrow> bool) \<Rightarrow> string list \<Rightarrow> after_problem + after" where
  "resolve ext entry own consumers =
     (if CHR '':'' \<in> set entry then
        after_parse (case expand_short entry of Some t \<Rightarrow> t | None \<Rightarrow> entry)
      else
        (case find (\<lambda>kind. own kind entry) [Effect, Collector] of
           Some kind \<Rightarrow> Inr (AfterContribution (reference (contribution_id_new ext kind entry)))
         | None \<Rightarrow>
             if entry \<in> set consumers then Inr (AfterConsumer entry)
             else Inl (AfterUnresolved entry)))"

section \<open>Compiling an order\<close>

record node =
  n_id :: contribution_ref
  n_after :: "after list"

datatype order_error = UnknownTarget contribution_ref string | CycleFound "contribution_ref list"

record run_order =
  o_levels :: "(contribution_ref \<times> nat) list"
  o_after :: "(contribution_ref \<times> after list) list"

type_synonym edges = "(contribution_ref \<times> contribution_ref list) list"

definition preds_of :: "edges \<Rightarrow> contribution_ref \<Rightarrow> contribution_ref list" where
  "preds_of edges i = (case map_of edges i of Some ps \<Rightarrow> ps | None \<Rightarrow> [])"

text \<open>One pass over a node's targets: the edges it adds and the targets nothing declares.\<close>

fun node_preds :: "contribution_ref list \<Rightarrow> after list \<Rightarrow> contribution_ref list" where
  "node_preds known [] = []"
| "node_preds known (AfterContribution r # ts) =
     (if r \<in> set known then r # node_preds known ts else node_preds known ts)"
| "node_preds known (AfterConsumer name # ts) = node_preds known ts"

fun target_known :: "contribution_ref list \<Rightarrow> string list \<Rightarrow> after \<Rightarrow> bool" where
  "target_known known consumers (AfterContribution r) = (r \<in> set known)"
| "target_known known consumers (AfterConsumer name) = (name \<in> set consumers)"

definition node_errors :: "contribution_ref list \<Rightarrow> string list \<Rightarrow> node \<Rightarrow> order_error list" where
  "node_errors known consumers n =
     map (\<lambda>t. UnknownTarget (n_id n) (to_ref t))
       (filter (\<lambda>t. \<not> target_known known consumers t) (n_after n))"

definition ready_of ::
  "edges \<Rightarrow> (contribution_ref \<times> nat) list \<Rightarrow> contribution_ref list \<Rightarrow> contribution_ref list" where
  "ready_of edges levels remaining =
     filter (\<lambda>i. list_all (\<lambda>p. map_of levels p \<noteq> None) (preds_of edges i)) remaining"

definition place_all ::
  "contribution_ref list \<Rightarrow> nat \<Rightarrow> (contribution_ref \<times> nat) list \<Rightarrow> (contribution_ref \<times> nat) list" where
  "place_all ready level levels = foldl (\<lambda>m i. bt_insert i level m) levels ready"

text \<open>The loop; what is left when it stops with nothing ready is returned beside the levels.\<close>

function kahn ::
  "edges \<Rightarrow> (contribution_ref \<times> nat) list \<Rightarrow> contribution_ref list \<Rightarrow> nat
     \<Rightarrow> (contribution_ref \<times> nat) list \<times> contribution_ref list" where
  "kahn edges levels remaining level =
     (if remaining = [] then (levels, [])
      else
        (let ready = ready_of edges levels remaining in
         if ready = [] then (levels, remaining)
         else kahn edges (place_all ready level levels)
                (filter (\<lambda>i. i \<notin> set ready) remaining) (level + 1)))"
  by pat_completeness auto

termination
proof (relation "measure (\<lambda>(edges, levels, remaining, level). length remaining)", goal_cases)
  case 1
  then show ?case by simp
next
  case (2 edges levels remaining level ready)
  then obtain i where "i \<in> set ready" using list.set_sel(1) by blast
  moreover from this 2 have "i \<in> set remaining" by (auto simp: ready_of_def)
  ultimately have "length (filter (\<lambda>i. i \<notin> set ready) remaining) < length remaining"
    by (intro length_filter_less) auto
  then show ?case by simp
qed

section \<open>Reporting cycles\<close>

fun position :: "'a \<Rightarrow> 'a list \<Rightarrow> nat option" where
  "position x [] = None"
| "position x (y # ys) = (if y = x then Some 0 else map_option Suc (position x ys))"

lemma position_None: "position x ys = None \<longleftrightarrow> x \<notin> set ys"
  by (induction ys) auto

lemma position_Some: "position x ys = Some i \<Longrightarrow> i < length ys \<and> ys ! i = x"
  by (induction ys arbitrary: i) (auto split: if_splits)

text \<open>Follow first predecessors until one repeats: its position in the path closes a cycle.\<close>

function walk ::
  "contribution_ref list \<Rightarrow> edges \<Rightarrow> contribution_ref list \<Rightarrow> contribution_ref
     \<Rightarrow> contribution_ref list \<times> nat option" where
  "walk remaining edges path at =
     (case find (\<lambda>p. p \<in> set remaining) (preds_of edges at) of
        None \<Rightarrow> (path, None)
      | Some nxt \<Rightarrow>
          (case position nxt path of
             Some pos \<Rightarrow> (path, Some pos)
           | None \<Rightarrow> walk remaining edges (path @ [nxt]) nxt))"
  by pat_completeness auto

termination
proof (relation "measure (\<lambda>(remaining, edges, path, at). card (set remaining - set path))", goal_cases)
  case 1
  then show ?case by simp
next
  case (2 remaining edges path at nxt)
  then have "nxt \<in> set remaining - set path" by (auto simp: find_Some_iff position_None)
  then have "card (set remaining - set path - {nxt}) < card (set remaining - set path)"
    by (intro card_Diff1_less) auto
  moreover have "set remaining - set (path @ [nxt]) = set remaining - set path - {nxt}" by auto
  ultimately show ?case by simp
qed

text \<open>\<open>min_by_key\<close> takes the first of equal minima; \<open>rotate_left\<close> is \<open>rotate\<close>.\<close>

definition from_smallest :: "contribution_ref list \<Rightarrow> contribution_ref list" where
  "from_smallest cycle =
     (case cycle of
        [] \<Rightarrow> []
      | _ \<Rightarrow> rotate (case position (Min (set cycle)) cycle of Some i \<Rightarrow> i | None \<Rightarrow> 0) cycle)"

definition cycles_step ::
  "contribution_ref list \<Rightarrow> edges \<Rightarrow> contribution_ref list list \<times> contribution_ref list
     \<Rightarrow> contribution_ref \<Rightarrow> contribution_ref list list \<times> contribution_ref list" where
  "cycles_step remaining edges acc start =
     (let (found, seen) = acc in
      if start \<in> set seen then (found, seen)
      else
        (let (path, closes) = walk remaining edges [start] start;
             found' =
               (case closes of
                  None \<Rightarrow> found
                | Some pos \<Rightarrow>
                    (let cycle = from_smallest (drop pos path) in
                     if cycle \<in> set found then found else found @ [cycle]))
         in (found', seen @ path)))"

definition cycles :: "contribution_ref list \<Rightarrow> edges \<Rightarrow> contribution_ref list list" where
  "cycles remaining edges = fst (foldl (cycles_step remaining edges) ([], []) remaining)"

definition known_of :: "node list \<Rightarrow> contribution_ref list" where
  "known_of nodes = bs_of_list (map n_id nodes)"

definition edges_of :: "node list \<Rightarrow> edges" where
  "edges_of nodes = bt_of_list (map (\<lambda>n. (n_id n, node_preds (known_of nodes) (n_after n))) nodes)"

definition compile_errors :: "node list \<Rightarrow> string list \<Rightarrow> order_error list" where
  "compile_errors nodes consumers = concat (map (node_errors (known_of nodes) consumers) nodes)"

definition compile :: "node list \<Rightarrow> string list \<Rightarrow> order_error list + run_order" where
  "compile nodes consumers =
     (let edges = edges_of nodes;
          (levels, stuck) = kahn edges [] (known_of nodes) 0;
          errors = compile_errors nodes consumers
                   @ (if stuck = [] then [] else map CycleFound (cycles stuck edges))
      in if errors \<noteq> [] then Inl errors
         else Inr \<lparr>o_levels = levels,
                   o_after = bt_of_list (map (\<lambda>n. (n_id n, n_after n)) nodes)\<rparr>)"

section \<open>Reading an order\<close>

definition order_level :: "run_order \<Rightarrow> contribution_ref \<Rightarrow> nat option" where
  "order_level ord i = map_of (o_levels ord) i"

definition order_after :: "run_order \<Rightarrow> contribution_ref \<Rightarrow> after list" where
  "order_after ord i = (case map_of (o_after ord) i of Some ts \<Rightarrow> ts | None \<Rightarrow> [])"

definition sort_position :: "run_order \<Rightarrow> contribution_ref \<Rightarrow> nat \<times> contribution_ref" where
  "sort_position ord i =
     ((case map_of (o_levels ord) i of Some l \<Rightarrow> l | None \<Rightarrow> u64_max), i)"

definition order_sorted :: "run_order \<Rightarrow> contribution_ref list \<Rightarrow> contribution_ref list" where
  "order_sorted ord ids = sort_key (sort_position ord) ids"

definition add_consumer :: "string list \<Rightarrow> after \<Rightarrow> string list" where
  "add_consumer out t =
     (case t of
        AfterConsumer name \<Rightarrow> if name \<in> set out then out else out @ [name]
      | AfterContribution _ \<Rightarrow> out)"

definition order_consumers :: "run_order \<Rightarrow> contribution_ref list \<Rightarrow> string list" where
  "order_consumers ord ids = foldl (\<lambda>out i. foldl add_consumer out (order_after ord i)) [] ids"

definition order_rows :: "run_order \<Rightarrow> (contribution_ref \<times> nat \<times> after list) list" where
  "order_rows ord = map (\<lambda>(i, l). (i, l, order_after ord i)) (o_levels ord)"

section \<open>Kahn's loop\<close>

declare kahn.simps [simp del] walk.simps [simp del]

definition placed :: "edges \<Rightarrow> (contribution_ref \<times> nat) list \<Rightarrow> bool" where
  "placed edges levels \<longleftrightarrow>
     (\<forall>i l. map_of levels i = Some l \<longrightarrow>
        (\<forall>p \<in> set (preds_of edges i). \<exists>k < l. map_of levels p = Some k))"

definition below :: "(contribution_ref \<times> nat) list \<Rightarrow> nat \<Rightarrow> bool" where
  "below levels n \<longleftrightarrow> (\<forall>i l. map_of levels i = Some l \<longrightarrow> l < n)"

lemma map_of_place_all:
  "map_of (place_all ready level levels) i =
     (if i \<in> set ready then Some level else map_of levels i)"
  by (induction ready arbitrary: levels) (auto simp: place_all_def)

lemma dom_place_all: "dom (map_of (place_all ready level levels)) = dom (map_of levels) \<union> set ready"
  by (auto simp: map_of_place_all split: if_splits)

lemma ready_placed:
  assumes "placed edges levels" "below levels level" "dom (map_of levels) \<inter> set remaining = {}"
  defines "levels' \<equiv> place_all (ready_of edges levels remaining) level levels"
  shows "placed edges levels'" "below levels' (level + 1)"
proof -
  let ?ready = "ready_of edges levels remaining"
  have fresh: "map_of levels p = Some k \<Longrightarrow> p \<notin> set ?ready" for p k
    using assms(3) by (auto simp: ready_of_def)
  have low: "\<exists>k < level. map_of levels p = Some k"
    if "i \<in> set ?ready" "p \<in> set (preds_of edges i)" for i p
    using that assms(2) by (fastforce simp: ready_of_def list_all_iff below_def)
  have "\<exists>k < l. map_of levels' p = Some k"
    if i: "map_of levels' i = Some l" and p: "p \<in> set (preds_of edges i)" for i l p
  proof -
    have "\<exists>k < l. map_of levels p = Some k"
      using i p low assms(1) by (auto simp: levels'_def map_of_place_all placed_def split: if_splits)
    with fresh show ?thesis by (auto simp: levels'_def map_of_place_all)
  qed
  then show "placed edges levels'" by (simp add: placed_def)
  show "below levels' (level + 1)"
    using assms(2) by (auto simp: levels'_def below_def map_of_place_all less_Suc_eq)
qed

lemma kahn_spec:
  assumes "placed edges levels" "below levels level" "dom (map_of levels) \<inter> set remaining = {}"
    and "kahn edges levels remaining level = (L, S)"
  shows "placed edges L \<and> dom (map_of L) \<union> set S = dom (map_of levels) \<union> set remaining
    \<and> dom (map_of L) \<inter> set S = {}
    \<and> (\<forall>i \<in> set S. \<exists>p \<in> set (preds_of edges i). p \<notin> dom (map_of L))"
  using assms
proof (induction edges levels remaining level rule: kahn.induct)
  case (1 edges levels remaining level)
  let ?ready = "ready_of edges levels remaining"
  consider "remaining = []" | "remaining \<noteq> []" "?ready = []" | "remaining \<noteq> []" "?ready \<noteq> []"
    by blast
  then show ?case
  proof cases
    case 1
    with "1.prems" show ?thesis by (simp add: kahn.simps)
  next
    case 2
    have "\<exists>p \<in> set (preds_of edges i). p \<notin> dom (map_of levels)" if "i \<in> set remaining" for i
      using that 2(2) by (auto simp: ready_of_def filter_empty_conv list_all_iff)
    with 2 "1.prems" show ?thesis by (simp add: kahn.simps [of edges levels])
  next
    case 3
    let ?L = "place_all ?ready level levels" and ?R = "filter (\<lambda>i. i \<notin> set ?ready) remaining"
    have sub: "set ?ready \<subseteq> set remaining" by (auto simp: ready_of_def)
    note new = ready_placed [OF "1.prems"(1-3)]
    have "dom (map_of ?L) \<inter> set ?R = {}" using "1.prems"(3) by (auto simp: dom_place_all)
    moreover have "kahn edges ?L ?R (level + 1) = (L, S)"
      using "1.prems"(4) 3 by (simp add: kahn.simps [of edges levels] Let_def)
    moreover have "dom (map_of ?L) \<union> set ?R = dom (map_of levels) \<union> set remaining"
      using sub by (auto simp: dom_place_all)
    ultimately show ?thesis using "1.IH" [OF 3(1) refl 3(2) new] by simp
  qed
qed

section \<open>Walks and cycles\<close>

abbreviation waits :: "edges \<Rightarrow> contribution_ref \<Rightarrow> contribution_ref \<Rightarrow> bool" where
  "waits edges a b \<equiv> b \<in> set (preds_of edges a)"

definition is_cycle :: "edges \<Rightarrow> contribution_ref list \<Rightarrow> bool" where
  "is_cycle edges c \<longleftrightarrow>
     c \<noteq> [] \<and> successively (waits edges) c \<and> waits edges (last c) (hd c)"

lemma is_cycle_rotate1: "is_cycle edges c \<Longrightarrow> is_cycle edges (rotate1 c)"
proof (cases c)
  case Nil
  then show "is_cycle edges c \<Longrightarrow> ?thesis" by simp
next
  case (Cons x xs)
  then show "is_cycle edges c \<Longrightarrow> ?thesis"
    using successively_append_iff [of "waits edges" xs "[x]"]
    by (cases "xs = []") (auto simp: is_cycle_def successively_Cons)
qed

lemma is_cycle_rotate: "is_cycle edges c \<Longrightarrow> is_cycle edges (rotate n c)"
  by (induction n) (auto intro: is_cycle_rotate1)

lemma is_cycle_from_smallest: "is_cycle edges c \<Longrightarrow> is_cycle edges (from_smallest c)"
  by (cases c) (auto simp: from_smallest_def is_cycle_rotate simp del: set_simps position.simps)

lemma walk_spec:
  assumes "walk remaining edges path at = (path', closes)"
    and "path \<noteq> []" "last path = at" "successively (waits edges) path"
  shows "successively (waits edges) path' \<and> path' \<noteq> []
    \<and> (\<forall>pos. closes = Some pos \<longrightarrow> pos < length path' \<and> waits edges (last path') (path' ! pos))
    \<and> ((\<forall>i \<in> set remaining. \<exists>p \<in> set remaining. waits edges i p) \<longrightarrow> at \<in> set remaining
         \<longrightarrow> closes \<noteq> None)"
  using assms
proof (induction remaining edges path at rule: walk.induct)
  case (1 remaining edges path at)
  show ?case
  proof (cases "find (\<lambda>p. p \<in> set remaining) (preds_of edges at)")
    case None
    with "1.prems" show ?thesis
      by (auto simp: walk.simps [of remaining edges path] find_None_iff)
  next
    case (Some nxt)
    then have nxt: "waits edges at nxt" "nxt \<in> set remaining" by (auto simp: find_Some_iff)
    show ?thesis
    proof (cases "position nxt path")
      case None
      have "walk remaining edges (path @ [nxt]) nxt = (path', closes)"
        using "1.prems"(1) Some None by (simp add: walk.simps [of remaining edges path])
      with "1.IH" [OF Some None] "1.prems" nxt show ?thesis
        by (simp add: successively_append_iff)
    next
      case (Some pos)
      with "1.prems" \<open>find _ _ = Some nxt\<close> have "path' = path" "closes = Some pos"
        by (auto simp: walk.simps [of remaining edges path])
      with "1.prems" nxt position_Some [OF Some] show ?thesis by simp
    qed
  qed
qed

lemma closed_walk_is_cycle:
  assumes "walk remaining edges [start] start = (path, Some pos)"
  shows "is_cycle edges (from_smallest (drop pos path))"
proof -
  note w = walk_spec [OF assms, simplified]
  have "successively (waits edges) (take pos path @ drop pos path)" using w by simp
  then have "successively (waits edges) (drop pos path)" by (simp only: successively_append_iff)
  with w have "is_cycle edges (drop pos path)"
    by (simp add: is_cycle_def hd_drop_conv_nth)
  then show ?thesis by (rule is_cycle_from_smallest)
qed

lemma cycles_step_found:
  "set (fst (cycles_step remaining edges (found, seen) start)) =
     set found \<union>
     (if start \<in> set seen then {}
      else (case walk remaining edges [start] start of
              (path, None) \<Rightarrow> {}
            | (path, Some pos) \<Rightarrow> {from_smallest (drop pos path)}))"
  by (auto simp: cycles_step_def Let_def split: prod.splits option.splits)

lemma cycles_step_sound:
  assumes "\<forall>c \<in> set (fst acc). is_cycle edges c"
  shows "\<forall>c \<in> set (fst (cycles_step remaining edges acc start)). is_cycle edges c"
proof (cases acc)
  case (Pair found seen)
  show ?thesis
    using assms closed_walk_is_cycle
    by (simp add: Pair cycles_step_found split: prod.splits option.splits)
qed

lemma cycles_step_keeps: "fst acc \<noteq> [] \<Longrightarrow> fst (cycles_step remaining edges acc start) \<noteq> []"
proof (cases acc)
  case (Pair found seen)
  assume "fst acc \<noteq> []"
  then have "set (fst (cycles_step remaining edges acc start)) \<noteq> {}"
    by (simp add: Pair cycles_step_found)
  then show ?thesis by simp
qed

lemma cycles_fold_sound:
  "\<forall>c \<in> set (fst acc). is_cycle edges c \<Longrightarrow>
     \<forall>c \<in> set (fst (foldl (cycles_step remaining edges) acc starts)). is_cycle edges c"
proof (induction starts arbitrary: acc)
  case (Cons start starts)
  show ?case unfolding foldl_Cons by (rule Cons.IH [OF cycles_step_sound [OF Cons.prems]])
qed simp

lemma cycles_fold_keeps:
  "fst acc \<noteq> [] \<Longrightarrow> fst (foldl (cycles_step remaining edges) acc starts) \<noteq> []"
proof (induction starts arbitrary: acc)
  case (Cons start starts)
  show ?case unfolding foldl_Cons by (rule Cons.IH [OF cycles_step_keeps [OF Cons.prems]])
qed simp

lemma cycles_sound: "c \<in> set (cycles remaining edges) \<Longrightarrow> is_cycle edges c"
  using cycles_fold_sound [of "([], [])"] by (simp add: cycles_def)

text \<open>When everything left waits on something left, at least one cycle is reported.\<close>

lemma cycles_found:
  assumes "remaining \<noteq> []" "\<forall>i \<in> set remaining. \<exists>p \<in> set remaining. waits edges i p"
  shows "cycles remaining edges \<noteq> []"
proof -
  obtain i rest where r: "remaining = i # rest" using assms(1) by (cases remaining) auto
  obtain path closes where w: "walk remaining edges [i] i = (path, closes)" by fastforce
  then obtain pos where "closes = Some pos"
    using walk_spec [OF w] assms r by auto
  with w have "set (fst (cycles_step remaining edges ([], []) i)) \<noteq> {}"
    by (simp add: cycles_step_found)
  then have "fst (cycles_step remaining edges ([], []) i) \<noteq> []" by simp
  then show ?thesis
    unfolding cycles_def by (simp add: r cycles_fold_keeps)
qed

lemma descending_no_cycle:
  assumes "is_cycle edges c"
    and down: "\<And>a b. a \<in> set c \<Longrightarrow> waits edges a b \<Longrightarrow> (f b :: nat) < f a"
  shows False
proof -
  have le: "f (last xs) \<le> f (hd xs)"
    if "xs \<noteq> []" "successively (waits edges) xs" "set xs \<subseteq> set c" for xs
    using that
  proof (induction xs rule: induct_list012)
    case (3 x y zs)
    then have "f (last (y # zs)) \<le> f y" by simp
    also have "f y < f x" using 3 down [of x y] by simp
    finally show ?case by simp
  qed simp_all
  have "f (last c) \<le> f (hd c)" using assms(1) by (intro le) (auto simp: is_cycle_def)
  moreover have "f (hd c) < f (last c)" using assms(1) by (intro down) (auto simp: is_cycle_def)
  ultimately show False by simp
qed

section \<open>Compiled orders\<close>

lemma known_set [simp]: "set (known_of nodes) = n_id ` set nodes"
  by (simp add: known_of_def)

lemma node_preds_set:
  "p \<in> set (node_preds known ts) \<longleftrightarrow> p \<in> set known \<and> AfterContribution p \<in> set ts"
  by (induction known ts rule: node_preds.induct) auto

text \<open>The last node of an id is the one whose targets count, for its edges and for \<open>after\<close>.\<close>

definition targets_of :: "node list \<Rightarrow> contribution_ref \<Rightarrow> after list" where
  "targets_of nodes i =
     (case map_of (rev (map (\<lambda>n. (n_id n, n_after n)) nodes)) i of Some ts \<Rightarrow> ts | None \<Rightarrow> [])"

lemma map_of_rev_nodes:
  "map_of (rev (map (\<lambda>n. (n_id n, f (n_after n))) nodes)) i =
     map_option f (map_of (rev (map (\<lambda>n. (n_id n, n_after n)) nodes)) i)"
proof -
  have "rev (map (\<lambda>n. (n_id n, f (n_after n))) nodes) =
      map (\<lambda>(k, ts). (k, f ts)) (rev (map (\<lambda>n. (n_id n, n_after n)) nodes))"
    by (simp add: rev_map comp_def)
  then show ?thesis by (simp add: map_of_map)
qed

lemma preds_of_edges_of:
  "preds_of (edges_of nodes) i = node_preds (known_of nodes) (targets_of nodes i)"
  unfolding preds_of_def edges_of_def bt_get_of_list targets_of_def
    map_of_rev_nodes [of "node_preds (known_of nodes)"]
  by (simp split: option.splits)

lemma waits_known: "waits (edges_of nodes) i p \<Longrightarrow> p \<in> n_id ` set nodes"
  by (simp add: preds_of_edges_of node_preds_set)

lemma waiter_known: "waits (edges_of nodes) i p \<Longrightarrow> i \<in> n_id ` set nodes"
proof -
  assume "waits (edges_of nodes) i p"
  then have "targets_of nodes i \<noteq> []" by (auto simp: preds_of_edges_of)
  then obtain ts where "map_of (rev (map (\<lambda>n. (n_id n, n_after n)) nodes)) i = Some ts"
    by (auto simp: targets_of_def split: option.splits)
  then show ?thesis by (auto dest!: map_of_SomeD)
qed

lemma targets_known:
  assumes "compile_errors nodes consumers = []" "t \<in> set (targets_of nodes i)"
  shows "target_known (known_of nodes) consumers t"
proof (cases "map_of (rev (map (\<lambda>n. (n_id n, n_after n)) nodes)) i")
  case None
  with assms(2) show ?thesis by (simp add: targets_of_def)
next
  case (Some ts)
  with assms(2) have "t \<in> set ts" by (simp add: targets_of_def)
  moreover obtain n where "n \<in> set nodes" "ts = n_after n" using Some by (auto dest!: map_of_SomeD)
  ultimately show ?thesis
    using assms(1) by (auto simp: compile_errors_def node_errors_def filter_empty_conv)
qed

lemma kahn_nodes:
  assumes "kahn (edges_of nodes) [] (known_of nodes) 0 = (L, S)"
  shows "placed (edges_of nodes) L" "dom (map_of L) \<union> set S = n_id ` set nodes"
    "S \<noteq> [] \<Longrightarrow> cycles S (edges_of nodes) \<noteq> []"
proof -
  have k: "placed (edges_of nodes) L \<and> dom (map_of L) \<union> set S = {} \<union> n_id ` set nodes
    \<and> dom (map_of L) \<inter> set S = {}
    \<and> (\<forall>i \<in> set S. \<exists>p \<in> set (preds_of (edges_of nodes) i). p \<notin> dom (map_of L))"
    using kahn_spec [OF _ _ _ assms] by (simp add: placed_def below_def)
  then show "placed (edges_of nodes) L" "dom (map_of L) \<union> set S = n_id ` set nodes" by simp_all
  show "cycles S (edges_of nodes) \<noteq> []" if "S \<noteq> []"
  proof (rule cycles_found [OF that], rule ballI)
    fix i assume "i \<in> set S"
    with k obtain p where p: "waits (edges_of nodes) i p" "p \<notin> dom (map_of L)" by blast
    with k waits_known [OF p(1)] show "\<exists>p \<in> set S. waits (edges_of nodes) i p" by blast
  qed
qed

lemma compile_Inr:
  assumes "compile nodes consumers = Inr ord"
  obtains L where "kahn (edges_of nodes) [] (known_of nodes) 0 = (L, [])" "o_levels ord = L"
    "compile_errors nodes consumers = []" "order_after ord = targets_of nodes"
proof -
  obtain L S where k: "kahn (edges_of nodes) [] (known_of nodes) 0 = (L, S)" by fastforce
  with assms kahn_nodes(3) [OF k] have S: "S = []" and e: "compile_errors nodes consumers = []"
    and o: "o_levels ord = L" "o_after ord = bt_of_list (map (\<lambda>n. (n_id n, n_after n)) nodes)"
    by (auto simp: compile_def Let_def split: if_splits)
  have "order_after ord = targets_of nodes"
    by (intro ext) (simp add: order_after_def targets_of_def o bt_get_of_list)
  with k S e o that show ?thesis by blast
qed

lemma compiled_targets:
  assumes "compile nodes consumers = Inr ord"
  shows "dom (order_level ord) = n_id ` set nodes"
    "AfterContribution r \<in> set (order_after ord i) \<Longrightarrow>
       \<exists>k l. order_level ord r = Some k \<and> order_level ord i = Some l \<and> k < l"
    "AfterConsumer name \<in> set (order_after ord i) \<Longrightarrow> name \<in> set consumers"
proof -
  obtain L where k: "kahn (edges_of nodes) [] (known_of nodes) 0 = (L, [])" and L: "o_levels ord = L"
    and e: "compile_errors nodes consumers = []" and a: "order_after ord = targets_of nodes"
    by (rule compile_Inr [OF assms])
  show d: "dom (order_level ord) = n_id ` set nodes"
    using kahn_nodes(2) [OF k] L by (auto simp: order_level_def dom_def)
  show "name \<in> set consumers" if "AfterConsumer name \<in> set (order_after ord i)"
    using targets_known [OF e] that by (fastforce simp: a)
  show "\<exists>k l. order_level ord r = Some k \<and> order_level ord i = Some l \<and> k < l"
    if "AfterContribution r \<in> set (order_after ord i)"
  proof -
    have "r \<in> n_id ` set nodes" using targets_known [OF e] that by (fastforce simp: a)
    with that have w: "waits (edges_of nodes) i r" by (simp add: a preds_of_edges_of node_preds_set)
    from waiter_known [OF w] obtain l where "order_level ord i = Some l"
      using d by (metis domD)
    with w kahn_nodes(1) [OF k] L show ?thesis by (fastforce simp: placed_def order_level_def)
  qed
qed

lemma compiled_acyclic: "compile nodes consumers = Inr ord \<Longrightarrow> \<not> is_cycle (edges_of nodes) c"
proof
  assume ok: "compile nodes consumers = Inr ord" and c: "is_cycle (edges_of nodes) c"
  show False
  proof (rule descending_no_cycle [OF c, of "\<lambda>i. the (order_level ord i)"])
    fix a b assume "waits (edges_of nodes) a b"
    then have "AfterContribution b \<in> set (targets_of nodes a)"
      by (simp add: preds_of_edges_of node_preds_set)
    moreover have "order_after ord = targets_of nodes" by (rule compile_Inr [OF ok])
    ultimately show "the (order_level ord b) < the (order_level ord a)"
      using compiled_targets(2) [OF ok, of b a] by auto
  qed
qed

lemma compile_Inl:
  assumes "compile nodes consumers = Inl errs"
  shows "errs \<noteq> [] \<and> (\<exists>S. errs = compile_errors nodes consumers
    @ (if S = [] then [] else map CycleFound (cycles S (edges_of nodes))))"
proof -
  obtain L S where "kahn (edges_of nodes) [] (known_of nodes) 0 = (L, S)" by fastforce
  with assms show ?thesis
    by (auto simp: compile_def Let_def split: if_splits intro!: exI [of _ S])
qed

lemma compile_errors_mem:
  "e \<in> set (compile_errors nodes consumers) \<longleftrightarrow>
     (\<exists>n \<in> set nodes. \<exists>t \<in> set (n_after n).
        e = UnknownTarget (n_id n) (to_ref t) \<and> \<not> target_known (known_of nodes) consumers t)"
  by (auto simp: compile_errors_def node_errors_def)

lemma compile_Inl_mem:
  assumes "compile nodes consumers = Inl errs" "e \<in> set errs"
  shows "e \<in> set (compile_errors nodes consumers)
    \<or> (\<exists>c. e = CycleFound c \<and> is_cycle (edges_of nodes) c)"
  using compile_Inl [OF assms(1)] assms(2) cycles_sound by (auto split: if_splits)

lemma order_sorted_before:
  assumes ok: "compile nodes consumers = Inr ord"
    and i: "i < length (order_sorted ord ids)" and j: "j < length (order_sorted ord ids)"
    and w: "AfterContribution (order_sorted ord ids ! i) \<in> set (order_after ord (order_sorted ord ids ! j))"
  shows "i < j"
proof (rule ccontr)
  let ?s = "order_sorted ord ids"
  assume "\<not> i < j"
  then have "sort_position ord (?s ! j) \<le> sort_position ord (?s ! i)"
    using sorted_nth_mono [of "map (sort_position ord) ?s" j i] i j
    by (simp add: order_sorted_def)
  moreover obtain k l where "order_level ord (?s ! i) = Some k" "order_level ord (?s ! j) = Some l" "k < l"
    using compiled_targets(2) [OF ok w] by blast
  ultimately show False by (auto simp: sort_position_def order_level_def less_eq_prod_def)
qed

lemma compile_ok_iff:
  "(\<exists>ord. compile nodes consumers = Inr ord) \<longleftrightarrow>
     compile_errors nodes consumers = [] \<and> (\<nexists>c. is_cycle (edges_of nodes) c)"
proof (cases "compile nodes consumers")
  case (Inl errs)
  then obtain e where "e \<in> set errs" using compile_Inl list.set_sel(1) by blast
  with compile_Inl_mem [OF Inl this] have
    "compile_errors nodes consumers \<noteq> [] \<or> (\<exists>c. is_cycle (edges_of nodes) c)" by auto
  with Inl show ?thesis by auto
next
  case (Inr ord)
  then have "compile_errors nodes consumers = []" by (rule compile_Inr)
  with Inr compiled_acyclic [OF Inr] show ?thesis by blast
qed

section \<open>Properties\<close>

definition demo_ref :: "string \<Rightarrow> contribution_ref" where
  "demo_ref name = RefParts Effect (Some ''x'') name"

definition demo_nodes :: "node list" where
  "demo_nodes =
     [\<lparr>n_id = demo_ref ''b'', n_after = [AfterContribution (demo_ref ''a''), AfterConsumer ''c'']\<rparr>,
      \<lparr>n_id = demo_ref ''a'', n_after = []\<rparr>]"

definition demo_order :: run_order where
  "demo_order =
     \<lparr>o_levels = [(demo_ref ''a'', 0), (demo_ref ''b'', 1)],
      o_after = [(demo_ref ''a'', []),
                 (demo_ref ''b'', [AfterContribution (demo_ref ''a''), AfterConsumer ''c''])]\<rparr>"

lemma demo_ref_less: "demo_ref a < demo_ref b \<longleftrightarrow> a < b" "demo_ref a = demo_ref b \<longleftrightarrow> a = b"
  by (simp_all add: demo_ref_def less_contribution_ref_def ref_key_def)

lemmas order_eval =
  bt_of_list_def bs_of_list_def demo_ref_less ready_of_def place_all_def preds_of_def kahn.simps
  walk.simps

lemma demo_compile: "compile demo_nodes [''c''] = Inr demo_order"
  by (simp add: compile_def demo_nodes_def demo_order_def edges_of_def known_of_def
      compile_errors_def node_errors_def order_eval)

text \<open>
  C32. A compiled order covers exactly the nodes and satisfies every constraint written: whatever
  a contribution runs after is placed at a strictly lower level, and every consumer it names is
  one that exists.
\<close>

theorem compiled_order_respects_after:
  assumes "compile nodes consumers = Inr ord"
  shows "dom (order_level ord) = n_id ` set nodes
    \<and> (\<forall>i r. AfterContribution r \<in> set (order_after ord i) \<longrightarrow>
          (\<exists>k l. order_level ord r = Some k \<and> order_level ord i = Some l \<and> k < l))
    \<and> (\<forall>i name. AfterConsumer name \<in> set (order_after ord i) \<longrightarrow> name \<in> set consumers)"
  using compiled_targets [OF assms] by blast

lemma compiled_order_respects_after_witness:
  "dom (order_level demo_order) = n_id ` set demo_nodes
    \<and> (\<exists>k l. order_level demo_order (demo_ref ''a'') = Some k
          \<and> order_level demo_order (demo_ref ''b'') = Some l \<and> k < l)"
proof -
  have a: "AfterContribution (demo_ref ''a'') \<in> set (order_after demo_order (demo_ref ''b''))"
    by (simp add: order_after_def demo_order_def demo_ref_less)
  show ?thesis
    using compiled_order_respects_after [OF demo_compile] a by blast
qed

text \<open>
  C22. Compiling fails only when it must: nodes compile exactly when every target they name
  exists and no contributions wait on each other in a circle.
\<close>

theorem compile_succeeds_iff_possible:
  "(\<exists>ord. compile nodes consumers = Inr ord) \<longleftrightarrow>
     compile_errors nodes consumers = [] \<and> (\<nexists>c. is_cycle (edges_of nodes) c)"
  by (rule compile_ok_iff)

text \<open>
  Every reported error is real: an unknown target is one some node names and nothing
  declares, and a reported cycle is a list of contributions each waiting on the next, the last
  on the first.
\<close>

theorem compile_errors_are_real:
  assumes "compile nodes consumers = Inl errs" and "e \<in> set errs"
  shows "(\<exists>n \<in> set nodes. \<exists>t \<in> set (n_after n).
            e = UnknownTarget (n_id n) (to_ref t) \<and> \<not> target_known (known_of nodes) consumers t)
    \<or> (\<exists>c. e = CycleFound c \<and> is_cycle (edges_of nodes) c)"
  using compile_Inl_mem [OF assms] unfolding compile_errors_mem .

text \<open>Two cycles through one contribution: only the first is reported.\<close>

definition two_cycles :: "node list" where
  "two_cycles =
     [\<lparr>n_id = demo_ref ''a'',
       n_after = [AfterContribution (demo_ref ''b''), AfterContribution (demo_ref ''c'')]\<rparr>,
      \<lparr>n_id = demo_ref ''b'', n_after = [AfterContribution (demo_ref ''a'')]\<rparr>,
      \<lparr>n_id = demo_ref ''c'', n_after = [AfterContribution (demo_ref ''a'')]\<rparr>]"

lemma two_cycles_edges:
  "edges_of two_cycles =
     [(demo_ref ''a'', [demo_ref ''b'', demo_ref ''c'']), (demo_ref ''b'', [demo_ref ''a'']),
      (demo_ref ''c'', [demo_ref ''a''])]"
  "known_of two_cycles = [demo_ref ''a'', demo_ref ''b'', demo_ref ''c'']"
  by (simp_all add: edges_of_def known_of_def two_cycles_def order_eval)

lemma two_cycles_compile:
  "compile two_cycles [] = Inl [CycleFound [demo_ref ''a'', demo_ref ''b'']]"
proof -
  have "kahn (edges_of two_cycles) [] (known_of two_cycles) 0 =
      ([], [demo_ref ''a'', demo_ref ''b'', demo_ref ''c''])"
    by (simp add: two_cycles_edges order_eval)
  moreover have "Min {demo_ref ''a'', demo_ref ''b''} = demo_ref ''a''"
    "Min {demo_ref ''b'', demo_ref ''a''} = demo_ref ''a''"
    by (simp_all add: min_def less_eq_contribution_ref_def demo_ref_def ref_key_def)
  then have "cycles [demo_ref ''a'', demo_ref ''b'', demo_ref ''c''] (edges_of two_cycles) =
      [[demo_ref ''a'', demo_ref ''b'']]"
    by (simp add: cycles_def cycles_step_def two_cycles_edges order_eval from_smallest_def)
  moreover have "compile_errors two_cycles [] = []"
    by (simp add: compile_errors_def node_errors_def two_cycles_edges)
      (simp add: two_cycles_def demo_ref_less)
  ultimately show ?thesis by (simp add: compile_def)
qed

lemma two_cycles_second: "is_cycle (edges_of two_cycles) [demo_ref ''a'', demo_ref ''c'']"
  by (simp add: is_cycle_def two_cycles_edges order_eval)

lemma compile_errors_are_real_witness:
  "(\<exists>n \<in> set two_cycles. \<exists>t \<in> set (n_after n).
      CycleFound [demo_ref ''a'', demo_ref ''b''] = UnknownTarget (n_id n) (to_ref t)
      \<and> \<not> target_known (known_of two_cycles) [] t)
    \<or> (\<exists>c. CycleFound [demo_ref ''a'', demo_ref ''b''] = CycleFound c
           \<and> is_cycle (edges_of two_cycles) c)"
  by (rule compile_errors_are_real [OF two_cycles_compile]) simp

text \<open>
  \<open>sorted\<close> returns the contributions it was given, and never runs one before another it
  runs after.
\<close>

theorem sorted_runs_predecessors_first:
  assumes "compile nodes consumers = Inr ord"
    and "i < length ids" and "j < length ids"
    and "AfterContribution (order_sorted ord ids ! i)
      \<in> set (order_after ord (order_sorted ord ids ! j))"
  shows "mset (order_sorted ord ids) = mset ids \<and> i < j"
  using order_sorted_before [OF assms(1) _ _ assms(4)] assms(2,3)
  by (simp add: order_sorted_def)

lemma sorted_runs_predecessors_first_witness:
  "mset (order_sorted demo_order [demo_ref ''b'', demo_ref ''a'']) =
      mset [demo_ref ''b'', demo_ref ''a'']
    \<and> (0::nat) < 1"
proof -
  have s: "order_sorted demo_order [demo_ref ''b'', demo_ref ''a''] = [demo_ref ''a'', demo_ref ''b'']"
    by (simp add: order_sorted_def sort_key_def sort_position_def demo_order_def demo_ref_less)
  show ?thesis
    by (rule sorted_runs_predecessors_first [OF demo_compile])
      (simp_all add: s, simp add: order_after_def demo_order_def demo_ref_less)
qed

end
