(* ===== verification/Scope_Service.thy ===== *)
theory Scope_Service
  imports Prelude
begin

text \<open>
  \<open>oxplow-domain/src/scope.rs\<close> and \<open>service.rs\<close>: the scopes core provides (their prose
  summaries apart), how a script's need names one, and which services a script may use in which
  run. \<open>need_scope\<close> reads the qualified forms \<open>sql.read:<dataset>\<close> and
  \<open>tree.read:<path>\<close>; the lemmas say what a qualifier can be, and that the two tables agree.
\<close>

section \<open>Paths and datasets\<close>

definition valid_dataset :: "string \<Rightarrow> bool" where
  "valid_dataset d \<longleftrightarrow>
     prefix ''v_'' d \<and> length d > 2
     \<and> list_all (\<lambda>c. is_ascii_lower c \<or> is_ascii_digit c \<or> c = CHR ''_'') d"

definition trim_end :: "char \<Rightarrow> string \<Rightarrow> string" where
  "trim_end c s = rev (dropWhile (\<lambda>x. x = c) (rev s))"

definition valid_path :: "string \<Rightarrow> bool" where
  "valid_path path \<longleftrightarrow>
     path \<noteq> []
     \<and> \<not> prefix ''/'' path
     \<and> CHR 0x5C \<notin> set path \<and> CHR 0x00 \<notin> set path \<and> CHR '':'' \<notin> set path
     \<and> list_all (\<lambda>p. p \<noteq> [] \<and> p \<noteq> ''.'' \<and> p \<noteq> ''..'') (split_on CHR ''/'' (trim_end CHR ''/'' path))"

definition need_scope :: "string \<Rightarrow> string" where
  "need_scope need =
     (case split_once CHR '':'' need of
        Some (k, q) \<Rightarrow>
          if k = ''sql.read'' \<and> valid_dataset q then ''sql.read''
          else if k = ''tree.read'' \<and> valid_path q then ''tree.read''
          else need
      | None \<Rightarrow> need)"

definition declares :: "string list \<Rightarrow> string \<Rightarrow> bool" where
  "declares needs sc \<longleftrightarrow> list_ex (\<lambda>need. need_scope need = sc) needs"

section \<open>Scopes\<close>

datatype access = View | Read | Record | Write

fun access_rank :: "access \<Rightarrow> nat" where
  "access_rank View = 0"
| "access_rank Read = 1"
| "access_rank Record = 2"
| "access_rank Write = 3"

instantiation access :: linorder
begin

definition less_eq_access :: "access \<Rightarrow> access \<Rightarrow> bool" where
  "less_eq_access a b \<longleftrightarrow> access_rank a \<le> access_rank b"

definition less_access :: "access \<Rightarrow> access \<Rightarrow> bool" where
  "less_access a b \<longleftrightarrow> access_rank a < access_rank b"

instance
proof
  fix a b :: access
  show "a \<le> b \<Longrightarrow> b \<le> a \<Longrightarrow> a = b"
    by (cases a; cases b) (simp_all add: less_eq_access_def)
qed (auto simp: less_eq_access_def less_access_def)

end

definition reads_only :: "access \<Rightarrow> bool" where
  "reads_only a \<longleftrightarrow> a = View \<or> a = Read"

datatype scope_host = Daemon | Window | Shell

record scope_spec =
  sc_id :: string
  sc_access :: access
  sc_host :: scope_host
  sc_spends :: bool

definition mk_scope :: "string \<Rightarrow> access \<Rightarrow> scope_host \<Rightarrow> bool \<Rightarrow> scope_spec" where
  "mk_scope i a h sp = \<lparr>sc_id = i, sc_access = a, sc_host = h, sc_spends = sp\<rparr>"

definition SCOPES_1 :: "scope_spec list" where
  "SCOPES_1 =
    [mk_scope ''agent_input.write'' View Window False,
     mk_scope ''agent_sessions.write'' Record Daemon False,
     mk_scope ''agent_text.read'' Read Daemon False,
     mk_scope ''ai.compute'' Read Daemon True,
     mk_scope ''ai.discover'' Read Daemon False,
     mk_scope ''ai.settings'' Write Daemon False,
     mk_scope ''ai.test'' Read Daemon True,
     mk_scope ''bookmarks.write'' Record Daemon False,
     mk_scope ''changes.read'' Read Daemon False,
     mk_scope ''collectors.preview'' Read Daemon False,
     mk_scope ''collectors.sync'' Write Daemon False,
     mk_scope ''config.read'' Read Daemon False,
     mk_scope ''config.write'' Write Daemon False,
     mk_scope ''context.write'' Record Daemon False,
     mk_scope ''credentials.write'' Write Daemon False,
     mk_scope ''deliveries.write'' Write Daemon False,
     mk_scope ''diagnostics.write'' Record Daemon False,
     mk_scope ''editor.write'' View Window False,
     mk_scope ''effects.read'' Read Daemon False,
     mk_scope ''effects.run'' Write Daemon False]"

definition SCOPES_2 :: "scope_spec list" where
  "SCOPES_2 =
    [mk_scope ''efforts.write'' Record Daemon False,
     mk_scope ''extension_config.read'' Read Daemon False,
     mk_scope ''extension_config.write'' Record Daemon False,
     mk_scope ''extensions.check'' Read Daemon False,
     mk_scope ''extensions.deploy'' Write Daemon False,
     mk_scope ''extensions.enable'' Write Daemon False,
     mk_scope ''files.write'' Write Daemon False,
     mk_scope ''handoffs.write'' Record Daemon False,
     mk_scope ''hints.write'' Record Daemon False,
     mk_scope ''jobs.manage'' Write Daemon False,
     mk_scope ''jobs.read'' Read Daemon False,
     mk_scope ''jobs.write'' Record Daemon False,
     mk_scope ''knowledge.read'' Read Daemon False,
     mk_scope ''knowledge.write'' Record Daemon False,
     mk_scope ''lsp.control'' Write Daemon False,
     mk_scope ''lsp.install'' Write Daemon False,
     mk_scope ''lsp.read'' Read Daemon False,
     mk_scope ''metrics.read'' Read Daemon False,
     mk_scope ''metrics.write'' Write Daemon False,
     mk_scope ''pages.author'' Write Daemon False,
     mk_scope ''pages.read'' Read Daemon False]"

definition SCOPES_3 :: "scope_spec list" where
  "SCOPES_3 =
    [mk_scope ''pages.show'' Record Daemon False,
     mk_scope ''pages.write'' Write Daemon False,
     mk_scope ''projects.write'' Write Shell False,
     mk_scope ''providers.sync'' Record Daemon False,
     mk_scope ''providers.write'' Write Daemon False,
     mk_scope ''records.read'' Read Daemon False,
     mk_scope ''search.read'' Read Daemon False,
     mk_scope ''sql.read'' Read Daemon False,
     mk_scope ''state.read'' Read Daemon False,
     mk_scope ''state.write'' Record Daemon False,
     mk_scope ''streams.write'' Record Daemon False,
     mk_scope ''tabs.write'' View Window False,
     mk_scope ''terminals.write'' Write Daemon False,
     mk_scope ''test_runs.write'' Record Daemon False,
     mk_scope ''threads.write'' Record Daemon False,
     mk_scope ''tree.read'' Read Daemon False,
     mk_scope ''vcs.read'' Read Daemon False,
     mk_scope ''vcs.remote'' Write Daemon False,
     mk_scope ''vcs.write'' Write Daemon False,
     mk_scope ''window.show'' View Window False]"

definition SCOPES_4 :: "scope_spec list" where
  "SCOPES_4 =
    [mk_scope ''work_items.write'' Record Daemon False,
     mk_scope ''worktrees.write'' Write Daemon False]"

definition SCOPES :: "scope_spec list" where
  "SCOPES = SCOPES_1 @ SCOPES_2 @ SCOPES_3 @ SCOPES_4"

definition find_scope :: "string \<Rightarrow> scope_spec option" where
  "find_scope i = find (\<lambda>c. sc_id c = need_scope i) SCOPES"

text \<open>\<open>Iterator::max\<close> keeps the last of equal maxima; access values are then equal.\<close>

fun max_access :: "access list \<Rightarrow> access option" where
  "max_access [] = None"
| "max_access (a # as) = (case max_access as of None \<Rightarrow> Some a | Some b \<Rightarrow> Some (max a b))"

definition strongest_access :: "string list \<Rightarrow> access option" where
  "strongest_access needs = max_access (map sc_access (List.map_filter find_scope needs))"

text \<open>What a run called, per scope: the counters are \<open>u32\<close>.\<close>

definition add_counts :: "(string \<times> nat) list \<Rightarrow> (string \<times> nat) list \<Rightarrow> (string \<times> nat) list option" where
  "add_counts into from =
     foldl (\<lambda>acc (i, n). Option.bind acc (\<lambda>m.
         let old = (case map_of m i of Some k \<Rightarrow> k | None \<Rightarrow> 0) in
         map_option (\<lambda>v. bt_insert i v m) (checked_add_u32 old n)))
       (Some into) from"

section \<open>Services\<close>

datatype mode = Pure | Transactional | External

record service_spec =
  sv_scope :: string
  sv_title :: string
  sv_builtins :: "string list"
  sv_modes :: "mode list"

definition ALL_MODES :: "mode list" where
  "ALL_MODES = [Pure, Transactional, External]"

definition CALLABLE :: "string list" where
  "CALLABLE = [''sql.read'', ''state.read'', ''extension_config.read'', ''jobs.read'', ''ai.discover'']"

definition SERVICES :: "service_spec list" where
  "SERVICES =
    [\<lparr>sv_scope = ''jobs.read'', sv_title = ''Read recorded job results'', sv_builtins = [],
      sv_modes = ALL_MODES\<rparr>,
     \<lparr>sv_scope = ''extension_config.read'', sv_title = ''Read resolved extension configuration'',
      sv_builtins = [], sv_modes = ALL_MODES\<rparr>,
     \<lparr>sv_scope = ''state.read'', sv_title = ''Read private extension state'', sv_builtins = [],
      sv_modes = ALL_MODES\<rparr>,
     \<lparr>sv_scope = ''sql.read'', sv_title = ''Read the semantic layer'', sv_builtins = [''scope''],
      sv_modes = ALL_MODES\<rparr>,
     \<lparr>sv_scope = ''tree.read'', sv_title = ''Read the captured tree'',
      sv_builtins = [''files'', ''source_files'', ''duplicate_blocks''], sv_modes = ALL_MODES\<rparr>,
     \<lparr>sv_scope = ''ai.compute'', sv_title = ''Ask a model'',
      sv_builtins = [''ai_classify'', ''ai_score'', ''ai_summarize'', ''ai_extract'', ''ai_complete''],
      sv_modes = [External]\<rparr>,
     \<lparr>sv_scope = ''ai.discover'', sv_title = ''Discover model capabilities'',
      sv_builtins = [''ai_capabilities'', ''ai_models''], sv_modes = ALL_MODES\<rparr>]"

definition service :: "string \<Rightarrow> service_spec option" where
  "service sc = find (\<lambda>s. sv_scope s = need_scope sc) SERVICES"

definition service_of_builtin :: "string \<Rightarrow> service_spec option" where
  "service_of_builtin name = find (\<lambda>s. name \<in> set (sv_builtins s)) SERVICES"

datatype need_problem = ScopeNotForScripts | NotAScope

definition check_declared :: "string \<Rightarrow> need_problem + unit" where
  "check_declared i =
     (if service i \<noteq> None then Inr ()
      else if find_scope i \<noteq> None then Inl ScopeNotForScripts
      else Inl NotAScope)"

definition undeclared :: "string \<Rightarrow> string" where
  "undeclared builtin =
     (case service_of_builtin builtin of
        Some s \<Rightarrow> ''`'' @ builtin @ ''()` needs `'' @ sv_scope s @ ''` in this script'' @ [CHR 0x27]
          @ ''s `needs`''
      | None \<Rightarrow> ''`'' @ builtin @ ''()` isn'' @ [CHR 0x27] @ ''t a service builtin'')"

section \<open>Facts\<close>

lemma need_scope_cases:
  "need_scope n = n
   \<or> (\<exists>d. n = ''sql.read:'' @ d \<and> valid_dataset d \<and> need_scope n = ''sql.read'')
   \<or> (\<exists>p. n = ''tree.read:'' @ p \<and> valid_path p \<and> need_scope n = ''tree.read'')"
  by (auto simp: need_scope_def split_once_Some split: option.splits)

lemma need_scope_plain: "CHR '':'' \<notin> set n \<Longrightarrow> need_scope n = n"
  by (simp add: need_scope_def split_once_None [THEN iffD2])

lemma max_access_None: "max_access as = None \<longleftrightarrow> as = []"
  by (cases as) (auto split: option.splits)

lemma max_access_Some: "max_access as = Some a \<Longrightarrow> a \<in> set as \<and> (\<forall>b \<in> set as. b \<le> a)"
proof (induction as arbitrary: a)
  case (Cons x xs)
  show ?case
  proof (cases "max_access xs")
    case None
    with Cons.prems show ?thesis by (simp add: max_access_None)
  next
    case (Some b)
    with Cons.prems have a: "a = max x b" by simp
    from Cons.IH [OF Some] have b: "b \<in> set xs" "\<forall>c \<in> set xs. c \<le> b" by auto
    have "\<forall>c \<in> set xs. c \<le> a" using b(2) by (auto simp: a intro: order_trans [OF _ max.cobounded2])
    moreover have "a \<in> set (x # xs)" using b(1) by (simp add: a max_def)
    ultimately show ?thesis by (simp add: a)
  qed
qed simp

lemma strongest_access_Some:
  assumes "strongest_access needs = Some a"
  shows "(\<exists>n \<in> set needs. \<exists>c. find_scope n = Some c \<and> sc_access c = a)
    \<and> (\<forall>n \<in> set needs. \<forall>c. find_scope n = Some c \<longrightarrow> sc_access c \<le> a)"
  using max_access_Some [OF assms [unfolded strongest_access_def]]
  by (force simp: map_filter_def)

lemma lookup_append: "find P (xs @ ys) = (case find P xs of None \<Rightarrow> find P ys | Some x \<Rightarrow> Some x)"
  by (induction xs) auto

text \<open>Every service is a scope of the table, and one that spends runs only where calls may go out.\<close>

lemma services_are_scopes:
  "\<forall>s \<in> set SERVICES. \<exists>c. find (\<lambda>c. sc_id c = sv_scope s) SCOPES = Some c
     \<and> (sc_spends c \<longrightarrow> sv_modes s = [External]) \<and> reads_only (sc_access c)"
  by (simp add: SERVICES_def SCOPES_def lookup_append SCOPES_1_def SCOPES_2_def SCOPES_3_def
      SCOPES_4_def mk_scope_def reads_only_def)

lemma service_is_scope:
  assumes "service n = Some s"
  shows "\<exists>c. find_scope n = Some c \<and> (sc_spends c \<longrightarrow> sv_modes s = [External])
    \<and> reads_only (sc_access c)"
proof -
  have "s \<in> set SERVICES" "sv_scope s = need_scope n"
    using assms by (auto simp: service_def find_Some_iff)
  then show ?thesis using services_are_scopes by (fastforce simp: find_scope_def)
qed

end
