(* ===== verification/Permissions.thy ===== *)
theory Permissions
  imports Scope_Service
begin

text \<open>
  \<open>oxplow-domain/src/permissions.rs\<close> and \<open>grant.rs\<close>: the permissions an extension declares,
  what one set grants beyond another, and how a run decides one need. The lemmas: the list form
  round trips, a deploy asks exactly when something is not covered, unions cover their parts,
  a set that covers another permits what the other does (commands apart from a \<open>**\<close> inside a
  covered pattern, where it does not), and an allowed need was declared and permitted.
\<close>

section \<open>Patterns\<close>

fun pattern_walk :: "string list \<Rightarrow> string list \<Rightarrow> bool" where
  "pattern_walk [] [] \<longleftrightarrow> True"
| "pattern_walk [] (h # hs) \<longleftrightarrow> False"
| "pattern_walk (w # ws) [] \<longleftrightarrow> w = ''**''"
| "pattern_walk (w # ws) (h # hs) \<longleftrightarrow>
     w = ''**'' \<or> ((w = ''*'' \<or> w = h) \<and> pattern_walk ws hs)"

definition pattern_covers :: "string \<Rightarrow> string \<Rightarrow> bool" where
  "pattern_covers pattern name \<longleftrightarrow> pattern_walk (split_on CHR ''.'' pattern) (split_on CHR ''.'' name)"

definition host_covers :: "string \<Rightarrow> string \<Rightarrow> bool" where
  "host_covers pattern host \<longleftrightarrow>
     (case strip_prefix ''*.'' pattern of
        Some domain \<Rightarrow> suffix (''.'' @ domain) host
      | None \<Rightarrow> pattern = host)"

section \<open>Permissions\<close>

datatype sql_access = SqlRead

datatype files_access = FilesRead | FilesWrite

text \<open>The derived \<open>Ord\<close>: \<open>None\<close> below \<open>Read\<close> below \<open>Write\<close>.\<close>

fun files_rank :: "files_access option \<Rightarrow> nat" where
  "files_rank None = 0"
| "files_rank (Some FilesRead) = 1"
| "files_rank (Some FilesWrite) = 2"

definition files_max :: "files_access option \<Rightarrow> files_access option \<Rightarrow> files_access option" where
  "files_max a b = (if files_rank b < files_rank a then a else b)"

record permissions =
  p_sql :: "sql_access option"
  p_commands :: "string list"
  p_files :: "files_access option"
  p_ai :: bool
  p_network :: "string list"
  p_process :: bool
  p_secrets :: "string list"
  p_agent :: bool

definition no_permissions :: permissions where
  "no_permissions =
     \<lparr>p_sql = None, p_commands = [], p_files = None, p_ai = False, p_network = [],
      p_process = False, p_secrets = [], p_agent = False\<rparr>"

definition PERMISSION_IDS :: "string list" where
  "PERMISSION_IDS =
     [''sql.read'', ''files.read'', ''files.write'', ''ai.compute'', ''process.run'',
      ''agent.write'', ''network:'', ''secrets:'', ''commands:'']"

definition push_new :: "string list \<Rightarrow> string \<Rightarrow> string list" where
  "push_new xs x = (if x \<in> set xs then xs else xs @ [x])"

definition unknown_permission :: "string \<Rightarrow> string" where
  "unknown_permission i =
     ''`'' @ i @ ''` isn'' @ [CHR 0x27] @ ''t a permission: `permissions:` lists '' @
     join '', ''
       (map (\<lambda>k. if suffix '':'' k
                 then k @ ''<'' @ [CHR 0xE2, CHR 0x80, CHR 0xA6] @ ''>'' else k) PERMISSION_IDS)"

definition add_permission :: "permissions \<Rightarrow> string \<Rightarrow> string + permissions" where
  "add_permission out i =
     (case split_once CHR '':'' i of
        Some (k, v) \<Rightarrow>
          if k = ''network'' \<and> v \<noteq> [] then Inr (out\<lparr>p_network := push_new (p_network out) v\<rparr>)
          else if k = ''secrets'' \<and> v \<noteq> [] then Inr (out\<lparr>p_secrets := push_new (p_secrets out) v\<rparr>)
          else if k = ''commands'' \<and> v \<noteq> []
          then Inr (out\<lparr>p_commands := push_new (p_commands out) v\<rparr>)
          else Inl (unknown_permission i)
      | None \<Rightarrow>
          if i = ''sql.read'' then Inr (out\<lparr>p_sql := Some SqlRead\<rparr>)
          else if i = ''files.read''
          then Inr (out\<lparr>p_files := files_max (p_files out) (Some FilesRead)\<rparr>)
          else if i = ''files.write'' then Inr (out\<lparr>p_files := Some FilesWrite\<rparr>)
          else if i = ''ai.compute'' then Inr (out\<lparr>p_ai := True\<rparr>)
          else if i = ''process.run'' then Inr (out\<lparr>p_process := True\<rparr>)
          else if i = ''agent.write'' then Inr (out\<lparr>p_agent := True\<rparr>)
          else Inl (unknown_permission i))"

fun add_permissions :: "permissions \<Rightarrow> string list \<Rightarrow> string + permissions" where
  "add_permissions out [] = Inr out"
| "add_permissions out (i # is') = bind_res (add_permission out i) (\<lambda>out'. add_permissions out' is')"

definition permissions_try_from :: "string list \<Rightarrow> string + permissions" where
  "permissions_try_from ids = add_permissions no_permissions ids"

definition permissions_into :: "permissions \<Rightarrow> string list" where
  "permissions_into p =
     (if p_sql p \<noteq> None then [''sql.read''] else [])
     @ (case p_files p of Some FilesWrite \<Rightarrow> [''files.write''] | Some FilesRead \<Rightarrow> [''files.read'']
        | None \<Rightarrow> [])
     @ (if p_ai p then [''ai.compute''] else [])
     @ (if p_process p then [''process.run''] else [])
     @ (if p_agent p then [''agent.write''] else [])
     @ map (\<lambda>h. ''network:'' @ h) (p_network p)
     @ map (\<lambda>s. ''secrets:'' @ s) (p_secrets p)
     @ map (\<lambda>c. ''commands:'' @ c) (p_commands p)"

definition quoted_list :: "string \<Rightarrow> string list \<Rightarrow> string" where
  "quoted_list key items = join '', '' (map (\<lambda>item. ''`'' @ key @ '':'' @ item @ ''`'') items)"

definition uncovered :: "(string \<Rightarrow> string \<Rightarrow> bool) \<Rightarrow> string list \<Rightarrow> string list \<Rightarrow> string list" where
  "uncovered covers have want = filter (\<lambda>w. \<not> list_ex (\<lambda>p. covers p w) have) want"

definition missing :: "permissions \<Rightarrow> permissions \<Rightarrow> string list" where
  "missing p needed =
     (if p_sql needed \<noteq> None \<and> p_sql p = None then [''`sql.read`''] else [])
     @ (let cs = uncovered pattern_covers (p_commands p) (p_commands needed) in
        if cs \<noteq> [] then [quoted_list ''commands'' cs] else [])
     @ (case p_files needed of
          Some want \<Rightarrow>
            if (case p_files p of None \<Rightarrow> True | Some have \<Rightarrow> files_rank (Some have) < files_rank (Some want))
            then [''`files.'' @ (if want = FilesWrite then ''write'' else ''read'') @ ''`''] else []
        | None \<Rightarrow> [])
     @ (if p_ai needed \<and> \<not> p_ai p then [''`ai.compute`''] else [])
     @ (let hs = uncovered host_covers (p_network p) (p_network needed) in
        if hs \<noteq> [] then [quoted_list ''network'' hs] else [])
     @ (if p_process needed \<and> \<not> p_process p then [''`process.run`''] else [])
     @ (let ss = filter (\<lambda>s. s \<notin> set (p_secrets p)) (p_secrets needed) in
        if ss \<noteq> [] then [quoted_list ''secrets'' ss] else [])
     @ (if p_agent needed \<and> \<not> p_agent p then [''`agent.write`''] else [])"

definition covers :: "permissions \<Rightarrow> permissions \<Rightarrow> bool" where
  "covers p needed \<longleftrightarrow> missing p needed = []"

definition em_dash :: string where
  "em_dash = [CHR 0xE2, CHR 0x80, CHR 0x94]"

definition apostrophe :: string where
  "apostrophe = [CHR 0x27]"

definition added_over :: "permissions \<Rightarrow> permissions \<Rightarrow> string list" where
  "added_over p baseline =
     (if p_process p \<and> \<not> p_process baseline
      then [''process '' @ em_dash @ '' runs programs with your authority; oxplow does not confine them'']
      else [])
     @ (let hs = uncovered host_covers (p_network baseline) (p_network p) in
        if hs \<noteq> [] then [''network '' @ em_dash @ '' may reach '' @ join '', '' hs] else [])
     @ (let ss = filter (\<lambda>s. s \<notin> set (p_secrets baseline)) (p_secrets p) in
        if ss \<noteq> [] then [''secrets '' @ em_dash @ '' may read '' @ join '', '' ss] else [])
     @ (if p_ai p \<and> \<not> p_ai baseline
        then [''ai '' @ em_dash @ '' may call your AI provider with your key''] else [])
     @ (if p_sql p \<noteq> None \<and> p_sql baseline = None
        then [''sql '' @ em_dash @ '' may run its own SQL over your data''] else [])
     @ (if p_files p = Some FilesWrite \<and> p_files baseline \<noteq> Some FilesWrite
        then [''files '' @ em_dash @ '' may read and write the project'' @ apostrophe @ ''s files'']
        else if p_files p = Some FilesRead \<and> p_files baseline = None
        then [''files '' @ em_dash @ '' may read the project'' @ apostrophe @ ''s files'']
        else [])
     @ (let cs = uncovered pattern_covers (p_commands baseline) (p_commands p) in
        if cs \<noteq> [] then [''commands '' @ em_dash @ '' may run '' @ join '', '' cs] else [])
     @ (if p_agent p \<and> \<not> p_agent baseline
        then [''agent '' @ em_dash @ '' may add skills, advisories and prompts to your agent''] else [])"

definition permissions_union :: "permissions \<Rightarrow> permissions \<Rightarrow> permissions" where
  "permissions_union p q =
     p\<lparr>p_sql := (case p_sql p of None \<Rightarrow> p_sql q | Some s \<Rightarrow> Some s),
       p_files := files_max (p_files p) (p_files q),
       p_ai := p_ai p \<or> p_ai q,
       p_process := p_process p \<or> p_process q,
       p_agent := p_agent p \<or> p_agent q,
       p_commands := foldl push_new (p_commands p) (p_commands q),
       p_network := foldl push_new (p_network p) (p_network q),
       p_secrets := foldl push_new (p_secrets p) (p_secrets q)\<rparr>"

definition command_allowed :: "permissions \<Rightarrow> string \<Rightarrow> string \<Rightarrow> bool" where
  "command_allowed p own_namespace i \<longleftrightarrow>
     (case strip_prefix own_namespace i of None \<Rightarrow> False | Some rest \<Rightarrow> prefix ''.'' rest)
     \<or> list_ex (\<lambda>c. pattern_covers c i) (p_commands p)"

definition host_allowed :: "permissions \<Rightarrow> string \<Rightarrow> bool" where
  "host_allowed p host \<longleftrightarrow> list_ex (\<lambda>h. host_covers h host) (p_network p)"

section \<open>Grants and decisions\<close>

text \<open>The sets of a request are \<open>BTreeSet\<close>s: sorted lists.\<close>

record grant_request =
  gr_scopes :: "string list"
  gr_program :: "string option"
  gr_hosts :: "string list"
  gr_credentials :: "string list"
  gr_env :: "string list"
  gr_commands :: "string list"

record grant =
  g_namespace :: string
  g_permissions :: permissions

definition grant_none :: grant where
  "grant_none = \<lparr>g_namespace = [], g_permissions = no_permissions\<rparr>"

datatype need =
  NeedScope string | NeedDataset string | NeedPath string | NeedProgram string | NeedHost string
  | NeedCredential string | NeedEnv string | NeedCommand string | NeedFiles

datatype decision = Allowed | Denied string | Unenforced string

fun permits_ok :: "grant \<Rightarrow> need \<Rightarrow> bool" where
  "permits_ok g (NeedScope s) =
     (let k = need_scope s; p = g_permissions g in
      if k = ''sql.read'' then p_sql p \<noteq> None
      else if k = ''tree.read'' then p_files p \<noteq> None
      else if k = ''ai.compute'' \<or> k = ''ai.discover'' then p_ai p
      else True)"
| "permits_ok g (NeedDataset d) = True"
| "permits_ok g (NeedPath path) = (p_files (g_permissions g) \<noteq> None)"
| "permits_ok g (NeedProgram e) = p_process (g_permissions g)"
| "permits_ok g NeedFiles = p_process (g_permissions g)"
| "permits_ok g (NeedEnv e) = p_process (g_permissions g)"
| "permits_ok g (NeedHost h) = host_allowed (g_permissions g) h"
| "permits_ok g (NeedCredential c) = (c \<in> set (p_secrets (g_permissions g)))"
| "permits_ok g (NeedCommand c) = command_allowed (g_permissions g) (g_namespace g) c"

fun permission_for :: "need \<Rightarrow> string" where
  "permission_for (NeedScope s) =
     (let k = need_scope s in
      if k = ''sql.read'' then ''sql.read''
      else if k = ''tree.read'' then ''files.read''
      else ''ai.compute'')"
| "permission_for (NeedDataset d) = ''sql.read''"
| "permission_for (NeedPath path) = ''files.read''"
| "permission_for (NeedProgram e) = ''process.run''"
| "permission_for NeedFiles = ''process.run''"
| "permission_for (NeedEnv e) = ''process.run''"
| "permission_for (NeedHost h) = ''network:'' @ h"
| "permission_for (NeedCredential c) = ''secrets:'' @ c"
| "permission_for (NeedCommand c) = ''commands:'' @ c"

definition permits :: "grant \<Rightarrow> need \<Rightarrow> string + unit" where
  "permits g nd = (if permits_ok g nd then Inr () else Inl (permission_for nd))"

text \<open>\<open>Enforcement { hosts }\<close> is its one field.\<close>

definition gap :: "bool \<Rightarrow> need \<Rightarrow> string option" where
  "gap hosts nd =
     (case nd of
        NeedHost h \<Rightarrow>
          if \<not> hosts then Some (''network isn'' @ apostrophe @ ''t confined to the granted hosts on this OS'')
          else None
      | NeedFiles \<Rightarrow>
          Some (''a program runs with your file, network and process authority; oxplow cleans up its processes but doesn'' @ apostrophe @ ''t confine it'')
      | _ \<Rightarrow> None)"

definition path_in_scope :: "string \<Rightarrow> string \<Rightarrow> bool" where
  "path_in_scope path n \<longleftrightarrow>
     (case strip_prefix ''tree.read:'' n of
        None \<Rightarrow> False
      | Some p \<Rightarrow> valid_path p \<and> (p = path \<or> (suffix ''/'' p \<and> prefix p path)))"

fun within :: "grant_request \<Rightarrow> need \<Rightarrow> bool" where
  "within d (NeedScope s) = list_ex (\<lambda>n. need_scope n = s) (gr_scopes d)"
| "within d (NeedDataset ds) =
     (''sql.read'' \<in> set (gr_scopes d) \<or> ''sql.read:'' @ ds \<in> set (gr_scopes d))"
| "within d (NeedPath path) =
     (valid_path path
      \<and> (''tree.read'' \<in> set (gr_scopes d) \<or> list_ex (path_in_scope path) (gr_scopes d)))"
| "within d (NeedProgram e) = (gr_program d = Some e)"
| "within d (NeedHost h) = list_ex (\<lambda>pattern. host_covers pattern h) (gr_hosts d)"
| "within d (NeedCredential c) = (c \<in> set (gr_credentials d))"
| "within d (NeedEnv e) = (e \<in> set (gr_env d))"
| "within d (NeedCommand c) = True"
| "within d NeedFiles = (gr_program d \<noteq> None)"

definition decide :: "need \<Rightarrow> grant_request \<Rightarrow> grant \<Rightarrow> bool \<Rightarrow> decision" where
  "decide nd declared g hosts_confined =
     (if \<not> within declared nd then Denied ''not declared''
      else
        (case permits g nd of
           Inl permission \<Rightarrow>
             Denied (''needs `'' @ permission @ ''` in the extension'' @ apostrophe @ ''s `permissions:`'')
         | Inr _ \<Rightarrow>
             (case gap hosts_confined nd of Some why \<Rightarrow> Unenforced why | None \<Rightarrow> Allowed)))"

section \<open>Covering\<close>

text \<open>What the checks below use of a pattern language: every pattern covers itself.\<close>

locale cover =
  fixes covers_item :: "string \<Rightarrow> string \<Rightarrow> bool"
  assumes cover_refl: "covers_item p p"
begin

lemma covered_member: "x \<in> set have \<Longrightarrow> list_ex (\<lambda>p. covers_item p x) have"
  using cover_refl by (auto simp: list_ex_iff)

lemma uncovered_subset: "set want \<subseteq> set have \<Longrightarrow> uncovered covers_item have want = []"
  using covered_member by (auto simp: uncovered_def filter_empty_conv)

end

text \<open>And where covering composes, a covering list admits all that the covered one does.\<close>

locale cover_preorder = cover +
  assumes cover_trans: "covers_item p q \<Longrightarrow> covers_item q x \<Longrightarrow> covers_item p x"
begin

lemma admits_mono:
  assumes "uncovered covers_item have want = []" "list_ex (\<lambda>q. covers_item q x) want"
  shows "list_ex (\<lambda>p. covers_item p x) have"
proof -
  obtain q where q: "q \<in> set want" "covers_item q x" using assms(2) by (auto simp: list_ex_iff)
  then obtain p where "p \<in> set have" "covers_item p q"
    using assms(1) by (auto simp: uncovered_def filter_empty_conv list_ex_iff)
  with q show ?thesis using cover_trans by (auto simp: list_ex_iff)
qed

end

lemma host_covers_refl: "host_covers p p"
  by (auto simp: host_covers_def strip_prefix_Some suffix_def split: option.splits)

lemma host_covers_trans:
  assumes "host_covers p q" "host_covers q h"
  shows "host_covers p h"
proof (cases "strip_prefix ''*.'' p")
  case None
  with assms show ?thesis by (simp add: host_covers_def)
next
  case (Some d)
  with assms(1) have pq: "suffix (''.'' @ d) q" by (simp add: host_covers_def)
  show ?thesis
  proof (cases "strip_prefix ''*.'' q")
    case None
    with assms Some pq show ?thesis by (simp add: host_covers_def)
  next
    case (Some e)
    then have q: "q = ''*'' @ ''.'' @ e" by (simp add: strip_prefix_Some)
    with pq have "suffix (''.'' @ d) (''.'' @ e)"
      by (simp add: suffix_Cons)
    moreover have "suffix (''.'' @ e) h" using Some assms(2) by (simp add: host_covers_def)
    ultimately show ?thesis
      using \<open>strip_prefix ''*.'' p = Some d\<close> suffix_order.trans by (simp add: host_covers_def)
  qed
qed

lemma pattern_walk_refl: "pattern_walk w w"
  by (induction w) auto

lemma pattern_covers_refl: "pattern_covers p p"
  by (simp add: pattern_covers_def pattern_walk_refl)

interpretation host: cover_preorder host_covers
  by unfold_locales (rule host_covers_refl, rule host_covers_trans)

interpretation command_pattern: cover pattern_covers
  by unfold_locales (rule pattern_covers_refl)

interpretation name_set: cover_preorder "(=)"
  by unfold_locales auto

text \<open>A pattern admits what a covered pattern admits when the covered one ends in no \<open>**\<close>.\<close>

lemma pattern_walk_trans:
  "pattern_walk p q \<Longrightarrow> pattern_walk q n \<Longrightarrow> ''**'' \<notin> set q \<Longrightarrow> pattern_walk p n"
proof (induction p q arbitrary: n rule: pattern_walk.induct)
  case 1
  then show ?case by simp
next
  case (2 h hs)
  then show ?case by simp
next
  case (3 w ws)
  then show ?case by (cases n) auto
next
  case (4 w ws h hs)
  then show ?case by (cases n) auto
qed

definition no_rest :: "string \<Rightarrow> bool" where
  "no_rest pattern \<longleftrightarrow> ''**'' \<notin> set (split_on CHR ''.'' pattern)"

lemma pattern_admits_mono:
  assumes "uncovered pattern_covers have want = []" "list_ex (\<lambda>q. pattern_covers q x) want"
    and "\<And>q. q \<in> set want \<Longrightarrow> pattern_covers q x \<Longrightarrow> no_rest q"
  shows "list_ex (\<lambda>p. pattern_covers p x) have"
proof -
  obtain q where q: "q \<in> set want" "pattern_covers q x" using assms(2) by (auto simp: list_ex_iff)
  then obtain p where "p \<in> set have" "pattern_covers p q"
    using assms(1) by (auto simp: uncovered_def filter_empty_conv list_ex_iff)
  with q assms(3) have "pattern_covers p x"
    using pattern_walk_trans [of "split_on CHR ''.'' p" "split_on CHR ''.'' q" "split_on CHR ''.'' x"]
    \<open>pattern_covers p q\<close> unfolding pattern_covers_def no_rest_def by blast
  with \<open>p \<in> set have\<close> show ?thesis by (auto simp: list_ex_iff)
qed

lemma secrets_uncovered: "filter (\<lambda>s. s \<notin> set have) want = uncovered (=) have want"
  by (simp add: uncovered_def list_ex_iff)

lemma covers_iff:
  "covers p q \<longleftrightarrow>
     (p_sql q \<noteq> None \<longrightarrow> p_sql p \<noteq> None)
     \<and> uncovered pattern_covers (p_commands p) (p_commands q) = []
     \<and> files_rank (p_files q) \<le> files_rank (p_files p)
     \<and> (p_ai q \<longrightarrow> p_ai p)
     \<and> uncovered host_covers (p_network p) (p_network q) = []
     \<and> (p_process q \<longrightarrow> p_process p)
     \<and> uncovered (=) (p_secrets p) (p_secrets q) = []
     \<and> (p_agent q \<longrightarrow> p_agent p)"
proof -
  have files: "(case p_files q of
        Some want \<Rightarrow>
          if (case p_files p of None \<Rightarrow> True | Some have \<Rightarrow> files_rank (Some have) < files_rank (Some want))
          then [x want] else [] | None \<Rightarrow> []) = []
      \<longleftrightarrow> files_rank (p_files q) \<le> files_rank (p_files p)" for x :: "files_access \<Rightarrow> string"
  proof (cases "p_files q")
    case (Some want)
    then show ?thesis
      by (cases want; cases "p_files p") (auto split: if_splits)
  qed simp
  show ?thesis
    unfolding covers_def missing_def secrets_uncovered Let_def append_is_Nil_conv files by auto
qed

lemma added_over_iff: "added_over p baseline = [] \<longleftrightarrow> covers baseline p"
proof -
  have files: "(if p_files p = Some FilesWrite \<and> p_files baseline \<noteq> Some FilesWrite then [x]
        else if p_files p = Some FilesRead \<and> p_files baseline = None then [y] else []) = []
      \<longleftrightarrow> files_rank (p_files p) \<le> files_rank (p_files baseline)" for x y :: string
    by (cases "p_files p"; cases "p_files baseline";
        cases "the (p_files p)"; cases "the (p_files baseline)") auto
  show ?thesis
    unfolding covers_iff added_over_def secrets_uncovered Let_def append_is_Nil_conv files by auto
qed

lemma set_foldl_push: "set (foldl push_new xs ys) = set xs \<union> set ys"
  by (induction ys arbitrary: xs) (auto simp: push_new_def)

lemma union_covers: "covers (permissions_union p q) p \<and> covers (permissions_union p q) q"
  by (auto simp: covers_iff permissions_union_def files_max_def set_foldl_push
      intro!: host.uncovered_subset command_pattern.uncovered_subset name_set.uncovered_subset
      split: option.splits)

lemma covers_refl: "covers p p"
  by (auto simp: covers_iff
      intro!: host.uncovered_subset command_pattern.uncovered_subset name_set.uncovered_subset)

section \<open>The list form\<close>

definition list_ok :: "string list \<Rightarrow> bool" where
  "list_ok xs \<longleftrightarrow> distinct xs \<and> [] \<notin> set xs"

definition permissions_ok :: "permissions \<Rightarrow> bool" where
  "permissions_ok p \<longleftrightarrow> list_ok (p_network p) \<and> list_ok (p_secrets p) \<and> list_ok (p_commands p)"

lemma foldl_push_distinct: "distinct (xs @ ys) \<Longrightarrow> foldl push_new xs ys = xs @ ys"
  by (induction ys arbitrary: xs) (simp_all add: push_new_def)

lemma add_permissions_append:
  "add_permissions out (xs @ ys) = bind_res (add_permissions out xs) (\<lambda>o'. add_permissions o' ys)"
proof (induction xs arbitrary: out)
  case (Cons x xs)
  then show ?case by (cases "add_permission out x") simp_all
qed simp

lemma add_network:
  "[] \<notin> set hs \<Longrightarrow> add_permissions out (map (\<lambda>h. ''network:'' @ h) hs) =
     Inr (out\<lparr>p_network := foldl push_new (p_network out) hs\<rparr>)"
  by (induction hs arbitrary: out) (auto simp: add_permission_def)

lemma add_secrets:
  "[] \<notin> set hs \<Longrightarrow> add_permissions out (map (\<lambda>h. ''secrets:'' @ h) hs) =
     Inr (out\<lparr>p_secrets := foldl push_new (p_secrets out) hs\<rparr>)"
  by (induction hs arbitrary: out) (auto simp: add_permission_def)

lemma add_commands:
  "[] \<notin> set hs \<Longrightarrow> add_permissions out (map (\<lambda>h. ''commands:'' @ h) hs) =
     Inr (out\<lparr>p_commands := foldl push_new (p_commands out) hs\<rparr>)"
  by (induction hs arbitrary: out) (auto simp: add_permission_def)

lemma try_from_into: "permissions_ok p \<Longrightarrow> permissions_try_from (permissions_into p) = Inr p"
proof -
  assume "permissions_ok p"
  then have ok: "distinct (p_network p)" "distinct (p_secrets p)" "distinct (p_commands p)"
    "[] \<notin> set (p_network p)" "[] \<notin> set (p_secrets p)" "[] \<notin> set (p_commands p)"
    by (auto simp: permissions_ok_def list_ok_def)
  have sql: "p_sql p = None \<or> p_sql p = Some SqlRead"
    by (cases "p_sql p") (auto intro: sql_access.exhaust)
  define p0 where "p0 = no_permissions\<lparr>p_sql := p_sql p, p_files := p_files p, p_ai := p_ai p,
      p_process := p_process p, p_agent := p_agent p\<rparr>"
  have "add_permissions no_permissions
      ((if p_sql p \<noteq> None then [''sql.read''] else [])
       @ (case p_files p of Some FilesWrite \<Rightarrow> [''files.write''] | Some FilesRead \<Rightarrow> [''files.read'']
          | None \<Rightarrow> [])
       @ (if p_ai p then [''ai.compute''] else [])
       @ (if p_process p then [''process.run''] else [])
       @ (if p_agent p then [''agent.write''] else [])) = Inr p0"
    using sql
    by (cases "p_files p"; cases "the (p_files p)")
      (auto simp: p0_def no_permissions_def add_permission_def files_max_def)
  then have "permissions_try_from (permissions_into p) =
      Inr (p0\<lparr>p_network := p_network p, p_secrets := p_secrets p, p_commands := p_commands p\<rparr>)"
    unfolding permissions_try_from_def permissions_into_def
    by (simp only: append_assoc [symmetric] add_permissions_append bind_res_simps add_network
        add_secrets add_commands ok not_False_eq_True)
      (simp add: p0_def no_permissions_def foldl_push_distinct ok)
  then show ?thesis by (simp add: p0_def no_permissions_def)
qed

lemma list_ok_push: "list_ok xs \<Longrightarrow> x \<noteq> [] \<Longrightarrow> list_ok (push_new xs x)"
  by (auto simp: list_ok_def push_new_def)

lemma add_permission_ok: "add_permission out i = Inr p \<Longrightarrow> permissions_ok out \<Longrightarrow> permissions_ok p"
  by (auto simp: add_permission_def permissions_ok_def list_ok_push split: option.splits if_splits)

lemma try_from_ok: "permissions_try_from ids = Inr p \<Longrightarrow> permissions_ok p"
proof -
  have "add_permissions out ids = Inr p \<Longrightarrow> permissions_ok out \<Longrightarrow> permissions_ok p" for out
  proof (induction ids arbitrary: out)
    case (Cons i ids)
    then show ?case by (auto simp: bind_res_Inr dest: add_permission_ok)
  qed simp
  moreover have "permissions_ok no_permissions"
    by (simp add: permissions_ok_def list_ok_def no_permissions_def)
  ultimately show "permissions_try_from ids = Inr p \<Longrightarrow> permissions_ok p"
    by (simp add: permissions_try_from_def)
qed

interpretation permission_list: canonical_roundtrip permissions_into permissions_try_from permissions_ok
  by unfold_locales (rule try_from_into, assumption, rule try_from_ok)

section \<open>Decisions\<close>

lemma decide_iff: "(\<exists>why. decide nd d g e = Denied why) \<longleftrightarrow> \<not> (within d nd \<and> permits_ok g nd)"
  by (auto simp: decide_def permits_def split: option.splits)

lemma permits_mono:
  assumes cov: "covers p q"
    and "\<And>cmd c. nd = NeedCommand cmd \<Longrightarrow> c \<in> set (p_commands q) \<Longrightarrow> pattern_covers c cmd \<Longrightarrow> no_rest c"
    and ok: "permits_ok \<lparr>g_namespace = ns, g_permissions = q\<rparr> nd"
  shows "permits_ok \<lparr>g_namespace = ns, g_permissions = p\<rparr> nd"
proof -
  have "files_rank (p_files q) \<le> files_rank (p_files p)" using cov by (simp add: covers_iff)
  then have files: "p_files q \<noteq> None \<Longrightarrow> p_files p \<noteq> None"
    by (cases "p_files q"; cases "the (p_files q)"; cases "p_files p") simp_all
  show ?thesis
  proof (cases nd)
    case (NeedHost h)
    with cov ok host.admits_mono show ?thesis by (auto simp: covers_iff host_allowed_def)
  next
    case (NeedCredential c)
    with cov ok name_set.admits_mono [of "p_secrets p" "p_secrets q" c] show ?thesis
      by (auto simp: covers_iff list_ex_iff)
  next
    case (NeedCommand c)
    with cov ok assms(2) pattern_admits_mono [of "p_commands p" "p_commands q" c] show ?thesis
      by (auto simp: covers_iff command_allowed_def)
  qed (use cov ok files in \<open>auto simp: covers_iff Let_def split: if_splits\<close>)
qed

lemma split_on_snoc: "split_on c (s @ [c]) = split_on c s @ [[]]"
  by (induction s) (auto split: list.splits simp: append_eq_Cons_conv)

lemma split_on_trim:
  "w \<in> set (split_on c s) \<Longrightarrow> w = [] \<or> w \<in> set (split_on c (trim_end c s))"
proof (induction s rule: rev_induct)
  case (snoc x s)
  then show ?case by (cases "x = c") (auto simp: trim_end_def split_on_snoc)
qed (simp add: trim_end_def)

lemma valid_path_parts: "valid_path path \<Longrightarrow> ''..'' \<notin> set (split_on CHR ''/'' path)"
  using split_on_trim [of "''..''" "CHR ''/''" path] by (auto simp: valid_path_def list_all_iff)

lemma decided_path:
  assumes "\<not> (\<exists>why. decide (NeedPath path) d g e = Denied why)"
  shows "p_files (g_permissions g) \<noteq> None \<and> \<not> prefix ''/'' path
    \<and> ''..'' \<notin> set (split_on CHR ''/'' path)
    \<and> (''tree.read'' \<in> set (gr_scopes d)
       \<or> (\<exists>p. ''tree.read:'' @ p \<in> set (gr_scopes d)
            \<and> (path = p \<or> (suffix ''/'' p \<and> prefix p path))))"
proof -
  have ok: "within d (NeedPath path)" "permits_ok g (NeedPath path)" using assms decide_iff by blast+
  then have v: "valid_path path"
    and sc: "''tree.read'' \<in> set (gr_scopes d) \<or> list_ex (path_in_scope path) (gr_scopes d)" by auto
  have "\<not> prefix ''/'' path" using v by (simp add: valid_path_def)
  moreover have "list_ex (path_in_scope path) (gr_scopes d) \<Longrightarrow>
      \<exists>p. ''tree.read:'' @ p \<in> set (gr_scopes d) \<and> (path = p \<or> (suffix ''/'' p \<and> prefix p path))"
    by (fastforce simp: list_ex_iff path_in_scope_def strip_prefix_Some split: option.splits)
  ultimately show ?thesis using sc ok(2) valid_path_parts [OF v] by auto
qed

section \<open>Properties\<close>

definition demo_permissions :: permissions where
  "demo_permissions =
     no_permissions\<lparr>p_files := Some FilesWrite, p_commands := [''oxplow.work_item.*''],
       p_network := [''*.example.com''], p_secrets := [''GH_TOKEN'']\<rparr>"

definition demo_smaller :: permissions where
  "demo_smaller =
     no_permissions\<lparr>p_files := Some FilesRead, p_commands := [''oxplow.work_item.add''],
       p_network := [''api.example.com'']\<rparr>"

lemma demo_covers: "covers demo_permissions demo_smaller"
  by (simp add: covers_iff demo_permissions_def demo_smaller_def no_permissions_def uncovered_def
      pattern_covers_def host_covers_def strip_prefix_def suffix_to_prefix)

text \<open>
  A permission list and the set it grants stand one for one: writing a set as the manifest
  does and reading it back gives the same set, and every list that reads is one of those up to
  order and repetition.
\<close>

theorem permission_lists_round_trip:
  assumes "permissions_try_from ids = Inr p"
  shows "permissions_ok p \<and> permissions_try_from (permissions_into p) = Inr p"
  using try_from_ok [OF assms] permission_list.normal_form [OF assms] by blast

lemma permission_lists_round_trip_witness:
  "permissions_ok (no_permissions\<lparr>p_network := [''a'']\<rparr>)
    \<and> permissions_try_from (permissions_into (no_permissions\<lparr>p_network := [''a'']\<rparr>)) =
        Inr (no_permissions\<lparr>p_network := [''a'']\<rparr>)"
  by (rule permission_lists_round_trip [of "[''network:a'', ''network:a'']"])
    (simp add: permissions_try_from_def add_permission_def push_new_def no_permissions_def)

text \<open>
  C26. A deploy asks a person exactly when the extension wants something the approved set does not
  cover: the lines shown for approval are empty just when the approved set covers the new one.
\<close>

theorem deploy_asks_iff_not_covered: "added_over p baseline = [] \<longleftrightarrow> covers baseline p"
  by (rule added_over_iff)

text \<open>
  The union of two permission sets covers each of them, and a set covers itself.
\<close>

theorem union_covers_both:
  "covers (permissions_union p q) p \<and> covers (permissions_union p q) q \<and> covers p p"
  using union_covers covers_refl by blast

text \<open>
  C33. A set that covers another permits every need the other does: every need that is not a command
  (hosts, secrets, programs, files, scopes), whatever command patterns the covered set holds, and
  every command, unless it is a pattern with the multi-segment star that admits it there.
\<close>

theorem covering_set_permits_more:
  assumes "covers p q"
    and "\<forall>cmd. nd = NeedCommand cmd \<longrightarrow> (\<forall>c \<in> set (p_commands q). pattern_covers c cmd \<longrightarrow> no_rest c)"
    and "permits \<lparr>g_namespace = ns, g_permissions = q\<rparr> nd = Inr ()"
  shows "permits \<lparr>g_namespace = ns, g_permissions = p\<rparr> nd = Inr ()"
proof -
  have "permits_ok \<lparr>g_namespace = ns, g_permissions = q\<rparr> nd"
    using assms(3) by (simp add: permits_def split: if_splits)
  then have "permits_ok \<lparr>g_namespace = ns, g_permissions = p\<rparr> nd"
    using permits_mono [OF assms(1)] assms(2) by blast
  then show ?thesis by (simp add: permits_def)
qed

definition demo_rest :: permissions where
  "demo_rest =
     no_permissions\<lparr>p_commands := [''oxplow.work_item.add'', ''acme.**''], p_network := [''api.example.com'']\<rparr>"

lemma covering_set_permits_more_witness:
  "permits \<lparr>g_namespace = ''a'', g_permissions = demo_permissions\<lparr>p_commands := [''oxplow.*.*'', ''acme.**'']\<rparr>\<rparr>
      (NeedHost ''api.example.com'') = Inr ()
    \<and> permits \<lparr>g_namespace = ''a'', g_permissions = demo_permissions\<lparr>p_commands := [''oxplow.*.*'', ''acme.**'']\<rparr>\<rparr>
      (NeedCommand ''oxplow.work_item.add'') = Inr ()"
proof -
  have "covers (demo_permissions\<lparr>p_commands := [''oxplow.*.*'', ''acme.**'']\<rparr>) demo_rest"
    by (simp add: covers_iff demo_permissions_def demo_rest_def no_permissions_def uncovered_def
      pattern_covers_def host_covers_def strip_prefix_def suffix_to_prefix)
  note more = covering_set_permits_more [OF this, of _ "''a''"]
  show ?thesis
    by (intro conjI more)
      (simp_all add: demo_rest_def no_permissions_def no_rest_def permits_def host_allowed_def
        command_allowed_def pattern_covers_def host_covers_def strip_prefix_def)
qed

text \<open>
  The restriction is needed: the star covers the text of the double star, so a deploy that widens
  a command pattern from one segment to every segment below it asks nothing.
\<close>

lemma widened_pattern_not_asked:
  "let approved = no_permissions\<lparr>p_commands := [''oxplow.work_item.*'']\<rparr>;
       wanted = no_permissions\<lparr>p_commands := [''oxplow.work_item.**'']\<rparr>
   in added_over wanted approved = []
      \<and> command_allowed wanted ''acme'' ''oxplow.work_item.a.b''
      \<and> \<not> command_allowed approved ''acme'' ''oxplow.work_item.a.b''"
  by (simp add: Let_def added_over_iff covers_iff no_permissions_def uncovered_def pattern_covers_def
      command_allowed_def strip_prefix_def)

text \<open>
  A run is refused a need exactly when the contribution did not declare it or its extension is
  not permitted it; no machine setting turns a refusal into an approval.
\<close>

theorem refused_iff_not_declared_or_not_permitted:
  "(\<exists>why. decide nd d g e = Denied why) \<longleftrightarrow> \<not> (within d nd \<and> permits g nd = Inr ())"
  using decide_iff [of nd d g e] by (simp add: permits_def)

text \<open>
  C39. A path a run is not refused is relative, never climbs out of the tree, and lies in a file or
  directory the contribution declared, in an extension allowed to read files.
\<close>

theorem allowed_paths_are_confined:
  assumes "\<not> (\<exists>why. decide (NeedPath path) d g e = Denied why)"
  shows "p_files (g_permissions g) \<noteq> None \<and> \<not> prefix ''/'' path
    \<and> ''..'' \<notin> set (split_on CHR ''/'' path)
    \<and> (''tree.read'' \<in> set (gr_scopes d)
       \<or> (\<exists>p. ''tree.read:'' @ p \<in> set (gr_scopes d)
            \<and> (path = p \<or> (suffix ''/'' p \<and> prefix p path))))"
  by (rule decided_path [OF assms])

definition demo_request :: grant_request where
  "demo_request =
     \<lparr>gr_scopes = [''tree.read:src/''], gr_program = None, gr_hosts = [], gr_credentials = [],
      gr_env = [], gr_commands = []\<rparr>"

definition demo_grant :: grant where
  "demo_grant = \<lparr>g_namespace = ''acme'', g_permissions = demo_permissions\<rparr>"

lemma allowed_paths_are_confined_witness:
  "p_files (g_permissions demo_grant) \<noteq> None \<and> \<not> prefix ''/'' ''src/a''
    \<and> ''..'' \<notin> set (split_on CHR ''/'' ''src/a'')
    \<and> (''tree.read'' \<in> set (gr_scopes demo_request)
       \<or> (\<exists>p. ''tree.read:'' @ p \<in> set (gr_scopes demo_request)
            \<and> (''src/a'' = p \<or> (suffix ''/'' p \<and> prefix p ''src/a''))))"
  by (rule allowed_paths_are_confined [where e = True])
    (simp add: decide_def permits_def demo_request_def demo_grant_def demo_permissions_def
      valid_path_def trim_end_def path_in_scope_def strip_prefix_def suffix_to_prefix gap_def)

text \<open>
  Every service a script may name is a scope of core's table that reads only, and one that
  spends a person's money is open only to runs that may call out.
\<close>

theorem services_read_and_spend_outside:
  assumes "service n = Some s"
  shows "\<exists>c. find_scope n = Some c \<and> (sc_spends c \<longrightarrow> sv_modes s = [External])
    \<and> reads_only (sc_access c)"
  by (rule service_is_scope [OF assms])

lemma services_read_and_spend_outside_witness:
  "\<exists>c. find_scope ''ai.compute'' = Some c \<and> reads_only (sc_access c)"
proof -
  have "service ''ai.compute'' =
      Some \<lparr>sv_scope = ''ai.compute'', sv_title = ''Ask a model'',
        sv_builtins = [''ai_classify'', ''ai_score'', ''ai_summarize'', ''ai_extract'', ''ai_complete''],
        sv_modes = [External]\<rparr>"
    by (simp add: service_def SERVICES_def need_scope_plain)
  from services_read_and_spend_outside [OF this] show ?thesis by blast
qed

end
