(* ===== verification/Tree_Diff.thy ===== *)
theory Tree_Diff
  imports Prelude
begin

text \<open>
  \<open>oxplow-domain/src/tree_diff.rs\<close>: the diff of two content trees, path to content id, shared by
  snapshot and commit diffs. The lemmas say exactly which changes it lists, in which order, and
  that the changes determine the paths of the one tree from the other.
\<close>

datatype change_status = Added | Modified | Deleted

record file_change =
  fc_path :: string
  fc_status :: change_status

type_synonym tree = "(string \<times> string) list"

definition after_change :: "tree \<Rightarrow> string \<times> string \<Rightarrow> file_change option" where
  "after_change before entry =
     (case map_of before (fst entry) of
        None \<Rightarrow> Some \<lparr>fc_path = fst entry, fc_status = Added\<rparr>
      | Some before_id \<Rightarrow>
          if before_id \<noteq> snd entry then Some \<lparr>fc_path = fst entry, fc_status = Modified\<rparr> else None)"

definition before_change :: "tree \<Rightarrow> string \<Rightarrow> file_change option" where
  "before_change after path =
     (if map_of after path = None then Some \<lparr>fc_path = path, fc_status = Deleted\<rparr> else None)"

definition diff_trees :: "tree \<Rightarrow> tree \<Rightarrow> file_change list" where
  "diff_trees before after =
     sort_key fc_path
       (List.map_filter (after_change before) after
        @ List.map_filter (before_change after) (map fst before))"

section \<open>What a diff lists\<close>

fun change_at :: "tree \<Rightarrow> tree \<Rightarrow> string \<Rightarrow> change_status option" where
  "change_at before after path =
     (case (map_of before path, map_of after path) of
        (None, None) \<Rightarrow> None
      | (None, Some _) \<Rightarrow> Some Added
      | (Some _, None) \<Rightarrow> Some Deleted
      | (Some b, Some a) \<Rightarrow> if a = b then None else Some Modified)"

lemma mem_map_filter: "y \<in> set (List.map_filter f xs) \<longleftrightarrow> (\<exists>x \<in> set xs. f x = Some y)"
  by (force simp: map_filter_def)

lemma after_change_path: "after_change before e = Some c \<Longrightarrow> fst e = fc_path c"
  by (auto simp: after_change_def split: option.splits if_splits)

lemma before_change_path: "before_change after path = Some c \<Longrightarrow> path = fc_path c"
  by (auto simp: before_change_def split: if_splits)

lemma before_change_absent: "before_change after path = Some c \<Longrightarrow> map_of after path = None"
  by (simp add: before_change_def split: if_splits)

lemma mem_after_changes:
  assumes "bt_inv after"
  shows "c \<in> set (List.map_filter (after_change before) after) \<longleftrightarrow>
    (\<exists>v. map_of after (fc_path c) = Some v \<and> after_change before (fc_path c, v) = Some c)"
    (is "?l = ?r")
proof
  assume ?l
  then obtain e where e: "e \<in> set after" "after_change before e = Some c"
    by (auto simp: mem_map_filter)
  obtain p v where pv: "e = (p, v)" by (cases e)
  with e(2) after_change_path have "p = fc_path c" by fastforce
  moreover have "map_of after p = Some v"
    using e(1) pv bt_inv_distinct [OF assms] by simp
  ultimately show ?r using e(2) pv by blast
next
  assume ?r
  then obtain v where "map_of after (fc_path c) = Some v" "after_change before (fc_path c, v) = Some c"
    by blast
  then show ?l using map_of_SomeD by (fastforce simp: mem_map_filter)
qed

lemma mem_before_changes:
  "c \<in> set (List.map_filter (before_change after) (map fst before)) \<longleftrightarrow>
     map_of before (fc_path c) \<noteq> None \<and> before_change after (fc_path c) = Some c"
  (is "?l = ?r")
proof
  assume ?l
  then obtain p where "p \<in> fst ` set before" "before_change after p = Some c"
    by (auto simp: mem_map_filter)
  then show ?r using before_change_path map_of_eq_None_iff by metis
next
  assume ?r
  then have "fc_path c \<in> fst ` set before" by (metis map_of_eq_None_iff)
  then have "fc_path c \<in> set (map fst before)" by simp
  with \<open>?r\<close> show ?l unfolding mem_map_filter by blast
qed

lemma mem_diff:
  assumes "bt_inv after"
  shows "c \<in> set (diff_trees before after) \<longleftrightarrow> change_at before after (fc_path c) = Some (fc_status c)"
  unfolding diff_trees_def set_sort set_append Un_iff mem_after_changes [OF assms] mem_before_changes
  by (cases c; cases "map_of before (fc_path c)"; cases "map_of after (fc_path c)")
    (auto simp: after_change_def before_change_def)

lemma distinct_map_filter:
  assumes "distinct (map key xs)" "\<And>x y. f x = Some y \<Longrightarrow> key' y = key x"
  shows "distinct (map key' (List.map_filter f xs))"
  using assms(1)
proof (induction xs)
  case (Cons x xs)
  show ?case
  proof (cases "f x")
    case (Some y)
    have "key x \<notin> key' ` set (List.map_filter f xs)"
      using Cons.prems assms(2) by (fastforce simp: mem_map_filter image_iff)
    with Cons Some assms(2) show ?thesis by (simp add: map_filter_simps)
  qed (use Cons in \<open>simp add: map_filter_simps\<close>)
qed (simp add: map_filter_simps)

lemma diff_distinct:
  assumes "bt_inv before" "bt_inv after"
  shows "distinct (map fc_path (diff_trees before after))"
proof -
  let ?A = "List.map_filter (after_change before) after"
  let ?B = "List.map_filter (before_change after) (map fst before)"
  have "distinct (map fc_path ?A)"
    using bt_inv_distinct [OF assms(2)]
    by (rule distinct_map_filter) (auto simp: after_change_def split: option.splits if_splits)
  moreover have "distinct (map fc_path ?B)"
    using bt_inv_distinct [OF assms(1)]
    by (intro distinct_map_filter [of id]) (auto simp: before_change_def split: if_splits)
  moreover have "map_of after (fc_path c) \<noteq> None" if "c \<in> set ?A" for c
    using that mem_after_changes [OF assms(2)] by blast
  moreover have "map_of after (fc_path c) = None" if "c \<in> set ?B" for c
  proof -
    have "before_change after (fc_path c) = Some c" 
      by (rule mem_before_changes [THEN iffD1, OF that, THEN conjunct2])
    then show ?thesis by (rule before_change_absent)
  qed
  moreover have "fc_path ` set ?A \<inter> fc_path ` set ?B = {}"
    using calculation(3,4) by fastforce
  ultimately have "distinct (map fc_path (?A @ ?B))" by simp
  then show ?thesis by (simp only: diff_trees_def distinct_map set_sort distinct_sort)
qed

lemma diff_sorted:
  assumes "bt_inv before" "bt_inv after"
  shows "sorted_wrt (\<lambda>a b. fc_path a < fc_path b) (diff_trees before after)"
proof -
  have "sorted (map fc_path (diff_trees before after))" by (simp add: diff_trees_def)
  with diff_distinct [OF assms] have "sorted_wrt (<) (map fc_path (diff_trees before after))"
    by (simp add: strict_sorted_iff)
  then show ?thesis by (simp add: sorted_wrt_map)
qed

lemma diff_empty_iff:
  assumes "bt_inv before" "bt_inv after"
  shows "diff_trees before after = [] \<longleftrightarrow> before = after"
proof
  assume e: "diff_trees before after = []"
  have "map_of before path = map_of after path" for path
  proof -
    have "change_at before after path \<noteq> Some st" for st
      using mem_diff [OF assms(2), of "\<lparr>fc_path = path, fc_status = st\<rparr>" before] e by simp
    then have "change_at before after path = None" by (metis option.exhaust)
    then show ?thesis by (auto split: option.splits if_splits)
  qed
  with assms show "before = after" by (intro bt_ext ext)
next
  assume "before = after"
  then have "c \<notin> set (diff_trees before after)" for c
    using mem_diff [OF assms(2), of c before] by (auto split: option.splits)
  then show "diff_trees before after = []" by (metis list.set_sel(1))
qed

section \<open>Properties\<close>

text \<open>
  A diff lists a path exactly when the two trees differ at it, with what happened to it, once,
  and the paths come in strictly increasing order.
\<close>

theorem diff_lists_exactly_the_changes:
  assumes "bt_inv before" and "bt_inv after"
  shows "(c \<in> set (diff_trees before after) \<longleftrightarrow> change_at before after (fc_path c) = Some (fc_status c))
    \<and> sorted_wrt (\<lambda>a b. fc_path a < fc_path b) (diff_trees before after)
    \<and> (diff_trees before after = [] \<longleftrightarrow> before = after)"
  using mem_diff [OF assms(2)] diff_sorted [OF assms] diff_empty_iff [OF assms] by blast

lemma diff_lists_exactly_the_changes_witness:
  "let before = [(''a'', ''1''), (''b'', ''1'')]; after = [(''b'', ''2''), (''c'', ''1'')];
       c = \<lparr>fc_path = ''a'', fc_status = Deleted\<rparr>
   in (c \<in> set (diff_trees before after) \<longleftrightarrow> change_at before after (fc_path c) = Some (fc_status c))
    \<and> sorted_wrt (\<lambda>a b. fc_path a < fc_path b) (diff_trees before after)
    \<and> (diff_trees before after = [] \<longleftrightarrow> before = after)"
  unfolding Let_def by (rule diff_lists_exactly_the_changes) (simp_all add: bt_inv_def)

end
