(* ===== verification/Smart_Merge.thy ===== *)
theory Smart_Merge
  imports Prelude "HOL-Library.Multiset"
begin

text \<open>
  \<open>oxplow-git/src/smart_merge.rs\<close>: the token-level three-way merge that clears conflicts git's
  line merge left. Text is a list of code points; the Unicode classes of \<open>char\<close> and the
  \<open>similar\<close> crate's diff are parameters, the latter with the law its documentation states
  (\<open>valid_diff\<close>: the operations walk both sides from start to end). An out-of-range slice is a
  panic, \<open>None\<close>. The lemmas: tokens lose nothing, a merge never panics, an edit of one side alone
  is taken whole, equal edits are taken once, edits in different places are both taken, and the
  sides are interchangeable.
\<close>

section \<open>Tokens\<close>

record unicode =
  u_alphanumeric :: "nat \<Rightarrow> bool"
  u_whitespace :: "nat \<Rightarrow> bool"

definition NEWLINE :: nat where "NEWLINE = 10"
definition UNDERSCORE :: nat where "UNDERSCORE = 95"

definition is_word :: "unicode \<Rightarrow> nat \<Rightarrow> bool" where
  "is_word u c \<longleftrightarrow> u_alphanumeric u c \<or> c = UNDERSCORE"

definition is_gap :: "unicode \<Rightarrow> nat \<Rightarrow> bool" where
  "is_gap u c \<longleftrightarrow> c \<noteq> NEWLINE \<and> u_whitespace u c"

function tokenize :: "unicode \<Rightarrow> nat list \<Rightarrow> nat list list" where
  "tokenize u [] = []"
| "tokenize u (c # s) =
     (if c = NEWLINE then [c] # tokenize u s
      else if is_word u c then
        (c # takeWhile (is_word u) s) # tokenize u (dropWhile (is_word u) s)
      else if u_whitespace u c then
        (c # takeWhile (is_gap u) s) # tokenize u (dropWhile (is_gap u) s)
      else [c] # tokenize u s)"
  by pat_completeness auto

termination
  by (relation "measure (\<lambda>(u, s). length s)") (auto simp: le_imp_less_Suc length_dropWhile_le)

section \<open>Changes\<close>

datatype diff_op =
  OpEqual (op_old: nat) (op_new: nat) nat
| OpDelete (op_old: nat) nat (op_new: nat)
| OpInsert (op_old: nat) (op_new: nat) nat
| OpReplace (op_old: nat) nat (op_new: nat) nat

record 'a change =
  ch_start :: nat
  ch_end :: nat
  ch_new :: "'a list"
  ch_theirs :: bool

datatype conflicted = Conflicted

text \<open>\<open>&xs[a..b]\<close>.\<close>

definition slice :: "'a list \<Rightarrow> nat \<Rightarrow> nat \<Rightarrow> 'a list option" where
  "slice xs a b = (if a \<le> b \<and> b \<le> length xs then Some (take (b - a) (drop a xs)) else None)"

fun changes_from_ops :: "diff_op list \<Rightarrow> 'a list \<Rightarrow> bool \<Rightarrow> 'a change list option" where
  "changes_from_ops [] side theirs = Some []"
| "changes_from_ops (OpEqual oi ni n # ops) side theirs = changes_from_ops ops side theirs"
| "changes_from_ops (OpDelete oi ol ni # ops) side theirs =
     map_option (\<lambda>cs. \<lparr>ch_start = oi, ch_end = oi + ol, ch_new = [], ch_theirs = theirs\<rparr> # cs)
       (changes_from_ops ops side theirs)"
| "changes_from_ops (OpInsert oi ni nl # ops) side theirs =
     Option.bind (slice side ni (ni + nl)) (\<lambda>new.
       map_option (\<lambda>cs. \<lparr>ch_start = oi, ch_end = oi, ch_new = new, ch_theirs = theirs\<rparr> # cs)
         (changes_from_ops ops side theirs))"
| "changes_from_ops (OpReplace oi ol ni nl # ops) side theirs =
     Option.bind (slice side ni (ni + nl)) (\<lambda>new.
       map_option (\<lambda>cs. \<lparr>ch_start = oi, ch_end = oi + ol, ch_new = new, ch_theirs = theirs\<rparr> # cs)
         (changes_from_ops ops side theirs))"

fun reconstruct_from :: "'a list \<Rightarrow> nat \<Rightarrow> nat \<Rightarrow> 'a change list \<Rightarrow> 'a list option" where
  "reconstruct_from base pos hi [] = slice base pos hi"
| "reconstruct_from base pos hi (c # cs) =
     Option.bind (slice base pos (ch_start c)) (\<lambda>pre.
       map_option (\<lambda>rest. pre @ ch_new c @ rest) (reconstruct_from base (ch_end c) hi cs))"

definition reconstruct ::
  "'a list \<Rightarrow> nat \<Rightarrow> nat \<Rightarrow> 'a change list \<Rightarrow> bool \<Rightarrow> 'a list option" where
  "reconstruct base lo hi cluster theirs =
     reconstruct_from base lo hi (filter (\<lambda>c. ch_theirs c = theirs) cluster)"

section \<open>The merge\<close>

text \<open>The inner loop: the cluster's end, what it takes, and what is left.\<close>

fun grow :: "bool \<Rightarrow> nat \<Rightarrow> 'a change list \<Rightarrow> nat \<times> 'a change list \<times> 'a change list" where
  "grow pure_insert hi [] = (hi, [], [])"
| "grow pure_insert hi (c # cs) =
     (if ch_start c < hi \<or> (pure_insert \<and> ch_start c = hi \<and> ch_start c = ch_end c)
      then (let (hi', taken, rest) = grow pure_insert (max hi (ch_end c)) cs in (hi', c # taken, rest))
      else (hi, [], c # cs))"

lemma grow_stop:
  "\<not> (ch_start c < hi \<or> (p \<and> ch_start c = hi \<and> ch_start c = ch_end c)) \<Longrightarrow>
     grow p hi (c # cs) = (hi, [], c # cs)"
  by (simp only: grow.simps if_False)

lemma grow_split: "grow p hi cs = (hi', taken, rest) \<Longrightarrow> cs = taken @ rest"
  by (induction p hi cs arbitrary: hi' taken rest rule: grow.induct)
    (auto split: if_splits prod.splits)

definition pick_side :: "'a list \<Rightarrow> 'a list \<Rightarrow> 'a list \<Rightarrow> conflicted + 'a list" where
  "pick_side base_slice ours_repl theirs_repl =
     (if ours_repl = theirs_repl then Inr ours_repl
      else if ours_repl = base_slice then Inr theirs_repl
      else if theirs_repl = base_slice then Inr ours_repl
      else Inl Conflicted)"

function merge_loop :: "'a list \<Rightarrow> nat \<Rightarrow> 'a change list \<Rightarrow> (conflicted + 'a list) option" where
  "merge_loop base base_pos [] = map_option Inr (slice base base_pos (length base))"
| "merge_loop base base_pos (c # cs) =
     (let lo = ch_start c;
          g = grow (ch_start c = ch_end c) (ch_end c) cs;
          hi = fst g;
          cluster = c # fst (snd g)
      in Option.bind (slice base base_pos lo) (\<lambda>pre.
         Option.bind (reconstruct base lo hi cluster False) (\<lambda>ours_repl.
         Option.bind (reconstruct base lo hi cluster True) (\<lambda>theirs_repl.
         Option.bind (slice base lo hi) (\<lambda>base_slice.
           case pick_side base_slice ours_repl theirs_repl of
             Inl e \<Rightarrow> Some (Inl e)
           | Inr resolved \<Rightarrow>
               map_option (\<lambda>m. bind_res m (\<lambda>rest. Inr (pre @ resolved @ rest)))
                 (merge_loop base hi (snd (snd g))))))))"
  by pat_completeness auto

termination
proof (relation "measure (\<lambda>(base, base_pos, cs). length cs)", goal_cases)
  case 1
  then show ?case by simp
next
  case (2 base base_pos c cs)
  obtain hi taken rest where g: "grow (ch_start c = ch_end c) (ch_end c) cs = (hi, taken, rest)"
    by (cases "grow (ch_start c = ch_end c) (ch_end c) cs") auto
  from grow_split [OF g] 2 g show ?case by simp
qed

definition change_key :: "'a change \<Rightarrow> nat \<times> nat" where
  "change_key c = (ch_start c, ch_end c)"

definition merge3 ::
  "('a list \<Rightarrow> 'a list \<Rightarrow> diff_op list) \<Rightarrow> 'a list \<Rightarrow> 'a list \<Rightarrow> 'a list
     \<Rightarrow> (conflicted + 'a list) option" where
  "merge3 diff base ours theirs =
     Option.bind (changes_from_ops (diff base ours) ours False) (\<lambda>os.
     Option.bind (changes_from_ops (diff base theirs) theirs True) (\<lambda>ts.
       merge_loop base 0 (sort_key change_key (os @ ts))))"

definition merge3_str ::
  "unicode \<Rightarrow> (nat list list \<Rightarrow> nat list list \<Rightarrow> diff_op list) \<Rightarrow> nat list \<Rightarrow> nat list \<Rightarrow> nat list
     \<Rightarrow> (conflicted + nat list) option" where
  "merge3_str u diff base ours theirs =
     map_option (\<lambda>m. bind_res m (\<lambda>toks. Inr (concat toks)))
       (merge3 diff (tokenize u base) (tokenize u ours) (tokenize u theirs))"

section \<open>Tokens lose nothing\<close>

lemma tokenize_concat: "concat (tokenize u s) = s"
  by (induction u s rule: tokenize.induct) (simp_all del: tokenize.simps(2) add: tokenize.simps)

lemma tokenize_no_empty: "[] \<notin> set (tokenize u s)"
  by (induction u s rule: tokenize.induct) (simp_all del: tokenize.simps(2) add: tokenize.simps)

text \<open>A splitter whose pieces join back to the text: equal pieces mean equal text.\<close>

locale lossless =
  fixes pieces :: "'a list \<Rightarrow> 'a list list"
  assumes join_pieces: "concat (pieces s) = s"
begin

lemma pieces_inj: "pieces s = pieces t \<Longrightarrow> s = t"
  using join_pieces by metis

lemma pieces_eq_iff: "pieces s = pieces t \<longleftrightarrow> s = t"
  using pieces_inj by blast

end

interpretation token: lossless "tokenize u"
  by unfold_locales (rule tokenize_concat)

section \<open>Valid diffs\<close>

text \<open>
  What \<open>capture_diff_slices(_, a, b)\<close> documents: its operations walk \<open>a\<close> and \<open>b\<close> from start
  to end without gaps, and an equal run is equal.
\<close>

fun walks :: "'a list \<Rightarrow> 'a list \<Rightarrow> nat \<Rightarrow> nat \<Rightarrow> diff_op list \<Rightarrow> bool" where
  "walks a b i j [] \<longleftrightarrow> i = length a \<and> j = length b"
| "walks a b i j (OpEqual oi ni n # ops) \<longleftrightarrow>
     oi = i \<and> ni = j \<and> i + n \<le> length a \<and> j + n \<le> length b
     \<and> take n (drop i a) = take n (drop j b) \<and> walks a b (i + n) (j + n) ops"
| "walks a b i j (OpDelete oi ol ni # ops) \<longleftrightarrow>
     oi = i \<and> ni = j \<and> i + ol \<le> length a \<and> walks a b (i + ol) j ops"
| "walks a b i j (OpInsert oi ni nl # ops) \<longleftrightarrow>
     oi = i \<and> ni = j \<and> j + nl \<le> length b \<and> walks a b i (j + nl) ops"
| "walks a b i j (OpReplace oi ol ni nl # ops) \<longleftrightarrow>
     oi = i \<and> ni = j \<and> i + ol \<le> length a \<and> j + nl \<le> length b \<and> walks a b (i + ol) (j + nl) ops"

definition valid_diff :: "('a list \<Rightarrow> 'a list \<Rightarrow> diff_op list) \<Rightarrow> bool" where
  "valid_diff diff \<longleftrightarrow> (\<forall>a b. walks a b 0 0 (diff a b))"

definition in_order :: "nat \<Rightarrow> nat \<Rightarrow> 'a change list \<Rightarrow> bool" where
  "in_order lo hi cs \<longleftrightarrow>
     lo \<le> hi \<and> (\<forall>c \<in> set cs. lo \<le> ch_start c \<and> ch_start c \<le> ch_end c \<and> ch_end c \<le> hi)
     \<and> sorted_wrt (\<lambda>x y. ch_end x \<le> ch_start y) cs"

lemma in_order_Nil [simp]: "in_order lo hi [] \<longleftrightarrow> lo \<le> hi"
  by (simp add: in_order_def)

lemma in_order_Cons:
  "in_order lo hi (c # cs) \<longleftrightarrow>
     lo \<le> ch_start c \<and> ch_start c \<le> ch_end c \<and> ch_end c \<le> hi \<and> in_order (ch_end c) hi cs"
  by (auto simp: in_order_def)

lemma in_order_weaken: "in_order lo hi cs \<Longrightarrow> lo' \<le> lo \<Longrightarrow> in_order lo' hi cs"
  by (auto simp: in_order_def)

lemma slice_Some: "slice xs a b = Some ys \<longleftrightarrow> a \<le> b \<and> b \<le> length xs \<and> ys = take (b - a) (drop a xs)"
  by (auto simp: slice_def)

lemma slice_join:
  assumes "a \<le> b" "b \<le> c" "c \<le> length xs"
  shows "take (c - a) (drop a xs) = take (b - a) (drop a xs) @ take (c - b) (drop b xs)"
proof -
  have "take (c - a) (drop a xs) = take ((b - a) + (c - b)) (drop a xs)" using assms by simp
  also have "\<dots> = take (b - a) (drop a xs) @ take (c - b) (drop (b - a) (drop a xs))"
    by (rule take_add)
  finally show ?thesis using assms by simp
qed

lemma reconstruct_skip:
  assumes "reconstruct_from base (pos + n) hi cs = Some r" "pos + n \<le> length base"
  shows "reconstruct_from base pos hi cs = Some (take n (drop pos base) @ r)"
proof (cases cs)
  case Nil
  with assms show ?thesis
    using slice_join [of pos "pos + n" hi base] by (auto simp: slice_Some)
next
  case (Cons c cs')
  with assms show ?thesis
    using slice_join [of pos "pos + n" "ch_start c" base]
    by (auto simp: slice_def bind_eq_Some_conv split: if_splits)
qed

lemma changes_of_valid:
  assumes "walks a b i j ops" "i \<le> length a"
  shows "\<exists>cs. changes_from_ops ops b theirs = Some cs
    \<and> reconstruct_from a i (length a) cs = Some (drop j b)
    \<and> in_order i (length a) cs \<and> (\<forall>c \<in> set cs. ch_theirs c = theirs)"
  using assms
proof (induction a b i j ops rule: walks.induct)
  case (1 a b i j)
  then show ?case by (simp add: slice_def)
next
  case (2 a b i j oi ni n ops)
  then obtain cs where cs: "changes_from_ops ops b theirs = Some cs"
    "reconstruct_from a (i + n) (length a) cs = Some (drop (j + n) b)"
    "in_order (i + n) (length a) cs" "\<forall>c \<in> set cs. ch_theirs c = theirs" by auto
  have "reconstruct_from a i (length a) cs = Some (take n (drop i a) @ drop (j + n) b)"
    by (rule reconstruct_skip [OF cs(2)]) (use 2 in simp)
  also have "take n (drop i a) @ drop (j + n) b = drop j b"
    using 2 append_take_drop_id [of n "drop j b"] by (simp add: add.commute)
  finally show ?case using cs in_order_weaken [OF cs(3), of i] by auto
next
  case (3 a b i j oi ol ni ops)
  then obtain cs where "changes_from_ops ops b theirs = Some cs"
    "reconstruct_from a (i + ol) (length a) cs = Some (drop j b)"
    "in_order (i + ol) (length a) cs" "\<forall>c \<in> set cs. ch_theirs c = theirs" by auto
  with 3 show ?case by (simp add: slice_def in_order_Cons)
next
  case (4 a b i j oi ni nl ops)
  then obtain cs where "changes_from_ops ops b theirs = Some cs"
    "reconstruct_from a i (length a) cs = Some (drop (j + nl) b)"
    "in_order i (length a) cs" "\<forall>c \<in> set cs. ch_theirs c = theirs" by auto
  with 4 show ?case
    using append_take_drop_id [of nl "drop j b"] by (simp add: slice_def in_order_Cons add.commute)
next
  case (5 a b i j oi ol ni nl ops)
  then obtain cs where "changes_from_ops ops b theirs = Some cs"
    "reconstruct_from a (i + ol) (length a) cs = Some (drop (j + nl) b)"
    "in_order (i + ol) (length a) cs" "\<forall>c \<in> set cs. ch_theirs c = theirs" by auto
  with 5 show ?case
    using append_take_drop_id [of nl "drop j b"] by (simp add: slice_def in_order_Cons add.commute)
qed

section \<open>Clusters\<close>

abbreviation side_of :: "bool \<Rightarrow> 'a change list \<Rightarrow> 'a change list" where
  "side_of s cs \<equiv> filter (\<lambda>c. ch_theirs c = s) cs"

definition key_order :: "'a change list \<Rightarrow> bool" where
  "key_order cs \<longleftrightarrow> sorted_wrt (\<lambda>x y. change_key x \<le> change_key y) cs"

definition mergeable :: "nat \<Rightarrow> nat \<Rightarrow> 'a change list \<Rightarrow> bool" where
  "mergeable pos n cs \<longleftrightarrow> key_order cs \<and> (\<forall>s. in_order pos n (side_of s cs))"

lemma key_le: "change_key x \<le> change_key y \<longleftrightarrow>
    ch_start x < ch_start y \<or> (ch_start x = ch_start y \<and> ch_end x \<le> ch_end y)"
  by (auto simp: change_key_def less_eq_prod_def)

lemma key_less: "change_key x < change_key y \<longleftrightarrow>
    ch_start x < ch_start y \<or> (ch_start x = ch_start y \<and> ch_end x < ch_end y)"
  by (simp add: change_key_def less_prod_def) auto

lemma mergeable_bounds:
  "mergeable pos n cs \<Longrightarrow> c \<in> set cs \<Longrightarrow> pos \<le> ch_start c \<and> ch_start c \<le> ch_end c \<and> ch_end c \<le> n"
  by (auto simp: mergeable_def in_order_def)

lemma grow_spec:
  assumes "grow p hi cs = (hi', taken, rest)" "key_order cs" "\<forall>c \<in> set cs. ch_start c \<le> ch_end c"
  shows "hi \<le> hi' \<and> (hi' = hi \<or> hi' \<in> ch_end ` set taken)
    \<and> (\<forall>t \<in> set taken. ch_end t \<le> hi'
         \<and> (ch_start t < hi' \<or> (p \<and> ch_start t = hi' \<and> ch_end t = hi')))
    \<and> (\<forall>r \<in> set rest. hi' \<le> ch_start r \<and> (p \<longrightarrow> ch_end r \<noteq> hi'))"
  using assms
proof (induction p hi cs arbitrary: hi' taken rest rule: grow.induct)
  case (1 p hi)
  then show ?case by simp
next
  case (2 p hi c cs)
  let ?pull = "ch_start c < hi \<or> (p \<and> ch_start c = hi \<and> ch_start c = ch_end c)"
  show ?case
  proof (cases ?pull)
    case True
    obtain taken' where g: "grow p (max hi (ch_end c)) cs = (hi', taken', rest)"
      and taken: "taken = c # taken'"
      using "2.prems"(1) True by (auto split: prod.splits)
    have ko: "key_order cs" "\<forall>c \<in> set cs. ch_start c \<le> ch_end c"
      using "2.prems" by (auto simp: key_order_def)
    note ih = "2.IH" [OF True g ko]
    have "ch_end c \<le> hi'" "hi \<le> hi'" using ih by auto
    moreover have "ch_start c < hi' \<or> (p \<and> ch_start c = hi' \<and> ch_end c = hi')"
      using True calculation by auto
    moreover have "hi' = hi \<or> hi' \<in> ch_end ` set taken"
      using ih by (auto simp: taken max_def split: if_splits)
    ultimately show ?thesis using ih by (auto simp: taken)
  next
    case False
    with "2.prems"(1) have g: "hi' = hi" "taken = []" "rest = c # cs"
      by (simp_all only: grow.simps if_False prod.inject)
    have le: "hi \<le> ch_start c" using False by simp
    have "hi \<le> ch_start r \<and> (p \<longrightarrow> ch_end r \<noteq> hi)" if r: "r \<in> set cs" for r
    proof -
      have k: "change_key c \<le> change_key r" using "2.prems"(2) r by (auto simp: key_order_def)
      have b: "ch_start c \<le> ch_end c" "ch_start r \<le> ch_end r" using "2.prems"(3) r by auto
      from k b le show ?thesis using False by (auto simp: key_le)
    qed
    moreover have "p \<longrightarrow> ch_end c \<noteq> hi" using False le "2.prems"(3) by auto
    ultimately show ?thesis using g le by auto
  qed
qed

lemma cluster_spec:
  assumes m: "mergeable pos n (c # cs)"
    and g: "grow (ch_start c = ch_end c) (ch_end c) cs = (hi, taken, rest)"
  shows "cs = taken @ rest" "pos \<le> ch_start c" "ch_start c \<le> hi" "hi \<le> n"
    "in_order (ch_start c) hi (side_of s (c # taken))" "in_order hi n (side_of s rest)"
    "mergeable hi n rest"
    "x \<in> set (c # taken) \<Longrightarrow> r \<in> set rest \<Longrightarrow> change_key x < change_key r"
proof -
  show cs: "cs = taken @ rest" by (rule grow_split [OF g])
  have b: "pos \<le> ch_start x \<and> ch_start x \<le> ch_end x \<and> ch_end x \<le> n" if "x \<in> set (c # cs)" for x
    by (rule mergeable_bounds [OF m that])
  have ko: "key_order (c # taken @ rest)" using m cs by (simp add: mergeable_def)
  have sp: "ch_end c \<le> hi \<and> (hi = ch_end c \<or> hi \<in> ch_end ` set taken)
    \<and> (\<forall>t \<in> set taken. ch_end t \<le> hi
         \<and> (ch_start t < hi \<or> (ch_start c = ch_end c \<and> ch_start t = hi \<and> ch_end t = hi)))
    \<and> (\<forall>r \<in> set rest. hi \<le> ch_start r \<and> (ch_start c = ch_end c \<longrightarrow> ch_end r \<noteq> hi))"
    by (rule grow_spec [OF g]) (use ko b cs in \<open>auto simp: key_order_def\<close>)
  show "pos \<le> ch_start c" using b by simp
  show ch: "ch_start c \<le> hi" using b [of c] sp by auto
  show hn: "hi \<le> n" using b sp cs by auto
  have lo: "ch_start c \<le> ch_start x" if "x \<in> set (c # taken)" for x
  proof -
    have "\<forall>y \<in> set (taken @ rest). change_key c \<le> change_key y"
      using ko unfolding key_order_def sorted_wrt.simps by blast
    then have "x = c \<or> change_key c \<le> change_key x" using that by auto
    then show ?thesis by (auto simp: key_le)
  qed
  have up: "ch_end x \<le> hi" if "x \<in> set (c # taken)" for x using that sp by auto
  have ord: "sorted_wrt (\<lambda>x y. ch_end x \<le> ch_start y) (side_of s (c # taken @ rest))" for s
    using m cs by (simp add: mergeable_def in_order_def)
  then have ord2: "sorted_wrt (\<lambda>x y. ch_end x \<le> ch_start y) (side_of s (c # taken))"
    "sorted_wrt (\<lambda>x y. ch_end x \<le> ch_start y) (side_of s rest)" for s
    using ord [of s] by (simp_all only: append_Cons [symmetric] filter_append sorted_wrt_append)
  show "in_order (ch_start c) hi (side_of s (c # taken))"
    unfolding in_order_def
  proof (intro conjI ballI)
    fix x assume "x \<in> set (side_of s (c # taken))"
    then have x: "x \<in> set (c # taken)" by (simp only: set_filter mem_Collect_eq)
    show "ch_start c \<le> ch_start x" by (rule lo [OF x])
    show "ch_end x \<le> hi" by (rule up [OF x])
    show "ch_start x \<le> ch_end x" using b [of x] x cs by auto
  qed (use ch ord2 in auto)
  have rest_order: "in_order hi n (side_of s rest)" for s
    unfolding in_order_def
  proof (intro conjI ballI)
    fix x assume "x \<in> set (side_of s rest)"
    then have x: "x \<in> set rest" by auto
    show "hi \<le> ch_start x" using sp x by blast
    show "ch_start x \<le> ch_end x" "ch_end x \<le> n" using b [of x] x cs by auto
  qed (use hn ord2 in auto)
  then show "in_order hi n (side_of s rest)" .
  show "mergeable hi n rest"
    using ko rest_order by (simp add: mergeable_def key_order_def sorted_wrt_append)
  show "change_key x < change_key r" if x: "x \<in> set (c # taken)" and r: "r \<in> set rest"
  proof -
    have hr: "hi \<le> ch_start r" "ch_start r \<le> ch_end r" "ch_start c = ch_end c \<longrightarrow> ch_end r \<noteq> hi"
      using sp r b [of r] cs by auto
    have "ch_start x < hi \<or> (ch_start c = ch_end c \<and> ch_start x = hi \<and> ch_end x = hi)"
      using x sp b [of c] by auto
    with hr show ?thesis by (auto simp: key_less)
  qed
qed

section \<open>Reconstruction in pieces\<close>

lemma reconstruct_total:
  "in_order lo hi cs \<Longrightarrow> hi \<le> length base \<Longrightarrow> \<exists>r. reconstruct_from base lo hi cs = Some r"
proof (induction cs arbitrary: lo)
  case Nil
  then show ?case by (simp add: slice_def)
next
  case (Cons c cs)
  then obtain r where "reconstruct_from base (ch_end c) hi cs = Some r"
    by (auto simp: in_order_Cons)
  with Cons.prems show ?case by (simp add: in_order_Cons slice_def)
qed

lemma reconstruct_append:
  assumes "in_order lo hi xs" "in_order hi n ys" "n \<le> length base"
    and "reconstruct_from base lo hi xs = Some r" "reconstruct_from base hi n ys = Some r'"
  shows "reconstruct_from base lo n (xs @ ys) = Some (r @ r')"
  using assms
proof (induction xs arbitrary: lo r)
  case Nil
  then have "lo + (hi - lo) = hi" "r = take (hi - lo) (drop lo base)" "hi \<le> length base"
    by (auto simp: slice_Some)
  with Nil reconstruct_skip [of base lo "hi - lo" n ys r'] show ?case by simp
next
  case (Cons c cs)
  then obtain pre q where q: "slice base lo (ch_start c) = Some pre"
    "reconstruct_from base (ch_end c) hi cs = Some q" "r = pre @ ch_new c @ q"
    by (auto simp: bind_eq_Some_conv)
  with Cons show ?case by (auto simp: in_order_Cons)
qed

lemma reconstruct_gap:
  assumes "pos \<le> lo" "in_order lo n cs" "n \<le> length base" "reconstruct_from base lo n cs = Some r"
  shows "reconstruct_from base pos n cs = Some (take (lo - pos) (drop pos base) @ r)"
proof -
  have "lo \<le> n" using assms(2) by (simp add: in_order_def)
  with assms reconstruct_skip [of base pos "lo - pos" n cs r] show ?thesis by simp
qed

lemma in_order_append: "in_order lo hi xs \<Longrightarrow> in_order hi n ys \<Longrightarrow> in_order lo n (xs @ ys)"
proof (induction xs arbitrary: lo)
  case (Cons x xs)
  moreover have "hi \<le> n" using Cons.prems by (simp add: in_order_def)
  ultimately show ?case by (auto simp: in_order_Cons)
qed (simp add: in_order_weaken)

text \<open>One round of the loop: the sides' readings of the cluster, and of all that is left.\<close>

lemma merge_round:
  assumes m: "mergeable pos (length base) (c # cs)"
    and g: "grow (ch_start c = ch_end c) (ch_end c) cs = (hi, taken, rest)"
  obtains x where
    "\<And>s. reconstruct_from base (ch_start c) hi (side_of s (c # taken)) = Some (x s)"
    "merge_loop base pos (c # cs) =
       (case pick_side (take (hi - ch_start c) (drop (ch_start c) base)) (x False) (x True) of
          Inl e \<Rightarrow> Some (Inl e)
        | Inr resolved \<Rightarrow>
            map_option (\<lambda>m. bind_res m (\<lambda>tail.
                Inr (take (ch_start c - pos) (drop pos base) @ resolved @ tail)))
              (merge_loop base hi rest))"
    "\<And>s r. reconstruct_from base hi (length base) (side_of s rest) = Some r \<Longrightarrow>
       reconstruct_from base pos (length base) (side_of s (c # cs)) =
         Some (take (ch_start c - pos) (drop pos base) @ x s @ r)"
proof -
  note cl = cluster_spec [OF m g]
  define x where "x s = the (reconstruct_from base (ch_start c) hi (side_of s (c # taken)))" for s
  have x: "reconstruct_from base (ch_start c) hi (side_of s (c # taken)) = Some (x s)" for s
    using reconstruct_total [OF cl(5) cl(4)] by (auto simp: x_def)
  have xs: "reconstruct base (ch_start c) hi (c # taken) s = Some (x s)" for s
    unfolding reconstruct_def by (rule x)
  have loop: "merge_loop base pos (c # cs) =
       (case pick_side (take (hi - ch_start c) (drop (ch_start c) base)) (x False) (x True) of
          Inl e \<Rightarrow> Some (Inl e)
        | Inr resolved \<Rightarrow>
            map_option (\<lambda>m. bind_res m (\<lambda>tail.
                Inr (take (ch_start c - pos) (drop pos base) @ resolved @ tail)))
              (merge_loop base hi rest))"
    using g cl(2-4) xs [of False] xs [of True]
    by (cases "pick_side (take (hi - ch_start c) (drop (ch_start c) base)) (x False) (x True)")
      (simp_all add: Let_def slice_def)
  have all: "reconstruct_from base pos (length base) (side_of s (c # cs)) =
      Some (take (ch_start c - pos) (drop pos base) @ x s @ r)"
    if r: "reconstruct_from base hi (length base) (side_of s rest) = Some r" for s r
  proof -
    have sp: "side_of s (c # cs) = side_of s (c # taken) @ side_of s rest" using cl(1) by simp
    have "reconstruct_from base (ch_start c) (length base) (side_of s (c # cs)) = Some (x s @ r)"
      unfolding sp by (rule reconstruct_append [OF cl(5,6) le_refl x r])
    moreover have "in_order (ch_start c) (length base) (side_of s (c # cs))"
      unfolding sp by (rule in_order_append [OF cl(5,6)])
    ultimately show ?thesis by (intro reconstruct_gap [OF cl(2)]) auto
  qed
  show ?thesis by (rule that [OF x loop all])
qed

lemma merge_total: "mergeable pos (length base) cs \<Longrightarrow> \<exists>r. merge_loop base pos cs = Some r"
proof (induction "length cs" arbitrary: pos cs rule: less_induct)
  case less
  show ?case
  proof (cases cs)
    case Nil
    with less.prems show ?thesis by (simp add: mergeable_def slice_def)
  next
    case (Cons c cs')
    obtain hi taken rest where g: "grow (ch_start c = ch_end c) (ch_end c) cs' = (hi, taken, rest)"
      by (cases "grow (ch_start c = ch_end c) (ch_end c) cs'") auto
    note cl = cluster_spec [OF less.prems [unfolded Cons] g]
    have "length rest < length cs" using cl(1) Cons by simp
    from less.hyps [OF this cl(7)] obtain r where "merge_loop base hi rest = Some r" by blast
    then show ?thesis
      unfolding Cons
      by (rule_tac merge_round [OF less.prems [unfolded Cons] g]) (auto split: sum.splits)
  qed
qed

section \<open>Edits in different places\<close>

lemma grow_in_order:
  "in_order hi n cs \<Longrightarrow> grow p hi cs = (hi', taken, rest) \<Longrightarrow>
     hi' = hi \<and> (\<forall>t \<in> set taken. p \<and> ch_start t = hi \<and> ch_end t = hi)"
proof (induction p hi cs arbitrary: hi' taken rest rule: grow.induct)
  case (1 p hi)
  then show ?case by simp
next
  case (2 p hi c cs)
  show ?case
  proof (cases "p \<and> ch_start c = hi \<and> ch_start c = ch_end c")
    case True
    then obtain taken' where g: "grow p (max hi (ch_end c)) cs = (hi', taken', rest)"
      and taken: "taken = c # taken'"
      using "2.prems"(2) by (auto split: prod.splits)
    have m: "max hi (ch_end c) = hi" using True by simp
    have "in_order (ch_end c) n cs" using "2.prems"(1) by (simp add: in_order_Cons)
    moreover have "ch_end c = hi" using True by simp
    ultimately have "in_order (max hi (ch_end c)) n cs" unfolding m by simp
    from "2.IH" [OF _ this g] True show ?thesis by (auto simp: taken)
  next
    case False
    moreover have "\<not> ch_start c < hi" using "2.prems"(1) by (simp add: in_order_Cons)
    ultimately have "grow p hi (c # cs) = (hi, [], c # cs)" by (intro grow_stop) blast
    then show ?thesis using "2.prems"(2) by simp
  qed
qed

definition sides_apart :: "'a change list \<Rightarrow> bool" where
  "sides_apart cs \<longleftrightarrow>
     (\<forall>x \<in> set cs. \<forall>y \<in> set cs. ch_theirs x \<noteq> ch_theirs y \<longrightarrow> change_key x \<noteq> change_key y)"

lemma pick_one_side:
  "pick_side b (if s then b else x) (if s then x else b) = Inr x"
  by (simp add: pick_side_def)

lemma separate_merge:
  assumes "mergeable pos (length base) cs" "in_order pos (length base) cs" "sides_apart cs"
  shows "merge_loop base pos cs = map_option Inr (reconstruct_from base pos (length base) cs)"
  using assms
proof (induction "length cs" arbitrary: pos cs rule: less_induct)
  case less
  show ?case
  proof (cases cs)
    case Nil
    then show ?thesis by simp
  next
    case (Cons c cs')
    obtain hi taken rest where g: "grow (ch_start c = ch_end c) (ch_end c) cs' = (hi, taken, rest)"
      by (cases "grow (ch_start c = ch_end c) (ch_end c) cs'") auto
    note cl = cluster_spec [OF less.prems(1) [unfolded Cons] g]
    have keys: "\<forall>t \<in> set taken. change_key t = change_key c" and hi: "hi = ch_end c"
      using grow_in_order [OF _ g, of "length base"] less.prems(2) Cons
      by (auto simp: in_order_Cons change_key_def)
    have one: "ch_theirs t = ch_theirs c" if "t \<in> set (c # taken)" for t
      using that keys less.prems(3) Cons cl(1) by (auto simp: sides_apart_def)
    then have mine: "side_of (ch_theirs c) (c # taken) = c # taken"
      by (simp only: filter_id_conv) blast
    have other: "side_of (\<not> ch_theirs c) (c # taken) = []"
      using one by (simp only: filter_empty_conv) blast
    obtain x where x: "\<And>s. reconstruct_from base (ch_start c) hi (side_of s (c # taken)) = Some (x s)"
      and loop: "merge_loop base pos (c # cs') =
       (case pick_side (take (hi - ch_start c) (drop (ch_start c) base)) (x False) (x True) of
          Inl e \<Rightarrow> Some (Inl e)
        | Inr resolved \<Rightarrow>
            map_option (\<lambda>m. bind_res m (\<lambda>tail.
                Inr (take (ch_start c - pos) (drop pos base) @ resolved @ tail)))
              (merge_loop base hi rest))"
      and all: "\<And>s r. reconstruct_from base hi (length base) (side_of s rest) = Some r \<Longrightarrow>
       reconstruct_from base pos (length base) (side_of s (c # cs')) =
         Some (take (ch_start c - pos) (drop pos base) @ x s @ r)"
      by (rule merge_round [OF less.prems(1) [unfolded Cons] g]) blast
    let ?b = "take (hi - ch_start c) (drop (ch_start c) base)"
    have "x (\<not> ch_theirs c) = ?b"
      using x [of "\<not> ch_theirs c"] unfolding other by (simp add: slice_Some)
    then have "pick_side ?b (x False) (x True) = Inr (x (ch_theirs c))"
      using pick_one_side [of ?b "ch_theirs c" "x (ch_theirs c)"] by (cases "ch_theirs c") simp_all
    moreover have ord: "in_order (ch_start c) hi (c # taken)" using cl(5) [of "ch_theirs c"] mine by simp
    moreover have rest: "in_order hi (length base) rest"
      using less.prems(2) cl(1,3,4,7) Cons
      by (auto simp: in_order_def sorted_wrt_append mergeable_bounds hi)
    moreover have "merge_loop base hi rest = map_option Inr (reconstruct_from base hi (length base) rest)"
      using less.prems(3) cl(1) Cons
      by (intro less.hyps cl(7) rest) (auto simp: sides_apart_def)
    moreover obtain r where r: "reconstruct_from base hi (length base) rest = Some r"
      using reconstruct_total [OF rest] by auto
    moreover have "reconstruct_from base pos (length base) cs =
        Some (take (ch_start c - pos) (drop pos base) @ x (ch_theirs c) @ r)"
    proof -
      have "reconstruct_from base (ch_start c) (length base) ((c # taken) @ rest) =
          Some (x (ch_theirs c) @ r)"
        using x [of "ch_theirs c"] unfolding mine
        by (rule reconstruct_append [OF ord rest le_refl _ r])
      from reconstruct_gap [OF cl(2) in_order_append [OF ord rest] le_refl this]
      show ?thesis by (simp add: Cons cl(1))
    qed
    ultimately show ?thesis using loop by (simp add: Cons)
  qed
qed

section \<open>Equal edits, and swapped sides\<close>

definition core :: "'a change \<Rightarrow> nat \<times> nat \<times> 'a list" where
  "core c = (ch_start c, ch_end c, ch_new c)"

lemma reconstruct_core:
  "map core xs = map core ys \<Longrightarrow> reconstruct_from base lo hi xs = reconstruct_from base lo hi ys"
proof (induction xs arbitrary: ys lo)
  case (Cons x xs)
  then obtain y ys' where "ys = y # ys'" by (cases ys) auto
  with Cons show ?case by (auto simp: core_def)
qed simp

lemma core_cut:
  assumes eq: "map core (a @ a') = map core (b @ b')"
    and lt: "\<forall>x \<in> set a \<union> set b. change_key x < k" and ge: "\<forall>x \<in> set a' \<union> set b'. k \<le> change_key x"
  shows "map core a = map core b \<and> map core a' = map core b'"
proof -
  let ?P = "\<lambda>(s, e, n). (s, e) < k"
  have cut: "filter ?P (map core (u @ v)) = map core u" "filter (\<lambda>c. \<not> ?P c) (map core (u @ v)) = map core v"
    if "\<forall>x \<in> set u. change_key x < k" "\<forall>x \<in> set v. k \<le> change_key x" for u v :: "'a change list"
  proof -
    have "filter ?P (map core u) = map core u" "filter ?P (map core v) = []"
      "filter (\<lambda>c. \<not> ?P c) (map core u) = []" "filter (\<lambda>c. \<not> ?P c) (map core v) = map core v"
      using that by (auto simp: filter_id_conv filter_empty_conv core_def change_key_def not_less)
    then show "filter ?P (map core (u @ v)) = map core u"
      "filter (\<lambda>c. \<not> ?P c) (map core (u @ v)) = map core v" by simp_all
  qed
  have a: "filter ?P (map core (a @ a')) = map core a"
    "filter (\<lambda>c. \<not> ?P c) (map core (a @ a')) = map core a'"
    using lt ge by (intro cut; blast)+
  have b: "filter ?P (map core (b @ b')) = map core b"
    "filter (\<lambda>c. \<not> ?P c) (map core (b @ b')) = map core b'"
    using lt ge by (intro cut; blast)+
  show ?thesis
    by (intro conjI trans [OF a(1) [symmetric, unfolded eq] b(1)] trans [OF a(2) [symmetric, unfolded eq] b(2)])
qed

lemma grow_keys:
  "map change_key cs = map change_key ds \<Longrightarrow> grow p hi cs = (h1, t1, r1) \<Longrightarrow>
     grow p hi ds = (h2, t2, r2) \<Longrightarrow>
     h1 = h2 \<and> map change_key t1 = map change_key t2 \<and> map change_key r1 = map change_key r2"
proof (induction p hi cs arbitrary: ds h1 t1 r1 h2 t2 r2 rule: grow.induct)
  case (1 p hi)
  then show ?case by simp
next
  case (2 p hi c cs)
  obtain d ds' where ds: "ds = d # ds'" using "2.prems"(1) by (cases ds) auto
  with "2.prems"(1) have k: "change_key c = change_key d" and eq: "map change_key cs = map change_key ds'"
    by simp_all
  from k have cd: "ch_start c = ch_start d" "ch_end c = ch_end d" by (simp_all add: change_key_def)
  show ?case
  proof (cases "ch_start c < hi \<or> (p \<and> ch_start c = hi \<and> ch_start c = ch_end c)")
    case True
    obtain t1' where 1: "grow p (max hi (ch_end c)) cs = (h1, t1', r1)" "t1 = c # t1'"
      using "2.prems"(2) True by (auto split: prod.splits)
    obtain t2' where 2: "grow p (max hi (ch_end c)) ds' = (h2, t2', r2)" "t2 = d # t2'"
      using "2.prems"(3) True unfolding ds by (auto simp: cd split: prod.splits)
    from "2.IH" [OF True eq 1(1) 2(1)] show ?thesis
      using 1(2) 2(2) cd by (simp add: change_key_def)
  next
    case False
    with "2.prems" ds cd show ?thesis by (simp only: grow.simps if_False prod.inject) auto
  qed
qed

lemma pick_side_comm: "pick_side b x y = pick_side b y x"
  by (auto simp: pick_side_def)

text \<open>Two lists of changes that differ in which side is which merge alike.\<close>

lemma merge_swapped:
  assumes "mergeable pos (length base) cs" "mergeable pos (length base) ds"
    and "map change_key cs = map change_key ds"
    and "\<And>s. map core (side_of s cs) = map core (side_of (\<not> s) ds)"
  shows "merge_loop base pos cs = merge_loop base pos ds"
  using assms
proof (induction "length cs" arbitrary: pos cs ds rule: less_induct)
  case less
  show ?case
  proof (cases cs)
    case Nil
    with less.prems(3) show ?thesis by simp
  next
    case (Cons c cs')
    with less.prems(3) obtain d ds' where ds: "ds = d # ds'" by (cases ds) auto
    have cd: "ch_start c = ch_start d" "ch_end c = ch_end d"
      and keys: "map change_key cs' = map change_key ds'"
      using less.prems(3) Cons ds by (auto simp: change_key_def)
    obtain hi taken rest where g: "grow (ch_start c = ch_end c) (ch_end c) cs' = (hi, taken, rest)"
      by (cases "grow (ch_start c = ch_end c) (ch_end c) cs'") auto
    obtain hi' taken' rest' where "grow (ch_start d = ch_end d) (ch_end d) ds' = (hi', taken', rest')"
      by (cases "grow (ch_start d = ch_end d) (ch_end d) ds'") auto
    with grow_keys [OF keys g] have g': "grow (ch_start d = ch_end d) (ch_end d) ds' = (hi, taken', rest')"
      and tk: "map change_key taken = map change_key taken'"
      and rk: "map change_key rest = map change_key rest'"
      by (auto simp: cd)
    note cl = cluster_spec [OF less.prems(1) [unfolded Cons] g]
    note dl = cluster_spec [OF less.prems(2) [unfolded ds] g']
    have split_c: "side_of s cs = side_of s (c # taken) @ side_of s rest" for s
      using Cons cl(1) by simp
    have split_d: "side_of s ds = side_of s (d # taken') @ side_of s rest'" for s
      using ds dl(1) by simp
    have cut: "map core (side_of s (c # taken)) = map core (side_of (\<not> s) (d # taken'))
        \<and> map core (side_of s rest) = map core (side_of (\<not> s) rest')" for s
    proof (cases rest)
      case Nil
      then have "rest' = []" using rk by simp
      with Nil less.prems(4) [of s] Cons ds cl(1) dl(1) show ?thesis by simp
    next
      case (Cons r rs)
      then obtain r' rs' where r': "rest' = r' # rs'" "change_key r = change_key r'"
        using rk by (cases rest') auto
      have le: "change_key r \<le> change_key y" if "y \<in> set rest \<union> set rest'" for y
        using that cl(7) dl(7) Cons r' by (auto simp: mergeable_def key_order_def)
      have "map core (side_of s (c # taken) @ side_of s rest) =
          map core (side_of (\<not> s) (d # taken') @ side_of (\<not> s) rest')"
        using less.prems(4) [of s] unfolding split_c split_d .
      then show ?thesis
      proof (rule core_cut [where k = "change_key r"])
        show "\<forall>x \<in> set (side_of s (c # taken)) \<union> set (side_of (\<not> s) (d # taken')). change_key x < change_key r"
        proof
          fix x assume "x \<in> set (side_of s (c # taken)) \<union> set (side_of (\<not> s) (d # taken'))"
          then have "x \<in> set (c # taken) \<or> x \<in> set (d # taken')"
            by (simp only: Un_iff set_filter mem_Collect_eq) blast
          then show "change_key x < change_key r"
            using cl(8) [of x r] dl(8) [of x r'] Cons r' by auto
        qed
        show "\<forall>x \<in> set (side_of s rest) \<union> set (side_of (\<not> s) rest'). change_key r \<le> change_key x"
          using le by auto
      qed
    qed
    obtain x where x: "\<And>s. reconstruct_from base (ch_start c) hi (side_of s (c # taken)) = Some (x s)"
      and xl: "merge_loop base pos (c # cs') =
       (case pick_side (take (hi - ch_start c) (drop (ch_start c) base)) (x False) (x True) of
          Inl e \<Rightarrow> Some (Inl e)
        | Inr resolved \<Rightarrow>
            map_option (\<lambda>m. bind_res m (\<lambda>tail.
                Inr (take (ch_start c - pos) (drop pos base) @ resolved @ tail)))
              (merge_loop base hi rest))"
      and all: "\<And>s r. reconstruct_from base hi (length base) (side_of s rest) = Some r \<Longrightarrow>
       reconstruct_from base pos (length base) (side_of s (c # cs')) =
         Some (take (ch_start c - pos) (drop pos base) @ x s @ r)"
      by (rule merge_round [OF less.prems(1) [unfolded Cons] g]) blast
    obtain y where y: "\<And>s. reconstruct_from base (ch_start d) hi (side_of s (d # taken')) = Some (y s)"
      and yl: "merge_loop base pos (d # ds') =
       (case pick_side (take (hi - ch_start d) (drop (ch_start d) base)) (y False) (y True) of
          Inl e \<Rightarrow> Some (Inl e)
        | Inr resolved \<Rightarrow>
            map_option (\<lambda>m. bind_res m (\<lambda>tail.
                Inr (take (ch_start d - pos) (drop pos base) @ resolved @ tail)))
              (merge_loop base hi rest'))"
      and "\<And>s r. reconstruct_from base hi (length base) (side_of s rest') = Some r \<Longrightarrow>
       reconstruct_from base pos (length base) (side_of s (d # ds')) =
         Some (take (ch_start d - pos) (drop pos base) @ y s @ r)"
      by (rule merge_round [OF less.prems(2) [unfolded ds] g']) blast
    have xy: "x s = y (\<not> s)" for s
      using x [of s] y [of "\<not> s"] reconstruct_core [OF conjunct1 [OF cut [of s]], of base "ch_start c" hi]
      by (simp add: cd)
    have "length rest < length cs" using cl(1) Cons by simp
    then have tail: "merge_loop base hi rest = merge_loop base hi rest'"
      using less.hyps [OF _ cl(7) dl(7) rk] cut by blast
    have picks: "x False = y True" "x True = y False" using xy by simp_all
    show ?thesis
      unfolding Cons ds xl yl cd tail picks
      by (subst pick_side_comm) (rule refl)
  qed
qed

text \<open>When both sides make the same changes, the merge is what either makes of the base.\<close>

lemma merge_agreed:
  assumes "mergeable pos (length base) cs" "map core (side_of False cs) = map core (side_of True cs)"
  shows "merge_loop base pos cs =
    map_option Inr (reconstruct_from base pos (length base) (side_of False cs))"
  using assms
proof (induction "length cs" arbitrary: pos cs rule: less_induct)
  case less
  show ?case
  proof (cases cs)
    case Nil
    then show ?thesis by simp
  next
    case (Cons c cs')
    obtain hi taken rest where g: "grow (ch_start c = ch_end c) (ch_end c) cs' = (hi, taken, rest)"
      by (cases "grow (ch_start c = ch_end c) (ch_end c) cs'") auto
    note cl = cluster_spec [OF less.prems(1) [unfolded Cons] g]
    have split_c: "side_of s cs = side_of s (c # taken) @ side_of s rest" for s
      using Cons cl(1) by simp
    have cut: "map core (side_of False (c # taken)) = map core (side_of True (c # taken))
        \<and> map core (side_of False rest) = map core (side_of True rest)"
    proof (cases rest)
      case Nil
      with less.prems(2) Cons cl(1) show ?thesis by simp
    next
      case (Cons r rs)
      have "map core (side_of False (c # taken) @ side_of False rest) =
          map core (side_of True (c # taken) @ side_of True rest)"
        using less.prems(2) unfolding split_c .
      then show ?thesis
      proof (rule core_cut [where k = "change_key r"])
        show "\<forall>x \<in> set (side_of False (c # taken)) \<union> set (side_of True (c # taken)). change_key x < change_key r"
        proof
          fix x assume "x \<in> set (side_of False (c # taken)) \<union> set (side_of True (c # taken))"
          then have "x \<in> set (c # taken)" by (simp only: Un_iff set_filter mem_Collect_eq) blast
          then show "change_key x < change_key r" using cl(8) [of x r] Cons by simp
        qed
        show "\<forall>x \<in> set (side_of False rest) \<union> set (side_of True rest). change_key r \<le> change_key x"
          using cl(7) Cons by (auto simp: mergeable_def key_order_def)
      qed
    qed
    obtain x where x: "\<And>s. reconstruct_from base (ch_start c) hi (side_of s (c # taken)) = Some (x s)"
      and loop: "merge_loop base pos (c # cs') =
       (case pick_side (take (hi - ch_start c) (drop (ch_start c) base)) (x False) (x True) of
          Inl e \<Rightarrow> Some (Inl e)
        | Inr resolved \<Rightarrow>
            map_option (\<lambda>m. bind_res m (\<lambda>tail.
                Inr (take (ch_start c - pos) (drop pos base) @ resolved @ tail)))
              (merge_loop base hi rest))"
      and all: "\<And>s r. reconstruct_from base hi (length base) (side_of s rest) = Some r \<Longrightarrow>
       reconstruct_from base pos (length base) (side_of s (c # cs')) =
         Some (take (ch_start c - pos) (drop pos base) @ x s @ r)"
      by (rule merge_round [OF less.prems(1) [unfolded Cons] g]) blast
    have same: "x False = x True"
      using x [of False] x [of True]
        reconstruct_core [OF conjunct1 [OF cut], of base "ch_start c" hi] by simp
    obtain r where r: "reconstruct_from base hi (length base) (side_of False rest) = Some r"
      using reconstruct_total [OF cl(6)] by blast
    have "length rest < length cs" using cl(1) Cons by simp
    from less.hyps [OF this cl(7) conjunct2 [OF cut]] r
    have "merge_loop base hi rest = Some (Inr r)" by simp
    then show ?thesis
      unfolding Cons loop all [OF r] by (simp add: pick_side_def same)
  qed
qed

section \<open>The merge of two diffs\<close>

lemma sorted_wrt_sides:
  assumes "sorted_wrt Q cs" "\<And>s. sorted_wrt R (side_of s cs)"
    and "\<And>x y. x \<in> set cs \<Longrightarrow> y \<in> set cs \<Longrightarrow> ch_theirs x \<noteq> ch_theirs y \<Longrightarrow> Q x y \<Longrightarrow> R x y"
  shows "sorted_wrt R cs"
  using assms
proof (induction cs)
  case (Cons c cs)
  have "R c y" if y: "y \<in> set cs" for y
  proof (cases "ch_theirs y = ch_theirs c")
    case True
    with Cons.prems(2) [of "ch_theirs c"] y show ?thesis by simp
  next
    case False
    with Cons.prems(1,3) y show ?thesis by auto
  qed
  moreover have "sorted_wrt R (side_of s cs)" for s
    using Cons.prems(2) [of s] by (cases "ch_theirs c = s") simp_all
  ultimately show ?case using Cons by simp
qed simp

lemma in_order_sorted: "in_order lo hi cs \<Longrightarrow> sorted (map change_key cs)"
proof (induction cs arbitrary: lo)
  case (Cons c cs)
  have "change_key c \<le> change_key y" if "y \<in> set cs" for y
  proof -
    have "ch_end c \<le> ch_start y" "ch_start y \<le> ch_end y" "ch_start c \<le> ch_end c"
      using that Cons.prems by (simp_all add: in_order_def)
    then show ?thesis by (auto simp: key_le)
  qed
  with Cons show ?case by (auto simp: in_order_Cons)
qed simp

lemma diff_changes:
  assumes "valid_diff diff"
  obtains cs where "changes_from_ops (diff base side) side theirs = Some cs"
    "reconstruct_from base 0 (length base) cs = Some side" "in_order 0 (length base) cs"
    "\<forall>c \<in> set cs. ch_theirs c = theirs"
  using changes_of_valid [of base side 0 0 "diff base side" theirs] assms
  by (auto simp: valid_diff_def)

text \<open>The sorted changes of two sides: each side's own, in its own order.\<close>

lemma sorted_sides:
  assumes "in_order 0 n os" "in_order 0 n ts" "\<forall>c \<in> set os. \<not> ch_theirs c" "\<forall>c \<in> set ts. ch_theirs c"
  defines "cs \<equiv> sort_key change_key (os @ ts)"
  shows "side_of False cs = os" "side_of True cs = ts" "mergeable 0 n cs"
proof -
  have "filter (\<lambda>c. \<not> ch_theirs c) os = os" "filter (\<lambda>c. \<not> ch_theirs c) ts = []"
    "filter ch_theirs os = []" "filter ch_theirs ts = ts"
    using assms(3,4) by (auto simp: filter_id_conv filter_empty_conv)
  then show sides: "side_of False cs = os" "side_of True cs = ts"
    using in_order_sorted [OF assms(1)] in_order_sorted [OF assms(2)]
    by (simp_all add: cs_def filter_sort sort_key_id_if_sorted)
  have "sorted (map change_key cs)" by (simp add: cs_def)
  then have "key_order cs" by (simp add: key_order_def sorted_map)
  moreover have "in_order 0 n (side_of s cs)" for s
    using sides assms(1,2) by (cases s) simp_all
  ultimately show "mergeable 0 n cs" by (simp add: mergeable_def)
qed

lemma merge3_total:
  assumes "valid_diff diff"
  shows "\<exists>r. merge3 diff base ours theirs = Some r"
proof -
  obtain os where o: "changes_from_ops (diff base ours) ours False = Some os"
    "in_order 0 (length base) os" "\<forall>c \<in> set os. ch_theirs c = False"
    by (rule diff_changes [OF assms])
  obtain ts where t: "changes_from_ops (diff base theirs) theirs True = Some ts"
    "in_order 0 (length base) ts" "\<forall>c \<in> set ts. ch_theirs c = True"
    by (rule diff_changes [OF assms])
  show ?thesis
    using o t merge_total [OF sorted_sides(3) [OF o(2) t(2)]] by (simp add: merge3_def)
qed

lemma merge3_agreed:
  assumes "valid_diff diff"
  shows "merge3 diff base side side = Some (Inr side)"
proof -
  obtain os where o: "changes_from_ops (diff base side) side False = Some os"
    "reconstruct_from base 0 (length base) os = Some side"
    "in_order 0 (length base) os" "\<forall>c \<in> set os. ch_theirs c = False"
    by (rule diff_changes [OF assms])
  define ts where "ts = map (\<lambda>c. c\<lparr>ch_theirs := True\<rparr>) os"
  have flip: "changes_from_ops ops sd True =
      map_option (map (\<lambda>c. c\<lparr>ch_theirs := True\<rparr>)) (changes_from_ops ops sd False)" for ops and sd :: "'a list"
    by (induction ops sd False rule: changes_from_ops.induct)
      (auto simp: option.map_comp comp_def split: option.splits Option.bind_splits)
  have t: "changes_from_ops (diff base side) side True = Some ts" using flip o(1) by (simp add: ts_def)
  have "in_order 0 (length base) ts" "\<forall>c \<in> set ts. ch_theirs c = True"
    using o(3) by (auto simp: ts_def in_order_def sorted_wrt_map)
  note s = sorted_sides [OF o(3) this(1)]
  have "map core os = map core ts" by (simp add: ts_def core_def)
  with o(4) \<open>\<forall>c \<in> set ts. ch_theirs c = True\<close> s merge_agreed [OF s(3)] o t show ?thesis
    by (simp add: merge3_def)
qed

lemma merge3_apart:
  assumes "valid_diff diff"
    and o: "changes_from_ops (diff base ours) ours False = Some os"
    and t: "changes_from_ops (diff base theirs) theirs True = Some ts"
    and apart: "\<forall>x \<in> set os. \<forall>y \<in> set ts.
      (ch_end x \<le> ch_start y \<or> ch_end y \<le> ch_start x) \<and> change_key x \<noteq> change_key y"
  shows "merge3 diff base ours theirs =
    map_option Inr (reconstruct_from base 0 (length base) (sort_key change_key (os @ ts)))"
proof -
  have oo: "in_order 0 (length base) os" "\<forall>c \<in> set os. \<not> ch_theirs c"
    using o by (auto intro: diff_changes [OF assms(1), of base ours False])
  have tt: "in_order 0 (length base) ts" "\<forall>c \<in> set ts. ch_theirs c"
    using t by (auto intro: diff_changes [OF assms(1), of base theirs True])
  let ?cs = "sort_key change_key (os @ ts)"
  note s = sorted_sides [OF oo(1) tt(1) oo(2) tt(2)]
  have sides: "(x \<in> set os \<longleftrightarrow> \<not> ch_theirs x) \<and> (x \<in> set ts \<longleftrightarrow> ch_theirs x)" if "x \<in> set ?cs" for x
    using that oo(2) tt(2) by auto
  have pair: "(ch_end x \<le> ch_start y \<or> ch_end y \<le> ch_start x) \<and> change_key x \<noteq> change_key y"
    if xy: "x \<in> set ?cs" "y \<in> set ?cs" "ch_theirs x \<noteq> ch_theirs y" for x y
  proof (cases "ch_theirs x")
    case True
    with xy(3) sides [OF xy(1)] sides [OF xy(2)] have "y \<in> set os" "x \<in> set ts" by simp_all
    with apart have "(ch_end y \<le> ch_start x \<or> ch_end x \<le> ch_start y) \<and> change_key y \<noteq> change_key x"
      by blast
    then show ?thesis by auto
  next
    case False
    with xy(3) sides [OF xy(1)] sides [OF xy(2)] have "x \<in> set os" "y \<in> set ts" by simp_all
    with apart show ?thesis by blast
  qed
  have "sides_apart ?cs" unfolding sides_apart_def using pair by blast
  have "sorted_wrt (\<lambda>x y. ch_end x \<le> ch_start y) ?cs"
  proof (rule sorted_wrt_sides)
    show "sorted_wrt (\<lambda>x y. change_key x \<le> change_key y) ?cs"
      using s(3) by (simp add: mergeable_def key_order_def)
    show "sorted_wrt (\<lambda>x y. ch_end x \<le> ch_start y) (side_of sd ?cs)" for sd
      using s(3) by (simp add: mergeable_def in_order_def)
    fix x y
    assume xy: "x \<in> set ?cs" "y \<in> set ?cs" "ch_theirs x \<noteq> ch_theirs y" "change_key x \<le> change_key y"
    from pair [OF xy(1-3)] have "ch_end x \<le> ch_start y \<or> ch_end y \<le> ch_start x" ..
    then show "ch_end x \<le> ch_start y"
      using xy(4) mergeable_bounds [OF s(3) xy(1)] mergeable_bounds [OF s(3) xy(2)]
      by (auto simp: key_le)
  qed
  then have "in_order 0 (length base) ?cs"
    using mergeable_bounds [OF s(3)] by (auto simp: in_order_def)
  from separate_merge [OF s(3) this \<open>sides_apart ?cs\<close>] o t show ?thesis by (simp add: merge3_def)
qed

lemma changes_flip:
  "changes_from_ops ops sd (\<not> t) =
     map_option (map (\<lambda>c. c\<lparr>ch_theirs := \<not> t\<rparr>)) (changes_from_ops ops sd t)"
  by (induction ops sd t rule: changes_from_ops.induct)
    (auto simp: option.map_comp comp_def split: option.splits Option.bind_splits)

lemma merge3_swap:
  assumes "valid_diff diff"
  shows "merge3 diff base theirs ours = merge3 diff base ours theirs"
proof -
  obtain os where o: "changes_from_ops (diff base ours) ours False = Some os"
    "in_order 0 (length base) os" "\<forall>c \<in> set os. ch_theirs c = False"
    by (rule diff_changes [OF assms])
  obtain ts where t: "changes_from_ops (diff base theirs) theirs True = Some ts"
    "in_order 0 (length base) ts" "\<forall>c \<in> set ts. ch_theirs c = True"
    by (rule diff_changes [OF assms])
  define os' where "os' = map (\<lambda>c. c\<lparr>ch_theirs := False\<rparr>) ts"
  define ts' where "ts' = map (\<lambda>c. c\<lparr>ch_theirs := True\<rparr>) os"
  have o': "changes_from_ops (diff base theirs) theirs False = Some os'"
    using changes_flip [of "diff base theirs" theirs True] t(1) by (simp add: os'_def)
  have t': "changes_from_ops (diff base ours) ours True = Some ts'"
    using changes_flip [of "diff base ours" ours False] o(1) by (simp add: ts'_def)
  have b: "in_order 0 (length base) os'" "\<forall>c \<in> set os'. ch_theirs c = False"
    "in_order 0 (length base) ts'" "\<forall>c \<in> set ts'. ch_theirs c = True"
    using o(2) t(2) by (auto simp: os'_def ts'_def in_order_def sorted_wrt_map)
  let ?cs = "sort_key change_key (os @ ts)" and ?ds = "sort_key change_key (os' @ ts')"
  note c = sorted_sides [OF o(2) t(2)] and d = sorted_sides [OF b(1) b(3)]
  have cs: "side_of False ?cs = os" "side_of True ?cs = ts" "mergeable 0 (length base) ?cs"
    using c o(3) t(3) by simp_all
  have ds: "side_of False ?ds = os'" "side_of True ?ds = ts'" "mergeable 0 (length base) ?ds"
    using d b(2,4) by simp_all
  have key: "map change_key os' = map change_key ts" "map change_key ts' = map change_key os"
    by (simp_all add: os'_def ts'_def change_key_def)
  have mc: "mset (map change_key ?cs) = mset (map change_key os) + mset (map change_key ts)" by simp
  have "mset (map change_key ?ds) = mset (map change_key os') + mset (map change_key ts')" by simp
  then have "mset (map change_key ?cs) = mset (map change_key ?ds)"
    unfolding mc by (simp only: key add.commute)
  then have "map change_key ?cs = map change_key ?ds"
    using properties_for_sort [of "map change_key ?cs" "map change_key ?ds"]
      properties_for_sort [of "map change_key ?ds" "map change_key ?ds"] by simp
  moreover have "map core (side_of s ?cs) = map core (side_of (\<not> s) ?ds)" for s
    using cs ds by (cases s) (simp_all add: os'_def ts'_def core_def)
  ultimately show ?thesis
    using merge_swapped [OF cs(3) ds(3)] o t o' t' by (simp add: merge3_def)
qed

section \<open>The conflict driver\<close>

text \<open>
  \<open>auto_resolve_conflicts\<close>. The repository is a parameter: the index's conflicts, the blobs, the
  structural merge of \<open>ast_merge\<close>, whether a write and a staging succeed. What the driver writes
  is returned beside its report. \<open>str::from_utf8\<close> is \<open>utf8_chars\<close>, the code points.
\<close>

definition MAX_RESOLVE_BYTES :: nat where "MAX_RESOLVE_BYTES = 1048576"

definition cont_bits :: "char \<Rightarrow> nat" where
  "cont_bits c = byte c mod 64"

text \<open>The code points of bytes that \<open>utf8_valid\<close> accepts.\<close>

fun utf8_points :: "string \<Rightarrow> nat list" where
  "utf8_points [] = []"
| "utf8_points (a # s) =
     (if byte a < 128 then byte a # utf8_points s
      else if byte a < 224 then
        (case s of b # t \<Rightarrow> ((byte a mod 32) * 64 + cont_bits b) # utf8_points t | _ \<Rightarrow> [])
      else if byte a < 240 then
        (case s of
           b # c # t \<Rightarrow> ((byte a mod 16) * 4096 + cont_bits b * 64 + cont_bits c) # utf8_points t
         | _ \<Rightarrow> [])
      else
        (case s of
           b # c # d # t \<Rightarrow>
             ((byte a mod 8) * 262144 + cont_bits b * 4096 + cont_bits c * 64 + cont_bits d)
             # utf8_points t
         | _ \<Rightarrow> []))"

definition utf8_chars :: "string \<Rightarrow> nat list option" where
  "utf8_chars s = (if utf8_valid s then Some (utf8_points s) else None)"

record 'oid index_entry =
  ie_path :: string
  ie_mode :: nat
  ie_id :: 'oid

type_synonym 'oid conflict =
  "'oid index_entry option \<times> 'oid index_entry option \<times> 'oid index_entry option"

record 'oid repository =
  r_blob :: "'oid \<Rightarrow> string option"
  r_ast_merge :: "string \<Rightarrow> nat list \<Rightarrow> nat list \<Rightarrow> nat list \<Rightarrow> nat list option"
  r_write_ok :: "string \<Rightarrow> bool"
  r_add_ok :: "string \<Rightarrow> bool"

record resolve_report =
  rr_resolved :: "string list"
  rr_ast_resolved :: nat
  rr_writes :: "(string \<times> nat list) list"

definition is_regular_blob :: "nat \<Rightarrow> bool" where
  "is_regular_blob mode \<longleftrightarrow> mode = 33188 \<or> mode = 33261"

definition blob_text :: "'oid repository \<Rightarrow> 'oid \<Rightarrow> nat list option" where
  "blob_text r i =
     Option.bind (r_blob r i) (\<lambda>content.
       if length content > MAX_RESOLVE_BYTES then None else utf8_chars content)"

definition candidate ::
  "'oid repository \<Rightarrow> 'oid conflict \<Rightarrow> (string \<times> nat list \<times> nat list \<times> nat list) option" where
  "candidate r c =
     (case c of
        (Some anc, Some our, Some their) \<Rightarrow>
          if \<not> utf8_valid (ie_path our) then None
          else if \<not> (is_regular_blob (ie_mode anc) \<and> is_regular_blob (ie_mode our)
                     \<and> is_regular_blob (ie_mode their)) then None
          else
            Option.bind (blob_text r (ie_id anc)) (\<lambda>base.
            Option.bind (blob_text r (ie_id our)) (\<lambda>ours.
            Option.bind (blob_text r (ie_id their)) (\<lambda>theirs.
              Some (ie_path our, base, ours, theirs))))
      | _ \<Rightarrow> None)"

definition merge_candidate ::
  "unicode \<Rightarrow> (nat list list \<Rightarrow> nat list list \<Rightarrow> diff_op list) \<Rightarrow> 'oid repository
     \<Rightarrow> string \<times> nat list \<times> nat list \<times> nat list \<Rightarrow> (nat list \<times> bool) option option" where
  "merge_candidate u diff r c =
     (case c of (path, base, ours, theirs) \<Rightarrow>
       map_option
         (\<lambda>m. case m of
                Inr t \<Rightarrow> Some (t, False)
              | Inl _ \<Rightarrow> map_option (\<lambda>t. (t, True)) (r_ast_merge r path base ours theirs))
         (merge3_str u diff base ours theirs))"

definition resolve_one ::
  "unicode \<Rightarrow> (nat list list \<Rightarrow> nat list list \<Rightarrow> diff_op list) \<Rightarrow> 'oid repository
     \<Rightarrow> resolve_report \<Rightarrow> string \<times> nat list \<times> nat list \<times> nat list \<Rightarrow> resolve_report option" where
  "resolve_one u diff r rep c =
     map_option
       (\<lambda>m. case m of
              None \<Rightarrow> rep
            | Some (merged, via_ast) \<Rightarrow>
                (let path = fst c in
                 if \<not> r_write_ok r path then rep
                 else
                   (let rep = rep\<lparr>rr_writes := rr_writes rep @ [(path, merged)]\<rparr> in
                    if r_add_ok r path then
                      rep\<lparr>rr_ast_resolved := rr_ast_resolved rep + (if via_ast then 1 else 0),
                          rr_resolved := rr_resolved rep @ [path]\<rparr>
                    else rep)))
       (merge_candidate u diff r c)"

definition auto_resolve_conflicts ::
  "unicode \<Rightarrow> (nat list list \<Rightarrow> nat list list \<Rightarrow> diff_op list) \<Rightarrow> 'oid repository
     \<Rightarrow> 'oid conflict list \<Rightarrow> resolve_report option" where
  "auto_resolve_conflicts u diff r conflicts =
     foldl (\<lambda>rep c. Option.bind rep (\<lambda>rep. resolve_one u diff r rep c))
       (Some \<lparr>rr_resolved = [], rr_ast_resolved = 0, rr_writes = []\<rparr>)
       (List.map_filter (candidate r) conflicts)"

lemma merge3_str_total: "valid_diff diff \<Longrightarrow> \<exists>r. merge3_str u diff base ours theirs = Some r"
  using merge3_total [of diff "tokenize u base" "tokenize u ours" "tokenize u theirs"]
  by (auto simp: merge3_str_def)

text \<open>What a write of the driver can be.\<close>

definition sound_write ::
  "unicode \<Rightarrow> (nat list list \<Rightarrow> nat list list \<Rightarrow> diff_op list) \<Rightarrow> 'oid repository \<Rightarrow> 'oid conflict list
     \<Rightarrow> string \<times> nat list \<Rightarrow> bool" where
  "sound_write u diff r conflicts w \<longleftrightarrow>
     (\<exists>anc our their base ours theirs.
        (Some anc, Some our, Some their) \<in> set conflicts \<and> fst w = ie_path our
        \<and> is_regular_blob (ie_mode anc) \<and> is_regular_blob (ie_mode our) \<and> is_regular_blob (ie_mode their)
        \<and> blob_text r (ie_id anc) = Some base \<and> blob_text r (ie_id our) = Some ours
        \<and> blob_text r (ie_id their) = Some theirs
        \<and> (merge3_str u diff base ours theirs = Some (Inr (snd w))
           \<or> (merge3_str u diff base ours theirs = Some (Inl Conflicted)
              \<and> r_ast_merge r (fst w) base ours theirs = Some (snd w))))"

definition report_ok ::
  "unicode \<Rightarrow> (nat list list \<Rightarrow> nat list list \<Rightarrow> diff_op list) \<Rightarrow> 'oid repository \<Rightarrow> 'oid conflict list
     \<Rightarrow> resolve_report \<Rightarrow> bool" where
  "report_ok u diff r conflicts rep \<longleftrightarrow>
     (\<forall>w \<in> set (rr_writes rep). sound_write u diff r conflicts w)
     \<and> set (rr_resolved rep) \<subseteq> fst ` set (rr_writes rep)
     \<and> rr_ast_resolved rep \<le> length (rr_resolved rep)"

lemma resolve_one_ok:
  assumes "valid_diff diff" "report_ok u diff r conflicts rep"
    and "conflict \<in> set conflicts" "candidate r conflict = Some c"
  shows "\<exists>rep'. resolve_one u diff r rep c = Some rep' \<and> report_ok u diff r conflicts rep'"
proof -
  obtain anc our their base ours theirs where con: "conflict = (Some anc, Some our, Some their)"
    and reg: "is_regular_blob (ie_mode anc)" "is_regular_blob (ie_mode our)" "is_regular_blob (ie_mode their)"
    and tx: "blob_text r (ie_id anc) = Some base" "blob_text r (ie_id our) = Some ours"
      "blob_text r (ie_id their) = Some theirs"
    and c: "c = (ie_path our, base, ours, theirs)"
    using assms(4) by (auto simp: candidate_def bind_eq_Some_conv split: prod.splits option.splits if_splits)
  obtain m where m: "merge3_str u diff base ours theirs = Some m"
    using merge3_str_total [OF assms(1)] by blast
  have sound: "sound_write u diff r conflicts (ie_path our, t)"
    if "m = Inr t \<or> (m = Inl Conflicted \<and> r_ast_merge r (ie_path our) base ours theirs = Some t)" for t
    unfolding sound_write_def
    using that assms(3) con reg tx m
    by (intro exI [of _ anc] exI [of _ our] exI [of _ their] exI [of _ base] exI [of _ ours]
        exI [of _ theirs]) auto
  have single: "e = Conflicted" for e by (cases e) simp
  show ?thesis
    using assms(2) m sound single
    by (cases m; cases "r_ast_merge r (ie_path our) base ours theirs")
      (auto simp: resolve_one_def merge_candidate_def c report_ok_def Let_def)
qed

lemma auto_resolve_ok:
  assumes "valid_diff diff"
  shows "\<exists>rep. auto_resolve_conflicts u diff r conflicts = Some rep \<and> report_ok u diff r conflicts rep"
proof -
  have "\<exists>rep'. foldl (\<lambda>rep c. Option.bind rep (\<lambda>rep. resolve_one u diff r rep c)) (Some rep)
        (List.map_filter (candidate r) cs) = Some rep' \<and> report_ok u diff r conflicts rep'"
    if "set cs \<subseteq> set conflicts" "report_ok u diff r conflicts rep" for cs rep
    using that
  proof (induction cs arbitrary: rep)
    case (Cons x xs)
    show ?case
    proof (cases "candidate r x")
      case None
      with Cons show ?thesis by (simp add: map_filter_simps)
    next
      case (Some c)
      with Cons.prems obtain rep' where "resolve_one u diff r rep c = Some rep'"
        "report_ok u diff r conflicts rep'"
        using resolve_one_ok [OF assms Cons.prems(2) _ Some] by auto
      with Cons Some show ?thesis by (simp add: map_filter_simps)
    qed
  qed (simp add: map_filter_simps)
  then show ?thesis
    unfolding auto_resolve_conflicts_def by (simp add: report_ok_def)
qed

section \<open>Properties\<close>

text \<open>
  A diff for the witnesses: replace everything, or say that equal slices are equal.
\<close>

definition demo_diff :: "'a list \<Rightarrow> 'a list \<Rightarrow> diff_op list" where
  "demo_diff a b =
     (if a = b then [OpEqual 0 0 (length a)] else [OpReplace 0 (length a) 0 (length b)])"

lemma demo_diff_valid: "valid_diff demo_diff"
  by (simp add: valid_diff_def demo_diff_def)

text \<open>
  Tokens lose nothing: joining the tokens of any text gives the text back, and no token is
  empty, so a merge reproduces every byte it does not decide about.
\<close>

theorem tokens_join_to_text: "concat (tokenize u s) = s \<and> [] \<notin> set (tokenize u s)"
  using token.join_pieces tokenize_no_empty by blast

text \<open>
  C40. With any valid diff a merge returns: no slice is out of range, and the answer is a text or
  a conflict.
\<close>

theorem merge_never_panics:
  assumes "valid_diff diff"
  shows "\<exists>r. merge3 diff base ours theirs = Some r"
  by (rule merge3_total [OF assms])

lemma merge_never_panics_witness:
  "\<exists>r. merge3 demo_diff [1, 2, 3 :: nat] [1, 9] [4] = Some r"
  by (rule merge_never_panics [OF demo_diff_valid])

text \<open>
  When both sides hold the same text the merge is that text, whatever the base and whatever
  valid diff was found.
\<close>

theorem merge_of_agreeing_sides:
  assumes "valid_diff diff"
  shows "merge3 diff base side side = Some (Inr side)"
  by (rule merge3_agreed [OF assms])

lemma merge_of_agreeing_sides_witness:
  "merge3 demo_diff [1, 2 :: nat] [1, 3] [1, 3] = Some (Inr [1, 3])"
  by (rule merge_of_agreeing_sides [OF demo_diff_valid])

text \<open>
  Ours and theirs are interchangeable: swapping the sides gives the same text or the same
  conflict.
\<close>

theorem merge_is_symmetric:
  assumes "valid_diff diff"
  shows "merge3 diff base theirs ours = merge3 diff base ours theirs"
  by (rule merge3_swap [OF assms])

lemma merge_is_symmetric_witness:
  "merge3 demo_diff [1, 2 :: nat] [1] [2] = merge3 demo_diff [1, 2] [2] [1]"
  by (rule merge_is_symmetric [OF demo_diff_valid])

text \<open>
  C24. Edits in different places are both taken: when no change of one side overlaps a change of
  the other, and no two insertions meet at one point, the merge is the base with every change of
  both sides applied, and never a conflict. With no change on one side, whichever it is, it is the
  other side whole.
\<close>

theorem separate_edits_are_both_taken:
  assumes "valid_diff diff"
    and "changes_from_ops (diff base ours) ours False = Some os"
    and "changes_from_ops (diff base theirs) theirs True = Some ts"
    and "\<forall>x \<in> set os. \<forall>y \<in> set ts.
      (ch_end x \<le> ch_start y \<or> ch_end y \<le> ch_start x) \<and> change_key x \<noteq> change_key y"
  shows "(\<exists>both. reconstruct_from base 0 (length base) (sort_key change_key (os @ ts)) = Some both
        \<and> merge3 diff base ours theirs = Some (Inr both))
    \<and> (ts = [] \<longrightarrow> merge3 diff base ours theirs = Some (Inr ours))
    \<and> (os = [] \<longrightarrow> merge3 diff base ours theirs = Some (Inr theirs))"
proof -
  have m: "merge3 diff base ours theirs =
      map_option Inr (reconstruct_from base 0 (length base) (sort_key change_key (os @ ts)))"
    by (rule merge3_apart [OF assms])
  have "in_order 0 (length base) os" "reconstruct_from base 0 (length base) os = Some ours"
    using assms(2) by (auto intro: diff_changes [OF assms(1), of base ours False])
  moreover have "in_order 0 (length base) ts" "reconstruct_from base 0 (length base) ts = Some theirs"
    using assms(3) by (auto intro: diff_changes [OF assms(1), of base theirs True])
  ultimately show ?thesis
    using m merge3_total [OF assms(1), of base ours theirs] by (auto simp: sort_key_id_if_sorted in_order_sorted)
qed

text \<open>A diff that tells two lines apart.\<close>

definition one_by_one :: "nat list \<Rightarrow> nat list \<Rightarrow> diff_op list" where
  "one_by_one a b =
     (if length a = 2 \<and> length b = 2
      then [if a ! 0 = b ! 0 then OpEqual 0 0 1 else OpReplace 0 1 0 1,
            if a ! 1 = b ! 1 then OpEqual 1 1 1 else OpReplace 1 1 1 1]
      else demo_diff a b)"

lemma one_by_one_valid: "valid_diff one_by_one"
proof -
  have "walks a b 0 0 (one_by_one a b)" for a b
  proof (cases "length a = 2 \<and> length b = 2")
    case True
    then obtain p q r s where "a = [p, q]" "b = [r, s]" by (auto simp: numeral_2_eq_2 length_Suc_conv)
    then show ?thesis by (simp add: one_by_one_def)
  next
    case False
    then show ?thesis using demo_diff_valid by (auto simp: one_by_one_def valid_diff_def)
  qed
  then show ?thesis by (simp add: valid_diff_def)
qed

lemma separate_edits_are_both_taken_witness:
  "merge3 one_by_one [1, 2] [7, 2] [1, 8] = Some (Inr [7, 8])
    \<and> merge3 one_by_one [1, 2] [1, 2] [1, 8] = Some (Inr [1, 8])"
proof -
  let ?first = "\<lparr>ch_start = 0, ch_end = 1, ch_new = [7 :: nat], ch_theirs = False\<rparr>"
  let ?second = "\<lparr>ch_start = 1, ch_end = 2, ch_new = [8 :: nat], ch_theirs = True\<rparr>"
  have os: "changes_from_ops (one_by_one [1, 2] [7, 2]) [7, 2] False = Some [?first]"
    "changes_from_ops (one_by_one [1, 2] [1, 2]) [1, 2] False = Some []"
    and ts: "changes_from_ops (one_by_one [1, 2] [1, 8]) [1, 8] True = Some [?second]"
    by (simp_all add: one_by_one_def slice_def)
  have "sort_key change_key ([?first] @ [?second]) = [?first, ?second]"
    by (simp add: change_key_def less_eq_prod_def)
  then have "reconstruct_from [1, 2] 0 (length [1, 2 :: nat]) (sort_key change_key ([?first] @ [?second])) = Some [7, 8]"
    by (simp add: slice_def)
  with separate_edits_are_both_taken [OF one_by_one_valid os(1) ts]
    separate_edits_are_both_taken [OF one_by_one_valid os(2) ts] show ?thesis
    by (simp add: change_key_def)
qed

text \<open>
  The driver always returns, and every file it writes is the path of a conflict whose three
  stages are regular files of readable text within the size limit, with the content the token
  merge, or after its conflict the structural merge, gives; what it reports resolved it wrote.
\<close>

theorem driver_writes_only_merged_files:
  assumes "valid_diff diff"
  shows "\<exists>rep. auto_resolve_conflicts u diff r conflicts = Some rep
    \<and> (\<forall>w \<in> set (rr_writes rep). sound_write u diff r conflicts w)
    \<and> set (rr_resolved rep) \<subseteq> fst ` set (rr_writes rep)
    \<and> rr_ast_resolved rep \<le> length (rr_resolved rep)"
  using auto_resolve_ok [OF assms] unfolding report_ok_def .

definition demo_unicode :: unicode where
  "demo_unicode = \<lparr>u_alphanumeric = (\<lambda>c. 97 \<le> c \<and> c \<le> 122), u_whitespace = (\<lambda>c. c = 32)\<rparr>"

definition demo_repository :: "nat repository" where
  "demo_repository =
     \<lparr>r_blob = (\<lambda>i. if i = 1 then Some ''a'' else Some ''b''), r_ast_merge = (\<lambda>_ _ _ _. None),
      r_write_ok = (\<lambda>_. True), r_add_ok = (\<lambda>_. True)\<rparr>"

definition demo_conflict :: "nat conflict" where
  "demo_conflict =
     (Some \<lparr>ie_path = ''f'', ie_mode = 33188, ie_id = 1\<rparr>,
      Some \<lparr>ie_path = ''f'', ie_mode = 33188, ie_id = 2\<rparr>,
      Some \<lparr>ie_path = ''f'', ie_mode = 33188, ie_id = 3\<rparr>)"

lemma driver_writes_only_merged_files_witness:
  "\<exists>rep. auto_resolve_conflicts demo_unicode demo_diff demo_repository [demo_conflict] = Some rep
    \<and> set (rr_resolved rep) \<subseteq> fst ` set (rr_writes rep)
    \<and> rr_ast_resolved rep \<le> length (rr_resolved rep)"
  using driver_writes_only_merged_files [OF demo_diff_valid, of demo_unicode demo_repository
      "[demo_conflict]"] by blast

end
