(* ===== verification/Std_Text.thy ===== *)
theory Std_Text
  imports Prelude
begin

text \<open>
  What the components use of the standard library's text and paths: \<open>str::trim\<close> and
  \<open>trim_matches\<close> over UTF-8 bytes, and \<open>std::path\<close>. A path is the list of its components: the root
  is the component \<open>/\<close>, empty parts and inner \<open>.\<close> are gone, a leading \<open>.\<close> of a relative path stays.
\<close>

section \<open>Trimming\<close>

text \<open>The characters of Unicode's \<open>White_Space\<close>, as bytes.\<close>

definition WHITESPACE :: "string list" where
  "WHITESPACE =
     map (\<lambda>b. [char_of b]) [9, 10, 11, 12, 13, 32 :: nat]
     @ map (map char_of) [[194, 133], [194, 160], [225, 154, 128 :: nat]]
     @ map (\<lambda>b. map char_of [226, 128, b]) ([128..<139] @ [168, 169, 175 :: nat])
     @ map (map char_of) [[226, 129, 159], [227, 128, 128 :: nat]]"

lemma whitespace_bytes:
  "WHITESPACE =
     [[CHR 0x09], [CHR 0x0A], [CHR 0x0B], [CHR 0x0C], [CHR 0x0D], [CHR 0x20], [CHR 0xC2, CHR 0x85],
      [CHR 0xC2, CHR 0xA0], [CHR 0xE1, CHR 0x9A, CHR 0x80], [CHR 0xE2, CHR 0x80, CHR 0x80],
      [CHR 0xE2, CHR 0x80, CHR 0x81], [CHR 0xE2, CHR 0x80, CHR 0x82], [CHR 0xE2, CHR 0x80, CHR 0x83],
      [CHR 0xE2, CHR 0x80, CHR 0x84], [CHR 0xE2, CHR 0x80, CHR 0x85], [CHR 0xE2, CHR 0x80, CHR 0x86],
      [CHR 0xE2, CHR 0x80, CHR 0x87], [CHR 0xE2, CHR 0x80, CHR 0x88], [CHR 0xE2, CHR 0x80, CHR 0x89],
      [CHR 0xE2, CHR 0x80, CHR 0x8A], [CHR 0xE2, CHR 0x80, CHR 0xA8], [CHR 0xE2, CHR 0x80, CHR 0xA9],
      [CHR 0xE2, CHR 0x80, CHR 0xAF], [CHR 0xE2, CHR 0x81, CHR 0x9F], [CHR 0xE3, CHR 0x80, CHR 0x80]]"
  by code_simp

definition strip_any :: "string list \<Rightarrow> string \<Rightarrow> string option" where
  "strip_any ws s = map_option (\<lambda>w. drop (length w) s) (find (\<lambda>w. w \<noteq> [] \<and> prefix w s) ws)"

lemma strip_any_Some:
  assumes "strip_any ws s = Some r"
  shows "\<exists>w \<in> set ws. w \<noteq> [] \<and> s = w @ r"
proof -
  from assms obtain w where w: "find (\<lambda>w. w \<noteq> [] \<and> prefix w s) ws = Some w" "r = drop (length w) s"
    by (auto simp: strip_any_def)
  then have "w \<noteq> []" "prefix w s" "w \<in> set ws" by (auto simp: find_Some_iff)
  with w(2) show ?thesis by (auto simp: prefix_def)
qed

lemma strip_any_shorter: "strip_any ws s = Some r \<Longrightarrow> length r < length s"
  by (auto dest!: strip_any_Some)

function trim_front :: "string list \<Rightarrow> string \<Rightarrow> string" where
  "trim_front ws s = (case strip_any ws s of Some r \<Rightarrow> trim_front ws r | None \<Rightarrow> s)"
  by pat_completeness auto
termination by (relation "measure (length \<circ> snd)") (auto dest: strip_any_shorter)

declare trim_front.simps [simp del]

definition trim_back :: "string list \<Rightarrow> string \<Rightarrow> string" where
  "trim_back ws s = rev (trim_front (map rev ws) (rev s))"

definition trim :: "string \<Rightarrow> string" where
  "trim s = trim_back WHITESPACE (trim_front WHITESPACE s)"

definition trim_slashes :: "string \<Rightarrow> string" where
  "trim_slashes s = trim_back [''/''] (trim_front [''/''] s)"

lemma trim_front_suffix: "suffix (trim_front ws s) s"
proof (induction ws s rule: trim_front.induct)
  case (1 ws s)
  show ?case
  proof (cases "strip_any ws s")
    case None
    then show ?thesis by (simp add: trim_front.simps [of ws s])
  next
    case (Some r)
    with 1 have "suffix (trim_front ws r) r" by blast
    moreover obtain w where "s = w @ r" using strip_any_Some [OF Some] by blast
    ultimately have "suffix (trim_front ws r) s" by (simp add: suffix_appendI)
    with Some show ?thesis by (simp add: trim_front.simps [of ws s])
  qed
qed

lemma trim_back_prefix: "prefix (trim_back ws s) s"
  using trim_front_suffix [of "map rev ws" "rev s"] by (simp add: trim_back_def suffix_to_prefix)

text \<open>A text no whitespace begins stays as it is.\<close>

lemma trim_front_id: "\<forall>w \<in> set ws. w \<noteq> [] \<longrightarrow> \<not> prefix w s \<Longrightarrow> trim_front ws s = s"
  by (auto simp: trim_front.simps [of ws s] strip_any_def find_None_iff find_Some_iff
      split: option.splits)

lemma trim_front_again: "trim_front ws (trim_front ws s) = trim_front ws s"
proof (induction ws s rule: trim_front.induct)
  case (1 ws s)
  then show ?case
    by (cases "strip_any ws s") (simp_all add: trim_front.simps [of ws s])
qed

section \<open>Paths\<close>

type_synonym path = "string list"

text \<open>\<open>Path::new\<close>: the components of a text.\<close>

definition path_of_text :: "string \<Rightarrow> path" where
  "path_of_text s =
     (let parts = filter (\<lambda>p. p \<noteq> []) (split_on CHR ''/'' s);
          rest = filter (\<lambda>p. p \<noteq> ''.'') parts
      in if prefix ''/'' s then ''/'' # rest
         else if parts \<noteq> [] \<and> hd parts = ''.'' then ''.'' # rest
         else rest)"

definition is_absolute :: "path \<Rightarrow> bool" where
  "is_absolute p \<longleftrightarrow> p \<noteq> [] \<and> hd p = ''/''"

text \<open>\<open>Path::join\<close>: an absolute path replaces, and a leading \<open>.\<close> is an inner one then.\<close>

definition join_path :: "path \<Rightarrow> path \<Rightarrow> path" where
  "join_path a b =
     (if is_absolute b then b
      else if a \<noteq> [] \<and> b \<noteq> [] \<and> hd b = ''.'' then a @ tl b
      else a @ b)"

text \<open>\<open>Path::parent\<close>: none for the empty path and for the root.\<close>

definition parent :: "path \<Rightarrow> path option" where
  "parent p = (if p = [] \<or> p = [''/''] then None else Some (butlast p))"

text \<open>\<open>Path::ancestors\<close>: the path itself, then each directory above it.\<close>

function ancestors :: "path \<Rightarrow> path list" where
  "ancestors p = p # (case parent p of Some q \<Rightarrow> ancestors q | None \<Rightarrow> [])"
  by pat_completeness auto
termination by (relation "measure length") (auto simp: parent_def split: if_splits)

declare ancestors.simps [simp del]

text \<open>\<open>Component::Normal\<close>.\<close>

definition normal :: "string \<Rightarrow> bool" where
  "normal c \<longleftrightarrow> c \<noteq> ''/'' \<and> c \<noteq> ''.'' \<and> c \<noteq> ''..''"

definition file_name :: "path \<Rightarrow> string option" where
  "file_name p = (if p \<noteq> [] \<and> normal (last p) then Some (last p) else None)"

lemma parent_shorter: "parent p = Some q \<Longrightarrow> length q < length p"
  by (auto simp: parent_def split: if_splits)

lemma parent_prefix: "parent p = Some q \<Longrightarrow> prefix q p"
  by (auto simp: parent_def prefixeq_butlast split: if_splits)

lemma join_path_prefix: "\<not> is_absolute b \<Longrightarrow> prefix a (join_path a b)"
  by (auto simp: join_path_def)

end
