(* ===== verification/Fs_Watch.thy ===== *)
theory Fs_Watch
  imports Std_Text
begin

text \<open>
  \<open>oxplow-fs-watch/src/pending.rs\<close>: what a subscriber of a file watch has not read yet, and who
  hears a change. A path is its list of components, so \<open>starts_with\<close> is \<open>prefix\<close>. The pending
  paths are a \<open>HashMap\<close>: an association list with distinct keys, in an order nothing relies on;
  the rescans a \<open>BTreeSet\<close>. The mutex makes each operation atomic; waiting is not modelled, only
  what the loop of \<open>next_batch_after\<close> decides from the state it reads. The lemmas: the state stays
  bounded and free of redundancy, no change is lost however operations interleave, and a
  subscriber without a scope hears all of them.
\<close>

section \<open>State\<close>

datatype watch_event_kind = Created | Modified | Removed | Other

definition MAX_PENDING_PATHS :: nat where "MAX_PENDING_PATHS = 20000"

record batch =
  b_paths :: "(path \<times> watch_event_kind) list"
  b_rescans :: "path list"

definition batch_is_empty :: "batch \<Rightarrow> bool" where
  "batch_is_empty b \<longleftrightarrow> b_paths b = [] \<and> b_rescans b = []"

record pending_state =
  ps_paths :: "(path \<times> watch_event_kind) list"
  ps_rescans :: "path list"
  ps_closed :: bool

definition pending_new :: pending_state where
  "pending_new = \<lparr>ps_paths = [], ps_rescans = [], ps_closed = False\<rparr>"

definition insert_rescan :: "pending_state \<Rightarrow> path \<Rightarrow> pending_state" where
  "insert_rescan st dir =
     (if list_ex (\<lambda>have. prefix have dir) (ps_rescans st) then st
      else st\<lparr>ps_rescans := insort dir (filter (\<lambda>have. \<not> prefix dir have) (ps_rescans st)),
              ps_paths := filter (\<lambda>(p, k). \<not> prefix dir p) (ps_paths st)\<rparr>)"

fun top_of :: "path list \<Rightarrow> path \<Rightarrow> path" where
  "top_of [] p = (case parent p of Some q \<Rightarrow> q | None \<Rightarrow> p)"
| "top_of (root # roots) p =
     (case strip_prefix root p of
        Some rel \<Rightarrow> (case rel of first # _ # _ \<Rightarrow> root @ [first] | _ \<Rightarrow> root)
      | None \<Rightarrow> top_of roots p)"

definition collapse :: "path list \<Rightarrow> pending_state \<Rightarrow> pending_state" where
  "collapse roots st =
     foldl (\<lambda>s p. insert_rescan s (top_of roots p)) (st\<lparr>ps_paths := []\<rparr>) (map fst (ps_paths st))"

fun put_path :: "path \<Rightarrow> watch_event_kind \<Rightarrow> (path \<times> watch_event_kind) list
    \<Rightarrow> (path \<times> watch_event_kind) list" where
  "put_path p k [] = [(p, k)]"
| "put_path p k ((q, l) # m) = (if q = p then (p, k) # m else (q, l) # put_path p k m)"

definition pending_change ::
  "path list \<Rightarrow> pending_state \<Rightarrow> path \<Rightarrow> watch_event_kind \<Rightarrow> pending_state" where
  "pending_change roots st p k =
     (if list_ex (\<lambda>dir. prefix dir p) (ps_rescans st) then st
      else
        (let st' = st\<lparr>ps_paths := put_path p k (ps_paths st)\<rparr> in
         if length (ps_paths st') > MAX_PENDING_PATHS then collapse roots st' else st'))"

definition pending_rescan :: "pending_state \<Rightarrow> path \<Rightarrow> pending_state" where
  "pending_rescan st dir = insert_rescan st dir"

definition pending_close :: "pending_state \<Rightarrow> pending_state" where
  "pending_close st = st\<lparr>ps_closed := True\<rparr>"

text \<open>\<open>take\<close>: the batch, or \<open>Closed\<close>; it empties the state either way.\<close>

definition take_batch :: "pending_state \<Rightarrow> batch option \<times> pending_state" where
  "take_batch st =
     (let b = \<lparr>b_paths = ps_paths st, b_rescans = ps_rescans st\<rparr>;
          st' = st\<lparr>ps_paths := [], ps_rescans := []\<rparr>
      in if batch_is_empty b \<and> ps_closed st then (None, st') else (Some b, st'))"

definition try_batch :: "pending_state \<Rightarrow> batch option \<times> pending_state" where
  "try_batch st =
     (case take_batch st of
        (None, st') \<Rightarrow> (None, st')
      | (Some b, st') \<Rightarrow> (if batch_is_empty b then None else Some b, st'))"

datatype next_step = EndOfWatch | WaitForChange | TakeBatch

definition next_batch_step :: "pending_state \<Rightarrow> next_step" where
  "next_batch_step st =
     (if ps_paths st = [] \<and> ps_rescans st = [] then
        (if ps_closed st then EndOfWatch else WaitForChange)
      else TakeBatch)"

section \<open>Who hears\<close>

record scope =
  s_files :: "path list"
  s_dirs :: "path list"
  s_prefixes :: "string list"
  s_top_level :: bool
  s_all_kept :: bool

text \<open>\<open>to_string_lossy\<close> of a relative path of UTF-8 components.\<close>

definition path_text :: "path \<Rightarrow> string" where
  "path_text p = join ''/'' p"

definition scope_covers :: "scope \<Rightarrow> path \<Rightarrow> bool" where
  "scope_covers s rel \<longleftrightarrow>
     list_ex (\<lambda>file. file = rel) (s_files s)
     \<or> list_ex (\<lambda>dir. prefix dir rel) (s_dirs s)
     \<or> (s_top_level s \<and> length rel = 1)
     \<or> list_ex (\<lambda>pre. prefix pre (path_text rel)) (s_prefixes s)"

definition scope_overlaps :: "scope \<Rightarrow> path \<Rightarrow> bool" where
  "scope_overlaps s dir \<longleftrightarrow>
     s_all_kept s
     \<or> dir = []
     \<or> list_ex (\<lambda>file. prefix dir file) (s_files s)
     \<or> list_ex (\<lambda>mine. prefix dir mine \<or> prefix mine dir) (s_dirs s)"

text \<open>A listener whose subscription was dropped is one that no longer upgrades: \<open>None\<close>.\<close>

record listener =
  l_pending :: "pending_state option"
  l_scope :: "scope option"

record subscribers =
  sub_roots :: "path list"
  sub_whole :: "path list"
  sub_list :: "listener list"

definition subscribers_new :: "path list \<Rightarrow> path list \<Rightarrow> subscribers" where
  "subscribers_new roots whole = \<lparr>sub_roots = roots, sub_whole = whole, sub_list = []\<rparr>"

definition subscribe :: "subscribers \<Rightarrow> scope option \<Rightarrow> subscribers" where
  "subscribe s sc =
     s\<lparr>sub_list := filter (\<lambda>l. l_pending l \<noteq> None) (sub_list s)
        @ [\<lparr>l_pending = Some pending_new, l_scope = sc\<rparr>]\<rparr>"

fun relative :: "path list \<Rightarrow> path \<Rightarrow> path option" where
  "relative [] p = None"
| "relative (r # rs) p = (case strip_prefix r p of Some rel \<Rightarrow> Some rel | None \<Rightarrow> relative rs p)"

definition hears_change :: "path list \<Rightarrow> path \<Rightarrow> bool \<Rightarrow> scope option \<Rightarrow> bool" where
  "hears_change roots p kept sc =
     (case sc of
        None \<Rightarrow> kept
      | Some s \<Rightarrow> (kept \<and> s_all_kept s)
          \<or> (case relative roots p of None \<Rightarrow> False | Some rel \<Rightarrow> scope_covers s rel))"

definition hears_rescan :: "path list \<Rightarrow> path \<Rightarrow> scope option \<Rightarrow> bool" where
  "hears_rescan roots dir sc =
     (case (sc, relative roots dir) of
        (Some s, Some rel) \<Rightarrow> scope_overlaps s rel
      | _ \<Rightarrow> True)"

definition subscribers_change :: "subscribers \<Rightarrow> path \<Rightarrow> watch_event_kind \<Rightarrow> bool \<Rightarrow> subscribers" where
  "subscribers_change s p k kept =
     s\<lparr>sub_list := map (\<lambda>l.
         if hears_change (sub_roots s) p kept (l_scope l)
         then l\<lparr>l_pending := map_option (\<lambda>st. pending_change (sub_roots s) st p k) (l_pending l)\<rparr>
         else l) (sub_list s)\<rparr>"

definition subscribers_rescan :: "subscribers \<Rightarrow> path \<Rightarrow> subscribers" where
  "subscribers_rescan s dir =
     s\<lparr>sub_list := map (\<lambda>l.
         if hears_rescan (sub_roots s) dir (l_scope l)
         then l\<lparr>l_pending := map_option (\<lambda>st. pending_rescan st dir) (l_pending l)\<rparr>
         else l) (sub_list s)\<rparr>"

definition rescan_all :: "subscribers \<Rightarrow> subscribers" where
  "rescan_all s = foldl subscribers_rescan s (sub_whole s)"

definition subscribers_close :: "subscribers \<Rightarrow> subscribers" where
  "subscribers_close s =
     s\<lparr>sub_list := map (\<lambda>l. l\<lparr>l_pending := map_option pending_close (l_pending l)\<rparr>) (sub_list s)\<rparr>"

section \<open>Bounded and without redundancy\<close>

definition antichain :: "path list \<Rightarrow> bool" where
  "antichain ds \<longleftrightarrow> (\<forall>a \<in> set ds. \<forall>b \<in> set ds. prefix a b \<longrightarrow> a = b)"

definition pending_inv :: "pending_state \<Rightarrow> bool" where
  "pending_inv st \<longleftrightarrow>
     distinct (map fst (ps_paths st))
     \<and> length (ps_paths st) \<le> MAX_PENDING_PATHS
     \<and> distinct (ps_rescans st) \<and> antichain (ps_rescans st)
     \<and> (\<forall>p \<in> fst ` set (ps_paths st). \<forall>d \<in> set (ps_rescans st). \<not> prefix d p)"

text \<open>What the pending state will make a subscriber look at.\<close>

definition noted :: "pending_state \<Rightarrow> path \<Rightarrow> bool" where
  "noted st p \<longleftrightarrow> p \<in> fst ` set (ps_paths st) \<or> (\<exists>d \<in> set (ps_rescans st). prefix d p)"

lemma put_path_keys: "fst ` set (put_path p k m) = insert p (fst ` set m)"
  by (induction p k m rule: put_path.induct) auto

lemma put_path_distinct: "distinct (map fst m) \<Longrightarrow> distinct (map fst (put_path p k m))"
proof (induction p k m rule: put_path.induct)
  case (2 p k q l m)
  then show ?case using put_path_keys [of p k m] by (auto simp flip: set_map)
qed simp

lemma put_path_length: "length (put_path p k m) \<le> Suc (length m)"
  by (induction p k m rule: put_path.induct) auto

lemma filter_keys: "fst ` set (filter (\<lambda>(p, k). P p) m) = {p \<in> fst ` set m. P p}"
  by force

lemma insert_rescan_inv: "pending_inv st \<Longrightarrow> pending_inv (insert_rescan st dir)"
proof (cases "list_ex (\<lambda>have. prefix have dir) (ps_rescans st)")
  case True
  then show "pending_inv st \<Longrightarrow> ?thesis" by (simp add: insert_rescan_def)
next
  case False
  assume inv: "pending_inv st"
  have new: "\<forall>d \<in> set (ps_rescans st). \<not> prefix d dir" using False by (auto simp: list_ex_iff)
  let ?st = "insert_rescan st dir"
  have st: "ps_paths ?st = filter (\<lambda>(p, k). \<not> prefix dir p) (ps_paths st)"
    "set (ps_rescans ?st) = insert dir {d \<in> set (ps_rescans st). \<not> prefix dir d}"
    using False by (simp_all add: insert_rescan_def set_insort_key)
  have "distinct (ps_rescans ?st)"
    using False inv by (auto simp: insert_rescan_def distinct_insort pending_inv_def)
  moreover have "antichain (ps_rescans ?st)"
    using inv new unfolding antichain_def st(2) pending_inv_def by blast
  moreover have "distinct (map fst (ps_paths ?st))"
    using inv by (simp add: st pending_inv_def distinct_map_filter)
  moreover have "length (ps_paths ?st) \<le> MAX_PENDING_PATHS"
    unfolding st(1) by (rule le_trans [OF length_filter_le]) (use inv in \<open>simp add: pending_inv_def\<close>)
  moreover have "\<forall>p \<in> fst ` set (ps_paths ?st). \<forall>d \<in> set (ps_rescans ?st). \<not> prefix d p"
    using inv unfolding st(2) unfolding st(1) filter_keys pending_inv_def by blast
  ultimately show ?thesis by (simp add: pending_inv_def)
qed

lemma insert_rescan_noted:
  "noted (insert_rescan st dir) p \<longleftrightarrow> noted st p \<or> prefix dir p"
proof (cases "list_ex (\<lambda>have. prefix have dir) (ps_rescans st)")
  case True
  then show ?thesis
    by (auto simp: insert_rescan_def noted_def list_ex_iff intro: prefix_order.trans)
next
  case False
  then have paths: "fst ` set (ps_paths (insert_rescan st dir)) =
      {p \<in> fst ` set (ps_paths st). \<not> prefix dir p}"
    and rescans: "set (ps_rescans (insert_rescan st dir)) =
      insert dir {d \<in> set (ps_rescans st). \<not> prefix dir d}"
    using filter_keys [of "\<lambda>p. \<not> prefix dir p" "ps_paths st"]
    by (simp_all add: insert_rescan_def set_insort_key)
  show ?thesis unfolding noted_def paths rescans by (auto intro: prefix_order.trans)
qed

lemma collapse_fold:
  "pending_inv st \<Longrightarrow>
     pending_inv (foldl (\<lambda>s p. insert_rescan s (f p)) st ps)
     \<and> (\<forall>q. noted (foldl (\<lambda>s p. insert_rescan s (f p)) st ps) q \<longleftrightarrow>
          noted st q \<or> (\<exists>p \<in> set ps. prefix (f p) q))"
proof (induction ps arbitrary: st)
  case (Cons p ps)
  from Cons.IH [OF insert_rescan_inv [OF Cons.prems]] show ?case
    by (auto simp: insert_rescan_noted)
qed simp

lemma top_of_prefix: "prefix (top_of roots p) p"
proof (induction roots p rule: top_of.induct)
  case (1 p)
  then show ?case by (auto simp: parent_def prefixeq_butlast split: option.splits)
next
  case (2 root roots p)
  then show ?case
    by (auto simp: strip_prefix_Some split: option.splits list.splits)
qed

lemma change_spec:
  assumes inv: "pending_inv st"
  shows "pending_inv (pending_change roots st p k)
    \<and> noted (pending_change roots st p k) p
    \<and> (\<forall>q. noted st q \<longrightarrow> noted (pending_change roots st p k) q)"
proof (cases "list_ex (\<lambda>dir. prefix dir p) (ps_rescans st)")
  case True
  with inv show ?thesis by (auto simp: pending_change_def noted_def list_ex_iff)
next
  case False
  let ?st = "st\<lparr>ps_paths := put_path p k (ps_paths st)\<rparr>"
  have noted: "noted ?st q \<longleftrightarrow> noted st q \<or> q = p" for q
    by (auto simp: noted_def put_path_keys)
  show ?thesis
  proof (cases "length (ps_paths ?st) > MAX_PENDING_PATHS")
    case True
    have "pending_inv (?st\<lparr>ps_paths := []\<rparr>)" using inv by (simp add: pending_inv_def)
    note c = collapse_fold [OF this, of "top_of roots" "map fst (ps_paths ?st)"]
    have "noted (collapse roots ?st) q" if "noted ?st q" for q
      using c that top_of_prefix by (fastforce simp: collapse_def noted_def)
    with True False c noted show ?thesis by (simp add: pending_change_def collapse_def)
  next
    case small: False
    have "pending_inv ?st"
      using inv False small put_path_distinct
      by (auto simp: pending_inv_def put_path_keys list_ex_iff)
    with False small noted show ?thesis by (simp add: pending_change_def)
  qed
qed

section \<open>Nothing is lost\<close>

datatype pending_op = OpChange path watch_event_kind | OpRescan path | OpClose

fun pending_apply :: "path list \<Rightarrow> pending_state \<Rightarrow> pending_op \<Rightarrow> pending_state" where
  "pending_apply roots st (OpChange p k) = pending_change roots st p k"
| "pending_apply roots st (OpRescan d) = pending_rescan st d"
| "pending_apply roots st OpClose = pending_close st"

fun op_concerns :: "pending_op \<Rightarrow> path \<Rightarrow> bool" where
  "op_concerns (OpChange p k) q \<longleftrightarrow> q = p"
| "op_concerns (OpRescan d) q \<longleftrightarrow> prefix d q"
| "op_concerns OpClose q \<longleftrightarrow> False"

lemma apply_spec:
  assumes "pending_inv st"
  shows "pending_inv (pending_apply roots st op)
    \<and> (\<forall>q. noted st q \<or> op_concerns op q \<longrightarrow> noted (pending_apply roots st op) q)"
proof (cases op)
  case (OpChange p k)
  with change_spec [OF assms, of roots p k] show ?thesis by auto
next
  case (OpRescan d)
  with assms show ?thesis
    by (simp add: pending_rescan_def insert_rescan_inv insert_rescan_noted)
next
  case OpClose
  with assms show ?thesis by (simp add: pending_close_def pending_inv_def noted_def)
qed

text \<open>The operations never refuse: a machine whose every step succeeds.\<close>

definition pending_step :: "path list \<Rightarrow> pending_state \<Rightarrow> pending_op \<Rightarrow> unit + pending_state" where
  "pending_step roots st op = Inr (pending_apply roots st op)"

interpretation pending: guarded_machine "pending_step roots" pending_inv
  by unfold_locales (use apply_spec in \<open>auto simp: pending_step_def\<close>)

lemma run_pending: "run_events (pending_step roots) st ops = foldl (pending_apply roots) st ops"
  by (induction ops arbitrary: st) (simp_all add: attempt_step_def pending_step_def)

lemma run_noted:
  "pending_inv st \<Longrightarrow> noted st q \<or> (\<exists>op \<in> set ops. op_concerns op q) \<Longrightarrow>
     noted (foldl (pending_apply roots) st ops) q"
proof (induction ops arbitrary: st)
  case (Cons op ops)
  note sp = apply_spec [OF Cons.prems(1), of roots op]
  have "noted (pending_apply roots st op) q \<or> (\<exists>op' \<in> set ops. op_concerns op' q)"
    using Cons.prems(2) sp by auto
  with Cons.IH [OF conjunct1 [OF sp]] show ?case by simp
qed simp

text \<open>What a batch tells its reader to look at.\<close>

definition batch_tells :: "batch \<Rightarrow> path \<Rightarrow> bool" where
  "batch_tells b p \<longleftrightarrow> p \<in> fst ` set (b_paths b) \<or> (\<exists>d \<in> set (b_rescans b). prefix d p)"

lemma take_tells:
  assumes "noted st p"
  shows "\<exists>b. fst (take_batch st) = Some b \<and> batch_tells b p"
proof -
  have "\<not> batch_is_empty \<lparr>b_paths = ps_paths st, b_rescans = ps_rescans st\<rparr>"
    using assms by (auto simp: noted_def batch_is_empty_def)
  with assms show ?thesis by (simp add: take_batch_def Let_def noted_def batch_tells_def)
qed

lemma pending_new_inv: "pending_inv pending_new"
  by (simp add: pending_inv_def pending_new_def antichain_def)

lemma take_inv: "pending_inv st \<Longrightarrow> pending_inv (snd (take_batch st))"
  by (simp add: take_batch_def Let_def pending_inv_def antichain_def)

section \<open>Delivery\<close>

lemma relative_under:
  "relative roots p = Some rel \<Longrightarrow> \<exists>r \<in> set roots. p = r @ rel"
  by (induction roots p rule: relative.induct) (auto simp: strip_prefix_Some split: option.splits)

text \<open>
  A scope that covers a path overlaps every directory that holds it, so it hears the rescan when
  changes under that directory were lost. Prefixes are the exception.
\<close>

lemma covers_overlaps:
  assumes "scope_covers s rel" "s_prefixes s = []" "strict_prefix dir rel"
  shows "scope_overlaps s dir"
proof -
  have "length dir < length rel" using assms(3) by (rule prefix_length_less)
  then have "length rel = 1 \<Longrightarrow> dir = []" by simp
  then show ?thesis
    using assms prefix_same_cases [of dir rel]
    by (auto simp: scope_covers_def scope_overlaps_def list_ex_iff strict_prefix_def)
qed

lemma prefix_scope_misses_rescan:
  "let s = \<lparr>s_files = [], s_dirs = [], s_prefixes = [''.oxplow/m''], s_top_level = False,
            s_all_kept = False\<rparr>
   in scope_covers s [''.oxplow'', ''marker''] \<and> \<not> scope_overlaps s [''.oxplow'']"
  by (simp add: scope_covers_def scope_overlaps_def path_text_def)

section \<open>Properties\<close>

text \<open>
  Whatever changes, rescans and closes a subscription is told of, its state stays within its
  cap, holds each path once, holds no rescan inside another, and no path a rescan already covers.
\<close>

theorem pending_stays_bounded: "pending_inv (run_events (pending_step roots) pending_new ops)"
  by (rule pending.run_inv [OF pending_new_inv])

text \<open>
  C27. Nothing is dropped silently: every path a change named, and every path under a rescanned
  directory, is told by the next batch, as itself or under one of its rescans, however many
  operations came between and whether or not they collapsed.
\<close>

theorem next_batch_tells_everything:
  assumes "op \<in> set ops" and "op_concerns op p"
  shows "\<exists>b. fst (take_batch (run_events (pending_step roots) pending_new ops)) = Some b
    \<and> batch_tells b p \<and> length (b_paths b) \<le> MAX_PENDING_PATHS \<and> antichain (b_rescans b)"
proof -
  let ?st = "run_events (pending_step roots) pending_new ops"
  have "noted ?st p" using run_noted [OF pending_new_inv] assms by (auto simp: run_pending)
  from take_tells [OF this] obtain b where b: "fst (take_batch ?st) = Some b" "batch_tells b p"
    by blast
  have "pending_inv ?st" by (rule pending.run_inv [OF pending_new_inv])
  with b show ?thesis
    by (auto simp: take_batch_def Let_def pending_inv_def split: if_splits)
qed

lemma next_batch_tells_everything_witness:
  "\<exists>b. fst (take_batch (run_events (pending_step [[''/'', ''w'']]) pending_new
        [OpChange [''/'', ''w'', ''a'', ''b''] Modified, OpRescan [''/'', ''w'', ''a''], OpClose])) = Some b
    \<and> batch_tells b [''/'', ''w'', ''a'', ''b''] \<and> length (b_paths b) \<le> MAX_PENDING_PATHS
    \<and> antichain (b_rescans b)"
  by (rule next_batch_tells_everything [where op = "OpChange [''/'', ''w'', ''a'', ''b''] Modified"])
    simp_all

text \<open>
  A scope of files, directories and the top level that covers a path hears the loss of changes
  under any directory that holds the path.
\<close>

theorem scopes_hear_losses:
  assumes "scope_covers s rel" and "s_prefixes s = []" and "strict_prefix dir rel"
  shows "scope_overlaps s dir"
  by (rule covers_overlaps [OF assms])

lemma scopes_hear_losses_witness:
  "scope_overlaps
     \<lparr>s_files = [[''a'', ''b'']], s_dirs = [], s_prefixes = [], s_top_level = False,
      s_all_kept = False\<rparr> [''a'']"
  by (rule scopes_hear_losses [where rel = "[''a'', ''b'']"])
    (simp_all add: scope_covers_def strict_prefix_def)

end
