(* ===== verification/Watch_Filter.thy ===== *)
theory Watch_Filter
  imports Fs_Watch "HOL-Library.AList"
begin

text \<open>
  \<open>oxplow-fs-watch/src/filter.rs\<close>: which workspace paths are ignored. The filter's handle is its
  state: the settings, and three caches (each a \<open>HashMap\<close>: an association list with distinct keys)
  that every question may fill. The \<open>ignore\<close> crate is the parameter \<open>ignore_lib\<close>, the disk a
  record of what is read from it; both are read when a directory is first judged. The locks make
  each access atomic; a question here runs undisturbed.

  The lemmas: whatever the caches hold, an answer is the one a filter with empty caches gives over
  the same disk, and the caches stay bounded.
\<close>

section \<open>Settings, disk and library\<close>

datatype filter_entry = Segment string | EntryPath path

record settings =
  f_root :: path
  f_global :: "path option"
  f_exclude :: "filter_entry list"
  f_include :: "filter_entry list"

record 'g filter_state = settings +
  f_rules :: "(path \<times> 'g option) list"
  f_chains :: "(path \<times> 'g list) list"
  f_dirs :: "(path \<times> bool) list"

record disk =
  d_dir :: "path \<Rightarrow> bool"
  d_file :: "path \<Rightarrow> bool"
  d_text :: "path \<Rightarrow> string option"
  d_children :: "path \<Rightarrow> (string \<times> bool) list option"

datatype verdict = VNone | VIgnore | VWhitelist

text \<open>
  The \<open>ignore\<close> crate: a matcher built for a directory from ignore files as they are on the disk,
  the directory of a matcher, and what it says of a path or any directory above it.
\<close>

record 'g ignore_lib =
  gi_build :: "disk \<Rightarrow> path \<Rightarrow> path list \<Rightarrow> 'g option"
  gi_empty :: 'g
  gi_path :: "'g \<Rightarrow> path"
  gi_matched :: "'g \<Rightarrow> path \<Rightarrow> bool \<Rightarrow> verdict"

definition MAX_REMEMBERED_DIRS :: nat where "MAX_REMEMBERED_DIRS = 200000"

definition EXCLUDE_IN_GIT_DIR :: path where "EXCLUDE_IN_GIT_DIR = [''info'', ''exclude'']"
definition EXCLUDE_FILE :: path where "EXCLUDE_FILE = [''.git'', ''info'', ''exclude'']"

definition is_ignore_file :: "path \<Rightarrow> bool" where
  "is_ignore_file p \<longleftrightarrow> file_name p = Some ''.gitignore'' \<or> suffix EXCLUDE_FILE p"

definition option_list :: "'a option \<Rightarrow> 'a list" where
  "option_list x = (case x of Some a \<Rightarrow> [a] | None \<Rightarrow> [])"

section \<open>The lists of the project\<close>

definition parse_filter_entry :: "string \<Rightarrow> filter_entry option" where
  "parse_filter_entry raw =
     (let trimmed = trim_slashes (trim raw) in
      if trimmed = [] then None
      else if CHR ''/'' \<in> set trimmed then Some (EntryPath (path_of_text trimmed))
      else Some (Segment trimmed))"

definition parse_filter_entries :: "string list \<Rightarrow> filter_entry list" where
  "parse_filter_entries raws = List.map_filter parse_filter_entry raws"

fun matches_entry :: "path \<Rightarrow> filter_entry \<Rightarrow> bool" where
  "matches_entry p (Segment seg) \<longleftrightarrow> list_ex (\<lambda>c. normal c \<and> c = seg) p"
| "matches_entry p (EntryPath q) \<longleftrightarrow> p = q \<or> prefix q p"

definition matches_filter_entries :: "filter_entry list \<Rightarrow> path \<Rightarrow> bool" where
  "matches_filter_entries entries p = list_ex (matches_entry p) entries"

section \<open>The ignore files\<close>

definition exclude_file :: "disk \<Rightarrow> path \<Rightarrow> path option" where
  "exclude_file d root =
     (let git = join_path root [''.git''] in
      if d_dir d git then Some (join_path git EXCLUDE_IN_GIT_DIR)
      else case d_text d git of
        None \<Rightarrow> None
      | Some pointer \<Rightarrow>
          (case strip_prefix ''gitdir:'' pointer of
             None \<Rightarrow> None
           | Some r \<Rightarrow>
               (let git_dir = join_path root (path_of_text (trim r));
                    common = (case d_text d (join_path git_dir [''commondir'']) of
                        Some c \<Rightarrow> join_path git_dir (path_of_text (trim c))
                      | None \<Rightarrow> git_dir)
                in Some (join_path common EXCLUDE_IN_GIT_DIR))))"

definition root_gitignore :: "'g ignore_lib \<Rightarrow> disk \<Rightarrow> path \<Rightarrow> path option \<Rightarrow> 'g" where
  "root_gitignore lib d root global =
     (case gi_build lib d root
         (option_list global @ option_list (exclude_file d root) @ [join_path root [''.gitignore'']])
      of Some g \<Rightarrow> g | None \<Rightarrow> gi_empty lib)"

definition folder_gitignore :: "'g ignore_lib \<Rightarrow> disk \<Rightarrow> path \<Rightarrow> 'g option" where
  "folder_gitignore lib d dir =
     (let p = join_path dir [''.gitignore''] in
      if \<not> d_file d p then None else gi_build lib d dir [p])"

definition gitignore_decision :: "'g ignore_lib \<Rightarrow> 'g list \<Rightarrow> path \<Rightarrow> bool \<Rightarrow> verdict" where
  "gitignore_decision lib gis p is_dir =
     foldl (\<lambda>decision gi.
         if prefix (gi_path lib gi) p
         then (case gi_matched lib gi p is_dir of VNone \<Rightarrow> decision | v \<Rightarrow> v)
         else decision) VNone gis"

section \<open>The caches\<close>

definition dir_of :: "path \<Rightarrow> path" where
  "dir_of p = (case parent p of Some q \<Rightarrow> q | None \<Rightarrow> [])"

lemma dir_of_shorter: "p \<noteq> [] \<Longrightarrow> length (dir_of p) < length p"
  by (auto simp: dir_of_def parent_def)

text \<open>A bounded cache starts over when it is full.\<close>

definition remember :: "'k \<Rightarrow> 'v \<Rightarrow> ('k \<times> 'v) list \<Rightarrow> ('k \<times> 'v) list" where
  "remember k v m = AList.update k v (if length m \<ge> MAX_REMEMBERED_DIRS then [] else m)"

definition read_rules :: "'g ignore_lib \<Rightarrow> disk \<Rightarrow> 'a settings_scheme \<Rightarrow> path \<Rightarrow> 'g option" where
  "read_rules lib d s dir =
     (if dir = [] then Some (root_gitignore lib d (f_root s) (f_global s))
      else folder_gitignore lib d (join_path (f_root s) dir))"

definition rules_of :: "'g ignore_lib \<Rightarrow> disk \<Rightarrow> 'g filter_state \<Rightarrow> path \<Rightarrow> 'g option \<times> 'g filter_state" where
  "rules_of lib d s dir =
     (case map_of (f_rules s) dir of
        Some rules \<Rightarrow> (rules, s)
      | None \<Rightarrow>
          (let rules = read_rules lib d s dir in
           (rules, s\<lparr>f_rules := AList.update dir rules (f_rules s)\<rparr>)))"

definition remember_chain :: "path \<Rightarrow> 'g list \<times> 'g filter_state \<Rightarrow> 'g list \<times> 'g filter_state" where
  "remember_chain dir r =
     (case r of (chain, s) \<Rightarrow> (chain, s\<lparr>f_chains := remember dir chain (f_chains s)\<rparr>))"

function chain_of :: "'g ignore_lib \<Rightarrow> disk \<Rightarrow> 'g filter_state \<Rightarrow> path \<Rightarrow> 'g list \<times> 'g filter_state" where
  "chain_of lib d s dir =
     (case map_of (f_chains s) dir of
        Some chain \<Rightarrow> (chain, s)
      | None \<Rightarrow> remember_chain dir
          (if f_root s = [] then ([], s)
           else if dir = [] then
             (case rules_of lib d s dir of (rules, s1) \<Rightarrow> (option_list rules, s1))
           else
             (case chain_of lib d s (dir_of dir) of (upper, s1) \<Rightarrow>
                if suffix [''.git''] dir
                  \<or> gitignore_decision lib upper (join_path (f_root s) dir) True = VIgnore
                then (upper, s1)
                else
                  (case rules_of lib d s1 dir of
                     (Some rules, s2) \<Rightarrow> (upper @ [rules], s2)
                   | (None, s2) \<Rightarrow> (upper, s2)))))"
  by pat_completeness auto
termination
  by (relation "measure (\<lambda>(lib, d, s, dir). length dir)") (simp_all add: dir_of_shorter)

declare chain_of.simps [simp del]

definition from_root :: "path \<Rightarrow> path \<Rightarrow> path option" where
  "from_root root p = (if is_absolute p then strip_prefix root p else Some p)"

definition git_decision ::
  "'g ignore_lib \<Rightarrow> disk \<Rightarrow> 'g filter_state \<Rightarrow> path \<Rightarrow> bool \<Rightarrow> verdict \<times> 'g filter_state" where
  "git_decision lib d s p is_dir =
     (case from_root (f_root s) p of
        None \<Rightarrow> (VNone, s)
      | Some rel \<Rightarrow>
          (case chain_of lib d s (dir_of rel) of (chain, s1) \<Rightarrow>
             (gitignore_decision lib chain (join_path (f_root s) rel) is_dir, s1)))"

section \<open>Questions\<close>

text \<open>What the defaults say of a path: an answer, one left to git, or nothing.\<close>

datatype default_rule = Keep | Drop | ByGit | ByNegation | NoRule

definition DEFAULT_IGNORED_SEGMENTS :: "string list" where
  "DEFAULT_IGNORED_SEGMENTS = [''.git'']"

definition oxplow_rule :: "bool \<Rightarrow> bool \<Rightarrow> string option \<Rightarrow> default_rule" where
  "oxplow_rule is_dir watching nxt =
     (case nxt of
        None \<Rightarrow> Keep
      | Some n \<Rightarrow>
          if n = ''wiki'' \<and> watching then Keep
          else if n = ''extensions'' \<and> \<not> watching then ByGit
          else if n = ''extensions'' then Keep
          else if is_dir then Drop
          else ByNegation)"

fun default_of :: "bool \<Rightarrow> bool \<Rightarrow> path \<Rightarrow> default_rule" where
  "default_of is_dir watching [] = NoRule"
| "default_of is_dir watching (c # cs) =
     (if \<not> normal c then default_of is_dir watching cs
      else if c = ''.oxplow'' then
        oxplow_rule is_dir watching
          (case cs of n # _ \<Rightarrow> if normal n then Some n else None | [] \<Rightarrow> None)
      else if c \<in> set DEFAULT_IGNORED_SEGMENTS then Drop
      else default_of is_dir watching cs)"

definition decide_path ::
  "'g ignore_lib \<Rightarrow> disk \<Rightarrow> 'g filter_state \<Rightarrow> path \<Rightarrow> bool \<Rightarrow> bool \<Rightarrow> bool \<times> 'g filter_state" where
  "decide_path lib d s p is_dir watching =
     (case default_of is_dir watching p of
        Keep \<Rightarrow> (False, s)
      | Drop \<Rightarrow> (True, s)
      | ByGit \<Rightarrow> (case git_decision lib d s p is_dir of (v, s1) \<Rightarrow> (v = VIgnore, s1))
      | ByNegation \<Rightarrow> (case git_decision lib d s p is_dir of (v, s1) \<Rightarrow> (v \<noteq> VWhitelist, s1))
      | NoRule \<Rightarrow>
          if matches_filter_entries (f_include s) p then (False, s)
          else if matches_filter_entries (f_exclude s) p then (True, s)
          else if p = [] then (False, s)
          else (case git_decision lib d s p is_dir of (v, s1) \<Rightarrow> (v = VIgnore, s1)))"

definition ignore :: "'g ignore_lib \<Rightarrow> disk \<Rightarrow> 'g filter_state \<Rightarrow> path \<Rightarrow> bool \<Rightarrow> bool \<times> 'g filter_state" where
  "ignore lib d s p is_dir = decide_path lib d s p is_dir True"

definition ignore_in_trees ::
  "'g ignore_lib \<Rightarrow> disk \<Rightarrow> 'g filter_state \<Rightarrow> path \<Rightarrow> bool \<Rightarrow> bool \<times> 'g filter_state" where
  "ignore_in_trees lib d s p is_dir = decide_path lib d s p is_dir False"

definition dir_ignored :: "'g ignore_lib \<Rightarrow> disk \<Rightarrow> 'g filter_state \<Rightarrow> path \<Rightarrow> bool \<times> 'g filter_state" where
  "dir_ignored lib d s dir =
     (case map_of (f_dirs s) dir of
        Some ignored \<Rightarrow> (ignored, s)
      | None \<Rightarrow>
          (case ignore lib d s dir True of (ignored, s1) \<Rightarrow>
             (ignored, s1\<lparr>f_dirs := remember dir ignored (f_dirs s1)\<rparr>)))"

text \<open>\<open>any\<close> over questions that may change the state: it stops at the first yes.\<close>

fun ask_any :: "('s \<Rightarrow> 'q \<Rightarrow> bool \<times> 's) \<Rightarrow> 's \<Rightarrow> 'q list \<Rightarrow> bool \<times> 's" where
  "ask_any ask s [] = (False, s)"
| "ask_any ask s (q # qs) =
     (case ask s q of (yes, s1) \<Rightarrow> if yes then (True, s1) else ask_any ask s1 qs)"

definition dirs_above :: "path \<Rightarrow> path list" where
  "dirs_above p = rev (butlast (tl (ancestors p)))"

definition ignore_change ::
  "'g ignore_lib \<Rightarrow> disk \<Rightarrow> 'g filter_state \<Rightarrow> path \<Rightarrow> bool \<Rightarrow> bool \<times> 'g filter_state" where
  "ignore_change lib d s p is_dir =
     (case (if f_include s = [] then ask_any (dir_ignored lib d) s (dirs_above p) else (False, s)) of
        (yes, s1) \<Rightarrow> if yes then (True, s1) else ignore lib d s1 p is_dir)"

section \<open>Changes\<close>

definition filter_new :: "path \<Rightarrow> string list \<Rightarrow> string list \<Rightarrow> path option \<Rightarrow> 'g filter_state" where
  "filter_new root exclude include global =
     \<lparr>f_root = root, f_global = global, f_exclude = parse_filter_entries exclude,
      f_include = parse_filter_entries include, f_rules = [], f_chains = [], f_dirs = []\<rparr>"

definition forget_decisions :: "'g filter_state \<Rightarrow> 'g filter_state" where
  "forget_decisions s = s\<lparr>f_chains := [], f_dirs := []\<rparr>"

definition set_user_entries ::
  "'g filter_state \<Rightarrow> string list \<Rightarrow> string list \<Rightarrow> bool \<times> 'g filter_state" where
  "set_user_entries s exclude include =
     (let ex = parse_filter_entries exclude; inc = parse_filter_entries include in
      if f_exclude s = ex \<and> f_include s = inc then (False, s)
      else (True, forget_decisions (s\<lparr>f_exclude := ex, f_include := inc\<rparr>)))"

text \<open>The directory whose rules an ignore file holds.\<close>

definition ruled_dir :: "path \<Rightarrow> path" where
  "ruled_dir p = (if is_absolute p \<or> suffix EXCLUDE_FILE p then [] else dir_of p)"

definition note_ignore_file :: "'g filter_state \<Rightarrow> path \<Rightarrow> 'g filter_state" where
  "note_ignore_file s p = forget_decisions (s\<lparr>f_rules := AList.delete (ruled_dir p) (f_rules s)\<rparr>)"

definition forget_rules :: "'g filter_state \<Rightarrow> 'g filter_state" where
  "forget_rules s = forget_decisions (s\<lparr>f_rules := []\<rparr>)"

definition should_ignore_workspace_watch_path :: "'g ignore_lib \<Rightarrow> disk \<Rightarrow> path \<Rightarrow> bool" where
  "should_ignore_workspace_watch_path lib d p = fst (ignore lib d (filter_new [] [] [] None) p False)"


section \<open>What the answers are without caches\<close>

function pure_chain :: "'g ignore_lib \<Rightarrow> disk \<Rightarrow> settings \<Rightarrow> path \<Rightarrow> 'g list" where
  "pure_chain lib d st dir =
     (if f_root st = [] then []
      else if dir = [] then option_list (read_rules lib d st [])
      else
        (let upper = pure_chain lib d st (dir_of dir) in
         if suffix [''.git''] dir
           \<or> gitignore_decision lib upper (join_path (f_root st) dir) True = VIgnore
         then upper
         else upper @ option_list (read_rules lib d st dir)))"
  by pat_completeness auto
termination
  by (relation "measure (\<lambda>(lib, d, st, dir). length dir)") (simp_all add: dir_of_shorter)

declare pure_chain.simps [simp del]

definition pure_git :: "'g ignore_lib \<Rightarrow> disk \<Rightarrow> settings \<Rightarrow> path \<Rightarrow> bool \<Rightarrow> verdict" where
  "pure_git lib d st p is_dir =
     (case from_root (f_root st) p of
        None \<Rightarrow> VNone
      | Some rel \<Rightarrow>
          gitignore_decision lib (pure_chain lib d st (dir_of rel)) (join_path (f_root st) rel) is_dir)"

definition pure_decide :: "'g ignore_lib \<Rightarrow> disk \<Rightarrow> settings \<Rightarrow> path \<Rightarrow> bool \<Rightarrow> bool \<Rightarrow> bool" where
  "pure_decide lib d st p is_dir watching =
     (case default_of is_dir watching p of
        Keep \<Rightarrow> False
      | Drop \<Rightarrow> True
      | ByGit \<Rightarrow> pure_git lib d st p is_dir = VIgnore
      | ByNegation \<Rightarrow> pure_git lib d st p is_dir \<noteq> VWhitelist
      | NoRule \<Rightarrow>
          \<not> matches_filter_entries (f_include st) p
          \<and> (matches_filter_entries (f_exclude st) p
              \<or> p \<noteq> [] \<and> pure_git lib d st p is_dir = VIgnore))"

definition pure_ignore_change :: "'g ignore_lib \<Rightarrow> disk \<Rightarrow> settings \<Rightarrow> path \<Rightarrow> bool \<Rightarrow> bool" where
  "pure_ignore_change lib d st p is_dir \<longleftrightarrow>
     (f_include st = [] \<and> (\<exists>dir \<in> set (dirs_above p). pure_decide lib d st dir True True))
     \<or> pure_decide lib d st p is_dir True"

section \<open>The caches are transparent\<close>

text \<open>A question that may fill caches, and an answer that depends on what they do not touch.\<close>

locale memo =
  fixes ask :: "'s \<Rightarrow> 'q \<Rightarrow> 'a \<times> 's"
    and ok :: "'s \<Rightarrow> bool"
    and view :: "'s \<Rightarrow> 'v"
    and answer :: "'v \<Rightarrow> 'q \<Rightarrow> 'a"
  assumes ask_answer: "ok s \<Longrightarrow> fst (ask s q) = answer (view s) q"
    and ask_ok: "ok s \<Longrightarrow> ok (snd (ask s q))"
    and ask_view: "ok s \<Longrightarrow> view (snd (ask s q)) = view s"
begin

lemma ask_cases:
  assumes "ok s"
  obtains s1 where "ask s q = (answer (view s) q, s1)" "ok s1" "view s1 = view s"
  using that [of "snd (ask s q)"] ask_answer [OF assms] ask_ok [OF assms] ask_view [OF assms]
  by (metis prod.collapse)

lemma same_answer: "ok s \<Longrightarrow> ok t \<Longrightarrow> view s = view t \<Longrightarrow> fst (ask s q) = fst (ask t q)"
  by (simp add: ask_answer)

end

locale yes_no = memo ask ok view answer
  for ask :: "'s \<Rightarrow> 'q \<Rightarrow> bool \<times> 's" and ok and view :: "'s \<Rightarrow> 'v" and answer
begin

lemma ask_any_spec:
  "ok s \<Longrightarrow> fst (ask_any ask s qs) = (\<exists>q \<in> set qs. answer (view s) q)
     \<and> ok (snd (ask_any ask s qs)) \<and> view (snd (ask_any ask s qs)) = view s"
proof (induction qs arbitrary: s)
  case (Cons q qs)
  from Cons.prems obtain s1 where "ask s q = (answer (view s) q, s1)" "ok s1" "view s1 = view s"
    by (rule ask_cases)
  with Cons.IH [of s1] show ?case by auto
qed simp

end

definition cache_ok :: "('k \<times> 'v) list \<Rightarrow> ('k \<Rightarrow> 'v) \<Rightarrow> bool" where
  "cache_ok m f \<longleftrightarrow> distinct (map fst m) \<and> (\<forall>k v. map_of m k = Some v \<longrightarrow> v = f k)"

lemma cache_ok_Nil [simp]: "cache_ok [] f"
  by (simp add: cache_ok_def)

lemma cache_ok_update: "cache_ok m f \<Longrightarrow> v = f k \<Longrightarrow> cache_ok (AList.update k v m) f"
  by (auto simp: cache_ok_def update_conv' distinct_update split: if_splits)

lemma cache_ok_delete:
  "cache_ok m f \<Longrightarrow> (\<And>k'. k' \<in> fst ` set m \<Longrightarrow> k' \<noteq> k \<Longrightarrow> g k' = f k')
     \<Longrightarrow> cache_ok (AList.delete k m) g"
  by (force simp: cache_ok_def delete_conv' distinct_delete dest: map_of_SomeD)

lemma cache_ok_remember: "cache_ok m f \<Longrightarrow> v = f k \<Longrightarrow> cache_ok (remember k v m) f"
  by (simp add: remember_def cache_ok_update)

lemma length_update: "length (AList.update k v m) \<le> Suc (length m)"
  by (induction m) auto

lemma remember_bound: "length m \<le> MAX_REMEMBERED_DIRS \<Longrightarrow> length (remember k v m) \<le> MAX_REMEMBERED_DIRS"
  using length_update [of k v m] by (auto simp: remember_def MAX_REMEMBERED_DIRS_def)

abbreviation settings_of :: "'g filter_state \<Rightarrow> settings" where
  "settings_of \<equiv> settings.truncate"

lemma settings_of_simps [simp]:
  "f_root (settings_of s) = f_root s"
  "f_global (settings_of s) = f_global s"
  "f_exclude (settings_of s) = f_exclude s"
  "f_include (settings_of s) = f_include s"
  "settings_of (s\<lparr>f_rules := r\<rparr>) = settings_of s"
  "settings_of (s\<lparr>f_chains := c\<rparr>) = settings_of s"
  "settings_of (s\<lparr>f_dirs := ds\<rparr>) = settings_of s"
  by (simp_all add: settings.defs)

lemma read_rules_settings [simp]: "read_rules lib d (settings_of s) = read_rules lib d s"
  by (simp add: read_rules_def fun_eq_iff)

definition caches_ok :: "'g ignore_lib \<Rightarrow> disk \<Rightarrow> 'g filter_state \<Rightarrow> bool" where
  "caches_ok lib d s \<longleftrightarrow>
     cache_ok (f_rules s) (read_rules lib d s)
     \<and> cache_ok (f_chains s) (pure_chain lib d (settings_of s))
     \<and> cache_ok (f_dirs s) (\<lambda>dir. pure_decide lib d (settings_of s) dir True True)
     \<and> length (f_chains s) \<le> MAX_REMEMBERED_DIRS
     \<and> length (f_dirs s) \<le> MAX_REMEMBERED_DIRS"

lemma read_rules_update [simp]:
  "read_rules lib d (s\<lparr>f_rules := r\<rparr>) = read_rules lib d s"
  "read_rules lib d (s\<lparr>f_chains := c\<rparr>) = read_rules lib d s"
  "read_rules lib d (s\<lparr>f_dirs := ds\<rparr>) = read_rules lib d s"
  by (simp_all add: read_rules_def fun_eq_iff)

lemma caches_ok_rule:
  "caches_ok lib d s \<Longrightarrow> map_of (f_rules s) dir = Some r \<Longrightarrow> r = read_rules lib d s dir"
  by (simp add: caches_ok_def cache_ok_def)

lemma caches_ok_chain:
  "caches_ok lib d s \<Longrightarrow> map_of (f_chains s) dir = Some c \<Longrightarrow> c = pure_chain lib d (settings_of s) dir"
  by (simp add: caches_ok_def cache_ok_def)

lemma caches_ok_dir:
  "caches_ok lib d s \<Longrightarrow> map_of (f_dirs s) dir = Some b
     \<Longrightarrow> b = pure_decide lib d (settings_of s) dir True True"
  by (simp add: caches_ok_def cache_ok_def)

interpretation rules: memo "rules_of lib d" "caches_ok lib d" settings_of "read_rules lib d"
  by unfold_locales
    (auto simp: rules_of_def caches_ok_rule Let_def caches_ok_def cache_ok_update
      dest: caches_ok_rule split: option.splits)

lemma remember_chain_ok:
  assumes "caches_ok lib d s" "chain = pure_chain lib d (settings_of s) dir"
  shows "caches_ok lib d (snd (remember_chain dir (chain, s)))"
  using assms by (simp add: remember_chain_def caches_ok_def cache_ok_remember remember_bound)

lemma remember_chain_same [simp]:
  "fst (remember_chain dir r) = fst r"
  "settings_of (snd (remember_chain dir r)) = settings_of (snd r)"
  by (simp_all add: remember_chain_def split: prod.splits)

lemma chain_of_spec:
  "caches_ok lib d s \<Longrightarrow>
     fst (chain_of lib d s dir) = pure_chain lib d (settings_of s) dir
     \<and> caches_ok lib d (snd (chain_of lib d s dir))
     \<and> settings_of (snd (chain_of lib d s dir)) = settings_of s"
proof (induction lib d s dir rule: chain_of.induct)
  case (1 lib d s dir)
  show ?case
  proof (cases "map_of (f_chains s) dir")
    case (Some c)
    with caches_ok_chain [OF "1.prems" Some] "1.prems" show ?thesis
      by (simp add: chain_of.simps [of lib d s dir])
  next
    case None
    have step: "?thesis" if eq: "chain_of lib d s dir = remember_chain dir (c, t)"
      and "caches_ok lib d t" "settings_of t = settings_of s"
      "c = pure_chain lib d (settings_of s) dir" for c t
      using that remember_chain_ok [of lib d t c dir] by simp
    consider (no_root) "f_root s = []" | (top) "f_root s \<noteq> []" "dir = []"
      | (below) "f_root s \<noteq> []" "dir \<noteq> []" by blast
    then show ?thesis
    proof cases
      case no_root
      with None "1.prems" show ?thesis
        by (intro step [of "[]" s])
          (simp_all add: chain_of.simps [of lib d s dir] pure_chain.simps [of lib d _ dir])
    next
      case top
      obtain t where "rules_of lib d s [] = (read_rules lib d (settings_of s) [], t)"
        "caches_ok lib d t" "settings_of t = settings_of s"
        by (rule rules.ask_cases [OF "1.prems"])
      with top None show ?thesis
        by (intro step [of "option_list (read_rules lib d s [])" t])
          (simp_all add: chain_of.simps [of lib d s "[]"] pure_chain.simps [of lib d _ "[]"])
    next
      case below
      let ?upper = "pure_chain lib d (settings_of s) (dir_of dir)"
      from "1.IH" [OF None below "1.prems"] obtain t
        where t: "chain_of lib d s (dir_of dir) = (?upper, t)" "caches_ok lib d t"
          "settings_of t = settings_of s"
        by (metis prod.collapse)
      obtain u where u: "rules_of lib d t dir = (read_rules lib d (settings_of t) dir, u)"
        "caches_ok lib d u" "settings_of u = settings_of t"
        by (rule rules.ask_cases [OF t(2)])
      have rr: "read_rules lib d t = read_rules lib d s"
        using t(3) by (metis read_rules_settings)
      show ?thesis
      proof (cases "suffix [''.git''] dir
          \<or> gitignore_decision lib ?upper (join_path (f_root s) dir) True = VIgnore")
        case True
        with t below None show ?thesis
          by (intro step [of ?upper t])
            (simp_all add: chain_of.simps [of lib d s dir] pure_chain.simps [of lib d _ dir])
      next
        case False
        with t u below None rr show ?thesis
          by (intro step [of "?upper @ option_list (read_rules lib d s dir)" u])
            (simp_all add: chain_of.simps [of lib d s dir] pure_chain.simps [of lib d _ dir]
              option_list_def split: option.splits)
      qed
    qed
  qed
qed

interpretation chains: memo "chain_of lib d" "caches_ok lib d" settings_of "pure_chain lib d"
  by unfold_locales (use chain_of_spec in blast)+

lemma git_decision_spec:
  assumes "caches_ok lib d s"
  obtains s1 where "git_decision lib d s p is_dir = (pure_git lib d (settings_of s) p is_dir, s1)"
    "caches_ok lib d s1" "settings_of s1 = settings_of s"
proof (cases "from_root (f_root s) p")
  case None
  with assms show ?thesis by (intro that [of s]) (simp_all add: git_decision_def pure_git_def)
next
  case (Some rel)
  obtain t where "chain_of lib d s (dir_of rel) = (pure_chain lib d (settings_of s) (dir_of rel), t)"
    "caches_ok lib d t" "settings_of t = settings_of s"
    by (rule chains.ask_cases [OF assms])
  with Some show ?thesis by (intro that [of t]) (simp_all add: git_decision_def pure_git_def)
qed

lemma decide_path_spec:
  assumes "caches_ok lib d s"
  shows "fst (decide_path lib d s p is_dir w) = pure_decide lib d (settings_of s) p is_dir w
     \<and> caches_ok lib d (snd (decide_path lib d s p is_dir w))
     \<and> settings_of (snd (decide_path lib d s p is_dir w)) = settings_of s"
proof -
  obtain s1 where "git_decision lib d s p is_dir = (pure_git lib d (settings_of s) p is_dir, s1)"
    "caches_ok lib d s1" "settings_of s1 = settings_of s"
    by (rule git_decision_spec [OF assms])
  with assms show ?thesis
    by (auto simp: decide_path_def pure_decide_def split: default_rule.splits)
qed

interpretation judged: yes_no "\<lambda>s (p, b). ignore lib d s p b" "caches_ok lib d" settings_of
  "\<lambda>st (p, b). pure_decide lib d st p b True"
  by unfold_locales (auto simp: ignore_def decide_path_spec)

interpretation in_trees: yes_no "\<lambda>s (p, b). ignore_in_trees lib d s p b" "caches_ok lib d" settings_of
  "\<lambda>st (p, b). pure_decide lib d st p b False"
  by unfold_locales (auto simp: ignore_in_trees_def decide_path_spec)

lemma dir_ignored_spec:
  assumes "caches_ok lib d s"
  shows "fst (dir_ignored lib d s dir) = pure_decide lib d (settings_of s) dir True True
     \<and> caches_ok lib d (snd (dir_ignored lib d s dir))
     \<and> settings_of (snd (dir_ignored lib d s dir)) = settings_of s"
proof (cases "map_of (f_dirs s) dir")
  case (Some b)
  with caches_ok_dir [OF assms Some] assms show ?thesis by (simp add: dir_ignored_def)
next
  case None
  obtain s1 where "(\<lambda>s (p, b). ignore lib d s p b) s (dir, True) =
      ((\<lambda>st (p, b). pure_decide lib d st p b True) (settings_of s) (dir, True), s1)"
    "caches_ok lib d s1" "settings_of s1 = settings_of s"
    by (rule judged.ask_cases [OF assms])
  with None show ?thesis
    by (simp add: dir_ignored_def caches_ok_def cache_ok_remember remember_bound)
qed

interpretation dirs: yes_no "dir_ignored lib d" "caches_ok lib d" settings_of
  "\<lambda>st dir. pure_decide lib d st dir True True"
  by unfold_locales (use dir_ignored_spec in blast)+

lemma ignore_change_spec:
  assumes "caches_ok lib d s"
  shows "fst (ignore_change lib d s p b) = pure_ignore_change lib d (settings_of s) p b
     \<and> caches_ok lib d (snd (ignore_change lib d s p b))
     \<and> settings_of (snd (ignore_change lib d s p b)) = settings_of s"
proof -
  define r where "r = (if f_include s = [] then ask_any (dir_ignored lib d) s (dirs_above p) else (False, s))"
  have r: "fst r = (f_include s = [] \<and> (\<exists>dir \<in> set (dirs_above p). pure_decide lib d (settings_of s) dir True True))"
    "caches_ok lib d (snd r)" "settings_of (snd r) = settings_of s"
    using dirs.ask_any_spec [OF assms, of "dirs_above p"] assms by (auto simp: r_def)
  have "ignore_change lib d s p b = (if fst r then (True, snd r) else ignore lib d (snd r) p b)"
    by (simp add: ignore_change_def r_def split: prod.splits)
  then show ?thesis
    using r decide_path_spec [OF r(2), of p b True]
    by (auto simp: pure_ignore_change_def ignore_def)
qed

interpretation changes: yes_no "\<lambda>s (p, b). ignore_change lib d s p b" "caches_ok lib d" settings_of
  "\<lambda>st (p, b). pure_ignore_change lib d st p b"
  by unfold_locales (auto simp: ignore_change_spec)

section \<open>What a filter lives through\<close>

text \<open>
  Of the directories whose rules the filter holds, the disk changes one at most: the one whose
  ignore file is noted.
\<close>

definition rules_change_at :: "'g ignore_lib \<Rightarrow> 'g filter_state \<Rightarrow> disk \<Rightarrow> disk \<Rightarrow> path \<Rightarrow> bool" where
  "rules_change_at lib s d d' dir \<longleftrightarrow>
     list_all (\<lambda>(dir', rules). dir' \<noteq> dir \<longrightarrow> read_rules lib d' s dir' = read_rules lib d s dir') (f_rules s)"

inductive filter_reach :: "'g ignore_lib \<Rightarrow> disk \<Rightarrow> 'g filter_state \<Rightarrow> bool" for lib where
  built: "filter_reach lib d (filter_new root exclude include global)"
| asked: "filter_reach lib d s \<Longrightarrow> filter_reach lib d (snd (ignore lib d s p b))"
| asked_in_trees: "filter_reach lib d s \<Longrightarrow> filter_reach lib d (snd (ignore_in_trees lib d s p b))"
| asked_of_change: "filter_reach lib d s \<Longrightarrow> filter_reach lib d (snd (ignore_change lib d s p b))"
| entries_set: "filter_reach lib d s \<Longrightarrow> filter_reach lib d (snd (set_user_entries s ex inc))"
| noted: "filter_reach lib d s \<Longrightarrow> rules_change_at lib s d d' (ruled_dir p)
    \<Longrightarrow> filter_reach lib d' (note_ignore_file s p)"
| forgot: "filter_reach lib d s \<Longrightarrow> filter_reach lib d' (forget_rules s)"
| disk_changed: "filter_reach lib d s \<Longrightarrow> read_rules lib d' s = read_rules lib d s
    \<Longrightarrow> filter_reach lib d' s"

lemma pure_chain_rules:
  "read_rules lib d' st = read_rules lib d st \<Longrightarrow> pure_chain lib d' st dir = pure_chain lib d st dir"
  by (induction lib d st dir rule: pure_chain.induct)
    (simp add: pure_chain.simps [of _ d'] pure_chain.simps Let_def)

lemma pure_decide_rules:
  assumes "read_rules lib d' st = read_rules lib d st"
  shows "pure_decide lib d' st p b w = pure_decide lib d st p b w"
proof -
  have "pure_git lib d' st p b = pure_git lib d st p b"
    by (simp add: pure_git_def pure_chain_rules [OF assms] split: option.splits)
  then show ?thesis by (simp add: pure_decide_def split: default_rule.splits)
qed

lemma filter_new_ok: "caches_ok lib d (filter_new root exclude include global)"
  by (simp add: caches_ok_def filter_new_def)

lemma forget_ok:
  "cache_ok (f_rules s) (read_rules lib d s) \<Longrightarrow> caches_ok lib d (forget_decisions s)"
  by (simp add: caches_ok_def forget_decisions_def read_rules_def)

lemma set_entries_ok: "caches_ok lib d s \<Longrightarrow> caches_ok lib d (snd (set_user_entries s ex inc))"
proof -
  assume ok: "caches_ok lib d s"
  have "caches_ok lib d (forget_decisions (s\<lparr>f_exclude := e, f_include := i\<rparr>))" for e i
  proof (rule forget_ok)
    have "read_rules lib d (s\<lparr>f_exclude := e, f_include := i\<rparr>) = read_rules lib d s"
      by (simp add: read_rules_def fun_eq_iff)
    with ok show "cache_ok (f_rules (s\<lparr>f_exclude := e, f_include := i\<rparr>))
        (read_rules lib d (s\<lparr>f_exclude := e, f_include := i\<rparr>))"
      by (simp add: caches_ok_def)
  qed
  with ok show ?thesis by (simp add: set_user_entries_def Let_def)
qed

lemma note_ok:
  assumes "caches_ok lib d s" "rules_change_at lib s d d' (ruled_dir p)"
  shows "caches_ok lib d' (note_ignore_file s p)"
  unfolding note_ignore_file_def using assms
  by (intro forget_ok) (auto simp: caches_ok_def rules_change_at_def list_all_iff intro!: cache_ok_delete)

lemma disk_changed_ok:
  assumes "caches_ok lib d s" "read_rules lib d' s = read_rules lib d s"
  shows "caches_ok lib d' s"
proof -
  have "read_rules lib d' (settings_of s) = read_rules lib d (settings_of s)" using assms(2) by simp
  from pure_chain_rules [OF this] pure_decide_rules [OF this]
  have "pure_chain lib d' (settings_of s) = pure_chain lib d (settings_of s)"
    "pure_decide lib d' (settings_of s) = pure_decide lib d (settings_of s)"
    by (simp_all add: fun_eq_iff)
  with assms show ?thesis unfolding caches_ok_def by simp
qed

lemma filter_reach_ok: "filter_reach lib d s \<Longrightarrow> caches_ok lib d s"
proof (induction rule: filter_reach.induct)
  case (forgot d s d')
  then show ?case by (simp add: forget_rules_def forget_ok)
qed (auto simp: filter_new_ok ignore_def ignore_in_trees_def decide_path_spec ignore_change_spec
    set_entries_ok note_ok intro: disk_changed_ok)

lemma settings_of_forget [simp]: "settings_of (forget_rules s) = settings_of s"
  by (simp add: forget_rules_def forget_decisions_def)

lemma forget_rules_ok [simp]: "caches_ok lib d (forget_rules s)"
  by (simp add: forget_rules_def forget_ok)

section \<open>A library to try\<close>

text \<open>
  A matcher of names: each line of an ignore file is a name, kept when it starts with \<open>!\<close>; the
  last one that names a component below its directory decides.
\<close>

definition names_matched :: "path \<times> string list \<Rightarrow> path \<Rightarrow> bool \<Rightarrow> verdict" where
  "names_matched g p is_dir =
     foldl (\<lambda>v line. case line of
         c # cs \<Rightarrow> if c = CHR ''!'' then (if cs \<in> set (drop (length (fst g)) p) then VWhitelist else v)
                  else if line \<in> set (drop (length (fst g)) p) then VIgnore else v
       | [] \<Rightarrow> v) VNone (snd g)"

definition names_lib :: "(path \<times> string list) ignore_lib" where
  "names_lib =
     \<lparr>gi_build = (\<lambda>d dir files. Some (dir,
          concat (map (\<lambda>f. case d_text d f of Some t \<Rightarrow> split_on CHR ''|'' t | None \<Rightarrow> []) files))),
      gi_empty = ([], []), gi_path = fst, gi_matched = names_matched\<rparr>"

definition disk_of :: "(path \<times> string) list \<Rightarrow> disk" where
  "disk_of files =
     \<lparr>d_dir = (\<lambda>p. list_ex (\<lambda>(f, t). strict_prefix p f) files),
      d_file = (\<lambda>p. map_of files p \<noteq> None), d_text = map_of files, d_children = (\<lambda>p. None)\<rparr>"


definition demo_root :: path where "demo_root = [''/'', ''w'']"

definition demo_before :: disk where
  "demo_before = disk_of [(demo_root @ [''t'', ''.gitignore''], ''a'')]"

definition demo_after :: disk where
  "demo_after = disk_of [(demo_root @ [''t'', ''.gitignore''], ''b'')]"

definition demo_filter :: "(path \<times> string list) filter_state" where
  "demo_filter =
     \<lparr>f_root = demo_root, f_global = None, f_exclude = [], f_include = [],
      f_rules = [([], Some (demo_root, [])), ([''t''], Some (demo_root @ [''t''], [''a'']))],
      f_chains = [([], [(demo_root, [])]), ([''t''], [(demo_root, []), (demo_root @ [''t''], [''a''])])],
      f_dirs = []\<rparr>"

lemma demo_root_rules:
  "f_root s = demo_root \<Longrightarrow> f_global s = None \<Longrightarrow>
     read_rules names_lib (disk_of [(demo_root @ [''t'', ''.gitignore''], x)]) s [] = Some (demo_root, [])"
  by (simp add: read_rules_def root_gitignore_def exclude_file_def names_lib_def disk_of_def
      join_path_def is_absolute_def option_list_def demo_root_def Let_def)

lemma demo_folder_rules:
  "f_root s = demo_root \<Longrightarrow>
     read_rules names_lib (disk_of [(demo_root @ [''t'', ''.gitignore''], x)]) s [''t''] =
       Some (demo_root @ [''t''], split_on CHR ''|'' x)"
  by (simp add: read_rules_def folder_gitignore_def names_lib_def disk_of_def join_path_def
      is_absolute_def demo_root_def Let_def)

lemma demo_new: "filter_new demo_root [] [] None =
   demo_filter\<lparr>f_rules := [], f_chains := []\<rparr>"
  by (simp add: filter_new_def demo_filter_def parse_filter_entries_def List.map_filter_def)

lemma demo_chain_top:
  "chain_of names_lib demo_before (demo_filter\<lparr>f_rules := [], f_chains := []\<rparr>) [] =
     ([(demo_root, [])], demo_filter\<lparr>f_rules := [([], Some (demo_root, []))], f_chains := [([], [(demo_root, [])])]\<rparr>)"
  by (simp add: chain_of.simps [of _ _ _ "[]"] rules_of_def demo_filter_def demo_before_def
      demo_root_rules remember_chain_def remember_def MAX_REMEMBERED_DIRS_def option_list_def Let_def)
    (simp add: demo_root_def Let_def)

lemma demo_chain:
  "chain_of names_lib demo_before (demo_filter\<lparr>f_rules := [], f_chains := []\<rparr>) [''t''] =
     ([(demo_root, []), (demo_root @ [''t''], [''a''])], demo_filter)"
proof -
  have "chain_of names_lib demo_before (demo_filter\<lparr>f_rules := [], f_chains := []\<rparr>) (dir_of [''t'']) =
     ([(demo_root, [])], demo_filter\<lparr>f_rules := [([], Some (demo_root, []))], f_chains := [([], [(demo_root, [])])]\<rparr>)"
    using demo_chain_top by (simp add: dir_of_def parent_def)
  moreover have "gitignore_decision names_lib [(demo_root, [])] p True = VNone" for p
    by (simp add: gitignore_decision_def names_lib_def names_matched_def)
  moreover have "\<not> suffix [''.git''] [''t'']" by (simp add: suffix_to_prefix)
  moreover have "f_root demo_filter \<noteq> []" by (simp add: demo_filter_def demo_root_def)
  ultimately show ?thesis
    by (simp add: chain_of.simps [of _ _ _ "[''t'']"] rules_of_def demo_before_def)
      (simp add: demo_filter_def demo_folder_rules remember_chain_def remember_def MAX_REMEMBERED_DIRS_def Let_def)
qed

lemma demo_asked:
  "ignore names_lib demo_before (filter_new demo_root [] [] None) [''t'', ''a''] False = (True, demo_filter)"
proof -
  have "dir_of [''t'', ''a''] = [''t'']" by (simp add: dir_of_def parent_def)
  moreover have "gitignore_decision names_lib [(demo_root, []), (demo_root @ [''t''], [''a''])]
      (join_path demo_root [''t'', ''a'']) False = VIgnore"
    by (simp add: gitignore_decision_def names_lib_def names_matched_def join_path_def
        is_absolute_def demo_root_def)
  ultimately show ?thesis
    using demo_chain
    by (simp add: demo_new ignore_def decide_path_def normal_def DEFAULT_IGNORED_SEGMENTS_def
        git_decision_def from_root_def is_absolute_def)
      (simp add: demo_filter_def matches_filter_entries_def)
qed

section \<open>Properties\<close>

text \<open>
  C21. The caches never change an answer. Whatever the filter was asked before, whichever lists the
  project set, and however the ignore files changed, as long as each change of a directory's rules
  was noted, a question is answered as by a filter that remembers nothing and reads the disk now;
  and what it remembers of directories stays bounded.
\<close>

theorem filter_answers_like_a_fresh_one:
  assumes "filter_reach lib d s"
  shows "fst (ignore_change lib d s p b) = fst (ignore_change lib d (forget_rules s) p b)
    \<and> fst (ignore lib d s p b) = fst (ignore lib d (forget_rules s) p b)
    \<and> fst (ignore_in_trees lib d s p b) = fst (ignore_in_trees lib d (forget_rules s) p b)
    \<and> length (f_chains s) \<le> MAX_REMEMBERED_DIRS \<and> length (f_dirs s) \<le> MAX_REMEMBERED_DIRS"
proof -
  have ok: "caches_ok lib d s" by (rule filter_reach_ok [OF assms])
  note same = changes.same_answer [OF ok forget_rules_ok, where q = "(p, b)"]
    judged.same_answer [OF ok forget_rules_ok, where q = "(p, b)"]
    in_trees.same_answer [OF ok forget_rules_ok, where q = "(p, b)"]
  from ok same show ?thesis by (simp add: caches_ok_def)
qed

lemma demo_noted:
  "filter_reach names_lib demo_after (note_ignore_file demo_filter [''t'', ''.gitignore''])"
proof (rule filter_reach.noted)
  show "filter_reach names_lib demo_before demo_filter"
    using filter_reach.asked [OF filter_reach.built [of names_lib demo_before demo_root "[]" "[]" None],
        of "[''t'', ''a'']" False]
    by (simp add: demo_asked)
  have "ruled_dir [''t'', ''.gitignore''] = [''t'']"
    by (simp add: ruled_dir_def is_absolute_def EXCLUDE_FILE_def suffix_to_prefix dir_of_def parent_def)
  then show "rules_change_at names_lib demo_filter demo_before demo_after (ruled_dir [''t'', ''.gitignore''])"
    by (simp add: rules_change_at_def demo_filter_def demo_before_def demo_after_def demo_root_rules)
qed

lemma filter_answers_like_a_fresh_one_witness:
  "let s = note_ignore_file demo_filter [''t'', ''.gitignore''] in
   fst (ignore names_lib demo_after s [''t'', ''a''] False) =
     fst (ignore names_lib demo_after (forget_rules s) [''t'', ''a''] False)"
  using filter_answers_like_a_fresh_one [OF demo_noted, of "[''t'', ''a'']" False] by (simp add: Let_def)

end
