(* ===== verification/Watch_Router.thy ===== *)
theory Watch_Router
  imports Watch_Filter "HOL-Library.Multiset"
begin

text \<open>
  \<open>oxplow-fs-watch/src/router.rs\<close>, and \<open>refilter\<close> of \<open>lib.rs\<close>: what becomes of an OS event, and
  how a per-directory watch follows the tree. The router and the follower share the filter and the
  subscribers, so one record holds both; the channel between them is the list of messages not read
  yet. The OS's registration of watches is the parameter \<open>registrar\<close>, the disk what one step
  reads of it. The walk of \<open>cover\<close> may not end on an endless tree: its loop returns an option.

  The lemmas: what the filter keeps when it is asked is told to every subscriber without a scope,
  whatever happens to the watch before it takes its batch, and what it ignores is not; a lost event
  is a rescan; and a covered directory has everything kept below it watched, listed, or below one
  the OS gave no watch for.
\<close>

section \<open>Events\<close>

datatype modify_kind = ModifyName | ModifyOther

datatype os_kind = OsAny | OsAccess | OsCreate | OsModify modify_kind | OsRemove | OsOther

record os_event =
  ev_kind :: os_kind
  ev_paths :: "path list"
  ev_rescan :: bool

datatype follow_msg = Appeared path | Gone path | Refilter path

datatype registration = RootWatch | PerDirectory

record route =
  rt_roots :: "path list"
  rt_follows :: bool

datatype watch_outcome = Watching | PastLimit | CannotWatch

record 'r registrar =
  reg_watch :: "'r \<Rightarrow> path \<Rightarrow> watch_outcome \<times> 'r"
  reg_unwatch :: "'r \<Rightarrow> path \<Rightarrow> 'r"

record ('g, 'r) watch =
  w_events :: subscribers
  w_route :: "route option"
  w_filter :: "'g filter_state"
  w_inbox :: "follow_msg list"
  w_root :: path
  w_watched :: "path list"
  w_uncovered :: "path list"
  w_os :: 'r

fun classify :: "os_kind \<Rightarrow> watch_event_kind" where
  "classify OsCreate = Created"
| "classify (OsModify m) = Modified"
| "classify OsRemove = Removed"
| "classify k = Other"

section \<open>The router\<close>

definition root_of :: "route \<Rightarrow> path" where
  "root_of rt = (case rt_roots rt of r # rs \<Rightarrow> r | [] \<Rightarrow> [])"

definition tell :: "route \<Rightarrow> ('g, 'r) watch \<Rightarrow> follow_msg \<Rightarrow> ('g, 'r) watch" where
  "tell rt w msg = (if rt_follows rt then w\<lparr>w_inbox := w_inbox w @ [msg]\<rparr> else w)"

definition in_ignored_dir ::
  "'g ignore_lib \<Rightarrow> disk \<Rightarrow> route \<Rightarrow> 'g filter_state \<Rightarrow> path \<Rightarrow> bool \<times> 'g filter_state" where
  "in_ignored_dir lib d rt f p =
     (case Option.bind (relative (rt_roots rt) p) parent of
        None \<Rightarrow> (False, f)
      | Some dir \<Rightarrow>
          if dir \<noteq> [] \<and> \<not> suffix [''.git'', ''info''] dir then ignore_change lib d f dir True
          else (False, f))"

definition ruled_by :: "route \<Rightarrow> path \<Rightarrow> path" where
  "ruled_by rt p =
     (case relative (rt_roots rt) p of
        Some rel \<Rightarrow>
          if \<not> suffix EXCLUDE_FILE rel
          then (case parent p of Some dir \<Rightarrow> dir | None \<Rightarrow> root_of rt)
          else root_of rt
      | None \<Rightarrow> root_of rt)"

text \<open>A change the filter keeps, or that no filter judges: told under the root's own spelling.\<close>

definition spelled :: "route \<Rightarrow> path \<Rightarrow> path" where
  "spelled rt p =
     (case (relative (rt_roots rt) p, rt_roots rt) of
        (Some rel, root # _) \<Rightarrow> join_path root rel
      | _ \<Rightarrow> p)"

definition kept_change :: "route \<Rightarrow> ('g, 'r) watch \<Rightarrow> path \<Rightarrow> os_kind \<Rightarrow> ('g, 'r) watch" where
  "kept_change rt w p k =
     (let q = spelled rt p;
          w' = w\<lparr>w_events := subscribers_change (w_events w) q (classify k) True\<rparr>
      in case k of
           OsCreate \<Rightarrow> tell rt w' (Appeared q)
         | OsModify ModifyName \<Rightarrow> tell rt w' (Appeared q)
         | OsRemove \<Rightarrow> tell rt w' (Gone q)
         | _ \<Rightarrow> w')"

definition note_rules :: "route \<Rightarrow> ('g, 'r) watch \<Rightarrow> path \<Rightarrow> ('g, 'r) watch" where
  "note_rules rt w p =
     (let dir = ruled_by rt p in
      tell rt
        (w\<lparr>w_filter := note_ignore_file (w_filter w)
              (case relative (rt_roots rt) p of Some rel \<Rightarrow> rel | None \<Rightarrow> p),
           w_events := subscribers_rescan (w_events w) dir\<rparr>)
        (Refilter dir))"

definition route_change ::
  "'g ignore_lib \<Rightarrow> disk \<Rightarrow> route \<Rightarrow> ('g, 'r) watch \<Rightarrow> path \<Rightarrow> os_kind \<Rightarrow> ('g, 'r) watch" where
  "route_change lib d rt w p k =
     (case (if is_ignore_file p then in_ignored_dir lib d rt (w_filter w) p else (True, w_filter w)) of
        (hidden, f1) \<Rightarrow>
          let w1 = w\<lparr>w_filter := f1\<rparr> in
          if \<not> hidden then kept_change rt (note_rules rt w1 p) p k
          else
            (case (case relative (rt_roots rt) p of
                     Some rel \<Rightarrow> ignore_change lib d f1 rel (d_dir d p) | None \<Rightarrow> (False, f1)) of
               (ignored, f2) \<Rightarrow>
                 let w2 = w1\<lparr>w_filter := f2\<rparr> in
                 if ignored
                 then w2\<lparr>w_events := subscribers_change (w_events w2) p (classify k) False\<rparr>
                 else kept_change rt w2 p k))"

definition lost :: "'g ignore_lib \<Rightarrow> disk \<Rightarrow> ('g, 'r) watch \<Rightarrow> path option \<Rightarrow> ('g, 'r) watch" where
  "lost lib d w at =
     (let w1 = (case w_route w of Some _ \<Rightarrow> w\<lparr>w_filter := forget_rules (w_filter w)\<rparr> | None \<Rightarrow> w) in
      case at of
        None \<Rightarrow> w1\<lparr>w_events := rescan_all (w_events w1)\<rparr>
      | Some p \<Rightarrow>
          (case w_route w of
             None \<Rightarrow> w1\<lparr>w_events := subscribers_rescan (w_events w1) p\<rparr>
           | Some rt \<Rightarrow>
               (case relative (rt_roots rt) p of
                  None \<Rightarrow> w1\<lparr>w_events := rescan_all (w_events w1)\<rparr>
                | Some rel \<Rightarrow>
                    (case ignore_change lib d (w_filter w1) rel True of (ignored, f) \<Rightarrow>
                       let w2 = w1\<lparr>w_filter := f\<rparr> in
                       if ignored then w2
                       else w2\<lparr>w_events := subscribers_rescan (w_events w2) p\<rparr>))))"

definition handle_path ::
  "'g ignore_lib \<Rightarrow> disk \<Rightarrow> os_kind \<Rightarrow> ('g, 'r) watch \<Rightarrow> path \<Rightarrow> ('g, 'r) watch" where
  "handle_path lib d k w p =
     (case w_route w of
        Some rt \<Rightarrow> route_change lib d rt w p k
      | None \<Rightarrow> w\<lparr>w_events := subscribers_change (w_events w) p (classify k) True\<rparr>)"

text \<open>\<open>Router::handle\<close>: an event, or (\<open>Inl\<close>) an error of the watch.\<close>

definition handle_event ::
  "'g ignore_lib \<Rightarrow> disk \<Rightarrow> ('g, 'r) watch \<Rightarrow> unit + os_event \<Rightarrow> ('g, 'r) watch" where
  "handle_event lib d w res =
     (case res of
        Inl _ \<Rightarrow> lost lib d w None
      | Inr ev \<Rightarrow>
          if ev_kind ev = OsAccess then w
          else if ev_rescan ev
          then lost lib d w (case ev_paths ev of p # _ \<Rightarrow> Some p | [] \<Rightarrow> None)
          else foldl (handle_path lib d (ev_kind ev)) w (ev_paths ev))"

section \<open>The follower\<close>

definition follower_ignores ::
  "'g ignore_lib \<Rightarrow> disk \<Rightarrow> path \<Rightarrow> 'g filter_state \<Rightarrow> path \<Rightarrow> bool \<times> 'g filter_state" where
  "follower_ignores lib d root f dir =
     (case strip_prefix root dir of
        Some rel \<Rightarrow> ignore lib d f rel True
      | None \<Rightarrow> (False, f))"

text \<open>The entries pushed: the last one is walked first.\<close>

fun kept_children ::
  "'g ignore_lib \<Rightarrow> disk \<Rightarrow> path \<Rightarrow> path \<Rightarrow> 'g filter_state \<Rightarrow> (string \<times> bool) list \<Rightarrow> path list
    \<Rightarrow> path list \<times> 'g filter_state" where
  "kept_children lib d root dir f [] stack = (stack, f)"
| "kept_children lib d root dir f ((name, is_dir) # es) stack =
     (if \<not> is_dir then kept_children lib d root dir f es stack
      else
        (case follower_ignores lib d root f (dir @ [name]) of (ignored, f1) \<Rightarrow>
           kept_children lib d root dir f1 es (if ignored then stack else (dir @ [name]) # stack)))"

definition watch_dir :: "'r registrar \<Rightarrow> ('g, 'r) watch \<Rightarrow> path \<Rightarrow> bool \<times> ('g, 'r) watch" where
  "watch_dir reg w dir =
     (if dir \<in> set (w_watched w) then (True, w)
      else
        (case reg_watch reg (w_os w) dir of
           (Watching, os) \<Rightarrow> (True, w\<lparr>w_os := os, w_watched := dir # w_watched w\<rparr>)
         | (PastLimit, os) \<Rightarrow> (False, w\<lparr>w_os := os, w_uncovered := List.insert dir (w_uncovered w)\<rparr>)
         | (CannotWatch, os) \<Rightarrow> (False, w\<lparr>w_os := os\<rparr>)))"

definition cover_one ::
  "'g ignore_lib \<Rightarrow> 'r registrar \<Rightarrow> disk \<Rightarrow> ('g, 'r) watch \<Rightarrow> path \<Rightarrow> path list
    \<Rightarrow> path list \<times> ('g, 'r) watch" where
  "cover_one lib reg d w dir stack =
     (case watch_dir reg w dir of
        (False, w1) \<Rightarrow> (stack, w1)
      | (True, w1) \<Rightarrow>
          (case d_children d dir of
             None \<Rightarrow> (stack, w1)
           | Some es \<Rightarrow>
               (case kept_children lib d (w_root w1) dir (w_filter w1) es stack of
                  (stack', f) \<Rightarrow> (stack', w1\<lparr>w_filter := f\<rparr>))))"

partial_function (option) cover_loop ::
  "'g ignore_lib \<Rightarrow> 'r registrar \<Rightarrow> disk \<Rightarrow> ('g, 'r) watch \<Rightarrow> path list \<Rightarrow> ('g, 'r) watch option" where
  "cover_loop lib reg d w stack =
     (case stack of
        [] \<Rightarrow> Some w
      | dir # rest \<Rightarrow>
          (case cover_one lib reg d w dir rest of (stack', w') \<Rightarrow> cover_loop lib reg d w' stack'))"

definition cover ::
  "'g ignore_lib \<Rightarrow> 'r registrar \<Rightarrow> disk \<Rightarrow> ('g, 'r) watch \<Rightarrow> path \<Rightarrow> ('g, 'r) watch option" where
  "cover lib reg d w dir = cover_loop lib reg d w [dir]"

definition unwatch_dir :: "'r registrar \<Rightarrow> ('g, 'r) watch \<Rightarrow> path \<Rightarrow> ('g, 'r) watch" where
  "unwatch_dir reg w dir =
     w\<lparr>w_os := reg_unwatch reg (w_os w) dir, w_watched := removeAll dir (w_watched w)\<rparr>"

definition forget_under :: "'r registrar \<Rightarrow> ('g, 'r) watch \<Rightarrow> path \<Rightarrow> ('g, 'r) watch" where
  "forget_under reg w p = foldl (unwatch_dir reg) w (filter (prefix p) (w_watched w))"

definition appeared ::
  "'g ignore_lib \<Rightarrow> 'r registrar \<Rightarrow> disk \<Rightarrow> ('g, 'r) watch \<Rightarrow> path \<Rightarrow> ('g, 'r) watch option" where
  "appeared lib reg d w p =
     (if \<not> d_dir d p \<or> p \<in> set (w_watched w) then Some w
      else
        (case follower_ignores lib d (w_root w) (w_filter w) p of (ignored, f) \<Rightarrow>
           let w1 = w\<lparr>w_filter := f\<rparr> in
           if ignored then Some w1
           else map_option (\<lambda>w2. w2\<lparr>w_events := subscribers_rescan (w_events w2) p\<rparr>)
             (cover lib reg d w1 p)))"

text \<open>The watched directories under one that the rules now ignore.\<close>

fun now_ignored ::
  "'g ignore_lib \<Rightarrow> disk \<Rightarrow> path \<Rightarrow> 'g filter_state \<Rightarrow> path list \<Rightarrow> path list \<times> 'g filter_state" where
  "now_ignored lib d root f [] = ([], f)"
| "now_ignored lib d root f (p # ps) =
     (case follower_ignores lib d root f p of (ignored, f1) \<Rightarrow>
        (case now_ignored lib d root f1 ps of (ds, f2) \<Rightarrow> (if ignored then p # ds else ds, f2)))"

definition refilter_under ::
  "'g ignore_lib \<Rightarrow> 'r registrar \<Rightarrow> disk \<Rightarrow> ('g, 'r) watch \<Rightarrow> path \<Rightarrow> ('g, 'r) watch option" where
  "refilter_under lib reg d w dir =
     (case now_ignored lib d (w_root w) (w_filter w) (filter (prefix dir) (w_watched w)) of
        (ds, f) \<Rightarrow> cover lib reg d (foldl (forget_under reg) (w\<lparr>w_filter := f\<rparr>) ds) dir)"

fun follow ::
  "'g ignore_lib \<Rightarrow> 'r registrar \<Rightarrow> disk \<Rightarrow> ('g, 'r) watch \<Rightarrow> follow_msg \<Rightarrow> ('g, 'r) watch option" where
  "follow lib reg d w (Appeared p) = appeared lib reg d w p"
| "follow lib reg d w (Gone p) = Some (forget_under reg w p)"
| "follow lib reg d w (Refilter dir) = refilter_under lib reg d w dir"

text \<open>\<open>Follower::run\<close>: one turn of its loop takes the oldest message, when there is one.\<close>

definition follower_turn ::
  "'g ignore_lib \<Rightarrow> 'r registrar \<Rightarrow> disk \<Rightarrow> ('g, 'r) watch \<Rightarrow> ('g, 'r) watch option" where
  "follower_turn lib reg d w =
     (case w_inbox w of
        [] \<Rightarrow> Some w
      | msg # msgs \<Rightarrow> follow lib reg d (w\<lparr>w_inbox := msgs\<rparr>) msg)"

section \<open>The watcher\<close>

definition watcher_refilter :: "('g, 'r) watch \<Rightarrow> ('g, 'r) watch" where
  "watcher_refilter w =
     (case w_route w of
        None \<Rightarrow> w
      | Some rt \<Rightarrow>
          tell rt
            (w\<lparr>w_filter := forget_rules (w_filter w),
               w_events := subscribers_rescan (w_events w) (w_root w)\<rparr>)
            (Refilter (w_root w)))"

definition watch_workspace ::
  "'g ignore_lib \<Rightarrow> 'r registrar \<Rightarrow> disk \<Rightarrow> registration \<Rightarrow> 'r \<Rightarrow> path \<Rightarrow> path option
    \<Rightarrow> 'g filter_state \<Rightarrow> ('g, 'r) watch option" where
  "watch_workspace lib reg d how os root canonical f =
     (let roots = root # (case canonical of Some c \<Rightarrow> if c \<noteq> root then [c] else [] | None \<Rightarrow> []);
          w = \<lparr>w_events = subscribers_new roots [root],
               w_route = Some \<lparr>rt_roots = roots, rt_follows = (how = PerDirectory)\<rparr>,
               w_filter = f, w_inbox = [], w_root = root, w_watched = [], w_uncovered = [], w_os = os\<rparr>
      in if how = PerDirectory then cover lib reg d w root else Some w)"

definition workspace_watch_paths :: "disk \<Rightarrow> path \<Rightarrow> registration \<Rightarrow> (path \<times> bool) list" where
  "workspace_watch_paths d root how =
     (if how = RootWatch then [(root, True)] else [])
     @ (case Option.bind (exclude_file d root) parent of
          Some info \<Rightarrow>
            if d_dir d info \<and> \<not> (how = RootWatch \<and> prefix root info) then [(info, False)] else []
        | None \<Rightarrow> [])"


section \<open>Who is told\<close>

definition listening :: "subscribers \<Rightarrow> nat \<Rightarrow> bool" where
  "listening s i \<longleftrightarrow>
     i < length (sub_list s) \<and> l_scope (sub_list s ! i) = None
     \<and> (\<exists>st. l_pending (sub_list s ! i) = Some st \<and> pending_inv st)"

definition told :: "subscribers \<Rightarrow> nat \<Rightarrow> path \<Rightarrow> bool" where
  "told s i q \<longleftrightarrow> (\<exists>st. l_pending (sub_list s ! i) = Some st \<and> noted st q)"

text \<open>A step after which every listener still listens, and nothing it was told is gone.\<close>

definition grows :: "subscribers \<Rightarrow> subscribers \<Rightarrow> bool" where
  "grows s s' \<longleftrightarrow> (\<forall>i. listening s i \<longrightarrow> listening s' i \<and> (\<forall>q. told s i q \<longrightarrow> told s' i q))"

lemma grows_refl [simp]: "grows s s"
  by (simp add: grows_def)

lemma grows_trans [trans]: "grows s t \<Longrightarrow> grows t u \<Longrightarrow> grows s u"
  by (auto simp: grows_def)

lemma change_tells:
  assumes "listening s i"
  shows "listening (subscribers_change s p k kept) i
     \<and> (\<forall>q. told s i q \<longrightarrow> told (subscribers_change s p k kept) i q)
     \<and> (kept \<longrightarrow> told (subscribers_change s p k kept) i p)"
proof -
  from assms obtain st where st: "i < length (sub_list s)" "l_scope (sub_list s ! i) = None"
    "l_pending (sub_list s ! i) = Some st" "pending_inv st"
    by (auto simp: listening_def)
  with change_spec [OF st(4), of "sub_roots s" p k] show ?thesis
    by (auto simp: listening_def told_def subscribers_change_def hears_change_def)
qed

lemma rescan_tells:
  assumes "listening s i"
  shows "listening (subscribers_rescan s dir) i
     \<and> (\<forall>q. told s i q \<or> prefix dir q \<longrightarrow> told (subscribers_rescan s dir) i q)"
proof -
  from assms obtain st where st: "i < length (sub_list s)" "l_scope (sub_list s ! i) = None"
    "l_pending (sub_list s ! i) = Some st" "pending_inv st"
    by (auto simp: listening_def)
  then show ?thesis
    by (auto simp: listening_def told_def subscribers_rescan_def hears_rescan_def pending_rescan_def
        insert_rescan_inv insert_rescan_noted)
qed

lemma grows_change: "grows s (subscribers_change s p k kept)"
  using change_tells by (auto simp: grows_def)

lemma grows_rescan: "grows s (subscribers_rescan s dir)"
  using rescan_tells by (auto simp: grows_def)

lemma grows_rescans: "grows s (foldl subscribers_rescan s dirs)"
  by (induction dirs arbitrary: s) (auto intro: grows_rescan grows_trans)

lemma rescans_tell:
  "listening s i \<Longrightarrow> dir \<in> set dirs \<Longrightarrow> prefix dir q \<Longrightarrow> told (foldl subscribers_rescan s dirs) i q"
proof (induction dirs arbitrary: s)
  case (Cons a dirs)
  show ?case
  proof (cases "a = dir")
    case True
    with rescan_tells [OF Cons.prems(1), of a] Cons.prems(3) grows_rescans [of "subscribers_rescan s a" dirs]
    show ?thesis by (auto simp: grows_def)
  next
    case False
    with Cons rescan_tells [OF Cons.prems(1), of a] show ?thesis by auto
  qed
qed simp

lemma w_events_tell [simp]:
  "w_events (tell rt w m) = w_events w" "w_filter (tell rt w m) = w_filter w"
  "w_route (tell rt w m) = w_route w" "w_watched (tell rt w m) = w_watched w"
  "w_os (tell rt w m) = w_os w" "w_root (tell rt w m) = w_root w"
  by (simp_all add: tell_def)

lemma kept_change_fields [simp]:
  "w_events (kept_change rt w p k) = subscribers_change (w_events w) (spelled rt p) (classify k) True"
  "w_filter (kept_change rt w p k) = w_filter w"
  "w_route (kept_change rt w p k) = w_route w"
  by (simp_all add: kept_change_def Let_def split: os_kind.splits modify_kind.splits)

lemma note_rules_fields [simp]:
  "w_events (note_rules rt w p) = subscribers_rescan (w_events w) (ruled_by rt p)"
  "w_route (note_rules rt w p) = w_route w"
  "w_filter (note_rules rt w p) =
     note_ignore_file (w_filter w) (case relative (rt_roots rt) p of Some rel \<Rightarrow> rel | None \<Rightarrow> p)"
  by (simp_all add: note_rules_def Let_def)

lemma route_change_grows:
  "grows (w_events w) (w_events (route_change lib d rt w p k))
     \<and> w_route (route_change lib d rt w p k) = w_route w"
  by (auto simp: route_change_def Let_def split: prod.splits
      intro: grows_change grows_trans [OF grows_rescan grows_change])

lemma handle_path_grows:
  "grows (w_events w) (w_events (handle_path lib d k w p))
     \<and> w_route (handle_path lib d k w p) = w_route w"
  by (simp add: handle_path_def grows_change route_change_grows split: option.splits)

lemma handle_paths_grow:
  "grows (w_events w) (w_events (foldl (handle_path lib d k) w ps))
     \<and> w_route (foldl (handle_path lib d k) w ps) = w_route w"
proof (induction ps arbitrary: w)
  case (Cons p ps)
  from Cons.IH [of "handle_path lib d k w p"] handle_path_grows [of w lib d k p] show ?case
    by (auto intro: grows_trans)
qed simp

lemma lost_grows: "grows (w_events w) (w_events (lost lib d w at))"
  by (auto simp: lost_def Let_def rescan_all_def split: option.splits prod.splits
      intro: grows_rescan grows_rescans)

lemma handle_event_grows: "grows (w_events w) (w_events (handle_event lib d w res))"
  by (simp add: handle_event_def handle_paths_grow lost_grows split: sum.splits)

lemma handle_events_grow:
  "grows (w_events w) (w_events (foldl (\<lambda>w (d, res). handle_event lib d w res) w later))"
proof (induction later arbitrary: w)
  case (Cons x later)
  then show ?case using handle_event_grows grows_trans by (cases x) fastforce
qed simp

section \<open>The filter's part\<close>

lemma note_here_ok [simp]: "caches_ok lib d s \<Longrightarrow> caches_ok lib d (note_ignore_file s p)"
  by (rule note_ok) (auto simp: rules_change_at_def list_all_iff)

lemma settings_of_note [simp]: "settings_of (note_ignore_file s p) = settings_of s"
  by (simp add: note_ignore_file_def forget_decisions_def)

definition settled :: "'g ignore_lib \<Rightarrow> disk \<Rightarrow> 'g filter_state \<Rightarrow> 'g filter_state \<Rightarrow> bool" where
  "settled lib d f f' \<longleftrightarrow> caches_ok lib d f' \<and> settings_of f' = settings_of f"

lemma in_ignored_dir_settled:
  "caches_ok lib d f \<Longrightarrow> settled lib d f (snd (in_ignored_dir lib d rt f p))"
  by (auto simp: settled_def in_ignored_dir_def ignore_change_spec split: option.splits)

lemma route_change_settled:
  assumes "caches_ok lib d (w_filter w)"
  shows "settled lib d (w_filter w) (w_filter (route_change lib d rt w p k))"
proof -
  obtain hidden f1 where r: "(if is_ignore_file p then in_ignored_dir lib d rt (w_filter w) p
      else (True, w_filter w)) = (hidden, f1)" by (rule prod.exhaust)
  then have f1: "caches_ok lib d f1" "settings_of f1 = settings_of (w_filter w)"
    using in_ignored_dir_settled [OF assms, of rt p] assms
    by (auto simp: settled_def split: if_splits)
  show ?thesis
  proof (cases "hidden \<and> relative (rt_roots rt) p \<noteq> None")
    case True
    then obtain rel where "relative (rt_roots rt) p = Some rel" "hidden" by auto
    with f1 ignore_change_spec [OF f1(1), of rel "d_dir d p"] show ?thesis
      by (auto simp: route_change_def r Let_def settled_def split: prod.splits)
  next
    case False
    with f1 show ?thesis
      by (auto simp: route_change_def r Let_def settled_def)
  qed
qed

lemma handle_paths_settled:
  "caches_ok lib d (w_filter w) \<Longrightarrow>
     settled lib d (w_filter w) (w_filter (foldl (handle_path lib d k) w ps))"
proof (induction ps arbitrary: w)
  case (Cons p ps)
  have "settled lib d (w_filter w) (w_filter (handle_path lib d k w p))"
    using route_change_settled [OF Cons.prems] Cons.prems
    by (auto simp: handle_path_def settled_def split: option.splits)
  with Cons.IH [of "handle_path lib d k w p"] show ?case by (simp add: settled_def)
qed (simp add: settled_def)

section \<open>Kept and ignored\<close>

text \<open>What a filter that reads the disk now says of a change.\<close>

definition drops :: "'g ignore_lib \<Rightarrow> disk \<Rightarrow> 'g filter_state \<Rightarrow> route \<Rightarrow> path \<Rightarrow> bool" where
  "drops lib d f rt p \<longleftrightarrow>
     (case relative (rt_roots rt) p of
        Some rel \<Rightarrow> fst (ignore_change lib d (forget_rules f) rel (d_dir d p))
      | None \<Rightarrow> False)"

lemma drops_pure:
  "drops lib d f rt p \<longleftrightarrow>
     (case relative (rt_roots rt) p of
        Some rel \<Rightarrow> pure_ignore_change lib d (settings_of f) rel (d_dir d p)
      | None \<Rightarrow> False)"
  by (auto simp: drops_def ignore_change_spec split: option.splits)

lemma settled_drops: "settled lib d f f' \<Longrightarrow> drops lib d f' rt p = drops lib d f rt p"
  by (simp add: drops_pure settled_def split: option.splits)

lemma route_change_cases:
  assumes "caches_ok lib d (w_filter w)"
  obtains (noted) w1 where "is_ignore_file p" "w_events w1 = w_events w"
      "route_change lib d rt w p k = kept_change rt (note_rules rt w1 p) p k"
  | (dropped) w1 where "drops lib d (w_filter w) rt p" "w_events w1 = w_events w"
      "route_change lib d rt w p k =
         w1\<lparr>w_events := subscribers_change (w_events w1) p (classify k) False\<rparr>"
  | (kept) w1 where "\<not> drops lib d (w_filter w) rt p" "w_events w1 = w_events w"
      "route_change lib d rt w p k = kept_change rt w1 p k"
proof -
  obtain hidden f1 where r: "(if is_ignore_file p then in_ignored_dir lib d rt (w_filter w) p
      else (True, w_filter w)) = (hidden, f1)" by (rule prod.exhaust)
  then have f1: "caches_ok lib d f1" "settings_of f1 = settings_of (w_filter w)"
    using in_ignored_dir_settled [OF assms, of rt p] assms
    by (auto simp: settled_def split: if_splits)
  obtain ignored f2 where q: "(case relative (rt_roots rt) p of
      Some rel \<Rightarrow> ignore_change lib d f1 rel (d_dir d p) | None \<Rightarrow> (False, f1)) = (ignored, f2)"
    by (rule prod.exhaust)
  have "ignored = drops lib d (w_filter w) rt p"
    using q f1 ignore_change_spec [OF f1(1)]
    by (auto simp: drops_pure split: option.splits) (metis fst_conv)+
  moreover have "\<not> hidden \<Longrightarrow> is_ignore_file p" using r by (auto split: if_splits)
  moreover have "route_change lib d rt w p k =
      (if \<not> hidden then kept_change rt (note_rules rt (w\<lparr>w_filter := f1\<rparr>) p) p k
       else if ignored then (w\<lparr>w_filter := f2\<rparr>)\<lparr>w_events := subscribers_change (w_events w) p (classify k) False\<rparr>
       else kept_change rt (w\<lparr>w_filter := f2\<rparr>) p k)"
    unfolding route_change_def r using q by (simp add: Let_def)
  ultimately show thesis
    using noted [of "w\<lparr>w_filter := f1\<rparr>"] kept [of "w\<lparr>w_filter := f2\<rparr>"]
      dropped [of "w\<lparr>w_filter := f2\<rparr>"]
    by (cases hidden; cases ignored) simp_all
qed

lemma route_change_tells:
  assumes "caches_ok lib d (w_filter w)" "listening (w_events w) i" "\<not> drops lib d (w_filter w) rt p"
  shows "told (w_events (route_change lib d rt w p k)) i (spelled rt p)"
  using assms(1)
proof (cases rule: route_change_cases [of lib d w p rt k])
  case (noted w1)
  with rescan_tells [OF assms(2), of "ruled_by rt p"] show ?thesis
    using change_tells by simp
next
  case (kept w1)
  with change_tells [OF assms(2)] show ?thesis by simp
qed (use assms(3) in blast)

lemma handle_paths_tell:
  "p \<in> set ps \<Longrightarrow> w_route w = Some rt \<Longrightarrow> caches_ok lib d (w_filter w) \<Longrightarrow> listening (w_events w) i
     \<Longrightarrow> \<not> drops lib d (w_filter w) rt p
     \<Longrightarrow> told (w_events (foldl (handle_path lib d k) w ps)) i (spelled rt p)"
proof (induction ps arbitrary: w)
  case (Cons q ps)
  let ?w = "handle_path lib d k w q"
  have w: "?w = route_change lib d rt w q k" using Cons.prems(2) by (simp add: handle_path_def)
  note g = handle_path_grows [of w lib d k q]
  note s = route_change_settled [OF Cons.prems(3), of rt q k]
  show ?case
  proof (cases "q = p")
    case True
    from route_change_tells [OF Cons.prems(3-5)] True w
    have "told (w_events ?w) i (spelled rt p)" by simp
    moreover have "listening (w_events ?w) i" using g Cons.prems(4) by (simp add: grows_def)
    ultimately show ?thesis
      using handle_paths_grow [of ?w lib d k ps] by (simp add: grows_def)
  next
    case False
    with Cons.prems g s w settled_drops [OF s] have "p \<in> set ps" "w_route ?w = Some rt"
      "caches_ok lib d (w_filter ?w)" "listening (w_events ?w) i" "\<not> drops lib d (w_filter ?w) rt p"
      by (auto simp: grows_def settled_def)
    from Cons.IH [OF this] show ?thesis by simp
  qed
qed simp

lemma route_change_silent:
  assumes "caches_ok lib d (w_filter w)" "listening (w_events w) i" "drops lib d (w_filter w) rt p"
    "\<not> is_ignore_file p"
  shows "sub_list (w_events (route_change lib d rt w p k)) ! i = sub_list (w_events w) ! i
    \<and> listening (w_events (route_change lib d rt w p k)) i"
  using assms(1)
proof (cases rule: route_change_cases [of lib d w p rt k])
  case (dropped w1)
  with assms(2) show ?thesis
    by (auto simp: subscribers_change_def listening_def hears_change_def)
qed (use assms(3,4) in blast)+

lemma handle_paths_silent:
  "\<forall>p \<in> set ps. drops lib d (w_filter w) rt p \<and> \<not> is_ignore_file p \<Longrightarrow> w_route w = Some rt
     \<Longrightarrow> caches_ok lib d (w_filter w) \<Longrightarrow> listening (w_events w) i
     \<Longrightarrow> sub_list (w_events (foldl (handle_path lib d k) w ps)) ! i = sub_list (w_events w) ! i"
proof (induction ps arbitrary: w)
  case (Cons q ps)
  let ?w = "handle_path lib d k w q"
  have w: "?w = route_change lib d rt w q k" using Cons.prems(2) by (simp add: handle_path_def)
  note s = route_change_settled [OF Cons.prems(3), of rt q k]
  have q: "drops lib d (w_filter w) rt q" "\<not> is_ignore_file q" using Cons.prems(1) by simp_all
  note silent = route_change_silent [OF Cons.prems(3,4) q, of k]
  have "\<forall>p \<in> set ps. drops lib d (w_filter ?w) rt p \<and> \<not> is_ignore_file p"
    using Cons.prems(1) settled_drops [OF s] by (simp add: w)
  moreover have "w_route ?w = Some rt"
    using handle_path_grows [of w lib d k q] Cons.prems(2) by simp
  ultimately have "sub_list (w_events (foldl (handle_path lib d k) ?w ps)) ! i = sub_list (w_events ?w) ! i"
    using Cons.IH [of ?w] s silent by (simp add: w settled_def)
  with silent show ?case by (simp add: w)
qed simp

section \<open>The walk covers\<close>

text \<open>The directories the walk from one reaches: those the filter keeps, all the way down.\<close>

inductive kept_below :: "'g ignore_lib \<Rightarrow> disk \<Rightarrow> settings \<Rightarrow> path \<Rightarrow> path \<Rightarrow> path \<Rightarrow> bool"
  for lib d st root where
  here: "kept_below lib d st root dir dir"
| below: "d_children d dir = Some es \<Longrightarrow> (name, True) \<in> set es
    \<Longrightarrow> \<not> (\<exists>rel. strip_prefix root (dir @ [name]) = Some rel \<and> pure_decide lib d st rel True True)
    \<Longrightarrow> kept_below lib d st root (dir @ [name]) p \<Longrightarrow> kept_below lib d st root dir p"

lemma kept_below_prefix: "kept_below lib d st root dir p \<Longrightarrow> prefix dir p"
  by (induction rule: kept_below.induct) (auto simp: prefix_def)

definition covered :: "('g, 'r) watch \<Rightarrow> path \<Rightarrow> bool" where
  "covered w p \<longleftrightarrow> p \<in> set (w_watched w) \<or> (\<exists>q \<in> set (w_uncovered w). prefix q p)"

text \<open>The states the OS is in while it is asked for watches, and a watch it then cannot give.\<close>

inductive os_asked :: "'r registrar \<Rightarrow> 'r \<Rightarrow> 'r \<Rightarrow> bool" for reg where
  not_asked: "os_asked reg os os"
| asked: "os_asked reg os os' \<Longrightarrow> os_asked reg os (snd (reg_watch reg os' p))"

lemma os_asked_trans: "os_asked reg b c \<Longrightarrow> os_asked reg a b \<Longrightarrow> os_asked reg a c"
  by (induction rule: os_asked.induct) (auto intro: os_asked.intros)

definition unwatchable :: "'r registrar \<Rightarrow> 'r \<Rightarrow> path \<Rightarrow> bool" where
  "unwatchable reg os p \<longleftrightarrow> (\<exists>os'. os_asked reg os os' \<and> fst (reg_watch reg os' p) = CannotWatch)"

lemma unwatchable_later: "os_asked reg os os' \<Longrightarrow> unwatchable reg os' p \<Longrightarrow> unwatchable reg os p"
  by (auto simp: unwatchable_def intro: os_asked_trans)

text \<open>Watched, listed, or below a directory the OS gave no watch for.\<close>

definition followed :: "'r registrar \<Rightarrow> 'r \<Rightarrow> path \<Rightarrow> ('g, 'r) watch \<Rightarrow> path \<Rightarrow> bool" where
  "followed reg os dir w p \<longleftrightarrow>
     covered w p \<or> (\<exists>q. prefix dir q \<and> prefix q p \<and> unwatchable reg os q)"

text \<open>The tree ends: no directory that can be read lies deeper than \<open>N\<close>.\<close>

definition depth_bound :: "disk \<Rightarrow> nat \<Rightarrow> bool" where
  "depth_bound d N \<longleftrightarrow> (\<forall>p. d_children d p \<noteq> None \<longrightarrow> length p \<le> N)"

lemma follower_ignores_spec:
  assumes "caches_ok lib d f"
  shows "fst (follower_ignores lib d root f p) =
      (\<exists>rel. strip_prefix root p = Some rel \<and> pure_decide lib d (settings_of f) rel True True)
    \<and> settled lib d f (snd (follower_ignores lib d root f p))"
  using assms by (auto simp: follower_ignores_def settled_def ignore_def decide_path_spec split: option.splits)

lemma kept_children_spec:
  "caches_ok lib d f \<Longrightarrow>
     (\<exists>cs. fst (kept_children lib d root dir f es stack) = cs @ stack
        \<and> set cs = {dir @ [name] | name. (name, True) \<in> set es
            \<and> \<not> (\<exists>rel. strip_prefix root (dir @ [name]) = Some rel
                  \<and> pure_decide lib d (settings_of f) rel True True)})
     \<and> settled lib d f (snd (kept_children lib d root dir f es stack))"
proof (induction lib d root dir f es stack rule: kept_children.induct)
  case (1 lib d root dir f stack)
  then show ?case by (simp add: settled_def)
next
  case (2 lib d root dir f name is_dir es stack)
  show ?case
  proof (cases is_dir)
    case False
    with 2 show ?thesis by auto
  next
    case True
    obtain ignored f1 where r: "follower_ignores lib d root f (dir @ [name]) = (ignored, f1)"
      by (rule prod.exhaust)
    with follower_ignores_spec [OF "2.prems", of root "dir @ [name]"]
    have f1: "caches_ok lib d f1" "settings_of f1 = settings_of f"
      and ignored: "ignored = (\<exists>rel. strip_prefix root (dir @ [name]) = Some rel
          \<and> pure_decide lib d (settings_of f) rel True True)"
      by (simp_all add: settled_def)
    from "2.IH"(2) [OF _ r [symmetric] f1(1)] True f1(2) obtain cs where
      "fst (kept_children lib d root dir f1 es (if ignored then stack else (dir @ [name]) # stack)) =
         cs @ (if ignored then stack else (dir @ [name]) # stack)"
      "set cs = {dir @ [n] | n. (n, True) \<in> set es
         \<and> \<not> (\<exists>rel. strip_prefix root (dir @ [n]) = Some rel
               \<and> pure_decide lib d (settings_of f) rel True True)}"
      "settled lib d f1 (snd (kept_children lib d root dir f1 es
         (if ignored then stack else (dir @ [name]) # stack)))"
      by auto
    with True r f1 ignored show ?thesis
      by (cases ignored)
        (auto simp: settled_def intro!: exI [of _ cs] exI [of _ "cs @ [dir @ [name]]"])
  qed
qed

lemma watch_dir_spec:
  "w_filter (snd (watch_dir reg w dir)) = w_filter w \<and> w_root (snd (watch_dir reg w dir)) = w_root w
    \<and> set (w_watched w) \<subseteq> set (w_watched (snd (watch_dir reg w dir)))
    \<and> set (w_uncovered w) \<subseteq> set (w_uncovered (snd (watch_dir reg w dir)))
    \<and> os_asked reg (w_os w) (w_os (snd (watch_dir reg w dir)))
    \<and> (if fst (watch_dir reg w dir) then dir \<in> set (w_watched (snd (watch_dir reg w dir)))
       else dir \<in> set (w_uncovered (snd (watch_dir reg w dir))) \<or> unwatchable reg (w_os w) dir)"
proof (cases "dir \<in> set (w_watched w)")
  case True
  then show ?thesis by (auto simp: watch_dir_def not_asked)
next
  case False
  obtain out os where r: "reg_watch reg (w_os w) dir = (out, os)" by (rule prod.exhaust)
  have os: "os_asked reg (w_os w) os" using asked [OF not_asked, of reg "w_os w" dir] r by simp
  have "unwatchable reg (w_os w) dir" if "out = CannotWatch"
    using that r unfolding unwatchable_def by (metis fst_conv not_asked)
  with False r os show ?thesis by (cases out) (auto simp: watch_dir_def)
qed

text \<open>Everything a walk leaves as it was, and what it adds.\<close>

definition walked ::
  "'g ignore_lib \<Rightarrow> 'r registrar \<Rightarrow> disk \<Rightarrow> ('g, 'r) watch \<Rightarrow> ('g, 'r) watch \<Rightarrow> bool" where
  "walked lib reg d w w' \<longleftrightarrow>
     settled lib d (w_filter w) (w_filter w') \<and> w_root w' = w_root w
     \<and> set (w_watched w) \<subseteq> set (w_watched w') \<and> set (w_uncovered w) \<subseteq> set (w_uncovered w')
     \<and> os_asked reg (w_os w) (w_os w')"

lemma walked_trans: "walked lib reg d w w' \<Longrightarrow> walked lib reg d w' w'' \<Longrightarrow> walked lib reg d w w''"
  by (auto simp: walked_def settled_def intro: os_asked_trans)

lemma walked_covered: "walked lib reg d w w' \<Longrightarrow> covered w p \<Longrightarrow> covered w' p"
  by (auto simp: walked_def covered_def)

lemma walked_followed:
  "walked lib reg d w w' \<Longrightarrow> followed reg os dir w p \<Longrightarrow> followed reg os dir w' p"
  by (auto simp: followed_def dest: walked_covered)

lemma followed_earlier:
  "followed reg os' dir' w p \<Longrightarrow> os_asked reg os os' \<Longrightarrow> prefix dir dir' \<Longrightarrow> followed reg os dir w p"
  by (auto simp: followed_def intro: unwatchable_later prefix_order.trans)

lemma cover_one_spec:
  assumes "caches_ok lib d (w_filter w)"
  obtains cs w1 where "cover_one lib reg d w dir stack = (cs @ stack, w1)" "walked lib reg d w w1"
    "followed reg (w_os w) dir w1 dir"
    "(\<forall>p. prefix dir p \<longrightarrow> followed reg (w_os w) dir w1 p) \<and> cs = []
     \<or> set cs = {dir @ [name] | name. \<exists>es. d_children d dir = Some es \<and> (name, True) \<in> set es
         \<and> \<not> (\<exists>rel. strip_prefix (w_root w) (dir @ [name]) = Some rel
               \<and> pure_decide lib d (settings_of (w_filter w)) rel True True)}"
proof -
  obtain b w0 where b: "watch_dir reg w dir = (b, w0)" by (rule prod.exhaust)
  note wd = watch_dir_spec [of reg w dir, unfolded b fst_conv snd_conv]
  then have w0: "walked lib reg d w w0" using assms by (simp add: walked_def settled_def)
  show thesis
  proof (cases "b \<and> d_children d dir \<noteq> None")
    case False
    show thesis
    proof (rule that [of "[]" w0])
      show "cover_one lib reg d w dir stack = ([] @ stack, w0)"
        using False b by (auto simp: cover_one_def split: bool.splits)
      show "followed reg (w_os w) dir w0 dir" using wd by (auto simp: followed_def covered_def split: if_splits)
      show "(\<forall>p. prefix dir p \<longrightarrow> followed reg (w_os w) dir w0 p) \<and> [] = []
        \<or> set [] = {dir @ [name] | name. \<exists>es. d_children d dir = Some es \<and> (name, True) \<in> set es
          \<and> \<not> (\<exists>rel. strip_prefix (w_root w) (dir @ [name]) = Some rel
               \<and> pure_decide lib d (settings_of (w_filter w)) rel True True)}"
      proof (cases b)
        case True
        with False show ?thesis by simp
      next
        case no: False
        then show ?thesis using wd by (auto simp: followed_def covered_def)
      qed
    qed (rule w0)
  next
    case True
    then obtain es where es: "d_children d dir = Some es" by auto
    have f0: "caches_ok lib d (w_filter w0)" using wd assms by simp
    from kept_children_spec [OF f0, of "w_root w0" dir es stack] obtain cs where
      cs: "fst (kept_children lib d (w_root w0) dir (w_filter w0) es stack) = cs @ stack"
      "set cs = {dir @ [name] | name. (name, True) \<in> set es
            \<and> \<not> (\<exists>rel. strip_prefix (w_root w0) (dir @ [name]) = Some rel
                  \<and> pure_decide lib d (settings_of (w_filter w0)) rel True True)}"
      and st: "settled lib d (w_filter w0) (snd (kept_children lib d (w_root w0) dir (w_filter w0) es stack))"
      by blast
    let ?w1 = "w0\<lparr>w_filter := snd (kept_children lib d (w_root w0) dir (w_filter w0) es stack)\<rparr>"
    show thesis
    proof (rule that [of cs ?w1])
      show "cover_one lib reg d w dir stack = (cs @ stack, ?w1)"
        using True b es cs(1) by (simp add: cover_one_def case_prod_beta)
      show "walked lib reg d w ?w1" using w0 st by (simp add: walked_def settled_def)
      show "followed reg (w_os w) dir ?w1 dir" using True wd by (simp add: followed_def covered_def)
    qed (use cs(2) wd es in simp)
  qed
qed

lemma cover_loop_spec:
  assumes "depth_bound d N"
  shows "caches_ok lib d (w_filter w) \<Longrightarrow>
     \<exists>w'. cover_loop lib reg d w stack = Some w' \<and> walked lib reg d w w'
       \<and> (\<forall>dir \<in> set stack. \<forall>p. kept_below lib d (settings_of (w_filter w)) (w_root w) dir p
            \<longrightarrow> followed reg (w_os w) dir w' p)"
proof (induction "mset (map (\<lambda>p. Suc N - length p) stack)" arbitrary: stack w
    rule: wf_induct_rule [OF wf_mult [OF wf_less_than]])
  case (1 stack w)
  show ?case
  proof (cases stack)
    case Nil
    with 1(2) show ?thesis by (simp add: cover_loop.simps walked_def settled_def not_asked)
  next
    case (Cons dir rest)
    let ?st = "settings_of (w_filter w)"
    obtain cs w1 where one: "cover_one lib reg d w dir rest = (cs @ rest, w1)" "walked lib reg d w w1"
      "followed reg (w_os w) dir w1 dir"
      and cs: "(\<forall>p. prefix dir p \<longrightarrow> followed reg (w_os w) dir w1 p) \<and> cs = []
        \<or> set cs = {dir @ [name] | name. \<exists>es. d_children d dir = Some es \<and> (name, True) \<in> set es
         \<and> \<not> (\<exists>rel. strip_prefix (w_root w) (dir @ [name]) = Some rel
               \<and> pure_decide lib d ?st rel True True)}"
      by (rule cover_one_spec [OF 1(2), of reg dir rest])
    have deeper: "(Suc N - length c, Suc N - length dir) \<in> less_than" if "c \<in> set cs" for c
    proof -
      from that cs obtain name es where "c = dir @ [name]" "d_children d dir = Some es" by auto
      moreover from this have "length dir \<le> N" using assms by (auto simp: depth_bound_def)
      ultimately show ?thesis by simp
    qed
    have "(mset (map (\<lambda>p. Suc N - length p) rest) + mset (map (\<lambda>p. Suc N - length p) cs),
        mset (map (\<lambda>p. Suc N - length p) rest) + {#Suc N - length dir#}) \<in> mult less_than"
      by (rule one_step_implies_mult) (use deeper in auto)
    then have smaller: "(mset (map (\<lambda>p. Suc N - length p) (cs @ rest)),
        mset (map (\<lambda>p. Suc N - length p) stack)) \<in> mult less_than"
      by (simp add: Cons add.commute)
    have w1: "caches_ok lib d (w_filter w1)" "settings_of (w_filter w1) = ?st" "w_root w1 = w_root w"
      "os_asked reg (w_os w) (w_os w1)"
      using one(2) by (simp_all add: walked_def settled_def)
    from 1(1) [OF smaller w1(1)] w1 obtain w' where
      w': "cover_loop lib reg d w1 (cs @ rest) = Some w'" "walked lib reg d w1 w'"
      "\<forall>dir \<in> set (cs @ rest). \<forall>p. kept_below lib d ?st (w_root w) dir p \<longrightarrow> followed reg (w_os w1) dir w' p"
      by auto
    have top: "followed reg (w_os w) dir w' p" if "kept_below lib d ?st (w_root w) dir p" for p
    proof (cases "\<forall>p. prefix dir p \<longrightarrow> followed reg (w_os w) dir w1 p")
      case True
      with kept_below_prefix [OF that] w'(2) show ?thesis by (blast intro: walked_followed)
    next
      case False
      from that show ?thesis
      proof cases
        case here
        with one(3) w'(2) show ?thesis by (blast intro: walked_followed)
      next
        case (below es name)
        with cs False have "dir @ [name] \<in> set cs" by blast
        with w'(3) below(4) have "followed reg (w_os w1) (dir @ [name]) w' p" by auto
        then show ?thesis by (rule followed_earlier [OF _ w1(4)]) simp
      qed
    qed
    have other: "followed reg (w_os w) dir' w' p"
      if "dir' \<in> set rest" "kept_below lib d ?st (w_root w) dir' p" for dir' p
    proof (rule followed_earlier [OF _ w1(4)])
      show "followed reg (w_os w1) dir' w' p" using that w'(3) by auto
    qed simp
    have "walked lib reg d w w'" by (rule walked_trans [OF one(2) w'(2)])
    with top other show ?thesis
      using w'(1) one(1) by (auto simp: Cons cover_loop.simps [of _ _ _ w])
  qed
qed

section \<open>What may come in between\<close>

definition update_listener ::
  "nat \<Rightarrow> (pending_state option \<Rightarrow> pending_state option) \<Rightarrow> subscribers \<Rightarrow> subscribers" where
  "update_listener k f s =
     s\<lparr>sub_list := (sub_list s)[k := (sub_list s ! k)\<lparr>l_pending := f (l_pending (sub_list s ! k))\<rparr>]\<rparr>"

text \<open>Where \<open>subscribe\<close> leaves the listener at a place: those dropped before it are gone.\<close>

definition moved_to :: "subscribers \<Rightarrow> nat \<Rightarrow> nat" where
  "moved_to s i = length (filter (\<lambda>l. l_pending l \<noteq> None) (take i (sub_list s)))"

text \<open>
  Everything that can happen to a watch while the subscriber at a place has not taken its batch:
  the events and errors of the OS, turns of the follower, \<open>refilter\<close>, new subscribers, others who
  take theirs or go, and the end of the watch.
\<close>

inductive meanwhile ::
  "'g ignore_lib \<Rightarrow> 'r registrar \<Rightarrow> ('g, 'r) watch \<Rightarrow> nat \<Rightarrow> ('g, 'r) watch \<Rightarrow> nat \<Rightarrow> bool"
  for lib reg w i where
  no_time: "meanwhile lib reg w i w i"
| an_event: "meanwhile lib reg w i v j \<Longrightarrow> meanwhile lib reg w i (handle_event lib d v res) j"
| a_turn: "meanwhile lib reg w i v j \<Longrightarrow> follower_turn lib reg d v = Some v'
    \<Longrightarrow> meanwhile lib reg w i v' j"
| a_refilter: "meanwhile lib reg w i v j \<Longrightarrow> meanwhile lib reg w i (watcher_refilter v) j"
| a_subscriber: "meanwhile lib reg w i v j
    \<Longrightarrow> meanwhile lib reg w i (v\<lparr>w_events := subscribe (w_events v) sc\<rparr>) (moved_to (w_events v) j)"
| another_takes: "meanwhile lib reg w i v j \<Longrightarrow> k \<noteq> j
    \<Longrightarrow> meanwhile lib reg w i
          (v\<lparr>w_events := update_listener k (map_option (\<lambda>st. snd (take_batch st))) (w_events v)\<rparr>) j"
| another_goes: "meanwhile lib reg w i v j \<Longrightarrow> k \<noteq> j
    \<Longrightarrow> meanwhile lib reg w i (v\<lparr>w_events := update_listener k (\<lambda>_. None) (w_events v)\<rparr>) j"
| the_end: "meanwhile lib reg w i v j
    \<Longrightarrow> meanwhile lib reg w i (v\<lparr>w_events := subscribers_close (w_events v)\<rparr>) j"

lemma cover_loop_events:
  assumes ret: "cover_loop lib reg d w stack = Some w'"
  shows "w_events w' = w_events w"
proof (rule cover_loop.raw_induct [where P = "\<lambda>lib reg d w stack w'. w_events w' = w_events w", OF _ ret])
  fix go :: "'a ignore_lib \<Rightarrow> 'b registrar \<Rightarrow> disk \<Rightarrow> ('a, 'b) watch \<Rightarrow> path list \<Rightarrow> ('a, 'b) watch option"
    and lib reg d w stack w'
  assume IH: "\<And>lib reg d w stack w'. go lib reg d w stack = Some w' \<Longrightarrow> w_events w' = w_events w"
    and body: "(case stack of [] \<Rightarrow> Some w
      | dir # rest \<Rightarrow> (case cover_one lib reg d w dir rest of (stack', w') \<Rightarrow> go lib reg d w' stack')) = Some w'"
  show "w_events w' = w_events w"
  proof (cases stack)
    case (Cons dir rest)
    obtain stack' v where one: "cover_one lib reg d w dir rest = (stack', v)" by (rule prod.exhaust)
    then have "w_events v = w_events w"
      by (auto simp: cover_one_def watch_dir_def split: prod.splits bool.splits watch_outcome.splits
          option.splits if_splits)
    with IH body one Cons show ?thesis by simp
  qed (use body in simp)
qed

lemma forget_under_events [simp]: "w_events (forget_under reg w p) = w_events w"
proof -
  have "w_events (foldl (unwatch_dir reg) w ps) = w_events w" for ps
    by (induction ps arbitrary: w) (simp_all add: unwatch_dir_def)
  then show ?thesis by (simp add: forget_under_def)
qed

lemma follow_grows: "follow lib reg d w msg = Some w' \<Longrightarrow> grows (w_events w) (w_events w')"
proof (cases msg)
  case (Refilter dir)
  have "w_events (foldl (forget_under reg) v ds) = w_events v" for v :: "('a, 'b) watch" and ds
    by (induction ds arbitrary: v) simp_all
  then show "follow lib reg d w msg = Some w' \<Longrightarrow> ?thesis"
    using Refilter by (auto simp: refilter_under_def cover_def dest!: cover_loop_events split: prod.splits)
qed (auto simp: appeared_def cover_def Let_def dest!: cover_loop_events split: if_splits prod.splits
    intro: grows_rescan [THEN grows_trans [OF _ grows_refl]])

lemma turn_grows: "follower_turn lib reg d w = Some w' \<Longrightarrow> grows (w_events w) (w_events w')"
  by (auto simp: follower_turn_def dest: follow_grows split: list.splits)

lemma refilter_grows: "grows (w_events w) (w_events (watcher_refilter w))"
  by (simp add: watcher_refilter_def grows_rescan split: option.split)

lemma subscribe_keeps:
  assumes "listening s i"
  shows "moved_to s i < length (sub_list (subscribe s sc)) \<and>
    sub_list (subscribe s sc) ! moved_to s i = sub_list s ! i"
proof -
  let ?live = "\<lambda>l. l_pending l \<noteq> None"
  have i: "i < length (sub_list s)" "?live (sub_list s ! i)" using assms by (auto simp: listening_def)
  have "filter ?live (sub_list s) =
      filter ?live (take i (sub_list s) @ sub_list s ! i # drop (Suc i) (sub_list s))"
    by (rule arg_cong [OF id_take_nth_drop [OF i(1)]])
  with i(2) have "filter ?live (sub_list s) =
      filter ?live (take i (sub_list s)) @ sub_list s ! i # filter ?live (drop (Suc i) (sub_list s))"
    by (simp only: filter_append filter.simps simp_thms if_True)
  then show ?thesis by (simp add: subscribe_def moved_to_def nth_append)
qed

lemma pending_close_same [simp]:
  "pending_inv (pending_close st) = pending_inv st" "noted (pending_close st) q = noted st q"
  by (simp_all add: pending_close_def pending_inv_def noted_def)

lemma close_keeps: "grows s (subscribers_close s)"
  by (auto simp: grows_def listening_def told_def subscribers_close_def)

lemma meanwhile_keeps:
  assumes "meanwhile lib reg w i v j" "listening (w_events w) i"
  shows "listening (w_events v) j \<and> (\<forall>q. told (w_events w) i q \<longrightarrow> told (w_events v) j q)"
  using assms
proof (induction rule: meanwhile.induct)
  case (an_event v j d res)
  with handle_event_grows [of v lib d res] show ?case by (simp add: grows_def)
next
  case (a_turn v j d v')
  with turn_grows [OF a_turn.hyps(2)] show ?case by (simp add: grows_def)
next
  case (a_refilter v j)
  with refilter_grows [of v] show ?case by (simp add: grows_def)
next
  case (a_subscriber v j sc)
  with subscribe_keeps [of "w_events v" j sc] show ?case by (auto simp: listening_def told_def)
next
  case (the_end v j)
  with close_keeps [of "w_events v"] show ?case by (simp add: grows_def)
qed (auto simp: listening_def told_def update_listener_def)

section \<open>What is not followed\<close>

text \<open>
  A directory moved away is not forgotten: a rename is never told as \<open>Gone\<close>. One made again
  under its name counts as watched already, so no watch is asked for it.
\<close>

lemma rename_is_not_gone:
  "set (w_inbox (kept_change rt w p (OsModify m))) \<subseteq> set (w_inbox w) \<union> {Appeared (spelled rt p)}"
  by (cases m) (auto simp: kept_change_def tell_def Let_def)

lemma moved_away_stays_watched:
  assumes "p \<in> set (w_watched w)"
  shows "follow lib reg gone w (Appeared p) = Some w"
    and "follow lib reg back w (Appeared p) = Some w"
  using assms by (simp_all add: appeared_def)

definition rules_kept :: "'g filter_state \<Rightarrow> 'g filter_state \<Rightarrow> bool" where
  "rules_kept f f' \<longleftrightarrow> (\<forall>dir r. map_of (f_rules f) dir = Some r \<longrightarrow> map_of (f_rules f') dir = Some r)"

lemma rules_kept_trans: "rules_kept f g \<Longrightarrow> rules_kept g h \<Longrightarrow> rules_kept f h"
  by (simp add: rules_kept_def)

lemma rules_kept_same [simp]: "rules_kept f f" "rules_kept f (g\<lparr>f_chains := c\<rparr>) = rules_kept f g"
  "rules_kept f (g\<lparr>f_dirs := ds\<rparr>) = rules_kept f g"
  by (simp_all add: rules_kept_def)

lemma rules_of_keeps: "rules_kept f (snd (rules_of lib d f dir))"
  by (auto simp: rules_of_def rules_kept_def update_conv' Let_def split: option.splits)

lemma remember_chain_keeps [simp]:
  "rules_kept f (snd (remember_chain dir r)) = rules_kept f (snd r)"
  by (simp add: remember_chain_def split: prod.splits)

lemma chain_of_keeps: "rules_kept f (snd (chain_of lib d f dir))"
proof (induction lib d f dir rule: chain_of.induct)
  case (1 lib d f dir)
  show ?case
  proof (cases "map_of (f_chains f) dir = None \<and> f_root f \<noteq> [] \<and> dir \<noteq> []")
    case False
    then show ?thesis
      using rules_of_keeps [of f lib d dir]
      by (auto simp: chain_of.simps [of lib d f dir] split: option.splits prod.splits)
  next
    case True
    obtain upper g where g: "chain_of lib d f (dir_of dir) = (upper, g)" by (rule prod.exhaust)
    obtain r h where h: "rules_of lib d g dir = (r, h)" by (rule prod.exhaust)
    have "rules_kept f g" using 1 True g by simp
    moreover have "rules_kept g h" using rules_of_keeps [of g lib d dir] h by simp
    ultimately have "rules_kept f h" by (rule rules_kept_trans)
    with \<open>rules_kept f g\<close> True g h show ?thesis
      by (auto simp: chain_of.simps [of lib d f dir] split: option.splits)
  qed
qed

lemma decide_path_keeps: "rules_kept f (snd (decide_path lib d f p b w))"
proof -
  have "rules_kept f (snd (git_decision lib d f p b))"
    using chain_of_keeps [of f lib d]
    by (auto simp: git_decision_def case_prod_beta split: option.splits)
  then show ?thesis by (auto simp: decide_path_def case_prod_beta split: default_rule.splits)
qed

lemma dir_ignored_keeps: "rules_kept f (snd (dir_ignored lib d f dir))"
  using decide_path_keeps [of f lib d dir True True]
  by (auto simp: dir_ignored_def ignore_def case_prod_beta split: option.splits)

lemma ask_any_keeps: "rules_kept f (snd (ask_any (dir_ignored lib d) f ps))"
proof (induction ps arbitrary: f)
  case (Cons p ps)
  show ?case
    using dir_ignored_keeps [of f lib d p] Cons.IH [of "snd (dir_ignored lib d f p)"]
    by (auto simp: case_prod_beta intro: rules_kept_trans)
qed simp

lemma ignore_change_keeps: "rules_kept f (snd (ignore_change lib d f p b))"
proof -
  define r where "r = (if f_include f = [] then ask_any (dir_ignored lib d) f (dirs_above p) else (False, f))"
  have "rules_kept f (snd r)" using ask_any_keeps [of f lib d "dirs_above p"] by (simp add: r_def)
  then show ?thesis
    using decide_path_keeps [of "snd r" lib d p b True]
    by (auto simp: ignore_change_def r_def [symmetric] ignore_def case_prod_beta intro: rules_kept_trans)
qed

text \<open>
  An ignore file edited inside an ignored directory is not noted, so the rules read from it before
  are kept, also past the edit that stops ignoring the directory: its old rules then judge.
\<close>

lemma hidden_edit_is_not_noted:
  assumes "fst (in_ignored_dir lib d rt (w_filter w) p)"
  shows "rules_kept (w_filter w) (w_filter (route_change lib d rt w p k))"
proof -
  obtain f1 where f1: "in_ignored_dir lib d rt (w_filter w) p = (True, f1)"
    using assms by (metis prod.collapse)
  have "rules_kept (w_filter w) f1"
    using arg_cong [OF f1, of snd] ignore_change_keeps [of "w_filter w" lib d]
    by (auto simp: in_ignored_dir_def split: option.splits if_splits)
  then have r: "(if is_ignore_file p then in_ignored_dir lib d rt (w_filter w) p else (True, w_filter w)) =
      (True, if is_ignore_file p then f1 else w_filter w)"
    "rules_kept (w_filter w) (if is_ignore_file p then f1 else w_filter w)"
    using f1 by simp_all
  let ?f = "if is_ignore_file p then f1 else w_filter w"
  have "rules_kept ?f (snd (case relative (rt_roots rt) p of
      Some rel \<Rightarrow> ignore_change lib d ?f rel (d_dir d p) | None \<Rightarrow> (False, ?f)))"
    by (auto simp: ignore_change_keeps split: option.splits)
  from rules_kept_trans [OF r(2) this] show ?thesis
    unfolding route_change_def r(1)
    by (simp add: case_prod_beta Let_def)
qed

lemma stale_rules_judge:
  assumes "map_of (f_rules (w_filter w)) dir = Some old"
    and "fst (in_ignored_dir lib d rt (w_filter w) p)"
    and "ruled_dir q \<noteq> dir"
  shows "fst (rules_of lib later (note_ignore_file (w_filter (route_change lib d rt w p k)) q) dir) = old"
  using hidden_edit_is_not_noted [OF assms(2), of k] assms(1,3)
  by (simp add: rules_kept_def rules_of_def note_ignore_file_def forget_decisions_def delete_conv')

section \<open>What the filter answers when it is asked\<close>

text \<open>The router asks about an ignore file's directory first, which fills the filter's caches.\<close>

definition hides_now :: "'g ignore_lib \<Rightarrow> disk \<Rightarrow> route \<Rightarrow> 'g filter_state \<Rightarrow> path \<Rightarrow> bool" where
  "hides_now lib d rt f p \<longleftrightarrow>
     (case relative (rt_roots rt) p of
        Some rel \<Rightarrow>
          fst (ignore_change lib d (if is_ignore_file p then snd (in_ignored_dir lib d rt f p) else f) rel
            (d_dir d p))
      | None \<Rightarrow> False)"

lemma hides_now_fresh:
  assumes "caches_ok lib d f"
  shows "hides_now lib d rt f p = drops lib d f rt p"
proof -
  define g where "g = (if is_ignore_file p then snd (in_ignored_dir lib d rt f p) else f)"
  have "caches_ok lib d g" "settings_of g = settings_of f"
    using in_ignored_dir_settled [OF assms, of rt p] assms by (auto simp: g_def settled_def)
  then show ?thesis
    unfolding hides_now_def g_def [symmetric] drops_pure by (simp add: ignore_change_spec split: option.split)
qed

lemma kept_now_told:
  assumes "listening (w_events w) i" "\<not> hides_now lib d rt (w_filter w) p"
  shows "told (w_events (route_change lib d rt w p k)) i (spelled rt p)"
proof -
  obtain hidden f1 where r: "(if is_ignore_file p then in_ignored_dir lib d rt (w_filter w) p
      else (True, w_filter w)) = (hidden, f1)" by (rule prod.exhaust)
  let ?w1 = "w\<lparr>w_filter := f1\<rparr>"
  show ?thesis
  proof (cases hidden)
    case False
    with r have "route_change lib d rt w p k = kept_change rt (note_rules rt ?w1 p) p k"
      by (simp add: route_change_def Let_def)
    with rescan_tells [OF assms(1), of "ruled_by rt p"] change_tells show ?thesis by simp
  next
    case True
    have "f1 = (if is_ignore_file p then snd (in_ignored_dir lib d rt (w_filter w) p) else w_filter w)"
      using r by (auto split: if_splits)
    with assms(2) obtain f2 where "(case relative (rt_roots rt) p of
        Some rel \<Rightarrow> ignore_change lib d f1 rel (d_dir d p) | None \<Rightarrow> (False, f1)) = (False, f2)"
      by (cases "relative (rt_roots rt) p") (auto simp: hides_now_def, metis prod.collapse)
    with r True have "route_change lib d rt w p k = kept_change rt (?w1\<lparr>w_filter := f2\<rparr>) p k"
      by (simp add: route_change_def Let_def)
    with change_tells [OF assms(1)] show ?thesis by simp
  qed
qed

section \<open>A small world\<close>

definition demo_route :: route where
  "demo_route = \<lparr>rt_roots = [demo_root], rt_follows = True\<rparr>"

definition demo_watch :: "(path \<times> string list, nat) watch" where
  "demo_watch =
     \<lparr>w_events = subscribe (subscribers_new [demo_root] [demo_root]) None,
      w_route = Some demo_route, w_filter = filter_new demo_root [''gen''] [] None,
      w_inbox = [], w_root = demo_root, w_watched = [], w_uncovered = [], w_os = 0\<rparr>"

text \<open>A tree of two directories, \<open>gen\<close> excluded, and an OS that allows two watches.\<close>

definition demo_tree :: disk where
  "demo_tree = (disk_of [])\<lparr>d_dir := (\<lambda>p. p \<in> set [demo_root, demo_root @ [''a''], demo_root @ [''gen'']]),
     d_children := (\<lambda>p. if p = demo_root then Some [(''a'', True), (''gen'', True), (''f'', False)]
       else if p = demo_root @ [''a''] then Some [] else None)\<rparr>"

definition demo_registrar :: "nat registrar" where
  "demo_registrar =
     \<lparr>reg_watch = (\<lambda>n p. if n < 2 then (Watching, n + 1) else (PastLimit, n)), reg_unwatch = (\<lambda>n p. n - 1)\<rparr>"

lemma demo_listens: "listening (w_events demo_watch) 0"
  using pending_new_inv
  by (simp add: demo_watch_def listening_def subscribe_def subscribers_new_def)

lemma demo_relative: "relative (rt_roots demo_route) (demo_root @ rel) = Some rel"
  by (simp add: demo_route_def)

lemma demo_entries: "parse_filter_entries [''gen''] = [Segment ''gen'']"
proof -
  have no_ws: "trim_front WHITESPACE ''gen'' = ''gen''"
    "trim_front (map rev WHITESPACE) ''neg'' = ''neg''"
    "trim_front [''/''] ''gen'' = ''gen''" "trim_front (map rev [''/'']) ''neg'' = ''neg''"
    by (rule trim_front_id; simp add: WHITESPACE_def upt_rec numeral_eq_Suc; code_simp)+
  then show ?thesis
    by (simp add: parse_filter_entries_def List.map_filter_def parse_filter_entry_def trim_def
        trim_slashes_def trim_back_def)
qed

lemma demo_no_rules: "f_root s = demo_root \<Longrightarrow> f_global s = None \<Longrightarrow>
    read_rules names_lib demo_tree s dir = (if dir = [] then Some (demo_root, []) else None)"
  by (auto simp: read_rules_def root_gitignore_def folder_gitignore_def exclude_file_def names_lib_def
      demo_tree_def disk_of_def join_path_def is_absolute_def option_list_def demo_root_def Let_def)

lemma demo_no_verdict: "gitignore_decision names_lib [(demo_root, [])] p b = VNone"
  by (simp add: gitignore_decision_def names_lib_def names_matched_def)

lemma demo_chains: "f_root s = demo_root \<Longrightarrow> f_global s = None \<Longrightarrow>
    pure_chain names_lib demo_tree s dir = [(demo_root, [])]"
proof (induction names_lib demo_tree s dir rule: pure_chain.induct)
  case (1 s dir)
  have "demo_root \<noteq> []" by (simp add: demo_root_def)
  then show ?case
    using 1 by (simp add: pure_chain.simps [of _ _ s dir] demo_no_rules demo_no_verdict option_list_def Let_def)
qed

lemma demo_decides: "pure_decide names_lib demo_tree (settings_of (w_filter demo_watch)) [c] b True =
    (default_of b True [c] = Drop \<or> default_of b True [c] = ByNegation \<or> default_of b True [c] = NoRule \<and> c = ''gen'')"
proof -
  let ?st = "settings_of (w_filter demo_watch)"
  have st: "f_root ?st = demo_root" "f_global ?st = None" "f_include ?st = []"
    "f_exclude ?st = [Segment ''gen'']"
    using demo_entries by (simp_all add: demo_watch_def filter_new_def parse_filter_entries_def)
  have git: "pure_git names_lib demo_tree ?st p b' = VNone" for p b'
    by (simp add: pure_git_def demo_chains [OF st(1,2)] demo_no_verdict split: option.splits)
  have gen: "matches_filter_entries [Segment ''gen''] [c] = (c = ''gen'')"
    by (simp add: matches_filter_entries_def normal_def) blast
  show ?thesis
    by (cases "default_of b True [c]")
      (simp_all only: pure_decide_def git st gen, simp_all add: matches_filter_entries_def)
qed

lemma demo_reach: "filter_reach names_lib demo_tree (w_filter demo_watch)"
  by (simp add: demo_watch_def filter_reach.built)

lemma demo_drops:
  "normal c \<Longrightarrow> c \<noteq> ''.oxplow'' \<Longrightarrow> c \<noteq> ''.git'' \<Longrightarrow>
     drops names_lib demo_tree (w_filter demo_watch) demo_route (demo_root @ [c]) = (c = ''gen'')"
  by (simp add: drops_pure demo_relative pure_ignore_change_def dirs_above_def ancestors.simps [of "[c]"]
      ancestors.simps [of "[]"] parent_def demo_decides DEFAULT_IGNORED_SEGMENTS_def normal_def)

section \<open>Properties\<close>

text \<open>
  C28. What the filter keeps is told. Take a path an OS event names, of any kind but a read, that the
  filter keeps when the router asks it, after the paths named before it; or one a filter that
  reads the disk now keeps, while the caches hold what the disk says. It is in the next batch of
  every subscriber without a scope, in the root's own spelling, whatever happens to the watch
  before that subscriber takes the batch: more events, errors and lost events, the follower's
  turns, new rules, others who subscribe, take theirs or go, and the end of the watch.
\<close>

theorem kept_changes_are_told:
  assumes "w_route w = Some rt" and "ev_kind ev \<noteq> OsAccess" and "\<not> ev_rescan ev"
    and "ev_paths ev = ps @ p # qs"
    and "\<not> hides_now lib d rt (w_filter (foldl (handle_path lib d (ev_kind ev)) w ps)) p
      \<or> caches_ok lib d (w_filter w) \<and> \<not> drops lib d (w_filter w) rt p"
    and "listening (w_events w) i"
    and "meanwhile lib reg (handle_event lib d w (Inr ev)) i v j"
  shows "\<exists>st b. l_pending (sub_list (w_events v) ! j) = Some st
      \<and> fst (take_batch st) = Some b \<and> batch_tells b (spelled rt p)"
proof -
  let ?h = "handle_path lib d (ev_kind ev)" and ?w1 = "foldl (handle_path lib d (ev_kind ev)) w ps"
  note before = handle_paths_grow [of w lib d "ev_kind ev" ps]
  have "\<not> hides_now lib d rt (w_filter ?w1) p"
    using assms(5) handle_paths_settled [of lib d w "ev_kind ev" ps] settled_drops hides_now_fresh
    by (metis settled_def)
  moreover have listens: "listening (w_events ?w1) i" using before assms(6) by (simp add: grows_def)
  ultimately have "told (w_events (?h ?w1 p)) i (spelled rt p)"
    using kept_now_told before assms(1) by (simp add: handle_path_def)
  moreover have "listening (w_events (?h ?w1 p)) i"
    using listens handle_path_grows [of ?w1 lib d "ev_kind ev" p] by (simp add: grows_def)
  ultimately have "told (w_events (foldl ?h (?h ?w1 p) qs)) i (spelled rt p)"
    using handle_paths_grow [of "?h ?w1 p" lib d "ev_kind ev" qs] by (simp add: grows_def)
  then have "told (w_events (handle_event lib d w (Inr ev))) i (spelled rt p)"
    using assms(2-4) by (simp add: handle_event_def)
  moreover have "listening (w_events (handle_event lib d w (Inr ev))) i"
    using handle_event_grows [of w lib d "Inr ev"] assms(6) by (simp add: grows_def)
  ultimately have "told (w_events v) j (spelled rt p)"
    using meanwhile_keeps [OF assms(7)] by blast
  then show ?thesis using take_tells unfolding told_def by blast
qed

definition demo_event :: "string \<Rightarrow> os_event" where
  "demo_event c = \<lparr>ev_kind = OsModify ModifyOther, ev_paths = [demo_root @ [c]], ev_rescan = False\<rparr>"

lemma kept_changes_are_told_witness:
  "\<exists>st b. l_pending (sub_list (subscribers_close (w_events (watcher_refilter
        (handle_event names_lib demo_tree
          (handle_event names_lib demo_tree demo_watch (Inr (demo_event ''f''))) (Inl ()))))) ! 0) = Some st
      \<and> fst (take_batch st) = Some b \<and> batch_tells b (demo_root @ [''f''])"
proof -
  let ?w = "handle_event names_lib demo_tree demo_watch (Inr (demo_event ''f''))"
  let ?v = "watcher_refilter (handle_event names_lib demo_tree ?w (Inl ()))"
  have "meanwhile names_lib demo_registrar ?w 0 (?v\<lparr>w_events := subscribers_close (w_events ?v)\<rparr>) 0"
    by (intro the_end a_refilter an_event no_time)
  moreover have "spelled demo_route (demo_root @ [''f'']) = demo_root @ [''f'']"
    by (simp add: spelled_def demo_route_def join_path_def is_absolute_def)
  moreover have "w_route demo_watch = Some demo_route" "ev_kind (demo_event ''f'') \<noteq> OsAccess"
    "\<not> ev_rescan (demo_event ''f'')" "ev_paths (demo_event ''f'') = [] @ (demo_root @ [''f'']) # []"
    by (simp_all add: demo_event_def demo_watch_def)
  moreover have "caches_ok names_lib demo_tree (w_filter demo_watch)
      \<and> \<not> drops names_lib demo_tree (w_filter demo_watch) demo_route (demo_root @ [''f''])"
    using filter_reach_ok [OF demo_reach] demo_drops [of "''f''"] by (simp add: normal_def)
  ultimately show ?thesis
    using kept_changes_are_told [of demo_watch demo_route "demo_event ''f''" "[]" "demo_root @ [''f'']" "[]"
        names_lib demo_tree 0] demo_listens by fastforce
qed

text \<open>
  What the filter ignores reaches no one who did not ask for it by name: an event of ignored paths
  leaves a subscriber without a scope exactly as it was. Ignore files are the exception: an edit
  of one is heard.
\<close>

theorem ignored_changes_are_not_told:
  assumes "filter_reach lib d (w_filter w)" and "w_route w = Some rt" and "\<not> ev_rescan ev"
    and "\<forall>p \<in> set (ev_paths ev). drops lib d (w_filter w) rt p \<and> \<not> is_ignore_file p"
    and "listening (w_events w) i"
  shows "sub_list (w_events (handle_event lib d w (Inr ev))) ! i = sub_list (w_events w) ! i"
  using handle_paths_silent [OF assms(4,2) filter_reach_ok [OF assms(1)] assms(5)] assms(3)
  by (simp add: handle_event_def)

lemma ignored_changes_are_not_told_witness:
  "sub_list (w_events (handle_event names_lib demo_tree demo_watch (Inr (demo_event ''gen'')))) ! 0 =
   sub_list (w_events demo_watch) ! 0"
  by (rule ignored_changes_are_not_told [OF demo_reach, of demo_route])
    (use demo_listens demo_drops [of "''gen''"] in
      \<open>simp_all add: demo_event_def demo_watch_def normal_def is_ignore_file_def file_name_def
        EXCLUDE_FILE_def suffix_to_prefix demo_root_def\<close>)

text \<open>
  C38. A directory that appears is followed to the bottom. On a tree that ends, with a filter whose
  caches hold what the disk says, the walk from a new directory the filter keeps returns; every
  directory kept below it is then watched, or under one listed as uncovered because the OS was at
  its limit, or under one the OS could not watch when it was asked (gone, or not to be read), the
  one case that is listed nowhere; and every subscriber without a scope is told to look at all of
  it, since what was written before no watch saw.
\<close>

theorem appeared_directories_are_followed:
  assumes "caches_ok lib d (w_filter w)" and "depth_bound d N"
    and "d_dir d dir" and "dir \<notin> set (w_watched w)"
    and "\<not> fst (follower_ignores lib d (w_root w) (w_filter w) dir)"
  shows "\<exists>w'. follow lib reg d w (Appeared dir) = Some w'
    \<and> (\<forall>p. kept_below lib d (settings_of (w_filter w)) (w_root w) dir p \<longrightarrow>
          p \<in> set (w_watched w') \<or> (\<exists>q \<in> set (w_uncovered w'). prefix q p)
          \<or> (\<exists>q. prefix dir q \<and> prefix q p \<and> unwatchable reg (w_os w) q))
    \<and> (\<forall>i p. listening (w_events w') i \<and> prefix dir p \<longrightarrow> told (w_events w') i p)"
proof -
  obtain f where f: "follower_ignores lib d (w_root w) (w_filter w) dir = (False, f)"
    using assms(5) by (metis prod.collapse)
  with follower_ignores_spec [OF assms(1), of "w_root w" dir]
  have ok1: "caches_ok lib d (w_filter (w\<lparr>w_filter := f\<rparr>))" "settings_of f = settings_of (w_filter w)"
    by (simp_all add: settled_def)
  from cover_loop_spec [OF assms(2) ok1(1), of reg "[dir]"] obtain w2 where
    w2: "cover lib reg d (w\<lparr>w_filter := f\<rparr>) dir = Some w2"
    "\<forall>p. kept_below lib d (settings_of (w_filter w)) (w_root w) dir p \<longrightarrow> followed reg (w_os w) dir w2 p"
    using ok1(2) by (auto simp: cover_def)
  let ?w' = "w2\<lparr>w_events := subscribers_rescan (w_events w2) dir\<rparr>"
  have "follow lib reg d w (Appeared dir) = Some ?w'"
    using assms(3,4) f w2(1) by (simp add: appeared_def)
  moreover have "told (w_events ?w') i p" if "listening (w_events ?w') i" "prefix dir p" for i p
    using that by (auto simp: listening_def told_def subscribers_rescan_def hears_rescan_def
        pending_rescan_def insert_rescan_noted split: if_splits option.splits)
  ultimately show ?thesis using w2(2) by (auto simp: followed_def covered_def)
qed

lemma appeared_directories_are_followed_witness:
  "\<exists>w'. follow names_lib demo_registrar demo_tree demo_watch (Appeared demo_root) = Some w'
     \<and> covered w' (demo_root @ [''a''])"
proof -
  have root: "strip_prefix demo_root (demo_root @ [c]) = Some [c]" for c by simp
  have "kept_below names_lib demo_tree (settings_of (w_filter demo_watch)) (w_root demo_watch)
      demo_root (demo_root @ [''a''])"
    by (rule kept_below.below [where name = "''a''" and es = "[(''a'', True), (''gen'', True), (''f'', False)]"])
      (use demo_decides [of "''a''" True] in
        \<open>auto simp: demo_tree_def demo_watch_def normal_def DEFAULT_IGNORED_SEGMENTS_def intro: kept_below.here\<close>)
  moreover have "\<not> unwatchable demo_registrar os q" for os q
    by (simp add: unwatchable_def demo_registrar_def)
  moreover have "depth_bound demo_tree 3"
    by (simp add: depth_bound_def demo_tree_def demo_root_def)
  moreover have "\<not> fst (follower_ignores names_lib demo_tree (w_root demo_watch) (w_filter demo_watch) demo_root)"
    using follower_ignores_spec [OF filter_reach_ok [OF demo_reach], of "w_root demo_watch" demo_root]
    by (simp add: demo_watch_def strip_prefix_Some pure_decide_def matches_filter_entries_def
        filter_new_def demo_entries)
  moreover have "d_dir demo_tree demo_root" "demo_root \<notin> set (w_watched demo_watch)"
    by (simp_all add: demo_tree_def demo_watch_def)
  ultimately show ?thesis
    using appeared_directories_are_followed [OF filter_reach_ok [OF demo_reach], of 3 demo_root demo_registrar]
    unfolding covered_def by blast
qed

end
