(* ===== verification/Agent_Status.thy ===== *)
theory Agent_Status
  imports Prelude "HOL-Library.Multiset"
begin

text \<open>
  \<open>oxplow-app/src/agent_status_derive.rs\<close>: the status of an agent session, replayed from its
  logged activity. \<open>status_step\<close> is one arm of the reducer's \<open>match\<close>, \<open>settle\<close> what follows
  the loop. Instants are nanoseconds, as \<open>Timestamp\<close> orders them; silence is measured in
  milliseconds. Reading the log and decoding JSON payloads are not modelled.
\<close>

section \<open>Data\<close>

datatype tool_kind = Read | Edit | Shell | Subagent | Ask | Plan | Search | Fetch | Mcp | OtherTool

definition waits_on_person :: "tool_kind \<Rightarrow> bool" where
  "waits_on_person k \<longleftrightarrow> k = Ask \<or> k = Plan"

definition changes_worktree :: "tool_kind \<Rightarrow> bool" where
  "changes_worktree k \<longleftrightarrow> k = Edit \<or> k = Shell \<or> k = Subagent"

fun tool_kind_as_str :: "tool_kind \<Rightarrow> string" where
  "tool_kind_as_str Read = ''read''"
| "tool_kind_as_str Edit = ''edit''"
| "tool_kind_as_str Shell = ''shell''"
| "tool_kind_as_str Subagent = ''subagent''"
| "tool_kind_as_str Ask = ''ask''"
| "tool_kind_as_str Plan = ''plan''"
| "tool_kind_as_str Search = ''search''"
| "tool_kind_as_str Fetch = ''fetch''"
| "tool_kind_as_str Mcp = ''mcp''"
| "tool_kind_as_str OtherTool = ''other''"

datatype activity_kind =
  Prompt | ToolStarted | ToolFinished | TurnCompleted | TurnInterrupted | SessionStarted
  | ActAwaitingUser | StatusOther | SubagentStarted | SubagentFinished

datatype agent_status = Idle | Running | AwaitingUser | Stopped | Error | Stalled

record activity =
  a_kind :: activity_kind
  a_seq :: int
  a_at :: int
  a_tool :: "tool_kind option"

definition AGENT_STALL_AFTER_MS :: int where "AGENT_STALL_AFTER_MS = 15 * 60 * 1000"
definition AGENT_DEAD_AFTER_MS :: int where "AGENT_DEAD_AFTER_MS = 5 * 60 * 1000"

text \<open>\<open>Timestamp::unix_ms\<close>: integer division truncates toward zero.\<close>

definition unix_ms :: "int \<Rightarrow> int" where
  "unix_ms nanos = (if 0 \<le> nanos then nanos div 1000000 else - ((- nanos) div 1000000))"

section \<open>The replay\<close>

record replay =
  rp_state :: agent_status
  rp_pending_tasks :: int
  rp_running_subagents :: int
  rp_pending_user_input :: int
  rp_open_tools :: int
  rp_awaiting :: bool

definition replay_start :: replay where
  "replay_start =
     \<lparr>rp_state = Idle, rp_pending_tasks = 0, rp_running_subagents = 0, rp_pending_user_input = 0,
      rp_open_tools = 0, rp_awaiting = False\<rparr>"

definition tool_started :: "replay \<Rightarrow> tool_kind option \<Rightarrow> replay" where
  "tool_started r tool =
     (case tool of
        Some Subagent \<Rightarrow> r\<lparr>rp_pending_tasks := rp_pending_tasks r + 1\<rparr>
      | Some k \<Rightarrow>
          if waits_on_person k then r\<lparr>rp_pending_user_input := rp_pending_user_input r + 1\<rparr> else r
      | None \<Rightarrow> r)"

definition tool_finished :: "replay \<Rightarrow> tool_kind option \<Rightarrow> replay" where
  "tool_finished r tool =
     (case tool of
        Some k \<Rightarrow>
          if k = Subagent \<and> rp_pending_tasks r > 0
          then r\<lparr>rp_pending_tasks := rp_pending_tasks r - 1\<rparr>
          else if waits_on_person k \<and> rp_pending_user_input r > 0
          then r\<lparr>rp_pending_user_input := rp_pending_user_input r - 1\<rparr>
          else r
      | None \<Rightarrow> r)"

definition status_step :: "replay \<Rightarrow> activity \<Rightarrow> replay" where
  "status_step r ev =
     (case a_kind ev of
        Prompt \<Rightarrow>
          r\<lparr>rp_state := Running, rp_pending_tasks := 0, rp_pending_user_input := 0,
            rp_open_tools := 0, rp_awaiting := False\<rparr>
      | ToolStarted \<Rightarrow>
          tool_started (r\<lparr>rp_state := Running, rp_open_tools := rp_open_tools r + 1\<rparr>) (a_tool ev)
      | ToolFinished \<Rightarrow>
          tool_finished
            (r\<lparr>rp_state := Running,
               rp_open_tools := (if rp_open_tools r > 0 then rp_open_tools r - 1
                                 else rp_open_tools r)\<rparr>) (a_tool ev)
      | TurnCompleted \<Rightarrow>
          r\<lparr>rp_state := (if rp_pending_tasks r > 0 \<or> rp_running_subagents r > 0 then Running else Idle)\<rparr>
      | TurnInterrupted \<Rightarrow>
          r\<lparr>rp_state := Idle, rp_pending_tasks := 0, rp_running_subagents := 0,
            rp_pending_user_input := 0, rp_open_tools := 0\<rparr>
      | SessionStarted \<Rightarrow>
          r\<lparr>rp_state := Idle, rp_pending_tasks := 0, rp_running_subagents := 0,
            rp_pending_user_input := 0, rp_open_tools := 0\<rparr>
      | ActAwaitingUser \<Rightarrow> r\<lparr>rp_awaiting := True\<rparr>
      | StatusOther \<Rightarrow> r\<lparr>rp_awaiting := False\<rparr>
      | SubagentStarted \<Rightarrow>
          r\<lparr>rp_state := Running, rp_running_subagents := rp_running_subagents r + 1\<rparr>
      | SubagentFinished \<Rightarrow>
          r\<lparr>rp_running_subagents := max (rp_running_subagents r - 1) 0\<rparr>)"

definition activity_key :: "activity \<Rightarrow> int \<times> int" where
  "activity_key e = (a_at e, a_seq e)"

definition replay_of :: "activity list \<Rightarrow> replay" where
  "replay_of evs = foldl status_step replay_start evs"

definition settle :: "replay \<Rightarrow> activity list \<Rightarrow> int option \<Rightarrow> int \<Rightarrow> agent_status" where
  "settle r evs last_output_at now =
     (if rp_awaiting r then AwaitingUser
      else if rp_pending_user_input r > 0 then AwaitingUser
      else if rp_state r = Running \<and> evs \<noteq> [] then
        (let threshold = (if rp_open_tools r > 0 then AGENT_STALL_AFTER_MS else AGENT_DEAD_AFTER_MS);
             last_activity_ms = max (unix_ms (a_at (last evs)))
               (case last_output_at of Some t \<Rightarrow> unix_ms t | None \<Rightarrow> i64_min)
         in if unix_ms now - last_activity_ms > threshold then Stalled else rp_state r)
      else rp_state r)"

definition derive_with_activity :: "activity list \<Rightarrow> int option \<Rightarrow> int \<Rightarrow> agent_status" where
  "derive_with_activity events last_output_at now =
     (let evs = sort_key activity_key events in
      settle (replay_of evs) evs last_output_at now)"

definition derive_session_status :: "activity list \<Rightarrow> int \<Rightarrow> agent_status" where
  "derive_session_status events now = derive_with_activity events None now"

section \<open>Invariants of the replay\<close>

definition replay_inv :: "replay \<Rightarrow> bool" where
  "replay_inv r \<longleftrightarrow>
     0 \<le> rp_pending_tasks r \<and> 0 \<le> rp_running_subagents r \<and> 0 \<le> rp_pending_user_input r
     \<and> 0 \<le> rp_open_tools r
     \<and> (rp_state r = Idle \<or> rp_state r = Running)"

lemma tool_started_inv: "replay_inv r \<Longrightarrow> replay_inv (tool_started r tool)"
  by (cases tool; cases "the tool") (simp_all add: tool_started_def replay_inv_def waits_on_person_def)

lemma tool_finished_inv: "replay_inv r \<Longrightarrow> replay_inv (tool_finished r tool)"
  by (cases tool) (simp_all add: tool_finished_def replay_inv_def)

lemma status_step_inv: "replay_inv r \<Longrightarrow> replay_inv (status_step r ev)"
proof (cases "a_kind ev")
  case ToolStarted
  assume "replay_inv r"
  then have "replay_inv (r\<lparr>rp_state := Running, rp_open_tools := rp_open_tools r + 1\<rparr>)"
    by (simp add: replay_inv_def)
  then show ?thesis by (simp add: status_step_def ToolStarted tool_started_inv)
next
  case ToolFinished
  assume "replay_inv r"
  then have "replay_inv (r\<lparr>rp_state := Running,
      rp_open_tools := (if rp_open_tools r > 0 then rp_open_tools r - 1 else rp_open_tools r)\<rparr>)"
    by (simp add: replay_inv_def)
  then show ?thesis by (simp add: status_step_def ToolFinished tool_finished_inv)
qed (simp_all add: status_step_def replay_inv_def)

definition replay_step :: "replay \<Rightarrow> activity \<Rightarrow> unit + replay" where
  "replay_step r ev = Inr (status_step r ev)"

interpretation replay: guarded_machine replay_step replay_inv
  by unfold_locales (auto simp: replay_step_def status_step_inv)

lemma replay_of_run: "replay_of es = run_events replay_step replay_start es"
  by (induction es rule: rev_induct)
    (simp_all add: replay_of_def run_events_append attempt_step_def replay_step_def)

lemma replay_of_inv: "replay_inv (replay_of es)"
  unfolding replay_of_run by (rule replay.run_inv) (simp add: replay_inv_def replay_start_def)

lemma unix_ms_mono: "a \<le> b \<Longrightarrow> unix_ms a \<le> unix_ms b"
proof -
  assume ab: "a \<le> b"
  have pos: "0 \<le> x \<Longrightarrow> 0 \<le> x div 1000000" for x :: int
    by (simp add: pos_imp_zdiv_nonneg_iff)
  consider "0 \<le> a" | "a < 0" "0 \<le> b" | "b < 0" using ab by linarith
  then show ?thesis
  proof cases
    case 1
    with ab show ?thesis by (simp add: unix_ms_def zdiv_mono1)
  next
    case 2
    with pos [of "- a"] pos [of b] show ?thesis by (simp add: unix_ms_def)
  next
    case 3
    with ab have "(- b) div 1000000 \<le> (- a) div 1000000" by (intro zdiv_mono1) simp_all
    with 3 ab show ?thesis by (simp add: unix_ms_def)
  qed
qed

text \<open>The order activity arrives in does not matter when no two share instant and position.\<close>

lemma sort_distinct_keys:
  assumes "mset xs = mset ys" "distinct (map activity_key xs)"
  shows "sort_key activity_key xs = sort_key activity_key ys"
proof (rule map_inj_on)
  have eq: "set xs = set ys" using assms(1) by (rule mset_eq_setD)
  show "inj_on activity_key
      (set (sort_key activity_key xs) \<union> set (sort_key activity_key ys))"
    using assms(2) eq by (simp add: distinct_map)
  have "mset (map activity_key (sort_key activity_key xs)) =
      mset (map activity_key (sort_key activity_key ys))"
    using assms(1) by simp
  then show "map activity_key (sort_key activity_key xs) = map activity_key (sort_key activity_key ys)"
    using properties_for_sort [of "map activity_key (sort_key activity_key xs)"
        "map activity_key (sort_key activity_key ys)"]
      properties_for_sort [of "map activity_key (sort_key activity_key ys)"
        "map activity_key (sort_key activity_key ys)"] by simp
qed

definition timestamp_ok :: "int \<Rightarrow> bool" where
  "timestamp_ok t \<longleftrightarrow> i64_min \<le> unix_ms t \<and> unix_ms t \<le> i64_max"

lemma settle_or_stalled:
  "settle r es out now = settle r es out' now' \<or> settle r es out now = Stalled
   \<or> settle r es out' now' = Stalled"
  by (simp add: settle_def Let_def)

lemma settle_stalled_mono:
  assumes st: "settle r es out now = Stalled" and le: "now \<le> now'" and inv: "replay_inv r"
    and out: "\<forall>t' \<in> set_option out'. \<exists>t \<in> set_option out. t' \<le> t"
    and ok: "es \<noteq> [] \<Longrightarrow> timestamp_ok (a_at (last es))"
  shows "settle r es out' now' = Stalled"
proof -
  have run: "\<not> rp_awaiting r" "\<not> rp_pending_user_input r > 0" "rp_state r = Running" "es \<noteq> []"
    using st inv by (auto simp: settle_def replay_inv_def split: if_splits)
  let ?at = "unix_ms (a_at (last es))"
  have "max ?at (case out' of Some t \<Rightarrow> unix_ms t | None \<Rightarrow> i64_min)
      \<le> max ?at (case out of Some t \<Rightarrow> unix_ms t | None \<Rightarrow> i64_min)"
  proof (cases out')
    case None
    with ok run(4) show ?thesis by (simp add: timestamp_ok_def)
  next
    case (Some t')
    with out obtain t where "out = Some t" "t' \<le> t" by (cases out) auto
    with Some unix_ms_mono [of t' t] show ?thesis by simp
  qed
  with st run unix_ms_mono [OF le] show ?thesis
    by (simp add: settle_def Let_def split: if_splits)
qed

lemma fresh_prompt_settles:
  assumes "a_kind (last es) = Prompt" "es \<noteq> []"
  shows "settle (replay_of es) es out now =
    (if unix_ms now - max (unix_ms (a_at (last es)))
          (case out of Some t \<Rightarrow> unix_ms t | None \<Rightarrow> i64_min) > AGENT_DEAD_AFTER_MS
     then Stalled else Running)"
proof -
  obtain es' e where es: "es = es' @ [e]" using assms(2) by (cases es rule: rev_cases) auto
  with assms show ?thesis
    by (simp add: replay_of_def settle_def status_step_def Let_def)
qed

section \<open>Properties\<close>

definition demo_activity :: "activity_kind \<Rightarrow> int \<Rightarrow> activity" where
  "demo_activity k n = \<lparr>a_kind = k, a_seq = n, a_at = n * 1000000, a_tool = None\<rparr>"

text \<open>
  The status does not depend on the order activity is handed over in: lists of the same
  steps, no two with one instant and log position, give the same status.
\<close>

theorem status_ignores_arrival_order:
  assumes "mset xs = mset ys" and "distinct (map activity_key xs)"
  shows "derive_with_activity xs out now = derive_with_activity ys out now"
  by (simp add: derive_with_activity_def sort_distinct_keys [OF assms])

lemma status_ignores_arrival_order_witness:
  "derive_with_activity [demo_activity Prompt 1, demo_activity TurnCompleted 2] None 5
    = derive_with_activity [demo_activity TurnCompleted 2, demo_activity Prompt 1] None 5"
  by (rule status_ignores_arrival_order) (simp_all add: demo_activity_def activity_key_def)

text \<open>
  Time alone can only stall a session: if it reads stalled now it still does later while
  nothing newer was heard, and any two readings of the same activity differ at most by one of
  them being stalled.
\<close>

theorem stalled_stays_stalled:
  assumes "derive_with_activity es out now = Stalled" and "now \<le> now'"
    and "\<forall>t' \<in> set_option out'. \<exists>t \<in> set_option out. t' \<le> t"
    and "\<forall>e \<in> set es. timestamp_ok (a_at e)"
  shows "derive_with_activity es out' now' = Stalled"
proof -
  let ?es = "sort_key activity_key es"
  have "?es \<noteq> [] \<Longrightarrow> timestamp_ok (a_at (last ?es))"
    using assms(4) last_in_set [of ?es] by simp
  from settle_stalled_mono [OF _ assms(2) replay_of_inv assms(3) this, of ?es]
  show ?thesis using assms(1) by (simp add: derive_with_activity_def Let_def)
qed

lemma stalled_stays_stalled_witness:
  "derive_with_activity [demo_activity Prompt 1] None 900000000000 = Stalled"
proof (rule stalled_stays_stalled [where now = 600000000000 and out = None])
  show "derive_with_activity [demo_activity Prompt 1] None 600000000000 = Stalled"
    by (simp add: derive_with_activity_def replay_of_def status_step_def settle_def demo_activity_def
        unix_ms_def AGENT_DEAD_AFTER_MS_def i64_min_def)
qed (simp_all add: demo_activity_def timestamp_ok_def unix_ms_def i64_min_def i64_max_def)

text \<open>
  A prompt starts over: when the latest step is a prompt, whatever was left open before, the
  session is running, and stalled once five minutes pass with neither a step nor output.
\<close>

theorem prompt_starts_over:
  assumes "es \<noteq> []" and "a_kind (last (sort_key activity_key es)) = Prompt"
  shows "derive_with_activity es out now =
    (if unix_ms now - max (unix_ms (a_at (last (sort_key activity_key es))))
          (case out of Some t \<Rightarrow> unix_ms t | None \<Rightarrow> i64_min) > AGENT_DEAD_AFTER_MS
     then Stalled else Running)"
proof -
  have "sort_key activity_key es \<noteq> []"
    using assms(1) by (metis length_0_conv length_sort)
  from fresh_prompt_settles [OF assms(2) this] show ?thesis
    by (simp add: derive_with_activity_def Let_def)
qed

lemma prompt_starts_over_witness:
  "derive_with_activity [demo_activity ActAwaitingUser 1, demo_activity Prompt 2] None 3000000 =
    (if unix_ms 3000000 - max (unix_ms (a_at (last (sort_key activity_key
            [demo_activity ActAwaitingUser 1, demo_activity Prompt 2]))))
          (case None of Some t \<Rightarrow> unix_ms t | None \<Rightarrow> i64_min) > AGENT_DEAD_AFTER_MS
     then Stalled else Running)"
  by (rule prompt_starts_over) (simp_all add: demo_activity_def activity_key_def)

end
