(* ===== verification/Ids.thy ===== *)
theory Ids
  imports Decimal
begin

text \<open>
  \<open>oxplow-domain/src/ids.rs\<close>: entity ids, a kind's three-letter prefix and an \<open>i64\<close>. The newtypes
  the macro makes differ only in their kind, so one set of definitions takes it as an argument. An
  error carries the kinds its message names. The lemmas: an id that can be a rowid prints and reads
  back as itself, and never as another kind.
\<close>

datatype entity_kind =
  Stream | Thread | Note | Effort | AgentTurn | Comment | CommentMessage | PageVisit | UsageEvent
  | AgentSession | Handoff | Terminal

definition ALL_KINDS :: "entity_kind list" where
  "ALL_KINDS =
     [Stream, Thread, Note, Effort, AgentTurn, Comment, CommentMessage, PageVisit, UsageEvent,
      AgentSession, Handoff, Terminal]"

fun kind_prefix :: "entity_kind \<Rightarrow> string" where
  "kind_prefix Stream = ''str''"
| "kind_prefix Thread = ''thr''"
| "kind_prefix Note = ''not''"
| "kind_prefix Effort = ''eff''"
| "kind_prefix AgentTurn = ''trn''"
| "kind_prefix Comment = ''cmt''"
| "kind_prefix CommentMessage = ''cmg''"
| "kind_prefix PageVisit = ''pgv''"
| "kind_prefix UsageEvent = ''usg''"
| "kind_prefix AgentSession = ''ses''"
| "kind_prefix Handoff = ''hnd''"
| "kind_prefix Terminal = ''trm''"

definition from_prefix :: "string \<Rightarrow> entity_kind option" where
  "from_prefix p = find (\<lambda>k. kind_prefix k = p) ALL_KINDS"

datatype id_error = Unparseable string | WrongKind entity_kind entity_kind

record any_id =
  id_kind :: entity_kind
  id_value :: int

text \<open>\<open>i64\<close> as decimal text, and read from bytes known to be digits.\<close>

definition show_int :: "int \<Rightarrow> string" where
  "show_int z = (if z < 0 then CHR ''-'' # show_nat (nat (- z)) else show_nat (nat z))"

definition digits_i64 :: "string \<Rightarrow> int option" where
  "digits_i64 ds = map_option int (parse_uint (nat i64_max) ds)"

definition id_display :: "any_id \<Rightarrow> string" where
  "id_display i = kind_prefix (id_kind i) @ show_int (id_value i)"

text \<open>\<open>is_char_boundary(3)\<close>: the byte there does not continue a character.\<close>

definition id_from_str :: "string \<Rightarrow> id_error + any_id" where
  "id_from_str s =
     (if length s \<ge> 4 \<and> \<not> utf8_cont (s ! 3) then
        (case from_prefix (take 3 s) of
           None \<Rightarrow> Inl (Unparseable s)
         | Some kind \<Rightarrow>
             if drop 3 s \<noteq> [] \<and> list_all is_ascii_digit (drop 3 s) then
               (case digits_i64 (drop 3 s) of
                  Some v \<Rightarrow> Inr \<lparr>id_kind = kind, id_value = v\<rparr>
                | None \<Rightarrow> Inl (Unparseable s))
             else Inl (Unparseable s))
      else Inl (Unparseable s))"

text \<open>A newtype of one kind.\<close>

definition typed_from_any :: "entity_kind \<Rightarrow> any_id \<Rightarrow> id_error + int" where
  "typed_from_any kind any =
     (if id_kind any = kind then Inr (id_value any) else Inl (WrongKind kind (id_kind any)))"

definition typed_from_str :: "entity_kind \<Rightarrow> string \<Rightarrow> id_error + int" where
  "typed_from_str kind s = bind_res (id_from_str s) (typed_from_any kind)"

definition try_from_str :: "entity_kind \<Rightarrow> string \<Rightarrow> int option" where
  "try_from_str kind s =
     (case id_from_str s of
        Inr a \<Rightarrow> if id_kind a = kind then Some (id_value a) else None
      | Inl _ \<Rightarrow> None)"

definition typed_display :: "entity_kind \<Rightarrow> int \<Rightarrow> string" where
  "typed_display kind v = kind_prefix kind @ show_int v"

definition PLACEHOLDER :: int where "PLACEHOLDER = 0"

definition is_placeholder :: "int \<Rightarrow> bool" where
  "is_placeholder v \<longleftrightarrow> v = 0"

section \<open>Reading back\<close>

lemma kind_prefix_length [simp]: "length (kind_prefix k) = 3"
  by (cases k) simp_all

lemma from_prefix_prefix [simp]: "from_prefix (kind_prefix k) = Some k"
  by (cases k) (simp_all add: from_prefix_def ALL_KINDS_def)

lemma from_prefix_Some: "from_prefix p = Some k \<Longrightarrow> p = kind_prefix k"
  by (auto simp: from_prefix_def find_Some_iff)

lemma digit_not_cont: "is_ascii_digit c \<Longrightarrow> \<not> utf8_cont c"
  by (auto simp: is_ascii_digit_def utf8_cont_def byte_in_def byte_def)

lemma show_int_digits:
  assumes "0 \<le> v"
  shows "list_all is_ascii_digit (show_int v)" "show_int v \<noteq> []"
  using assms show_nat_digits [of "nat v"] by (simp_all add: show_int_def)

lemma digits_show:
  assumes "0 \<le> v" "v \<le> i64_max"
  shows "digits_i64 (show_int v) = Some v"
  using assms parse_show_nat [of "nat v" "nat i64_max"]
  by (simp add: digits_i64_def show_int_def nat_mono)

definition id_ok :: "any_id \<Rightarrow> bool" where
  "id_ok i \<longleftrightarrow> 0 \<le> id_value i \<and> id_value i \<le> i64_max"

lemma id_reads_back:
  assumes "id_ok i"
  shows "id_from_str (id_display i) = Inr i"
proof -
  have v: "0 \<le> id_value i" "id_value i \<le> i64_max" using assms by (simp_all add: id_ok_def)
  have len: "length (id_display i) \<ge> 4"
    using show_int_digits(2) [OF v(1)] by (cases "show_int (id_value i)") (simp_all add: id_display_def)
  have "id_display i ! 3 \<in> set (show_int (id_value i))"
    using show_int_digits(2) [OF v(1)] by (simp add: id_display_def nth_append)
  then have "\<not> utf8_cont (id_display i ! 3)"
    using show_int_digits(1) [OF v(1)] digit_not_cont by (auto simp: list_all_iff)
  with len show ?thesis
    using show_int_digits [OF v(1)] digits_show [OF v]
    by (simp add: id_from_str_def id_display_def)
qed

lemma id_from_str_ok: "id_from_str s = Inr i \<Longrightarrow> id_ok i"
  by (auto simp: id_from_str_def id_ok_def digits_i64_def i64_max_def
      dest: parse_uint_bound split: if_splits option.splits)

interpretation ids: canonical_roundtrip id_display id_from_str id_ok
  by unfold_locales (rule id_reads_back, assumption, rule id_from_str_ok)

section \<open>Property\<close>

text \<open>
  An id's text names its kind: what a kind's ids print is read back as the same id by that kind,
  and refused, with both kinds named, by every other. The value may be any but the negative ones,
  which SQLite never issues.
\<close>

theorem ids_read_back_as_their_kind:
  assumes "0 \<le> v" and "v \<le> i64_max"
  shows "typed_from_str k (typed_display kind v) =
    (if k = kind then Inr v else Inl (WrongKind k kind))"
  using id_reads_back [of "\<lparr>id_kind = kind, id_value = v\<rparr>"] assms
  by (simp add: typed_from_str_def typed_display_def typed_from_any_def id_display_def id_ok_def)

lemma ids_read_back_as_their_kind_witness:
  "typed_from_str Thread (typed_display Stream 38) = Inl (WrongKind Thread Stream)"
  using ids_read_back_as_their_kind [of 38 Thread Stream] by (simp add: i64_max_def)

end
