(* ===== verification/Actor.thy ===== *)
theory Actor
  imports Ids Uri_Build
begin

text \<open>
  \<open>Actor\<close> of \<open>oxplow-domain/src/commands.rs\<close>: who runs a command, and what that lets it do; with
  \<open>Anchors\<close> of \<open>events/mod.rs\<close>. Ids are their integers. \<open>source\<close> builds URIs with the builders that
  panic on a bad key, so it is an option. The lemmas: along a chain of pages and components
  everything an actor may do is what the one who pressed the first of them may do.
\<close>

record anchors =
  an_stream :: "int option"
  an_thread :: "int option"
  an_effort :: "int option"
  an_turn :: "int option"
  an_session :: "int option"
  an_snapshot :: "int option"

definition no_anchors :: anchors where
  "no_anchors =
     \<lparr>an_stream = None, an_thread = None, an_effort = None, an_turn = None, an_session = None,
      an_snapshot = None\<rparr>"

datatype invoker = ByHuman | ByAgent | ByPage | ByJob

datatype actor_kind = KHuman | KAgent | KPage | KComponent | KSystem | KEffect | KJob

datatype actor =
  AHuman
| AAgent "int option" "int option" "int option"
| APage string actor
| AComponent string actor
| ASystem
| AEffect string "int option" "int option"
| AJob string nat nat "int option" "int option"

fun actor_kind_of :: "actor \<Rightarrow> actor_kind" where
  "actor_kind_of AHuman = KHuman"
| "actor_kind_of (AAgent session thread stream) = KAgent"
| "actor_kind_of (APage page on_behalf_of) = KPage"
| "actor_kind_of (AComponent component on_behalf_of) = KComponent"
| "actor_kind_of ASystem = KSystem"
| "actor_kind_of (AEffect effect thread stream) = KEffect"
| "actor_kind_of (AJob job attempt fence thread stream) = KJob"

fun may_confirm :: "actor \<Rightarrow> bool" where
  "may_confirm AHuman \<longleftrightarrow> True"
| "may_confirm (APage page on_behalf_of) \<longleftrightarrow> may_confirm on_behalf_of"
| "may_confirm (AComponent component on_behalf_of) \<longleftrightarrow> may_confirm on_behalf_of"
| "may_confirm _ \<longleftrightarrow> False"

fun proposes :: "actor \<Rightarrow> bool" where
  "proposes (AAgent session thread stream) \<longleftrightarrow> True"
| "proposes (AEffect effect thread stream) \<longleftrightarrow> True"
| "proposes (APage page on_behalf_of) \<longleftrightarrow> proposes on_behalf_of"
| "proposes (AComponent component on_behalf_of) \<longleftrightarrow> proposes on_behalf_of"
| "proposes _ \<longleftrightarrow> False"

fun is_agent_driven :: "actor \<Rightarrow> bool" where
  "is_agent_driven (AAgent session thread stream) \<longleftrightarrow> True"
| "is_agent_driven (APage page on_behalf_of) \<longleftrightarrow> is_agent_driven on_behalf_of"
| "is_agent_driven (AComponent component on_behalf_of) \<longleftrightarrow> is_agent_driven on_behalf_of"
| "is_agent_driven _ \<longleftrightarrow> False"

fun agent_thread :: "actor \<Rightarrow> int option option" where
  "agent_thread (AAgent session thread stream) = Some thread"
| "agent_thread (APage page on_behalf_of) = agent_thread on_behalf_of"
| "agent_thread (AComponent component on_behalf_of) = agent_thread on_behalf_of"
| "agent_thread _ = None"

fun gated_thread :: "actor \<Rightarrow> int option option" where
  "gated_thread (AEffect effect thread stream) = Some thread"
| "gated_thread (AJob job attempt fence thread stream) = Some thread"
| "gated_thread (APage page on_behalf_of) = gated_thread on_behalf_of"
| "gated_thread (AComponent component on_behalf_of) = gated_thread on_behalf_of"
| "gated_thread other = agent_thread other"

fun is_anchorless_effect :: "actor \<Rightarrow> bool" where
  "is_anchorless_effect (AEffect effect thread stream) \<longleftrightarrow> thread = None"
| "is_anchorless_effect _ \<longleftrightarrow> False"

fun confined_to_own_stream :: "actor \<Rightarrow> bool" where
  "confined_to_own_stream (APage page on_behalf_of) \<longleftrightarrow> confined_to_own_stream on_behalf_of"
| "confined_to_own_stream (AComponent component on_behalf_of) \<longleftrightarrow> confined_to_own_stream on_behalf_of"
| "confined_to_own_stream (AEffect effect thread stream) \<longleftrightarrow> True"
| "confined_to_own_stream (AJob job attempt fence thread stream) \<longleftrightarrow> True"
| "confined_to_own_stream other \<longleftrightarrow> is_agent_driven other"

fun presser :: "actor \<Rightarrow> actor option" where
  "presser (APage page on_behalf_of) = Some on_behalf_of"
| "presser (AComponent component on_behalf_of) = Some on_behalf_of"
| "presser _ = None"

fun invoker_of :: "actor \<Rightarrow> invoker" where
  "invoker_of AHuman = ByHuman"
| "invoker_of ASystem = ByHuman"
| "invoker_of (AAgent session thread stream) = ByAgent"
| "invoker_of (AEffect effect thread stream) = ByAgent"
| "invoker_of (APage page on_behalf_of) = (if invoker_of on_behalf_of = ByJob then ByJob else ByPage)"
| "invoker_of (AComponent component on_behalf_of) =
     (if invoker_of on_behalf_of = ByJob then ByJob else ByPage)"
| "invoker_of (AJob job attempt fence thread stream) = ByJob"

section \<open>Attribution\<close>

definition PAGE :: string where "PAGE = ''oxplow/page''"
definition JOB_RUN :: string where "JOB_RUN = ''oxplow/job_run''"

definition page_uri :: "string \<Rightarrow> (string \<times> string) list \<Rightarrow> string option" where
  "page_uri page params = uri_of PAGE ((''page'', page) # params)"

definition job_run_uri :: "string \<Rightarrow> string option" where
  "job_run_uri i = keyed JOB_RUN i"

definition effect_source :: "string \<Rightarrow> string" where
  "effect_source effect = ''effect:'' @ effect"

definition effect_of_source :: "string \<Rightarrow> string option" where
  "effect_of_source s = strip_prefix ''effect:'' s"

fun source :: "actor \<Rightarrow> string option" where
  "source AHuman = Some ''human''"
| "source (AAgent session (Some t) stream) = Some (''agent:'' @ typed_display Thread t)"
| "source (AAgent session None stream) = Some ''agent''"
| "source (APage page on_behalf_of) =
     page_uri (case split_once CHR ''#'' page of Some (p, _) \<Rightarrow> p | None \<Rightarrow> page) []"
| "source (AComponent component on_behalf_of) =
     (let (ext, i) = (case split_once CHR ''/'' component of Some ei \<Rightarrow> ei | None \<Rightarrow> ([], component)) in
      ref_display (reference (contribution_id_new ext CustomComponent i)))"
| "source ASystem = Some ''system''"
| "source (AEffect effect thread stream) = Some (effect_source effect)"
| "source (AJob job attempt fence thread stream) = job_run_uri job"

fun actor_id :: "actor \<Rightarrow> string option" where
  "actor_id (AAgent session (Some t) stream) = Some (typed_display Thread t)"
| "actor_id (APage page on_behalf_of) = Some page"
| "actor_id (AComponent component on_behalf_of) = Some component"
| "actor_id (AEffect effect thread stream) = Some effect"
| "actor_id (AJob job attempt fence thread stream) =
     Some (job @ '':'' @ show_nat attempt @ '':'' @ show_nat fence)"
| "actor_id _ = None"

fun thread_of :: "actor \<Rightarrow> int option" where
  "thread_of (AAgent session thread stream) = thread"
| "thread_of (AEffect effect thread stream) = thread"
| "thread_of (AJob job attempt fence thread stream) = thread"
| "thread_of (APage page on_behalf_of) = thread_of on_behalf_of"
| "thread_of (AComponent component on_behalf_of) = thread_of on_behalf_of"
| "thread_of _ = None"

fun stream_of :: "actor \<Rightarrow> int option" where
  "stream_of (AAgent session thread stream) = stream"
| "stream_of (AEffect effect thread stream) = stream"
| "stream_of (AJob job attempt fence thread stream) = stream"
| "stream_of (APage page on_behalf_of) = stream_of on_behalf_of"
| "stream_of (AComponent component on_behalf_of) = stream_of on_behalf_of"
| "stream_of _ = None"

fun session_of :: "actor \<Rightarrow> int option" where
  "session_of (AAgent session thread stream) = session"
| "session_of (APage page on_behalf_of) = session_of on_behalf_of"
| "session_of (AComponent component on_behalf_of) = session_of on_behalf_of"
| "session_of _ = None"

fun in_stream :: "actor \<Rightarrow> int \<Rightarrow> actor" where
  "in_stream (AAgent session thread _) stream = AAgent session thread (Some stream)"
| "in_stream (APage page on_behalf_of) stream = APage page (in_stream on_behalf_of stream)"
| "in_stream (AComponent component on_behalf_of) stream =
     AComponent component (in_stream on_behalf_of stream)"
| "in_stream other stream = other"

definition actor_anchors :: "actor \<Rightarrow> anchors" where
  "actor_anchors a =
     no_anchors\<lparr>an_thread := thread_of a, an_stream := stream_of a, an_session := session_of a\<rparr>"

section \<open>Whoever pressed decides\<close>

text \<open>The one at the end of a chain of pages and components.\<close>

fun presser_of_all :: "actor \<Rightarrow> actor" where
  "presser_of_all (APage page on_behalf_of) = presser_of_all on_behalf_of"
| "presser_of_all (AComponent component on_behalf_of) = presser_of_all on_behalf_of"
| "presser_of_all a = a"

lemma rights_of_presser:
  "may_confirm a = may_confirm (presser_of_all a)"
  "proposes a = proposes (presser_of_all a)"
  "is_agent_driven a = is_agent_driven (presser_of_all a)"
  "gated_thread a = gated_thread (presser_of_all a)"
  "confined_to_own_stream a = confined_to_own_stream (presser_of_all a)"
  "actor_anchors a = actor_anchors (presser_of_all a)"
  "(invoker_of a = ByJob) = (invoker_of (presser_of_all a) = ByJob)"
  by (induction a) (simp_all add: actor_anchors_def)

lemma presser_not_page:
  "presser_of_all a \<noteq> APage page b" "presser_of_all a \<noteq> AComponent component b"
  by (induction a) simp_all

lemma in_stream_rights:
  "presser_of_all (in_stream a s) = in_stream (presser_of_all a) s"
  "thread_of (in_stream a s) = thread_of a"
  "session_of (in_stream a s) = session_of a"
  "may_confirm (in_stream a s) = may_confirm a"
  "proposes (in_stream a s) = proposes a"
  "gated_thread (in_stream a s) = gated_thread a"
  "confined_to_own_stream (in_stream a s) = confined_to_own_stream a"
  "invoker_of (in_stream a s) = invoker_of a"
  by (induction a) simp_all

lemma source_total: "source a \<noteq> None"
proof -
  have page: "resource_name_parse PAGE = Inr \<lparr>rn_extension = ''oxplow'', rn_name = ''page''\<rparr>"
    by (simp add: PAGE_def resource_name_parse_def resource_name_new_def is_extension_def is_name_def
        char_class_defs)
  have "\<exists>t. page_uri p [] = Some t" for p
    unfolding page_uri_def uri_of_def
    by (rule keys_build [OF page]) (simp add: is_key_def char_class_defs)
  moreover have run: "resource_name_parse JOB_RUN = Inr \<lparr>rn_extension = ''oxplow'', rn_name = ''job_run''\<rparr>"
    by (simp add: JOB_RUN_def resource_name_parse_def resource_name_new_def is_extension_def is_name_def
        char_class_defs)
  have "key_param JOB_RUN = Some ''id''"
    by (simp add: key_param_def JOB_RUN_def KINDS_def spec_def)
  then have "\<exists>t. job_run_uri i = Some t" for i
    unfolding job_run_uri_def keyed_def uri_of_def
    by simp (rule keys_build [OF run], simp add: is_key_def char_class_defs)
  ultimately show ?thesis
    using ref_display_total by (cases a rule: source.cases) (auto simp: Let_def split: prod.splits)
qed

end
