(* ===== verification/Job_Context.thy ===== *)
theory Job_Context
  imports Actor Extension_Job
begin

text \<open>
  \<open>oxplow-domain/src/extension_job_context.rs\<close>: the scheduling provenance a job keeps, and the
  identity of one execution. JSON is the parameter \<open>json_lib\<close>: the pieces serde writes of a context
  (the counting writer sees them one by one), and the strict wire form a text decodes to. What is
  checked of the wire form is written out beside what is checked of the context. The lemmas: both
  checks accept the same contexts, what is encoded decodes to itself, and the tokens of the job
  lifecycle are exactly the ones an execution identity accepts. Job_Wire says what the pieces and
  the wire form are.
\<close>

definition MAX_JSON_BYTES :: nat where "MAX_JSON_BYTES = 64 * 1024"
definition MAX_ACTOR_DEPTH :: nat where "MAX_ACTOR_DEPTH = 8"
definition MAX_SUBJECTS :: nat where "MAX_SUBJECTS = 64"
definition MAX_SUBJECT_BYTES :: nat where "MAX_SUBJECT_BYTES = 2048"
definition MAX_LABEL_BYTES :: nat where "MAX_LABEL_BYTES = 256"
definition SCHEMA_VERSION :: nat where "SCHEMA_VERSION = 1"

datatype job_context_error = JcInvalid | JcTooLarge | JcInvalidJson

record job_invocation_context =
  jc_schema_version :: nat
  jc_originating_run_id :: string
  jc_scheduled_by :: actor
  jc_anchors :: anchors
  jc_subject :: "string list"
  jc_cause :: "string option"

datatype wire_actor =
  WHuman
| WAgent "int option" "int option" "int option"
| WPage string wire_actor
| WComponent string wire_actor
| WSystem
| WEffect string "int option" "int option"
| WJob string nat nat "int option" "int option"

record wire_context =
  wc_schema_version :: nat
  wc_originating_run_id :: string
  wc_scheduled_by :: wire_actor
  wc_anchors :: anchors
  wc_subject :: "string list"
  wc_cause :: "string option"

text \<open>
  What serde writes, piece by piece, and whether it then gave up; and the wire form it reads, with
  unknown fields refused.
\<close>

record json_lib =
  js_pieces :: "job_invocation_context \<Rightarrow> string list \<times> bool"
  js_wire :: "string \<Rightarrow> wire_context option"

section \<open>Checks\<close>

text \<open>\<open>char::is_control\<close> over UTF-8: the C0 and C1 controls and DEL.\<close>

fun has_control :: "string \<Rightarrow> bool" where
  "has_control [] \<longleftrightarrow> False"
| "has_control (c # s) \<longleftrightarrow>
     byte c < 32 \<or> byte c = 127
     \<or> (byte c = 194 \<and> (case s of d # _ \<Rightarrow> byte d < 160 | [] \<Rightarrow> False))
     \<or> has_control s"

definition canonical_uuid_v7 :: "'u uuid_lib \<Rightarrow> string \<Rightarrow> bool" where
  "canonical_uuid_v7 ul v \<longleftrightarrow> length v = 36 \<and> is_uuid_v7 ul v"

definition validate_subject :: "string \<Rightarrow> job_context_error + unit" where
  "validate_subject v =
     (if v = [] \<or> length v > MAX_SUBJECT_BYTES \<or> has_control v then Inl JcInvalid
      else
        (case uri_parse v of
           Inl _ \<Rightarrow> Inl JcInvalid
         | Inr parsed \<Rightarrow> if uri_display parsed \<noteq> v then Inl JcInvalid else Inr ()))"

fun validate_subjects :: "string list \<Rightarrow> job_context_error + unit" where
  "validate_subjects [] = Inr ()"
| "validate_subjects (v # vs) = bind_res (validate_subject v) (\<lambda>_. validate_subjects vs)"

definition valid_label :: "string \<Rightarrow> bool" where
  "valid_label v \<longleftrightarrow> v \<noteq> [] \<and> length v \<le> MAX_LABEL_BYTES \<and> \<not> has_control v"

definition valid_job_actor :: "'u uuid_lib \<Rightarrow> string \<Rightarrow> nat \<Rightarrow> nat \<Rightarrow> bool" where
  "valid_job_actor ul job attempt fence \<longleftrightarrow>
     canonical_uuid_v7 ul job \<and> attempt > 0 \<and> fence = attempt * 2 - 1 \<and> fence \<le> nat i64_max"

fun valid_actor :: "'u uuid_lib \<Rightarrow> actor \<Rightarrow> nat \<Rightarrow> bool" where
  "valid_actor ul AHuman depth \<longleftrightarrow> depth \<le> MAX_ACTOR_DEPTH"
| "valid_actor ul ASystem depth \<longleftrightarrow> depth \<le> MAX_ACTOR_DEPTH"
| "valid_actor ul (AAgent session thread stream) depth \<longleftrightarrow> depth \<le> MAX_ACTOR_DEPTH"
| "valid_actor ul (AEffect effect thread stream) depth \<longleftrightarrow> depth \<le> MAX_ACTOR_DEPTH \<and> valid_label effect"
| "valid_actor ul (AJob job attempt fence thread stream) depth \<longleftrightarrow>
     depth \<le> MAX_ACTOR_DEPTH \<and> valid_job_actor ul job attempt fence"
| "valid_actor ul (APage page on_behalf_of) depth \<longleftrightarrow>
     depth \<le> MAX_ACTOR_DEPTH \<and> valid_label page \<and> valid_actor ul on_behalf_of (depth + 1)"
| "valid_actor ul (AComponent component on_behalf_of) depth \<longleftrightarrow>
     depth \<le> MAX_ACTOR_DEPTH \<and> valid_label component \<and> valid_actor ul on_behalf_of (depth + 1)"

definition none_or_positive :: "int option \<Rightarrow> bool" where
  "none_or_positive v = (case v of None \<Rightarrow> True | Some n \<Rightarrow> n > 0)"

definition valid_anchors :: "anchors \<Rightarrow> bool" where
  "valid_anchors a \<longleftrightarrow>
     none_or_positive (an_stream a) \<and> none_or_positive (an_thread a) \<and> none_or_positive (an_effort a)
     \<and> none_or_positive (an_session a) \<and> none_or_positive (an_turn a) \<and> none_or_positive (an_snapshot a)"

definition actor_id_matches :: "int option \<Rightarrow> int option \<Rightarrow> bool" where
  "actor_id_matches act anchor \<longleftrightarrow> act = None \<or> act = anchor"

fun actor_anchors_match :: "actor \<Rightarrow> anchors \<Rightarrow> bool" where
  "actor_anchors_match AHuman a \<longleftrightarrow> True"
| "actor_anchors_match ASystem a \<longleftrightarrow> True"
| "actor_anchors_match (AAgent session thread stream) a \<longleftrightarrow>
     actor_id_matches stream (an_stream a) \<and> actor_id_matches thread (an_thread a)
     \<and> actor_id_matches session (an_session a)"
| "actor_anchors_match (AEffect effect thread stream) a \<longleftrightarrow>
     actor_id_matches stream (an_stream a) \<and> actor_id_matches thread (an_thread a)"
| "actor_anchors_match (AJob job attempt fence thread stream) a \<longleftrightarrow>
     actor_id_matches stream (an_stream a) \<and> actor_id_matches thread (an_thread a)"
| "actor_anchors_match (APage page on_behalf_of) a \<longleftrightarrow> actor_anchors_match on_behalf_of a"
| "actor_anchors_match (AComponent component on_behalf_of) a \<longleftrightarrow> actor_anchors_match on_behalf_of a"

section \<open>The size\<close>

record count_writer =
  cw_len :: nat
  cw_exceeded :: bool

definition cw_write :: "count_writer \<Rightarrow> string \<Rightarrow> bool \<times> count_writer" where
  "cw_write w bytes =
     (case checked_add_u64 (cw_len w) (length bytes) of
        None \<Rightarrow> (False, w\<lparr>cw_exceeded := True\<rparr>)
      | Some len \<Rightarrow>
          if len > MAX_JSON_BYTES then (False, w\<lparr>cw_exceeded := True\<rparr>)
          else (True, w\<lparr>cw_len := len\<rparr>))"

fun cw_writes :: "count_writer \<Rightarrow> string list \<Rightarrow> bool \<times> count_writer" where
  "cw_writes w [] = (True, w)"
| "cw_writes w (p # ps) =
     (case cw_write w p of (True, w1) \<Rightarrow> cw_writes w1 ps | (False, w1) \<Rightarrow> (False, w1))"

definition encoded_len :: "json_lib \<Rightarrow> job_invocation_context \<Rightarrow> job_context_error + nat" where
  "encoded_len js c =
     (case js_pieces js c of (pieces, fails) \<Rightarrow>
        (case cw_writes \<lparr>cw_len = 0, cw_exceeded = False\<rparr> pieces of (written, w) \<Rightarrow>
           if \<not> written \<or> fails then Inl (if cw_exceeded w then JcTooLarge else JcInvalidJson)
           else Inr (cw_len w)))"

section \<open>Validate, encode, decode\<close>

definition validate_parts ::
  "'u uuid_lib \<Rightarrow> string \<Rightarrow> actor \<Rightarrow> anchors \<Rightarrow> string list \<Rightarrow> string option \<Rightarrow> job_context_error + unit" where
  "validate_parts ul run by a subject cause =
     (if \<not> canonical_uuid_v7 ul run
         \<or> \<not> valid_actor ul by 1
         \<or> \<not> valid_anchors a
         \<or> \<not> actor_anchors_match by a
         \<or> (case cause of None \<Rightarrow> False | Some e \<Rightarrow> \<not> canonical_uuid_v7 ul e)
         \<or> length subject > MAX_SUBJECTS
      then Inl JcInvalid
      else validate_subjects subject)"

definition jc_validate ::
  "'u uuid_lib \<Rightarrow> json_lib \<Rightarrow> job_invocation_context \<Rightarrow> job_context_error + unit" where
  "jc_validate ul js c =
     (if jc_schema_version c \<noteq> SCHEMA_VERSION then Inl JcInvalid
      else
        bind_res (validate_parts ul (jc_originating_run_id c) (jc_scheduled_by c) (jc_anchors c)
          (jc_subject c) (jc_cause c)) (\<lambda>_.
        bind_res (encoded_len js c) (\<lambda>len.
          if len > MAX_JSON_BYTES then Inl JcTooLarge else Inr ())))"

definition encode_json ::
  "'u uuid_lib \<Rightarrow> json_lib \<Rightarrow> job_invocation_context \<Rightarrow> job_context_error + string" where
  "encode_json ul js c =
     bind_res (jc_validate ul js c) (\<lambda>_.
       case js_pieces js c of (pieces, fails) \<Rightarrow>
         if fails then Inl JcInvalidJson else Inr (concat pieces))"

fun actor_of_wire :: "wire_actor \<Rightarrow> actor" where
  "actor_of_wire WHuman = AHuman"
| "actor_of_wire (WAgent session thread stream) = AAgent session thread stream"
| "actor_of_wire (WPage page on_behalf_of) = APage page (actor_of_wire on_behalf_of)"
| "actor_of_wire (WComponent component on_behalf_of) = AComponent component (actor_of_wire on_behalf_of)"
| "actor_of_wire WSystem = ASystem"
| "actor_of_wire (WEffect effect thread stream) = AEffect effect thread stream"
| "actor_of_wire (WJob job attempt fence thread stream) = AJob job attempt fence thread stream"

fun valid_wire_actor :: "'u uuid_lib \<Rightarrow> wire_actor \<Rightarrow> nat \<Rightarrow> anchors \<Rightarrow> bool" where
  "valid_wire_actor ul WHuman depth a \<longleftrightarrow> depth \<le> MAX_ACTOR_DEPTH"
| "valid_wire_actor ul WSystem depth a \<longleftrightarrow> depth \<le> MAX_ACTOR_DEPTH"
| "valid_wire_actor ul (WJob job attempt fence thread stream) depth a \<longleftrightarrow>
     depth \<le> MAX_ACTOR_DEPTH \<and> valid_job_actor ul job attempt fence
     \<and> actor_id_matches stream (an_stream a) \<and> actor_id_matches thread (an_thread a)"
| "valid_wire_actor ul (WAgent session thread stream) depth a \<longleftrightarrow>
     depth \<le> MAX_ACTOR_DEPTH
     \<and> actor_id_matches stream (an_stream a) \<and> actor_id_matches thread (an_thread a)
     \<and> actor_id_matches session (an_session a)"
| "valid_wire_actor ul (WPage page on_behalf_of) depth a \<longleftrightarrow>
     depth \<le> MAX_ACTOR_DEPTH \<and> valid_label page \<and> valid_wire_actor ul on_behalf_of (depth + 1) a"
| "valid_wire_actor ul (WComponent component on_behalf_of) depth a \<longleftrightarrow>
     depth \<le> MAX_ACTOR_DEPTH \<and> valid_label component \<and> valid_wire_actor ul on_behalf_of (depth + 1) a"
| "valid_wire_actor ul (WEffect effect thread stream) depth a \<longleftrightarrow>
     depth \<le> MAX_ACTOR_DEPTH \<and> valid_label effect
     \<and> actor_id_matches stream (an_stream a) \<and> actor_id_matches thread (an_thread a)"

definition context_of_wire :: "wire_context \<Rightarrow> job_invocation_context" where
  "context_of_wire w =
     \<lparr>jc_schema_version = wc_schema_version w, jc_originating_run_id = wc_originating_run_id w,
      jc_scheduled_by = actor_of_wire (wc_scheduled_by w), jc_anchors = wc_anchors w,
      jc_subject = wc_subject w, jc_cause = wc_cause w\<rparr>"

definition decode_json ::
  "'u uuid_lib \<Rightarrow> json_lib \<Rightarrow> string \<Rightarrow> job_context_error + job_invocation_context" where
  "decode_json ul js raw =
     (if length raw > MAX_JSON_BYTES then Inl JcTooLarge
      else
        (case js_wire js raw of
           None \<Rightarrow> Inl JcInvalidJson
         | Some w \<Rightarrow>
             if wc_schema_version w \<noteq> SCHEMA_VERSION
                \<or> \<not> canonical_uuid_v7 ul (wc_originating_run_id w)
                \<or> \<not> valid_wire_actor ul (wc_scheduled_by w) 1 (wc_anchors w)
                \<or> \<not> valid_anchors (wc_anchors w)
                \<or> (case wc_cause w of None \<Rightarrow> False | Some e \<Rightarrow> \<not> canonical_uuid_v7 ul e)
                \<or> length (wc_subject w) > MAX_SUBJECTS
             then Inl JcInvalid
             else
               bind_res (validate_subjects (wc_subject w)) (\<lambda>_.
               bind_res (jc_validate ul js (context_of_wire w)) (\<lambda>_.
                 Inr (context_of_wire w)))))"

definition same_scheduling_provenance :: "job_invocation_context \<Rightarrow> job_invocation_context \<Rightarrow> bool" where
  "same_scheduling_provenance c d \<longleftrightarrow>
     jc_scheduled_by c = jc_scheduled_by d \<and> jc_anchors c = jc_anchors d
     \<and> jc_subject c = jc_subject d \<and> jc_cause c = jc_cause d"

section \<open>The identity of an execution\<close>

record job_execution_identity =
  je_job_id :: string
  je_token :: attempt_fence

definition checked_mul_u64 :: "nat \<Rightarrow> nat \<Rightarrow> nat option" where
  "checked_mul_u64 a b = (if a * b \<le> u64_max then Some (a * b) else None)"

definition checked_sub_u64 :: "nat \<Rightarrow> nat \<Rightarrow> nat option" where
  "checked_sub_u64 a b = (if b \<le> a then Some (a - b) else None)"

definition identity_new ::
  "'u uuid_lib \<Rightarrow> string \<Rightarrow> attempt_fence \<Rightarrow> job_context_error + job_execution_identity" where
  "identity_new ul job tok =
     (let expected_fence = Option.bind (checked_mul_u64 (tok_attempt tok) 2) (\<lambda>n. checked_sub_u64 n 1) in
      if \<not> canonical_uuid_v7 ul job
         \<or> tok_attempt tok = 0
         \<or> tok_attempt tok > nat i64_max
         \<or> tok_fence tok = 0
         \<or> tok_fence tok > nat i64_max
         \<or> expected_fence \<noteq> Some (tok_fence tok)
      then Inl JcInvalid
      else Inr \<lparr>je_job_id = job, je_token = tok\<rparr>)"

definition actor_job :: "job_execution_identity \<Rightarrow> int option \<Rightarrow> int option \<Rightarrow> actor" where
  "actor_job i thread stream =
     AJob (je_job_id i) (tok_attempt (je_token i)) (tok_fence (je_token i)) thread stream"

definition identity_source :: "job_execution_identity \<Rightarrow> string option" where
  "identity_source i = job_run_uri (je_job_id i)"


section \<open>One check, written twice\<close>

lemma wire_actor_valid:
  "valid_wire_actor ul w depth a \<longleftrightarrow>
     valid_actor ul (actor_of_wire w) depth \<and> actor_anchors_match (actor_of_wire w) a"
  by (induction w arbitrary: depth) auto

lemma decode_validates:
  "decode_json ul js raw =
     (if length raw > MAX_JSON_BYTES then Inl JcTooLarge
      else
        (case js_wire js raw of
           None \<Rightarrow> Inl JcInvalidJson
         | Some w \<Rightarrow> bind_res (jc_validate ul js (context_of_wire w)) (\<lambda>_. Inr (context_of_wire w))))"
proof (cases "js_wire js raw")
  case None
  then show ?thesis by (simp add: decode_json_def)
next
  case (Some w)
  let ?bad = "wc_schema_version w \<noteq> SCHEMA_VERSION
      \<or> \<not> canonical_uuid_v7 ul (wc_originating_run_id w)
      \<or> \<not> valid_wire_actor ul (wc_scheduled_by w) 1 (wc_anchors w)
      \<or> \<not> valid_anchors (wc_anchors w)
      \<or> (case wc_cause w of None \<Rightarrow> False | Some e \<Rightarrow> \<not> canonical_uuid_v7 ul e)
      \<or> length (wc_subject w) > MAX_SUBJECTS"
  show ?thesis
  proof (cases ?bad)
    case True
    then have "jc_validate ul js (context_of_wire w) = Inl JcInvalid"
      by (auto simp: jc_validate_def validate_parts_def context_of_wire_def wire_actor_valid bind_res_def)
    with True Some show ?thesis by (simp add: decode_json_def)
  next
    case False
    show ?thesis
    proof (cases "validate_subjects (wc_subject w)")
      case (Inl e)
      with False have "jc_validate ul js (context_of_wire w) = Inl e"
        by (simp add: jc_validate_def validate_parts_def context_of_wire_def wire_actor_valid)
      with False Some Inl show ?thesis by (simp add: decode_json_def)
    next
      case (Inr u)
      with False Some show ?thesis by (simp add: decode_json_def)
    qed
  qed
qed

lemma cw_writes_len:
  "cw_writes w ps = (True, w') \<Longrightarrow>
     cw_len w' = cw_len w + length (concat ps)
     \<and> (cw_len w \<le> MAX_JSON_BYTES \<longrightarrow> cw_len w' \<le> MAX_JSON_BYTES)"
proof (induction ps arbitrary: w)
  case (Cons p ps)
  then obtain w1 where w1: "cw_write w p = (True, w1)" "cw_writes w1 ps = (True, w')"
    by (auto split: prod.splits bool.splits)
  then have "cw_len w1 = cw_len w + length p" "cw_len w1 \<le> MAX_JSON_BYTES"
    by (auto simp: cw_write_def checked_add_u64_def split: if_splits)
  with Cons.IH [OF w1(2)] show ?case by simp
qed simp

lemma encoded_len_Inr:
  assumes "encoded_len js c = Inr n"
  shows "js_pieces js c = (fst (js_pieces js c), False)" "n = length (concat (fst (js_pieces js c)))"
    "n \<le> MAX_JSON_BYTES"
proof -
  obtain pieces fails where p: "js_pieces js c = (pieces, fails)" by (rule prod.exhaust)
  obtain written w where w: "cw_writes \<lparr>cw_len = 0, cw_exceeded = False\<rparr> pieces = (written, w)"
    by (rule prod.exhaust)
  from assms p w have ok: "written" "\<not> fails" "n = cw_len w"
    by (auto simp: encoded_len_def split: if_splits)
  with w cw_writes_len [of "\<lparr>cw_len = 0, cw_exceeded = False\<rparr>" pieces w] p
  show "js_pieces js c = (fst (js_pieces js c), False)" "n = length (concat (fst (js_pieces js c)))"
    "n \<le> MAX_JSON_BYTES"
    by simp_all
qed

text \<open>
  What was written of a context its check accepts is read back. Job_Wire proves it of the code serde
  derives, from the parser alone.
\<close>

definition json_reads_back :: "'u uuid_lib \<Rightarrow> json_lib \<Rightarrow> bool" where
  "json_reads_back ul js \<longleftrightarrow>
     (\<forall>c ps. jc_validate ul js c = Inr () \<and> js_pieces js c = (ps, False) \<longrightarrow>
        (\<exists>w. js_wire js (concat ps) = Some w \<and> context_of_wire w = c))"

lemma encoded_fits:
  assumes "jc_validate ul js c = Inr ()"
  shows "length (concat (fst (js_pieces js c))) \<le> MAX_JSON_BYTES"
proof -
  obtain n where "encoded_len js c = Inr n"
    using assms by (auto simp: jc_validate_def bind_res_Inr split: if_splits)
  from encoded_len_Inr [OF this] show ?thesis by simp
qed

lemma encode_decodes:
  assumes "json_reads_back ul js" "encode_json ul js c = Inr raw"
  shows "decode_json ul js raw = Inr c"
proof -
  from assms(2) have valid: "jc_validate ul js c = Inr ()" and raw: "raw = concat (fst (js_pieces js c))"
    by (auto simp: encode_json_def bind_res_Inr split: prod.splits if_splits)
  from valid obtain n where "encoded_len js c = Inr n"
    by (auto simp: jc_validate_def bind_res_Inr split: if_splits)
  note len = encoded_len_Inr [OF this]
  obtain w where "js_wire js raw = Some w" "context_of_wire w = c"
    using assms(1) valid len(1) raw unfolding json_reads_back_def by metis
  with valid raw len(2,3) show ?thesis by (simp add: decode_validates)
qed

section \<open>Tokens and identities\<close>

lemma identity_valid:
  assumes "tok_attempt tok \<le> u32_max"
  shows "identity_new ul job tok = Inr i \<longleftrightarrow>
     valid_job_actor ul job (tok_attempt tok) (tok_fence tok) \<and> i = \<lparr>je_job_id = job, je_token = tok\<rparr>"
  using assms
  by (auto simp: identity_new_def Let_def valid_job_actor_def checked_mul_u64_def checked_sub_u64_def
      u32_max_def u64_max_def i64_max_def split: if_splits)

lemma nth_token_identity:
  assumes "canonical_uuid_v7 ul job" "0 < n" "n \<le> MAX_ATTEMPTS"
  shows "identity_new ul job (nth_token n) = Inr \<lparr>je_job_id = job, je_token = nth_token n\<rparr>"
  using assms
  by (subst identity_valid)
    (simp_all add: nth_token_def valid_job_actor_def MAX_ATTEMPTS_def u32_max_def i64_max_def mult.commute)

section \<open>A small world\<close>

definition demo_id :: string where "demo_id = ''018f0000-0000-7000-8000-000000000000''"

definition demo_uuids :: "unit uuid_lib" where
  "demo_uuids =
     \<lparr>uuid_parse_str = (\<lambda>s. if s = demo_id then Some () else None), uuid_version_num = (\<lambda>_. 7),
      uuid_rfc4122 = (\<lambda>_. True), uuid_to_string = (\<lambda>_. demo_id)\<rparr>"

lemma demo_canonical: "canonical_uuid_v7 demo_uuids demo_id"
  by (simp add: canonical_uuid_v7_def is_uuid_v7_def demo_uuids_def) (simp add: demo_id_def)

definition demo_wire :: wire_context where
  "demo_wire =
     \<lparr>wc_schema_version = 1, wc_originating_run_id = demo_id,
      wc_scheduled_by = WPage ''acme/board'' (WAgent None (Some 3) (Some 1)),
      wc_anchors = no_anchors\<lparr>an_thread := Some 3, an_stream := Some 1\<rparr>,
      wc_subject = [], wc_cause = None\<rparr>"

definition demo_json :: json_lib where
  "demo_json =
     \<lparr>js_pieces = (\<lambda>c. if c = context_of_wire demo_wire then ([''{'', ''}''], False) else ([], True)),
      js_wire = (\<lambda>s. if s = ''{}'' then Some demo_wire else None)\<rparr>"

lemma demo_reads_back: "json_reads_back demo_uuids demo_json"
  by (simp add: json_reads_back_def demo_json_def)

lemma demo_valid_parts: "validate_parts demo_uuids demo_id (actor_of_wire (wc_scheduled_by demo_wire))
    (wc_anchors demo_wire) [] None = Inr ()"
  using demo_canonical
  by (simp add: validate_parts_def demo_wire_def valid_label_def MAX_LABEL_BYTES_def MAX_ACTOR_DEPTH_def
      MAX_SUBJECTS_def valid_anchors_def none_or_positive_def no_anchors_def actor_id_matches_def byte_def)

lemma demo_encodes: "encode_json demo_uuids demo_json (context_of_wire demo_wire) = Inr ''{}''"
proof -
  have "encoded_len demo_json (context_of_wire demo_wire) = Inr 2"
    by (simp add: encoded_len_def demo_json_def cw_write_def checked_add_u64_def u64_max_def
        MAX_JSON_BYTES_def)
  moreover have "validate_parts demo_uuids (wc_originating_run_id demo_wire)
      (actor_of_wire (wc_scheduled_by demo_wire)) (wc_anchors demo_wire) (wc_subject demo_wire)
      (wc_cause demo_wire) = Inr ()"
    using demo_valid_parts by (simp add: demo_wire_def)
  moreover have "wc_schema_version demo_wire = SCHEMA_VERSION"
    by (simp add: demo_wire_def SCHEMA_VERSION_def)
  ultimately have "jc_validate demo_uuids demo_json (context_of_wire demo_wire) = Inr ()"
    by (simp add: jc_validate_def context_of_wire_def MAX_JSON_BYTES_def)
  then show ?thesis by (simp add: encode_json_def demo_json_def)
qed

definition demo_scheduled :: extension_job where
  "demo_scheduled = demo_job\<lparr>j_id := demo_id, j_run_id := demo_id\<rparr>"

lemma demo_scheduled_queued:
  "job_queued demo_uuids demo_id demo_owner demo_id ''k'' Idempotent 5 = Inr demo_scheduled"
  using demo_canonical
  by (simp add: job_queued_def job_validate_Inr bind_res_Inr demo_owner_ok canonical_uuid_v7_def
      demo_key_ok job_state_simps demo_scheduled_def demo_job_def Let_def)

lemma demo_claimed: "nth_token 1 \<in> set (issued demo_uuids demo_scheduled [Claim 10 20 ''k''])"
proof -
  note inv = job_queued_inv [OF demo_scheduled_queued]
  have "job_step demo_uuids demo_scheduled (Claim 10 20 ''k'') =
      Inr (demo_scheduled\<lparr>j_attempt := 1, j_fence := 1, j_state := Running,
        j_lease_until_ms := Some 30, j_updated_at_ms := 10\<rparr>)"
    by (simp add: job_step_of_inv [OF inv] bind_res_Inr apply_iffs demo_key_ok)
      (simp add: demo_scheduled_def demo_job_def counter_bounds)
  then have "j_attempt (run_events (job_step demo_uuids) demo_scheduled [Claim 10 20 ''k'']) = 1"
    by (simp add: attempt_step_def)
  with issued_tokens [OF inv, of "[Claim 10 20 ''k'']"] show ?thesis
    by (simp add: demo_scheduled_def demo_job_def)
qed

section \<open>Properties\<close>

text \<open>
  The strict check of the wire form refuses nothing the context's own check accepts, and accepts
  nothing it refuses: decoding is reading the wire form within the limit and validating the
  context it stands for.
\<close>

theorem decoding_is_validation:
  "decode_json ul js raw =
     (if length raw > MAX_JSON_BYTES then Inl JcTooLarge
      else
        (case js_wire js raw of
           None \<Rightarrow> Inl JcInvalidJson
         | Some w \<Rightarrow> bind_res (jc_validate ul js (context_of_wire w)) (\<lambda>_. Inr (context_of_wire w))))"
  by (rule decode_validates)

text \<open>
  The two components agree on what a token is: every token the lifecycle of a job hands out, in
  any run from its queueing, makes a valid identity of an execution of that job.
\<close>

theorem issued_tokens_identify:
  assumes "job_queued ul job own run key policy at = Inr j0" and "canonical_uuid_v7 ul job"
    and "tok \<in> set (issued ul j0 evs)"
  shows "identity_new ul job tok = Inr \<lparr>je_job_id = job, je_token = tok\<rparr>"
proof -
  have inv: "job_inv ul j0" by (rule job_queued_inv [OF assms(1)])
  let ?n = "j_attempt (run_events (job_step ul) j0 evs)"
  have "job_inv ul (run_events (job_step ul) j0 evs)"
    by (rule job.run_inv [OF inv])
  then have "?n \<le> MAX_ATTEMPTS"
    using inv_attempt_limit [of ul "run_events (job_step ul) j0 evs"]
    by (auto simp: attempt_limit_def MAX_ATTEMPTS_def split: replay_policy.splits)
  moreover obtain n where "tok = nth_token n" "0 < n" "n \<le> ?n"
    using assms(3) issued_tokens [OF inv, of evs] by auto
  ultimately show ?thesis using nth_token_identity [OF assms(2), of n] by simp
qed

lemma issued_tokens_identify_witness:
  "identity_new demo_uuids demo_id (nth_token 1) = Inr \<lparr>je_job_id = demo_id, je_token = nth_token 1\<rparr>"
  by (rule issued_tokens_identify [OF demo_scheduled_queued demo_canonical demo_claimed])

end
