(* ===== verification/Run_Context.thy ===== *)
theory Run_Context
  imports Job_Context Permissions
begin

text \<open>
  \<open>oxplow-domain/src/run.rs\<close>: one run of extension code and what it may do, and \<open>capture\<close> of
  \<open>extension_job_context.rs\<close>. Clones and nested runs share the cancel flag, the usage and the
  decisions through \<open>Arc\<close>s: a context holds addresses into a heap of them. A guard is a function of
  the host's state, which it reads when it is asked. What a constructor draws from outside (the
  generated run id, the clocks) is an argument.

  The lemmas: nested work keeps who runs, its flag and its guard, and never gets more time; a
  refusal by the guard is final for all of them; what is decided is recorded; and a job's run
  begins with nothing.
\<close>

section \<open>Budgets\<close>

text \<open>A \<open>Duration\<close> in nanoseconds.\<close>

record budget =
  bg_timeout :: nat
  bg_ceiling :: nat

definition secs :: "nat \<Rightarrow> nat" where
  "secs n = n * 1000000000"

definition CEILING :: nat where "CEILING = secs 600"

definition budget_default :: budget where
  "budget_default = \<lparr>bg_timeout = secs 120, bg_ceiling = CEILING\<rparr>"

definition with_timeout :: "nat \<Rightarrow> budget" where
  "with_timeout t = \<lparr>bg_timeout = t, bg_ceiling = if t > CEILING then t else CEILING\<rparr>"

definition with_ceiling :: "budget \<Rightarrow> nat \<Rightarrow> budget" where
  "with_ceiling b c = b\<lparr>bg_ceiling := c\<rparr>"

definition budget_min :: "budget \<Rightarrow> budget \<Rightarrow> budget" where
  "budget_min a b =
     \<lparr>bg_timeout = min (bg_timeout a) (bg_timeout b), bg_ceiling = min (bg_ceiling a) (bg_ceiling b)\<rparr>"

section \<open>Contexts\<close>

fun mode_as_str :: "mode \<Rightarrow> string" where
  "mode_as_str Pure = ''pure''"
| "mode_as_str Transactional = ''transactional''"
| "mode_as_str External = ''external''"

record usage =
  us_scopes :: "(string \<times> nat) list"
  us_cpu_ms :: nat
  us_peak_bytes :: nat
  us_ai_calls :: nat

definition usage_default :: usage where
  "usage_default = \<lparr>us_scopes = [], us_cpu_ms = 0, us_peak_bytes = 0, us_ai_calls = 0\<rparr>"

record authority =
  au_declared :: grant_request
  au_grant :: grant
  au_hosts :: bool

record contribution_handle =
  ch_id :: contribution_id
  ch_version :: "string option"
  ch_generation :: "string option"
  ch_deployment :: "string option"

type_synonym decided = "need \<times> decision"

record run_heap =
  h_cancel :: "bool list"
  h_usage :: "usage list"
  h_trace :: "(string \<times> nat) list list"
  h_decided :: "decided list list"

type_synonym 'w guard = "'w \<Rightarrow> string + unit"

record ('w, 'p) run_context =
  rc_run :: string
  rc_parent :: "string option"
  rc_contribution :: "contribution_handle option"
  rc_actor :: actor
  rc_anchors :: anchors
  rc_subject :: "string list"
  rc_cause :: "string option"
  rc_mode :: mode
  rc_budget :: budget
  rc_started :: nat
  rc_began :: int
  rc_cancel :: nat
  rc_trace :: nat
  rc_usage :: nat
  rc_authority :: "authority option"
  rc_guard :: "'w guard option"
  rc_pin :: "'p option"
  rc_decided :: nat
  rc_via :: "string option"

text \<open>What one constructor reads: the generated id, the monotonic clock twice, and the time.\<close>

record fresh =
  fr_run :: string
  fr_now :: nat
  fr_started :: nat
  fr_began :: int

definition run_new ::
  "fresh \<Rightarrow> actor \<Rightarrow> contribution_handle option \<Rightarrow> mode \<Rightarrow> run_heap \<Rightarrow> ('w, 'p) run_context \<times> run_heap" where
  "run_new fr act contribution m h =
     (\<lparr>rc_run = fr_run fr, rc_parent = None, rc_contribution = contribution, rc_actor = act,
       rc_anchors = actor_anchors act, rc_subject = [], rc_cause = None, rc_mode = m,
       rc_budget = budget_default, rc_started = fr_started fr, rc_began = fr_began fr,
       rc_cancel = length (h_cancel h), rc_trace = length (h_trace h), rc_usage = length (h_usage h),
       rc_authority = None, rc_guard = None, rc_pin = None, rc_decided = length (h_decided h),
       rc_via = None\<rparr>,
      \<lparr>h_cancel = h_cancel h @ [False], h_usage = h_usage h @ [usage_default],
       h_trace = h_trace h @ [[]], h_decided = h_decided h @ [[]]\<rparr>)"

definition core_run where
  "core_run fr act m h = run_new fr act None m h"

definition contribution_run where
  "contribution_run fr contribution act m h = run_new fr act (Some contribution) m h"

definition caused_by :: "('w, 'p) run_context \<Rightarrow> string \<Rightarrow> ('w, 'p) run_context" where
  "caused_by c event = c\<lparr>rc_cause := Some event\<rparr>"

text \<open>\<open>Option::or\<close>.\<close>

definition option_or :: "'a option \<Rightarrow> 'a option \<Rightarrow> 'a option" where
  "option_or a b = (case a of None \<Rightarrow> b | Some _ \<Rightarrow> a)"

definition anchored :: "('w, 'p) run_context \<Rightarrow> anchors \<Rightarrow> ('w, 'p) run_context" where
  "anchored c a =
     (let own = actor_anchors (rc_actor c) in
      c\<lparr>rc_anchors :=
          a\<lparr>an_stream := option_or (an_stream a) (an_stream own),
            an_thread := option_or (an_thread a) (an_thread own),
            an_session := option_or (an_session a) (an_session own)\<rparr>\<rparr>)"

definition acting_through :: "('w, 'p) run_context \<Rightarrow> string \<Rightarrow> ('w, 'p) run_context" where
  "acting_through c v = c\<lparr>rc_via := Some v\<rparr>"

definition about :: "('w, 'p) run_context \<Rightarrow> string list \<Rightarrow> ('w, 'p) run_context" where
  "about c subject = c\<lparr>rc_subject := subject\<rparr>"

definition authorized :: "('w, 'p) run_context \<Rightarrow> authority \<Rightarrow> ('w, 'p) run_context" where
  "authorized c a = c\<lparr>rc_authority := Some a\<rparr>"

text \<open>A guard added runs after the one already there, if that one passes.\<close>

definition guarded :: "('w, 'p) run_context \<Rightarrow> 'w guard \<Rightarrow> ('w, 'p) run_context" where
  "guarded c check =
     c\<lparr>rc_guard := Some (case rc_guard c of
         None \<Rightarrow> check
       | Some previous \<Rightarrow> (\<lambda>w. bind_res (previous w) (\<lambda>_. check w)))\<rparr>"

definition with_host_generation :: "('w, 'p) run_context \<Rightarrow> 'p \<Rightarrow> ('w, 'p) run_context" where
  "with_host_generation c pin = c\<lparr>rc_pin := Some pin\<rparr>"

definition without_host_generation :: "('w, 'p) run_context \<Rightarrow> ('w, 'p) run_context" where
  "without_host_generation c = c\<lparr>rc_pin := None\<rparr>"

definition within_budget :: "('w, 'p) run_context \<Rightarrow> budget \<Rightarrow> ('w, 'p) run_context" where
  "within_budget c b = c\<lparr>rc_budget := b\<rparr>"

definition under :: "('w, 'p) run_context \<Rightarrow> ('w, 'p) run_context \<Rightarrow> ('w, 'p) run_context" where
  "under c parent =
     (let c' = c\<lparr>rc_parent := Some (rc_run parent), rc_cancel := rc_cancel parent\<rparr> in
      case rc_guard parent of Some g \<Rightarrow> guarded c' g | None \<Rightarrow> c')"

definition placed_in :: "('w, 'p) run_context \<Rightarrow> int \<Rightarrow> ('w, 'p) run_context" where
  "placed_in c stream =
     c\<lparr>rc_actor := in_stream (rc_actor c) stream,
       rc_anchors := (rc_anchors c)\<lparr>an_stream := option_or (an_stream (rc_anchors c)) (Some stream)\<rparr>\<rparr>"

definition began_at :: "('w, 'p) run_context \<Rightarrow> int \<Rightarrow> ('w, 'p) run_context" where
  "began_at c t = c\<lparr>rc_began := t\<rparr>"

definition child ::
  "fresh \<Rightarrow> ('w, 'p) run_context \<Rightarrow> contribution_handle option \<Rightarrow> mode \<Rightarrow> run_heap
    \<Rightarrow> ('w, 'p) run_context \<times> run_heap" where
  "child fr c contribution m h =
     (let left = bg_ceiling (rc_budget c) - (fr_now fr - rc_started c);
          own = (contribution = None)
      in
      (\<lparr>rc_run = fr_run fr, rc_parent = Some (rc_run c),
        rc_contribution = (case contribution of Some k \<Rightarrow> Some k | None \<Rightarrow> rc_contribution c),
        rc_actor = rc_actor c, rc_anchors = rc_anchors c, rc_subject = rc_subject c,
        rc_cause = rc_cause c, rc_mode = m,
        rc_budget = budget_min (rc_budget c) \<lparr>bg_timeout = bg_timeout (rc_budget c), bg_ceiling = left\<rparr>,
        rc_started = fr_started fr, rc_began = fr_began fr, rc_cancel = rc_cancel c,
        rc_trace = length (h_trace h),
        rc_usage = (if own then rc_usage c else length (h_usage h)),
        rc_authority = (if own then rc_authority c else None),
        rc_guard = rc_guard c, rc_pin = rc_pin c,
        rc_decided = (if own then rc_decided c else length (h_decided h)),
        rc_via = rc_via c\<rparr>,
       h\<lparr>h_trace := h_trace h @ [[]],
         h_usage := h_usage h @ (if own then [] else [usage_default]),
         h_decided := h_decided h @ (if own then [] else [[]])\<rparr>))"

section \<open>What it may do\<close>

definition has_dataset_bounds :: "('w, 'p) run_context \<Rightarrow> bool" where
  "has_dataset_bounds c =
     (case rc_authority c of Some a \<Rightarrow> ''sql.read'' \<notin> set (gr_scopes (au_declared a)) | None \<Rightarrow> False)"

definition has_path_bounds :: "('w, 'p) run_context \<Rightarrow> bool" where
  "has_path_bounds c =
     (case rc_authority c of Some a \<Rightarrow> ''tree.read'' \<notin> set (gr_scopes (au_declared a)) | None \<Rightarrow> False)"

definition permits_path :: "('w, 'p) run_context \<Rightarrow> string \<Rightarrow> bool" where
  "permits_path c path \<longleftrightarrow>
     valid_path path
     \<and> (case rc_authority c of
          None \<Rightarrow> True
        | Some a \<Rightarrow> decide (NeedPath path) (au_declared a) (au_grant a) (au_hosts a) = Allowed)"

definition declares_scope :: "('w, 'p) run_context \<Rightarrow> string \<Rightarrow> bool" where
  "declares_scope c scope =
     (case rc_authority c of
        Some a \<Rightarrow> list_ex (\<lambda>nd. need_scope nd = scope) (gr_scopes (au_declared a))
      | None \<Rightarrow> False)"

definition cancel :: "run_heap \<Rightarrow> nat \<Rightarrow> run_heap" where
  "cancel h flag = h\<lparr>h_cancel := (h_cancel h)[flag := True]\<rparr>"

definition is_cancelled :: "run_heap \<Rightarrow> nat \<Rightarrow> bool" where
  "is_cancelled h flag = h_cancel h ! flag"

definition check_authority ::
  "'w \<Rightarrow> run_heap \<Rightarrow> ('w, 'p) run_context \<Rightarrow> (string + unit) \<times> run_heap" where
  "check_authority w h c =
     (if is_cancelled h (rc_cancel c) then (Inl ''the run was cancelled'', h)
      else
        (case rc_guard c of
           Some guard \<Rightarrow>
             (case guard w of
                Inl why \<Rightarrow> (Inl why, cancel h (rc_cancel c))
              | Inr _ \<Rightarrow> (Inr (), h))
         | None \<Rightarrow> (Inr (), h)))"

definition record_decision :: "run_heap \<Rightarrow> nat \<Rightarrow> decided \<Rightarrow> run_heap" where
  "record_decision h at_log d = h\<lparr>h_decided := (h_decided h)[at_log := h_decided h ! at_log @ [d]]\<rparr>"

definition run_decide ::
  "'w \<Rightarrow> run_heap \<Rightarrow> ('w, 'p) run_context \<Rightarrow> need \<Rightarrow> decision \<times> run_heap" where
  "run_decide w h c nd =
     (case check_authority w h c of (checked, h1) \<Rightarrow>
        let d = (case checked of
              Inl why \<Rightarrow> Denied why
            | Inr _ \<Rightarrow>
                (case rc_authority c of
                   Some a \<Rightarrow> decide nd (au_declared a) (au_grant a) (au_hosts a)
                 | None \<Rightarrow> Allowed))
        in (d, if rc_authority c \<noteq> None then record_decision h1 (rc_decided c) (nd, d) else h1))"

definition mode_refusal :: "mode \<Rightarrow> string \<Rightarrow> service_spec \<Rightarrow> string" where
  "mode_refusal m scope sv =
     ''a '' @ mode_as_str m @ '' run can'' @ apostrophe @ ''t use `'' @ scope @ ''` (''
     @ map to_ascii_lower (sv_title sv) @ ''): only a run that may call out can''"

definition decide_service ::
  "'w \<Rightarrow> run_heap \<Rightarrow> ('w, 'p) run_context \<Rightarrow> string \<Rightarrow> decision \<times> run_heap" where
  "decide_service w h c scope =
     (let nd = NeedScope scope in
      case service scope of
        Some s \<Rightarrow>
          if rc_mode c \<notin> set (sv_modes s) then
            (let d = Denied (mode_refusal (rc_mode c) scope s) in
             (d, record_decision h (rc_decided c) (nd, d)))
          else run_decide w h c nd
      | None \<Rightarrow> run_decide w h c nd)"

definition decisions :: "run_heap \<Rightarrow> ('w, 'p) run_context \<Rightarrow> decided list" where
  "decisions h c = h_decided h ! rc_decided c"

fun is_denied :: "decision \<Rightarrow> bool" where
  "is_denied (Denied why) \<longleftrightarrow> True"
| "is_denied _ \<longleftrightarrow> False"

definition was_denied :: "run_heap \<Rightarrow> ('w, 'p) run_context \<Rightarrow> bool" where
  "was_denied h c = list_ex (\<lambda>(nd, d). is_denied d) (decisions h c)"

section \<open>What it used\<close>

text \<open>A counter past its type's end panics: \<open>None\<close>.\<close>

definition used_scope :: "run_heap \<Rightarrow> ('w, 'p) run_context \<Rightarrow> string \<Rightarrow> run_heap option" where
  "used_scope h c scope =
     (let u = h_usage h ! rc_usage c in
      map_option (\<lambda>n. h\<lparr>h_usage := (h_usage h)[rc_usage c := u\<lparr>us_scopes := bt_insert scope n (us_scopes u)\<rparr>]\<rparr>)
        (checked_add_u32 (case map_of (us_scopes u) scope of Some n \<Rightarrow> n | None \<Rightarrow> 0) 1))"

definition used_cpu :: "run_heap \<Rightarrow> ('w, 'p) run_context \<Rightarrow> nat \<Rightarrow> nat \<Rightarrow> run_heap option" where
  "used_cpu h c cpu_ms peak_bytes =
     (let u = h_usage h ! rc_usage c in
      map_option (\<lambda>n. h\<lparr>h_usage := (h_usage h)[rc_usage c :=
          u\<lparr>us_cpu_ms := n, us_peak_bytes := max (us_peak_bytes u) peak_bytes\<rparr>]\<rparr>)
        (checked_add_u64 (us_cpu_ms u) cpu_ms))"

definition used_ai :: "run_heap \<Rightarrow> ('w, 'p) run_context \<Rightarrow> run_heap option" where
  "used_ai h c =
     (let u = h_usage h ! rc_usage c in
      map_option (\<lambda>n. h\<lparr>h_usage := (h_usage h)[rc_usage c := u\<lparr>us_ai_calls := n\<rparr>]\<rparr>)
        (checked_add_u32 (us_ai_calls u) 1))"

section \<open>Jobs\<close>

definition no_authority :: authority where
  "no_authority =
     \<lparr>au_declared = \<lparr>gr_scopes = [], gr_program = None, gr_hosts = [], gr_credentials = [],
        gr_env = [], gr_commands = []\<rparr>,
      au_grant = grant_none, au_hosts = False\<rparr>"

definition job_run ::
  "'u uuid_lib \<Rightarrow> json_lib \<Rightarrow> fresh \<Rightarrow> contribution_handle \<Rightarrow> job_execution_identity
    \<Rightarrow> job_invocation_context \<Rightarrow> run_heap
    \<Rightarrow> job_context_error + (('w, 'p) run_context \<times> run_heap)" where
  "job_run ul js fr contribution execution prov h =
     bind_res (jc_validate ul js prov) (\<lambda>_.
       let act = actor_job execution (an_thread (jc_anchors prov)) (an_stream (jc_anchors prov)) in
       case contribution_run fr contribution act External h of (c0, h1) \<Rightarrow>
         let c = authorized (about (anchored c0 (jc_anchors prov)) (jc_subject prov)) no_authority
         in Inr (c\<lparr>rc_parent := Some (jc_originating_run_id prov), rc_cause := jc_cause prov\<rparr>, h1))"

definition capture ::
  "'u uuid_lib \<Rightarrow> json_lib \<Rightarrow> ('w, 'p) run_context \<Rightarrow> job_context_error + job_invocation_context" where
  "capture ul js c =
     (let context = \<lparr>jc_schema_version = SCHEMA_VERSION, jc_originating_run_id = rc_run c,
            jc_scheduled_by = rc_actor c, jc_anchors = rc_anchors c, jc_subject = rc_subject c,
            jc_cause = rc_cause c\<rparr>
      in
      bind_res (validate_parts ul (rc_run c) (rc_actor c) (rc_anchors c) (rc_subject c) (rc_cause c)) (\<lambda>_.
      bind_res (encoded_len js context) (\<lambda>_.
      bind_res (jc_validate ul js context) (\<lambda>_. Inr context))))"

section \<open>What is told of it\<close>

record run_description =
  rd_run :: string
  rd_parent :: "string option"
  rd_contribution :: "string option"
  rd_version :: "string option"
  rd_generation :: "string option"
  rd_actor :: actor
  rd_anchors :: anchors
  rd_subject :: "string list"
  rd_cause :: "string option"
  rd_mode :: mode

definition describe :: "('w, 'p) run_context \<Rightarrow> run_description" where
  "describe c =
     \<lparr>rd_run = rc_run c, rd_parent = rc_parent c,
      rd_contribution = Option.bind (rc_contribution c) (\<lambda>k. ref_display (reference (ch_id k))),
      rd_version = Option.bind (rc_contribution c) ch_version,
      rd_generation = Option.bind (rc_contribution c) ch_generation,
      rd_actor = rc_actor c, rd_anchors = rc_anchors c, rd_subject = rc_subject c,
      rd_cause = rc_cause c, rd_mode = rc_mode c\<rparr>"

section \<open>Families\<close>

text \<open>
  Nested work: children, theirs, and guards added to them. \<open>own\<close> says that every step stayed with
  the contribution; \<open>spent\<close> is the time the runs on the way down had run when each began its child.
\<close>

inductive nested :: "bool \<Rightarrow> nat \<Rightarrow> ('w, 'p) run_context \<Rightarrow> ('w, 'p) run_context \<Rightarrow> bool" where
  itself: "nested own 0 c c"
| by_child: "nested own spent c d \<Longrightarrow> own \<longrightarrow> contribution = None
    \<Longrightarrow> nested own (spent + (fr_now fr - rc_started d)) c (fst (child fr d contribution m h))"
| by_guard: "nested own spent c d \<Longrightarrow> nested own spent c (guarded d check)"

text \<open>
  The runs that stop when one does: the run itself, what is nested in one of them, any run put
  under one of them whatever it was before, and each of these however it is set up afterwards.
\<close>

inductive stops_with :: "('w, 'p) run_context \<Rightarrow> ('w, 'p) run_context \<Rightarrow> bool" where
  stops_itself: "stops_with c c"
| stops_child: "stops_with c d \<Longrightarrow> stops_with c (fst (child fr d contribution m h))"
| stops_under: "stops_with c d \<Longrightarrow> stops_with c (under x d)"
| stops_guarded: "stops_with c d \<Longrightarrow> stops_with c (guarded d check)"
| stops_authorized: "stops_with c d \<Longrightarrow> stops_with c (authorized d a)"
| stops_budgeted: "stops_with c d \<Longrightarrow> stops_with c (within_budget d b)"
| stops_caused: "stops_with c d \<Longrightarrow> stops_with c (caused_by d event)"
| stops_anchored: "stops_with c d \<Longrightarrow> stops_with c (anchored d an)"
| stops_through: "stops_with c d \<Longrightarrow> stops_with c (acting_through d v)"
| stops_about: "stops_with c d \<Longrightarrow> stops_with c (about d subject)"
| stops_pinned: "stops_with c d \<Longrightarrow> stops_with c (with_host_generation d pin)"
| stops_unpinned: "stops_with c d \<Longrightarrow> stops_with c (without_host_generation d)"
| stops_placed: "stops_with c d \<Longrightarrow> stops_with c (placed_in d stream)"
| stops_dated: "stops_with c d \<Longrightarrow> stops_with c (began_at d t)"

text \<open>Another contribution's child has no authority until a host gives it one.\<close>

lemma another_contributions_child_is_free:
  assumes "rc_guard c = None" "\<not> is_cancelled h2 (rc_cancel c)"
  shows "fst (run_decide w h2 (fst (child fr c (Some k) m h)) nd) = Allowed"
  using assms by (simp add: run_decide_def check_authority_def child_def Let_def)

definition refused_by :: "'w \<Rightarrow> ('w, 'p) run_context \<Rightarrow> bool" where
  "refused_by w c \<longleftrightarrow> (\<exists>g why. rc_guard c = Some g \<and> g w = Inl why)"

lemma child_fields [simp]:
  "rc_actor (fst (child fr c contribution m h)) = rc_actor c"
  "rc_anchors (fst (child fr c contribution m h)) = rc_anchors c"
  "rc_subject (fst (child fr c contribution m h)) = rc_subject c"
  "rc_cause (fst (child fr c contribution m h)) = rc_cause c"
  "rc_via (fst (child fr c contribution m h)) = rc_via c"
  "rc_cancel (fst (child fr c contribution m h)) = rc_cancel c"
  "rc_guard (fst (child fr c contribution m h)) = rc_guard c"
  "rc_mode (fst (child fr c contribution m h)) = m"
  by (simp_all add: child_def Let_def)

lemma child_budget [simp]:
  "rc_budget (fst (child fr c contribution m h))
     = \<lparr>bg_timeout = bg_timeout (rc_budget c),
        bg_ceiling = bg_ceiling (rc_budget c) - (fr_now fr - rc_started c)\<rparr>"
  by (simp add: child_def Let_def budget_min_def)

lemma stops_with_flag: "stops_with c d \<Longrightarrow> rc_cancel d = rc_cancel c"
proof (induction rule: stops_with.induct)
  case (stops_under c d x)
  then show ?case by (simp add: under_def Let_def guarded_def split: option.split)
qed (simp_all add: guarded_def authorized_def within_budget_def caused_by_def anchored_def
    acting_through_def about_def with_host_generation_def without_host_generation_def placed_in_def
    began_at_def Let_def)

lemma guarded_fields [simp]:
  "rc_actor (guarded c g) = rc_actor c" "rc_anchors (guarded c g) = rc_anchors c"
  "rc_subject (guarded c g) = rc_subject c" "rc_cause (guarded c g) = rc_cause c"
  "rc_via (guarded c g) = rc_via c" "rc_cancel (guarded c g) = rc_cancel c"
  "rc_budget (guarded c g) = rc_budget c" "rc_authority (guarded c g) = rc_authority c"
  "rc_contribution (guarded c g) = rc_contribution c" "rc_decided (guarded c g) = rc_decided c"
  "rc_usage (guarded c g) = rc_usage c" "rc_mode (guarded c g) = rc_mode c"
  by (simp_all add: guarded_def)

lemma refused_guarded:
  "refused_by w (guarded c g) \<longleftrightarrow> refused_by w c \<or> (\<exists>why. g w = Inl why)"
proof (cases "rc_guard c")
  case (Some a)
  then show ?thesis by (cases "a w") (auto simp: refused_by_def guarded_def)
qed (simp add: refused_by_def guarded_def)

lemma nested_keeps:
  "nested own spent c d \<Longrightarrow>
     rc_actor d = rc_actor c \<and> rc_anchors d = rc_anchors c \<and> rc_subject d = rc_subject c
     \<and> rc_cause d = rc_cause c \<and> rc_via d = rc_via c \<and> rc_cancel d = rc_cancel c
     \<and> (\<forall>w. refused_by w c \<longrightarrow> refused_by w d)
     \<and> (own \<longrightarrow> rc_authority d = rc_authority c \<and> rc_contribution d = rc_contribution c
          \<and> rc_decided d = rc_decided c \<and> rc_usage d = rc_usage c)"
proof (induction rule: nested.induct)
  case (by_child own spent c d contribution fr m h)
  have "refused_by w (fst (child fr d contribution m h)) = refused_by w d" for w
    by (simp add: refused_by_def)
  with by_child show ?case by auto (auto simp: child_def Let_def)
qed (auto simp: refused_guarded)

lemma nested_budget:
  "nested own spent c d \<Longrightarrow>
     rc_budget d = \<lparr>bg_timeout = bg_timeout (rc_budget c), bg_ceiling = bg_ceiling (rc_budget c) - spent\<rparr>"
  by (induction rule: nested.induct) simp_all

section \<open>What runs do to the heap\<close>

datatype ('w, 'p) run_op =
  OpDecide 'w "('w, 'p) run_context" need
| OpService 'w "('w, 'p) run_context" string
| OpCancel nat
| OpChild fresh "('w, 'p) run_context" "contribution_handle option" mode
| OpNew fresh actor "contribution_handle option" mode

fun do_op :: "run_heap \<Rightarrow> ('w, 'p) run_op \<Rightarrow> run_heap" where
  "do_op h (OpDecide w c nd) = snd (run_decide w h c nd)"
| "do_op h (OpService w c scope) = snd (decide_service w h c scope)"
| "do_op h (OpCancel flag) = cancel h flag"
| "do_op h (OpChild fr c contribution m) = snd (child fr c contribution m h)"
| "do_op h (OpNew fr act contribution m) =
     snd (run_new fr act contribution m h :: ('w, 'p) run_context \<times> run_heap)"

definition flag_set :: "run_heap \<Rightarrow> nat \<Rightarrow> bool" where
  "flag_set h flag \<longleftrightarrow> flag < length (h_cancel h) \<and> is_cancelled h flag"

lemma record_decision_cancel [simp]: "h_cancel (record_decision h a d) = h_cancel h"
  by (simp add: record_decision_def)

lemma cancel_flag: "flag_set h flag \<Longrightarrow> flag_set (cancel h f) flag"
  by (cases "flag = f") (simp_all add: flag_set_def cancel_def is_cancelled_def)

lemma check_authority_flag: "flag_set h flag \<Longrightarrow> flag_set (snd (check_authority w h c)) flag"
  by (auto simp: check_authority_def cancel_flag split: option.splits sum.splits)

lemma flag_set_cong: "h_cancel h = h_cancel h' \<Longrightarrow> flag_set h flag = flag_set h' flag"
  by (simp add: flag_set_def is_cancelled_def)

lemma run_decide_cancel:
  "h_cancel (snd (run_decide w h c nd)) = h_cancel (snd (check_authority w h c))"
  by (simp add: run_decide_def Let_def split: prod.splits)

lemma do_op_flag: "flag_set h flag \<Longrightarrow> flag_set (do_op h op) flag"
proof (induction h op rule: do_op.induct)
  case (1 h w c nd)
  then show ?case
    using check_authority_flag [of h flag w c] flag_set_cong [OF run_decide_cancel [of w h c nd]]
    by simp
next
  case (2 h w c scope)
  then have "flag_set (snd (run_decide w h c (NeedScope scope))) flag"
    using check_authority_flag [of h flag w c]
      flag_set_cong [OF run_decide_cancel [of w h c "NeedScope scope"]] by simp
  moreover have "flag_set (record_decision h a d) flag" for a d
    using 2 flag_set_cong [of "record_decision h a d" h] by simp
  ultimately show ?case by (simp add: decide_service_def Let_def split: option.splits)
next
  case (3 h f)
  then show ?case by (simp add: cancel_flag)
qed (auto simp: child_def run_new_def Let_def flag_set_def is_cancelled_def nth_append)

lemma do_ops_flag: "flag_set h flag \<Longrightarrow> flag_set (foldl do_op h ops) flag"
  by (induction ops arbitrary: h) (auto intro: do_op_flag)

lemma cancelled_decides:
  assumes "flag_set h (rc_cancel c)"
  shows "fst (run_decide w h c nd) = Denied ''the run was cancelled''"
  using assms by (simp add: run_decide_def check_authority_def flag_set_def Let_def)

lemma cancelled_service:
  "flag_set h (rc_cancel c) \<Longrightarrow> is_denied (fst (decide_service w h c scope))"
  by (simp add: decide_service_def Let_def cancelled_decides split: option.splits)

lemma refused_cancels:
  assumes "refused_by w c" "rc_cancel c < length (h_cancel h)"
  shows "flag_set (snd (run_decide w h c nd)) (rc_cancel c)" "is_denied (fst (run_decide w h c nd))"
proof -
  obtain g why where g: "rc_guard c = Some g" "g w = Inl why" using assms(1) by (auto simp: refused_by_def)
  have "flag_set (snd (check_authority w h c)) (rc_cancel c)"
    using g assms(2) by (auto simp: check_authority_def flag_set_def is_cancelled_def cancel_def)
  then show "flag_set (snd (run_decide w h c nd)) (rc_cancel c)"
    using flag_set_cong [OF run_decide_cancel [of w h c nd]] by simp
  show "is_denied (fst (run_decide w h c nd))"
    using g by (simp add: run_decide_def check_authority_def Let_def split: prod.splits)
qed

section \<open>What is recorded\<close>

lemma decided_recorded:
  assumes "rc_decided c < length (h_decided h)" "rc_authority c \<noteq> None"
  shows "decisions (snd (run_decide w h c nd)) c = decisions h c @ [(nd, fst (run_decide w h c nd))]"
    "length (h_decided (snd (run_decide w h c nd))) = length (h_decided h)"
proof -
  have "h_decided (snd (check_authority w h c)) = h_decided h"
    by (auto simp: check_authority_def cancel_def split: option.splits sum.splits)
  with assms show "decisions (snd (run_decide w h c nd)) c = decisions h c @ [(nd, fst (run_decide w h c nd))]"
    "length (h_decided (snd (run_decide w h c nd))) = length (h_decided h)"
    by (auto simp: run_decide_def Let_def decisions_def record_decision_def split: prod.splits)
qed

lemma service_recorded:
  assumes "rc_decided c < length (h_decided h)" "rc_authority c \<noteq> None"
  shows "decisions (snd (decide_service w h c scope)) c =
      decisions h c @ [(NeedScope scope, fst (decide_service w h c scope))]"
    "length (h_decided (snd (decide_service w h c scope))) = length (h_decided h)"
  using assms decided_recorded [OF assms, of w "NeedScope scope"]
  by (auto simp: decide_service_def Let_def decisions_def record_decision_def split: option.splits)

text \<open>One need a run of the family asks for, directly or as the use of a service.\<close>

datatype ('w, 'p) asking = AskNeed 'w "('w, 'p) run_context" need | AskService 'w "('w, 'p) run_context" string

fun asker :: "('w, 'p) asking \<Rightarrow> ('w, 'p) run_context" where
  "asker (AskNeed w c nd) = c"
| "asker (AskService w c scope) = c"

fun asked_need :: "('w, 'p) asking \<Rightarrow> need" where
  "asked_need (AskNeed w c nd) = nd"
| "asked_need (AskService w c scope) = NeedScope scope"

fun answer_ask :: "run_heap \<Rightarrow> ('w, 'p) asking \<Rightarrow> decision \<times> run_heap" where
  "answer_ask h (AskNeed w c nd) = run_decide w h c nd"
| "answer_ask h (AskService w c scope) = decide_service w h c scope"

fun answers :: "run_heap \<Rightarrow> ('w, 'p) asking list \<Rightarrow> decision list \<times> run_heap" where
  "answers h [] = ([], h)"
| "answers h (a # as) =
     (case answer_ask h a of (d, h1) \<Rightarrow> case answers h1 as of (ds, h2) \<Rightarrow> (d # ds, h2))"

lemma answer_recorded:
  assumes "rc_decided (asker a) < length (h_decided h)" "rc_authority (asker a) \<noteq> None"
  shows "h_decided (snd (answer_ask h a)) ! rc_decided (asker a) =
      h_decided h ! rc_decided (asker a) @ [(asked_need a, fst (answer_ask h a))]"
    "length (h_decided (snd (answer_ask h a))) = length (h_decided h)"
  using assms decided_recorded [of "asker a" h] service_recorded [of "asker a" h]
  by (cases a; simp add: decisions_def)+

lemma answers_recorded:
  "\<forall>a \<in> set as. rc_decided (asker a) = addr \<and> rc_authority (asker a) \<noteq> None \<Longrightarrow>
     addr < length (h_decided h) \<Longrightarrow>
     h_decided (snd (answers h as)) ! addr = h_decided h ! addr @ zip (map asked_need as) (fst (answers h as))"
proof (induction as arbitrary: h)
  case (Cons a as)
  obtain d h1 where a: "answer_ask h a = (d, h1)" by (rule prod.exhaust)
  obtain ds h2 where r: "answers h1 as = (ds, h2)" by (rule prod.exhaust)
  from answer_recorded [of a h] Cons.prems a
  have "h_decided h1 ! addr = h_decided h ! addr @ [(asked_need a, d)]" "addr < length (h_decided h1)"
    by auto
  with Cons.IH [of h1] Cons.prems a r show ?case by simp
qed simp

section \<open>Jobs\<close>

lemma job_run_fields:
  assumes "job_run ul js fr k i prov h = Inr (c, h1)"
  shows "rc_actor c = actor_job i (an_thread (jc_anchors prov)) (an_stream (jc_anchors prov))"
    "rc_anchors c = jc_anchors prov" "rc_subject c = jc_subject prov" "rc_cause c = jc_cause prov"
    "rc_parent c = Some (jc_originating_run_id prov)" "rc_mode c = External"
    "rc_authority c = Some no_authority" "rc_guard c = None" "jc_validate ul js prov = Inr ()"
    "rc_cancel c = length (h_cancel h)" "h_cancel h1 = h_cancel h @ [False]"
    "rc_decided c = length (h_decided h)" "h_decided h1 = h_decided h @ [[]]"
proof -
  obtain c0 where c0: "contribution_run fr k
      (actor_job i (an_thread (jc_anchors prov)) (an_stream (jc_anchors prov))) External h = (c0, h1)"
    and v: "jc_validate ul js prov = Inr ()"
    and c: "c = (authorized (about (anchored c0 (jc_anchors prov)) (jc_subject prov)) no_authority)
        \<lparr>rc_parent := Some (jc_originating_run_id prov), rc_cause := jc_cause prov\<rparr>"
    using assms by (auto simp: job_run_def bind_res_Inr Let_def split: prod.splits)
  note flds = c0 [unfolded contribution_run_def run_new_def, symmetric] c authorized_def about_def
    anchored_def Let_def actor_job_def actor_anchors_def no_anchors_def option_or_def
  show "rc_actor c = actor_job i (an_thread (jc_anchors prov)) (an_stream (jc_anchors prov))"
    "rc_subject c = jc_subject prov" "rc_cause c = jc_cause prov"
    "rc_parent c = Some (jc_originating_run_id prov)" "rc_mode c = External"
    "rc_authority c = Some no_authority" "rc_guard c = None" "jc_validate ul js prov = Inr ()"
    "rc_cancel c = length (h_cancel h)" "h_cancel h1 = h_cancel h @ [False]"
    "rc_decided c = length (h_decided h)" "h_decided h1 = h_decided h @ [[]]"
    using c0 v
    by (auto simp: contribution_run_def run_new_def c authorized_def about_def anchored_def Let_def)
  show "rc_anchors c = jc_anchors prov"
    using c0 by (auto simp: contribution_run_def run_new_def c authorized_def about_def anchored_def Let_def
        actor_job_def actor_anchors_def no_anchors_def option_or_def split: option.splits)
qed

lemma job_run_id: "job_run ul js fr k i prov h = Inr (c, h1) \<Longrightarrow> rc_run c = fr_run fr"
  by (auto simp: job_run_def bind_res_Inr Let_def contribution_run_def run_new_def authorized_def
      about_def anchored_def)

lemma nothing_granted:
  assumes "\<And>rest. nd \<noteq> NeedCommand (CHR ''.'' # rest)"
  shows "is_denied (decide nd (au_declared no_authority) (au_grant no_authority) (au_hosts no_authority))"
proof (cases nd)
  case (NeedCommand i)
  with assms show ?thesis
    by (cases i) (auto simp: decide_def no_authority_def permits_def grant_none_def no_permissions_def
        command_allowed_def strip_prefix_def)
qed (simp_all add: decide_def no_authority_def)

lemma decided_by_authority:
  assumes "rc_authority c = Some a"
    "is_denied (decide nd (au_declared a) (au_grant a) (au_hosts a))"
  shows "is_denied (fst (run_decide w h c nd))"
  using assms by (auto simp: run_decide_def Let_def split: prod.splits sum.splits)

lemma job_actor_valid:
  assumes "identity_new ul job tok = Inr i" "tok_attempt tok \<le> u32_max" "valid_anchors a"
  shows "valid_actor ul (actor_job i (an_thread a) (an_stream a)) 1"
    "actor_anchors_match (actor_job i (an_thread a) (an_stream a)) a"
  using assms identity_valid [OF assms(2), of ul job i]
  by (auto simp: actor_job_def MAX_ACTOR_DEPTH_def actor_id_matches_def)

lemma capture_fields:
  "capture ul js c = Inr p \<Longrightarrow>
     jc_scheduled_by p = rc_actor c \<and> jc_anchors p = rc_anchors c \<and> jc_subject p = rc_subject c
     \<and> jc_cause p = rc_cause c \<and> jc_originating_run_id p = rc_run c \<and> jc_validate ul js p = Inr ()"
  by (auto simp: capture_def Let_def bind_res_Inr)

section \<open>A small world\<close>

definition demo_heap :: run_heap where
  "demo_heap = \<lparr>h_cancel = [], h_usage = [], h_trace = [], h_decided = []\<rparr>"

definition demo_fresh :: fresh where
  "demo_fresh = \<lparr>fr_run = demo_id, fr_now = 7, fr_started = 5, fr_began = 0\<rparr>"

definition demo_handle :: contribution_handle where
  "demo_handle =
     \<lparr>ch_id = contribution_id_new ''acme'' Effect ''note'', ch_version = None, ch_generation = None,
      ch_deployment = None\<rparr>"

definition demo_run :: "(nat, unit) run_context" where
  "demo_run = authorized (guarded (fst (contribution_run demo_fresh demo_handle AHuman Pure demo_heap))
      (\<lambda>w. if w = 0 then Inl ''disabled'' else Inr ())) no_authority"

definition demo_heap1 :: run_heap where
  "demo_heap1 = \<lparr>h_cancel = [False], h_usage = [usage_default], h_trace = [[]], h_decided = [[]]\<rparr>"

definition demo_child :: "(nat, unit) run_context" where
  "demo_child = fst (child demo_fresh demo_run None Pure demo_heap1)"

lemma demo_nested: "nested True 2 demo_run demo_child"
proof -
  have two: "(2 :: nat) = 0 + (fr_now demo_fresh - rc_started demo_run)"
    by (simp add: demo_fresh_def demo_run_def authorized_def guarded_def contribution_run_def run_new_def)
  show ?thesis unfolding demo_child_def two by (rule by_child [OF itself]) simp
qed

text \<open>A run of its own, put under the child.\<close>

definition demo_under :: "(nat, unit) run_context" where
  "demo_under = under (fst (core_run demo_fresh AHuman Pure demo_heap1)) demo_child"

lemma demo_stops: "stops_with demo_run demo_under" "rc_guard demo_under \<noteq> None"
  unfolding demo_under_def demo_child_def
  by (intro stops_under stops_child stops_itself)
    (simp add: under_def Let_def guarded_def demo_run_def authorized_def child_def split: option.split)

lemma demo_run_fields:
  "rc_cancel demo_run = 0" "refused_by 0 demo_run" "rc_authority demo_run = Some no_authority"
  "rc_decided demo_run = 0"
  by (simp_all add: demo_run_def authorized_def guarded_def contribution_run_def run_new_def demo_heap_def
      refused_by_def)

lemma demo_decided: "is_denied (fst (run_decide 0 demo_heap1 demo_run NeedFiles))"
  using refused_cancels(2) [OF demo_run_fields(2)] demo_run_fields(1) by (simp add: demo_heap1_def)

definition demo_identity :: job_execution_identity where
  "demo_identity = \<lparr>je_job_id = demo_id, je_token = nth_token 1\<rparr>"

lemma demo_identified: "identity_new demo_uuids demo_id (nth_token 1) = Inr demo_identity"
  unfolding demo_identity_def
  by (rule nth_token_identity [OF demo_canonical]) (simp_all add: MAX_ATTEMPTS_def)

definition demo_job_run :: "(nat, unit) run_context" where
  "demo_job_run =
     (case job_run demo_uuids demo_json demo_fresh demo_handle demo_identity (context_of_wire demo_wire)
        demo_heap of Inr (c, h) \<Rightarrow> c | Inl e \<Rightarrow> undefined)"

lemma demo_job_runs:
  "\<exists>h. job_run demo_uuids demo_json demo_fresh demo_handle demo_identity (context_of_wire demo_wire)
     demo_heap = Inr (demo_job_run, h)"
proof -
  have "jc_validate demo_uuids demo_json (context_of_wire demo_wire) = Inr ()"
    using demo_encodes by (auto simp: encode_json_def bind_res_Inr)
  then show ?thesis
    unfolding demo_job_run_def by (simp add: job_run_def split: prod.splits)
qed

section \<open>Properties\<close>

text \<open>
  C25. Nested work is bound to the run it is nested in, however deep: it has exactly the time that run has
  left, its ceiling less all the time the runs above it had spent when each began its child and
  never below zero; it runs as the same actor, at the same anchors, for the same cause and subject,
  stops with the same flag and answers to every check the run answers to; while it stays the
  contribution's own, it is decided by the same authority, counted in the same usage and recorded
  in the same list.
\<close>

theorem nested_runs_stay_bound:
  assumes "nested own spent c d"
  shows "bg_ceiling (rc_budget d) = bg_ceiling (rc_budget c) - spent
    \<and> bg_timeout (rc_budget d) = bg_timeout (rc_budget c)
    \<and> rc_actor d = rc_actor c \<and> rc_anchors d = rc_anchors c \<and> rc_subject d = rc_subject c
    \<and> rc_cause d = rc_cause c \<and> rc_via d = rc_via c \<and> rc_cancel d = rc_cancel c
    \<and> (refused_by w c \<longrightarrow> refused_by w d)
    \<and> (own \<longrightarrow> rc_authority d = rc_authority c \<and> rc_contribution d = rc_contribution c
          \<and> rc_decided d = rc_decided c \<and> rc_usage d = rc_usage c)"
  using nested_keeps [OF assms] nested_budget [OF assms] by simp

lemma nested_runs_stay_bound_witness:
  "bg_ceiling (rc_budget demo_child) + 2 = bg_ceiling (rc_budget demo_run)
    \<and> rc_decided demo_child = rc_decided demo_run \<and> refused_by 0 demo_child"
  using nested_runs_stay_bound [OF demo_nested, of 0] demo_run_fields(2)
  by (simp add: demo_run_def authorized_def guarded_def contribution_run_def run_new_def budget_default_def
      CEILING_def secs_def)

text \<open>
  C11. A refused run is over, and so is every run that shares its flag, nested in the same run, put
  under one of them or set up from one of them: after one check of one of them was refused, then
  whatever runs do next, each of them is denied whatever it asks, whoever owns it and whatever the
  guard would say by then.
\<close>

theorem a_refusal_ends_the_family:
  assumes "stops_with c d" "stops_with c e" "refused_by w d" "rc_cancel c < length (h_cancel h)"
    and "h' = foldl do_op (snd (run_decide w h d nd)) ops"
  shows "fst (run_decide w' h' e nd') = Denied ''the run was cancelled''
    \<and> is_denied (fst (decide_service w' h' e scope))"
proof -
  have "flag_set h' (rc_cancel e)"
    using do_ops_flag [OF refused_cancels(1) [OF assms(3), of h nd], of ops] assms(4,5)
    by (simp add: stops_with_flag [OF assms(1)] stops_with_flag [OF assms(2)])
  then show ?thesis by (simp add: cancelled_decides cancelled_service)
qed

lemma a_refusal_ends_the_family_witness:
  "is_denied (fst (decide_service 1
      (foldl do_op (snd (run_decide 0 demo_heap1 demo_run NeedFiles)) [OpCancel 0]) demo_under ''tree.read''))"
  using a_refusal_ends_the_family [OF stops_itself demo_stops(1) demo_run_fields(2),
      of demo_heap1 _ NeedFiles "[OpCancel 0]" 1]
    demo_run_fields(1) by (simp add: demo_heap1_def)

text \<open>
  What an extension's runs are told is on record: whatever the runs of one family ask, directly or
  to use a service, their list grows by exactly what was asked and what was answered, in order,
  and the family counts as denied just when one of the answers, now or before, was.
\<close>

theorem decisions_are_recorded:
  assumes "\<forall>a \<in> set as. rc_decided (asker a) = rc_decided c \<and> rc_authority (asker a) \<noteq> None"
    and "rc_decided c < length (h_decided h)" and "answers h as = (ds, h')"
  shows "decisions h' c = decisions h c @ zip (map asked_need as) ds
    \<and> (was_denied h' c \<longleftrightarrow> was_denied h c \<or> list_ex is_denied ds)"
proof -
  have len: "answers h as = (ds, h') \<Longrightarrow> length ds = length as" for ds h' h
    by (induction as arbitrary: h ds h') (auto split: prod.splits)
  have "list_ex (\<lambda>(nd, d). is_denied d) (zip xs ds) \<longleftrightarrow> list_ex is_denied ds"
    if "length xs = length ds" for xs :: "need list"
    using that by (induction xs ds rule: list_induct2) simp_all
  with answers_recorded [OF assms(1,2)] assms(3) len [OF assms(3)] show ?thesis
    by (simp add: decisions_def was_denied_def)
qed

lemma decisions_are_recorded_witness:
  "decisions (snd (answers demo_heap1 [AskNeed 1 demo_run NeedFiles])) demo_run
    = decisions demo_heap1 demo_run
      @ zip [NeedFiles] (fst (answers demo_heap1 [AskNeed 1 demo_run NeedFiles]))"
  using decisions_are_recorded [of "[AskNeed 1 demo_run NeedFiles]" demo_run demo_heap1] demo_run_fields
  by (simp add: demo_heap1_def split: prod.splits)

text \<open>
  A job begins with nothing: its run is not cancelled and nothing was decided, it may not confirm
  for a person, and until a host authorizes it, it and all it nests are denied whatever they ask
  except a command id that starts with a dot, which no command has.
\<close>

theorem job_runs_begin_with_nothing:
  assumes "job_run ul js fr k i prov h = Inr (c, h1)" "nested True spent c d"
    and "\<And>rest. nd \<noteq> NeedCommand (CHR ''.'' # rest)"
  shows "is_denied (fst (run_decide w h2 d nd)) \<and> \<not> may_confirm (rc_actor d)
    \<and> \<not> is_cancelled h1 (rc_cancel c) \<and> decisions h1 c = []"
proof -
  note flds = job_run_fields [OF assms(1)]
  have "rc_authority d = Some no_authority" "rc_actor d = rc_actor c"
    using nested_keeps [OF assms(2)] flds(7) by simp_all
  with flds nothing_granted [OF assms(3)] decided_by_authority [of d no_authority nd w h2] show ?thesis
    by (simp add: actor_job_def is_cancelled_def decisions_def nth_append)
qed

lemma job_runs_begin_with_nothing_witness:
  "is_denied (fst (run_decide 0 demo_heap1 demo_job_run NeedFiles)) \<and> \<not> may_confirm (rc_actor demo_job_run)"
proof -
  obtain h where "job_run demo_uuids demo_json demo_fresh demo_handle demo_identity
      (context_of_wire demo_wire) demo_heap = Inr (demo_job_run, h)" using demo_job_runs by blast
  from job_runs_begin_with_nothing [OF this itself, of NeedFiles 0 demo_heap1] show ?thesis by simp
qed

text \<open>
  A job schedules with the provenance it was scheduled with: what a run nested in it captures
  names the job's own execution as the one who scheduled, keeps the anchors, the subject and the
  cause, and never fails the checks of a context whose anchors and subjects passed them once.
\<close>

theorem jobs_hand_on_provenance:
  assumes "identity_new ul job tok = Inr i" "tok_attempt tok \<le> u32_max"
    and "job_run ul js fr k i prov h = Inr (c, h1)" "nested own spent c d" "canonical_uuid_v7 ul (rc_run d)"
  shows "validate_parts ul (rc_run d) (rc_actor d) (rc_anchors d) (rc_subject d) (rc_cause d) = Inr ()
    \<and> (\<forall>p. capture ul js d = Inr p \<longrightarrow>
          jc_originating_run_id p = rc_run d
          \<and> jc_scheduled_by p
              = AJob job (tok_attempt tok) (tok_fence tok) (an_thread (jc_anchors prov))
                  (an_stream (jc_anchors prov))
          \<and> jc_anchors p = jc_anchors prov \<and> jc_subject p = jc_subject prov
          \<and> jc_cause p = jc_cause prov)"
proof -
  note flds = job_run_fields [OF assms(3)]
  note kept = nested_keeps [OF assms(4)]
  have i: "i = \<lparr>je_job_id = job, je_token = tok\<rparr>"
    using assms(1) identity_valid [OF assms(2), of ul job i] by simp
  have parts: "validate_parts ul (jc_originating_run_id prov) (jc_scheduled_by prov) (jc_anchors prov)
      (jc_subject prov) (jc_cause prov) = Inr ()"
    using flds(9) by (auto simp: jc_validate_def bind_res_Inr split: if_splits)
  then have "valid_anchors (jc_anchors prov)"
    by (auto simp: validate_parts_def split: if_splits)
  with parts assms(5) job_actor_valid [OF assms(1,2)] kept flds(1-4)
  have "validate_parts ul (rc_run d) (rc_actor d) (rc_anchors d) (rc_subject d) (rc_cause d) = Inr ()"
    by (auto simp: validate_parts_def split: if_splits)
  moreover have "rc_actor d = AJob job (tok_attempt tok) (tok_fence tok) (an_thread (jc_anchors prov))
      (an_stream (jc_anchors prov))"
    using kept flds(1) i by (simp add: actor_job_def)
  ultimately show ?thesis using kept flds(2-4) capture_fields [of ul js d] by auto
qed

lemma jobs_hand_on_provenance_witness:
  "validate_parts demo_uuids (rc_run demo_job_run) (rc_actor demo_job_run) (rc_anchors demo_job_run)
     (rc_subject demo_job_run) (rc_cause demo_job_run) = Inr ()"
proof -
  obtain h where run: "job_run demo_uuids demo_json demo_fresh demo_handle demo_identity
      (context_of_wire demo_wire) demo_heap = Inr (demo_job_run, h)" using demo_job_runs by blast
  have id: "canonical_uuid_v7 demo_uuids (rc_run demo_job_run)"
    using demo_canonical job_run_id [OF run] by (simp add: demo_fresh_def)
  have "tok_attempt (nth_token 1) \<le> u32_max" by (simp add: nth_token_def u32_max_def)
  from jobs_hand_on_provenance [OF demo_identified this run itself id] show ?thesis by simp
qed

end
