(* ===== verification/Param_Pattern.thy ===== *)
theory Param_Pattern
  imports Decimal "HOL-Library.Word"
begin

text \<open>
  \<open>oxplow-app/src/param_pattern.rs\<close>: the patterns a resource's parameters declare, read into
  runs of character sets and written back in one explicit form. A character set is the code's
  \<open>u128\<close>, here \<open>128 word\<close>; \<open>Peekable<Chars>\<close> is the text not read yet, which the parsers return.
  Past the check that every character is printable ASCII a character is a byte. Refusals are the
  constructors of \<open>pattern_error\<close>, without their wording.

  The lemmas: what a set is spelled as is read back as that set, so what is kept reads back as
  the same runs and is its own kept form; and what the fences of an accepted pattern do and do
  not rule out.
\<close>

unbundle bit_operations_syntax

section \<open>Sets of characters\<close>

type_synonym charset = "128 word"

definition MAX_ID_PATTERN :: nat where "MAX_ID_PATTERN = 256"
definition MAX_REPEAT :: nat where "MAX_REPEAT = 256"

record run =
  r_set :: charset
  r_min :: nat
  r_max :: "nat option"

definition bit_of :: "char \<Rightarrow> charset" where
  "bit_of c = push_bit (byte c) 1"

definition span :: "char \<Rightarrow> char \<Rightarrow> charset" where
  "span lo hi = foldl (\<lambda>s c. s OR push_bit c 1) 0 [byte lo ..< Suc (byte hi)]"

definition digits :: charset where
  "digits = span CHR ''0'' CHR ''9''"

definition word_set :: charset where
  "word_set = span CHR ''0'' CHR ''9'' OR span CHR ''A'' CHR ''Z'' OR span CHR ''a'' CHR ''z''
     OR bit_of CHR ''_''"

definition printable :: "char \<Rightarrow> bool" where
  "printable c \<longleftrightarrow> 32 \<le> byte c \<and> byte c \<le> 126"

definition is_ascii_punctuation :: "char \<Rightarrow> bool" where
  "is_ascii_punctuation c \<longleftrightarrow>
     is_ascii_graphic c \<and> \<not> is_ascii_alpha c \<and> \<not> is_ascii_digit c"

definition escapable :: "char \<Rightarrow> bool" where
  "escapable c \<longleftrightarrow> is_ascii_punctuation c \<and> c \<noteq> CHR ''<'' \<and> c \<noteq> CHR ''>''"

section \<open>Reading a pattern\<close>

datatype pattern_error =
  TooLong | NotPrintable | NotAnchored | Group | Alternation | AnyCharacter | InnerAnchor char
  | NothingToRepeat char | Unescaped char | LoneBackslash | NotAlike char
  | ClassOpen | EmptyClass | NegatedClass | NestedClass | SetOperation char | RangeEnd
  | RangeBackwards char char | BraceOpen | NotARepeat string | RepeatTooBig
  | RepeatBackwards string | MatchesNothing | Stacked | NotFenced

abbreviation backslash :: char where "backslash \<equiv> CHR 0x5C"

fun escape :: "char option \<Rightarrow> pattern_error + charset" where
  "escape None = Inl LoneBackslash"
| "escape (Some e) =
     (if e = CHR ''d'' then Inr digits
      else if e = CHR ''w'' then Inr word_set
      else if escapable e then Inr (bit_of e)
      else Inl (NotAlike e))"

text \<open>
  A class after its \<open>[\<close>: the set so far, the character a range may start from, whether this is
  the first character. One turn of the loop ends it or goes on.
\<close>

datatype class_turn = ClassDone charset string | ClassMore charset "char option" string

definition class_range :: "charset \<Rightarrow> char \<Rightarrow> string \<Rightarrow> pattern_error + class_turn" where
  "class_range cs lo s =
     bind_res
       (case s of
          [] \<Rightarrow> Inl ClassOpen
        | h # s1 \<Rightarrow>
            if h = backslash then
              (case s1 of
                 [] \<Rightarrow> Inl RangeEnd
               | p # s2 \<Rightarrow> if escapable p then Inr (p, s2) else Inl RangeEnd)
            else if h = CHR ''['' then Inl NestedClass
            else Inr (h, s1))
       (\<lambda>(hi, r). if lo > hi then Inl (RangeBackwards lo hi)
                  else Inr (ClassMore (cs OR span lo hi) None r))"

definition class_escape :: "charset \<Rightarrow> string \<Rightarrow> pattern_error + class_turn" where
  "class_escape cs s =
     (case s of
        [] \<Rightarrow> bind_res (escape None) (\<lambda>_. Inr (ClassDone cs s))
      | e # r \<Rightarrow>
          if e = CHR ''d'' then Inr (ClassMore (cs OR digits) None r)
          else if e = CHR ''w'' then Inr (ClassMore (cs OR word_set) None r)
          else if escapable e then Inr (ClassMore (cs OR bit_of e) (Some e) r)
          else bind_res (escape (Some e)) (\<lambda>_. Inr (ClassDone cs r)))"

definition doubled :: "char \<Rightarrow> string \<Rightarrow> bool" where
  "doubled c s \<longleftrightarrow> c \<in> set ''&~-'' \<and> s \<noteq> [] \<and> hd s = c"

definition class_turn ::
  "charset \<Rightarrow> char option \<Rightarrow> bool \<Rightarrow> char \<Rightarrow> string \<Rightarrow> pattern_error + class_turn" where
  "class_turn cs from first c s =
     (if c = CHR '']'' then (if first then Inl EmptyClass else Inr (ClassDone cs s))
      else if c = CHR ''^'' \<and> first then Inl NegatedClass
      else if c = CHR ''['' then Inl NestedClass
      else if doubled c s then Inl (SetOperation c)
      else if c = CHR ''-'' \<and> from \<noteq> None \<and> s \<noteq> [] \<and> hd s \<noteq> CHR '']''
      then class_range cs (the from) s
      else if c = backslash then class_escape cs s
      else Inr (ClassMore (cs OR bit_of c) (Some c) s))"

lemma class_range_rest: "class_range cs lo s = Inr (ClassMore cs' f r) \<Longrightarrow> length r < length s"
  by (auto simp: class_range_def bind_res_Inr split: list.splits if_splits)

lemma class_escape_rest: "class_escape cs s = Inr (ClassMore cs' f r) \<Longrightarrow> length r < length s"
  by (auto simp: class_escape_def bind_res_Inr split: list.splits if_splits)

lemma class_turn_rest: "class_turn cs from first c s = Inr (ClassMore cs' f r) \<Longrightarrow> length r \<le> length s"
  unfolding class_turn_def
  by (auto dest: class_range_rest class_escape_rest split: if_splits)

function class_loop ::
  "charset \<Rightarrow> char option \<Rightarrow> bool \<Rightarrow> string \<Rightarrow> pattern_error + (charset \<times> string)" where
  "class_loop cs from first s =
     (case s of
        [] \<Rightarrow> Inl ClassOpen
      | c # s1 \<Rightarrow>
          (case class_turn cs from first c s1 of
             Inl e \<Rightarrow> Inl e
           | Inr (ClassDone out r) \<Rightarrow> Inr (out, r)
           | Inr (ClassMore cs' from' r) \<Rightarrow> class_loop cs' from' False r))"
  by pat_completeness auto

termination
  by (relation "measure (\<lambda>(cs, from, first, s). length s)") (auto dest!: class_turn_rest)

declare class_loop.simps [simp del]

definition class_set :: "string \<Rightarrow> pattern_error + (charset \<times> string)" where
  "class_set s = class_loop 0 None True s"

definition repeat_number :: "string \<Rightarrow> string \<Rightarrow> pattern_error + nat" where
  "repeat_number inside s =
     (case parse_uint u32_max s of
        None \<Rightarrow> Inl (NotARepeat inside)
      | Some n \<Rightarrow> if n > MAX_REPEAT then Inl RepeatTooBig else Inr n)"

definition repeat_bounds :: "string \<Rightarrow> pattern_error + (nat \<times> nat option)" where
  "repeat_bounds inside =
     (case split_once CHR '','' inside of
        None \<Rightarrow> bind_res (repeat_number inside inside) (\<lambda>n. Inr (n, Some n))
      | Some (n, m) \<Rightarrow>
          if m = [] then bind_res (repeat_number inside n) (\<lambda>n. Inr (n, None))
          else
            bind_res (repeat_number inside n) (\<lambda>n.
            bind_res (repeat_number inside m) (\<lambda>m. Inr (n, Some m))))"

definition starts_quantifier :: "string \<Rightarrow> bool" where
  "starts_quantifier s \<longleftrightarrow>
     (case s of
        [] \<Rightarrow> False
      | c # _ \<Rightarrow> c = CHR ''*'' \<or> c = CHR ''+'' \<or> c = CHR ''?'' \<or> c = CHR ''{'')"

definition one_quantifier ::
  "nat \<times> nat option \<Rightarrow> string \<Rightarrow> pattern_error + ((nat \<times> nat option) \<times> string)" where
  "one_quantifier q s = (if starts_quantifier s then Inl Stacked else Inr (q, s))"

definition braced ::
  "string \<Rightarrow> pattern_error + ((nat \<times> nat option) \<times> string)" where
  "braced s =
     (case split_once CHR ''}'' s of
        None \<Rightarrow> Inl BraceOpen
      | Some (inside, rest) \<Rightarrow>
          bind_res (repeat_bounds inside) (\<lambda>q.
          if (case snd q of Some m \<Rightarrow> m < fst q | None \<Rightarrow> False) then Inl (RepeatBackwards inside)
          else if q = (0, Some 0) then Inl MatchesNothing
          else one_quantifier q rest))"

definition quantifier :: "string \<Rightarrow> pattern_error + ((nat \<times> nat option) \<times> string)" where
  "quantifier s =
     (case s of
        [] \<Rightarrow> Inr ((1, Some 1), s)
      | c # r \<Rightarrow>
          if c = CHR ''*'' then one_quantifier (0, None) r
          else if c = CHR ''+'' then one_quantifier (1, None) r
          else if c = CHR ''?'' then one_quantifier (0, Some 1) r
          else if c = CHR ''{'' then braced r
          else Inr ((1, Some 1), s))"

text \<open>One step of the outer loop: the set the text starts with.\<close>

definition run_set :: "char \<Rightarrow> string \<Rightarrow> pattern_error + (charset \<times> string)" where
  "run_set c s =
     (if c = backslash then
        (case s of
           [] \<Rightarrow> bind_res (escape None) (\<lambda>cs. Inr (cs, s))
         | e # r \<Rightarrow> bind_res (escape (Some e)) (\<lambda>cs. Inr (cs, r)))
      else if c = CHR ''['' then class_set s
      else if c = CHR ''('' \<or> c = CHR '')'' then Inl Group
      else if c = CHR ''|'' then Inl Alternation
      else if c = CHR ''.'' then Inl AnyCharacter
      else if c = CHR ''^'' \<or> c = CHR ''$'' then Inl (InnerAnchor c)
      else if c = CHR ''*'' \<or> c = CHR ''+'' \<or> c = CHR ''?'' \<or> c = CHR ''{''
      then Inl (NothingToRepeat c)
      else if c = CHR '']'' \<or> c = CHR ''}'' then Inl (Unescaped c)
      else Inr (bit_of c, s))"

lemma class_done_rest: "class_turn cs from first c s = Inr (ClassDone out r) \<Longrightarrow> length r \<le> length s"
  unfolding class_turn_def
  by (auto simp: class_range_def class_escape_def bind_res_Inr split: if_splits list.splits)

lemma class_loop_Cons:
  "class_loop cs from first (c # s) =
     (case class_turn cs from first c s of
        Inl e \<Rightarrow> Inl e
      | Inr (ClassDone out r) \<Rightarrow> Inr (out, r)
      | Inr (ClassMore cs' from' r) \<Rightarrow> class_loop cs' from' False r)"
  by (subst class_loop.simps) simp

lemma class_loop_Nil [simp]: "class_loop cs from first [] = Inl ClassOpen"
  by (subst class_loop.simps) simp

lemma class_loop_rest: "class_loop cs from first s = Inr (out, r) \<Longrightarrow> length r < length s"
proof (induction s arbitrary: cs "from" first rule: length_induct)
  case (1 s)
  then obtain c s1 where s: "s = c # s1" by (cases s) auto
  show ?case
  proof (cases "class_turn cs from first c s1")
    case (Inl e)
    with 1 s show ?thesis by (simp add: class_loop_Cons)
  next
    case (Inr turn)
    show ?thesis
    proof (cases turn)
      case (ClassDone out' r')
      with Inr 1 s class_done_rest [of cs "from" first c s1 out' r'] show ?thesis
        by (simp add: class_loop_Cons)
    next
      case (ClassMore cs' from' r')
      with Inr 1(2) s have rest: "class_loop cs' from' False r' = Inr (out, r)"
        by (simp add: class_loop_Cons)
      have "length r' < length s"
        using class_turn_rest [of cs "from" first c s1 cs' from' r'] Inr ClassMore s by simp
      with 1(1) rest have "length r < length r'" by blast
      with \<open>length r' < length s\<close> show ?thesis by simp
    qed
  qed
qed

lemma one_quantifier_rest: "one_quantifier q s = Inr (q', r) \<longleftrightarrow> q' = q \<and> r = s \<and> \<not> starts_quantifier s"
  by (auto simp: one_quantifier_def)

lemma braced_rest:
  assumes "braced s = Inr (q, r)"
  shows "length r < length s"
proof -
  obtain inside rest where s: "split_once CHR ''}'' s = Some (inside, rest)"
    using assms by (auto simp: braced_def split: option.splits)
  have "r = rest"
    using assms unfolding braced_def s option.case prod.case bind_res_Inr
    by (auto simp: one_quantifier_rest split: if_splits)
  with s show ?thesis by (auto simp: split_once_Some)
qed

lemma quantifier_rest: "quantifier s = Inr (q, r) \<Longrightarrow> length r \<le> length s"
  using braced_rest [of "tl s" q r]
  by (cases s) (auto simp: quantifier_def one_quantifier_rest split: if_splits)

lemma run_set_rest: "run_set c s = Inr (cs, r) \<Longrightarrow> length r \<le> length s"
  unfolding run_set_def class_set_def
  by (auto simp: bind_res_Inr dest!: class_loop_rest split: list.splits if_splits)

function parse_runs :: "string \<Rightarrow> pattern_error + run list" where
  "parse_runs s =
     (case s of
        [] \<Rightarrow> Inr []
      | c # s1 \<Rightarrow>
          (case run_set c s1 of
             Inl e \<Rightarrow> Inl e
           | Inr (cs, s2) \<Rightarrow>
               (case quantifier s2 of
                  Inl e \<Rightarrow> Inl e
                | Inr (q, s3) \<Rightarrow>
                    bind_res (parse_runs s3) (\<lambda>rs.
                      Inr (\<lparr>r_set = cs, r_min = fst q, r_max = snd q\<rparr> # rs)))))"
  by pat_completeness auto

termination
  by (relation "measure length") (auto dest!: run_set_rest quantifier_rest)

declare parse_runs.simps [simp del]

lemma parse_runs_Nil [simp]: "parse_runs [] = Inr []"
  by (subst parse_runs.simps) simp

text \<open>Two repeats of varying length must be fenced.\<close>

definition fixed :: "run \<Rightarrow> bool" where
  "fixed r \<longleftrightarrow> r_max r = Some (r_min r)"

definition fences :: "run \<Rightarrow> run \<Rightarrow> bool" where
  "fences r q \<longleftrightarrow> 1 \<le> r_min q \<and> r_set q AND r_set r = 0"

fun fenced :: "run list \<Rightarrow> bool" where
  "fenced [] \<longleftrightarrow> True"
| "fenced (r # rs) \<longleftrightarrow>
     (fixed r \<or> dropWhile fixed rs = [] \<or> list_ex (fences r) (takeWhile fixed rs))
     \<and> fenced rs"

section \<open>Writing it back\<close>

definition count_ones :: "charset \<Rightarrow> nat" where
  "count_ones cs = length (filter (bit cs) [0..<128])"

definition trailing_zeros :: "charset \<Rightarrow> nat" where
  "trailing_zeros cs = (case find (bit cs) [0..<128] of Some n \<Rightarrow> n | None \<Rightarrow> 128)"

definition syntax_chars :: string where
  "syntax_chars = backslash # ''.+*?()|[]{}^$-&~#''"

definition spell_one :: "char \<Rightarrow> string" where
  "spell_one c = (if c \<in> set syntax_chars then [backslash, c] else [c])"

definition holds :: "charset \<Rightarrow> nat \<Rightarrow> bool" where
  "holds cs c \<longleftrightarrow> cs AND push_bit c 1 \<noteq> 0"

function span_end :: "charset \<Rightarrow> nat \<Rightarrow> nat" where
  "span_end cs c = (if c < 126 \<and> holds cs (c + 1) then span_end cs (c + 1) else c)"
  by pat_completeness auto

termination by (relation "measure (\<lambda>(cs, c). 126 - c)") auto

declare span_end.simps [simp del]

lemma span_end_ge: "c \<le> span_end cs c"
proof (induction cs c rule: span_end.induct)
  case (1 cs c)
  then show ?case by (subst span_end.simps) auto
qed

definition spell_span :: "nat \<Rightarrow> nat \<Rightarrow> string" where
  "spell_span lo hi =
     (if hi - lo = 0 then spell_one (char_of lo)
      else if hi - lo = 1 then spell_one (char_of lo) @ spell_one (char_of hi)
      else spell_one (char_of lo) @ ''-'' @ spell_one (char_of hi))"

function spell_spans :: "charset \<Rightarrow> nat \<Rightarrow> string" where
  "spell_spans cs c =
     (if c > 126 then []
      else if \<not> holds cs c then spell_spans cs (c + 1)
      else spell_span c (span_end cs c) @ spell_spans cs (span_end cs c + 1))"
  by pat_completeness auto

termination
proof (relation "measure (\<lambda>(cs, c). 127 - c)", goal_cases)
  case (3 cs c)
  then show ?case using span_end_ge [of c cs] by auto
qed auto

declare spell_spans.simps [simp del]

definition spell :: "charset \<Rightarrow> string" where
  "spell cs =
     (if count_ones cs = 1 then spell_one (char_of (trailing_zeros cs))
      else ''['' @ spell_spans cs 32 @ '']'')"

definition spell_quantifier :: "nat \<Rightarrow> nat option \<Rightarrow> string" where
  "spell_quantifier n m =
     (if (n, m) = (1, Some 1) then []
      else if (n, m) = (0, None) then ''*''
      else if (n, m) = (1, None) then ''+''
      else if (n, m) = (0, Some 1) then ''?''
      else
        (case m of
           None \<Rightarrow> ''{'' @ show_nat n @ '',}''
         | Some m' \<Rightarrow>
             if n = m' then ''{'' @ show_nat n @ ''}''
             else ''{'' @ show_nat n @ '','' @ show_nat m' @ ''}''))"

definition spell_run :: "run \<Rightarrow> string" where
  "spell_run r = spell (r_set r) @ spell_quantifier (r_min r) (r_max r)"

definition kept :: "run list \<Rightarrow> string" where
  "kept rs = ''^'' @ concat (map spell_run rs) @ ''$''"

section \<open>The pattern\<close>

definition strip_suffix :: "'a list \<Rightarrow> 'a list \<Rightarrow> 'a list option" where
  "strip_suffix p s = (if suffix p s then Some (take (length s - length p) s) else None)"

definition trailing_backslashes :: "string \<Rightarrow> nat" where
  "trailing_backslashes s = length (takeWhile ((=) backslash) (rev s))"

definition pattern_body :: "string \<Rightarrow> pattern_error + string" where
  "pattern_body p =
     bind_res (ok_or (strip_prefix ''^'' p) NotAnchored) (\<lambda>body.
     bind_res (ok_or (strip_suffix ''$'' body) NotAnchored) (\<lambda>body.
       if trailing_backslashes body mod 2 = 1 then Inl NotAnchored else Inr body))"

definition pattern_runs :: "string \<Rightarrow> pattern_error + run list" where
  "pattern_runs p =
     (if length p > MAX_ID_PATTERN then Inl TooLong
      else if \<not> list_all printable p then Inl NotPrintable
      else
        bind_res (pattern_body p) (\<lambda>body.
        bind_res (parse_runs body) (\<lambda>rs.
          if fenced rs then Inr rs else Inl NotFenced)))"

definition param_pattern :: "string \<Rightarrow> pattern_error + string" where
  "param_pattern p = bind_res (pattern_runs p) (\<lambda>rs. Inr (kept rs))"

section \<open>A spelled set reads back\<close>

lemma bit_bit_of: "bit (bit_of c) n \<longleftrightarrow> n = byte c \<and> n < 128"
  by (auto simp: bit_of_def bit_simps)

lemma holds_bit: "holds cs c \<longleftrightarrow> bit cs c"
  by (simp add: holds_def bit_iff_and_push_bit_not_eq_0)

lemma bit_set_all:
  "bit (foldl (\<lambda>s c. s OR push_bit c 1) (a :: charset) xs) n \<longleftrightarrow> bit a n \<or> (n \<in> set xs \<and> n < 128)"
  by (induction xs arbitrary: a) (auto simp: bit_simps)

lemma bit_span: "bit (span lo hi) n \<longleftrightarrow> byte lo \<le> n \<and> n \<le> byte hi \<and> n < 128"
  unfolding span_def bit_set_all by auto

lemma byte_char_of: "n < 256 \<Longrightarrow> byte (char_of n) = n"
  by (simp add: byte_def)

lemma less_byte: "c < d \<longleftrightarrow> byte c < byte d"
  by (simp add: byte_def less_char_def)

lemmas charset_bits = bit_bit_of bit_span holds_bit bit_or_iff

lemma syntax_char:
  assumes "c \<in> set syntax_chars"
  shows "escapable c" "c \<noteq> CHR ''d''" "c \<noteq> CHR ''w''"
proof -
  have "list_all (\<lambda>c. escapable c \<and> c \<noteq> CHR ''d'' \<and> c \<noteq> CHR ''w'') syntax_chars"
    by (simp add: syntax_chars_def escapable_def is_ascii_punctuation_def char_class_defs)
  with assms show "escapable c" "c \<noteq> CHR ''d''" "c \<noteq> CHR ''w''" by (auto simp: list_all_iff)
qed

lemma class_one:
  "class_loop cs from first (spell_one c @ t) = class_loop (cs OR bit_of c) (Some c) False t"
proof (cases "c \<in> set syntax_chars")
  case True
  with syntax_char [OF this] show ?thesis
    by (simp add: spell_one_def class_loop_Cons class_turn_def class_escape_def doubled_def)
next
  case False
  then show ?thesis
    by (simp add: spell_one_def class_loop_Cons class_turn_def doubled_def syntax_chars_def)
qed

lemma spell_one_not_Nil [simp]: "spell_one c \<noteq> []"
  by (simp add: spell_one_def)

lemma spell_one_hd:
  "hd (spell_one c @ t) \<noteq> CHR '']''" "hd (spell_one c @ t) \<noteq> CHR ''-''"
  by (auto simp: spell_one_def syntax_chars_def)

lemma class_range_one:
  "class_range cs lo (spell_one c @ t) =
     (if lo > c then Inl (RangeBackwards lo c) else Inr (ClassMore (cs OR span lo c) None t))"
proof (cases "c \<in> set syntax_chars")
  case True
  with syntax_char [OF this] show ?thesis by (simp add: spell_one_def class_range_def)
next
  case False
  then show ?thesis by (simp add: spell_one_def class_range_def syntax_chars_def)
qed

lemma class_dash:
  assumes "\<not> lo > hi"
  shows "class_loop cs (Some lo) False (CHR ''-'' # spell_one hi @ t) =
    class_loop (cs OR span lo hi) None False t"
  using assms spell_one_hd [of hi t]
  by (simp add: class_loop_Cons class_turn_def doubled_def class_range_one)

lemma class_span:
  assumes "lo \<le> hi" "hi \<le> 126"
  shows "\<exists>cs' from'. class_loop cs from first (spell_span lo hi @ t) = class_loop cs' from' False t
    \<and> (\<forall>n. bit cs' n \<longleftrightarrow> bit cs n \<or> lo \<le> n \<and> n \<le> hi)"
proof -
  have bytes: "byte (char_of lo) = lo" "byte (char_of hi) = hi"
    using assms by (simp_all add: byte_char_of)
  consider "hi = lo" | "hi = Suc lo" | "hi - lo \<noteq> 0" "hi - lo \<noteq> 1" using assms by linarith
  then show ?thesis
  proof cases
    case 1
    with assms show ?thesis
      by (intro exI [of _ "cs OR bit_of (char_of lo)"] exI [of _ "Some (char_of lo)"])
        (auto simp: spell_span_def class_one charset_bits bytes)
  next
    case 2
    with assms bytes show ?thesis
      by (intro exI [of _ "(cs OR bit_of (char_of lo)) OR bit_of (char_of hi)"]
          exI [of _ "Some (char_of hi)"])
        (auto simp: spell_span_def class_one charset_bits)
  next
    case 3
    have "\<not> (char_of lo :: char) > char_of hi" using assms bytes by (simp add: less_byte)
    with 3 assms bytes show ?thesis
      by (intro exI [of _ "(cs OR bit_of (char_of lo)) OR span (char_of lo) (char_of hi)"] exI [of _ None])
        (auto simp: spell_span_def class_one class_dash charset_bits)
  qed
qed

lemma span_end_spec:
  "c \<le> 126 \<Longrightarrow> holds cs c \<Longrightarrow>
     span_end cs c \<le> 126 \<and> (\<forall>n. c \<le> n \<and> n \<le> span_end cs c \<longrightarrow> bit cs n)"
proof (induction cs c rule: span_end.induct)
  case (1 cs c)
  show ?case
  proof (cases "c < 126 \<and> holds cs (c + 1)")
    case True
    then have "span_end cs c = span_end cs (c + 1)" by (subst span_end.simps) simp
    with 1 True show ?thesis by (auto simp: holds_bit) (metis Suc_leI le_neq_implies_less)
  next
    case False
    then have "span_end cs c = c" by (subst span_end.simps) auto
    with 1 show ?thesis by (auto simp: holds_bit le_antisym)
  qed
qed

lemma class_spans:
  "\<exists>cs' from'. class_loop out from first (spell_spans cs c @ t) =
       class_loop cs' from' (first \<and> (\<forall>n. c \<le> n \<and> n \<le> 126 \<longrightarrow> \<not> bit cs n)) t
    \<and> (\<forall>n. bit cs' n \<longleftrightarrow> bit out n \<or> c \<le> n \<and> n \<le> 126 \<and> bit cs n)"
proof (induction cs c arbitrary: out "from" first rule: spell_spans.induct)
  case (1 cs c)
  consider "c > 126" | "c \<le> 126" "\<not> holds cs c" | "c \<le> 126" "holds cs c" by linarith
  then show ?case
  proof cases
    case 1
    then have "spell_spans cs c = []" by (subst spell_spans.simps) simp
    moreover have "(\<forall>n. c \<le> n \<and> n \<le> 126 \<longrightarrow> \<not> bit cs n) = True" using 1 by auto
    ultimately show ?thesis using 1 by (auto intro!: exI [of _ out] exI [of _ "from"])
  next
    case 2
    have same: "(c \<le> n \<and> n \<le> 126 \<and> bit cs n) \<longleftrightarrow> (c + 1 \<le> n \<and> n \<le> 126 \<and> bit cs n)" for n
      using 2 by (auto simp: holds_bit) (metis Suc_leI le_neq_implies_less)
    then have none: "(\<forall>n. c \<le> n \<and> n \<le> 126 \<longrightarrow> \<not> bit cs n) \<longleftrightarrow>
        (\<forall>n. c + 1 \<le> n \<and> n \<le> 126 \<longrightarrow> \<not> bit cs n)" by blast
    from 2 have "spell_spans cs c = spell_spans cs (c + 1)" by (subst spell_spans.simps) simp
    with "1.IH"(1) [of out "from" first] 2 show ?thesis by (simp only: same none) simp
  next
    case 3
    let ?e = "span_end cs c"
    note e = span_end_spec [OF 3] span_end_ge [of c cs]
    obtain cs1 from1 where first: "class_loop out from first (spell_span c ?e @ spell_spans cs (?e + 1) @ t) =
        class_loop cs1 from1 False (spell_spans cs (?e + 1) @ t)"
      and cs1: "\<And>n. bit cs1 n \<longleftrightarrow> bit out n \<or> c \<le> n \<and> n \<le> ?e"
      using class_span [of c ?e out "from" first] e by blast
    obtain cs2 from2 where rest: "class_loop cs1 from1 False (spell_spans cs (?e + 1) @ t) =
        class_loop cs2 from2 False t"
      and cs2: "\<And>n. bit cs2 n \<longleftrightarrow> bit cs1 n \<or> ?e + 1 \<le> n \<and> n \<le> 126 \<and> bit cs n"
      using "1.IH"(2) [of cs1 from1 False] 3 by auto
    have "spell_spans cs c = spell_span c ?e @ spell_spans cs (?e + 1)"
      using 3 by (subst spell_spans.simps) simp
    then have printed: "spell_spans cs c @ t = spell_span c ?e @ spell_spans cs (?e + 1) @ t" by simp
    have flag: "(first \<and> (\<forall>n. c \<le> n \<and> n \<le> 126 \<longrightarrow> \<not> bit cs n)) = False"
      using 3 by (auto simp: holds_bit)
    show ?thesis
      unfolding printed flag first rest using e
      by (intro exI [of _ cs2] exI [of _ from2]) (auto simp: cs1 cs2)
  qed
qed

definition set_ok :: "charset \<Rightarrow> bool" where
  "set_ok cs \<longleftrightarrow> cs \<noteq> 0 \<and> (\<forall>n. bit cs n \<longrightarrow> 32 \<le> n \<and> n \<le> 126)"

definition quantifier_ok :: "nat \<Rightarrow> nat option \<Rightarrow> bool" where
  "quantifier_ok n m \<longleftrightarrow>
     n \<le> MAX_REPEAT \<and> (case m of None \<Rightarrow> True | Some m' \<Rightarrow> n \<le> m' \<and> m' \<le> MAX_REPEAT \<and> 0 < m')"

definition run_ok :: "run \<Rightarrow> bool" where
  "run_ok r \<longleftrightarrow> set_ok (r_set r) \<and> quantifier_ok (r_min r) (r_max r)"

lemma find_hd_filter:
  "find P xs = (if filter P xs = [] then None else Some (hd (filter P xs)))"
  by (induction xs) auto

lemma one_char_set:
  assumes "count_ones cs = 1"
  shows "cs = push_bit (trailing_zeros cs) 1" "trailing_zeros cs < 128"
proof -
  obtain n where n: "filter (bit cs) [0..<128] = [n]"
    using assms by (auto simp: count_ones_def length_Suc_conv)
  then have tz: "trailing_zeros cs = n" by (simp add: trailing_zeros_def find_hd_filter)
  have set: "{m. m < 128 \<and> bit cs m} = {n}" using arg_cong [OF n, of set] by (auto simp: set_eq_iff)
  show "trailing_zeros cs < 128" using set tz by auto
  show "cs = push_bit (trailing_zeros cs) 1"
    using set by (intro bit_word_eqI) (auto simp: bit_simps tz set_eq_iff)
qed

lemma run_set_one:
  assumes "printable c"
  shows "\<exists>d s. spell_one c @ t = d # s \<and> run_set d s = Inr (bit_of c, t)"
proof (cases "c \<in> set syntax_chars")
  case True
  with syntax_char [OF this] show ?thesis by (simp add: spell_one_def run_set_def)
next
  case False
  then show ?thesis by (simp add: spell_one_def run_set_def syntax_chars_def)
qed

lemma run_set_spell:
  assumes "set_ok cs"
  shows "\<exists>d s. spell cs @ t = d # s \<and> run_set d s = Inr (cs, t)"
proof (cases "count_ones cs = 1")
  case True
  let ?n = "trailing_zeros cs"
  note one = one_char_set [OF True]
  have "bit cs ?n" by (subst one(1)) (simp add: bit_simps one(2))
  then have n: "32 \<le> ?n" "?n \<le> 126" using assms by (auto simp: set_ok_def)
  then have "printable (char_of ?n)" "bit_of (char_of ?n) = cs"
    using one(1) by (simp_all add: printable_def byte_char_of bit_of_def)
  with run_set_one [of "char_of ?n" t] True show ?thesis by (simp add: spell_def)
next
  case False
  have some: "\<not> (\<forall>n. 32 \<le> n \<and> n \<le> 126 \<longrightarrow> \<not> bit cs n)"
    using assms by (auto simp: set_ok_def bit_eq_iff)
  from class_spans [of 0 None True cs 32 "CHR '']'' # t"] obtain out f where
    loop: "class_loop 0 None True (spell_spans cs 32 @ CHR '']'' # t) = class_loop out f False (CHR '']'' # t)"
    and out: "\<And>n. bit out n \<longleftrightarrow> 32 \<le> n \<and> n \<le> 126 \<and> bit cs n"
    using some by auto
  have "out = cs" by (rule bit_word_eqI) (use assms in \<open>auto simp: out set_ok_def\<close>)
  then have "class_set (spell_spans cs 32 @ CHR '']'' # t) = Inr (cs, t)"
    unfolding class_set_def loop by (simp add: class_loop_Cons class_turn_def)
  with False show ?thesis by (simp add: spell_def run_set_def)
qed

lemma number_reads_back:
  "n \<le> MAX_REPEAT \<Longrightarrow> repeat_number inside (show_nat n) = Inr n"
  by (simp add: repeat_number_def parse_show_nat MAX_REPEAT_def u32_max_def)

lemma show_nat_no_syntax [simp]: "CHR ''}'' \<notin> set (show_nat n)" "CHR '','' \<notin> set (show_nat n)"
  by (rule show_nat_no; simp add: is_ascii_digit_def byte_def)+

lemma braced_reads_back:
  assumes "quantifier_ok n m" "\<not> starts_quantifier t"
    and "inside = show_nat n @ (case m of None \<Rightarrow> '','' | Some m' \<Rightarrow> if n = m' then [] else '','' @ show_nat m')"
  shows "braced (inside @ CHR ''}'' # t) = Inr ((n, m), t)"
proof -
  have no: "CHR ''}'' \<notin> set inside" using assms(3) by (auto split: option.splits if_splits)
  have none: "split_once CHR '','' (show_nat n) = None" by (simp add: split_once_None)
  have "repeat_bounds inside = Inr (n, m)"
    using assms(1,3)
    by (auto simp: repeat_bounds_def quantifier_ok_def number_reads_back none
        split: option.splits if_splits)
  with no assms(1,2) show ?thesis
    by (auto simp: braced_def quantifier_ok_def one_quantifier_def split: option.splits)
qed

lemma quantifier_reads_back:
  assumes "quantifier_ok n m" "\<not> starts_quantifier t"
  shows "quantifier (spell_quantifier n m @ t) = Inr ((n, m), t)"
proof -
  consider "(n, m) = (1, Some 1)" | "(n, m) = (0, None)" | "(n, m) = (1, None)" | "(n, m) = (0, Some 1)"
    | "(n, m) \<notin> {(1, Some 1), (0, None), (1, None), (0, Some 1)}" by blast
  then show ?thesis
  proof cases
    case 1
    with assms show ?thesis
      by (cases t) (auto simp: spell_quantifier_def quantifier_def starts_quantifier_def)
  next
    case 5
    let ?in = "show_nat n @ (case m of None \<Rightarrow> '','' | Some m' \<Rightarrow> if n = m' then [] else '','' @ show_nat m')"
    have "spell_quantifier n m @ t = CHR ''{'' # ?in @ CHR ''}'' # t"
      using 5 by (auto simp: spell_quantifier_def split: option.splits)
    with braced_reads_back [OF assms refl] show ?thesis by (simp add: quantifier_def)
  qed (use assms in \<open>simp_all add: spell_quantifier_def quantifier_def one_quantifier_def\<close>)
qed

lemma spell_start:
  "spell cs \<noteq> []" "\<not> starts_quantifier (spell cs @ t)"
  by (auto simp: spell_def spell_one_def starts_quantifier_def syntax_chars_def)

lemma runs_start: "\<not> starts_quantifier (concat (map spell_run rs))"
  by (cases rs) (simp_all add: starts_quantifier_def [of "[]"] spell_run_def spell_start(2))

lemma kept_runs_read_back:
  "list_all run_ok rs \<Longrightarrow> parse_runs (concat (map spell_run rs)) = Inr rs"
proof (induction rs)
  case (Cons r rs)
  let ?t = "concat (map spell_run rs)"
  have ok: "set_ok (r_set r)" "quantifier_ok (r_min r) (r_max r)"
    using Cons.prems by (simp_all add: run_ok_def)
  from run_set_spell [OF ok(1), of "spell_quantifier (r_min r) (r_max r) @ ?t"] obtain d s where
    "spell (r_set r) @ spell_quantifier (r_min r) (r_max r) @ ?t = d # s"
    "run_set d s = Inr (r_set r, spell_quantifier (r_min r) (r_max r) @ ?t)" by blast
  moreover from this have "concat (map spell_run (r # rs)) = d # s" by (simp add: spell_run_def [of r])
  moreover note quantifier_reads_back [OF ok(2) runs_start [of rs]]
  ultimately show ?case
    using Cons by (subst parse_runs.simps) simp
qed simp

section \<open>What is read is well formed\<close>

lemma set_ok_alt: "set_ok cs \<longleftrightarrow> (\<exists>n. bit cs n) \<and> (\<forall>n. bit cs n \<longrightarrow> 32 \<le> n \<and> n \<le> 126)"
  unfolding set_ok_def using bit_eq_iff [of cs 0] by auto

lemma set_ok_bit_of: "printable c \<Longrightarrow> set_ok (bit_of c)"
  by (auto simp: set_ok_alt bit_bit_of printable_def)

lemma set_ok_or: "set_ok a \<Longrightarrow> set_ok b \<Longrightarrow> set_ok (a OR b)"
  by (auto simp: set_ok_alt bit_or_iff)

lemma set_ok_span: "printable a \<Longrightarrow> printable b \<Longrightarrow> \<not> a > b \<Longrightarrow> set_ok (span a b)"
  by (auto simp: set_ok_alt bit_span printable_def less_byte intro!: exI [of _ "byte a"])

lemma set_ok_classes: "set_ok digits" "set_ok word_set"
  by (simp_all add: digits_def word_set_def set_ok_or set_ok_span set_ok_bit_of printable_def
      byte_def less_char_def)

lemma escapable_printable: "escapable c \<Longrightarrow> printable c"
  by (auto simp: escapable_def is_ascii_punctuation_def printable_def is_ascii_graphic_def)

lemma escape_ok: "escape e = Inr cs \<Longrightarrow> set_ok cs"
  by (cases e) (auto simp: set_ok_classes set_ok_bit_of escapable_printable split: if_splits)

definition more_ok :: "charset \<Rightarrow> bool \<Rightarrow> bool" where
  "more_ok cs first \<longleftrightarrow> set_ok cs \<or> (first \<and> cs = 0)"

lemma more_ok_or: "more_ok cs first \<Longrightarrow> set_ok b \<Longrightarrow> set_ok (cs OR b)"
  by (auto simp: more_ok_def set_ok_or)

lemma class_range_ok:
  assumes "class_range cs lo s = Inr turn" "more_ok cs first" "printable lo" "list_all printable s"
  shows "\<exists>cs' r. turn = ClassMore cs' None r \<and> set_ok cs' \<and> suffix r s"
  using assms
  by (auto simp: class_range_def bind_res_Inr more_ok_or set_ok_span suffix_ConsI
      split: list.splits if_splits)

lemma class_escape_ok:
  assumes "class_escape cs s = Inr turn" "more_ok cs first" "list_all printable s"
  shows "\<exists>cs' f r. turn = ClassMore cs' f r \<and> set_ok cs' \<and> pred_option printable f \<and> suffix r s"
  using assms
  by (auto simp: class_escape_def bind_res_Inr more_ok_or set_ok_classes set_ok_bit_of suffix_ConsI
      split: list.splits if_splits)

lemma class_turn_cases:
  "class_turn cs from first c s = Inr turn \<Longrightarrow>
     (c = CHR '']'' \<and> \<not> first \<and> turn = ClassDone cs s)
     \<or> (from \<noteq> None \<and> class_range cs (the from) s = Inr turn) \<or> class_escape cs s = Inr turn
     \<or> turn = ClassMore (cs OR bit_of c) (Some c) s"
  unfolding class_turn_def
  by ((split if_split_asm, simp split: if_split_asm)+) simp

lemma class_turn_ok:
  assumes "class_turn cs from first c s = Inr turn" "more_ok cs first" "pred_option printable from"
    and "printable c" "list_all printable s"
  shows "(\<exists>cs' f r. turn = ClassMore cs' f r \<and> set_ok cs' \<and> pred_option printable f \<and> suffix r s)
    \<or> turn = ClassDone cs s \<and> set_ok cs"
proof -
  consider "\<not> first" "turn = ClassDone cs s"
    | "from \<noteq> None" "class_range cs (the from) s = Inr turn"
    | "class_escape cs s = Inr turn"
    | "turn = ClassMore (cs OR bit_of c) (Some c) s"
    using class_turn_cases [OF assms(1)] by blast
  then show ?thesis
  proof cases
    case 1
    with assms(2) show ?thesis by (simp add: more_ok_def)
  next
    case 2
    then have "printable (the from)" using assms(3) by auto
    from class_range_ok [OF 2(2) assms(2) this assms(5)] show ?thesis by auto
  next
    case 3
    from class_escape_ok [OF this assms(2,5)] show ?thesis by auto
  next
    case 4
    with assms(2,4) show ?thesis by (simp add: more_ok_or set_ok_bit_of)
  qed
qed

lemma suffix_all: "suffix r s \<Longrightarrow> list_all P s \<Longrightarrow> list_all P r"
  by (auto simp: suffix_def)

lemma class_loop_ok:
  "class_loop cs from first s = Inr (out, r) \<Longrightarrow> more_ok cs first \<Longrightarrow> pred_option printable from \<Longrightarrow>
     list_all printable s \<Longrightarrow> set_ok out \<and> suffix r s"
proof (induction s arbitrary: cs "from" first rule: length_induct)
  case (1 s)
  from 1(2) obtain c s1 where s: "s = c # s1" by (cases s) auto
  from 1(2) s obtain turn where turn: "class_turn cs from first c s1 = Inr turn"
    by (cases "class_turn cs from first c s1") (auto simp: class_loop_Cons)
  have "printable c" "list_all printable s1" using 1(5) s by simp_all
  from class_turn_ok [OF turn 1(3,4) this] show ?case
  proof (elim disjE exE conjE)
    fix cs' f t
    assume more: "turn = ClassMore cs' f t" "set_ok cs'" "pred_option printable f" "suffix t s1"
    from 1(2) turn more(1) have "class_loop cs' f False t = Inr (out, r)"
      by (simp add: s class_loop_Cons)
    moreover have "length t < length s" "list_all printable t" "more_ok cs' False"
      using more suffix_length_le [OF more(4)] suffix_all [OF more(4)] \<open>list_all printable s1\<close>
      by (simp_all add: s more_ok_def)
    ultimately have "set_ok out \<and> suffix r t" using 1(1) more(3) by blast
    with more(4) show ?thesis by (auto simp: s intro: suffix_ConsI suffix_order.trans)
  next
    assume "turn = ClassDone cs s1" "set_ok cs"
    with 1(2) turn show ?thesis by (auto simp: s class_loop_Cons suffix_ConsI)
  qed
qed

lemma run_set_cases:
  "run_set c s = Inr (cs, r) \<Longrightarrow>
     ((\<exists>e. escape e = Inr cs) \<and> suffix r s) \<or> class_set s = Inr (cs, r) \<or> cs = bit_of c \<and> r = s"
  unfolding run_set_def
  by (split if_split_asm,
      cases s, simp, force simp: bind_res_Inr suffix_ConsI simp del: escape.simps,
      (split if_split_asm, simp)+, simp)

lemma run_set_ok:
  assumes "run_set c s = Inr (cs, r)" "printable c" "list_all printable s"
  shows "set_ok cs \<and> suffix r s"
proof -
  consider e where "escape e = Inr cs" "suffix r s" | "class_set s = Inr (cs, r)" | "cs = bit_of c" "r = s"
    using run_set_cases [OF assms(1)] by blast
  then show ?thesis
  proof cases
    case 2
    then show ?thesis
      using class_loop_ok [of 0 None True s cs r] assms(3) by (simp add: class_set_def more_ok_def)
  qed (use assms escape_ok in \<open>auto simp: set_ok_bit_of\<close>)
qed

lemma repeat_number_bound: "repeat_number i s = Inr n \<Longrightarrow> n \<le> MAX_REPEAT"
  by (auto simp: repeat_number_def split: option.splits if_splits)

lemma repeat_bounds_bound:
  "repeat_bounds i = Inr (n, m) \<Longrightarrow> n \<le> MAX_REPEAT \<and> (case m of None \<Rightarrow> True | Some m' \<Rightarrow> m' \<le> MAX_REPEAT)"
  by (auto simp: repeat_bounds_def bind_res_Inr dest!: repeat_number_bound
      split: option.splits if_splits)

lemma braced_ok:
  assumes "braced s = Inr ((n, m), r)"
  shows "quantifier_ok n m \<and> suffix r s"
proof -
  obtain i rest where s: "split_once CHR ''}'' s = Some (i, rest)"
    using assms by (auto simp: braced_def split: option.splits)
  then obtain q where q: "repeat_bounds i = Inr q"
    and rest: "(if (case snd q of Some m \<Rightarrow> m < fst q | None \<Rightarrow> False) then Inl (RepeatBackwards i)
        else if q = (0, Some 0) then Inl MatchesNothing else one_quantifier q rest) = Inr ((n, m), r)"
    using assms unfolding braced_def by (auto simp: bind_res_Inr)
  have one: "one_quantifier q rest = Inr ((n, m), r)"
    and ok: "\<not> (case snd q of Some m \<Rightarrow> m < fst q | None \<Rightarrow> False)" "q \<noteq> (0, Some 0)"
    using rest by (simp_all split: if_split_asm)
  from one have m: "q = (n, m)" "rest = r" by (simp_all add: one_quantifier_rest)
  with s q ok repeat_bounds_bound [of i n m] show ?thesis
    by (auto simp: quantifier_ok_def split_once_Some suffix_def split: option.splits)
qed

lemma quantifier_ok:
  assumes "quantifier s = Inr ((n, m), r)"
  shows "quantifier_ok n m \<and> suffix r s"
proof (cases s)
  case Nil
  with assms show ?thesis by (auto simp: quantifier_def quantifier_ok_def MAX_REPEAT_def)
next
  case (Cons c t)
  consider "braced t = Inr ((n, m), r)"
    | "(n, m) \<in> {(0, None), (1, None), (0, Some 1), (1, Some 1)}" "r = t \<or> r = s"
    using assms by (auto simp: Cons quantifier_def one_quantifier_rest split: if_splits)
  then show ?thesis
  proof cases
    case 1
    from braced_ok [OF this] show ?thesis by (simp add: Cons suffix_ConsI)
  next
    case 2
    then show ?thesis by (auto simp: Cons quantifier_ok_def MAX_REPEAT_def suffix_ConsI)
  qed
qed

lemma parse_runs_ok: "parse_runs s = Inr rs \<Longrightarrow> list_all printable s \<Longrightarrow> list_all run_ok rs"
proof (induction s arbitrary: rs rule: length_induct)
  case (1 s)
  show ?case
  proof (cases s)
    case Nil
    with 1 show ?thesis by simp
  next
    case (Cons c s1)
    from 1(2) obtain cs s2 n m s3 rs' where
      steps: "run_set c s1 = Inr (cs, s2)" "quantifier s2 = Inr ((n, m), s3)" "parse_runs s3 = Inr rs'"
      and rs: "rs = \<lparr>r_set = cs, r_min = n, r_max = m\<rparr> # rs'"
      by (subst (asm) parse_runs.simps)
        (auto simp: Cons bind_res_Inr split: sum.splits prod.splits)
    have "printable c" "list_all printable s1" using 1(3) Cons by simp_all
    from run_set_ok [OF steps(1) this] have r: "set_ok cs" "suffix s2 s1" by simp_all
    from quantifier_ok [OF steps(2)] have q: "quantifier_ok n m" "suffix s3 s2" by simp_all
    have "suffix s3 s1" using r q by (metis suffix_order.trans)
    then have "length s3 < length s" "list_all printable s3"
      using suffix_length_le suffix_all \<open>list_all printable s1\<close> by (fastforce simp: Cons)+
    with 1(1) steps(3) have "list_all run_ok rs'" by blast
    with r q show ?thesis by (simp add: rs) (simp add: run_ok_def)
  qed
qed

section \<open>The kept form is canonical\<close>

lemma trailing_backslashes_one: "trailing_backslashes (s @ [c]) = (if c = backslash then Suc (trailing_backslashes s) else 0)"
  by (simp add: trailing_backslashes_def)

lemma spell_one_trailing:
  "even (trailing_backslashes s) \<Longrightarrow> even (trailing_backslashes (s @ spell_one c))"
proof -
  assume even: "even (trailing_backslashes s)"
  have "backslash \<in> set syntax_chars" by (simp add: syntax_chars_def)
  with even show ?thesis
    using trailing_backslashes_one [of s c] trailing_backslashes_one [of "s @ [backslash]" c]
      trailing_backslashes_one [of s backslash]
    by (auto simp: spell_one_def)
qed

lemma snoc_trailing: "c \<noteq> backslash \<Longrightarrow> even (trailing_backslashes (s @ t @ [c]))"
  using trailing_backslashes_one [of "s @ t" c] by simp

lemma spell_trailing:
  "even (trailing_backslashes s) \<Longrightarrow> even (trailing_backslashes (s @ spell cs))"
  using snoc_trailing [of "CHR '']''" s "''['' @ spell_spans cs 32"]
  by (simp add: spell_def spell_one_trailing)

lemma spell_quantifier_trailing:
  "even (trailing_backslashes s) \<Longrightarrow> even (trailing_backslashes (s @ spell_quantifier n m))"
proof (cases "spell_quantifier n m = []")
  case False
  then obtain t c where "spell_quantifier n m = t @ [c]" "c \<in> set ''*+?}''"
    by (auto simp: spell_quantifier_def append_eq_append_conv2 split: if_splits option.splits
        intro: that [of "[]"] that [of "''{'' @ show_nat n"] that [of "''{'' @ show_nat n @ '',''"])
  then show ?thesis using snoc_trailing [of c s t] by auto
qed simp

lemma kept_trailing:
  "even (trailing_backslashes s) \<Longrightarrow> even (trailing_backslashes (s @ concat (map spell_run rs)))"
proof (induction rs arbitrary: s)
  case (Cons r rs)
  from Cons.IH [of "s @ spell_run r"] Cons.prems spell_trailing spell_quantifier_trailing
  show ?case by (simp add: spell_run_def) (metis append_assoc)
qed simp

lemma strip_suffix_append [simp]: "strip_suffix p (s @ p) = Some s"
  by (simp add: strip_suffix_def suffix_def)

lemma kept_body: "pattern_body (kept rs) = Inr (concat (map spell_run rs))"
proof -
  have "trailing_backslashes [] = 0" by (simp add: trailing_backslashes_def)
  with kept_trailing [of "[]" rs] have "even (trailing_backslashes (concat (map spell_run rs)))" by simp
  moreover have "strip_prefix ''^'' (kept rs) = Some (concat (map spell_run rs) @ ''$'')"
    by (simp add: kept_def strip_prefix_def)
  ultimately show ?thesis
    using strip_suffix_append [of "''$''" "concat (map spell_run rs)"]
    by (simp add: pattern_body_def even_iff_mod_2_eq_zero)
qed

lemma spell_one_printable: "printable c \<Longrightarrow> list_all printable (spell_one c)"
  by (simp add: spell_one_def) (simp add: printable_def byte_def)

lemma spell_spans_printable: "32 \<le> c \<Longrightarrow> list_all printable (spell_spans cs c)"
proof (induction cs c rule: spell_spans.induct)
  case (1 cs c)
  have ch: "32 \<le> n \<Longrightarrow> n \<le> (126 :: nat) \<Longrightarrow> printable (char_of n)" for n
    by (simp add: printable_def byte_char_of)
  show ?case
  proof (cases "c > 126 \<or> \<not> holds cs c")
    case True
    with 1 show ?thesis by (subst spell_spans.simps) auto
  next
    case False
    then have e: "span_end cs c \<le> 126" "c \<le> span_end cs c"
      using span_end_spec [of c cs] span_end_ge [of c cs] by auto
    have "list_all printable (spell_span c (span_end cs c))"
      using 1 False e ch
      by (auto simp: spell_span_def spell_one_printable) (simp add: printable_def byte_def)
    with 1 False e show ?thesis by (subst spell_spans.simps) auto
  qed
qed

lemma kept_printable: "list_all run_ok rs \<Longrightarrow> list_all printable (kept rs)"
proof -
  have num: "list_all printable (show_nat n)" for n
    using show_nat_digits [of n] by (auto simp: list_all_iff is_ascii_digit_def printable_def)
  have q: "list_all printable (spell_quantifier n m)" for n m
    by (auto simp: spell_quantifier_def num printable_def byte_def split: option.splits)
  have s: "set_ok cs \<Longrightarrow> list_all printable (spell cs)" for cs
  proof -
    assume ok: "set_ok cs"
    have "count_ones cs = 1 \<Longrightarrow> bit cs (trailing_zeros cs)"
      using one_char_set [of cs] bit_push_bit_iff [of "trailing_zeros cs" "1 :: charset" "trailing_zeros cs"]
      by simp
    then have "count_ones cs = 1 \<Longrightarrow> printable (char_of (trailing_zeros cs))"
      using ok by (auto simp: set_ok_def printable_def byte_char_of)
    then show ?thesis
      using spell_spans_printable [of 32 cs]
      by (auto simp: spell_def spell_one_printable) (simp_all add: printable_def byte_def)
  qed
  assume "list_all run_ok rs"
  then have "list_all printable (concat (map spell_run rs))"
    by (induction rs) (simp_all add: spell_run_def q s run_ok_def)
  then show ?thesis by (simp add: kept_def printable_def byte_def)
qed

definition runs_ok :: "run list \<Rightarrow> bool" where
  "runs_ok rs \<longleftrightarrow> list_all run_ok rs \<and> fenced rs \<and> length (kept rs) \<le> MAX_ID_PATTERN"

text \<open>A kept pattern of admissible length is read as the runs it was written from.\<close>

lemma kept_reads_back: "runs_ok rs \<Longrightarrow> pattern_runs (kept rs) = Inr rs"
  by (simp add: runs_ok_def pattern_runs_def kept_printable kept_body kept_runs_read_back)

interpretation pattern: roundtrip kept pattern_runs runs_ok
  by unfold_locales (rule kept_reads_back)

lemma suffix_body:
  assumes "pattern_body p = Inr body"
  shows "p = ''^'' @ body @ ''$''"
  using assms
  by (auto simp: pattern_body_def bind_res_Inr ok_or_iff strip_prefix_Some strip_suffix_def suffix_def
      split: if_split_asm)

lemma pattern_runs_ok:
  assumes "pattern_runs p = Inr rs"
  shows "list_all run_ok rs" "fenced rs"
proof -
  from assms obtain body where b: "pattern_body p = Inr body" "parse_runs body = Inr rs"
    and "list_all printable p" and "fenced rs"
    by (auto simp: pattern_runs_def bind_res_Inr split: if_split_asm)
  moreover from this have "list_all printable body" using suffix_body [OF b(1)] by simp
  ultimately show "list_all run_ok rs" "fenced rs" using parse_runs_ok [OF b(2)] by simp_all
qed

section \<open>What the fences bound\<close>

text \<open>
  The ways a text splits among the runs: what a backtracking engine goes through when the rest
  of an id refuses it.
\<close>

definition in_run :: "run \<Rightarrow> char \<Rightarrow> bool" where
  "in_run r c \<longleftrightarrow> bit (r_set r) (byte c)"

definition takes :: "run \<Rightarrow> string \<Rightarrow> nat list" where
  "takes r s =
     filter (\<lambda>n. r_min r \<le> n \<and> (case r_max r of None \<Rightarrow> True | Some m \<Rightarrow> n \<le> m)
       \<and> list_all (in_run r) (take n s)) [0..<Suc (length s)]"

fun ways :: "run list \<Rightarrow> string \<Rightarrow> nat" where
  "ways [] s = (if s = [] then 1 else 0)"
| "ways (r # rs) s = sum_list (map (\<lambda>n. ways rs (drop n s)) (takes r s))"

text \<open>How far past a run its fence starts, and the product of those distances.\<close>

fun offset :: "run \<Rightarrow> run list \<Rightarrow> nat" where
  "offset r [] = 0"
| "offset r (q # qs) = (if fences r q then 0 else r_min q + offset r qs)"

fun slack :: "run list \<Rightarrow> nat" where
  "slack [] = 1"
| "slack (r # rs) = (if fixed r \<or> list_all fixed rs then 1 else Suc (offset r rs)) * slack rs"

lemma takes_iff:
  "n \<in> set (takes r s) \<longleftrightarrow>
     n \<le> length s \<and> r_min r \<le> n \<and> (case r_max r of None \<Rightarrow> True | Some m \<Rightarrow> n \<le> m)
     \<and> (\<forall>i < n. in_run r (s ! i))"
proof -
  have "n \<le> length s \<Longrightarrow> list_all (in_run r) (take n s) \<longleftrightarrow> (\<forall>i < n. in_run r (s ! i))"
    by (simp add: list_all_length)
  then show ?thesis by (auto simp: takes_def less_Suc_eq_le simp del: upt_Suc)
qed

lemma takes_distinct: "distinct (takes r s)"
  by (simp add: takes_def)

lemma takes_fixed: "fixed r \<Longrightarrow> n \<in> set (takes r s) \<Longrightarrow> n = r_min r"
  by (simp add: takes_iff fixed_def)

lemma ways_Cons_pos: "0 < ways (r # rs) s \<longleftrightarrow> (\<exists>n \<in> set (takes r s). 0 < ways rs (drop n s))"
  by (simp add: sum_list_eq_0_iff flip: neq0_conv)

lemma ways_fixed_length:
  "list_all fixed rs \<Longrightarrow> 0 < ways rs s \<Longrightarrow> length s = sum_list (map r_min rs)"
proof (induction rs arbitrary: s)
  case (Cons r rs)
  from Cons.prems(2) obtain n where n: "n \<in> set (takes r s)" "0 < ways rs (drop n s)"
    by (auto simp only: ways_Cons_pos)
  with Cons have "length (drop n s) = sum_list (map r_min rs)" "n = r_min r"
    using takes_fixed [of r n s] Cons.IH [OF _ n(2)] by simp_all
  with n show ?case by (auto simp: takes_iff)
qed (simp split: if_splits)

lemma fence_stops:
  "0 < ways rs s \<Longrightarrow> list_ex (fences r) (takeWhile fixed rs) \<Longrightarrow>
     offset r rs < length s \<and> \<not> in_run r (s ! offset r rs)"
proof (induction rs arbitrary: s)
  case (Cons q qs)
  from Cons.prems(1) obtain n where n: "n \<in> set (takes q s)" "0 < ways qs (drop n s)"
    by (auto simp only: ways_Cons_pos)
  show ?case
  proof (cases "fences r q")
    case True
    then have "0 < n" using n by (auto simp: fences_def takes_iff)
    moreover have "\<not> (bit (r_set q) i \<and> bit (r_set r) i)" for i
      using True bit_and_iff [of "r_set q" "r_set r" i] by (simp add: fences_def)
    ultimately show ?thesis using True n by (auto simp: takes_iff in_run_def)
  next
    case False
    with Cons.prems(2) have "fixed q" "list_ex (fences r) (takeWhile fixed qs)"
      by (auto split: if_splits)
    with Cons.IH [OF n(2)] n takes_fixed [OF \<open>fixed q\<close> n(1)] False show ?thesis
      by (auto simp: takes_iff)
  qed
qed simp

lemma sum_list_few:
  assumes "distinct ns" "\<And>n. n \<in> set ns \<Longrightarrow> f n \<le> b"
    and "\<And>n m. n \<in> set ns \<Longrightarrow> m \<in> set ns \<Longrightarrow> 0 < f n \<Longrightarrow> 0 < f m \<Longrightarrow> m \<le> n + d"
  shows "sum_list (map f ns) \<le> Suc d * (b :: nat)"
proof -
  let ?N = "{n \<in> set ns. 0 < f n}"
  have "sum_list (map f ns) = (\<Sum>n \<in> set ns. f n)" using assms(1) by (rule sum_list_distinct_conv_sum_set)
  also have "\<dots> = (\<Sum>n \<in> ?N. f n)" by (rule sum.mono_neutral_right) auto
  also have "\<dots> \<le> card ?N * b" using sum_bounded_above [of ?N f b] assms(2) by simp
  also have "card ?N \<le> Suc d"
  proof (cases "?N = {}")
    case False
    then have "Min ?N \<in> ?N" by (intro Min_in) auto
    then have "?N \<subseteq> {Min ?N .. Min ?N + d}" using assms(3) by auto
    from card_mono [OF _ this] show ?thesis by simp
  qed (simp only: card.empty)
  finally show ?thesis by (simp add: mult_le_mono1)
qed

lemma ways_bound: "fenced rs \<Longrightarrow> ways rs s \<le> slack rs"
proof (induction rs arbitrary: s)
  case (Cons r rs)
  have IH: "ways rs t \<le> slack rs" for t using Cons by simp
  let ?f = "\<lambda>n. ways rs (drop n s)" and ?ns = "takes r s"
  let ?d = "if fixed r \<or> list_all fixed rs then 0 else offset r rs"
  have "m \<le> n + ?d" if "n \<in> set ?ns" "m \<in> set ?ns" "0 < ?f n" "0 < ?f m" for n m
  proof (cases "fixed r \<or> list_all fixed rs")
    case True
    then show ?thesis
    proof
      assume "fixed r"
      from takes_fixed [OF this that(1)] takes_fixed [OF this that(2)] show ?thesis by simp
    next
      assume "list_all fixed rs"
      from ways_fixed_length [OF this that(3)] ways_fixed_length [OF this that(4)]
      have "length s - n = length s - m" by simp
      moreover have "n \<le> length s" "m \<le> length s" using that(1,2) by (simp_all add: takes_iff)
      ultimately have "n = m" by arith
      then show ?thesis by simp
    qed
  next
    case False
    have "dropWhile fixed rs = [] \<longleftrightarrow> list_all fixed rs"
      by (simp add: dropWhile_eq_Nil_conv list_all_iff)
    with False Cons.prems have "list_ex (fences r) (takeWhile fixed rs)" by auto
    from fence_stops [OF that(3) this] have "\<not> in_run r (s ! (n + offset r rs))"
      using that(1) by (simp add: takes_iff)
    then have "\<not> n + offset r rs < m" using that(2) by (auto simp: takes_iff)
    with False show ?thesis by simp
  qed
  from sum_list_few [OF takes_distinct IH this]
  have "ways (r # rs) s \<le> Suc ?d * slack rs" by simp
  moreover have "Suc ?d * slack rs = slack (r # rs)" by simp
  ultimately show ?case by (simp only:)
qed simp

section \<open>Examples\<close>

lemmas parse_evals =
  pattern_runs_def pattern_body_def strip_prefix_def strip_suffix_def trailing_backslashes_def
  suffix_to_prefix printable_def parse_runs.simps run_set_def class_set_def class_loop_Cons
  class_turn_def class_escape_def class_range_def doubled_def quantifier_def one_quantifier_def
  starts_quantifier_def fixed_def fences_def byte_def bit_of_def MAX_ID_PATTERN_def

lemma filter_upt_single: "filter (\<lambda>n. n = k) [0..<m] = (if k < m then [k] else [])"
  by (induction m) auto

lemma spell_bit_of:
  assumes "byte c < 128"
  shows "spell (bit_of c) = spell_one c"
proof -
  have "filter (bit (bit_of c)) [0..<128] = filter (\<lambda>n. n = byte c) [0..<128]"
    by (rule filter_cong) (simp_all add: bit_bit_of)
  also have "\<dots> = [byte c]"
    using assms filter_upt_single by simp
  finally show ?thesis
    by (simp add: spell_def count_ones_def trailing_zeros_def find_hd_filter byte_def)
qed

definition demo_pattern :: string where
  "demo_pattern = ''^a+b'' @ backslash # ''-c*$''"

definition demo_runs :: "run list" where
  "demo_runs =
     [\<lparr>r_set = bit_of CHR ''a'', r_min = 1, r_max = None\<rparr>,
      \<lparr>r_set = bit_of CHR ''b'', r_min = 1, r_max = Some 1\<rparr>,
      \<lparr>r_set = bit_of CHR ''-'', r_min = 1, r_max = Some 1\<rparr>,
      \<lparr>r_set = bit_of CHR ''c'', r_min = 0, r_max = None\<rparr>]"

lemma demo_pattern_runs: "pattern_runs ''^a+b-c*$'' = Inr demo_runs"
  by (simp add: demo_runs_def parse_evals)

lemma demo_pattern_kept: "param_pattern ''^a+b-c*$'' = Inr demo_pattern"
  using spell_bit_of
  by (simp add: param_pattern_def demo_pattern_runs demo_runs_def kept_def spell_run_def
      spell_quantifier_def spell_one_def syntax_chars_def demo_pattern_def byte_def)

definition spread_runs :: "run list" where
  "spread_runs =
     [\<lparr>r_set = bit_of CHR ''a'', r_min = 0, r_max = None\<rparr>,
      \<lparr>r_set = bit_of CHR ''a'' OR bit_of CHR ''b'', r_min = 1, r_max = Some 1\<rparr>,
      \<lparr>r_set = bit_of CHR ''b'', r_min = 1, r_max = Some 1\<rparr>,
      \<lparr>r_set = bit_of CHR ''a'' OR bit_of CHR ''b'', r_min = 0, r_max = None\<rparr>]"

text \<open>
  A fence further on does not make a match unique: here a text splits in two ways, so what such
  runs repeat the engine gives back once per way.
\<close>

lemma spread_pattern_runs: "pattern_runs ''^a*[ab]b[ab]*$'' = Inr spread_runs"
  by (simp add: spread_runs_def parse_evals)

lemma spread_ways: "ways spread_runs ''abb'' = 2"
  by (simp add: spread_runs_def takes_def in_run_def bit_bit_of bit_or_iff byte_def)

section \<open>Properties\<close>

text \<open>
  C37. What is kept is the canonical form: a kept pattern of admissible length is accepted, reads
  as the very runs the declared pattern reads as, and is kept as itself.
\<close>

theorem kept_pattern_is_canonical:
  assumes "param_pattern p = Inr k" and "length k \<le> MAX_ID_PATTERN"
  shows "param_pattern k = Inr k \<and> pattern_runs k = pattern_runs p"
proof -
  obtain rs where rs: "pattern_runs p = Inr rs" "k = kept rs"
    using assms(1) by (auto simp: param_pattern_def bind_res_Inr)
  with pattern_runs_ok [OF rs(1)] assms(2) have "runs_ok rs" by (simp add: runs_ok_def)
  from pattern.parse_print [OF this] rs show ?thesis by (simp add: param_pattern_def)
qed

lemma kept_pattern_is_canonical_witness:
  "param_pattern demo_pattern = Inr demo_pattern \<and> pattern_runs demo_pattern = Inr demo_runs"
  using kept_pattern_is_canonical [OF demo_pattern_kept]
  by (simp add: demo_pattern_def MAX_ID_PATTERN_def demo_pattern_runs)

text \<open>
  The fences bound how an accepted pattern can match: an id splits among its runs in at most
  as many ways as the product of the distances from each repeat to its fence, so in one way when
  every fence directly follows its repeat.
\<close>

theorem fences_bound_the_ways:
  assumes "pattern_runs p = Inr rs"
  shows "ways rs s \<le> slack rs"
  using pattern_runs_ok [OF assms] by (simp add: ways_bound)

lemma fences_bound_the_ways_witness: "ways demo_runs ''aab-cc'' \<le> 1"
proof -
  have "slack demo_runs = 1"
    by (simp add: demo_runs_def fixed_def fences_def bit_of_def byte_def)
  then show ?thesis using fences_bound_the_ways [OF demo_pattern_runs, of "''aab-cc''"] by simp
qed

end
