(* ===== verification/When_Expr.thy ===== *)
theory When_Expr
  imports Prelude
begin

text \<open>
  \<open>oxplow-domain/src/when.rs\<close>: a command's \<open>when\<close>. Text is its characters, a character its code
  point. \<open>char::is_alphanumeric\<close> is the parameter \<open>alnum\<close> and the regex crate the parameter
  \<open>regex_lib\<close>; refusals are the constructors of \<open>when_error\<close>, without their wording. The
  tokenizer is one turn of its loop and the loop, the parser the code's recursive descent over
  the tokens not read yet.

  The lemmas: the parser accepts exactly the sentences of the grammar, each with its one tree;
  a checked expression never compares a key with a value of another kind; and a key the window
  does not hold reads as false.
\<close>

type_synonym ucs = "nat list"

abbreviation ch :: "char \<Rightarrow> nat" where "ch c \<equiv> of_char c"

definition chars :: "string \<Rightarrow> ucs" where
  "chars s = map ch s"

section \<open>Context keys\<close>

datatype key_kind = KeyBool | KeyStr

definition CONTEXT_KEYS :: "(string \<times> key_kind) list" where
  "CONTEXT_KEYS =
     [(''enabledAgents'', KeyStr), (''fileShown'', KeyBool), (''pageDirty'', KeyBool),
      (''pageKind'', KeyStr), (''shellAvailable'', KeyBool), (''streamKind'', KeyStr),
      (''streamShown'', KeyBool), (''threadShown'', KeyBool), (''treeDirty'', KeyBool),
      (''vcsEnabled'', KeyBool)]"

definition context_key :: "ucs \<Rightarrow> (string \<times> key_kind) option" where
  "context_key name = find (\<lambda>k. chars (fst k) = name) CONTEXT_KEYS"

section \<open>Expressions\<close>

datatype literal = LitBool bool | LitStr ucs

datatype when_expr =
  WLiteral bool
| WKey ucs
| WNot when_expr
| WAnd when_expr when_expr
| WOr when_expr when_expr
| WEquals ucs literal bool
| WMatches ucs ucs ucs

datatype context_value = CtxBool bool | CtxStr ucs

section \<open>Tokens\<close>

datatype token =
  TOpen | TClose | TNot | TAnd | TOr | TEq | TNotEq | TMatch
| TUnsupported string | TWord ucs | TQuoted ucs | TRegex ucs ucs

datatype when_error =
  UnexpectedChar nat | RegexExpected | UnterminatedRegex | UnterminatedString
| ExpectedClose "token option" | ExpectedKey "token option" | ExpectedValue "token option"
| NotSupported string | UnexpectedToken token | BadFlag nat | NotARegex
| UnknownKey ucs | WantsBool ucs ucs | WantsStr ucs bool | BoolMatched ucs

definition is_word_char :: "(nat \<Rightarrow> bool) \<Rightarrow> nat \<Rightarrow> bool" where
  "is_word_char alnum c \<longleftrightarrow> alnum c \<or> c \<in> set (chars ''._-:/@#'')"

text \<open>After the spaces: the rest, and whether its first word is \<open>in\<close>.\<close>

definition skip_spaces :: "ucs \<Rightarrow> ucs" where
  "skip_spaces s = dropWhile (\<lambda>c. c = ch CHR '' '') s"

definition next_is_in :: "(nat \<Rightarrow> bool) \<Rightarrow> ucs \<Rightarrow> bool" where
  "next_is_in alnum s \<longleftrightarrow> takeWhile (is_word_char alnum) (skip_spaces s) = chars ''in''"

fun regex_body :: "ucs \<Rightarrow> ucs \<Rightarrow> when_error + (ucs \<times> ucs)" where
  "regex_body pat [] = Inl UnterminatedRegex"
| "regex_body pat (c # s) =
     (if c = ch CHR 0x5C then
        (case s of
           [] \<Rightarrow> Inl UnterminatedRegex
         | n # r \<Rightarrow> regex_body (pat @ (if n \<noteq> ch CHR ''/'' then [c] else []) @ [n]) r)
      else if c = ch CHR ''/'' then Inr (pat, s)
      else regex_body (pat @ [c]) s)"

definition is_ascii_letter :: "nat \<Rightarrow> bool" where
  "is_ascii_letter c \<longleftrightarrow> 97 \<le> c \<and> c \<le> 122 \<or> 65 \<le> c \<and> c \<le> 90"

text \<open>What \<open>=~\<close> pushes, and the text after it.\<close>

definition lex_match :: "ucs \<Rightarrow> when_error + (token list \<times> ucs)" where
  "lex_match s =
     (case skip_spaces s of
        [] \<Rightarrow> Inl RegexExpected
      | c # r \<Rightarrow>
          if c \<noteq> ch CHR ''/'' then Inl RegexExpected
          else
            bind_res (regex_body [] r) (\<lambda>(pat, r').
              Inr ([TMatch, TRegex pat (takeWhile is_ascii_letter r')],
                   dropWhile is_ascii_letter r')))"

definition lex_word :: "(nat \<Rightarrow> bool) \<Rightarrow> ucs \<Rightarrow> token list \<times> ucs" where
  "lex_word alnum s =
     (let w = takeWhile (is_word_char alnum) s; r = dropWhile (is_word_char alnum) s in
      if w = chars ''in'' then ([TUnsupported ''in''], r)
      else if w = chars ''not'' \<and> next_is_in alnum r
      then ([TUnsupported ''not in''], drop 2 (skip_spaces r))
      else ([TWord w], r))"

definition skip_one :: "nat \<Rightarrow> ucs \<Rightarrow> ucs" where
  "skip_one c s = (case s of d # r \<Rightarrow> if d = c then r else s | [] \<Rightarrow> [])"

text \<open>One turn of the loop: what the character at hand pushes and where the next turn reads.\<close>

definition lex_turn ::
  "(nat \<Rightarrow> bool) \<Rightarrow> nat \<Rightarrow> ucs \<Rightarrow> when_error + (token list \<times> ucs)" where
  "lex_turn alnum c s =
     (let next = (case s of [] \<Rightarrow> None | d # _ \<Rightarrow> Some d) in
      if c = ch CHR '' '' \<or> c = 9 \<or> c = 10 then Inr ([], s)
      else if c = ch CHR ''('' then Inr ([TOpen], s)
      else if c = ch CHR '')'' then Inr ([TClose], s)
      else if c = ch CHR ''&'' \<and> next = Some (ch CHR ''&'') then Inr ([TAnd], tl s)
      else if c = ch CHR ''|'' \<and> next = Some (ch CHR ''|'') then Inr ([TOr], tl s)
      else if c = ch CHR ''='' \<and> next = Some (ch CHR ''='')
      then Inr ([TEq], skip_one (ch CHR ''='') (tl s))
      else if c = ch CHR ''='' \<and> next = Some (ch CHR ''~'') then lex_match (tl s)
      else if c = ch CHR ''!'' \<and> next = Some (ch CHR ''='')
      then Inr ([TNotEq], skip_one (ch CHR ''='') (tl s))
      else if c = ch CHR ''!'' then Inr ([TNot], s)
      else if c = ch CHR ''<'' \<or> c = ch CHR ''>''
      then
        (if next = Some (ch CHR ''='')
         then Inr ([TUnsupported (if c = ch CHR ''<'' then ''<='' else ''>='')], tl s)
         else Inr ([TUnsupported (if c = ch CHR ''<'' then ''<'' else ''>'')], s))
      else if c = ch CHR 0x27 \<or> c = ch CHR 0x22
      then (case split_once c s of
              None \<Rightarrow> Inl UnterminatedString
            | Some (w, r) \<Rightarrow> Inr ([TQuoted w], r))
      else if is_word_char alnum c then Inr (lex_word alnum (c # s))
      else Inl (UnexpectedChar c))"

lemma regex_body_rest: "regex_body pat s = Inr (p, r) \<Longrightarrow> length r < length s"
  by (induction pat s rule: regex_body.induct) (fastforce split: if_splits list.splits)+

lemma lex_match_rest: "lex_match s = Inr (ts, r) \<Longrightarrow> length r \<le> length s"
proof -
  assume "lex_match s = Inr (ts, r)"
  then obtain t p q where "skip_spaces s = ch CHR ''/'' # t" "regex_body [] t = Inr (p, q)"
    and r: "r = dropWhile is_ascii_letter q"
    by (auto simp: lex_match_def bind_res_Inr split: list.splits if_splits)
  then have "length q < length t" "length t < length (skip_spaces s)" using regex_body_rest by auto
  moreover have "length (skip_spaces s) \<le> length s" "length r \<le> length q"
    by (simp_all add: skip_spaces_def r length_dropWhile_le)
  ultimately show ?thesis by simp
qed

lemma lex_word_rest:
  assumes "lex_word alnum (c # s) = (ts, r)" "is_word_char alnum c"
  shows "length r \<le> length s"
proof -
  let ?r = "dropWhile (is_word_char alnum) s"
  have "r = ?r \<or> r = drop 2 (skip_spaces ?r)"
    using assms by (auto simp: lex_word_def Let_def split: if_splits)
  moreover have "length (skip_spaces ?r) \<le> length ?r" "length ?r \<le> length s"
    by (simp_all add: skip_spaces_def length_dropWhile_le)
  ultimately show ?thesis by auto
qed

lemma skip_one_length: "length (skip_one c s) \<le> length s"
  by (cases s) (simp_all add: skip_one_def)

lemma lex_turn_rest: "lex_turn alnum c s = Inr (ts, r) \<Longrightarrow> length r \<le> length s"
  using skip_one_length [of "ch CHR ''=''" "tl s"] lex_match_rest [of "tl s" ts r]
    lex_word_rest [of alnum c s ts r]
  by (cases s) (auto simp: lex_turn_def Let_def split_once_Some split: if_split_asm option.splits)

function tokens :: "(nat \<Rightarrow> bool) \<Rightarrow> ucs \<Rightarrow> when_error + token list" where
  "tokens alnum s =
     (case s of
        [] \<Rightarrow> Inr []
      | c # s1 \<Rightarrow>
          (case lex_turn alnum c s1 of
             Inl e \<Rightarrow> Inl e
           | Inr (ts, r) \<Rightarrow> bind_res (tokens alnum r) (\<lambda>us. Inr (ts @ us))))"
  by pat_completeness auto

termination by (relation "measure (length \<circ> snd)") (auto dest!: lex_turn_rest)

declare tokens.simps [simp del]

section \<open>The parser\<close>

record 'r regex_lib =
  rx_new :: "ucs \<Rightarrow> 'r option"
  rx_is_match :: "'r \<Rightarrow> ucs \<Rightarrow> bool"

definition compile_regex :: "'r regex_lib \<Rightarrow> ucs \<Rightarrow> ucs \<Rightarrow> when_error + 'r" where
  "compile_regex rl pattern flags =
     (case find (\<lambda>f. f \<notin> set (chars ''ims'')) flags of
        Some f \<Rightarrow> Inl (BadFlag f)
      | None \<Rightarrow>
          ok_or (rx_new rl (if flags = [] then pattern
                            else chars ''(?'' @ flags @ chars '')'' @ pattern)) NotARegex)"

definition value_of_token :: "token option \<Rightarrow> when_error + literal" where
  "value_of_token t =
     (case t of
        Some (TWord w) \<Rightarrow>
          Inr (if w = chars ''true'' then LitBool True
               else if w = chars ''false'' then LitBool False else LitStr w)
      | Some (TQuoted w) \<Rightarrow> Inr (LitStr w)
      | _ \<Rightarrow> Inl (ExpectedValue t))"

definition head :: "token list \<Rightarrow> token option" where
  "head ts = (case ts of [] \<Rightarrow> None | t # _ \<Rightarrow> Some t)"

definition comparison ::
  "'r regex_lib \<Rightarrow> ucs \<Rightarrow> token list \<Rightarrow> when_error + (when_expr \<times> token list)" where
  "comparison rl key ts =
     (case ts of
        TEq # r \<Rightarrow> bind_res (value_of_token (head r)) (\<lambda>v. Inr (WEquals key v True, tl r))
      | TNotEq # r \<Rightarrow> bind_res (value_of_token (head r)) (\<lambda>v. Inr (WEquals key v False, tl r))
      | TMatch # r \<Rightarrow>
          (case head r of
             Some (TRegex pat flags) \<Rightarrow>
               bind_res (compile_regex rl pat flags) (\<lambda>_. Inr (WMatches key pat flags, tl r))
           | _ \<Rightarrow> Inl RegexExpected)
      | TUnsupported op # _ \<Rightarrow> Inl (NotSupported op)
      | _ \<Rightarrow> Inr (WKey key, ts))"

lemma comparison_rest: "comparison rl key ts = Inr (e, r) \<Longrightarrow> length r \<le> length ts"
  by (auto simp: comparison_def bind_res_Inr split: list.splits token.splits option.splits)

function
  p_or :: "'r regex_lib \<Rightarrow> token list \<Rightarrow> when_error + (when_expr \<times> token list)" and
  p_or_loop :: "'r regex_lib \<Rightarrow> when_expr \<Rightarrow> token list \<Rightarrow> when_error + (when_expr \<times> token list)" and
  p_and :: "'r regex_lib \<Rightarrow> token list \<Rightarrow> when_error + (when_expr \<times> token list)" and
  p_and_loop :: "'r regex_lib \<Rightarrow> when_expr \<Rightarrow> token list \<Rightarrow> when_error + (when_expr \<times> token list)" and
  p_unary :: "'r regex_lib \<Rightarrow> token list \<Rightarrow> when_error + (when_expr \<times> token list)" and
  p_primary :: "'r regex_lib \<Rightarrow> token list \<Rightarrow> when_error + (when_expr \<times> token list)"
where
  "p_or rl ts = (case p_and rl ts of Inl e \<Rightarrow> Inl e | Inr (left, r) \<Rightarrow> p_or_loop rl left r)"
| "p_or_loop rl left ts =
     (if head ts = Some TOr then
        (case p_and rl (tl ts) of
           Inl e \<Rightarrow> Inl e
         | Inr (right, r) \<Rightarrow> p_or_loop rl (WOr left right) r)
      else Inr (left, ts))"
| "p_and rl ts = (case p_unary rl ts of Inl e \<Rightarrow> Inl e | Inr (left, r) \<Rightarrow> p_and_loop rl left r)"
| "p_and_loop rl left ts =
     (if head ts = Some TAnd then
        (case p_unary rl (tl ts) of
           Inl e \<Rightarrow> Inl e
         | Inr (right, r) \<Rightarrow> p_and_loop rl (WAnd left right) r)
      else Inr (left, ts))"
| "p_unary rl ts =
     (if head ts = Some TNot then
        (case p_unary rl (tl ts) of
           Inl e \<Rightarrow> Inl e
         | Inr (x, r) \<Rightarrow> Inr (WNot x, r))
      else p_primary rl ts)"
| "p_primary rl ts =
     (case head ts of
        Some TOpen \<Rightarrow>
          (case p_or rl (tl ts) of
             Inl e \<Rightarrow> Inl e
           | Inr (inner, r) \<Rightarrow>
               if head r = Some TClose then Inr (inner, tl r) else Inl (ExpectedClose (head r)))
      | Some (TWord w) \<Rightarrow>
          if w = chars ''true'' then Inr (WLiteral True, tl ts)
          else if w = chars ''false'' then Inr (WLiteral False, tl ts)
          else comparison rl w (tl ts)
      | t \<Rightarrow> Inl (ExpectedKey t))"
  by pat_completeness auto

lemma head_Some: "head ts = Some t \<longleftrightarrow> (\<exists>r. ts = t # r)"
  by (auto simp: head_def split: list.splits)

lemma parser_consumes_partial:
  "p_or_p_or_loop_p_and_p_and_loop_p_unary_p_primary_dom (Inl (Inl (rl, ts))) \<Longrightarrow> (\<And>e r. p_or rl ts = Inr (e, r) \<Longrightarrow> length r < length ts)"
  "p_or_p_or_loop_p_and_p_and_loop_p_unary_p_primary_dom (Inl (Inr (Inl (rl, x, ts)))) \<Longrightarrow> (\<And>e r. p_or_loop rl x ts = Inr (e, r) \<Longrightarrow> length r \<le> length ts)"
  "p_or_p_or_loop_p_and_p_and_loop_p_unary_p_primary_dom (Inl (Inr (Inr (rl, ts)))) \<Longrightarrow> (\<And>e r. p_and rl ts = Inr (e, r) \<Longrightarrow> length r < length ts)"
  "p_or_p_or_loop_p_and_p_and_loop_p_unary_p_primary_dom (Inr (Inl (rl, x, ts))) \<Longrightarrow> (\<And>e r. p_and_loop rl x ts = Inr (e, r) \<Longrightarrow> length r \<le> length ts)"
  "p_or_p_or_loop_p_and_p_and_loop_p_unary_p_primary_dom (Inr (Inr (Inl (rl, ts)))) \<Longrightarrow> (\<And>e r. p_unary rl ts = Inr (e, r) \<Longrightarrow> length r < length ts)"
  "p_or_p_or_loop_p_and_p_and_loop_p_unary_p_primary_dom (Inr (Inr (Inr (rl, ts)))) \<Longrightarrow> (\<And>e r. p_primary rl ts = Inr (e, r) \<Longrightarrow> length r < length ts)"
proof (induction rl ts and rl x ts and rl ts and rl x ts and rl ts and rl ts
    rule: p_or_p_or_loop_p_and_p_and_loop_p_unary_p_primary.pinduct)
  case (1 rl ts)
  then show ?case by (fastforce simp: p_or.psimps split: sum.splits prod.splits)
next
  case (2 rl left ts)
  then show ?case by (fastforce simp: p_or_loop.psimps head_Some split: sum.splits prod.splits if_splits)
next
  case (3 rl ts)
  then show ?case by (fastforce simp: p_and.psimps split: sum.splits prod.splits)
next
  case (4 rl left ts)
  then show ?case by (fastforce simp: p_and_loop.psimps head_Some split: sum.splits prod.splits if_splits)
next
  case (5 rl ts)
  then show ?case by (fastforce simp: p_unary.psimps head_Some split: sum.splits prod.splits if_splits)
next
  case (6 rl ts)
  show ?case
  proof (cases "head ts")
    case None
    with 6 show ?thesis by (simp add: p_primary.psimps)
  next
    case (Some t)
    then obtain us where ts: "ts = t # us" by (auto simp: head_Some)
    with 6 Some show ?thesis
      by (cases t)
        (fastforce simp: p_primary.psimps dest: comparison_rest split: sum.splits if_splits)+
  qed
qed

termination p_or
  by (relation "measures
      [case_sum (case_sum (\<lambda>(rl, ts). length ts) (case_sum (\<lambda>(rl, x, ts). length ts) (\<lambda>(rl, ts). length ts)))
         (case_sum (\<lambda>(rl, x, ts). length ts) (case_sum (\<lambda>(rl, ts). length ts) (\<lambda>(rl, ts). length ts))),
       case_sum (case_sum (\<lambda>_. 3) (case_sum (\<lambda>_. 0) (\<lambda>_. 2)))
         (case_sum (\<lambda>_. 0) (case_sum (\<lambda>_. 1) (\<lambda>_. 0)))]")
    (fastforce simp: head_Some dest: parser_consumes_partial)+

declare p_or.simps [simp del] p_or_loop.simps [simp del] p_and.simps [simp del]
  p_and_loop.simps [simp del] p_unary.simps [simp del] p_primary.simps [simp del]

lemmas parser_unfold =
  p_or.simps p_or_loop.simps p_and.simps p_and_loop.simps p_unary.simps p_primary.simps

definition parse_tokens :: "'r regex_lib \<Rightarrow> token list \<Rightarrow> when_error + when_expr" where
  "parse_tokens rl ts =
     bind_res (p_or rl ts) (\<lambda>(e, r).
       case head r of None \<Rightarrow> Inr e | Some t \<Rightarrow> Inl (UnexpectedToken t))"

definition when_parse :: "(nat \<Rightarrow> bool) \<Rightarrow> 'r regex_lib \<Rightarrow> ucs \<Rightarrow> when_error + when_expr" where
  "when_parse alnum rl src = bind_res (tokens alnum src) (parse_tokens rl)"

section \<open>Checking the keys\<close>

definition known_key :: "ucs \<Rightarrow> when_error + key_kind" where
  "known_key key = ok_or (map_option snd (context_key key)) (UnknownKey key)"

fun check_keys :: "when_expr \<Rightarrow> when_error + unit" where
  "check_keys (WLiteral b) = Inr ()"
| "check_keys (WKey key) = bind_res (known_key key) (\<lambda>_. Inr ())"
| "check_keys (WNot e) = check_keys e"
| "check_keys (WAnd a b) = bind_res (check_keys a) (\<lambda>_. check_keys b)"
| "check_keys (WOr a b) = bind_res (check_keys a) (\<lambda>_. check_keys b)"
| "check_keys (WEquals key v eq) =
     bind_res (known_key key) (\<lambda>kind.
       case (kind, v) of
         (KeyBool, LitBool _) \<Rightarrow> Inr ()
       | (KeyStr, LitStr _) \<Rightarrow> Inr ()
       | (KeyBool, LitStr s) \<Rightarrow> Inl (WantsBool key s)
       | (KeyStr, LitBool b) \<Rightarrow> Inl (WantsStr key b))"
| "check_keys (WMatches key pat flags) =
     bind_res (known_key key) (\<lambda>kind.
       case kind of KeyStr \<Rightarrow> Inr () | KeyBool \<Rightarrow> Inl (BoolMatched key))"

definition when_check :: "(nat \<Rightarrow> bool) \<Rightarrow> 'r regex_lib \<Rightarrow> ucs \<Rightarrow> when_error + when_expr" where
  "when_check alnum rl src =
     bind_res (when_parse alnum rl src) (\<lambda>e. bind_res (check_keys e) (\<lambda>_. Inr e))"

section \<open>Evaluation\<close>

type_synonym when_context = "ucs \<Rightarrow> context_value option"

fun when_eval :: "'r regex_lib \<Rightarrow> when_expr \<Rightarrow> when_context \<Rightarrow> bool" where
  "when_eval rl (WLiteral b) ctx = b"
| "when_eval rl (WKey key) ctx =
     (case ctx key of Some (CtxBool b) \<Rightarrow> b | Some (CtxStr s) \<Rightarrow> s \<noteq> [] | None \<Rightarrow> False)"
| "when_eval rl (WNot e) ctx = (\<not> when_eval rl e ctx)"
| "when_eval rl (WAnd a b) ctx = (when_eval rl a ctx \<and> when_eval rl b ctx)"
| "when_eval rl (WOr a b) ctx = (when_eval rl a ctx \<or> when_eval rl b ctx)"
| "when_eval rl (WEquals key v eq) ctx =
     ((case (ctx key, v) of
         (Some (CtxBool b), LitBool l) \<Rightarrow> b = l
       | (Some (CtxStr s), LitStr l) \<Rightarrow> s = l
       | (None, LitBool l) \<Rightarrow> \<not> l
       | _ \<Rightarrow> False) = eq)"
| "when_eval rl (WMatches key pat flags) ctx =
     (case ctx key of
        Some (CtxStr s) \<Rightarrow>
          (case compile_regex rl pat flags of Inr re \<Rightarrow> rx_is_match rl re s | Inl _ \<Rightarrow> False)
      | _ \<Rightarrow> False)"

section \<open>The grammar\<close>

text \<open>
  The grammar the module's documentation states: \<open>!\<close> binds tightest, \<open>&&\<close> tighter than \<open>||\<close>,
  both to the left, with the comparisons as its atoms.
\<close>

fun value_token :: "token \<Rightarrow> literal option" where
  "value_token (TWord w) =
     Some (if w = chars ''true'' then LitBool True
           else if w = chars ''false'' then LitBool False else LitStr w)"
| "value_token (TQuoted w) = Some (LitStr w)"
| "value_token _ = None"

definition is_key_word :: "ucs \<Rightarrow> bool" where
  "is_key_word w \<longleftrightarrow> w \<noteq> chars ''true'' \<and> w \<noteq> chars ''false''"

inductive
  g_or :: "'r regex_lib \<Rightarrow> when_expr \<Rightarrow> token list \<Rightarrow> bool" and
  g_and :: "'r regex_lib \<Rightarrow> when_expr \<Rightarrow> token list \<Rightarrow> bool" and
  g_unary :: "'r regex_lib \<Rightarrow> when_expr \<Rightarrow> token list \<Rightarrow> bool" and
  g_atom :: "'r regex_lib \<Rightarrow> when_expr \<Rightarrow> token list \<Rightarrow> bool"
  for rl
where
  or_one: "g_and rl e ts \<Longrightarrow> g_or rl e ts"
| or_more: "g_or rl a ts \<Longrightarrow> g_and rl b us \<Longrightarrow> g_or rl (WOr a b) (ts @ TOr # us)"
| and_one: "g_unary rl e ts \<Longrightarrow> g_and rl e ts"
| and_more: "g_and rl a ts \<Longrightarrow> g_unary rl b us \<Longrightarrow> g_and rl (WAnd a b) (ts @ TAnd # us)"
| unary_one: "g_atom rl e ts \<Longrightarrow> g_unary rl e ts"
| unary_not: "g_unary rl e ts \<Longrightarrow> g_unary rl (WNot e) (TNot # ts)"
| atom_group: "g_or rl e ts \<Longrightarrow> g_atom rl e (TOpen # ts @ [TClose])"
| atom_true: "g_atom rl (WLiteral True) [TWord (chars ''true'')]"
| atom_false: "g_atom rl (WLiteral False) [TWord (chars ''false'')]"
| atom_key: "is_key_word k \<Longrightarrow> g_atom rl (WKey k) [TWord k]"
| atom_eq: "is_key_word k \<Longrightarrow> value_token t = Some v \<Longrightarrow> g_atom rl (WEquals k v True) [TWord k, TEq, t]"
| atom_neq: "is_key_word k \<Longrightarrow> value_token t = Some v \<Longrightarrow> g_atom rl (WEquals k v False) [TWord k, TNotEq, t]"
| atom_match: "is_key_word k \<Longrightarrow> compile_regex rl p f = Inr re \<Longrightarrow>
    g_atom rl (WMatches k p f) [TWord k, TMatch, TRegex p f]"

lemma value_of_token: "value_of_token t = Inr v \<longleftrightarrow> (\<exists>u. t = Some u \<and> value_token u = Some v)"
proof (cases t)
  case (Some u)
  then show ?thesis by (cases u) (auto simp: value_of_token_def)
qed (simp add: value_of_token_def)

lemma comparison_sound:
  assumes "comparison rl k ts = Inr (e, r)" "is_key_word k"
  shows "\<exists>us. ts = us @ r \<and> g_atom rl e (TWord k # us)"
proof -
  consider v u where "ts = TEq # u # r" "value_token u = Some v" "e = WEquals k v True"
    | v u where "ts = TNotEq # u # r" "value_token u = Some v" "e = WEquals k v False"
    | p f re where "ts = TMatch # TRegex p f # r" "compile_regex rl p f = Inr re" "e = WMatches k p f"
    | "ts = r" "e = WKey k"
    using assms(1)
    by (fastforce simp: comparison_def bind_res_Inr value_of_token head_Some
        split: list.splits token.splits option.splits)
  then show ?thesis
  proof cases
    case 1
    then show ?thesis using atom_eq [OF assms(2)] by (auto intro: exI [of _ "[TEq, u]"])
  next
    case 2
    then show ?thesis using atom_neq [OF assms(2)] by (auto intro: exI [of _ "[TNotEq, u]"])
  next
    case 3
    then show ?thesis using atom_match [OF assms(2)] by (auto intro: exI [of _ "[TMatch, TRegex p f]"])
  next
    case 4
    then show ?thesis using atom_key [OF assms(2)] by auto
  qed
qed

lemma head_Cons [simp]: "head (t # ts) = Some t"
  by (simp add: head_def)

lemma p_primary_group:
  "p_primary rl (TOpen # us) =
     (case p_or rl us of
        Inl e \<Rightarrow> Inl e
      | Inr (inner, r) \<Rightarrow>
          if head r = Some TClose then Inr (inner, tl r) else Inl (ExpectedClose (head r)))"
  by (subst p_primary.simps) simp

lemma parser_sound:
  "p_or rl ts = Inr (e, r) \<Longrightarrow> \<exists>us. ts = us @ r \<and> g_or rl e us"
  "p_or_loop rl x ts = Inr (e, r) \<Longrightarrow> g_or rl x pre \<Longrightarrow> \<exists>us. ts = us @ r \<and> g_or rl e (pre @ us)"
  "p_and rl ts = Inr (e, r) \<Longrightarrow> \<exists>us. ts = us @ r \<and> g_and rl e us"
  "p_and_loop rl x ts = Inr (e, r) \<Longrightarrow> g_and rl x pre \<Longrightarrow> \<exists>us. ts = us @ r \<and> g_and rl e (pre @ us)"
  "p_unary rl ts = Inr (e, r) \<Longrightarrow> \<exists>us. ts = us @ r \<and> g_unary rl e us"
  "p_primary rl ts = Inr (e, r) \<Longrightarrow> \<exists>us. ts = us @ r \<and> g_atom rl e us"
proof (induction rl ts and rl x ts and rl ts and rl x ts and rl ts and rl ts
    arbitrary: e r and e r pre and e r and e r pre and e r and e r
    rule: p_or_p_or_loop_p_and_p_and_loop_p_unary_p_primary.induct)
  case (1 rl ts)
  from 1(3) obtain x s where "p_and rl ts = Inr (x, s)" "p_or_loop rl x s = Inr (e, r)"
    by (auto simp: p_or.simps split: sum.splits)
  moreover from 1(1) [OF this(1)] obtain us where "ts = us @ s" "g_and rl x us" by blast
  ultimately show ?case using 1(2) or_one by fastforce
next
  case (2 rl left ts)
  show ?case
  proof (cases "head ts = Some TOr")
    case True
    then obtain us where ts: "ts = TOr # us" by (auto simp: head_Some)
    from 2(3) True obtain x s where a: "p_and rl us = Inr (x, s)" "p_or_loop rl (WOr left x) s = Inr (e, r)"
      by (subst (asm) p_or_loop.simps) (auto simp: ts split: sum.splits)
    from 2(1) [OF True] a(1) obtain vs where v: "us = vs @ s" "g_and rl x vs" by (auto simp: ts)
    from or_more [OF 2(4) v(2)] have "g_or rl (WOr left x) (pre @ TOr # vs)" .
    from 2(2) [OF True _ _ a(2) this] a(1) obtain ws where
      "s = ws @ r" "g_or rl e ((pre @ TOr # vs) @ ws)" by (auto simp: ts)
    with v ts show ?thesis by (intro exI [of _ "TOr # vs @ ws"]) simp
  next
    case False
    with 2 show ?thesis by (subst (asm) p_or_loop.simps) auto
  qed
next
  case (3 rl ts)
  from 3(3) obtain x s where "p_unary rl ts = Inr (x, s)" "p_and_loop rl x s = Inr (e, r)"
    by (auto simp: p_and.simps split: sum.splits)
  moreover from 3(1) [OF this(1)] obtain us where "ts = us @ s" "g_unary rl x us" by blast
  ultimately show ?case using 3(2) and_one by fastforce
next
  case (4 rl left ts)
  show ?case
  proof (cases "head ts = Some TAnd")
    case True
    then obtain us where ts: "ts = TAnd # us" by (auto simp: head_Some)
    from 4(3) True obtain x s where a: "p_unary rl us = Inr (x, s)" "p_and_loop rl (WAnd left x) s = Inr (e, r)"
      by (subst (asm) p_and_loop.simps) (auto simp: ts split: sum.splits)
    from 4(1) [OF True] a(1) obtain vs where v: "us = vs @ s" "g_unary rl x vs" by (auto simp: ts)
    from and_more [OF 4(4) v(2)] have "g_and rl (WAnd left x) (pre @ TAnd # vs)" .
    from 4(2) [OF True _ _ a(2) this] a(1) obtain ws where
      "s = ws @ r" "g_and rl e ((pre @ TAnd # vs) @ ws)" by (auto simp: ts)
    with v ts show ?thesis by (intro exI [of _ "TAnd # vs @ ws"]) simp
  next
    case False
    with 4 show ?thesis by (subst (asm) p_and_loop.simps) auto
  qed
next
  case (5 rl ts)
  show ?case
  proof (cases "head ts = Some TNot")
    case True
    then obtain us where ts: "ts = TNot # us" by (auto simp: head_Some)
    from 5(3) True obtain x where a: "p_unary rl us = Inr (x, r)" "e = WNot x"
      by (subst (asm) p_unary.simps) (auto simp: ts split: sum.splits)
    from 5(1) [OF True] a(1) obtain vs where "us = vs @ r" "g_unary rl x vs" by (auto simp: ts)
    with unary_not show ?thesis by (fastforce simp: ts a)
  next
    case False
    with 5(2) [of e r] 5(3) show ?thesis by (subst (asm) p_unary.simps) (auto intro: unary_one)
  qed
next
  case (6 rl ts)
  from 6(2) obtain t us where ts: "ts = t # us" and t: "t = TOpen \<or> (\<exists>w. t = TWord w)"
    by (cases ts) (auto simp: p_primary.simps head_def split: token.splits)
  from t show ?case
  proof (elim disjE exE)
    assume open_token: "t = TOpen"
    with 6(2) ts obtain x where a: "p_or rl us = Inr (x, TClose # r)" "e = x"
      by (auto simp: p_primary_group head_Some split: sum.splits if_splits)
    from 6(1) [of TOpen] a(1) obtain vs where "us = vs @ TClose # r" "g_or rl x vs"
      by (auto simp: ts open_token head_def)
    with atom_group show ?thesis by (fastforce simp: ts a open_token)
  next
    fix w
    assume w: "t = TWord w"
    consider "w = chars ''true''" "e = WLiteral True" "r = us"
      | "w = chars ''false''" "e = WLiteral False" "r = us"
      | "is_key_word w" "comparison rl w us = Inr (e, r)"
      using 6(2) by (subst (asm) p_primary.simps)
        (auto simp: ts w head_def is_key_word_def split: if_splits)
    then show ?thesis
    proof cases
      case 3
      from comparison_sound [OF 3(2,1)] show ?thesis by (auto simp: ts w)
    qed (auto simp: ts w intro: atom_true atom_false)
  qed
qed

text \<open>What may follow an atom without being taken for its operator.\<close>

definition closed_by :: "token list \<Rightarrow> bool" where
  "closed_by r \<longleftrightarrow>
     (case r of
        [] \<Rightarrow> True
      | t # _ \<Rightarrow> t \<noteq> TEq \<and> t \<noteq> TNotEq \<and> t \<noteq> TMatch \<and> (\<forall>op. t \<noteq> TUnsupported op))"

lemma closed_key: "closed_by r \<Longrightarrow> comparison rl k r = Inr (WKey k, r)"
  by (auto simp: closed_by_def comparison_def split: list.splits token.splits)

lemma loops_stop:
  "head r \<noteq> Some TOr \<Longrightarrow> p_or_loop rl e r = Inr (e, r)"
  "head r \<noteq> Some TAnd \<Longrightarrow> p_and_loop rl e r = Inr (e, r)"
  by (simp_all add: p_or_loop.simps p_and_loop.simps)

lemma parser_complete:
  "g_or rl e us \<Longrightarrow> (\<And>r. closed_by r \<Longrightarrow> head r \<noteq> Some TAnd \<Longrightarrow> p_or rl (us @ r) = p_or_loop rl e r)"
  "g_and rl e us \<Longrightarrow> (\<And>r. closed_by r \<Longrightarrow> p_and rl (us @ r) = p_and_loop rl e r)"
  "g_unary rl e us \<Longrightarrow> (\<And>r. closed_by r \<Longrightarrow> p_unary rl (us @ r) = Inr (e, r))"
  "g_atom rl e us \<Longrightarrow> (\<And>r. closed_by r \<Longrightarrow> p_primary rl (us @ r) = Inr (e, r) \<and> us \<noteq> [] \<and> hd us \<noteq> TNot)"
proof (induction rule: g_or_g_and_g_unary_g_atom.inducts)
  case (or_one e ts r)
  then show ?case by (simp add: p_or.simps loops_stop)
next
  case (or_more a ts b us r)
  have "p_or rl (ts @ TOr # us @ r) = p_or_loop rl a (TOr # us @ r)"
    using or_more(2) [of "TOr # us @ r"] by (simp add: closed_by_def head_def)
  also have "\<dots> = p_or_loop rl (WOr a b) r"
    using or_more by (subst p_or_loop.simps) (simp add: head_def [of "TOr # us @ r"] loops_stop)
  finally show ?case by simp
next
  case (and_one e ts r)
  then show ?case by (simp add: p_and.simps)
next
  case (and_more a ts b us r)
  have "p_and rl (ts @ TAnd # us @ r) = p_and_loop rl a (TAnd # us @ r)"
    using and_more(2) [of "TAnd # us @ r"] by (simp add: closed_by_def)
  also have "\<dots> = p_and_loop rl (WAnd a b) r"
    using and_more by (subst p_and_loop.simps) (simp add: head_def)
  finally show ?case by simp
next
  case (unary_one e ts r)
  then have "ts \<noteq> []" "hd ts \<noteq> TNot" "p_primary rl (ts @ r) = Inr (e, r)" by simp_all
  then show ?case by (subst p_unary.simps) (auto simp: head_def neq_Nil_conv)
next
  case (unary_not e ts r)
  then show ?case by (subst p_unary.simps) (simp add: head_def)
next
  case (atom_group e ts r)
  then have "p_or rl (ts @ TClose # r) = Inr (e, TClose # r)"
    by (simp add: closed_by_def head_def loops_stop)
  then show ?case by (simp add: p_primary.simps head_def)
next
  case (atom_key k r)
  then show ?case by (simp add: p_primary.simps head_def is_key_word_def closed_key)
next
  case (atom_eq k t v r)
  then have "value_of_token (Some t) = Inr v" by (simp add: value_of_token)
  with atom_eq show ?case by (simp add: p_primary.simps head_def is_key_word_def comparison_def)
next
  case (atom_neq k t v r)
  then have "value_of_token (Some t) = Inr v" by (simp add: value_of_token)
  with atom_neq show ?case by (simp add: p_primary.simps head_def is_key_word_def comparison_def)
qed (simp_all add: p_primary.simps head_def is_key_word_def comparison_def, simp_all add: chars_def)

lemma parse_tokens_grammar: "parse_tokens rl ts = Inr e \<longleftrightarrow> g_or rl e ts"
proof
  assume "parse_tokens rl ts = Inr e"
  then obtain x r where "p_or rl ts = Inr (x, r)"
    and "(case head r of None \<Rightarrow> Inr x | Some t \<Rightarrow> Inl (UnexpectedToken t)) = Inr e"
    by (auto simp: parse_tokens_def bind_res_Inr)
  then have "p_or rl ts = Inr (e, [])" by (cases r) (simp_all add: head_def)
  from parser_sound(1) [OF this] show "g_or rl e ts" by simp
next
  assume "g_or rl e ts"
  from parser_complete(1) [OF this, of "[]"] have "p_or rl ts = Inr (e, [])"
    by (simp add: closed_by_def head_def loops_stop)
  then show "parse_tokens rl ts = Inr e" by (simp add: parse_tokens_def head_def)
qed

lemma grammar_unambiguous: "g_or rl e ts \<Longrightarrow> g_or rl e' ts \<Longrightarrow> e = e'"
  using parse_tokens_grammar by (metis Inr_inject)

section \<open>Kinds\<close>

text \<open>What the window publishes: catalogued keys, each with a value of its kind.\<close>

fun kind_of :: "context_value \<Rightarrow> key_kind" where
  "kind_of (CtxBool b) = KeyBool"
| "kind_of (CtxStr s) = KeyStr"

definition window_context :: "when_context \<Rightarrow> bool" where
  "window_context ctx \<longleftrightarrow>
     (\<forall>k v. ctx k = Some v \<longrightarrow> map_option snd (context_key k) = Some (kind_of v))"

text \<open>
  Evaluation that refuses where the code falls back to false: a value of one kind compared with
  one of the other, a pattern matched against a boolean, a pattern that does not compile.
\<close>

fun eval_strict :: "'r regex_lib \<Rightarrow> when_expr \<Rightarrow> when_context \<Rightarrow> bool option" where
  "eval_strict rl (WLiteral b) ctx = Some b"
| "eval_strict rl (WKey key) ctx =
     (case ctx key of
        Some (CtxBool b) \<Rightarrow> Some b | Some (CtxStr s) \<Rightarrow> Some (s \<noteq> []) | None \<Rightarrow> Some False)"
| "eval_strict rl (WNot e) ctx = map_option Not (eval_strict rl e ctx)"
| "eval_strict rl (WAnd a b) ctx =
     (case (eval_strict rl a ctx, eval_strict rl b ctx) of
        (Some x, Some y) \<Rightarrow> Some (x \<and> y) | _ \<Rightarrow> None)"
| "eval_strict rl (WOr a b) ctx =
     (case (eval_strict rl a ctx, eval_strict rl b ctx) of
        (Some x, Some y) \<Rightarrow> Some (x \<or> y) | _ \<Rightarrow> None)"
| "eval_strict rl (WEquals key v eq) ctx =
     (case (ctx key, v) of
        (Some (CtxBool b), LitBool l) \<Rightarrow> Some ((b = l) = eq)
      | (Some (CtxStr s), LitStr l) \<Rightarrow> Some ((s = l) = eq)
      | (None, LitBool l) \<Rightarrow> Some ((\<not> l) = eq)
      | (None, LitStr l) \<Rightarrow> Some (\<not> eq)
      | _ \<Rightarrow> None)"
| "eval_strict rl (WMatches key pat flags) ctx =
     (case (ctx key, compile_regex rl pat flags) of
        (Some (CtxStr s), Inr re) \<Rightarrow> Some (rx_is_match rl re s)
      | (None, Inr re) \<Rightarrow> Some False
      | _ \<Rightarrow> None)"

text \<open>Every pattern of an expression compiles.\<close>

fun patterns_ok :: "'r regex_lib \<Rightarrow> when_expr \<Rightarrow> bool" where
  "patterns_ok rl (WNot e) \<longleftrightarrow> patterns_ok rl e"
| "patterns_ok rl (WAnd a b) \<longleftrightarrow> patterns_ok rl a \<and> patterns_ok rl b"
| "patterns_ok rl (WOr a b) \<longleftrightarrow> patterns_ok rl a \<and> patterns_ok rl b"
| "patterns_ok rl (WMatches k p f) \<longleftrightarrow> (\<exists>re. compile_regex rl p f = Inr re)"
| "patterns_ok rl _ \<longleftrightarrow> True"

lemma grammar_patterns_ok:
  "g_or rl e ts \<Longrightarrow> patterns_ok rl e"
  "g_and rl e ts \<Longrightarrow> patterns_ok rl e"
  "g_unary rl e ts \<Longrightarrow> patterns_ok rl e"
  "g_atom rl e ts \<Longrightarrow> patterns_ok rl e"
  by (induction rule: g_or_g_and_g_unary_g_atom.inducts) auto

lemma known_key_kind:
  assumes "known_key k = Inr kind" "window_context ctx" "ctx k = Some v"
  shows "kind_of v = kind"
proof -
  from assms(2,3) have "map_option snd (context_key k) = Some (kind_of v)"
    unfolding window_context_def by blast
  with assms(1) show ?thesis unfolding known_key_def by (simp add: ok_or_iff)
qed

lemma strict_is_eval:
  "check_keys e = Inr () \<Longrightarrow> patterns_ok rl e \<Longrightarrow> window_context ctx \<Longrightarrow>
     eval_strict rl e ctx = Some (when_eval rl e ctx)"
proof (induction e)
  case (WMatches k p f)
  from WMatches(1) obtain kind where "known_key k = Inr kind"
    "(case kind of KeyStr \<Rightarrow> Inr () | KeyBool \<Rightarrow> Inl (BoolMatched k)) = Inr ()"
    by (auto simp: bind_res_Inr)
  then have known: "known_key k = Inr KeyStr" by (cases kind) simp_all
  from WMatches(2) obtain re where "compile_regex rl p f = Inr re" by auto
  with known_key_kind [OF known WMatches(3)] show ?case
    by (cases "ctx k") (fastforce split: context_value.splits)+
next
  case (WEquals k v eq)
  from WEquals(1) obtain kind where known: "known_key k = Inr kind"
    and v: "case v of LitBool _ \<Rightarrow> kind = KeyBool | LitStr _ \<Rightarrow> kind = KeyStr"
    by (cases v; cases "known_key k"; cases "projr (known_key k)") (auto simp: bind_res_Inr)
  with known_key_kind [OF known WEquals(3)] show ?case
    by (cases "ctx k"; cases v; cases "the (ctx k)") fastforce+
qed (auto simp: bind_res_Inr split: option.splits context_value.splits)

lemma absent_is_false:
  "when_eval rl e (ctx(k := None)) = when_eval rl e (ctx(k \<mapsto> CtxBool False))"
  by (induction e) (auto split: option.splits context_value.splits literal.splits)

section \<open>Properties\<close>

text \<open>
  C23. A checked \<open>when\<close> is well typed: against whatever the window publishes of its catalog it
  never compares a value with one of another kind, never matches a pattern against a boolean and
  never meets a pattern that does not compile.
\<close>

theorem checked_when_is_well_typed:
  assumes "when_check alnum rl src = Inr e" and "window_context ctx"
  shows "eval_strict rl e ctx = Some (when_eval rl e ctx)"
proof -
  from assms(1) have "when_parse alnum rl src = Inr e" "check_keys e = Inr ()"
    by (auto simp: when_check_def bind_res_Inr)
  then obtain ts where "g_or rl e ts"
    by (auto simp: when_parse_def bind_res_Inr parse_tokens_grammar)
  with \<open>check_keys e = Inr ()\<close> assms(2) show ?thesis
    by (intro strict_is_eval grammar_patterns_ok)
qed

definition demo_alnum :: "nat \<Rightarrow> bool" where
  "demo_alnum c \<longleftrightarrow> is_ascii_letter c"

definition demo_regex :: "nat regex_lib" where
  "demo_regex = \<lparr>rx_new = (\<lambda>s. Some (length s)), rx_is_match = (\<lambda>r s. length s = r)\<rparr>"

definition demo_expr :: when_expr where
  "demo_expr =
     WOr (WNot (WKey (chars ''fileShown'')))
       (WAnd (WEquals (chars ''pageKind'') (LitStr (chars ''a/b'')) True) (WKey (chars ''pageDirty'')))"

lemma demo_tokens:
  "tokens demo_alnum (chars ''!fileShown || pageKind==a/b && pageDirty'') =
     Inr [TNot, TWord (chars ''fileShown''), TOr, TWord (chars ''pageKind''), TEq,
          TWord (chars ''a/b''), TAnd, TWord (chars ''pageDirty'')]"
  by (simp add: tokens.simps lex_turn_def lex_word_def skip_one_def is_word_char_def demo_alnum_def
      is_ascii_letter_def chars_def)

lemma demo_parses:
  "when_parse demo_alnum demo_regex (chars ''!fileShown || pageKind==a/b && pageDirty'') = Inr demo_expr"
  by (simp add: when_parse_def demo_tokens demo_expr_def parse_tokens_def parser_unfold
      comparison_def value_of_token_def head_def) (simp add: chars_def)

lemma demo_checks:
  "when_check demo_alnum demo_regex (chars ''!fileShown || pageKind==a/b && pageDirty'') = Inr demo_expr"
  unfolding when_check_def demo_parses
  by (simp add: demo_expr_def known_key_def context_key_def CONTEXT_KEYS_def chars_def)

definition demo_context :: when_context where
  "demo_context = [chars ''fileShown'' \<mapsto> CtxBool True, chars ''pageKind'' \<mapsto> CtxStr (chars ''a/b'')]"

lemma checked_when_is_well_typed_witness:
  "eval_strict demo_regex demo_expr demo_context = Some (when_eval demo_regex demo_expr demo_context)"
proof (rule checked_when_is_well_typed [OF demo_checks])
  show "window_context demo_context"
    by (simp add: window_context_def demo_context_def context_key_def CONTEXT_KEYS_def chars_def)
qed

text \<open>
  C29. The parser accepts exactly the sentences of the grammar, with the tree the grammar gives
  them: \<open>!\<close> before \<open>&&\<close> before \<open>||\<close>, both to the left, parentheses and comparisons as atoms.
\<close>

theorem parse_accepts_the_grammar:
  "when_parse alnum rl src = Inr e \<longleftrightarrow> (\<exists>ts. tokens alnum src = Inr ts \<and> g_or rl e ts)"
  by (auto simp: when_parse_def bind_res_Inr parse_tokens_grammar)

text \<open>
  A key the window does not hold reads as \<open>false\<close> everywhere: alone, compared with a value
  of either kind, and matched. So a missing key is equal to \<open>false\<close>.
\<close>

theorem absent_key_reads_false:
  "when_eval rl e (ctx(k := None)) = when_eval rl e (ctx(k \<mapsto> CtxBool False))"
  by (rule absent_is_false)

end
