(* ===== verification/Store_Json.thy ===== *)
theory Store_Json
  imports Prelude "HOL-Library.Multiset"
begin

text \<open>
  The canonical JSON of \<open>oxplow-db/src/extension_job_store.rs\<close>: a bounded check of depth and size,
  then the text with every object's keys sorted. Serde's own output of a value and its parser are
  parameters (\<open>value_lib\<close>); an object is its entries in the order they were inserted. The lemmas:
  the writers are the plain canonical text cut off at the limit, and that text does not depend on
  the order of an object's keys.
\<close>

section \<open>Values\<close>

text \<open>A number is kept as the text serde prints for it.\<close>

datatype json =
  JNull
| JBool bool
| JNum string
| JStr string
| JArr "json list"
| JObj "(string \<times> json) list"

text \<open>
  \<open>serde_json::to_writer\<close> of a value as the pieces it writes, and \<open>serde_json::from_str\<close>.
\<close>

record value_lib =
  vl_pieces :: "json \<Rightarrow> string list"
  vl_parse :: "string \<Rightarrow> json option"

definition vl_text :: "value_lib \<Rightarrow> json \<Rightarrow> string" where
  "vl_text vl v = concat (vl_pieces vl v)"

definition MAX_STORED_BYTES :: nat where "MAX_STORED_BYTES = 1048576"
definition MAX_JSON_DEPTH :: nat where "MAX_JSON_DEPTH = 64"

section \<open>Limits\<close>

text \<open>
  A length plus two saturates at the top of \<open>usize\<close>, which no length in memory reaches.
\<close>

definition add_bytes :: "nat \<Rightarrow> nat \<Rightarrow> nat option" where
  "add_bytes n k =
     Option.bind (checked_add_u64 n k) (\<lambda>b. if b \<le> MAX_STORED_BYTES then Some b else None)"

definition lower_bytes_of :: "json \<Rightarrow> nat" where
  "lower_bytes_of v = (case v of JStr t \<Rightarrow> length t + 2 | _ \<Rightarrow> 1)"

fun validate_json_depth :: "json \<Rightarrow> nat \<Rightarrow> nat \<Rightarrow> nat option"
  and validate_items :: "json list \<Rightarrow> nat \<Rightarrow> nat \<Rightarrow> nat option"
  and validate_entries :: "(string \<times> json) list \<Rightarrow> nat \<Rightarrow> nat \<Rightarrow> nat option" where
  "validate_json_depth v depth n =
     (if depth > MAX_JSON_DEPTH then None
      else
        Option.bind (add_bytes n (lower_bytes_of v)) (\<lambda>n.
          case v of
            JArr items \<Rightarrow> validate_items items (depth + 1) n
          | JObj entries \<Rightarrow> validate_entries entries (depth + 1) n
          | _ \<Rightarrow> Some n))"
| "validate_items [] depth n = Some n"
| "validate_items (v # vs) depth n =
     Option.bind (validate_json_depth v depth n) (\<lambda>n. validate_items vs depth n)"
| "validate_entries [] depth n = Some n"
| "validate_entries ((key, v) # es) depth n =
     Option.bind (add_bytes n (length key + 2)) (\<lambda>n.
     Option.bind (validate_json_depth v depth n) (\<lambda>n. validate_entries es depth n))"

declare validate_json_depth.simps [simp del]

text \<open>\<open>CountWriter\<close> and \<open>BoundedWriter\<close>: each refuses the write that would pass the limit.\<close>

fun count_writes :: "nat \<Rightarrow> string list \<Rightarrow> nat option" where
  "count_writes n [] = Some n"
| "count_writes n (p # ps) = Option.bind (add_bytes n (length p)) (\<lambda>n. count_writes n ps)"

definition bounded_write :: "nat \<Rightarrow> string \<Rightarrow> string \<Rightarrow> string option" where
  "bounded_write limit buffer out =
     (if length out + length buffer > limit then None else Some (out @ buffer))"

fun bounded_writes :: "nat \<Rightarrow> string list \<Rightarrow> string \<Rightarrow> string option" where
  "bounded_writes limit [] out = Some out"
| "bounded_writes limit (p # ps) out =
     Option.bind (bounded_write limit p out) (bounded_writes limit ps)"

section \<open>The canonical writer\<close>

lemma size_list_mset: "mset xs = mset ys \<Longrightarrow> size_list f xs = size_list f ys"
proof -
  have sum: "size_list f zs = sum_mset (image_mset f (mset zs)) + size (mset zs)" for zs
    by (induction zs) simp_all
  show "mset xs = mset ys \<Longrightarrow> ?thesis" by (simp add: sum)
qed

lemma size_list_sort [simp, termination_simp]: "size_list f (sort_key k xs) = size_list f xs"
  by (rule size_list_mset) simp

function write_canonical :: "value_lib \<Rightarrow> nat \<Rightarrow> json \<Rightarrow> string \<Rightarrow> string option"
  and write_items :: "value_lib \<Rightarrow> nat \<Rightarrow> bool \<Rightarrow> json list \<Rightarrow> string \<Rightarrow> string option"
  and write_entries :: "value_lib \<Rightarrow> nat \<Rightarrow> bool \<Rightarrow> (string \<times> json) list \<Rightarrow> string \<Rightarrow> string option"
  where
  "write_canonical vl limit (JObj entries) out =
     Option.bind (bounded_write limit ''{'' out) (\<lambda>out.
     Option.bind (write_entries vl limit False (sort_key fst entries) out) (\<lambda>out.
       bounded_write limit ''}'' out))"
| "write_canonical vl limit (JArr items) out =
     Option.bind (bounded_write limit ''['' out) (\<lambda>out.
     Option.bind (write_items vl limit False items out) (\<lambda>out.
       bounded_write limit '']'' out))"
| "write_canonical vl limit JNull out = bounded_writes limit (vl_pieces vl JNull) out"
| "write_canonical vl limit (JBool b) out = bounded_writes limit (vl_pieces vl (JBool b)) out"
| "write_canonical vl limit (JNum n) out = bounded_writes limit (vl_pieces vl (JNum n)) out"
| "write_canonical vl limit (JStr t) out = bounded_writes limit (vl_pieces vl (JStr t)) out"
| "write_items vl limit comma [] out = Some out"
| "write_items vl limit comma (v # vs) out =
     Option.bind (if comma then bounded_write limit '','' out else Some out) (\<lambda>out.
     Option.bind (write_canonical vl limit v out) (\<lambda>out.
       write_items vl limit True vs out))"
| "write_entries vl limit comma [] out = Some out"
| "write_entries vl limit comma ((key, v) # es) out =
     Option.bind (if comma then bounded_write limit '','' out else Some out) (\<lambda>out.
     Option.bind (bounded_writes limit (vl_pieces vl (JStr key)) out) (\<lambda>out.
     Option.bind (bounded_write limit '':'' out) (\<lambda>out.
     Option.bind (write_canonical vl limit v out) (\<lambda>out.
       write_entries vl limit True es out))))"
  by pat_completeness auto

termination write_canonical
  by (relation "measure (\<lambda>x. case x of
        Inl (_, _, v, _) \<Rightarrow> size v
      | Inr (Inl (_, _, _, vs, _)) \<Rightarrow> size_list size vs
      | Inr (Inr (_, _, _, es, _)) \<Rightarrow> size_list (size_prod (\<lambda>_. 0) size) es)")
    (auto simp: size_list_sort)

definition canonical_json :: "value_lib \<Rightarrow> json \<Rightarrow> string option" where
  "canonical_json vl v =
     Option.bind (validate_json_depth v 0 0) (\<lambda>_.
     Option.bind (count_writes 0 (vl_pieces vl v)) (\<lambda>_.
       write_canonical vl MAX_STORED_BYTES v []))"

definition parse_bounded_json :: "value_lib \<Rightarrow> string \<Rightarrow> json option" where
  "parse_bounded_json vl text =
     (if length text > MAX_STORED_BYTES then None
      else
        Option.bind (vl_parse vl text) (\<lambda>v.
        Option.bind (canonical_json vl v) (\<lambda>canonical.
          if canonical \<noteq> text then None else Some v)))"

section \<open>The canonical text\<close>

text \<open>The text without a limit, keys sorted.\<close>

function canon :: "value_lib \<Rightarrow> json \<Rightarrow> string"
  and canon_items :: "value_lib \<Rightarrow> bool \<Rightarrow> json list \<Rightarrow> string"
  and canon_entries :: "value_lib \<Rightarrow> bool \<Rightarrow> (string \<times> json) list \<Rightarrow> string" where
  "canon vl (JObj entries) = ''{'' @ canon_entries vl False (sort_key fst entries) @ ''}''"
| "canon vl (JArr items) = ''['' @ canon_items vl False items @ '']''"
| "canon vl JNull = vl_text vl JNull"
| "canon vl (JBool b) = vl_text vl (JBool b)"
| "canon vl (JNum n) = vl_text vl (JNum n)"
| "canon vl (JStr t) = vl_text vl (JStr t)"
| "canon_items vl comma [] = []"
| "canon_items vl comma (v # vs) =
     (if comma then '','' else []) @ canon vl v @ canon_items vl True vs"
| "canon_entries vl comma [] = []"
| "canon_entries vl comma ((key, v) # es) =
     (if comma then '','' else []) @ vl_text vl (JStr key) @ '':'' @ canon vl v
     @ canon_entries vl True es"
  by pat_completeness auto

termination canon
  by (relation "measure (\<lambda>x. case x of
        Inl (_, v) \<Rightarrow> size v
      | Inr (Inl (_, _, vs)) \<Rightarrow> size_list size vs
      | Inr (Inr (_, _, es)) \<Rightarrow> size_list (size_prod (\<lambda>_. 0) size) es)")
    (auto simp: size_list_sort)

text \<open>Writing appends the text, or fails when the result passes the limit.\<close>

definition appends :: "nat \<Rightarrow> string \<Rightarrow> string \<Rightarrow> string option" where
  "appends limit t out = (if length out + length t \<le> limit then Some (out @ t) else None)"

lemma appends_bind [simp]:
  "Option.bind (appends limit a out) (appends limit b) = appends limit (a @ b) out"
  by (simp add: appends_def)

lemma bounded_write_appends: "bounded_write limit = appends limit"
  by (intro ext) (simp add: bounded_write_def appends_def)

lemma bounded_writes_appends:
  "length out \<le> limit \<Longrightarrow> bounded_writes limit ps out = appends limit (concat ps) out"
proof (induction ps arbitrary: out)
  case (Cons p ps)
  then show ?case by (cases "length out + length p \<le> limit")
      (simp_all add: bounded_write_def appends_def)
qed (simp add: appends_def)

lemma appends_then:
  assumes "\<And>out. length out \<le> limit \<Longrightarrow> f out = appends limit b out"
  shows "Option.bind (appends limit a out) f = appends limit (a @ b) out"
  using assms [of "out @ a"] by (simp add: appends_def)

lemma appends_Nil: "length out \<le> limit \<Longrightarrow> appends limit [] out = Some out"
  by (simp add: appends_def)

lemma writers_append:
  "length out \<le> limit \<Longrightarrow> write_canonical vl limit v out = appends limit (canon vl v) out"
  "length out \<le> limit \<Longrightarrow> write_items vl limit comma vs out = appends limit (canon_items vl comma vs) out"
  "length out \<le> limit \<Longrightarrow> write_entries vl limit comma es out = appends limit (canon_entries vl comma es) out"
proof (induction vl v and vl comma vs and vl comma es arbitrary: out and out and out
    rule: canon_canon_items_canon_entries.induct)
  case (1 vl entries)
  then show ?case
    using appends_then [of limit "write_entries vl limit False (sort_key fst entries)"]
    by (simp add: bounded_write_appends) (subst appends_then, auto)
qed (auto simp: bounded_write_appends bounded_writes_appends vl_text_def appends_then appends_Nil)

lemma count_writes_Some:
  "count_writes n ps = Some m \<Longrightarrow> m = n + length (concat ps) \<and> (n \<le> MAX_STORED_BYTES \<longrightarrow> m \<le> MAX_STORED_BYTES)"
proof (induction ps arbitrary: n)
  case (Cons p ps)
  then obtain k where k: "add_bytes n (length p) = Some k" "count_writes k ps = Some m"
    by (auto simp: bind_eq_Some_conv)
  then have "k = n + length p" "k \<le> MAX_STORED_BYTES"
    by (auto simp: add_bytes_def bind_eq_Some_conv checked_add_u64_Some split: if_splits)
  with Cons.IH [OF k(2)] show ?case by simp
qed simp

lemma canonical_json_Some:
  "canonical_json vl v = Some t \<longleftrightarrow>
     validate_json_depth v 0 0 \<noteq> None \<and> count_writes 0 (vl_pieces vl v) \<noteq> None
     \<and> length (canon vl v) \<le> MAX_STORED_BYTES \<and> t = canon vl v"
  by (auto simp: canonical_json_def bind_eq_Some_conv writers_append appends_def split: if_splits)

lemma canonical_json_length: "canonical_json vl v = Some t \<Longrightarrow> length t \<le> MAX_STORED_BYTES"
  by (simp add: canonical_json_Some)

lemma parse_bounded_Some:
  "parse_bounded_json vl t = Some v \<longleftrightarrow>
     length t \<le> MAX_STORED_BYTES \<and> vl_parse vl t = Some v \<and> canonical_json vl v = Some t"
  by (auto simp: parse_bounded_json_def bind_eq_Some_conv split: if_splits)

text \<open>
  A value reads back when parsing its canonical text gives a value with that text. Serde's own
  parser does not promise it for every float.
\<close>

definition reads_back :: "value_lib \<Rightarrow> json \<Rightarrow> bool" where
  "reads_back vl v \<longleftrightarrow>
     (\<exists>t w. canonical_json vl v = Some t \<and> vl_parse vl t = Some w \<and> canonical_json vl w = Some t)"

lemma reads_back_parse:
  assumes "reads_back vl v" "canonical_json vl v = Some t"
  obtains w where "parse_bounded_json vl t = Some w" "canonical_json vl w = Some t"
  using assms canonical_json_length by (auto simp: reads_back_def parse_bounded_Some)

lemma parsed_reads_back: "parse_bounded_json vl t = Some v \<Longrightarrow> reads_back vl v"
  by (auto simp: reads_back_def parse_bounded_Some)

text \<open>Only the order of an object's entries is lost in its text.\<close>

lemma sort_key_cong_mset:
  fixes k :: "'a \<Rightarrow> 'b::linorder"
  assumes "mset xs = mset ys" "distinct (map k xs)"
  shows "sort_key k xs = sort_key k ys"
proof (rule properties_for_sort_key)
  show "mset (sort_key k ys) = mset xs" using assms(1) by simp
  fix e assume "e \<in> set (sort_key k ys)"
  have dy: "distinct (map k ys)"
    using assms by (metis mset_map mset_eq_imp_distinct_iff)
  have "length [x \<leftarrow> zs. k e = k x] \<le> 1" if "distinct (map k zs)" for zs
    using that by (induction zs) (auto simp: filter_empty_conv image_iff)
  from this [OF assms(2)] this [OF dy]
  have "[x \<leftarrow> xs. k e = k x] = [x \<leftarrow> ys. k e = k x]"
    using arg_cong [OF assms(1), of "filter_mset (\<lambda>x. k e = k x)"]
    by (cases "[x \<leftarrow> xs. k e = k x]"; cases "[x \<leftarrow> ys. k e = k x]")
      (auto simp flip: mset_filter)
  then show "[x \<leftarrow> sort_key k ys. k e = k x] = [x \<leftarrow> xs. k e = k x]"
    using sort_key_stable [of k "k e" ys] by (simp add: eq_commute [of "k e"])
qed simp

lemma canon_key_order:
  assumes "mset es = mset fs" "distinct (map fst es)"
  shows "canon vl (JObj es) = canon vl (JObj fs)"
  using sort_key_cong_mset [OF assms] by simp

end
