(* ===== verification/State_Result.thy ===== *)
theory State_Result
  imports Prelude
begin

text \<open>
  Operations that pass a state on and may fail: a function of the state to a result and the state it
  leaves, also when it fails (whoever runs it decides what a failure undoes). The lemmas read a
  sequence of them step by step.
\<close>

type_synonym ('s, 'e, 'a) state_op = "'s \<Rightarrow> ('e + 'a) \<times> 's"

definition bind_op :: "('s, 'e, 'a) state_op \<Rightarrow> ('a \<Rightarrow> ('s, 'e, 'b) state_op) \<Rightarrow> ('s, 'e, 'b) state_op" where
  "bind_op m f c = (case m c of (Inl e, c') \<Rightarrow> (Inl e, c') | (Inr a, c') \<Rightarrow> f a c')"

definition return_op :: "'a \<Rightarrow> ('s, 'e, 'a) state_op" where "return_op a c = (Inr a, c)"

definition fail_op :: "'e \<Rightarrow> ('s, 'e, 'a) state_op" where "fail_op e c = (Inl e, c)"

definition of_res :: "'e + 'a \<Rightarrow> ('s, 'e, 'a) state_op" where "of_res r c = (r, c)"

definition read_op :: "('s \<Rightarrow> 'e + 'a) \<Rightarrow> ('s, 'e, 'a) state_op" where "read_op g c = (g c, c)"

definition ensure_op :: "bool \<Rightarrow> 'e \<Rightarrow> ('s, 'e, unit) state_op" where
  "ensure_op b e = of_res (ensure b e)"

text \<open>\<open>map_err\<close>, and the rollback of a transaction that fails.\<close>

definition map_err_op :: "('e \<Rightarrow> 'f) \<Rightarrow> ('s, 'e, 'a) state_op \<Rightarrow> ('s, 'f, 'a) state_op" where
  "map_err_op g m c = (case m c of (Inl e, c') \<Rightarrow> (Inl (g e), c') | (Inr a, c') \<Rightarrow> (Inr a, c'))"

definition atomic_op :: "('s, 'e, 'a) state_op \<Rightarrow> ('s, 'e, 'a) state_op" where
  "atomic_op m c = (case m c of (Inl e, c') \<Rightarrow> (Inl e, c) | (Inr a, c') \<Rightarrow> (Inr a, c'))"

lemma bind_op_simps [simp]:
  "bind_op (return_op a) f c = f a c"
  "bind_op (fail_op e) f c = (Inl e, c)"
  "bind_op (of_res (Inr a)) f c = f a c"
  "bind_op (of_res (Inl e)) f c = (Inl e, c)"
  by (simp_all add: bind_op_def return_op_def fail_op_def of_res_def)

lemma bind_read_op [simp]: "bind_op (read_op g) f c = bind_op (of_res (g c)) f c"
  by (simp add: bind_op_def read_op_def of_res_def)

lemma bind_op_step: "m c = (Inr a, c') \<Longrightarrow> bind_op m f c = f a c'"
  by (simp add: bind_op_def)

lemma bind_op_fails: "m c = (Inl e, c') \<Longrightarrow> bind_op m f c = (Inl e, c')"
  by (simp add: bind_op_def)

lemma bind_op_Inr:
  "bind_op m f c = (Inr b, c'') \<longleftrightarrow> (\<exists>a c'. m c = (Inr a, c') \<and> f a c' = (Inr b, c''))"
  by (auto simp: bind_op_def split: prod.splits sum.splits)

lemma ensure_op_simps [simp]:
  "bind_op (ensure_op True e) f c = f () c"
  "bind_op (ensure_op False e) f c = (Inl e, c)"
  by (simp_all add: ensure_op_def)

lemma ensure_op_Inr: "ensure_op b e c = (Inr u, c') \<longleftrightarrow> b \<and> c' = c"
  by (auto simp: ensure_op_def of_res_def ensure_def)

lemma return_op_Inr [simp]: "return_op a c = (Inr b, c') \<longleftrightarrow> a = b \<and> c' = c"
  by (auto simp: return_op_def)

lemma fail_op_Inr [simp]: "fail_op e c \<noteq> (Inr b, c')"
  by (simp add: fail_op_def)

lemma of_res_Inr [simp]: "of_res r c = (Inr b, c') \<longleftrightarrow> r = Inr b \<and> c' = c"
  by (auto simp: of_res_def)

lemma read_op_Inr [simp]: "read_op g c = (Inr b, c') \<longleftrightarrow> g c = Inr b \<and> c' = c"
  by (auto simp: read_op_def)

lemma map_err_op_Inr [simp]: "map_err_op g m c = (Inr b, c') \<longleftrightarrow> m c = (Inr b, c')"
  by (auto simp: map_err_op_def split: prod.splits sum.splits)

lemma atomic_op_Inr [simp]: "atomic_op m c = (Inr b, c') \<longleftrightarrow> m c = (Inr b, c')"
  by (auto simp: atomic_op_def split: prod.splits sum.splits)

lemma atomic_op_Inl: "atomic_op m c = (Inl e, c') \<Longrightarrow> c' = c"
  by (auto simp: atomic_op_def split: prod.splits sum.splits)

end
