(* ===== verification/Job_Store.thy ===== *)
theory Job_Store
  imports Store_Json Job_Context State_Result
begin

text \<open>
  \<open>oxplow-db/src/extension_job_store.rs\<close>: durable jobs and the private history of their attempts,
  in the SQLite tables of \<open>migrations/V1__baseline.sql\<close>. A connection is its tables, each a list of
  rows, and whether it is outside a transaction. A statement either is refused, by a \<open>CHECK\<close>, a
  trigger or a key, and changes nothing, or changes its table; an operation is a state
  transformer that may fail. A value of a \<open>TEXT\<close> column is valid UTF-8, as Rust wrote it. Busy and
  failing disks are not modelled; serde, the uuid crate and SQLite's JSON functions are parameters.
\<close>

section \<open>The libraries\<close>

text \<open>\<open>json_valid\<close>, \<open>json_type\<close> of the root and of a field, and \<open>json_extract\<close> of a field.\<close>

record sqlite_json =
  sq_valid :: "string \<Rightarrow> bool"
  sq_type :: "string \<Rightarrow> string option"
  sq_field_type :: "string \<Rightarrow> string \<Rightarrow> string option"
  sq_field_int :: "string \<Rightarrow> string \<Rightarrow> int option"
  sq_field_text :: "string \<Rightarrow> string \<Rightarrow> string option"

record 'u store_env =
  se_uuid :: "'u uuid_lib"
  se_json :: json_lib
  se_values :: value_lib
  se_sqlite :: sqlite_json

section \<open>Data\<close>

definition MAX_PAGE_ITEMS :: nat where "MAX_PAGE_ITEMS = 256"
definition MAX_PAGE_BYTES :: nat where "MAX_PAGE_BYTES = 4 * 1048576"
definition MAX_OUTPUT_BYTES :: nat where "MAX_OUTPUT_BYTES = 262144"

record new_extension_job =
  nj_job :: extension_job
  nj_operation :: string
  nj_invoker :: string
  nj_request :: json

record stored_extension_job =
  sj_job :: extension_job
  sj_operation :: string
  sj_invoker :: string
  sj_request :: json
  sj_revision :: nat

record recovery_candidate =
  cd_job :: extension_job
  cd_operation :: string
  cd_invoker :: string
  cd_revision :: nat

datatype enqueue_result = Created stored_extension_job | Existing stored_extension_job

datatype attempt_outcome = AoSucceeded | AoFailed | AoCancelled | AoInterrupted

record attempt_record =
  at_job_id :: string
  at_token :: attempt_fence
  at_started_at_ms :: int
  at_lease_until_ms :: int
  at_closed_at_ms :: "int option"
  at_outcome :: "attempt_outcome option"
  at_result :: "json option"

record late_outcome_observation =
  lo_id :: string
  lo_token :: attempt_fence
  lo_observed_at_ms :: int
  lo_outcome :: completion
  lo_evidence :: "json option"

record outcome_observation =
  oo_job_id :: string
  oo_observation :: late_outcome_observation

record new_job_output =
  no_kind :: job_output_kind
  no_at_ms :: int
  no_content :: json

record job_output =
  jo_seq :: nat
  jo_kind :: job_output_kind
  jo_at_ms :: int
  jo_content :: json

record ('a, 'c) history_page =
  hp_items :: "'a list"
  hp_next :: "'c option"

datatype store_error =
  SeInvalidData | SeMissingContext | SeTransactionRequired | SeIntentConflict | SeConflict
| SeNotFound | SeTransitionRejected transition_error | SeStorage

section \<open>Tables\<close>

record job_row =
  r_id :: string
  r_contribution_id :: string
  r_package_version :: "string option"
  r_contract_version :: "int option"
  r_operation :: string
  r_invoker :: string
  r_run_id :: string
  r_intent_key :: string
  r_replay_policy :: string
  r_state :: string
  r_attempt :: int
  r_fence :: int
  r_lease_until_ms :: "int option"
  r_cancel_at_ms :: "int option"
  r_created_at_ms :: int
  r_updated_at_ms :: int
  r_revision :: int
  r_request_json :: string
  r_deployment_hash :: "string option"

record context_row =
  c_job_id :: string
  c_originating_run_id :: string
  c_context_json :: string

record attempt_row =
  a_job_id :: string
  a_attempt :: int
  a_fence :: int
  a_started_at_ms :: int
  a_lease_until_ms :: int
  a_closed_at_ms :: "int option"
  a_outcome :: "string option"
  a_result_json :: "string option"

record observation_row =
  ob_id :: string
  ob_job_id :: string
  ob_attempt :: int
  ob_fence :: int
  ob_observed_at_ms :: int
  ob_outcome :: string
  ob_evidence_json :: "string option"

record output_row =
  u_job_id :: string
  u_attempt :: int
  u_fence :: int
  u_seq :: int
  u_kind :: string
  u_at_ms :: int
  u_content_json :: string

record conn =
  cn_autocommit :: bool
  cn_jobs :: "job_row list"
  cn_contexts :: "context_row list"
  cn_attempts :: "attempt_row list"
  cn_observations :: "observation_row list"
  cn_outputs :: "output_row list"

subsection \<open>Checks\<close>

text \<open>A \<open>CHECK\<close> that is null passes; \<open>length(CAST(t AS BLOB))\<close> counts bytes, \<open>length(t)\<close> characters.\<close>

definition bytes_between :: "nat \<Rightarrow> nat \<Rightarrow> string \<Rightarrow> bool" where
  "bytes_between lo hi t \<longleftrightarrow> lo \<le> length t \<and> length t \<le> hi"

definition sql_length :: "string \<Rightarrow> nat" where
  "sql_length t = length (filter (\<lambda>c. \<not> (128 \<le> byte c \<and> byte c < 192)) t)"

definition null_or :: "('a \<Rightarrow> bool) \<Rightarrow> 'a option \<Rightarrow> bool" where
  "null_or P x = (case x of None \<Rightarrow> True | Some a \<Rightarrow> P a)"

definition state_check :: "job_row \<Rightarrow> bool" where
  "state_check r \<longleftrightarrow>
     (r_state r = ''queued'' \<and> r_lease_until_ms r = None \<and> r_cancel_at_ms r = None
        \<and> r_fence r = 2 * r_attempt r \<and> (r_attempt r = 0 \<or> r_replay_policy r = ''idempotent''))
     \<or> (r_state r = ''running'' \<and> r_attempt r > 0 \<and> r_fence r = 2 * r_attempt r - 1
        \<and> (case r_lease_until_ms r of None \<Rightarrow> False | Some l \<Rightarrow> l > r_created_at_ms r))
     \<or> (r_state r = ''interrupted'' \<and> r_attempt r > 0 \<and> r_fence r = 2 * r_attempt r
        \<and> r_lease_until_ms r = None)
     \<or> (r_state r \<in> {''succeeded'', ''failed''} \<and> r_attempt r > 0
        \<and> r_fence r = 2 * r_attempt r - 1 \<and> r_lease_until_ms r = None)
     \<or> (r_state r = ''cancelled'' \<and> r_cancel_at_ms r \<noteq> None \<and> r_lease_until_ms r = None
        \<and> ((r_attempt r = 0 \<and> r_fence r = 0) \<or> (r_attempt r > 0 \<and> r_fence r = 2 * r_attempt r - 1)))"

definition job_checks :: "sqlite_json \<Rightarrow> job_row \<Rightarrow> bool" where
  "job_checks sq r \<longleftrightarrow>
     bytes_between 1 512 (r_contribution_id r)
     \<and> null_or (\<lambda>v. v > 0 \<and> v \<le> 4294967295) (r_contract_version r)
     \<and> bytes_between 1 256 (r_operation r)
     \<and> bytes_between 1 256 (r_invoker r)
     \<and> bytes_between 1 128 (r_intent_key r)
     \<and> r_replay_policy r \<in> {''never'', ''idempotent''}
     \<and> r_state r \<in> {''queued'', ''running'', ''interrupted'', ''succeeded'', ''failed'', ''cancelled''}
     \<and> 0 \<le> r_attempt r \<and> r_attempt r \<le> 4294967295
     \<and> r_fence r \<ge> 0
     \<and> r_created_at_ms r \<ge> 0
     \<and> r_updated_at_ms r \<ge> r_created_at_ms r
     \<and> r_revision r > 0
     \<and> sq_valid sq (r_request_json r) \<and> length (r_request_json r) \<le> 1048576
     \<and> null_or (bytes_between 1 256) (r_deployment_hash r)
     \<and> null_or (bytes_between 1 256) (r_package_version r)
     \<and> null_or (\<lambda>t. r_created_at_ms r \<le> t \<and> t \<le> r_updated_at_ms r) (r_cancel_at_ms r)
     \<and> (r_replay_policy r \<noteq> ''never'' \<or> r_attempt r \<le> 1)
     \<and> state_check r"

definition context_checks :: "sqlite_json \<Rightarrow> context_row \<Rightarrow> bool" where
  "context_checks sq r \<longleftrightarrow>
     sql_length (c_originating_run_id r) = 36
     \<and> sq_valid sq (c_context_json r)
     \<and> length (c_context_json r) \<le> 65536
     \<and> sq_type sq (c_context_json r) = Some ''object''
     \<and> sq_field_type sq (c_context_json r) ''schema_version'' = Some ''integer''
     \<and> sq_field_int sq (c_context_json r) ''schema_version'' = Some 1
     \<and> sq_field_type sq (c_context_json r) ''originating_run_id'' = Some ''text''
     \<and> sq_field_text sq (c_context_json r) ''originating_run_id'' = Some (c_originating_run_id r)"

definition attempt_checks :: "sqlite_json \<Rightarrow> attempt_row \<Rightarrow> bool" where
  "attempt_checks sq r \<longleftrightarrow>
     1 \<le> a_attempt r \<and> a_attempt r \<le> 4294967295
     \<and> a_fence r = 2 * a_attempt r - 1
     \<and> a_started_at_ms r \<ge> 0
     \<and> a_lease_until_ms r > a_started_at_ms r
     \<and> null_or (\<lambda>t. t \<ge> a_started_at_ms r) (a_closed_at_ms r)
     \<and> null_or (\<lambda>t. t \<in> {''succeeded'', ''failed'', ''cancelled'', ''interrupted''}) (a_outcome r)
     \<and> null_or (\<lambda>t. sq_valid sq t \<and> length t \<le> 1048576) (a_result_json r)
     \<and> (a_closed_at_ms r = None) = (a_outcome r = None)
     \<and> (a_result_json r = None
        \<or> (\<exists>t \<in> {''succeeded'', ''failed'', ''cancelled''}. a_outcome r = Some t))"

definition observation_checks :: "sqlite_json \<Rightarrow> observation_row \<Rightarrow> bool" where
  "observation_checks sq r \<longleftrightarrow>
     ob_observed_at_ms r \<ge> 0
     \<and> ob_outcome r \<in> {''succeeded'', ''failed''}
     \<and> null_or (\<lambda>t. sq_valid sq t \<and> length t \<le> 1048576) (ob_evidence_json r)"

definition output_checks :: "sqlite_json \<Rightarrow> output_row \<Rightarrow> bool" where
  "output_checks sq r \<longleftrightarrow>
     u_seq r \<ge> 1
     \<and> u_kind r \<in> {''text'', ''tool_call'', ''tool_result'', ''usage''}
     \<and> u_at_ms r \<ge> 0
     \<and> sq_valid sq (u_content_json r) \<and> length (u_content_json r) \<le> 262144"

subsection \<open>Triggers\<close>

text \<open>The update an \<open>extension_job_immutable\<close> or \<open>extension_job_attempt_immutable\<close> refuses.\<close>

definition job_update_refused :: "job_row \<Rightarrow> job_row \<Rightarrow> bool" where
  "job_update_refused old new \<longleftrightarrow>
     r_state old \<in> {''succeeded'', ''failed'', ''cancelled''}
     \<or> r_id new \<noteq> r_id old
     \<or> r_contribution_id new \<noteq> r_contribution_id old
     \<or> ((r_package_version new \<noteq> r_package_version old
           \<or> r_deployment_hash new \<noteq> r_deployment_hash old)
         \<and> \<not> (r_state old = ''queued'' \<and> r_state new = ''queued''
              \<and> r_attempt new = r_attempt old \<and> r_fence new = r_fence old))
     \<or> r_contract_version new \<noteq> r_contract_version old
     \<or> r_operation new \<noteq> r_operation old
     \<or> r_invoker new \<noteq> r_invoker old
     \<or> r_run_id new \<noteq> r_run_id old
     \<or> r_intent_key new \<noteq> r_intent_key old
     \<or> r_replay_policy new \<noteq> r_replay_policy old
     \<or> r_created_at_ms new \<noteq> r_created_at_ms old
     \<or> r_request_json new \<noteq> r_request_json old
     \<or> r_updated_at_ms new < r_updated_at_ms old
     \<or> r_revision new \<noteq> r_revision old + 1
     \<or> (r_cancel_at_ms old \<noteq> None \<and> r_cancel_at_ms new \<noteq> r_cancel_at_ms old)"

definition attempt_update_refused :: "attempt_row \<Rightarrow> attempt_row \<Rightarrow> bool" where
  "attempt_update_refused old new \<longleftrightarrow>
     a_job_id new \<noteq> a_job_id old
     \<or> a_attempt new \<noteq> a_attempt old
     \<or> a_fence new \<noteq> a_fence old
     \<or> a_started_at_ms new \<noteq> a_started_at_ms old
     \<or> a_lease_until_ms new < a_lease_until_ms old
     \<or> a_closed_at_ms old \<noteq> None"

definition attempt_open :: "conn \<Rightarrow> string \<Rightarrow> int \<Rightarrow> int \<Rightarrow> bool" where
  "attempt_open c job attempt fence \<longleftrightarrow>
     list_ex (\<lambda>a. a_job_id a = job \<and> a_attempt a = attempt \<and> a_fence a = fence
                  \<and> a_closed_at_ms a = None) (cn_attempts c)"

section \<open>Statements\<close>

datatype sql_error = UniqueViolation | OtherSqlError

text \<open>Triggers first, then checks, then unique keys, then foreign keys.\<close>

definition insert_job :: "sqlite_json \<Rightarrow> job_row \<Rightarrow> conn \<Rightarrow> sql_error + conn" where
  "insert_job sq r c =
     (if \<not> job_checks sq r then Inl OtherSqlError
      else if list_ex (\<lambda>q. r_id q = r_id r
                \<or> (r_contribution_id q = r_contribution_id r \<and> r_intent_key q = r_intent_key r))
             (cn_jobs c)
      then Inl UniqueViolation
      else Inr (c\<lparr>cn_jobs := cn_jobs c @ [r]\<rparr>))"

definition insert_context :: "sqlite_json \<Rightarrow> context_row \<Rightarrow> conn \<Rightarrow> sql_error + conn" where
  "insert_context sq r c =
     (if map_option r_run_id (find (\<lambda>j. r_id j = c_job_id r) (cn_jobs c))
         \<noteq> Some (c_originating_run_id r)
      then Inl OtherSqlError
      else if \<not> context_checks sq r then Inl OtherSqlError
      else if list_ex (\<lambda>q. c_job_id q = c_job_id r) (cn_contexts c) then Inl UniqueViolation
      else Inr (c\<lparr>cn_contexts := cn_contexts c @ [r]\<rparr>))"

definition insert_attempt :: "sqlite_json \<Rightarrow> attempt_row \<Rightarrow> conn \<Rightarrow> sql_error + conn" where
  "insert_attempt sq r c =
     (if \<not> attempt_checks sq r then Inl OtherSqlError
      else if list_ex (\<lambda>q. a_job_id q = a_job_id r
                \<and> (a_attempt q = a_attempt r \<or> a_fence q = a_fence r)) (cn_attempts c)
      then Inl UniqueViolation
      else if \<not> list_ex (\<lambda>j. r_id j = a_job_id r) (cn_jobs c) then Inl OtherSqlError
      else Inr (c\<lparr>cn_attempts := cn_attempts c @ [r]\<rparr>))"

definition attempt_exists :: "conn \<Rightarrow> string \<Rightarrow> int \<Rightarrow> int \<Rightarrow> bool" where
  "attempt_exists c job attempt fence \<longleftrightarrow>
     list_ex (\<lambda>a. a_job_id a = job \<and> a_attempt a = attempt \<and> a_fence a = fence) (cn_attempts c)"

definition insert_observation :: "sqlite_json \<Rightarrow> observation_row \<Rightarrow> conn \<Rightarrow> sql_error + conn" where
  "insert_observation sq r c =
     (if \<not> observation_checks sq r then Inl OtherSqlError
      else if list_ex (\<lambda>q. ob_id q = ob_id r) (cn_observations c) then Inl UniqueViolation
      else if \<not> attempt_exists c (ob_job_id r) (ob_attempt r) (ob_fence r) then Inl OtherSqlError
      else Inr (c\<lparr>cn_observations := cn_observations c @ [r]\<rparr>))"

definition insert_output :: "sqlite_json \<Rightarrow> output_row \<Rightarrow> conn \<Rightarrow> sql_error + conn" where
  "insert_output sq r c =
     (if \<not> attempt_open c (u_job_id r) (u_attempt r) (u_fence r) then Inl OtherSqlError
      else if \<not> output_checks sq r then Inl OtherSqlError
      else if list_ex (\<lambda>q. u_job_id q = u_job_id r \<and> u_attempt q = u_attempt r \<and> u_seq q = u_seq r)
             (cn_outputs c)
      then Inl UniqueViolation
      else if \<not> attempt_exists c (u_job_id r) (u_attempt r) (u_fence r) then Inl OtherSqlError
      else Inr (c\<lparr>cn_outputs := cn_outputs c @ [r]\<rparr>))"

text \<open>An update of the rows that satisfy \<open>P\<close>, with how many there were; no key column changes.\<close>

definition update_jobs ::
  "sqlite_json \<Rightarrow> (job_row \<Rightarrow> bool) \<Rightarrow> (job_row \<Rightarrow> job_row) \<Rightarrow> conn \<Rightarrow> sql_error + nat \<times> conn" where
  "update_jobs sq P f c =
     (let rows = filter P (cn_jobs c) in
      if list_ex (\<lambda>r. job_update_refused r (f r) \<or> \<not> job_checks sq (f r)) rows
      then Inl OtherSqlError
      else Inr (length rows, c\<lparr>cn_jobs := map (\<lambda>r. if P r then f r else r) (cn_jobs c)\<rparr>))"

definition update_attempts ::
  "sqlite_json \<Rightarrow> (attempt_row \<Rightarrow> bool) \<Rightarrow> (attempt_row \<Rightarrow> attempt_row) \<Rightarrow> conn
     \<Rightarrow> sql_error + nat \<times> conn" where
  "update_attempts sq P f c =
     (let rows = filter P (cn_attempts c) in
      if list_ex (\<lambda>r. attempt_update_refused r (f r) \<or> \<not> attempt_checks sq (f r)) rows
      then Inl OtherSqlError
      else Inr (length rows, c\<lparr>cn_attempts := map (\<lambda>r. if P r then f r else r) (cn_attempts c)\<rparr>))"

section \<open>Operations that may fail\<close>

type_synonym 'a op = "(conn, store_error, 'a) state_op"

text \<open>\<open>map_sql_err\<close>: a refused statement is a storage error.\<close>

definition sql_op :: "(conn \<Rightarrow> sql_error + conn) \<Rightarrow> unit op" where
  "sql_op s c = (case s c of Inl e \<Rightarrow> (Inl SeStorage, c) | Inr c' \<Rightarrow> (Inr (), c'))"

definition sql_count :: "(conn \<Rightarrow> sql_error + nat \<times> conn) \<Rightarrow> nat op" where
  "sql_count s c = (case s c of Inl e \<Rightarrow> (Inl SeStorage, c) | Inr (n, c') \<Rightarrow> (Inr n, c'))"

definition with_savepoint :: "'a op \<Rightarrow> 'a op" where
  "with_savepoint write c = (case write c of (Inl e, c') \<Rightarrow> (Inl e, c) | (Inr a, c') \<Rightarrow> (Inr a, c'))"

definition ensure_transaction :: "unit op" where
  "ensure_transaction c = (if cn_autocommit c then Inl SeTransactionRequired else Inr (), c)"

text \<open>\<open>transaction_or\<close>: begin, run, commit or roll back; \<open>read_or\<close>: a snapshot to read.\<close>

definition transaction_or :: "'a op \<Rightarrow> 'a op" where
  "transaction_or f c =
     (case f (c\<lparr>cn_autocommit := False\<rparr>) of
        (Inl e, c') \<Rightarrow> (Inl e, c)
      | (Inr a, c') \<Rightarrow> (Inr a, c'\<lparr>cn_autocommit := cn_autocommit c\<rparr>))"

section \<open>Names\<close>

fun replay_policy_name :: "replay_policy \<Rightarrow> string" where
  "replay_policy_name Never = ''never''"
| "replay_policy_name Idempotent = ''idempotent''"

definition parse_replay_policy :: "string \<Rightarrow> store_error + replay_policy" where
  "parse_replay_policy v =
     (if v = ''never'' then Inr Never
      else if v = ''idempotent'' then Inr Idempotent
      else Inl SeInvalidData)"

fun state_name :: "job_state \<Rightarrow> string" where
  "state_name Queued = ''queued''"
| "state_name Running = ''running''"
| "state_name Interrupted = ''interrupted''"
| "state_name Succeeded = ''succeeded''"
| "state_name Failed = ''failed''"
| "state_name Cancelled = ''cancelled''"

definition parse_state :: "string \<Rightarrow> store_error + job_state" where
  "parse_state v =
     (if v = ''queued'' then Inr Queued
      else if v = ''running'' then Inr Running
      else if v = ''interrupted'' then Inr Interrupted
      else if v = ''succeeded'' then Inr Succeeded
      else if v = ''failed'' then Inr Failed
      else if v = ''cancelled'' then Inr Cancelled
      else Inl SeInvalidData)"

fun completion_name :: "completion \<Rightarrow> string" where
  "completion_name CompletionSucceeded = ''succeeded''"
| "completion_name CompletionFailed = ''failed''"

definition parse_attempt_outcome :: "string \<Rightarrow> attempt_outcome option" where
  "parse_attempt_outcome v =
     (if v = ''succeeded'' then Some AoSucceeded
      else if v = ''failed'' then Some AoFailed
      else if v = ''cancelled'' then Some AoCancelled
      else if v = ''interrupted'' then Some AoInterrupted
      else None)"

section \<open>Validation\<close>

definition validate_metadata :: "string \<Rightarrow> store_error + unit" where
  "validate_metadata v =
     (if v = [] \<or> length v > 256 \<or> \<not> list_all is_ascii v \<or> \<not> list_all is_ascii_graphic v
      then Inl SeInvalidData else Inr ())"

definition validate_uuid_v7 :: "'u store_env \<Rightarrow> string \<Rightarrow> store_error + unit" where
  "validate_uuid_v7 env v = (if is_uuid_v7 (se_uuid env) v then Inr () else Inl SeInvalidData)"

definition invalid_unless :: "'a option \<Rightarrow> store_error + 'a" where
  "invalid_unless x = ok_or x SeInvalidData"

definition canonical :: "'u store_env \<Rightarrow> json \<Rightarrow> store_error + string" where
  "canonical env v = invalid_unless (canonical_json (se_values env) v)"

definition validate_new_job :: "'u store_env \<Rightarrow> new_extension_job \<Rightarrow> store_error + unit" where
  "validate_new_job env new =
     (case job_validate (se_uuid env) (nj_job new) of
        Inl _ \<Rightarrow> Inl SeInvalidData
      | Inr _ \<Rightarrow>
          (let j = nj_job new in
           if j_state j \<noteq> Queued \<or> j_attempt j \<noteq> 0 \<or> j_fence j \<noteq> 0 \<or> j_lease_until_ms j \<noteq> None
              \<or> j_cancel_at_ms j \<noteq> None \<or> j_updated_at_ms j \<noteq> j_created_at_ms j
           then Inl SeInvalidData
           else
             bind_res (validate_metadata (nj_operation new)) (\<lambda>_.
             bind_res (validate_metadata (nj_invoker new)) (\<lambda>_.
             bind_res (canonical env (nj_request new)) (\<lambda>_.
             bind_res (validate_uuid_v7 env (j_id j)) (\<lambda>_.
               validate_uuid_v7 env (j_run_id j)))))))"

definition validate_page :: "nat \<Rightarrow> store_error + unit" where
  "validate_page limit = ensure (1 \<le> limit \<and> limit \<le> MAX_PAGE_ITEMS) SeInvalidData"

section \<open>Rows to values\<close>

text \<open>\<open>u32::try_from\<close> and \<open>u64::try_from\<close> of an \<open>i64\<close>.\<close>

definition to_u32 :: "int \<Rightarrow> nat option" where
  "to_u32 v = (if 0 \<le> v \<and> v \<le> int u32_max then Some (nat v) else None)"

definition to_u64 :: "int \<Rightarrow> nat option" where
  "to_u64 v = (if 0 \<le> v then Some (nat v) else None)"

definition to_i64 :: "nat \<Rightarrow> store_error + int" where
  "to_i64 n = (if int n \<le> i64_max then Inr (int n) else Inl SeInvalidData)"

definition read_text :: "string \<Rightarrow> nat \<Rightarrow> bool" where
  "read_text t limit \<longleftrightarrow> length t \<le> limit"

definition read_optional_text :: "string option \<Rightarrow> nat \<Rightarrow> bool" where
  "read_optional_text t limit \<longleftrightarrow> null_or (\<lambda>v. length v \<le> limit) t"

definition parse_job_id :: "'u store_env \<Rightarrow> string \<Rightarrow> store_error + string" where
  "parse_job_id env v = bind_res (validate_uuid_v7 env v) (\<lambda>_. Inr v)"

definition contribution_text :: "contribution_id \<Rightarrow> string" where
  "contribution_text i = the (ref_display (reference i))"

text \<open>The text limits of a whole job row, checked before anything is allocated.\<close>

definition decode_stored_job :: "job_row \<Rightarrow> bool" where
  "decode_stored_job r \<longleftrightarrow>
     read_text (r_id r) 36 \<and> read_text (r_contribution_id r) 512
     \<and> read_optional_text (r_package_version r) 256
     \<and> read_text (r_operation r) 256 \<and> read_text (r_invoker r) 256 \<and> read_text (r_run_id r) 36
     \<and> read_text (r_intent_key r) 128 \<and> read_text (r_replay_policy r) 10
     \<and> read_text (r_state r) 11 \<and> read_text (r_request_json r) 1048576
     \<and> read_optional_text (r_deployment_hash r) 256"

definition decode_job :: "'u store_env \<Rightarrow> job_row \<Rightarrow> store_error + extension_job" where
  "decode_job env r =
     bind_res (parse_job_id env (r_id r)) (\<lambda>i.
     bind_res (invalid_unless
        (case ref_from_str (r_contribution_id r) of Inl _ \<Rightarrow> None | Inr cr \<Rightarrow> ref_id cr)) (\<lambda>contribution.
     bind_res (case r_contract_version r of
        None \<Rightarrow> Inr None
      | Some v \<Rightarrow> bind_res (invalid_unless (to_u32 v)) (\<lambda>n. Inr (Some n))) (\<lambda>contract.
     bind_res (case intent_key_new (r_intent_key r) of Inl _ \<Rightarrow> Inl SeInvalidData | Inr k \<Rightarrow> Inr k) (\<lambda>key.
     bind_res (parse_replay_policy (r_replay_policy r)) (\<lambda>policy.
     bind_res (parse_state (r_state r)) (\<lambda>state.
     bind_res (invalid_unless (to_u32 (r_attempt r))) (\<lambda>attempt.
     bind_res (invalid_unless (to_u64 (r_fence r))) (\<lambda>fence.
       let job = \<lparr>j_id = i,
            j_owner = \<lparr>o_contribution = contribution, o_package_version = r_package_version r,
              o_contract_version = contract, o_deployment = r_deployment_hash r\<rparr>,
            j_run_id = r_run_id r, j_intent_key = key, j_replay_policy = policy, j_state = state,
            j_attempt = attempt, j_fence = fence, j_lease_until_ms = r_lease_until_ms r,
            j_cancel_at_ms = r_cancel_at_ms r, j_created_at_ms = r_created_at_ms r,
            j_updated_at_ms = r_updated_at_ms r\<rparr>
       in (case job_validate (se_uuid env) job of Inl _ \<Rightarrow> Inl SeInvalidData | Inr _ \<Rightarrow> Inr job)))))))))"

definition decode_revision :: "int \<Rightarrow> store_error + nat" where
  "decode_revision v =
     invalid_unless (case to_u64 v of None \<Rightarrow> None | Some n \<Rightarrow> if n > 0 then Some n else None)"

definition decode_stored_job_data :: "'u store_env \<Rightarrow> job_row \<Rightarrow> store_error + stored_extension_job" where
  "decode_stored_job_data env r =
     bind_res (decode_job env r) (\<lambda>job.
     bind_res (validate_metadata (r_operation r)) (\<lambda>_.
     bind_res (validate_metadata (r_invoker r)) (\<lambda>_.
     bind_res (decode_revision (r_revision r)) (\<lambda>revision.
     bind_res (invalid_unless (parse_bounded_json (se_values env) (r_request_json r))) (\<lambda>request.
       Inr \<lparr>sj_job = job, sj_operation = r_operation r, sj_invoker = r_invoker r,
            sj_request = request, sj_revision = revision\<rparr>)))))"

definition read_recovery_candidate :: "job_row \<Rightarrow> bool" where
  "read_recovery_candidate r \<longleftrightarrow>
     read_text (r_id r) 36 \<and> read_text (r_contribution_id r) 512
     \<and> read_optional_text (r_package_version r) 256
     \<and> read_text (r_run_id r) 36 \<and> read_text (r_intent_key r) 128
     \<and> read_text (r_replay_policy r) 10 \<and> read_text (r_state r) 11
     \<and> read_text (r_operation r) 256 \<and> read_text (r_invoker r) 256
     \<and> read_optional_text (r_deployment_hash r) 256"

definition decode_recovery_candidate :: "'u store_env \<Rightarrow> job_row \<Rightarrow> store_error + recovery_candidate" where
  "decode_recovery_candidate env r =
     bind_res (decode_job env r) (\<lambda>job.
     bind_res (validate_metadata (r_operation r)) (\<lambda>_.
     bind_res (validate_metadata (r_invoker r)) (\<lambda>_.
     bind_res (decode_revision (r_revision r)) (\<lambda>revision.
       Inr \<lparr>cd_job = job, cd_operation = r_operation r, cd_invoker = r_invoker r,
            cd_revision = revision\<rparr>))))"

section \<open>Reading\<close>

definition get_tx :: "'u store_env \<Rightarrow> string \<Rightarrow> conn \<Rightarrow> store_error + stored_extension_job option" where
  "get_tx env i c =
     bind_res (validate_uuid_v7 env i) (\<lambda>_.
       case find (\<lambda>r. r_id r = i) (cn_jobs c) of
         None \<Rightarrow> Inr None
       | Some r \<Rightarrow>
           if \<not> decode_stored_job r then Inl SeStorage
           else bind_res (decode_stored_job_data env r) (\<lambda>s. Inr (Some s)))"

definition metadata_tx :: "'u store_env \<Rightarrow> string \<Rightarrow> conn \<Rightarrow> store_error + recovery_candidate option" where
  "metadata_tx env i c =
     bind_res (validate_uuid_v7 env i) (\<lambda>_.
       case find (\<lambda>r. r_id r = i) (cn_jobs c) of
         None \<Rightarrow> Inr None
       | Some r \<Rightarrow>
           if \<not> read_recovery_candidate r then Inl SeStorage
           else bind_res (decode_recovery_candidate env r) (\<lambda>s. Inr (Some s)))"

definition get_by_intent_tx ::
  "'u store_env \<Rightarrow> string \<Rightarrow> string \<Rightarrow> conn \<Rightarrow> store_error + stored_extension_job option" where
  "get_by_intent_tx env contribution intent c =
     (case find (\<lambda>r. r_contribution_id r = contribution \<and> r_intent_key r = intent) (cn_jobs c) of
        None \<Rightarrow> Inr None
      | Some r \<Rightarrow>
          if \<not> read_text (r_id r) 36 then Inl SeStorage
          else
            bind_res (parse_job_id env (r_id r)) (\<lambda>i.
            bind_res (get_tx env i c) (\<lambda>found.
            bind_res (ok_or found SeNotFound) (\<lambda>s. Inr (Some s)))))"

definition get_context_tx :: "'u store_env \<Rightarrow> string \<Rightarrow> conn \<Rightarrow> store_error + job_invocation_context" where
  "get_context_tx env i c =
     bind_res (validate_uuid_v7 env i) (\<lambda>_.
       case find (\<lambda>r. r_id r = i) (cn_jobs c) of
         None \<Rightarrow> Inl SeNotFound
       | Some r \<Rightarrow>
           (let joined = find (\<lambda>x. c_job_id x = i) (cn_contexts c) in
            if \<not> read_text (r_run_id r) 36
               \<or> (case joined of None \<Rightarrow> False
                   | Some x \<Rightarrow> \<not> read_text (c_originating_run_id x) 36
                               \<or> \<not> read_text (c_context_json x) 65536)
            then Inl SeStorage
            else
              bind_res (validate_uuid_v7 env (r_run_id r)) (\<lambda>_.
                case joined of
                  None \<Rightarrow> Inl SeMissingContext
                | Some x \<Rightarrow>
                    if c_originating_run_id x \<noteq> r_run_id r then Inl SeInvalidData
                    else
                      (case decode_json (se_uuid env) (se_json env) (c_context_json x) of
                         Inl _ \<Rightarrow> Inl SeInvalidData
                       | Inr context \<Rightarrow>
                           if jc_originating_run_id context \<noteq> c_originating_run_id x then Inl SeInvalidData
                           else
                             (case encode_json (se_uuid env) (se_json env) context of
                                Inl _ \<Rightarrow> Inl SeInvalidData
                              | Inr encoded \<Rightarrow>
                                  if encoded \<noteq> c_context_json x then Inl SeInvalidData
                                  else Inr context)))))"

section \<open>Enqueueing\<close>

definition duplicate_matches ::
  "'u store_env \<Rightarrow> stored_extension_job \<Rightarrow> new_extension_job \<Rightarrow> store_error + bool" where
  "duplicate_matches env existing incoming =
     (if j_owner (sj_job existing) = j_owner (nj_job incoming)
         \<and> j_intent_key (sj_job existing) = j_intent_key (nj_job incoming)
         \<and> j_replay_policy (sj_job existing) = j_replay_policy (nj_job incoming)
         \<and> sj_operation existing = nj_operation incoming
         \<and> sj_invoker existing = nj_invoker incoming
      then
        bind_res (canonical env (sj_request existing)) (\<lambda>a.
        bind_res (canonical env (nj_request incoming)) (\<lambda>b. Inr (a = b)))
      else Inr False)"

text \<open>A row found for the intent is the job, if the immutable fields match.\<close>

definition existing_or_conflict ::
  "'u store_env \<Rightarrow> new_extension_job \<Rightarrow> stored_extension_job \<Rightarrow> store_error + enqueue_result" where
  "existing_or_conflict env new existing =
     bind_res (duplicate_matches env existing new) (\<lambda>same.
       if same then Inr (Existing existing) else Inl SeIntentConflict)"

definition new_row :: "new_extension_job \<Rightarrow> string \<Rightarrow> int \<Rightarrow> job_row" where
  "new_row new request fence =
     (let j = nj_job new in
      \<lparr>r_id = j_id j, r_contribution_id = contribution_text (o_contribution (j_owner j)),
       r_package_version = o_package_version (j_owner j),
       r_contract_version = map_option int (o_contract_version (j_owner j)),
       r_operation = nj_operation new, r_invoker = nj_invoker new, r_run_id = j_run_id j,
       r_intent_key = j_intent_key j, r_replay_policy = replay_policy_name (j_replay_policy j),
       r_state = state_name (j_state j), r_attempt = int (j_attempt j), r_fence = fence,
       r_lease_until_ms = j_lease_until_ms j, r_cancel_at_ms = j_cancel_at_ms j,
       r_created_at_ms = j_created_at_ms j, r_updated_at_ms = j_updated_at_ms j, r_revision = 1,
       r_request_json = request, r_deployment_hash = o_deployment (j_owner j)\<rparr>)"

definition created_of :: "new_extension_job \<Rightarrow> enqueue_result" where
  "created_of new =
     Created \<lparr>sj_job = nj_job new, sj_operation = nj_operation new, sj_invoker = nj_invoker new,
       sj_request = nj_request new, sj_revision = 1\<rparr>"

definition enqueue_tx :: "'u store_env \<Rightarrow> new_extension_job \<Rightarrow> enqueue_result op" where
  "enqueue_tx env new =
     bind_op ensure_transaction (\<lambda>_.
     bind_op (of_res (validate_new_job env new)) (\<lambda>_.
     let contribution = contribution_text (o_contribution (j_owner (nj_job new)));
         key = j_intent_key (nj_job new) in
     bind_op (read_op (get_by_intent_tx env contribution key)) (\<lambda>found.
       case found of
         Some existing \<Rightarrow> of_res (existing_or_conflict env new existing)
       | None \<Rightarrow>
           bind_op (of_res (canonical env (nj_request new))) (\<lambda>request.
           bind_op (of_res (to_i64 (j_fence (nj_job new)))) (\<lambda>fence c.
             case insert_job (se_sqlite env) (new_row new request fence) c of
               Inr c' \<Rightarrow> (Inr (created_of new), c')
             | Inl UniqueViolation \<Rightarrow>
                 bind_op (read_op (get_by_intent_tx env contribution key)) (\<lambda>again.
                   case again of
                     Some existing \<Rightarrow> of_res (existing_or_conflict env new existing)
                   | None \<Rightarrow> fail_op SeConflict) c
             | Inl OtherSqlError \<Rightarrow> (Inl SeStorage, c))))))"

definition enqueue_with_context_tx ::
  "'u store_env \<Rightarrow> new_extension_job \<Rightarrow> job_invocation_context \<Rightarrow> enqueue_result op" where
  "enqueue_with_context_tx env new context =
     bind_op ensure_transaction (\<lambda>_.
     bind_op (of_res (case jc_validate (se_uuid env) (se_json env) context of
        Inl _ \<Rightarrow> Inl SeInvalidData | Inr _ \<Rightarrow> Inr ())) (\<lambda>_.
     bind_op (ensure_op (jc_originating_run_id context = j_run_id (nj_job new)) SeInvalidData) (\<lambda>_.
     bind_op (of_res (case encode_json (se_uuid env) (se_json env) context of
        Inl _ \<Rightarrow> Inl SeInvalidData | Inr t \<Rightarrow> Inr t)) (\<lambda>encoded.
       with_savepoint
         (bind_op (enqueue_tx env new) (\<lambda>outcome.
            case outcome of
              Created stored \<Rightarrow>
                bind_op (sql_op (insert_context (se_sqlite env)
                  \<lparr>c_job_id = j_id (sj_job stored),
                   c_originating_run_id = jc_originating_run_id context,
                   c_context_json = encoded\<rparr>)) (\<lambda>_. return_op outcome)
            | Existing stored \<Rightarrow>
                bind_op (read_op (get_context_tx env (j_id (sj_job stored)))) (\<lambda>original.
                bind_op (ensure_op (same_scheduling_provenance original context) SeIntentConflict) (\<lambda>_.
                  return_op outcome))))))))"

section \<open>Transitions\<close>

definition close_attempt ::
  "'u store_env \<Rightarrow> extension_job \<Rightarrow> int \<Rightarrow> string \<Rightarrow> string option \<Rightarrow> unit op" where
  "close_attempt env job now_ms outcome result =
     bind_op (of_res (to_i64 (j_fence job))) (\<lambda>fence.
     bind_op (sql_count (update_attempts (se_sqlite env)
        (\<lambda>a. a_job_id a = j_id job \<and> a_attempt a = int (j_attempt job) \<and> a_fence a = fence
             \<and> a_closed_at_ms a = None \<and> Some (a_lease_until_ms a) = j_lease_until_ms job)
        (\<lambda>a. a\<lparr>a_closed_at_ms := Some now_ms, a_outcome := Some outcome, a_result_json := result\<rparr>)))
       (\<lambda>changed. ensure_op (changed = 1) SeConflict))"

definition apply_attempt_change ::
  "'u store_env \<Rightarrow> extension_job \<Rightarrow> extension_job \<Rightarrow> job_event \<Rightarrow> string option \<Rightarrow> unit op" where
  "apply_attempt_change env old new event result_json =
     (case event of
        Claim now_ms lease key \<Rightarrow>
          bind_op (of_res (to_i64 (j_fence new))) (\<lambda>fence.
            (case j_lease_until_ms new of
               None \<Rightarrow> fail_op SeStorage
             | Some lease_until \<Rightarrow>
                 sql_op (insert_attempt (se_sqlite env)
                   \<lparr>a_job_id = j_id old, a_attempt = int (j_attempt new), a_fence = fence,
                    a_started_at_ms = now_ms, a_lease_until_ms = lease_until,
                    a_closed_at_ms = None, a_outcome = None, a_result_json = None\<rparr>)))
      | Renew now_ms lease tok \<Rightarrow>
          bind_op (of_res (to_i64 (j_fence old))) (\<lambda>fence.
            (case j_lease_until_ms new of
               None \<Rightarrow> fail_op SeStorage
             | Some lease_until \<Rightarrow>
                 bind_op (sql_count (update_attempts (se_sqlite env)
                    (\<lambda>a. a_job_id a = j_id old \<and> a_attempt a = int (j_attempt old) \<and> a_fence a = fence
                         \<and> a_closed_at_ms a = None \<and> Some (a_lease_until_ms a) = j_lease_until_ms old)
                    (\<lambda>a. a\<lparr>a_lease_until_ms := lease_until\<rparr>)))
                   (\<lambda>changed. ensure_op (changed = 1) SeConflict)))
      | Complete now_ms tok oc \<Rightarrow> close_attempt env old now_ms (completion_name oc) result_json
      | ConfirmStopped now_ms tok \<Rightarrow> close_attempt env old now_ms ''cancelled'' result_json
      | RecoverExpired now_ms \<Rightarrow> close_attempt env old now_ms ''interrupted'' None
      | RequestCancellation now_ms \<Rightarrow> return_op ()
      | RetryInterrupted now_ms key \<Rightarrow> return_op ()
      | Rebind now_ms ow \<Rightarrow> return_op ())"

definition result_of_event ::
  "'u store_env \<Rightarrow> job_event \<Rightarrow> json option \<Rightarrow> store_error + string option" where
  "result_of_event env event result =
     (case event of
        Complete now_ms tok oc \<Rightarrow>
          (case result of None \<Rightarrow> Inr None | Some v \<Rightarrow> bind_res (canonical env v) (\<lambda>t. Inr (Some t)))
      | ConfirmStopped now_ms tok \<Rightarrow>
          (case result of None \<Rightarrow> Inr None | Some v \<Rightarrow> bind_res (canonical env v) (\<lambda>t. Inr (Some t)))
      | _ \<Rightarrow> (if result \<noteq> None then Inl SeInvalidData else Inr None))"

definition next_row :: "extension_job \<Rightarrow> int \<Rightarrow> int \<Rightarrow> job_row \<Rightarrow> job_row" where
  "next_row next fence revision r =
     r\<lparr>r_state := state_name (j_state next), r_attempt := int (j_attempt next), r_fence := fence,
       r_lease_until_ms := j_lease_until_ms next, r_cancel_at_ms := j_cancel_at_ms next,
       r_updated_at_ms := j_updated_at_ms next, r_revision := revision,
       r_package_version := o_package_version (j_owner next),
       r_deployment_hash := o_deployment (j_owner next)\<rparr>"

definition same_version :: "string \<Rightarrow> nat \<Rightarrow> extension_job \<Rightarrow> int \<Rightarrow> job_row \<Rightarrow> bool" where
  "same_version i revision job fence r \<longleftrightarrow>
     r_id r = i \<and> r_revision r = int revision \<and> r_state r = state_name (j_state job)
     \<and> r_attempt r = int (j_attempt job) \<and> r_fence r = fence
     \<and> r_lease_until_ms r = j_lease_until_ms job \<and> r_cancel_at_ms r = j_cancel_at_ms job
     \<and> r_updated_at_ms r = j_updated_at_ms job"

definition next_revision :: "nat \<Rightarrow> store_error + nat" where
  "next_revision n =
     invalid_unless (case checked_add_u64 n 1 of
        None \<Rightarrow> None | Some m \<Rightarrow> if int m \<le> i64_max then Some m else None)"

definition transition_tx ::
  "'u store_env \<Rightarrow> string \<Rightarrow> nat \<Rightarrow> job_event \<Rightarrow> json option \<Rightarrow> stored_extension_job op" where
  "transition_tx env i expected_revision event result =
     bind_op ensure_transaction (\<lambda>_.
     bind_op (ensure_op (expected_revision \<noteq> 0 \<and> int expected_revision \<le> i64_max) SeInvalidData) (\<lambda>_.
     bind_op (read_op (get_tx env i)) (\<lambda>found.
     bind_op (of_res (ok_or found SeNotFound)) (\<lambda>current.
     bind_op (ensure_op (sj_revision current = expected_revision) SeConflict) (\<lambda>_.
     bind_op (of_res (result_of_event env event result)) (\<lambda>result_json.
     bind_op (of_res (case transition (se_uuid env) (sj_job current) event of
        Inl e \<Rightarrow> Inl (SeTransitionRejected e) | Inr t \<Rightarrow> Inr t)) (\<lambda>t.
     bind_op (of_res (next_revision expected_revision)) (\<lambda>revision.
       with_savepoint
         (bind_op (apply_attempt_change env (sj_job current) (t_job t) event result_json) (\<lambda>_.
          bind_op (of_res (to_i64 (j_fence (t_job t)))) (\<lambda>fence.
          bind_op (of_res (to_i64 (j_fence (sj_job current)))) (\<lambda>old_fence.
          bind_op (sql_count (update_jobs (se_sqlite env)
             (same_version i expected_revision (sj_job current) old_fence)
             (next_row (t_job t) fence (int revision)))) (\<lambda>changed.
          bind_op (ensure_op (changed = 1) SeConflict) (\<lambda>_.
            return_op (current\<lparr>sj_job := t_job t, sj_revision := revision\<rparr>)))))))))))))))"

section \<open>Output\<close>

text \<open>The last number is the count of rows so far, so \<open>seq += 1\<close> stays in range.\<close>

definition last_seq :: "conn \<Rightarrow> string \<Rightarrow> int \<Rightarrow> int" where
  "last_seq c job attempt =
     fold max (map u_seq (filter (\<lambda>u. u_job_id u = job \<and> u_attempt u = attempt) (cn_outputs c))) 0"

fun append_rows ::
  "'u store_env \<Rightarrow> string \<Rightarrow> nat \<Rightarrow> int \<Rightarrow> int \<Rightarrow> new_job_output list \<Rightarrow> int op" where
  "append_rows env job attempt fence seq [] = return_op seq"
| "append_rows env job attempt fence seq (row # rows) =
     (let content = vl_text (se_values env) (no_content row) in
      if length content > MAX_OUTPUT_BYTES \<or> no_at_ms row < 0 then fail_op SeInvalidData
      else
        bind_op (sql_op (insert_output (se_sqlite env)
          \<lparr>u_job_id = job, u_attempt = int attempt, u_fence = fence, u_seq = seq + 1,
           u_kind = output_kind_as_str (no_kind row), u_at_ms = no_at_ms row,
           u_content_json = content\<rparr>)) (\<lambda>_.
          append_rows env job attempt fence (seq + 1) rows))"

definition append_output_tx ::
  "'u store_env \<Rightarrow> string \<Rightarrow> attempt_fence \<Rightarrow> new_job_output list \<Rightarrow> nat op" where
  "append_output_tx env job tok rows =
     bind_op ensure_transaction (\<lambda>_.
     bind_op (of_res (to_i64 (tok_fence tok))) (\<lambda>fence.
     bind_op (read_op (\<lambda>c. Inr (last_seq c job (int (tok_attempt tok))))) (\<lambda>seq.
     bind_op (append_rows env job (tok_attempt tok) fence seq rows) (\<lambda>seq.
       return_op (nat seq)))))"

fun decode_outputs :: "'u store_env \<Rightarrow> output_row list \<Rightarrow> store_error + job_output list" where
  "decode_outputs env [] = Inr []"
| "decode_outputs env (u # us) =
     bind_res (invalid_unless (to_u64 (u_seq u))) (\<lambda>seq.
     bind_res (invalid_unless (output_kind_parse (u_kind u))) (\<lambda>kind.
     bind_res (invalid_unless (vl_parse (se_values env) (u_content_json u))) (\<lambda>content.
     bind_res (decode_outputs env us) (\<lambda>rest.
       Inr (\<lparr>jo_seq = seq, jo_kind = kind, jo_at_ms = u_at_ms u, jo_content = content\<rparr> # rest)))))"

definition output_tx ::
  "'u store_env \<Rightarrow> string \<Rightarrow> nat \<Rightarrow> nat \<Rightarrow> nat \<Rightarrow> conn \<Rightarrow> store_error + job_output list" where
  "output_tx env job attempt after_seq limit c =
     bind_res (to_i64 after_seq) (\<lambda>after.
       decode_outputs env
         (take (min limit (MAX_PAGE_ITEMS * 16))
           (sort_key u_seq
             (filter (\<lambda>u. u_job_id u = job \<and> u_attempt u = int attempt \<and> u_seq u > after)
               (cn_outputs c)))))"

section \<open>Observations\<close>

definition record_observation_tx ::
  "'u store_env \<Rightarrow> string \<Rightarrow> late_outcome_observation \<Rightarrow> outcome_observation op" where
  "record_observation_tx env job obs =
     bind_op ensure_transaction (\<lambda>_.
     bind_op (of_res (validate_uuid_v7 env job)) (\<lambda>_.
     bind_op (of_res (validate_uuid_v7 env (lo_id obs))) (\<lambda>_.
     let attempt = tok_attempt (lo_token obs); token_fence = tok_fence (lo_token obs) in
     bind_op (ensure_op (lo_observed_at_ms obs \<ge> 0 \<and> attempt \<noteq> 0 \<and> token_fence \<noteq> 0
          \<and> token_fence = 2 * attempt - 1) SeInvalidData) (\<lambda>_.
     bind_op (of_res (case lo_evidence obs of
          None \<Rightarrow> Inr None | Some v \<Rightarrow> bind_res (canonical env v) (\<lambda>t. Inr (Some t)))) (\<lambda>evidence.
     bind_op (of_res (to_i64 token_fence)) (\<lambda>fence.
     bind_op (read_op (\<lambda>c. Inr (find (\<lambda>a. a_job_id a = job \<and> a_attempt a = int attempt
          \<and> a_fence a = fence) (cn_attempts c)))) (\<lambda>attempt_row.
     bind_op (ensure_op (case attempt_row of
          None \<Rightarrow> False | Some a \<Rightarrow> \<not> lo_observed_at_ms obs < a_started_at_ms a) SeInvalidData) (\<lambda>_.
     bind_op (read_op (\<lambda>c. Inr (find (\<lambda>x. ob_id x = lo_id obs) (cn_observations c)))) (\<lambda>existing.
       case existing of
         Some x \<Rightarrow>
           if \<not> (read_text (ob_job_id x) 36 \<and> read_text (ob_outcome x) 9
                  \<and> read_optional_text (ob_evidence_json x) 1048576)
           then fail_op SeStorage
           else if ob_job_id x = job \<and> ob_attempt x = int attempt \<and> ob_fence x = fence
                \<and> ob_observed_at_ms x = lo_observed_at_ms obs
                \<and> ob_outcome x = completion_name (lo_outcome obs) \<and> ob_evidence_json x = evidence
           then return_op \<lparr>oo_job_id = job, oo_observation = obs\<rparr>
           else fail_op SeConflict
       | None \<Rightarrow>
           bind_op (sql_op (insert_observation (se_sqlite env)
             \<lparr>ob_id = lo_id obs, ob_job_id = job, ob_attempt = int attempt, ob_fence = fence,
              ob_observed_at_ms = lo_observed_at_ms obs, ob_outcome = completion_name (lo_outcome obs),
              ob_evidence_json = evidence\<rparr>)) (\<lambda>_.
             return_op \<lparr>oo_job_id = job, oo_observation = obs\<rparr>))))))))))"

section \<open>Pages\<close>

text \<open>
  The loop of the listings: at most \<open>limit\<close> items and, where \<open>weigh\<close> gives a row's size, at most
  \<open>MAX_PAGE_BYTES\<close>; a row left over says that there is more. \<open>read\<close> is the row mapper, called before
  the row is looked at and not on a row past the end of the page.
\<close>

fun page_loop ::
  "('r \<Rightarrow> bool) \<Rightarrow> ('r \<Rightarrow> nat) \<Rightarrow> ('r \<Rightarrow> store_error + 'a) \<Rightarrow> nat \<Rightarrow> 'r list \<Rightarrow> 'a list \<Rightarrow> nat
     \<Rightarrow> store_error + 'a list \<times> bool" where
  "page_loop readable weigh decodes limit [] items bytes = Inr (items, False)"
| "page_loop readable weigh decodes limit (row # rows) items bytes =
     (if length items = limit then Inr (items, True)
      else if \<not> readable row then Inl SeStorage
      else
        (let size = weigh row in
         if size > MAX_STORED_BYTES then Inl SeInvalidData
         else if bytes + size > MAX_PAGE_BYTES then Inr (items, True)
         else
           bind_res (decodes row) (\<lambda>item.
             page_loop readable weigh decodes limit rows (items @ [item]) (bytes + size))))"

definition page_of :: "('a \<Rightarrow> 'c) \<Rightarrow> 'a list \<times> bool \<Rightarrow> ('a, 'c) history_page" where
  "page_of cursor p =
     \<lparr>hp_items = fst p,
      hp_next = (if snd p \<and> fst p \<noteq> [] then Some (cursor (last (fst p))) else None)\<rparr>"

definition opt_length :: "string option \<Rightarrow> nat" where
  "opt_length t = (case t of None \<Rightarrow> 0 | Some v \<Rightarrow> length v)"

definition decode_optional_json :: "'u store_env \<Rightarrow> string option \<Rightarrow> store_error + json option" where
  "decode_optional_json env t =
     (case t of
        None \<Rightarrow> Inr None
      | Some text \<Rightarrow>
          bind_res (invalid_unless (parse_bounded_json (se_values env) text)) (\<lambda>v. Inr (Some v)))"

definition positive :: "nat option \<Rightarrow> store_error + nat" where
  "positive x = invalid_unless (case x of None \<Rightarrow> None | Some n \<Rightarrow> if n > 0 then Some n else None)"

definition read_attempt :: "attempt_row \<Rightarrow> bool" where
  "read_attempt a \<longleftrightarrow>
     read_text (a_job_id a) 36 \<and> read_optional_text (a_outcome a) 11
     \<and> read_optional_text (a_result_json a) 1048576"

definition decode_attempt :: "'u store_env \<Rightarrow> attempt_row \<Rightarrow> store_error + attempt_record" where
  "decode_attempt env a =
     bind_res (parse_job_id env (a_job_id a)) (\<lambda>job.
     bind_res (positive (to_u32 (a_attempt a))) (\<lambda>attempt.
     bind_res (positive (to_u64 (a_fence a))) (\<lambda>fence.
     bind_res (case a_outcome a of
        None \<Rightarrow> Inr None
      | Some t \<Rightarrow> bind_res (invalid_unless (parse_attempt_outcome t)) (\<lambda>oc. Inr (Some oc))) (\<lambda>outcome.
     bind_res (decode_optional_json env (a_result_json a)) (\<lambda>result.
       if fence \<noteq> 2 * attempt - 1
          \<or> a_started_at_ms a < 0
          \<or> a_lease_until_ms a \<le> a_started_at_ms a
          \<or> (case a_closed_at_ms a of None \<Rightarrow> False | Some t \<Rightarrow> t < a_started_at_ms a)
          \<or> (a_closed_at_ms a \<noteq> None) \<noteq> (outcome \<noteq> None)
          \<or> (result \<noteq> None \<and> (outcome = None \<or> outcome = Some AoInterrupted))
       then Inl SeInvalidData
       else Inr \<lparr>at_job_id = job, at_token = \<lparr>tok_attempt = attempt, tok_fence = fence\<rparr>,
              at_started_at_ms = a_started_at_ms a, at_lease_until_ms = a_lease_until_ms a,
              at_closed_at_ms = a_closed_at_ms a, at_outcome = outcome, at_result = result\<rparr>)))))"

definition attempts_tx ::
  "'u store_env \<Rightarrow> string \<Rightarrow> nat option \<Rightarrow> nat \<Rightarrow> conn
     \<Rightarrow> store_error + (attempt_record, nat) history_page" where
  "attempts_tx env job after_attempt limit c =
     bind_res (validate_page limit) (\<lambda>_.
     bind_res (validate_uuid_v7 env job) (\<lambda>_.
       let after = (case after_attempt of None \<Rightarrow> 0 | Some n \<Rightarrow> n);
           rows = take (limit + 1) (sort_key a_attempt
             (filter (\<lambda>a. a_job_id a = job \<and> a_attempt a > int after) (cn_attempts c)))
       in
       bind_res (page_loop read_attempt (\<lambda>a. opt_length (a_result_json a)) (decode_attempt env)
          limit rows [] 0)
         (\<lambda>p. Inr (page_of (\<lambda>a. tok_attempt (at_token a)) p))))"

definition read_observation :: "observation_row \<Rightarrow> bool" where
  "read_observation x \<longleftrightarrow>
     read_text (ob_id x) 36 \<and> read_text (ob_outcome x) 9
     \<and> read_optional_text (ob_evidence_json x) 1048576"

definition decode_observation ::
  "'u store_env \<Rightarrow> string \<Rightarrow> observation_row \<Rightarrow> store_error + outcome_observation" where
  "decode_observation env job x =
     bind_res (positive (to_u32 (ob_attempt x))) (\<lambda>attempt.
     bind_res (positive (to_u64 (ob_fence x))) (\<lambda>fence.
     bind_res (validate_uuid_v7 env (ob_id x)) (\<lambda>_.
     bind_res (ensure (fence = 2 * attempt - 1) SeInvalidData) (\<lambda>_.
     bind_res (if ob_outcome x = ''succeeded'' then Inr CompletionSucceeded
               else if ob_outcome x = ''failed'' then Inr CompletionFailed
               else Inl SeInvalidData) (\<lambda>outcome.
     bind_res (ensure (\<not> ob_observed_at_ms x < 0) SeInvalidData) (\<lambda>_.
     bind_res (decode_optional_json env (ob_evidence_json x)) (\<lambda>evidence.
       Inr \<lparr>oo_job_id = job,
            oo_observation = \<lparr>lo_id = ob_id x, lo_token = \<lparr>tok_attempt = attempt, tok_fence = fence\<rparr>,
              lo_observed_at_ms = ob_observed_at_ms x, lo_outcome = outcome,
              lo_evidence = evidence\<rparr>\<rparr>)))))))"

text \<open>An observation's cursor is its time and id; a job's is when it was updated and its id.\<close>

definition past :: "(int \<times> string) option \<Rightarrow> int \<times> string \<Rightarrow> bool" where
  "past after k =
     (let (time, i) = (case after of None \<Rightarrow> (-1, []) | Some x \<Rightarrow> x) in
      fst k > time \<or> (fst k = time \<and> snd k > i))"

definition observations_tx ::
  "'u store_env \<Rightarrow> string \<Rightarrow> (int \<times> string) option \<Rightarrow> nat \<Rightarrow> conn
     \<Rightarrow> store_error + (outcome_observation, int \<times> string) history_page" where
  "observations_tx env job after limit c =
     bind_res (validate_page limit) (\<lambda>_.
     bind_res (validate_uuid_v7 env job) (\<lambda>_.
     bind_res (case after of None \<Rightarrow> Inr ()
        | Some (time, i) \<Rightarrow> ensure (\<not> (time < 0 \<or> validate_uuid_v7 env i \<noteq> Inr ())) SeInvalidData) (\<lambda>_.
       let key = (\<lambda>x. (ob_observed_at_ms x, ob_id x));
           rows = take (limit + 1) (sort_key key
             (filter (\<lambda>x. ob_job_id x = job \<and> past after (key x)) (cn_observations c)))
       in
       bind_res (page_loop read_observation (\<lambda>x. opt_length (ob_evidence_json x))
          (decode_observation env job) limit rows [] 0)
         (\<lambda>p. Inr (page_of (\<lambda>o'. (lo_observed_at_ms (oo_observation o'), lo_id (oo_observation o'))) p)))))"

definition candidate_row :: "bool \<Rightarrow> int \<Rightarrow> job_row \<Rightarrow> bool" where
  "candidate_row queued now_ms r \<longleftrightarrow>
     (if queued then r_state r = ''queued'' \<and> now_ms \<ge> 0
      else (r_state r = ''running'' \<and> (case r_lease_until_ms r of None \<Rightarrow> False | Some l \<Rightarrow> l \<le> now_ms))
           \<or> r_state r = ''interrupted'')"

definition job_cursor :: "job_row \<Rightarrow> int \<times> string" where
  "job_cursor r = (r_updated_at_ms r, r_id r)"

definition candidates_tx ::
  "'u store_env \<Rightarrow> int \<Rightarrow> (int \<times> string) option \<Rightarrow> nat \<Rightarrow> bool \<Rightarrow> conn
     \<Rightarrow> store_error + (recovery_candidate, int \<times> string) history_page" where
  "candidates_tx env now_ms after limit queued c =
     bind_res (validate_page limit) (\<lambda>_.
     bind_res (ensure (\<not> now_ms < 0) SeInvalidData) (\<lambda>_.
     bind_res (case after of None \<Rightarrow> Inr ()
        | Some (time, i) \<Rightarrow>
            bind_res (ensure (\<not> time < 0) SeInvalidData) (\<lambda>_. validate_uuid_v7 env i)) (\<lambda>_.
       let rows = take (limit + 1) (sort_key job_cursor
             (filter (\<lambda>r. candidate_row queued now_ms r \<and> past after (job_cursor r)) (cn_jobs c)))
       in
       bind_res (page_loop read_recovery_candidate (\<lambda>r. 0) (decode_recovery_candidate env)
          limit rows [] 0)
         (\<lambda>p. Inr (page_of (\<lambda>d. (j_updated_at_ms (cd_job d), j_id (cd_job d))) p)))))"

definition recovery_candidates_tx where
  "recovery_candidates_tx env now_ms after limit c = candidates_tx env now_ms after limit False c"

definition queued_candidates_tx where
  "queued_candidates_tx env after limit c = candidates_tx env 0 after limit True c"

section \<open>The store\<close>

text \<open>Each method of \<open>SqliteExtensionJobStore\<close> is its operation in a transaction of its own.\<close>

definition store_enqueue :: "'u store_env \<Rightarrow> new_extension_job \<Rightarrow> enqueue_result op" where
  "store_enqueue env new = transaction_or (enqueue_tx env new)"

definition store_enqueue_with_context ::
  "'u store_env \<Rightarrow> new_extension_job \<Rightarrow> job_invocation_context \<Rightarrow> enqueue_result op" where
  "store_enqueue_with_context env new context = transaction_or (enqueue_with_context_tx env new context)"

definition store_append_output ::
  "'u store_env \<Rightarrow> string \<Rightarrow> attempt_fence \<Rightarrow> new_job_output list \<Rightarrow> nat op" where
  "store_append_output env i tok rows = transaction_or (append_output_tx env i tok rows)"

definition store_transition ::
  "'u store_env \<Rightarrow> string \<Rightarrow> nat \<Rightarrow> job_event \<Rightarrow> json option \<Rightarrow> stored_extension_job op" where
  "store_transition env i expected event result =
     transaction_or (transition_tx env i expected event result)"

definition store_record_observation ::
  "'u store_env \<Rightarrow> string \<Rightarrow> late_outcome_observation \<Rightarrow> outcome_observation op" where
  "store_record_observation env i obs = transaction_or (record_observation_tx env i obs)"

definition store_get :: "'u store_env \<Rightarrow> string \<Rightarrow> conn \<Rightarrow> store_error + stored_extension_job" where
  "store_get env i c = bind_res (get_tx env i c) (\<lambda>found. ok_or found SeNotFound)"

definition store_metadata :: "'u store_env \<Rightarrow> string \<Rightarrow> conn \<Rightarrow> store_error + recovery_candidate" where
  "store_metadata env i c = bind_res (metadata_tx env i c) (\<lambda>found. ok_or found SeNotFound)"

end
