(* ===== verification/Job_Store_Inv.thy ===== *)
theory Job_Store_Inv
  imports Job_Store
begin

text \<open>
  What the job store promises. A row and the job it holds are one to one; the tables of a store
  that its own operations built stay consistent with the lifecycle; a transition of a stored job is
  the lifecycle's own, never refused by the tables; an intent is enqueued once; an attempt takes
  output only while it is open.
\<close>

section \<open>Operations\<close>

lemma ensure_transaction_bind [simp]:
  "\<not> cn_autocommit c \<Longrightarrow> bind_op ensure_transaction f c = f () c"
  "cn_autocommit c \<Longrightarrow> bind_op ensure_transaction f c = (Inl SeTransactionRequired, c)"
  by (simp_all add: bind_op_def ensure_transaction_def)

lemma invalid_unless_simps [simp]:
  "invalid_unless (Some a) = Inr a" "invalid_unless None = Inl SeInvalidData"
  by (simp_all add: invalid_unless_def)

lemma invalid_unless_Inr [simp]: "invalid_unless x = Inr a \<longleftrightarrow> x = Some a"
  by (simp add: invalid_unless_def ok_or_iff)

lemma with_savepoint_Inr [simp]:
  "write c = (Inr a, c') \<Longrightarrow> with_savepoint write c = (Inr a, c')"
  "write c = (Inl e, c') \<Longrightarrow> with_savepoint write c = (Inl e, c)"
  by (simp_all add: with_savepoint_def)

section \<open>The text of a contribution\<close>

lemma encode_raw: "\<forall>b \<in> set v. is_raw b \<Longrightarrow> encode v = v"
  by (induction v) (simp_all add: encode_byte_def)

lemma valid_local_raw: "valid_local k l \<Longrightarrow> b \<in> set l \<Longrightarrow> is_raw b \<and> is_ascii b"
  by (auto simp: valid_local_def Let_def is_raw_def char_class_defs)

lemma valid_extension_raw: "valid_extension_name e \<Longrightarrow> b \<in> set e \<Longrightarrow> is_raw b"
  by (auto simp: valid_extension_name_def is_raw_def char_class_defs)

lemma problem_None:
  assumes "problem i = None" "\<not> global_name (ci_kind i)"
  shows "valid_extension_name (ci_extension i)" "valid_local (ci_kind i) (ci_local i)"
  using assms by (auto simp: problem_def Let_def split: if_splits)

lemma contribution_id_eta [simp]:
  "contribution_id_new (ci_extension i) (ci_kind i) (ci_local i) = i"
  by (simp add: contribution_id_new_def)

lemma reference_ok:
  assumes "problem i = None" "\<not> global_name (ci_kind i)"
  shows "ref_ok (reference i)"
proof -
  have "utf8_valid (ci_local i)"
    using valid_local_raw [OF problem_None(2) [OF assms]] utf8_valid_ascii by blast
  with assms show ?thesis by (simp add: ref_ok_def reference_def)
qed

lemma contribution_text_parse:
  assumes "problem i = None" "\<not> global_name (ci_kind i)"
  shows "ref_from_str (contribution_text i) = Inr (reference i)" "ref_id (reference i) = Some i"
proof -
  show "ref_from_str (contribution_text i) = Inr (reference i)"
    using ref_display_total [of "reference i"] ref_from_display [OF reference_ok [OF assms]]
    by (auto simp: contribution_text_def)
  show "ref_id (reference i) = Some i"
    using assms(2) by (simp add: ref_id_def reference_def)
qed

lemma segment_length: "length (segment k) \<le> 16"
  by (cases k) simp_all

lemma contribution_text_bytes:
  assumes "problem i = None" "\<not> global_name (ci_kind i)"
    and "length (ci_extension i) \<le> 128" "length (ci_local i) \<le> 256"
  shows "bytes_between 1 512 (contribution_text i)"
proof -
  let ?v = "ci_extension i @ ''/'' @ ci_local i" and ?s = "segment (ci_kind i)"
  have "is_raw CHR ''/''" by (simp add: is_raw_def)
  then have "encode ?v = ?v"
    using valid_local_raw [OF problem_None(2) [OF assms(1,2)]]
      valid_extension_raw [OF problem_None(1) [OF assms(1,2)]] by (intro encode_raw) auto
  then have "contribution_text i = ''oxplow:oxplow/'' @ ?s @ ''?'' @ ?s @ ''='' @ ?v"
    using assms(2) segment_is_key [of "ci_kind i"]
    by (simp add: contribution_text_def ref_display_def reference_def Let_def uri_of_def
        of_with_view_def segment_resource [simplified] uri_new_def uri_display_def identity_def
        resource_name_display_def write_pair_def bt_of_list_def)
  with assms(3,4) segment_length [of "ci_kind i"] show ?thesis by (simp add: bytes_between_def)
qed

section \<open>Rows and jobs\<close>

text \<open>What a caller's types and \<open>validate_new_job\<close> promise of a job that is kept.\<close>

definition storable :: "'u store_env \<Rightarrow> stored_extension_job \<Rightarrow> bool" where
  "storable env s \<longleftrightarrow>
     job_inv (se_uuid env) (sj_job s)
     \<and> \<not> global_name (ci_kind (o_contribution (j_owner (sj_job s))))
     \<and> null_or (\<lambda>n. n \<le> u32_max) (o_contract_version (j_owner (sj_job s)))
     \<and> validate_metadata (sj_operation s) = Inr () \<and> validate_metadata (sj_invoker s) = Inr ()
     \<and> 0 < sj_revision s \<and> int (sj_revision s) \<le> i64_max"

definition job_row_of :: "stored_extension_job \<Rightarrow> string \<Rightarrow> job_row" where
  "job_row_of s request =
     (let j = sj_job s in
      \<lparr>r_id = j_id j, r_contribution_id = contribution_text (o_contribution (j_owner j)),
       r_package_version = o_package_version (j_owner j),
       r_contract_version = map_option int (o_contract_version (j_owner j)),
       r_operation = sj_operation s, r_invoker = sj_invoker s, r_run_id = j_run_id j,
       r_intent_key = j_intent_key j, r_replay_policy = replay_policy_name (j_replay_policy j),
       r_state = state_name (j_state j), r_attempt = int (j_attempt j), r_fence = int (j_fence j),
       r_lease_until_ms = j_lease_until_ms j, r_cancel_at_ms = j_cancel_at_ms j,
       r_created_at_ms = j_created_at_ms j, r_updated_at_ms = j_updated_at_ms j,
       r_revision = int (sj_revision s), r_request_json = request,
       r_deployment_hash = o_deployment (j_owner j)\<rparr>)"

lemma job_row_of_simps [simp]:
  "r_id (job_row_of s t) = j_id (sj_job s)"
  "r_contribution_id (job_row_of s t) = contribution_text (o_contribution (j_owner (sj_job s)))"
  "r_package_version (job_row_of s t) = o_package_version (j_owner (sj_job s))"
  "r_contract_version (job_row_of s t) = map_option int (o_contract_version (j_owner (sj_job s)))"
  "r_operation (job_row_of s t) = sj_operation s"
  "r_invoker (job_row_of s t) = sj_invoker s"
  "r_run_id (job_row_of s t) = j_run_id (sj_job s)"
  "r_intent_key (job_row_of s t) = j_intent_key (sj_job s)"
  "r_replay_policy (job_row_of s t) = replay_policy_name (j_replay_policy (sj_job s))"
  "r_state (job_row_of s t) = state_name (j_state (sj_job s))"
  "r_attempt (job_row_of s t) = int (j_attempt (sj_job s))"
  "r_fence (job_row_of s t) = int (j_fence (sj_job s))"
  "r_lease_until_ms (job_row_of s t) = j_lease_until_ms (sj_job s)"
  "r_cancel_at_ms (job_row_of s t) = j_cancel_at_ms (sj_job s)"
  "r_created_at_ms (job_row_of s t) = j_created_at_ms (sj_job s)"
  "r_updated_at_ms (job_row_of s t) = j_updated_at_ms (sj_job s)"
  "r_revision (job_row_of s t) = int (sj_revision s)"
  "r_request_json (job_row_of s t) = t"
  "r_deployment_hash (job_row_of s t) = o_deployment (j_owner (sj_job s))"
  by (simp_all add: job_row_of_def Let_def)

text \<open>What the library code is relied on for: the length of a UUID's text, and that what serde writes is JSON.\<close>

definition store_laws :: "'u store_env \<Rightarrow> bool" where
  "store_laws env \<longleftrightarrow>
     (\<forall>v. is_uuid_v7 (se_uuid env) v \<longrightarrow> length v = 36)
     \<and> (\<forall>v t. canonical_json (se_values env) v = Some t \<longrightarrow> sq_valid (se_sqlite env) t)
     \<and> (\<forall>v. sq_valid (se_sqlite env) (vl_text (se_values env) v))"

lemma parse_names [simp]:
  "parse_replay_policy (replay_policy_name p) = Inr p"
  "parse_state (state_name st) = Inr st"
  by (cases p; simp add: parse_replay_policy_def) (cases st; simp add: parse_state_def)

lemma state_name_iff [simp]: "state_name a = state_name b \<longleftrightarrow> a = b"
  by (cases a; cases b) simp_all

lemma state_name_const [simp]:
  "state_name st = ''queued'' \<longleftrightarrow> st = Queued"
  "state_name st = ''running'' \<longleftrightarrow> st = Running"
  "state_name st = ''interrupted'' \<longleftrightarrow> st = Interrupted"
  "state_name st = ''succeeded'' \<longleftrightarrow> st = Succeeded"
  "state_name st = ''failed'' \<longleftrightarrow> st = Failed"
  "state_name st = ''cancelled'' \<longleftrightarrow> st = Cancelled"
  by (cases st; simp)+

lemma policy_name_const [simp]:
  "replay_policy_name p = ''never'' \<longleftrightarrow> p = Never"
  "replay_policy_name p = ''idempotent'' \<longleftrightarrow> p = Idempotent"
  by (cases p; simp)+

lemma validate_metadata_Inr:
  "validate_metadata v = Inr () \<longleftrightarrow> v \<noteq> [] \<and> length v \<le> 256 \<and> list_all is_ascii_graphic v"
  by (force simp: validate_metadata_def list_all_iff is_ascii_graphic_def is_ascii_def)

lemma storable_owner:
  assumes "storable env s"
  shows "owner_validate (j_owner (sj_job s)) = Inr ()"
    "problem (o_contribution (j_owner (sj_job s))) = None"
    "length (ci_extension (o_contribution (j_owner (sj_job s)))) \<le> 128"
    "length (ci_local (o_contribution (j_owner (sj_job s)))) \<le> 256"
    "null_or (bytes_between 1 256) (o_package_version (j_owner (sj_job s)))"
    "null_or (bytes_between 1 256) (o_deployment (j_owner (sj_job s)))"
    "o_contract_version (j_owner (sj_job s)) \<noteq> Some 0"
proof -
  show ow: "owner_validate (j_owner (sj_job s)) = Inr ()"
    using assms by (simp add: storable_def job_inv_def job_validate_Inr)
  have "(case o_package_version (j_owner (sj_job s)) of None \<Rightarrow> False | Some v \<Rightarrow> \<not> valid_owner_identity v) = False"
    "(case o_deployment (j_owner (sj_job s)) of None \<Rightarrow> False | Some v \<Rightarrow> \<not> valid_owner_identity v) = False"
    using ow by (auto simp: owner_validate_def split: if_splits)
  then show "null_or (bytes_between 1 256) (o_package_version (j_owner (sj_job s)))"
    "null_or (bytes_between 1 256) (o_deployment (j_owner (sj_job s)))"
    by (auto simp: null_or_def bytes_between_def valid_owner_identity_def MAX_OWNER_IDENTITY_BYTES_def Suc_le_eq
        split: option.splits)
  show "problem (o_contribution (j_owner (sj_job s))) = None"
    "length (ci_extension (o_contribution (j_owner (sj_job s)))) \<le> 128"
    "length (ci_local (o_contribution (j_owner (sj_job s)))) \<le> 256"
    "o_contract_version (j_owner (sj_job s)) \<noteq> Some 0"
    using ow by (auto simp: owner_validate_def MAX_OWNER_IDENTITY_BYTES_def split: if_splits)
qed

lemma storable_counters:
  assumes "storable env s"
  shows "j_attempt (sj_job s) \<le> 3" "j_fence (sj_job s) \<le> 6"
proof -
  have "\<not> counters_bad (se_uuid env) (sj_job s)" "\<not> state_bad (sj_job s)"
    using assms by (simp_all add: storable_def job_inv_def job_validate_Inr)
  then show "j_attempt (sj_job s) \<le> 3" "j_fence (sj_job s) \<le> 6"
    by (auto simp: counters_bad_def MAX_ATTEMPTS_def state_bad_def recovered_fence_def claimed_fence_def
        split: job_state.splits)
qed

lemma job_eta:
  "\<lparr>j_id = j_id j,
     j_owner = \<lparr>o_contribution = o_contribution (j_owner j), o_package_version = o_package_version (j_owner j),
       o_contract_version = o_contract_version (j_owner j), o_deployment = o_deployment (j_owner j)\<rparr>,
     j_run_id = j_run_id j, j_intent_key = j_intent_key j, j_replay_policy = j_replay_policy j,
     j_state = j_state j, j_attempt = j_attempt j, j_fence = j_fence j,
     j_lease_until_ms = j_lease_until_ms j, j_cancel_at_ms = j_cancel_at_ms j,
     j_created_at_ms = j_created_at_ms j, j_updated_at_ms = j_updated_at_ms j\<rparr> = j"
  by simp

lemma decode_job_row:
  assumes "storable env s"
  shows "decode_job env (job_row_of s t) = Inr (sj_job s)"
proof -
  have inv: "job_validate (se_uuid env) (sj_job s) = Inr ()"
    using assms by (simp add: storable_def job_inv_def)
  then have "is_uuid_v7 (se_uuid env) (j_id (sj_job s))" "intent_validate (j_intent_key (sj_job s)) = Inr ()"
    by (simp_all add: job_validate_Inr)
  moreover have "to_u32 (int (j_attempt (sj_job s))) = Some (j_attempt (sj_job s))"
    "to_u64 (int (j_fence (sj_job s))) = Some (j_fence (sj_job s))"
    using storable_counters [OF assms] by (simp_all add: to_u32_def to_u64_def u32_max_def)
  moreover have "(case map_option int (o_contract_version (j_owner (sj_job s))) of None \<Rightarrow> Inr None
      | Some v \<Rightarrow> bind_res (invalid_unless (to_u32 v)) (\<lambda>n. Inr (Some n)))
      = (Inr (o_contract_version (j_owner (sj_job s))) :: store_error + nat option)"
    using assms by (auto simp: storable_def null_or_def to_u32_def split: option.splits)
  moreover have "\<not> global_name (ci_kind (o_contribution (j_owner (sj_job s))))"
    using assms by (simp add: storable_def)
  note contribution_text_parse [OF storable_owner(2) [OF assms] this]
  ultimately show ?thesis
    using inv by (simp add: decode_job_def parse_job_id_def validate_uuid_v7_def intent_key_new_def Let_def
        job_eta)
qed

lemma decode_row_data:
  assumes "storable env s" "parse_bounded_json (se_values env) t = Some (sj_request s)"
  shows "decode_stored_job_data env (job_row_of s t) = Inr s"
proof -
  have "decode_revision (int (sj_revision s)) = Inr (sj_revision s)"
    using assms(1) by (simp add: storable_def decode_revision_def to_u64_def)
  with assms decode_job_row [OF assms(1), of t] show ?thesis
    by (simp add: decode_stored_job_data_def storable_def)
qed

lemma decode_candidate_row:
  assumes "storable env s"
  shows "decode_recovery_candidate env (job_row_of s t) =
     Inr \<lparr>cd_job = sj_job s, cd_operation = sj_operation s, cd_invoker = sj_invoker s,
          cd_revision = sj_revision s\<rparr>"
proof -
  have "decode_revision (int (sj_revision s)) = Inr (sj_revision s)"
    using assms(1) by (simp add: storable_def decode_revision_def to_u64_def)
  with assms decode_job_row [OF assms(1), of t] show ?thesis
    by (simp add: decode_recovery_candidate_def storable_def)
qed

lemma storable_uuids:
  assumes "storable env s" "store_laws env"
  shows "is_uuid_v7 (se_uuid env) (j_id (sj_job s))" "length (j_id (sj_job s)) = 36"
    "is_uuid_v7 (se_uuid env) (j_run_id (sj_job s))" "length (j_run_id (sj_job s)) = 36"
proof -
  show "is_uuid_v7 (se_uuid env) (j_id (sj_job s))" "is_uuid_v7 (se_uuid env) (j_run_id (sj_job s))"
    using assms(1) by (simp_all add: storable_def job_inv_def job_validate_Inr counters_bad_def)
  with assms(2) show "length (j_id (sj_job s)) = 36" "length (j_run_id (sj_job s)) = 36"
    by (simp_all add: store_laws_def)
qed

lemma storable_key:
  assumes "storable env s"
  shows "bytes_between 1 128 (j_intent_key (sj_job s))"
  using assms by (auto simp: storable_def job_inv_def job_validate_Inr intent_validate_def
      bytes_between_def MAX_INTENT_KEY_BYTES_def Suc_le_eq split: if_splits)

lemma row_text:
  assumes "storable env s"
  shows "bytes_between 1 512 (contribution_text (o_contribution (j_owner (sj_job s))))"
    "bytes_between 1 256 (sj_operation s)" "bytes_between 1 256 (sj_invoker s)"
proof -
  show "bytes_between 1 512 (contribution_text (o_contribution (j_owner (sj_job s))))"
    using contribution_text_bytes storable_owner(2-4) [OF assms] assms by (simp add: storable_def)
  show "bytes_between 1 256 (sj_operation s)" "bytes_between 1 256 (sj_invoker s)"
    using assms by (auto simp: storable_def validate_metadata_Inr bytes_between_def Suc_le_eq)
qed

lemma names_short: "length (replay_policy_name p) \<le> 10" "length (state_name st) \<le> 11"
  by (cases p; simp) (cases st; simp)

lemma row_readable:
  assumes "storable env s" "store_laws env"
  shows "read_recovery_candidate (job_row_of s t)"
    "length t \<le> 1048576 \<Longrightarrow> decode_stored_job (job_row_of s t)"
  using storable_uuids [OF assms] storable_key [OF assms(1)] row_text [OF assms(1)] names_short
    storable_owner(5,6) [OF assms(1)]
  by (auto simp: read_recovery_candidate_def decode_stored_job_def read_text_def read_optional_text_def
      bytes_between_def null_or_def split: option.splits)

lemma storable_state_check:
  assumes "storable env s"
  shows "state_check (job_row_of s t)"
proof -
  have "\<not> state_bad (sj_job s)" using assms by (simp add: storable_def job_inv_def job_validate_Inr)
  then show ?thesis
    by (cases "j_state (sj_job s)")
      (auto simp: state_bad_def state_check_def recovered_fence_def claimed_fence_def
        split: option.splits)
qed

lemma row_checks:
  assumes "storable env s" "sq_valid (se_sqlite env) t" "length t \<le> 1048576"
  shows "job_checks (se_sqlite env) (job_row_of s t)"
proof -
  have "\<not> counters_bad (se_uuid env) (sj_job s)" "\<not> cancel_bad (sj_job s)"
    using assms(1) by (simp_all add: storable_def job_inv_def job_validate_Inr)
  then have times: "0 \<le> j_created_at_ms (sj_job s)" "j_created_at_ms (sj_job s) \<le> j_updated_at_ms (sj_job s)"
    "j_replay_policy (sj_job s) = Never \<Longrightarrow> j_attempt (sj_job s) \<le> 1"
    "null_or (\<lambda>x. j_created_at_ms (sj_job s) \<le> x \<and> x \<le> j_updated_at_ms (sj_job s)) (j_cancel_at_ms (sj_job s))"
    by (auto simp: counters_bad_def cancel_bad_def null_or_def split: option.splits)
  have contract: "null_or (\<lambda>v. v > 0 \<and> v \<le> 4294967295)
      (map_option int (o_contract_version (j_owner (sj_job s))))"
    using assms(1) storable_owner(7) [OF assms(1)]
    by (auto simp: storable_def null_or_def u32_max_def split: option.splits)
  have names: "replay_policy_name (j_replay_policy (sj_job s)) \<in> {''never'', ''idempotent''}"
    "state_name (j_state (sj_job s)) \<in> {''queued'', ''running'', ''interrupted'', ''succeeded'', ''failed'', ''cancelled''}"
    by (cases "j_replay_policy (sj_job s)"; simp) (cases "j_state (sj_job s)"; simp)
  have counts: "int (j_attempt (sj_job s)) \<le> 4294967295" "0 < int (sj_revision s)"
    using storable_counters(1) [OF assms(1)] assms(1) by (simp_all add: storable_def)
  show ?thesis
    unfolding job_checks_def job_row_of_simps
    using times contract names counts row_text [OF assms(1)] storable_key [OF assms(1)]
      storable_owner(5,6) [OF assms(1)] storable_state_check [OF assms(1)] assms(2,3)
    by (intro conjI) simp_all
qed

section \<open>The invariant of the tables\<close>

definition row_ok :: "'u store_env \<Rightarrow> job_row \<Rightarrow> bool" where
  "row_ok env r \<longleftrightarrow>
     (\<exists>s t. r = job_row_of s t \<and> storable env s
        \<and> parse_bounded_json (se_values env) t = Some (sj_request s))"

definition json_text_ok :: "'u store_env \<Rightarrow> string option \<Rightarrow> bool" where
  "json_text_ok env t \<longleftrightarrow>
     null_or (\<lambda>x. sq_valid (se_sqlite env) x \<and> (\<exists>v. parse_bounded_json (se_values env) x = Some v)) t"

text \<open>The running attempt is the last one, open, with the job's lease; every other one is closed.\<close>

definition attempt_is_open :: "job_row \<Rightarrow> attempt_row \<Rightarrow> bool" where
  "attempt_is_open r a \<longleftrightarrow>
     a_closed_at_ms a = None \<and> a_outcome a = None \<and> a_result_json a = None
     \<and> r_lease_until_ms r = Some (a_lease_until_ms a)"

definition attempt_is_closed :: "'u store_env \<Rightarrow> attempt_row \<Rightarrow> bool" where
  "attempt_is_closed env a \<longleftrightarrow>
     (\<exists>t oc. a_closed_at_ms a = Some t \<and> a_started_at_ms a \<le> t \<and> a_outcome a = Some oc
        \<and> oc \<in> {''succeeded'', ''failed'', ''cancelled'', ''interrupted''}
        \<and> (a_result_json a \<noteq> None \<longrightarrow> oc \<noteq> ''interrupted''))
     \<and> json_text_ok env (a_result_json a)"

definition attempt_fits :: "'u store_env \<Rightarrow> job_row \<Rightarrow> attempt_row \<Rightarrow> bool" where
  "attempt_fits env r a \<longleftrightarrow>
     a_job_id a = r_id r \<and> 1 \<le> a_attempt a \<and> a_attempt a \<le> r_attempt r
     \<and> a_fence a = 2 * a_attempt a - 1
     \<and> 0 \<le> a_started_at_ms a \<and> a_started_at_ms a \<le> r_updated_at_ms r
     \<and> a_started_at_ms a < a_lease_until_ms a
     \<and> (if r_state r = ''running'' \<and> a_attempt a = r_attempt r
        then attempt_is_open r a else attempt_is_closed env a)"

definition context_fits :: "'u store_env \<Rightarrow> job_row \<Rightarrow> context_row \<Rightarrow> bool" where
  "context_fits env r x \<longleftrightarrow>
     c_job_id x = r_id r \<and> c_originating_run_id x = r_run_id r
     \<and> length (c_context_json x) \<le> 65536
     \<and> (\<exists>ctx. decode_json (se_uuid env) (se_json env) (c_context_json x) = Inr ctx
          \<and> jc_originating_run_id ctx = r_run_id r
          \<and> encode_json (se_uuid env) (se_json env) ctx = Inr (c_context_json x))"

abbreviation intent_of :: "job_row \<Rightarrow> string \<times> string" where
  "intent_of r \<equiv> (r_contribution_id r, r_intent_key r)"

abbreviation attempt_key :: "attempt_row \<Rightarrow> string \<times> int" where
  "attempt_key a \<equiv> (a_job_id a, a_attempt a)"

definition store_inv :: "'u store_env \<Rightarrow> conn \<Rightarrow> bool" where
  "store_inv env c \<longleftrightarrow>
     distinct (map r_id (cn_jobs c)) \<and> distinct (map intent_of (cn_jobs c))
     \<and> (\<forall>r \<in> set (cn_jobs c). row_ok env r)
     \<and> distinct (map attempt_key (cn_attempts c))
     \<and> (\<forall>a \<in> set (cn_attempts c). \<exists>r \<in> set (cn_jobs c). attempt_fits env r a)
     \<and> (\<forall>r \<in> set (cn_jobs c). \<forall>n. 1 \<le> n \<and> n \<le> r_attempt r \<longrightarrow>
          (\<exists>a \<in> set (cn_attempts c). attempt_key a = (r_id r, n)))
     \<and> distinct (map c_job_id (cn_contexts c))
     \<and> (\<forall>x \<in> set (cn_contexts c). \<exists>r \<in> set (cn_jobs c). context_fits env r x)"

lemma filter_unique:
  assumes "distinct (map k xs)" "x \<in> set xs" "P x" "\<And>y. y \<in> set xs \<Longrightarrow> P y \<Longrightarrow> k y = k x"
  shows "filter P xs = [x]"
  using assms
proof (induction xs)
  case (Cons y ys)
  show ?case
  proof (cases "y = x")
    case True
    then have "\<not> P z" if "z \<in> set ys" for z
      using that Cons.prems(1,4) by (auto simp: image_iff)
    then have "filter P ys = []" by (simp add: filter_empty_conv)
    with True Cons.prems(3) show ?thesis by simp
  next
    case False
    then have x: "x \<in> set ys" using Cons.prems(2) by simp
    have "\<not> P y"
    proof
      assume "P y"
      then have "k y = k x" using Cons.prems(4) [of y] by simp
      then have "k y \<in> k ` set ys" using x by simp
      with Cons.prems(1) show False by simp
    qed
    moreover have "filter P ys = [x]"
    proof (rule Cons.IH)
      show "distinct (map k ys)" using Cons.prems(1) by simp
      show "z \<in> set ys \<Longrightarrow> P z \<Longrightarrow> k z = k x" for z using Cons.prems(4) [of z] by simp
    qed (fact x, fact Cons.prems(3))
    ultimately show ?thesis by simp
  qed
qed simp

lemma find_unique:
  assumes "distinct (map k xs)" "x \<in> set xs"
  shows "find (\<lambda>y. k y = k x) xs = Some x"
  using assms
proof (induction xs)
  case (Cons y ys)
  then show ?case by (cases "y = x") (auto simp: image_iff)
qed simp

lemma find_None_key: "find (\<lambda>y. k y = z) xs = None \<longleftrightarrow> z \<notin> k ` set xs"
  by (auto simp: find_None_iff)

lemma map_replace:
  assumes "distinct (map k xs)" "x \<in> set xs" "P x" "\<And>y. y \<in> set xs \<Longrightarrow> P y \<Longrightarrow> k y = k x"
  shows "map (\<lambda>y. if P y then f y else y) xs = map (\<lambda>y. if k y = k x then f x else y) xs"
proof (rule map_cong [OF refl])
  fix y assume y: "y \<in> set xs"
  show "(if P y then f y else y) = (if k y = k x then f x else y)"
  proof (cases "k y = k x")
    case True
    then have "y = x" using assms(1,2) y by (auto simp: distinct_map dest: inj_onD)
    with assms(3) show ?thesis by simp
  next
    case False
    with assms(4) y show ?thesis by auto
  qed
qed

lemma store_row:
  assumes "store_inv env c" "r \<in> set (cn_jobs c)"
  shows "row_ok env r" "find (\<lambda>q. r_id q = r_id r) (cn_jobs c) = Some r"
  using assms find_unique [of r_id "cn_jobs c" r] by (auto simp: store_inv_def)

lemma row_okE:
  assumes "row_ok env r"
  obtains s t where "r = job_row_of s t" "storable env s"
    "parse_bounded_json (se_values env) t = Some (sj_request s)"
  using assms unfolding row_ok_def by blast

text \<open>What \<open>get\<close> returns is a row of the table, and every row can be got.\<close>

lemma get_stored_row:
  assumes "store_inv env c" "store_laws env" "job_row_of s t \<in> set (cn_jobs c)" "storable env s"
    "parse_bounded_json (se_values env) t = Some (sj_request s)"
  shows "get_tx env (j_id (sj_job s)) c = Inr (Some s)"
  using store_row(2) [OF assms(1,3)] storable_uuids(1) [OF assms(4,2)] row_readable(2) [OF assms(4,2)]
    decode_row_data [OF assms(4,5)] assms(5)
  by (simp add: get_tx_def validate_uuid_v7_def parse_bounded_Some MAX_STORED_BYTES_def)

lemma get_tx_row:
  assumes "store_inv env c" "store_laws env" "get_tx env i c = Inr (Some s)"
  obtains t where "job_row_of s t \<in> set (cn_jobs c)" "storable env s" "i = j_id (sj_job s)"
    "parse_bounded_json (se_values env) t = Some (sj_request s)"
proof -
  obtain r where r: "find (\<lambda>r. r_id r = i) (cn_jobs c) = Some r"
    using assms(3) by (auto simp: get_tx_def bind_res_Inr split: option.splits)
  then have in_tab: "r \<in> set (cn_jobs c)" "r_id r = i" by (auto simp: find_Some_iff)
  obtain s' t where s': "r = job_row_of s' t" "storable env s'"
    "parse_bounded_json (se_values env) t = Some (sj_request s')"
    using store_row(1) [OF assms(1) in_tab(1)] by (rule row_okE)
  with get_stored_row [OF assms(1,2) _ s'(2,3)] in_tab assms(3) have "s' = s" by auto
  with s' in_tab show ?thesis using that by auto
qed

lemma get_tx_None:
  assumes "store_inv env c" "store_laws env"
  shows "get_tx env i c = Inr None \<longleftrightarrow> is_uuid_v7 (se_uuid env) i \<and> i \<notin> r_id ` set (cn_jobs c)"
proof (cases "find (\<lambda>r. r_id r = i) (cn_jobs c)")
  case None
  moreover from this have "i \<notin> r_id ` set (cn_jobs c)" by (simp add: find_None_key)
  ultimately show ?thesis by (auto simp: get_tx_def validate_uuid_v7_def bind_res_Inr)
next
  case (Some r)
  then have "r \<in> set (cn_jobs c)" "r_id r = i" by (auto simp: find_Some_iff)
  moreover obtain s t where "r = job_row_of s t" "storable env s"
    "parse_bounded_json (se_values env) t = Some (sj_request s)"
    using store_row(1) [OF assms(1) \<open>r \<in> set (cn_jobs c)\<close>] by (rule row_okE)
  ultimately show ?thesis using get_stored_row [OF assms, of s t] by force
qed

text \<open>Under the invariant reading a job never fails.\<close>

lemma get_tx_total:
  assumes "store_inv env c" "store_laws env" "is_uuid_v7 (se_uuid env) i"
  shows "\<exists>found. get_tx env i c = Inr found"
proof (cases "i \<in> r_id ` set (cn_jobs c)")
  case True
  then obtain r where r: "r \<in> set (cn_jobs c)" "r_id r = i" by blast
  obtain s t where "r = job_row_of s t" "storable env s"
    "parse_bounded_json (se_values env) t = Some (sj_request s)"
    using store_row(1) [OF assms(1) r(1)] by (rule row_okE)
  with r get_stored_row [OF assms(1,2), of s t] show ?thesis by auto
next
  case False
  with assms get_tx_None [OF assms(1,2)] show ?thesis by auto
qed

section \<open>A transition of the attempts\<close>

lemma apply_keeps:
  assumes "apply_event j ev = Inr (n, tok)"
  shows "j_id n = j_id j" "j_run_id n = j_run_id j" "j_intent_key n = j_intent_key j"
    "j_replay_policy n = j_replay_policy j" "j_created_at_ms n = j_created_at_ms j"
    "o_contribution (j_owner n) = o_contribution (j_owner j)"
    "o_contract_version (j_owner n) = o_contract_version (j_owner j)"
    "j_updated_at_ms j \<le> j_updated_at_ms n"
    "j_state j \<notin> {Succeeded, Failed, Cancelled}"
    "j_owner n \<noteq> j_owner j \<Longrightarrow> j_state j = Queued \<and> j_state n = Queued \<and> j_attempt n = j_attempt j
       \<and> j_fence n = j_fence j"
    "j_cancel_at_ms j \<noteq> None \<Longrightarrow> j_cancel_at_ms n = j_cancel_at_ms j"
  using assms by (cases ev; auto simp: apply_iffs check_running_token_iff)+

lemma fits_row:
  assumes "store_inv env c" "a \<in> set (cn_attempts c)" "r \<in> set (cn_jobs c)" "a_job_id a = r_id r"
  shows "attempt_fits env r a"
proof -
  obtain q where q: "q \<in> set (cn_jobs c)" "attempt_fits env q a"
    using assms(1,2) unfolding store_inv_def by blast
  then have "r_id q = r_id r" using assms(4) by (simp add: attempt_fits_def)
  with assms(1,3) q(1) have "q = r" by (auto simp: store_inv_def distinct_map dest: inj_onD)
  with q show ?thesis by simp
qed

lemma attempt_found:
  assumes "store_inv env c" "r \<in> set (cn_jobs c)" "1 \<le> n" "n \<le> r_attempt r"
  obtains a where "a \<in> set (cn_attempts c)" "attempt_key a = (r_id r, n)"
proof -
  have "\<forall>r \<in> set (cn_jobs c). \<forall>n. 1 \<le> n \<and> n \<le> r_attempt r \<longrightarrow>
      (\<exists>a \<in> set (cn_attempts c). attempt_key a = (r_id r, n))"
    using assms(1) unfolding store_inv_def by (elim conjE)
  with assms(2-4) that show ?thesis by blast
qed

abbreviation open_key :: "extension_job \<Rightarrow> int \<Rightarrow> attempt_row \<Rightarrow> bool" where
  "open_key j fence a \<equiv> a_job_id a = j_id j \<and> a_attempt a = int (j_attempt j) \<and> a_fence a = fence
     \<and> a_closed_at_ms a = None \<and> Some (a_lease_until_ms a) = j_lease_until_ms j"

lemma open_attempt:
  assumes "store_inv env c" "job_row_of s t \<in> set (cn_jobs c)" "storable env s"
    "j_state (sj_job s) = Running"
  obtains a where "a \<in> set (cn_attempts c)" "open_key (sj_job s) (int (j_fence (sj_job s))) a"
    "filter (open_key (sj_job s) (int (j_fence (sj_job s)))) (cn_attempts c) = [a]"
    "a_started_at_ms a \<le> j_updated_at_ms (sj_job s)" "0 \<le> a_started_at_ms a" "a_outcome a = None"
    "a_result_json a = None" "a_started_at_ms a < a_lease_until_ms a" "1 \<le> a_attempt a"
proof -
  let ?j = "sj_job s"
  have run: "0 < j_attempt ?j" "int (j_fence ?j) = 2 * int (j_attempt ?j) - 1"
    using storable_state_check [OF assms(3), of t] assms(4) by (auto simp: state_check_def)
  obtain a where a: "a \<in> set (cn_attempts c)" "attempt_key a = (j_id ?j, int (j_attempt ?j))"
    by (rule attempt_found [OF assms(1,2), of "int (j_attempt ?j)"]) (use run in auto)
  have fits: "attempt_fits env (job_row_of s t) a"
    by (rule fits_row [OF assms(1) a(1) assms(2)]) (use a(2) in simp)
  with a(2) run assms(4) have "open_key ?j (int (j_fence ?j)) a"
    by (simp add: attempt_fits_def attempt_is_open_def)
  moreover have "filter (open_key ?j (int (j_fence ?j))) (cn_attempts c) = [a]"
  proof (rule filter_unique [where k = attempt_key])
    show "distinct (map attempt_key (cn_attempts c))" using assms(1) by (simp add: store_inv_def)
    show "attempt_key y = attempt_key a" if "open_key ?j (int (j_fence ?j)) y" for y
      using that a(2) by simp
  qed (fact a(1), fact calculation)
  ultimately show ?thesis using that [of a] a fits assms(4) by (simp add: attempt_fits_def attempt_is_open_def)
qed

lemma fits_later:
  assumes "attempt_fits env r a" "r_id r' = r_id r" "r_attempt r \<le> r_attempt r'"
    "r_updated_at_ms r \<le> r_updated_at_ms r'"
    "\<not> (r_state r = ''running'' \<and> a_attempt a = r_attempt r)"
    "\<not> (r_state r' = ''running'' \<and> a_attempt a = r_attempt r')"
  shows "attempt_fits env r' a"
  using assms by (auto simp: attempt_fits_def)

text \<open>What a step of job \<open>i\<close> leaves of the attempts.\<close>

definition attempts_step :: "'u store_env \<Rightarrow> conn \<Rightarrow> job_row \<Rightarrow> attempt_row list \<Rightarrow> bool" where
  "attempts_step env c r' A \<longleftrightarrow>
     distinct (map attempt_key A)
     \<and> (\<forall>a \<in> set A. a_job_id a = r_id r' \<longrightarrow> attempt_fits env r' a)
     \<and> (\<forall>n. 1 \<le> n \<and> n \<le> r_attempt r' \<longrightarrow> (\<exists>a \<in> set A. attempt_key a = (r_id r', n)))
     \<and> filter (\<lambda>a. a_job_id a \<noteq> r_id r') A = filter (\<lambda>a. a_job_id a \<noteq> r_id r') (cn_attempts c)"

lemma attempts_unchanged:
  assumes "store_inv env c" "r \<in> set (cn_jobs c)" "r_id r' = r_id r" "r_attempt r' = r_attempt r"
    "r_updated_at_ms r \<le> r_updated_at_ms r'"
    "r_state r = ''running'' \<longleftrightarrow> r_state r' = ''running''"
    "r_state r = ''running'' \<Longrightarrow> r_lease_until_ms r' = r_lease_until_ms r"
  shows "attempts_step env c r' (cn_attempts c)"
proof -
  have "attempt_fits env r' a" if "a \<in> set (cn_attempts c)" "a_job_id a = r_id r'" for a
  proof -
    have f: "attempt_fits env r a" by (rule fits_row [OF assms(1) that(1) assms(2)]) (use that assms(3) in simp)
    show ?thesis
    proof (cases "r_state r = ''running'' \<and> a_attempt a = r_attempt r")
      case True
      with f assms(3-7) show ?thesis by (simp add: attempt_fits_def attempt_is_open_def)
    next
      case False
      with fits_later [OF f assms(3)] assms(4-6) show ?thesis by auto
    qed
  qed
  with assms(1-4) show ?thesis by (simp add: attempts_step_def store_inv_def)
qed

lemma attempts_changed:
  assumes inv: "store_inv env c" and r: "r \<in> set (cn_jobs c)" "r_id r' = r_id r" "r_attempt r' = r_attempt r"
    "r_updated_at_ms r \<le> r_updated_at_ms r'" "r_state r = ''running''"
    and a: "a \<in> set (cn_attempts c)" "a_job_id a = r_id r" "a_attempt a = r_attempt r"
    and f: "attempt_key (f a) = attempt_key a" "attempt_fits env r' (f a)"
    and A: "A = map (\<lambda>y. if attempt_key y = attempt_key a then f a else y) (cn_attempts c)"
  shows "attempts_step env c r' A"
proof -
  have "map attempt_key A = map attempt_key (cn_attempts c)" using f(1) A by (simp add: o_def if_distrib cong: if_cong)
  then have keys: "distinct (map attempt_key A)" "attempt_key ` set A = attempt_key ` set (cn_attempts c)"
    using inv by (simp_all add: store_inv_def) (metis list.set_map)
  have fits: "attempt_fits env r' y" if y: "y \<in> set (cn_attempts c)" "a_job_id y = r_id r'"
      "attempt_key y \<noteq> attempt_key a" for y
  proof (rule fits_later [of env r])
    show "attempt_fits env r y" by (rule fits_row [OF inv y(1) r(1)]) (use y r in simp)
  qed (use y r a in auto)
  have "\<exists>y \<in> set A. attempt_key y = (r_id r', n)" if n: "1 \<le> n" "n \<le> r_attempt r'" for n
  proof -
    obtain y where "y \<in> set (cn_attempts c)" "attempt_key y = (r_id r, n)"
      by (rule attempt_found [OF inv r(1), of n]) (use r n in auto)
    then have "(r_id r, n) \<in> attempt_key ` set (cn_attempts c)"
      using imageI [of y "set (cn_attempts c)" attempt_key] by simp
    then have "(r_id r, n) \<in> attempt_key ` set A" unfolding keys(2) .
    then obtain z where "z \<in> set A" "(r_id r, n) = attempt_key z" by (rule imageE)
    with r(2) show ?thesis by (intro bexI [of _ z]) simp_all
  qed
  moreover have "filter (\<lambda>y. a_job_id y \<noteq> r_id r') A = filter (\<lambda>y. a_job_id y \<noteq> r_id r') (cn_attempts c)"
  proof -
    have "filter (\<lambda>y. a_job_id y \<noteq> r_id r') (map (\<lambda>y. if attempt_key y = attempt_key a then f a else y) xs)
        = filter (\<lambda>y. a_job_id y \<noteq> r_id r') xs" for xs
      using f(1) a(2) r(2) by (induction xs) auto
    then show ?thesis by (simp add: A)
  qed
  moreover have "attempt_fits env r' x" if "x \<in> set A" "a_job_id x = r_id r'" for x
  proof -
    from that(1) obtain y where y: "y \<in> set (cn_attempts c)"
      "x = (if attempt_key y = attempt_key a then f a else y)" by (auto simp: A)
    show ?thesis
    proof (cases "attempt_key y = attempt_key a")
      case True
      with y(2) f(2) show ?thesis by simp
    next
      case False
      then have "x = y" using y(2) by (simp only: if_False)
      then show ?thesis using that(2) fits [OF y(1) _ False] by simp
    qed
  qed
  ultimately show ?thesis using keys(1) by (simp add: attempts_step_def)
qed

text \<open>The running attempt's row changes, and the statement is not refused.\<close>

lemma update_open_attempt:
  assumes inv: "store_inv env c" and r: "job_row_of s t \<in> set (cn_jobs c)" "storable env s"
    "j_state (sj_job s) = Running"
    and r': "r_id r' = j_id (sj_job s)" "r_attempt r' = int (j_attempt (sj_job s))"
    "j_updated_at_ms (sj_job s) \<le> r_updated_at_ms r'"
    and f: "\<And>a. attempt_key (f a) = attempt_key a" "\<And>a. a_fence (f a) = a_fence a"
      "\<And>a. a_started_at_ms (f a) = a_started_at_ms a"
    and ok: "\<And>a. open_key (sj_job s) (int (j_fence (sj_job s))) a \<Longrightarrow>
        a_started_at_ms a \<le> j_updated_at_ms (sj_job s) \<Longrightarrow> 0 \<le> a_started_at_ms a \<Longrightarrow>
        a_started_at_ms a < a_lease_until_ms a \<Longrightarrow> a_outcome a = None \<Longrightarrow> a_result_json a = None \<Longrightarrow>
        a_lease_until_ms a \<le> a_lease_until_ms (f a)
        \<and> attempt_checks (se_sqlite env) (f a) \<and> attempt_fits env r' (f a)"
  shows "\<exists>A. update_attempts (se_sqlite env) (open_key (sj_job s) (int (j_fence (sj_job s)))) f c
        = Inr (1, c\<lparr>cn_attempts := A\<rparr>)
      \<and> attempts_step env c r' A"
proof -
  let ?P = "open_key (sj_job s) (int (j_fence (sj_job s)))"
  obtain a where a: "a \<in> set (cn_attempts c)" "?P a" "filter ?P (cn_attempts c) = [a]"
    "a_started_at_ms a \<le> j_updated_at_ms (sj_job s)" "0 \<le> a_started_at_ms a" "a_outcome a = None"
    "a_result_json a = None" "a_started_at_ms a < a_lease_until_ms a" "1 \<le> a_attempt a"
    by (rule open_attempt [OF inv r])
  have fa: "a_lease_until_ms a \<le> a_lease_until_ms (f a)" "attempt_checks (se_sqlite env) (f a)"
    "attempt_fits env r' (f a)" using ok [of a] a by simp_all
  have "\<not> attempt_update_refused a (f a)"
    using a(2) f [of a] fa(1) by (simp add: attempt_update_refused_def)
  then have upd: "update_attempts (se_sqlite env) ?P f c
      = Inr (1, c\<lparr>cn_attempts := map (\<lambda>y. if ?P y then f y else y) (cn_attempts c)\<rparr>)"
    using a(3) fa(2) by (simp add: update_attempts_def Let_def)
  have same: "map (\<lambda>y. if ?P y then f y else y) (cn_attempts c)
      = map (\<lambda>y. if attempt_key y = attempt_key a then f a else y) (cn_attempts c)"
  proof (rule map_replace)
    show "distinct (map attempt_key (cn_attempts c))" using inv by (simp add: store_inv_def)
    show "attempt_key y = attempt_key a" if "?P y" for y using that a(2) by simp
  qed (fact a(1), fact a(2))
  have "attempts_step env c r' (map (\<lambda>y. if attempt_key y = attempt_key a then f a else y) (cn_attempts c))"
    by (rule attempts_changed [where f = f and a = a, OF inv r(1) _ _ _ _ a(1) _ _ _ fa(3) refl])
      (use r' r(3) a(2) f(1) [of a] in simp_all)
  with upd same show ?thesis by auto
qed

lemma to_i64_fence [simp]: "storable env s \<Longrightarrow> to_i64 (j_fence (sj_job s)) = Inr (int (j_fence (sj_job s)))"
  using storable_counters(2) [of env s] by (simp add: to_i64_def i64_max_def)

lemma close_attempt_step:
  assumes "store_inv env c" "job_row_of s t \<in> set (cn_jobs c)" "storable env s"
    "j_state (sj_job s) = Running"
    and r': "r_id r' = j_id (sj_job s)" "r_attempt r' = int (j_attempt (sj_job s))"
    "j_updated_at_ms (sj_job s) \<le> r_updated_at_ms r'" "r_state r' \<noteq> ''running''"
    and now: "j_updated_at_ms (sj_job s) \<le> now"
    and oc: "oc \<in> {''succeeded'', ''failed'', ''cancelled'', ''interrupted''}"
      "res \<noteq> None \<Longrightarrow> oc \<noteq> ''interrupted''" "json_text_ok env res"
  shows "\<exists>A. close_attempt env (sj_job s) now oc res c = (Inr (), c\<lparr>cn_attempts := A\<rparr>)
      \<and> attempts_step env c r' A"
proof -
  let ?f = "\<lambda>a. a\<lparr>a_closed_at_ms := Some now, a_outcome := Some oc, a_result_json := res\<rparr>"
  let ?P = "open_key (sj_job s) (int (j_fence (sj_job s)))"
  have run: "0 < j_attempt (sj_job s)" "int (j_fence (sj_job s)) = 2 * int (j_attempt (sj_job s)) - 1"
    using storable_state_check [OF assms(3), of t] assms(4) by (auto simp: state_check_def)
  have short: "null_or (\<lambda>x. sq_valid (se_sqlite env) x \<and> length x \<le> 1048576) res"
    using oc(3) by (auto simp: json_text_ok_def null_or_def parse_bounded_Some MAX_STORED_BYTES_def
        split: option.splits)
  have "\<exists>A. update_attempts (se_sqlite env) ?P ?f c = Inr (1, c\<lparr>cn_attempts := A\<rparr>)
      \<and> attempts_step env c r' A"
  proof (rule update_open_attempt [OF assms(1-4) r'(1-3)])
    fix a assume a: "?P a" "a_started_at_ms a \<le> j_updated_at_ms (sj_job s)" "0 \<le> a_started_at_ms a"
      "a_started_at_ms a < a_lease_until_ms a"
    have "attempt_checks (se_sqlite env) (?f a)"
      using a run now oc short storable_counters(1) [OF assms(3)]
      by (cases res) (auto simp: attempt_checks_def null_or_def)
    moreover have "attempt_is_closed env (?f a)"
      using a now oc by (auto simp: attempt_is_closed_def)
    then have "attempt_fits env r' (?f a)"
      using a run r' by (simp add: attempt_fits_def)
    ultimately show "a_lease_until_ms a \<le> a_lease_until_ms (?f a)
        \<and> attempt_checks (se_sqlite env) (?f a) \<and> attempt_fits env r' (?f a)" by simp
  qed simp_all
  then obtain A where A: "update_attempts (se_sqlite env) ?P ?f c = Inr (1, c\<lparr>cn_attempts := A\<rparr>)"
    "attempts_step env c r' A" by blast
  with assms(3) show ?thesis
    by (intro exI [of _ A] conjI)
      (simp_all add: close_attempt_def bind_op_def [of "sql_count _"] sql_count_def ensure_op_def of_res_def)
qed

lemma renew_attempt_step:
  assumes "store_inv env c" "job_row_of s t \<in> set (cn_jobs c)" "storable env s"
    "apply_event (sj_job s) (Renew now lease tok) = Inr (n, tk)"
    and r': "r_id r' = j_id (sj_job s)" "r_attempt r' = int (j_attempt (sj_job s))"
    "j_updated_at_ms (sj_job s) \<le> r_updated_at_ms r'" "r_state r' = ''running''"
    "r_lease_until_ms r' = j_lease_until_ms n"
  shows "\<exists>A. apply_attempt_change env (sj_job s) n (Renew now lease tok) res c
        = (Inr (), c\<lparr>cn_attempts := A\<rparr>)
      \<and> attempts_step env c r' A"
proof -
  let ?P = "open_key (sj_job s) (int (j_fence (sj_job s)))"
  from assms(4) obtain until where ren: "j_state (sj_job s) = Running" "j_lease_until_ms (sj_job s) = Some until"
    "until \<le> now + lease" "j_lease_until_ms n = Some (now + lease)"
    by (auto simp: apply_Renew_iff check_running_token_iff)
  let ?f = "\<lambda>a. a\<lparr>a_lease_until_ms := now + lease\<rparr>"
  have run: "0 < j_attempt (sj_job s)" "int (j_fence (sj_job s)) = 2 * int (j_attempt (sj_job s)) - 1"
    using storable_state_check [OF assms(3), of t] ren(1) by (auto simp: state_check_def)
  have "\<exists>A. update_attempts (se_sqlite env) ?P ?f c = Inr (1, c\<lparr>cn_attempts := A\<rparr>)
      \<and> attempts_step env c r' A"
  proof (rule update_open_attempt [OF assms(1-3) ren(1) r'(1-3)])
    fix a assume a: "?P a" "a_started_at_ms a \<le> j_updated_at_ms (sj_job s)" "0 \<le> a_started_at_ms a"
      "a_started_at_ms a < a_lease_until_ms a" "a_outcome a = None" "a_result_json a = None"
    have "attempt_checks (se_sqlite env) (?f a)"
      using a run ren storable_counters(1) [OF assms(3)] by (simp add: attempt_checks_def null_or_def)
    moreover have "attempt_fits env r' (?f a)"
      using a run ren r' by (simp add: attempt_fits_def attempt_is_open_def)
    ultimately show "a_lease_until_ms a \<le> a_lease_until_ms (?f a)
        \<and> attempt_checks (se_sqlite env) (?f a) \<and> attempt_fits env r' (?f a)" using a(1) ren by simp
  qed simp_all
  then obtain A where A: "update_attempts (se_sqlite env) ?P ?f c = Inr (1, c\<lparr>cn_attempts := A\<rparr>)"
    "attempts_step env c r' A" by blast
  with assms(3) ren show ?thesis
    by (intro exI [of _ A] conjI)
      (simp_all add: apply_attempt_change_def bind_op_def [of "sql_count _"] sql_count_def ensure_op_def
        of_res_def)
qed

lemma claim_attempt_step:
  assumes inv: "store_inv env c" and r: "job_row_of s t \<in> set (cn_jobs c)" "storable env s"
    and ap: "apply_event (sj_job s) (Claim now lease key) = Inr (n, tk)"
    and r': "r_id r' = j_id (sj_job s)" "r_attempt r' = int (j_attempt n)" "r_updated_at_ms r' = now"
    "r_state r' = ''running''" "r_lease_until_ms r' = j_lease_until_ms n"
    and small: "j_attempt n \<le> 3" "j_fence n \<le> 6"
  shows "\<exists>A. apply_attempt_change env (sj_job s) n (Claim now lease key) res c
        = (Inr (), c\<lparr>cn_attempts := A\<rparr>)
      \<and> attempts_step env c r' A"
proof -
  let ?j = "sj_job s"
  from ap have cl: "j_state ?j = Queued" "j_attempt n = j_attempt ?j + 1" "j_fence n = j_fence ?j + 1"
    "j_lease_until_ms n = Some (now + lease)" "0 < lease" "0 \<le> now" "j_updated_at_ms ?j \<le> now"
    by (auto simp: apply_Claim_iff)
  have fence: "int (j_fence ?j) = 2 * int (j_attempt ?j)"
    using storable_state_check [OF r(2), of t] cl(1) by (simp add: state_check_def)
  let ?a = "\<lparr>a_job_id = j_id ?j, a_attempt = int (j_attempt n), a_fence = int (j_fence n),
      a_started_at_ms = now, a_lease_until_ms = now + lease, a_closed_at_ms = None, a_outcome = None,
      a_result_json = None\<rparr>"
  have old: "attempt_fits env (job_row_of s t) a" if "a \<in> set (cn_attempts c)" "a_job_id a = j_id ?j" for a
    by (rule fits_row [OF inv that(1) r(1)]) (use that(2) in simp)
  have fresh: "\<not> list_ex (\<lambda>q. a_job_id q = j_id ?j \<and> (a_attempt q = int (j_attempt n) \<or> a_fence q = int (j_fence n)))
      (cn_attempts c)"
  proof
    assume "list_ex (\<lambda>q. a_job_id q = j_id ?j \<and> (a_attempt q = int (j_attempt n) \<or> a_fence q = int (j_fence n)))
      (cn_attempts c)"
    then obtain q where "q \<in> set (cn_attempts c)" "a_job_id q = j_id ?j"
      "a_attempt q = int (j_attempt n) \<or> a_fence q = int (j_fence n)" by (auto simp: list_ex_iff)
    with old [of q] cl fence show False by (auto simp: attempt_fits_def)
  qed
  have exists: "list_ex (\<lambda>j. r_id j = j_id ?j) (cn_jobs c)"
    using r(1) by (auto simp: list_ex_iff intro: bexI [of _ "job_row_of s t"])
  have checks: "attempt_checks (se_sqlite env) ?a"
    using cl fence small by (simp add: attempt_checks_def null_or_def)
  have ins: "insert_attempt (se_sqlite env) ?a c = Inr (c\<lparr>cn_attempts := cn_attempts c @ [?a]\<rparr>)"
    using fresh exists checks by (simp add: insert_attempt_def)
  have fits: "attempt_fits env r' a" if "a \<in> set (cn_attempts c)" "a_job_id a = j_id ?j" for a
    by (rule fits_later [OF old [OF that]]) (use old [OF that] cl r' in \<open>auto simp: attempt_fits_def\<close>)
  have "attempt_fits env r' ?a"
    using cl r' fence by (simp add: attempt_fits_def attempt_is_open_def)
  moreover have "\<exists>a \<in> set (cn_attempts c @ [?a]). attempt_key a = (j_id ?j, m)"
    if m: "1 \<le> m" "m \<le> r_attempt r'" for m
  proof (cases "m = int (j_attempt n)")
    case False
    then obtain a where "a \<in> set (cn_attempts c)" "attempt_key a = (r_id (job_row_of s t), m)"
      by (rule_tac attempt_found [OF inv r(1), of m]) (use m cl r' in auto)
    then show ?thesis by (intro bexI [of _ a]) simp_all
  qed (intro bexI [of _ ?a]; simp)
  ultimately have "attempts_step env c r' (cn_attempts c @ [?a])"
    using inv fresh fits r'(1) unfolding attempts_step_def store_inv_def
    by (auto simp: list_ex_iff)
  with ins cl small show ?thesis
    by (intro exI [of _ "cn_attempts c @ [?a]"] conjI)
      (simp_all add: apply_attempt_change_def to_i64_def i64_max_def sql_op_def)
qed

section \<open>A transition of the store\<close>

lemma storable_next:
  assumes "storable env s" "apply_event (sj_job s) ev = Inr (n, tk)" "0 < k" "int k \<le> i64_max"
  shows "storable env (s\<lparr>sj_job := n, sj_revision := k\<rparr>)"
  using assms apply_preserves_inv [OF _ assms(2), of "se_uuid env"] apply_keeps(6,7) [OF assms(2)]
  by (simp add: storable_def)

lemma result_text_ok:
  assumes "result_of_event env ev result = Inr rt" "store_laws env"
    "\<And>v. result = Some v \<Longrightarrow> reads_back (se_values env) v"
  shows "json_text_ok env rt"
proof (cases rt)
  case (Some t)
  with assms(1) obtain v where v: "result = Some v" "canonical env v = Inr t"
    by (cases ev) (auto simp: result_of_event_def bind_res_Inr split: option.splits if_splits)
  then have c: "canonical_json (se_values env) v = Some t" by (simp add: canonical_def)
  obtain w where "parse_bounded_json (se_values env) t = Some w"
    by (rule reads_back_parse [OF assms(3) [OF v(1)] c])
  moreover have "sq_valid (se_sqlite env) t" using assms(2) c by (simp add: store_laws_def)
  ultimately show ?thesis using Some by (simp add: json_text_ok_def null_or_def)
qed (simp add: json_text_ok_def null_or_def)

lemma attempt_change:
  assumes inv: "store_inv env c" and r: "job_row_of s t \<in> set (cn_jobs c)" "storable env s"
    and ap: "apply_event (sj_job s) ev = Inr (n, tk)"
    and res: "result_of_event env ev result = Inr rt" "json_text_ok env rt"
    and s': "s' = s\<lparr>sj_job := n, sj_revision := k\<rparr>" "storable env s'"
  shows "\<exists>A. apply_attempt_change env (sj_job s) n ev rt c = (Inr (), c\<lparr>cn_attempts := A\<rparr>)
      \<and> attempts_step env c (job_row_of s' t) A"
proof -
  note keeps = apply_keeps [OF ap]
  have same: "\<exists>A. (Inr (), c) = (Inr (), c\<lparr>cn_attempts := A\<rparr>) \<and> attempts_step env c (job_row_of s' t) A"
    if "attempts_step env c (job_row_of s' t) (cn_attempts c)"
    using that by (intro exI [of _ "cn_attempts c"]) simp
  have small: "j_attempt n \<le> 3" "j_fence n \<le> 6" using storable_counters [OF s'(2)] s'(1) by simp_all
  have unchanged: "attempts_step env c (job_row_of s' t) (cn_attempts c)"
    if "j_attempt n = j_attempt (sj_job s)"
      "j_state (sj_job s) = Running \<longleftrightarrow> j_state n = Running"
      "j_state (sj_job s) = Running \<Longrightarrow> j_lease_until_ms n = j_lease_until_ms (sj_job s)"
    by (rule attempts_unchanged [OF inv r(1)]) (use that s' keeps in auto)
  show ?thesis
  proof (cases ev)
    case (Claim now lease key)
    with ap have "j_state n = Running" "j_updated_at_ms n = now" by (auto simp: apply_Claim_iff)
    with claim_attempt_step [OF inv r, of now lease key n tk "job_row_of s' t" rt] Claim ap s' keeps small
    show ?thesis by simp
  next
    case (Renew now lease tok)
    with ap have "j_state n = Running" "j_attempt n = j_attempt (sj_job s)"
      by (auto simp: apply_Renew_iff check_running_token_iff)
    with renew_attempt_step [OF inv r, of now lease tok n tk "job_row_of s' t" rt] Renew ap s' keeps
    show ?thesis by simp
  next
    case (Complete now tok oc)
    with ap have st: "j_state (sj_job s) = Running" "j_attempt n = j_attempt (sj_job s)" "j_state n \<noteq> Running"
      "j_updated_at_ms (sj_job s) \<le> now" "j_updated_at_ms n = now"
      by (auto simp: apply_Complete_iff check_running_token_iff split: completion.splits)
    have "completion_name oc \<in> {''succeeded'', ''failed'', ''cancelled'', ''interrupted''}"
      "completion_name oc \<noteq> ''interrupted''" by (cases oc; simp)+
    with close_attempt_step [OF inv r st(1), of "job_row_of s' t" now "completion_name oc" rt] Complete
      st s' keeps res(2)
    show ?thesis by (simp add: apply_attempt_change_def)
  next
    case (RequestCancellation now)
    with ap have "j_attempt n = j_attempt (sj_job s)"
      "j_state (sj_job s) = Running \<longleftrightarrow> j_state n = Running"
      "j_lease_until_ms n = j_lease_until_ms (sj_job s)"
      by (auto simp: apply_RequestCancellation_iff)
    with same [OF unchanged] RequestCancellation show ?thesis
      by (simp add: apply_attempt_change_def return_op_def)
  next
    case (ConfirmStopped now tok)
    with ap have st: "j_state (sj_job s) = Running" "j_attempt n = j_attempt (sj_job s)" "j_state n \<noteq> Running"
      "j_updated_at_ms (sj_job s) \<le> now" "j_updated_at_ms n = now"
      by (auto simp: apply_ConfirmStopped_iff check_running_token_iff)
    with close_attempt_step [OF inv r st(1), of "job_row_of s' t" now "''cancelled''" rt] ConfirmStopped
      s' keeps res(2)
    show ?thesis by (simp add: apply_attempt_change_def)
  next
    case (RecoverExpired now)
    with ap have st: "j_state (sj_job s) = Running" "j_attempt n = j_attempt (sj_job s)" "j_state n \<noteq> Running"
      "j_updated_at_ms (sj_job s) \<le> now" "j_updated_at_ms n = now"
      by (auto simp: apply_RecoverExpired_iff)
    with close_attempt_step [OF inv r st(1), of "job_row_of s' t" now "''interrupted''" None] RecoverExpired
      s' keeps
    show ?thesis by (simp add: apply_attempt_change_def json_text_ok_def null_or_def)
  next
    case (RetryInterrupted now key)
    with ap have "j_attempt n = j_attempt (sj_job s)" "j_state (sj_job s) \<noteq> Running" "j_state n \<noteq> Running"
      by (auto simp: apply_RetryInterrupted_iff)
    with same [OF unchanged] RetryInterrupted show ?thesis
      by (simp add: apply_attempt_change_def return_op_def)
  next
    case (Rebind now ow)
    with ap have "j_attempt n = j_attempt (sj_job s)" "j_state (sj_job s) \<noteq> Running" "j_state n \<noteq> Running"
      by (auto simp: apply_Rebind_iff)
    with same [OF unchanged] Rebind show ?thesis
      by (simp add: apply_attempt_change_def return_op_def)
  qed
qed

text \<open>The row of job \<open>i\<close> replaced.\<close>

definition put_row :: "job_row \<Rightarrow> conn \<Rightarrow> conn" where
  "put_row r' c = c\<lparr>cn_jobs := map (\<lambda>r. if r_id r = r_id r' then r' else r) (cn_jobs c)\<rparr>"

lemma update_job_row:
  assumes inv: "store_inv env c" and r: "job_row_of s t \<in> set (cn_jobs c)" "storable env s"
    and t: "sq_valid (se_sqlite env) t" "length t \<le> 1048576"
    and ap: "apply_event (sj_job s) ev = Inr (n, tk)"
    and s': "s' = s\<lparr>sj_job := n, sj_revision := sj_revision s + 1\<rparr>" "storable env s'"
    and jobs: "cn_jobs c1 = cn_jobs c"
  shows "update_jobs (se_sqlite env)
      (same_version (j_id (sj_job s)) (sj_revision s) (sj_job s) (int (j_fence (sj_job s))))
      (next_row n (int (j_fence n)) (int (sj_revision s + 1))) c1
    = Inr (1, put_row (job_row_of s' t) c1)"
proof -
  let ?P = "same_version (j_id (sj_job s)) (sj_revision s) (sj_job s) (int (j_fence (sj_job s)))"
    and ?f = "next_row n (int (j_fence n)) (int (sj_revision s + 1))"
  note keeps = apply_keeps [OF ap]
  have P: "?P (job_row_of s t)" by (simp add: same_version_def)
  have key: "r_id y = r_id (job_row_of s t)" if "?P y" for y using that by (simp add: same_version_def)
  have ids: "distinct (map r_id (cn_jobs c1))" using inv jobs by (simp add: store_inv_def)
  have one: "filter ?P (cn_jobs c1) = [job_row_of s t]"
    by (rule filter_unique [where P = ?P, OF ids _ P]) (use r jobs key in auto)
  have row: "?f (job_row_of s t) = job_row_of s' t"
    using keeps s'(1) by (simp add: next_row_def job_row_of_def Let_def)
  have "j_cancel_at_ms (sj_job s) = None \<or> j_cancel_at_ms n = j_cancel_at_ms (sj_job s)"
    "j_owner n = j_owner (sj_job s)
      \<or> j_state (sj_job s) = Queued \<and> j_state n = Queued \<and> j_attempt n = j_attempt (sj_job s)
        \<and> j_fence n = j_fence (sj_job s)"
    using keeps(10,11) by blast+
  then have "\<not> job_update_refused (job_row_of s t) (job_row_of s' t)"
    using keeps(1-9) s'(1) by (elim disjE) (simp_all add: job_update_refused_def)
  moreover have "job_checks (se_sqlite env) (job_row_of s' t)" by (rule row_checks [OF s'(2) t])
  moreover have m: "map (\<lambda>y. if ?P y then ?f y else y) (cn_jobs c1)
      = map (\<lambda>y. if r_id y = r_id (job_row_of s t) then ?f (job_row_of s t) else y) (cn_jobs c1)"
    by (rule map_replace [where P = ?P, OF ids _ P]) (use r jobs key in auto)
  ultimately show ?thesis
    unfolding update_jobs_def Let_def put_row_def one m row using keeps(1) s'(1) by (simp add: row [simplified])
qed

lemma put_row_set:
  assumes "r \<in> set (cn_jobs c)" "r_id r' = r_id r"
  shows "set (cn_jobs (put_row r' c)) = insert r' {q \<in> set (cn_jobs c). r_id q \<noteq> r_id r'}"
  using assms by (auto simp: put_row_def)

lemma put_row_maps:
  assumes "distinct (map r_id (cn_jobs c))" "r \<in> set (cn_jobs c)" "r_id r' = r_id r"
    "f r' = f r"
  shows "map f (cn_jobs (put_row r' c)) = map f (cn_jobs c)"
proof -
  have "f (if r_id q = r_id r' then r' else q) = f q" if "q \<in> set (cn_jobs c)" for q
  proof (cases "r_id q = r_id r'")
    case True
    then have "q = r" using assms that by (auto simp: distinct_map dest: inj_onD)
    with True assms show ?thesis by simp
  qed simp
  then show ?thesis by (simp add: put_row_def)
qed

lemma store_invD:
  assumes "store_inv env c"
  shows "distinct (map r_id (cn_jobs c))" "distinct (map intent_of (cn_jobs c))"
    "r \<in> set (cn_jobs c) \<Longrightarrow> row_ok env r"
    "distinct (map attempt_key (cn_attempts c))"
    "a \<in> set (cn_attempts c) \<Longrightarrow> \<exists>r \<in> set (cn_jobs c). attempt_fits env r a"
    "distinct (map c_job_id (cn_contexts c))"
    "x \<in> set (cn_contexts c) \<Longrightarrow> \<exists>r \<in> set (cn_jobs c). context_fits env r x"
  using assms unfolding store_inv_def by blast+

lemma put_row_inv:
  assumes inv: "store_inv env c" and r: "r \<in> set (cn_jobs c)" "r_id r' = r_id r"
    "intent_of r' = intent_of r" "r_run_id r' = r_run_id r" "row_ok env r'"
    and A: "attempts_step env c r' A"
  shows "store_inv env (put_row r' (c\<lparr>cn_attempts := A\<rparr>))"
proof -
  let ?c = "c\<lparr>cn_attempts := A\<rparr>"
  note D = store_invD [OF inv]
  have jobs: "set (cn_jobs (put_row r' ?c)) = insert r' {q \<in> set (cn_jobs c). r_id q \<noteq> r_id r'}"
    using put_row_set [of r ?c r'] r(1,2) by simp
  have cols: "cn_attempts (put_row r' ?c) = A" "cn_contexts (put_row r' ?c) = cn_contexts c"
    by (simp_all add: put_row_def)
  have ids: "map r_id (cn_jobs (put_row r' ?c)) = map r_id (cn_jobs c)"
    "map intent_of (cn_jobs (put_row r' ?c)) = map intent_of (cn_jobs c)"
    using put_row_maps [of ?c r r' r_id] put_row_maps [of ?c r r' intent_of] D(1) r by simp_all
  have mem: "a \<in> set A \<longleftrightarrow> a \<in> set (cn_attempts c)" if "a_job_id a \<noteq> r_id r'" for a
  proof -
    have "filter (\<lambda>a. a_job_id a \<noteq> r_id r') A = filter (\<lambda>a. a_job_id a \<noteq> r_id r') (cn_attempts c)"
      using A by (simp add: attempts_step_def)
    then have "a \<in> set (filter (\<lambda>a. a_job_id a \<noteq> r_id r') A)
        \<longleftrightarrow> a \<in> set (filter (\<lambda>a. a_job_id a \<noteq> r_id r') (cn_attempts c))" by simp
    with that show ?thesis by simp
  qed
  have fits: "\<exists>q \<in> set (cn_jobs (put_row r' ?c)). attempt_fits env q a" if a: "a \<in> set A" for a
  proof (cases "a_job_id a = r_id r'")
    case True
    with A a have "attempt_fits env r' a" by (simp add: attempts_step_def)
    then show ?thesis using jobs by blast
  next
    case False
    then obtain q where "q \<in> set (cn_jobs c)" "attempt_fits env q a"
      using D(5) [of a] mem [OF False] a by blast
    with False show ?thesis by (auto simp: jobs attempt_fits_def)
  qed
  have there: "\<exists>a \<in> set A. attempt_key a = (r_id q, n)"
    if q: "q \<in> set (cn_jobs (put_row r' ?c))" "1 \<le> n" "n \<le> r_attempt q" for q n
  proof (cases "q = r'")
    case True
    with A q show ?thesis by (simp add: attempts_step_def)
  next
    case False
    with q jobs have "q \<in> set (cn_jobs c)" "r_id q \<noteq> r_id r'" by auto
    then show ?thesis
      using attempt_found [OF inv _ q(2,3)] mem by (metis fst_conv)
  qed
  have ctx: "\<exists>q \<in> set (cn_jobs (put_row r' ?c)). context_fits env q x" if "x \<in> set (cn_contexts c)" for x
  proof -
    obtain q where q: "q \<in> set (cn_jobs c)" "context_fits env q x" using D(7) [OF \<open>x \<in> set (cn_contexts c)\<close>] by blast
    show ?thesis
    proof (cases "r_id q = r_id r'")
      case True
      then have "q = r" using D(1) q(1) r by (auto simp: distinct_map dest: inj_onD)
      with q(2) r have "context_fits env r' x" by (simp add: context_fits_def)
      then show ?thesis using jobs by blast
    next
      case False
      with q jobs show ?thesis by blast
    qed
  qed
  have rows: "row_ok env q" if "q \<in> set (cn_jobs (put_row r' ?c))" for q
    using that jobs r(5) D(3) by auto
  have "distinct (map attempt_key A)" using A by (simp add: attempts_step_def)
  then show ?thesis
    unfolding store_inv_def ids cols using D(1,2,6) rows fits there ctx by blast
qed

lemma get_tx_cong:
  "find (\<lambda>r. r_id r = i) (cn_jobs c) = find (\<lambda>r. r_id r = i) (cn_jobs c') \<Longrightarrow> get_tx env i c = get_tx env i c'"
  by (simp add: get_tx_def)

lemma get_tx_put_other: "k \<noteq> r_id r' \<Longrightarrow> get_tx env k (put_row r' c) = get_tx env k c"
proof (rule get_tx_cong)
  assume "k \<noteq> r_id r'"
  then have "find (\<lambda>r. r_id r = k) (map (\<lambda>r. if r_id r = r_id r' then r' else r) rs)
      = find (\<lambda>r. r_id r = k) rs" for rs by (induction rs) auto
  then show "find (\<lambda>r. r_id r = k) (cn_jobs (put_row r' c)) = find (\<lambda>r. r_id r = k) (cn_jobs c)"
    by (simp add: put_row_def)
qed

lemma get_tx_attempts [simp]: "get_tx env k (c\<lparr>cn_attempts := A\<rparr>) = get_tx env k c"
  by (rule get_tx_cong) simp

lemma transition_stored:
  assumes laws: "store_laws env" and inv: "store_inv env c" and tx: "\<not> cn_autocommit c"
    and got: "get_tx env i c = Inr (Some s)"
    and res: "result_of_event env ev result = Inr rt" "\<And>v. result = Some v \<Longrightarrow> reads_back (se_values env) v"
    and room: "int (sj_revision s) < i64_max"
    and ap: "apply_event (sj_job s) ev = Inr (n, tk)"
  defines "s' \<equiv> s\<lparr>sj_job := n, sj_revision := sj_revision s + 1\<rparr>"
  shows "\<exists>c'. transition_tx env i (sj_revision s) ev result c = (Inr s', c') \<and> store_inv env c'
    \<and> \<not> cn_autocommit c' \<and> get_tx env i c' = Inr (Some s')
    \<and> (\<forall>k. k \<noteq> i \<longrightarrow> get_tx env k c' = get_tx env k c)"
proof -
  obtain t where t: "job_row_of s t \<in> set (cn_jobs c)" "storable env s" "i = j_id (sj_job s)"
    "parse_bounded_json (se_values env) t = Some (sj_request s)"
    by (rule get_tx_row [OF inv laws got])
  have short: "sq_valid (se_sqlite env) t" "length t \<le> 1048576"
    using laws t(4) by (auto simp: store_laws_def parse_bounded_Some MAX_STORED_BYTES_def)
  have store: "storable env s'"
    unfolding s'_def using storable_next [OF t(2) ap, of "sj_revision s + 1"] room by simp
  obtain A where A: "apply_attempt_change env (sj_job s) n ev rt c = (Inr (), c\<lparr>cn_attempts := A\<rparr>)"
    "attempts_step env c (job_row_of s' t) A"
    using attempt_change [OF inv t(1,2) ap res(1) result_text_ok [OF res(1) laws res(2)] s'_def [THEN meta_eq_to_obj_eq] store]
    by blast
  let ?c' = "put_row (job_row_of s' t) (c\<lparr>cn_attempts := A\<rparr>)"
  note keeps = apply_keeps [OF ap]
  have upd: "update_jobs (se_sqlite env)
      (same_version (j_id (sj_job s)) (sj_revision s) (sj_job s) (int (j_fence (sj_job s))))
      (next_row n (int (j_fence n)) (int (sj_revision s + 1))) (c\<lparr>cn_attempts := A\<rparr>) = Inr (1, ?c')"
    by (rule update_job_row [OF inv t(1,2) short ap s'_def [THEN meta_eq_to_obj_eq] store]) simp
  have rows: "row_ok env (job_row_of s' t)"
    unfolding row_ok_def
    by (intro exI [of _ s'] exI [of _ t] conjI) (use store t(4) in \<open>simp_all add: s'_def\<close>)
  have inv': "store_inv env ?c'"
    by (rule put_row_inv [OF inv t(1) _ _ _ rows A(2)]) (simp_all add: s'_def keeps)
  have tr: "transition (se_uuid env) (sj_job s) ev = Inr \<lparr>t_job = n, t_token = tk\<rparr>"
    using transition_of_inv [of "se_uuid env" "sj_job s" ev] t(2) ap by (simp add: storable_def)
  have rev: "next_revision (sj_revision s) = Inr (sj_revision s + 1)"
    using room by (simp add: next_revision_def checked_add_u64_def u64_max_def i64_max_def)
  have fence: "to_i64 (j_fence n) = Inr (int (j_fence n))"
    using to_i64_fence [OF store] by (simp add: s'_def)
  have pos: "sj_revision s \<noteq> 0" using t(2) by (simp add: storable_def)
  have "transition_tx env i (sj_revision s) ev result c = (Inr s', ?c')"
    unfolding transition_tx_def
    using tx got res(1) room t(2) pos tr rev A(1) upd fence t(3)
    by (simp add: bind_op_def [of "apply_attempt_change _ _ _ _ _"] bind_op_def [of "sql_count _"]
        sql_count_def with_savepoint_def return_op_def s'_def)
  moreover have "get_tx env i ?c' = Inr (Some s')"
  proof -
    have "job_row_of s' t \<in> set (cn_jobs ?c')"
      using put_row_set [of "job_row_of s t" "c\<lparr>cn_attempts := A\<rparr>" "job_row_of s' t"] t(1) keeps(1)
      by (simp add: s'_def)
    from get_stored_row [OF inv' laws this store] t(3,4) keeps(1) show ?thesis by (simp add: s'_def)
  qed
  moreover have "get_tx env k ?c' = get_tx env k c" if "k \<noteq> i" for k
    using get_tx_put_other [of k "job_row_of s' t" env "c\<lparr>cn_attempts := A\<rparr>"] that t(3) keeps(1)
    by (simp add: s'_def)
  moreover have "\<not> cn_autocommit ?c'" using tx by (simp add: put_row_def)
  ultimately show ?thesis using inv' by blast
qed

lemma transition_rejected:
  assumes laws: "store_laws env" and inv: "store_inv env c" and tx: "\<not> cn_autocommit c"
    and got: "get_tx env i c = Inr (Some s)" and res: "result_of_event env ev result = Inr rt"
    and ap: "apply_event (sj_job s) ev = Inl e"
  shows "transition_tx env i (sj_revision s) ev result c = (Inl (SeTransitionRejected e), c)"
proof -
  obtain t where t: "storable env s" by (rule get_tx_row [OF inv laws got])
  have "transition (se_uuid env) (sj_job s) ev = Inl e"
    using transition_of_inv [of "se_uuid env" "sj_job s" ev] t ap by (simp add: storable_def)
  with tx got res t show ?thesis by (simp add: transition_tx_def storable_def)
qed

section \<open>Enqueueing\<close>

text \<open>A job of a kind with local names whose contract version is a \<open>u32\<close>, and whose request reads back.\<close>

definition new_job_checked :: "'u store_env \<Rightarrow> new_extension_job \<Rightarrow> bool" where
  "new_job_checked env new \<longleftrightarrow>
     validate_new_job env new = Inr ()
     \<and> \<not> global_name (ci_kind (o_contribution (j_owner (nj_job new))))
     \<and> null_or (\<lambda>n. n \<le> u32_max) (o_contract_version (j_owner (nj_job new)))"

definition new_job_ok :: "'u store_env \<Rightarrow> new_extension_job \<Rightarrow> bool" where
  "new_job_ok env new \<longleftrightarrow> new_job_checked env new \<and> reads_back (se_values env) (nj_request new)"

definition stored_as :: "new_extension_job \<Rightarrow> json \<Rightarrow> stored_extension_job" where
  "stored_as new request =
     \<lparr>sj_job = nj_job new, sj_operation = nj_operation new, sj_invoker = nj_invoker new,
      sj_request = request, sj_revision = 1\<rparr>"

definition same_intent_data :: "'u store_env \<Rightarrow> stored_extension_job \<Rightarrow> new_extension_job \<Rightarrow> bool" where
  "same_intent_data env s new \<longleftrightarrow>
     j_owner (sj_job s) = j_owner (nj_job new)
     \<and> j_replay_policy (sj_job s) = j_replay_policy (nj_job new)
     \<and> sj_operation s = nj_operation new \<and> sj_invoker s = nj_invoker new
     \<and> canonical_json (se_values env) (sj_request s) = canonical_json (se_values env) (nj_request new)"

lemma checked_new:
  assumes "new_job_checked env new"
  shows "storable env (stored_as new request)"
    "\<exists>t. canonical_json (se_values env) (nj_request new) = Some t"
    "j_fence (nj_job new) = 0" "j_attempt (nj_job new) = 0" "j_state (nj_job new) = Queued"
proof -
  have v: "job_validate (se_uuid env) (nj_job new) = Inr ()" "j_state (nj_job new) = Queued"
    "j_attempt (nj_job new) = 0" "j_fence (nj_job new) = 0"
    "validate_metadata (nj_operation new) = Inr ()" "validate_metadata (nj_invoker new) = Inr ()"
    "\<exists>t. canonical_json (se_values env) (nj_request new) = Some t"
    using assms by (auto simp: new_job_checked_def validate_new_job_def Let_def canonical_def bind_res_Inr
        split: sum.splits if_splits)
  then show "storable env (stored_as new request)"
    using assms by (simp add: storable_def stored_as_def new_job_checked_def job_inv_def MAX_ATTEMPTS_def i64_max_def)
  show "\<exists>t. canonical_json (se_values env) (nj_request new) = Some t"
    "j_fence (nj_job new) = 0" "j_attempt (nj_job new) = 0" "j_state (nj_job new) = Queued"
    using v by simp_all
qed

lemma new_job_ok_checked: "new_job_ok env new \<Longrightarrow> new_job_checked env new"
  by (simp add: new_job_ok_def)

lemmas validated_new = checked_new [OF new_job_ok_checked]

lemma new_row_stored:
  "new_row new t (int (j_fence (nj_job new))) = job_row_of (stored_as new request) t"
  by (simp add: new_row_def job_row_of_def stored_as_def Let_def)

lemma intent_found:
  assumes laws: "store_laws env" and inv: "store_inv env c" and r: "job_row_of s t \<in> set (cn_jobs c)"
    "storable env s" "parse_bounded_json (se_values env) t = Some (sj_request s)"
  shows "get_by_intent_tx env (contribution_text (o_contribution (j_owner (sj_job s))))
      (j_intent_key (sj_job s)) c = Inr (Some s)"
proof -
  have "find (\<lambda>r. intent_of r = intent_of (job_row_of s t)) (cn_jobs c) = Some (job_row_of s t)"
    by (rule find_unique [OF store_invD(2) [OF inv] r(1)])
  then have "find (\<lambda>r. r_contribution_id r = contribution_text (o_contribution (j_owner (sj_job s)))
      \<and> r_intent_key r = j_intent_key (sj_job s)) (cn_jobs c) = Some (job_row_of s t)" by simp
  with storable_uuids [OF r(2) laws] get_stored_row [OF inv laws r] show ?thesis
    by (simp add: get_by_intent_tx_def read_text_def parse_job_id_def validate_uuid_v7_def)
qed

lemma intent_missing:
  "(contribution, key) \<notin> intent_of ` set (cn_jobs c) \<Longrightarrow> get_by_intent_tx env contribution key c = Inr None"
proof -
  assume "(contribution, key) \<notin> intent_of ` set (cn_jobs c)"
  then have "find (\<lambda>r. r_contribution_id r = contribution \<and> r_intent_key r = key) (cn_jobs c) = None"
    by (auto simp: find_None_iff image_iff)
  then show ?thesis by (simp add: get_by_intent_tx_def)
qed

lemma existing_or_conflict_eq:
  assumes "parse_bounded_json (se_values env) t = Some (sj_request s)"
    "canonical_json (se_values env) (nj_request new) = Some u"
    "j_intent_key (sj_job s) = j_intent_key (nj_job new)"
  shows "existing_or_conflict env new s =
     (if same_intent_data env s new then Inr (Existing s) else Inl SeIntentConflict)"
  using assms
  by (auto simp: existing_or_conflict_def duplicate_matches_def same_intent_data_def canonical_def
      parse_bounded_Some)

lemma find_in: "find P xs = Some x \<Longrightarrow> x \<in> set xs \<and> P x"
  by (auto simp: find_Some_iff)

lemma enqueue_existing:
  assumes laws: "store_laws env" and inv: "store_inv env c" and tx: "\<not> cn_autocommit c"
    and new: "new_job_ok env new"
    and found: "get_by_intent_tx env (contribution_text (o_contribution (j_owner (nj_job new))))
        (j_intent_key (nj_job new)) c = Inr (Some s)"
  shows "enqueue_tx env new c =
     (if same_intent_data env s new then Inr (Existing s) else Inl SeIntentConflict, c)"
proof -
  from found obtain r where r: "r \<in> set (cn_jobs c)"
    "r_contribution_id r = contribution_text (o_contribution (j_owner (nj_job new)))"
    "r_intent_key r = j_intent_key (nj_job new)"
    by (auto simp: get_by_intent_tx_def dest: find_in split: option.splits)
  obtain s' t where s': "r = job_row_of s' t" "storable env s'"
    "parse_bounded_json (se_values env) t = Some (sj_request s')"
    by (rule row_okE [OF store_invD(3) [OF inv r(1)]])
  have "s' = s" using intent_found [OF laws inv _ s'(2,3)] r s'(1) found by simp
  obtain u where u: "canonical_json (se_values env) (nj_request new) = Some u"
    using validated_new(2) [OF new] by blast
  have "validate_new_job env new = Inr ()" using new by (simp add: new_job_ok_def new_job_checked_def)
  with tx found existing_or_conflict_eq [OF s'(3) u] r(3) s'(1) \<open>s' = s\<close> show ?thesis
    by (simp add: enqueue_tx_def Let_def) (simp add: of_res_def)
qed

lemma enqueue_taken:
  assumes inv: "store_inv env c" and tx: "\<not> cn_autocommit c" and laws: "store_laws env"
    and new: "new_job_ok env new"
    and missing: "intent_of (job_row_of (stored_as new v) t) \<notin> intent_of ` set (cn_jobs c)"
    and taken: "j_id (nj_job new) \<in> r_id ` set (cn_jobs c)"
  shows "enqueue_tx env new c = (Inl SeConflict, c)"
proof -
  obtain u where u: "canonical_json (se_values env) (nj_request new) = Some u"
    using validated_new(2) [OF new] by blast
  let ?r = "new_row new u 0"
  have row: "?r = job_row_of (stored_as new v) u"
    using new_row_stored [of new u v] validated_new(3) [OF new] by simp
  have none: "get_by_intent_tx env (contribution_text (o_contribution (j_owner (nj_job new))))
      (j_intent_key (nj_job new)) c = Inr None"
    by (rule intent_missing) (use missing in \<open>simp add: stored_as_def\<close>)
  have "job_checks (se_sqlite env) ?r"
    unfolding row using laws u canonical_json_length [OF u]
    by (intro row_checks [OF validated_new(1) [OF new]]) (auto simp: store_laws_def MAX_STORED_BYTES_def)
  moreover have "list_ex (\<lambda>q. r_id q = r_id ?r \<or> (r_contribution_id q = r_contribution_id ?r
      \<and> r_intent_key q = r_intent_key ?r)) (cn_jobs c)"
    using taken by (auto simp: list_ex_iff row stored_as_def)
  ultimately have "insert_job (se_sqlite env) ?r c = Inl UniqueViolation" by (simp add: insert_job_def)
  moreover have "validate_new_job env new = Inr ()" using new by (simp add: new_job_ok_def new_job_checked_def)
  ultimately show ?thesis
    using tx none u validated_new(3) [OF new]
    by (simp add: enqueue_tx_def Let_def canonical_def to_i64_def i64_max_def fail_op_def)
qed

lemma enqueue_row:
  assumes tx: "\<not> cn_autocommit c" and laws: "store_laws env" and new: "new_job_checked env new"
    and missing: "intent_of (job_row_of (stored_as new v) t) \<notin> intent_of ` set (cn_jobs c)"
    and free: "j_id (nj_job new) \<notin> r_id ` set (cn_jobs c)"
    and u: "canonical_json (se_values env) (nj_request new) = Some u"
  shows "enqueue_tx env new c
     = (Inr (created_of new), c\<lparr>cn_jobs := cn_jobs c @ [job_row_of (stored_as new w) u]\<rparr>)"
proof -
  let ?r = "job_row_of (stored_as new w) u"
  have row: "new_row new u 0 = ?r" using new_row_stored [of new u w] checked_new(3) [OF new] by simp
  have none: "get_by_intent_tx env (contribution_text (o_contribution (j_owner (nj_job new))))
      (j_intent_key (nj_job new)) c = Inr None"
    by (rule intent_missing) (use missing in \<open>simp add: stored_as_def\<close>)
  have checks: "job_checks (se_sqlite env) ?r"
    using laws u canonical_json_length [OF u]
    by (intro row_checks [OF checked_new(1) [OF new]]) (auto simp: store_laws_def MAX_STORED_BYTES_def)
  have fresh: "\<not> list_ex (\<lambda>q. r_id q = r_id ?r \<or> (r_contribution_id q = r_contribution_id ?r
      \<and> r_intent_key q = r_intent_key ?r)) (cn_jobs c)"
    using free missing by (auto simp: list_ex_iff stored_as_def image_iff)
  have "insert_job (se_sqlite env) ?r c = Inr (c\<lparr>cn_jobs := cn_jobs c @ [?r]\<rparr>)"
    using checks fresh by (simp add: insert_job_def)
  moreover have "validate_new_job env new = Inr ()" using new by (simp add: new_job_checked_def)
  ultimately show ?thesis
    using tx none u checked_new(3) [OF new] row
    by (simp add: enqueue_tx_def Let_def canonical_def to_i64_def i64_max_def)
qed

lemma enqueue_created:
  assumes inv: "store_inv env c" and tx: "\<not> cn_autocommit c" and laws: "store_laws env"
    and new: "new_job_ok env new"
    and missing: "intent_of (job_row_of (stored_as new v) t) \<notin> intent_of ` set (cn_jobs c)"
    and free: "j_id (nj_job new) \<notin> r_id ` set (cn_jobs c)"
  shows "\<exists>w u c'. enqueue_tx env new c = (Inr (created_of new), c') \<and> store_inv env c'
    \<and> \<not> cn_autocommit c' \<and> c' = c\<lparr>cn_jobs := cn_jobs c @ [job_row_of (stored_as new w) u]\<rparr>
    \<and> canonical_json (se_values env) (nj_request new) = Some u
    \<and> canonical_json (se_values env) w = Some u
    \<and> get_tx env (j_id (nj_job new)) c' = Inr (Some (stored_as new w))"
proof -
  obtain u where u: "canonical_json (se_values env) (nj_request new) = Some u"
    using validated_new(2) [OF new] by blast
  obtain w where w: "parse_bounded_json (se_values env) u = Some w" "canonical_json (se_values env) w = Some u"
    using reads_back_parse [OF _ u] new by (auto simp: new_job_ok_def new_job_checked_def)
  let ?r = "job_row_of (stored_as new w) u" and ?s = "stored_as new w"
  let ?c' = "c\<lparr>cn_jobs := cn_jobs c @ [?r]\<rparr>"
  have store: "storable env ?s" by (rule validated_new(1) [OF new])
  have run: "enqueue_tx env new c = (Inr (created_of new), ?c')"
    by (rule enqueue_row [OF tx laws new_job_ok_checked [OF new] missing free u])
  note D = store_invD [OF inv]
  have "row_ok env ?r" unfolding row_ok_def
    by (intro exI [of _ ?s] exI [of _ u] conjI) (use store w in \<open>simp_all add: stored_as_def\<close>)
  moreover have "r_attempt ?r = 0" using validated_new(4) [OF new] by (simp add: stored_as_def)
  moreover have "r_id ?r \<notin> r_id ` set (cn_jobs c)" "intent_of ?r \<notin> intent_of ` set (cn_jobs c)"
    using free missing by (simp_all add: stored_as_def)
  moreover have "\<exists>a \<in> set (cn_attempts c). attempt_key a = (r_id r, n)"
    if "r \<in> set (cn_jobs c)" "1 \<le> n" "n \<le> r_attempt r" for r n
    by (rule attempt_found [OF inv that]) blast
  ultimately have inv': "store_inv env ?c'"
    unfolding store_inv_def using D by auto
  have "get_tx env (j_id (nj_job new)) ?c' = Inr (Some ?s)"
    using get_stored_row [OF inv' laws _ store, of u] w(1) by (simp add: stored_as_def)
  with run inv' tx u w show ?thesis by auto
qed

section \<open>Failure\<close>

text \<open>\<open>still\<close> operations only read; \<open>clean\<close> ones leave nothing behind when they fail.\<close>

named_theorems clean_intros

definition still :: "'a op \<Rightarrow> bool" where "still m \<longleftrightarrow> (\<forall>c. snd (m c) = c)"
definition clean :: "'a op \<Rightarrow> bool" where "clean m \<longleftrightarrow> (\<forall>c e. fst (m c) = Inl e \<longrightarrow> snd (m c) = c)"

lemma still_intros [clean_intros]:
  "still (return_op a)" "still (fail_op e)" "still (of_res r)" "still (read_op g)" "still (ensure_op b e)"
  "still ensure_transaction"
  by (simp_all add: still_def return_op_def fail_op_def of_res_def read_op_def ensure_op_def
      ensure_transaction_def)

lemma still_clean: "still m \<Longrightarrow> clean m"
  by (simp add: still_def clean_def)

lemma clean_intros_sql [clean_intros]:
  "clean (sql_op s)" "clean (sql_count t)" "clean (with_savepoint m)"
  by (auto simp: clean_def sql_op_def sql_count_def with_savepoint_def split: sum.splits prod.splits)

lemma clean_bind: "still m \<Longrightarrow> (\<And>a. clean (f a)) \<Longrightarrow> clean (bind_op m f)"
  unfolding clean_def still_def bind_op_def
  by (auto split: prod.splits sum.splits) (metis snd_conv fst_conv)+

lemma clean_last: "clean m \<Longrightarrow> clean (bind_op m (\<lambda>a. return_op (g a)))"
  by (auto simp: clean_def bind_op_def return_op_def split: prod.splits sum.splits) (metis fst_conv snd_conv)

lemma clean_enqueue: "clean (enqueue_tx env new)"
proof -
  have insert: "clean (\<lambda>c. case insert_job sq r c of
       Inr c' \<Rightarrow> (Inr (created_of new), c')
     | Inl UniqueViolation \<Rightarrow> bind_op (read_op g) (\<lambda>again. case again of
           Some existing \<Rightarrow> of_res (existing_or_conflict env new existing)
         | None \<Rightarrow> fail_op SeConflict) c
     | Inl OtherSqlError \<Rightarrow> (Inl SeStorage, c))" for sq r g
    by (auto simp: clean_def bind_op_def read_op_def of_res_def fail_op_def
        split: sum.splits sql_error.splits option.splits)
  have found: "clean (case found of
       Some existing \<Rightarrow> of_res (existing_or_conflict env new existing)
     | None \<Rightarrow> bind_op (of_res a) (\<lambda>request. bind_op (of_res b) (\<lambda>fence. f request fence)))"
    if "\<And>request fence. clean (f request fence)" for found a b f
    using that by (cases found) (simp_all add: clean_bind still_intros still_clean)
  show ?thesis
    unfolding enqueue_tx_def Let_def by (intro clean_bind still_intros found insert)
qed

lemma clean_enqueue_with_context: "clean (enqueue_with_context_tx env new context)"
  unfolding enqueue_with_context_tx_def by (intro clean_bind still_intros clean_intros_sql)

lemma clean_transition: "clean (transition_tx env i expected event result)"
  unfolding transition_tx_def by (intro clean_bind still_intros clean_intros_sql)

lemma clean_observation: "clean (record_observation_tx env job obs)"
proof -
  have found: "clean (case x of
       Some y \<Rightarrow> if P y then fail_op SeStorage else if Q y then return_op z else fail_op SeConflict
     | None \<Rightarrow> bind_op (sql_op q) (\<lambda>_. return_op z))" for x P Q z q
    by (cases x) (auto intro: clean_last clean_intros_sql still_clean still_intros)
  show ?thesis
    unfolding record_observation_tx_def Let_def by (intro clean_bind still_intros found)
qed

section \<open>Provenance\<close>

text \<open>A context's text passes the checks of its table.\<close>

definition context_laws :: "'u store_env \<Rightarrow> bool" where
  "context_laws env \<longleftrightarrow>
     json_reads_back (se_uuid env) (se_json env)
     \<and> (\<forall>v. is_uuid_v7 (se_uuid env) v \<longrightarrow> sql_length v = 36)
     \<and> (\<forall>ctx t. encode_json (se_uuid env) (se_json env) ctx = Inr t \<longrightarrow>
          sq_valid (se_sqlite env) t \<and> sq_type (se_sqlite env) t = Some ''object''
          \<and> sq_field_type (se_sqlite env) t ''schema_version'' = Some ''integer''
          \<and> sq_field_int (se_sqlite env) t ''schema_version'' = Some 1
          \<and> sq_field_type (se_sqlite env) t ''originating_run_id'' = Some ''text''
          \<and> sq_field_text (se_sqlite env) t ''originating_run_id'' = Some (jc_originating_run_id ctx))"

lemma same_row:
  assumes "store_inv env c" "q \<in> set (cn_jobs c)" "r \<in> set (cn_jobs c)" "r_id q = r_id r"
  shows "q = r"
  using store_invD(1) [OF assms(1)] assms(2-4) by (simp add: distinct_map inj_on_def)

lemma context_read:
  assumes inv: "store_inv env c" and laws: "store_laws env" and x: "x \<in> set (cn_contexts c)"
    "c_job_id x = j_id (sj_job s)" and r: "job_row_of s t \<in> set (cn_jobs c)" "storable env s"
    and dec: "decode_json (se_uuid env) (se_json env) (c_context_json x) = Inr ctx"
  shows "get_context_tx env (j_id (sj_job s)) c = Inr ctx"
proof -
  obtain q where q: "q \<in> set (cn_jobs c)" "context_fits env q x" using store_invD(7) [OF inv x(1)] by blast
  then have "r_id q = r_id (job_row_of s t)" using x(2) by (simp add: context_fits_def)
  then have fits: "context_fits env (job_row_of s t) x"
    using same_row [OF inv q(1) r(1)] q(2) by simp
  have "find (\<lambda>y. c_job_id y = c_job_id x) (cn_contexts c) = Some x"
    by (rule find_unique [OF store_invD(6) [OF inv] x(1)])
  with x(2) fits dec store_row(2) [OF inv r(1)] storable_uuids [OF r(2) laws] show ?thesis
    by (simp add: get_context_tx_def validate_uuid_v7_def read_text_def context_fits_def Let_def)
qed

lemma context_created:
  assumes laws: "store_laws env" "context_laws env" and inv: "store_inv env c" and tx: "\<not> cn_autocommit c"
    and new: "new_job_ok env new"
    and ctx: "encode_json (se_uuid env) (se_json env) context = Inr encoded"
      "jc_originating_run_id context = j_run_id (nj_job new)"
    and missing: "intent_of (job_row_of (stored_as new v) t) \<notin> intent_of ` set (cn_jobs c)"
    and free: "j_id (nj_job new) \<notin> r_id ` set (cn_jobs c)"
  shows "\<exists>c'. enqueue_with_context_tx env new context c = (Inr (created_of new), c') \<and> store_inv env c'
    \<and> \<not> cn_autocommit c' \<and> get_context_tx env (j_id (nj_job new)) c' = Inr context"
proof -
  obtain w u c1 where c1: "enqueue_tx env new c = (Inr (created_of new), c1)" "store_inv env c1"
    "\<not> cn_autocommit c1" "c1 = c\<lparr>cn_jobs := cn_jobs c @ [job_row_of (stored_as new w) u]\<rparr>"
    using enqueue_created [OF inv tx laws(1) new missing free] by blast
  let ?r = "job_row_of (stored_as new w) u"
  let ?x = "\<lparr>c_job_id = j_id (nj_job new), c_originating_run_id = jc_originating_run_id context,
      c_context_json = encoded\<rparr>"
  have store: "storable env (stored_as new w)" by (rule validated_new(1) [OF new])
  have r: "?r \<in> set (cn_jobs c1)" by (simp add: c1(4))
  have dec: "decode_json (se_uuid env) (se_json env) encoded = Inr context"
    by (rule encode_decodes [OF _ ctx(1)]) (use laws(2) in \<open>simp add: context_laws_def\<close>)
  have len: "length encoded \<le> 65536"
    using dec by (auto simp: decode_json_def MAX_JSON_BYTES_def split: if_splits)
  have fits: "context_fits env ?r ?x"
    using dec ctx len by (simp add: context_fits_def stored_as_def)
  have row: "find (\<lambda>j. r_id j = j_id (nj_job new)) (cn_jobs c1) = Some ?r"
    using store_row(2) [OF c1(2) r] by (simp add: stored_as_def)
  have nox: "\<not> list_ex (\<lambda>q. c_job_id q = j_id (nj_job new)) (cn_contexts c1)"
  proof
    assume "list_ex (\<lambda>q. c_job_id q = j_id (nj_job new)) (cn_contexts c1)"
    then obtain q where q: "q \<in> set (cn_contexts c)" "c_job_id q = j_id (nj_job new)"
      by (auto simp: list_ex_iff c1(4))
    then obtain r where "r \<in> set (cn_jobs c)" "context_fits env r q" using store_invD(7) [OF inv] by blast
    with q free show False by (auto simp: context_fits_def image_iff)
  qed
  have "is_uuid_v7 (se_uuid env) (j_run_id (nj_job new))"
    using storable_uuids(3) [OF store laws(1)] by (simp add: stored_as_def)
  then have checks: "context_checks (se_sqlite env) ?x"
    using laws(2) ctx len unfolding context_laws_def context_checks_def by simp
  let ?c' = "c1\<lparr>cn_contexts := cn_contexts c1 @ [?x]\<rparr>"
  have ins: "insert_context (se_sqlite env) ?x c1 = Inr ?c'"
    using row nox checks ctx(2) by (simp add: insert_context_def stored_as_def)
  note D = store_invD [OF c1(2)]
  have there: "\<exists>a \<in> set (cn_attempts c1). attempt_key a = (r_id r, n)"
    if "r \<in> set (cn_jobs c1)" "1 \<le> n" "n \<le> r_attempt r" for r n
    by (rule attempt_found [OF c1(2) that]) blast
  have inv': "store_inv env ?c'"
    unfolding store_inv_def using D there fits r nox by (auto simp: list_ex_iff)
  have val: "jc_validate (se_uuid env) (se_json env) context = Inr ()"
    using ctx(1) by (auto simp: encode_json_def bind_res_Inr)
  have "enqueue_with_context_tx env new context c = (Inr (created_of new), ?c')"
    using tx val ctx c1(1) ins
    by (simp add: enqueue_with_context_tx_def with_savepoint_def bind_op_def [of "enqueue_tx _ _"]
        created_of_def bind_op_def [of "sql_op _"] sql_op_def return_op_def)
  moreover have "get_context_tx env (j_id (nj_job new)) ?c' = Inr context"
    using context_read [OF inv' laws(1), of ?x "stored_as new w" u "context"] r store dec
    by (simp add: stored_as_def)
  ultimately show ?thesis using inv' c1(3) by auto
qed

end
