(* ===== verification/Job_Store_Pages.thy ===== *)
theory Job_Store_Pages
  imports Job_Store_Inv
begin

text \<open>
  The listings of the job store page by page, and the output of attempts. The interface of a
  listing that is read by following cursors is the locale \<open>cursor_listing\<close>; jobs to resume, an
  attempt's history and late observations are its interpretations.
\<close>

section \<open>Following cursors\<close>

text \<open>What a caller gathers: \<open>None\<close> when it gave up before the last page.\<close>

fun all_pages :: "nat \<Rightarrow> ('c option \<Rightarrow> store_error + ('a, 'c) history_page) \<Rightarrow> 'c option
    \<Rightarrow> (store_error + 'a list) option" where
  "all_pages 0 page after = None"
| "all_pages (Suc n) page after =
     (case page after of
        Inl e \<Rightarrow> Some (Inl e)
      | Inr p \<Rightarrow>
          (case hp_next p of
             None \<Rightarrow> Some (Inr (hp_items p))
           | Some k \<Rightarrow> map_option (map_sum id (\<lambda>rest. hp_items p @ rest)) (all_pages n page (Some k))))"

text \<open>The first \<open>k\<close> of the rows left, and where to go on when some remain.\<close>

definition page_at :: "('r \<Rightarrow> 'a) \<Rightarrow> ('r \<Rightarrow> 'c) \<Rightarrow> 'r list \<Rightarrow> nat \<Rightarrow> ('a, 'c) history_page" where
  "page_at item key rs k =
     \<lparr>hp_items = map item (take k rs),
      hp_next = (if k < length rs then Some (key (rs ! (k - 1))) else None)\<rparr>"

lemma strict_filter_drop:
  fixes key :: "'r \<Rightarrow> 'c::linorder"
  assumes "sorted_wrt (\<lambda>x y. key x < key y) rs" "0 < k" "k \<le> length rs"
  shows "filter (\<lambda>x. key x > key (rs ! (k - 1))) rs = drop k rs"
proof -
  let ?m = "key (rs ! (k - 1))"
  have low: "\<not> key x > ?m" if x: "x \<in> set (take k rs)" for x
  proof -
    from x obtain i where i: "i < k" "i < length rs" "x = rs ! i"
      by (auto simp: in_set_conv_nth)
    then show ?thesis
      using sorted_wrt_nth_less [OF assms(1), of i "k - 1"] assms(2,3)
      by (cases "i = k - 1") (auto simp: not_less intro: less_imp_le)
  qed
  have high: "key x > ?m" if x: "x \<in> set (drop k rs)" for x
  proof -
    from x obtain i where i: "i < length rs - k" "x = rs ! (k + i)" by (auto simp: in_set_conv_nth)
    then show ?thesis using sorted_wrt_nth_less [OF assms(1), of "k - 1" "k + i"] assms(2) by simp
  qed
  have "filter (\<lambda>x. key x > ?m) rs = filter (\<lambda>x. key x > ?m) (take k rs @ drop k rs)" by simp
  also have "\<dots> = drop k rs"
    using low high by (simp only: filter_append) (simp add: filter_id_conv filter_empty_conv)
  finally show ?thesis .
qed

locale cursor_listing =
  fixes valid :: "'s \<Rightarrow> bool"
    and page :: "'s \<Rightarrow> 'c::linorder option \<Rightarrow> store_error + ('a, 'c) history_page"
    and rows :: "'s \<Rightarrow> 'r list" and key :: "'s \<Rightarrow> 'r \<Rightarrow> 'c" and item :: "'s \<Rightarrow> 'r \<Rightarrow> 'a"
  assumes strict: "valid s \<Longrightarrow> sorted_wrt (\<lambda>x y. key s x < key s y) (rows s)"
    and first_page: "valid s \<Longrightarrow> \<exists>k. page s None = Inr (page_at (item s) (key s) (rows s) k)
      \<and> (rows s \<noteq> [] \<longrightarrow> 0 < k)"
    and next_page: "valid s \<Longrightarrow> r \<in> set (rows s) \<Longrightarrow> \<exists>k. page s (Some (key s r))
        = Inr (page_at (item s) (key s) (filter (\<lambda>x. key s x > key s r) (rows s)) k)
      \<and> (filter (\<lambda>x. key s x > key s r) (rows s) \<noteq> [] \<longrightarrow> 0 < k)"
begin

lemma pages_from:
  assumes v: "valid s" and r: "0 < m" "m \<le> length (rows s)" and n: "length (drop m (rows s)) < n"
  shows "all_pages n (page s) (Some (key s (rows s ! (m - 1)))) = Some (Inr (map (item s) (drop m (rows s))))"
  using r n
proof (induction n arbitrary: m)
  case (Suc n)
  let ?rs = "drop m (rows s)"
  have rest: "filter (\<lambda>x. key s x > key s (rows s ! (m - 1))) (rows s) = ?rs"
    by (rule strict_filter_drop [OF strict [OF v] Suc.prems(1,2)])
  have "rows s ! (m - 1) \<in> set (rows s)" using Suc.prems(1,2) by simp
  from next_page [OF v this] rest obtain k where k:
    "page s (Some (key s (rows s ! (m - 1)))) = Inr (page_at (item s) (key s) ?rs k)"
    "?rs \<noteq> [] \<longrightarrow> 0 < k" by auto
  show ?case
  proof (cases "k < length ?rs")
    case False
    with k(1) show ?thesis by (simp add: page_at_def)
  next
    case True
    then have pos: "0 < k" using k(2) by auto
    have at: "?rs ! (k - 1) = rows s ! (m + k - 1)" using pos True by simp
    have "all_pages n (page s) (Some (key s (rows s ! (m + k - 1))))
        = Some (Inr (map (item s) (drop (m + k) (rows s))))"
      by (rule Suc.IH) (use Suc.prems True pos in auto)
    with k(1) True at show ?thesis
      by (simp add: page_at_def add.commute flip: map_append drop_drop)
  qed
qed simp

lemma every_page:
  assumes v: "valid s" and n: "length (rows s) < n"
  shows "all_pages n (page s) None = Some (Inr (map (item s) (rows s)))"
proof -
  obtain n' where n': "n = Suc n'" using n by (cases n) auto
  obtain k where k: "page s None = Inr (page_at (item s) (key s) (rows s) k)" "rows s \<noteq> [] \<longrightarrow> 0 < k"
    using first_page [OF v] by blast
  show ?thesis
  proof (cases "k < length (rows s)")
    case False
    with k(1) n' show ?thesis by (simp add: page_at_def)
  next
    case True
    then have pos: "0 < k" using k(2) by auto
    have "all_pages n' (page s) (Some (key s (rows s ! (k - 1))))
        = Some (Inr (map (item s) (drop k (rows s))))"
      by (rule pages_from [OF v pos]) (use True n n' pos in auto)
    with k(1) True n' show ?thesis by (simp add: page_at_def flip: map_append)
  qed
qed

end

section \<open>One page\<close>

lemma page_loop_prefix:
  assumes "\<And>r. r \<in> set rows \<Longrightarrow> readable r \<and> weigh r \<le> MAX_STORED_BYTES \<and> decodes r = Inr (item r)"
    and "length items \<le> limit"
  shows "\<exists>k \<le> length rows. page_loop readable weigh decodes limit rows items bytes
        = Inr (items @ map item (take k rows), k < length rows)
      \<and> length items + k \<le> limit
      \<and> (rows \<noteq> [] \<longrightarrow> length items < limit \<longrightarrow> bytes = 0 \<longrightarrow> 0 < k)"
  using assms
proof (induction rows arbitrary: items bytes)
  case (Cons r rs)
  have r: "readable r" "weigh r \<le> MAX_STORED_BYTES" "decodes r = Inr (item r)"
    using Cons.prems(1) [of r] by simp_all
  consider "length items = limit" | "length items < limit" "bytes + weigh r > MAX_PAGE_BYTES"
    | "length items < limit" "bytes + weigh r \<le> MAX_PAGE_BYTES" using Cons.prems(2) by linarith
  then show ?case
  proof cases
    case 1
    then show ?thesis by (intro exI [of _ 0]) simp
  next
    case 2
    moreover from this r(2) have "bytes \<noteq> 0" by (auto simp: MAX_PAGE_BYTES_def MAX_STORED_BYTES_def)
    ultimately show ?thesis using r by (intro exI [of _ 0]) simp
  next
    case 3
    obtain k where k: "k \<le> length rs"
      "page_loop readable weigh decodes limit rs (items @ [item r]) (bytes + weigh r)
        = Inr ((items @ [item r]) @ map item (take k rs), k < length rs)"
      "length (items @ [item r]) + k \<le> limit"
      using Cons.IH [of "items @ [item r]" "bytes + weigh r"] Cons.prems 3 by auto
    with 3 r show ?thesis by (intro exI [of _ "Suc k"]) simp
  qed
qed simp

text \<open>A page of the rows left, when one row more than the limit is fetched.\<close>

lemma page_of_rows:
  assumes "\<And>r. r \<in> set rs \<Longrightarrow> readable r \<and> weigh r \<le> MAX_STORED_BYTES \<and> decodes r = Inr (item r)"
    and "\<And>r. r \<in> set rs \<Longrightarrow> cursor (item r) = key r" and "0 < limit"
  shows "\<exists>k. bind_res (page_loop readable weigh decodes limit (take (limit + 1) rs) [] 0)
        (\<lambda>p. Inr (page_of cursor p)) = Inr (page_at item key rs k)
      \<and> (rs \<noteq> [] \<longrightarrow> 0 < k)"
proof -
  have sub: "r \<in> set rs" if "r \<in> set (take (limit + 1) rs)" for r
    using that by (rule in_set_takeD)
  obtain k where k: "k \<le> length (take (limit + 1) rs)"
    "page_loop readable weigh decodes limit (take (limit + 1) rs) [] 0
      = Inr ([] @ map item (take k (take (limit + 1) rs)), k < length (take (limit + 1) rs))"
    "k \<le> limit" "take (limit + 1) rs \<noteq> [] \<longrightarrow> 0 < k"
    using page_loop_prefix [of "take (limit + 1) rs" readable weigh decodes item "[]" limit 0]
      assms(1) [OF sub] assms(3) by auto
  have cut: "take k (take (limit + 1) rs) = take k rs" "(k < length (take (limit + 1) rs)) = (k < length rs)"
    using k(3) by (auto simp: min_def)
  have more: "map item (take k rs) \<noteq> [] \<and> cursor (last (map item (take k rs))) = key (rs ! (k - 1))"
    if "k < length rs"
  proof -
    have "0 < k" using that k(4) by (cases rs) auto
    moreover from this that have "take k rs \<noteq> []" by auto
    ultimately have "last (map item (take k rs)) = item (rs ! (k - 1))" "take k rs \<noteq> []"
      using that by (simp_all add: last_map last_conv_nth)
    moreover have "rs ! (k - 1) \<in> set rs" using that by simp
    ultimately show ?thesis using assms(2) by simp
  qed
  have "bind_res (page_loop readable weigh decodes limit (take (limit + 1) rs) [] 0)
        (\<lambda>p. Inr (page_of cursor p)) = Inr (page_at item key rs k)"
    unfolding k(2) cut using more by (auto simp: page_of_def page_at_def)
  moreover have "rs \<noteq> [] \<longrightarrow> 0 < k" using k(4) by (cases rs) auto
  ultimately show ?thesis by blast
qed

section \<open>Jobs to resume\<close>

definition waiting :: "bool \<Rightarrow> int \<Rightarrow> extension_job \<Rightarrow> bool" where
  "waiting queued now_ms j \<longleftrightarrow>
     (if queued then j_state j = Queued
      else (j_state j = Running \<and> (\<exists>l \<le> now_ms. j_lease_until_ms j = Some l)) \<or> j_state j = Interrupted)"

definition candidate_of :: "stored_extension_job \<Rightarrow> recovery_candidate" where
  "candidate_of s =
     \<lparr>cd_job = sj_job s, cd_operation = sj_operation s, cd_invoker = sj_invoker s,
      cd_revision = sj_revision s\<rparr>"

definition waiting_rows :: "bool \<Rightarrow> int \<Rightarrow> conn \<Rightarrow> job_row list" where
  "waiting_rows queued now_ms c = sort_key job_cursor (filter (candidate_row queued now_ms) (cn_jobs c))"

definition decoded :: "store_error + 'a \<Rightarrow> 'a" where
  "decoded x = (case x of Inr a \<Rightarrow> a | Inl e \<Rightarrow> undefined)"

lemma decoded_Inr [simp]: "decoded (Inr a) = a"
  by (simp add: decoded_def)

lemma sorted_distinct_strict:
  fixes key :: "'r \<Rightarrow> 'c::linorder"
  assumes "sorted (map key xs)" "distinct (map key xs)"
  shows "sorted_wrt (\<lambda>x y. key x < key y) xs"
  using assms strict_sorted_iff [of "map key xs"] by (simp add: sorted_wrt_map)

lemma sort_key_strict:
  fixes key :: "'r \<Rightarrow> 'c::linorder"
  assumes "distinct (map i rows)" "\<And>x y. key x = key y \<Longrightarrow> x \<in> set rows \<Longrightarrow> y \<in> set rows \<Longrightarrow> P x \<Longrightarrow> P y \<Longrightarrow> i x = i y"
  shows "sorted_wrt (\<lambda>x y. key x < key y) (sort_key key (filter P rows))"
proof (rule sorted_distinct_strict)
  have "inj_on key (set (filter P rows))"
    using assms by (intro inj_onI) (auto simp: distinct_map dest: inj_onD)
  moreover have "distinct rows" using assms(1) by (simp add: distinct_map)
  ultimately show "distinct (map key (sort_key key (filter P rows)))"
    by (simp add: distinct_map)
qed simp

text \<open>The tail of a listing past a cursor.\<close>

lemma past_key: "past (Some k) x \<longleftrightarrow> x > k"
  by (cases k; cases x) (auto simp: past_def less_prod_def)

lemma past_None: "0 \<le> fst x \<Longrightarrow> past None x"
  by (simp add: past_def)

lemma waiting_row:
  assumes "storable env s" "0 \<le> now_ms"
  shows "candidate_row queued now_ms (job_row_of s t) \<longleftrightarrow> waiting queued now_ms (sj_job s)"
  using assms by (auto simp: candidate_row_def waiting_def split: option.splits)

lemma waiting_rows_in:
  assumes inv: "store_inv env c" and r: "r \<in> set (waiting_rows queued now_ms c)"
  obtains s t where "r = job_row_of s t" "storable env s" "r \<in> set (cn_jobs c)"
    "parse_bounded_json (se_values env) t = Some (sj_request s)" "candidate_row queued now_ms r"
proof -
  have r': "r \<in> set (cn_jobs c)" "candidate_row queued now_ms r" using r by (auto simp: waiting_rows_def)
  obtain s t where s: "r = job_row_of s t" "storable env s"
    "parse_bounded_json (se_values env) t = Some (sj_request s)"
    by (rule row_okE [OF store_invD(3) [OF inv r'(1)]])
  show ?thesis by (rule that [OF s(1,2) r'(1) s(3) r'(2)])
qed

type_synonym 'u candidate_query = "'u store_env \<times> int \<times> nat \<times> bool \<times> conn"

fun candidate_query_ok :: "'u candidate_query \<Rightarrow> bool" where
  "candidate_query_ok (env, now_ms, limit, queued, c) \<longleftrightarrow>
     store_laws env \<and> store_inv env c \<and> 1 \<le> limit \<and> limit \<le> MAX_PAGE_ITEMS \<and> 0 \<le> now_ms"

fun candidate_page :: "'u candidate_query \<Rightarrow> (int \<times> string) option
    \<Rightarrow> store_error + (recovery_candidate, int \<times> string) history_page" where
  "candidate_page (env, now_ms, limit, queued, c) = (\<lambda>after. candidates_tx env now_ms after limit queued c)"

fun candidate_rows :: "'u candidate_query \<Rightarrow> job_row list" where
  "candidate_rows (env, now_ms, limit, queued, c) = waiting_rows queued now_ms c"

fun candidate_item :: "'u candidate_query \<Rightarrow> job_row \<Rightarrow> recovery_candidate" where
  "candidate_item (env, now_ms, limit, queued, c) = (\<lambda>r. decoded (decode_recovery_candidate env r))"

lemma candidates_page:
  assumes q: "candidate_query_ok (env, now_ms, limit, queued, c)"
    and after: "case after of None \<Rightarrow> True | Some (time, i) \<Rightarrow> 0 \<le> time \<and> is_uuid_v7 (se_uuid env) i"
  defines "rs \<equiv> filter (\<lambda>r. past after (job_cursor r)) (waiting_rows queued now_ms c)"
  shows "\<exists>k. candidates_tx env now_ms after limit queued c
        = Inr (page_at (\<lambda>r. decoded (decode_recovery_candidate env r)) job_cursor rs k)
      \<and> (rs \<noteq> [] \<longrightarrow> 0 < k)"
proof -
  have inv: "store_inv env c" and laws: "store_laws env" using q by simp_all
  have rows: "sort_key job_cursor
      (filter (\<lambda>r. candidate_row queued now_ms r \<and> past after (job_cursor r)) (cn_jobs c)) = rs"
    by (simp add: rs_def waiting_rows_def filter_sort conj_commute)
  have row: "read_recovery_candidate r \<and> decode_recovery_candidate env r
      = Inr (decoded (decode_recovery_candidate env r))
      \<and> (j_updated_at_ms (cd_job (decoded (decode_recovery_candidate env r))),
         j_id (cd_job (decoded (decode_recovery_candidate env r)))) = job_cursor r"
    if r: "r \<in> set rs" for r
  proof -
    have "r \<in> set (waiting_rows queued now_ms c)" using r by (simp add: rs_def)
    then obtain s t where s: "r = job_row_of s t" "storable env s" by (rule waiting_rows_in [OF inv])
    show ?thesis
      unfolding s(1) using row_readable(1) [OF s(2) laws] by (simp add: decode_candidate_row [OF s(2)] job_cursor_def)
  qed
  obtain k where "bind_res (page_loop read_recovery_candidate (\<lambda>r. 0) (decode_recovery_candidate env) limit
        (take (limit + 1) rs) [] 0)
        (\<lambda>p. Inr (page_of (\<lambda>d. (j_updated_at_ms (cd_job d), j_id (cd_job d))) p))
      = Inr (page_at (\<lambda>r. decoded (decode_recovery_candidate env r)) job_cursor rs k)" "rs \<noteq> [] \<longrightarrow> 0 < k"
    using page_of_rows [of rs read_recovery_candidate "\<lambda>r. 0" "decode_recovery_candidate env"
        "\<lambda>r. decoded (decode_recovery_candidate env r)"
        "\<lambda>d. (j_updated_at_ms (cd_job d), j_id (cd_job d))" job_cursor limit] row q by auto
  with q after show ?thesis
    by (auto simp: candidates_tx_def rows Let_def validate_page_def validate_uuid_v7_def ensure_def
        split: option.splits)
qed

interpretation candidates: cursor_listing candidate_query_ok candidate_page candidate_rows
    "\<lambda>q. job_cursor" candidate_item
proof (unfold_locales, goal_cases)
  case (1 q)
  obtain env now_ms limit queued c where q: "q = (env, now_ms, limit, queued, c)" by (cases q)
  with 1 have "distinct (map r_id (cn_jobs c))" using store_invD(1) by auto
  then show ?case
    by (simp add: q waiting_rows_def) (rule sort_key_strict [where i = r_id], auto simp: job_cursor_def)
next
  case (2 q)
  obtain env now_ms limit queued c where q: "q = (env, now_ms, limit, queued, c)" by (cases q)
  have all: "past None (job_cursor r)" if "r \<in> set (waiting_rows queued now_ms c)" for r
  proof -
    from 2 q have inv: "store_inv env c" by simp
    from that obtain s t where s: "r = job_row_of s t" "storable env s" by (rule waiting_rows_in [OF inv])
    then have "0 \<le> j_updated_at_ms (sj_job s)"
      by (auto simp: storable_def job_inv_def job_validate_Inr counters_bad_def)
    then show ?thesis by (intro past_None) (simp add: s(1) job_cursor_def)
  qed
  then have "filter (\<lambda>r. past None (job_cursor r)) (waiting_rows queued now_ms c) = waiting_rows queued now_ms c"
    by (simp add: filter_id_conv)
  with 2 q candidates_page [of env now_ms limit queued c None] show ?case by simp
next
  case (3 q r)
  obtain env now_ms limit queued c where q: "q = (env, now_ms, limit, queued, c)" by (cases q)
  from 3 q have inv: "store_inv env c" and laws: "store_laws env" by simp_all
  have "r \<in> set (waiting_rows queued now_ms c)" using 3 q by simp
  then obtain s t where s: "r = job_row_of s t" "storable env s" by (rule waiting_rows_in [OF inv])
  then have "0 \<le> r_updated_at_ms r" "is_uuid_v7 (se_uuid env) (r_id r)"
    using storable_uuids(1) [OF s(2) laws] by (auto simp: storable_def job_inv_def job_validate_Inr counters_bad_def)
  with 3 q candidates_page [of env now_ms limit queued c "Some (job_cursor r)"] show ?case
    by (simp add: past_key) (simp add: job_cursor_def)
qed

lemma waiting_candidates:
  assumes "store_laws env" "store_inv env c" "1 \<le> limit" "limit \<le> MAX_PAGE_ITEMS" "0 \<le> now_ms"
    and n: "length (cn_jobs c) < n"
  shows "\<exists>ds. all_pages n (\<lambda>after. candidates_tx env now_ms after limit queued c) None = Some (Inr ds)
     \<and> sorted (map (\<lambda>d. (j_updated_at_ms (cd_job d), j_id (cd_job d))) ds)
     \<and> distinct (map (\<lambda>d. j_id (cd_job d)) ds)
     \<and> (\<forall>d. d \<in> set ds \<longleftrightarrow>
          (\<exists>i s. get_tx env i c = Inr (Some s) \<and> waiting queued now_ms (sj_job s) \<and> d = candidate_of s))"
proof -
  let ?rs = "waiting_rows queued now_ms c" and ?it = "\<lambda>r. decoded (decode_recovery_candidate env r)"
  note inv = assms(2) and laws = assms(1)
  have item: "?it (job_row_of s t) = candidate_of s" if "storable env s" for s t
    by (simp add: decode_candidate_row [OF that] candidate_of_def)
  have "length ?rs < n" using n le_less_trans [OF length_filter_le] by (simp add: waiting_rows_def)
  then have pages: "all_pages n (\<lambda>after. candidates_tx env now_ms after limit queued c) None = Some (Inr (map ?it ?rs))"
    using candidates.every_page [of "(env, now_ms, limit, queued, c)" n] assms by simp
  have ids: "j_id (cd_job (?it r)) = r_id r"
    "(j_updated_at_ms (cd_job (?it r)), j_id (cd_job (?it r))) = job_cursor r" if r: "r \<in> set ?rs" for r
  proof -
    from r obtain s t where s: "r = job_row_of s t" "storable env s" by (rule waiting_rows_in [OF inv])
    show "j_id (cd_job (?it r)) = r_id r"
      "(j_updated_at_ms (cd_job (?it r)), j_id (cd_job (?it r))) = job_cursor r"
      unfolding s(1) item [OF s(2)] by (simp_all add: candidate_of_def job_cursor_def)
  qed
  have "map (\<lambda>d. (j_updated_at_ms (cd_job d), j_id (cd_job d))) (map ?it ?rs) = map job_cursor ?rs"
    using ids(2) by simp
  then have sorted: "sorted (map (\<lambda>d. (j_updated_at_ms (cd_job d), j_id (cd_job d))) (map ?it ?rs))"
    by (simp only:) (simp add: waiting_rows_def)
  have once: "distinct (map (\<lambda>d. j_id (cd_job d)) (map ?it ?rs))"
  proof -
    have "map (\<lambda>d. j_id (cd_job d)) (map ?it ?rs) = map r_id ?rs" using ids(1) by simp
    moreover have "distinct (map r_id ?rs)"
      using store_invD(1) [OF inv] by (auto simp: waiting_rows_def distinct_map intro: inj_on_subset)
    ultimately show ?thesis by (simp only:)
  qed
  have all: "d \<in> set (map ?it ?rs) \<longleftrightarrow>
      (\<exists>i s. get_tx env i c = Inr (Some s) \<and> waiting queued now_ms (sj_job s) \<and> d = candidate_of s)" for d
  proof
    assume "d \<in> set (map ?it ?rs)"
    then obtain r where r: "r \<in> set ?rs" "d = ?it r" by auto
    from r(1) obtain s t where s: "r = job_row_of s t" "storable env s" "r \<in> set (cn_jobs c)"
      "parse_bounded_json (se_values env) t = Some (sj_request s)" "candidate_row queued now_ms r"
      by (rule waiting_rows_in [OF inv])
    have "get_tx env (j_id (sj_job s)) c = Inr (Some s)"
      by (rule get_stored_row [OF inv laws _ s(2,4)]) (use s(1,3) in simp)
    moreover have "waiting queued now_ms (sj_job s)" using s waiting_row [OF s(2) assms(5)] by simp
    ultimately show "\<exists>i s. get_tx env i c = Inr (Some s) \<and> waiting queued now_ms (sj_job s) \<and> d = candidate_of s"
      using r(2) s(1) item [OF s(2)] by auto
  next
    assume "\<exists>i s. get_tx env i c = Inr (Some s) \<and> waiting queued now_ms (sj_job s) \<and> d = candidate_of s"
    then obtain i s where s: "get_tx env i c = Inr (Some s)" "waiting queued now_ms (sj_job s)" "d = candidate_of s"
      by blast
    obtain t where t: "job_row_of s t \<in> set (cn_jobs c)" "storable env s"
      by (rule get_tx_row [OF inv laws s(1)])
    then have "job_row_of s t \<in> set ?rs"
      using s(2) waiting_row [OF t(2) assms(5)] by (simp add: waiting_rows_def)
    moreover have "d = ?it (job_row_of s t)" using s(3) item [OF t(2)] by simp
    ultimately show "d \<in> set (map ?it ?rs)" by auto
  qed
  from pages sorted once all show ?thesis by blast
qed

section \<open>The history of a job\<close>

definition attempt_rows :: "string \<Rightarrow> conn \<Rightarrow> attempt_row list" where
  "attempt_rows i c = sort_key a_attempt (filter (\<lambda>a. a_job_id a = i) (cn_attempts c))"

type_synonym 'u attempt_query = "'u store_env \<times> string \<times> nat \<times> conn"

fun attempt_query_ok :: "'u attempt_query \<Rightarrow> bool" where
  "attempt_query_ok (env, i, limit, c) \<longleftrightarrow>
     store_laws env \<and> store_inv env c \<and> 1 \<le> limit \<and> limit \<le> MAX_PAGE_ITEMS \<and> is_uuid_v7 (se_uuid env) i"

fun attempt_page :: "'u attempt_query \<Rightarrow> nat option \<Rightarrow> store_error + (attempt_record, nat) history_page" where
  "attempt_page (env, i, limit, c) = (\<lambda>after. attempts_tx env i after limit c)"

fun attempt_query_rows :: "'u attempt_query \<Rightarrow> attempt_row list" where
  "attempt_query_rows (env, i, limit, c) = attempt_rows i c"

fun attempt_item :: "'u attempt_query \<Rightarrow> attempt_row \<Rightarrow> attempt_record" where
  "attempt_item (env, i, limit, c) = (\<lambda>a. decoded (decode_attempt env a))"

lemma parse_outcome_names:
  "oc \<in> {''succeeded'', ''failed'', ''cancelled'', ''interrupted''} \<Longrightarrow>
     \<exists>x. parse_attempt_outcome oc = Some x \<and> (x = AoInterrupted \<longleftrightarrow> oc = ''interrupted'')"
  by (auto simp: parse_attempt_outcome_def)

lemma json_text_bytes:
  "json_text_ok env t \<Longrightarrow> opt_length t \<le> MAX_STORED_BYTES \<and> read_optional_text t 1048576"
  by (auto simp: json_text_ok_def null_or_def opt_length_def read_optional_text_def parse_bounded_Some
      MAX_STORED_BYTES_def split: option.splits)

lemma json_text_decoded:
  assumes "json_text_ok env t"
  obtains v where "decode_optional_json env t = Inr v" "v = None \<longleftrightarrow> t = None"
proof (cases t)
  case None
  then show ?thesis using that [of None] by (simp add: decode_optional_json_def)
next
  case (Some x)
  with assms obtain v where "parse_bounded_json (se_values env) x = Some v"
    by (auto simp: json_text_ok_def null_or_def)
  with Some show ?thesis using that [of "Some v"] by (simp add: decode_optional_json_def)
qed

text \<open>Every attempt the invariant admits decodes.\<close>

lemma attempt_decodes:
  assumes fits: "attempt_fits env r a" and r: "row_ok env r" and laws: "store_laws env"
  shows "\<exists>x. decode_attempt env a = Inr x \<and> at_job_id x = a_job_id a
      \<and> tok_attempt (at_token x) = nat (a_attempt a) \<and> tok_fence (at_token x) = nat (a_fence a)
      \<and> at_closed_at_ms x = a_closed_at_ms a"
    "read_attempt a" "opt_length (a_result_json a) \<le> MAX_STORED_BYTES"
proof -
  obtain s t where s: "r = job_row_of s t" "storable env s" by (rule row_okE [OF r])
  note uuid = storable_uuids [OF s(2) laws]
  have a: "a_job_id a = j_id (sj_job s)" "1 \<le> a_attempt a" "a_attempt a \<le> 3" "a_fence a = 2 * a_attempt a - 1"
    "0 \<le> a_started_at_ms a" "a_started_at_ms a < a_lease_until_ms a"
    using fits storable_counters [OF s(2)] by (auto simp: attempt_fits_def s(1))
  have state: "attempt_is_open r a \<or> attempt_is_closed env a"
    using fits by (auto simp: attempt_fits_def split: if_splits)
  then have res: "json_text_ok env (a_result_json a)"
    by (auto simp: attempt_is_open_def attempt_is_closed_def json_text_ok_def null_or_def)
  obtain v where v: "decode_optional_json env (a_result_json a) = Inr v" "v = None \<longleftrightarrow> a_result_json a = None"
    by (rule json_text_decoded [OF res])
  have oc: "\<exists>x. (case a_outcome a of None \<Rightarrow> Inr None
      | Some t \<Rightarrow> bind_res (invalid_unless (parse_attempt_outcome t)) (\<lambda>oc. Inr (Some oc))) = (Inr x :: store_error + _)
      \<and> (a_closed_at_ms a \<noteq> None) = (x \<noteq> None) \<and> (a_result_json a \<noteq> None \<longrightarrow> x \<noteq> None \<and> x \<noteq> Some AoInterrupted)
      \<and> (case a_closed_at_ms a of None \<Rightarrow> True | Some t \<Rightarrow> a_started_at_ms a \<le> t)"
    using state
  proof
    assume "attempt_is_open r a"
    then show ?thesis by (intro exI [of _ None]) (simp add: attempt_is_open_def)
  next
    assume "attempt_is_closed env a"
    then obtain t oc where c: "a_closed_at_ms a = Some t" "a_started_at_ms a \<le> t" "a_outcome a = Some oc"
      "oc \<in> {''succeeded'', ''failed'', ''cancelled'', ''interrupted''}"
      "a_result_json a \<noteq> None \<longrightarrow> oc \<noteq> ''interrupted''" unfolding attempt_is_closed_def by blast
    obtain x where "parse_attempt_outcome oc = Some x" "x = AoInterrupted \<longleftrightarrow> oc = ''interrupted''"
      using parse_outcome_names [OF c(4)] by blast
    with c show ?thesis by (intro exI [of _ "Some x"]) simp
  qed
  then obtain x where x: "(case a_outcome a of None \<Rightarrow> Inr None
      | Some t \<Rightarrow> bind_res (invalid_unless (parse_attempt_outcome t)) (\<lambda>oc. Inr (Some oc))) = (Inr x :: store_error + _)"
    "(a_closed_at_ms a \<noteq> None) = (x \<noteq> None)" "a_result_json a \<noteq> None \<longrightarrow> x \<noteq> None \<and> x \<noteq> Some AoInterrupted"
    "case a_closed_at_ms a of None \<Rightarrow> True | Some t \<Rightarrow> a_started_at_ms a \<le> t" by blast
  have "positive (to_u32 (a_attempt a)) = Inr (nat (a_attempt a))" "positive (to_u64 (a_fence a)) = Inr (nat (a_fence a))"
    using a(2-4) by (simp_all add: positive_def to_u32_def to_u64_def u32_max_def)
  moreover have "nat (a_fence a) = 2 * nat (a_attempt a) - 1" using a(2,4) by simp
  ultimately have "decode_attempt env a = Inr \<lparr>at_job_id = a_job_id a,
      at_token = \<lparr>tok_attempt = nat (a_attempt a), tok_fence = nat (a_fence a)\<rparr>,
      at_started_at_ms = a_started_at_ms a, at_lease_until_ms = a_lease_until_ms a,
      at_closed_at_ms = a_closed_at_ms a, at_outcome = x, at_result = v\<rparr>"
    using x v a uuid(1)
    by (auto simp: decode_attempt_def parse_job_id_def validate_uuid_v7_def split: option.splits)
  then show "\<exists>x. decode_attempt env a = Inr x \<and> at_job_id x = a_job_id a
      \<and> tok_attempt (at_token x) = nat (a_attempt a) \<and> tok_fence (at_token x) = nat (a_fence a)
      \<and> at_closed_at_ms x = a_closed_at_ms a" by simp
  have "read_optional_text (a_outcome a) 11"
    using state by (auto simp: attempt_is_open_def attempt_is_closed_def read_optional_text_def null_or_def)
  then show "read_attempt a" "opt_length (a_result_json a) \<le> MAX_STORED_BYTES"
    using json_text_bytes [OF res] a(1) uuid by (simp_all add: read_attempt_def read_text_def)
qed

lemma attempt_rows_in:
  assumes inv: "store_inv env c" and a: "a \<in> set (attempt_rows i c)"
  obtains r where "r \<in> set (cn_jobs c)" "attempt_fits env r a" "row_ok env r" "r_id r = i" "1 \<le> a_attempt a"
proof -
  have "a \<in> set (cn_attempts c)" "a_job_id a = i" using a by (auto simp: attempt_rows_def)
  with store_invD(3,5) [OF inv] obtain r where "r \<in> set (cn_jobs c)" "attempt_fits env r a" "row_ok env r" by blast
  with \<open>a_job_id a = i\<close> show ?thesis using that by (auto simp: attempt_fits_def)
qed

lemma attempts_page:
  fixes after :: "nat option"
  assumes q: "attempt_query_ok (env, i, limit, c)"
  defines "rs \<equiv> filter (\<lambda>a. a_attempt a > int (case after of None \<Rightarrow> 0 | Some n \<Rightarrow> n)) (attempt_rows i c)"
  shows "\<exists>k. attempts_tx env i after limit c
        = Inr (page_at (\<lambda>a. decoded (decode_attempt env a)) (\<lambda>a. nat (a_attempt a)) rs k)
      \<and> (rs \<noteq> [] \<longrightarrow> 0 < k)"
proof -
  have inv: "store_inv env c" and laws: "store_laws env" using q by simp_all
  have rows: "sort_key a_attempt
      (filter (\<lambda>a. a_job_id a = i \<and> a_attempt a > int (case after of None \<Rightarrow> 0 | Some n \<Rightarrow> n)) (cn_attempts c)) = rs"
    by (simp add: rs_def attempt_rows_def filter_sort conj_commute)
  have row: "read_attempt a \<and> opt_length (a_result_json a) \<le> MAX_STORED_BYTES
      \<and> decode_attempt env a = Inr (decoded (decode_attempt env a))
      \<and> tok_attempt (at_token (decoded (decode_attempt env a))) = nat (a_attempt a)" if a: "a \<in> set rs" for a
  proof -
    have "a \<in> set (attempt_rows i c)" using a by (simp add: rs_def)
    then obtain r where r: "attempt_fits env r a" "row_ok env r" by (rule attempt_rows_in [OF inv])
    from attempt_decodes [OF r laws] show ?thesis by auto
  qed
  obtain k where "bind_res (page_loop read_attempt (\<lambda>a. opt_length (a_result_json a)) (decode_attempt env) limit
        (take (limit + 1) rs) [] 0)
        (\<lambda>p. Inr (page_of (\<lambda>a. tok_attempt (at_token a)) p))
      = Inr (page_at (\<lambda>a. decoded (decode_attempt env a)) (\<lambda>a. nat (a_attempt a)) rs k)" "rs \<noteq> [] \<longrightarrow> 0 < k"
    using page_of_rows [of rs read_attempt "\<lambda>a. opt_length (a_result_json a)" "decode_attempt env"
        "\<lambda>a. decoded (decode_attempt env a)" "\<lambda>a. tok_attempt (at_token a)" "\<lambda>a. nat (a_attempt a)" limit] row q
    by auto
  with q show ?thesis
    by (auto simp: attempts_tx_def rows Let_def validate_page_def validate_uuid_v7_def ensure_def)
qed

lemma attempt_rows_strict:
  assumes "store_inv env c"
  shows "sorted_wrt (\<lambda>x y. a_attempt x < a_attempt y) (attempt_rows i c)"
  unfolding attempt_rows_def
  by (rule sort_key_strict [where i = attempt_key, OF store_invD(4) [OF assms]]) simp

interpretation attempts: cursor_listing attempt_query_ok attempt_page attempt_query_rows
    "\<lambda>q a. nat (a_attempt a)" attempt_item
proof (unfold_locales, goal_cases)
  case (1 q)
  obtain env i limit c where q: "q = (env, i, limit, c)" by (cases q)
  with 1 have inv: "store_inv env c" by simp
  have "1 \<le> a_attempt a" if "a \<in> set (attempt_rows i c)" for a
    using that by (rule attempt_rows_in [OF inv])
  have "sorted_wrt (\<lambda>x y. nat (a_attempt x) < nat (a_attempt y)) (attempt_rows i c)"
  proof (rule sorted_wrt_mono_rel [OF _ attempt_rows_strict [OF inv, of i]])
    fix x y assume x: "x \<in> set (attempt_rows i c)" "a_attempt x < a_attempt y"
    from x(1) have "1 \<le> a_attempt x" by (rule attempt_rows_in [OF inv])
    with x(2) show "nat (a_attempt x) < nat (a_attempt y)" by simp
  qed
  then show ?case by (simp add: q)
next
  case (2 q)
  obtain env i limit c where q: "q = (env, i, limit, c)" by (cases q)
  with 2 have inv: "store_inv env c" by simp
  have "filter (\<lambda>a. 0 < a_attempt a) (attempt_rows i c) = attempt_rows i c"
  proof -
    have "0 < a_attempt a" if a: "a \<in> set (attempt_rows i c)" for a
    proof -
      from a have "1 \<le> a_attempt a" by (rule attempt_rows_in [OF inv])
      then show ?thesis by simp
    qed
    then show ?thesis by (simp add: filter_id_conv)
  qed
  with attempts_page [of env i limit c None] 2 q show ?case by simp
next
  case (3 q a)
  obtain env i limit c where q: "q = (env, i, limit, c)" by (cases q)
  with 3 have inv: "store_inv env c" by simp
  have "filter (\<lambda>x. int (nat (a_attempt a)) < a_attempt x) (attempt_rows i c)
      = filter (\<lambda>x. nat (a_attempt a) < nat (a_attempt x)) (attempt_rows i c)"
    by (rule filter_cong [OF refl]) auto
  with attempts_page [of env i limit c "Some (nat (a_attempt a))"] 3 q show ?case by simp
qed

lemma attempt_numbers:
  assumes inv: "store_inv env c" and r: "r \<in> set (cn_jobs c)"
  shows "map (\<lambda>a. nat (a_attempt a)) (attempt_rows (r_id r) c) = [1..<nat (r_attempt r) + 1]"
proof (rule sorted_distinct_set_unique)
  let ?rs = "attempt_rows (r_id r) c"
  have pos: "1 \<le> a_attempt a \<and> a_attempt a \<le> r_attempt r" if "a \<in> set ?rs" for a
  proof -
    have a: "a \<in> set (cn_attempts c)" "a_job_id a = r_id r" using that by (auto simp: attempt_rows_def)
    show ?thesis using fits_row [OF inv a(1) r a(2)] by (simp add: attempt_fits_def)
  qed
  have "sorted_wrt (\<lambda>x y. nat (a_attempt x) < nat (a_attempt y)) ?rs"
  proof (rule sorted_wrt_mono_rel [OF _ attempt_rows_strict [OF inv]])
    fix x y assume "x \<in> set ?rs" "y \<in> set ?rs" "a_attempt x < a_attempt y"
    with pos [of x] show "nat (a_attempt x) < nat (a_attempt y)" by simp
  qed
  then show "sorted (map (\<lambda>a. nat (a_attempt a)) ?rs)" "distinct (map (\<lambda>a. nat (a_attempt a)) ?rs)"
    using strict_sorted_iff [of "map (\<lambda>a. nat (a_attempt a)) ?rs"] by (simp_all add: sorted_wrt_map)
  have "n \<in> (\<lambda>a. nat (a_attempt a)) ` set ?rs" if n: "1 \<le> n" "n \<le> nat (r_attempt r)" for n
  proof -
    obtain a where "a \<in> set (cn_attempts c)" "attempt_key a = (r_id r, int n)"
      by (rule attempt_found [OF inv r, of "int n"]) (use n in auto)
    then show ?thesis by (intro image_eqI [of _ _ a]) (auto simp: attempt_rows_def)
  qed
  with pos show "set (map (\<lambda>a. nat (a_attempt a)) ?rs) = set [1..<nat (r_attempt r) + 1]"
    by (fastforce simp: nat_le_iff)
  show "sorted [1..<nat (r_attempt r) + 1]" "distinct [1..<nat (r_attempt r) + 1]"
    by (simp_all only: sorted_upt distinct_upt)
qed

lemma attempt_history:
  assumes laws: "store_laws env" and inv: "store_inv env c" and page: "1 \<le> limit" "limit \<le> MAX_PAGE_ITEMS"
    and got: "get_tx env i c = Inr (Some s)" and n: "j_attempt (sj_job s) < n"
  shows "\<exists>xs. all_pages n (\<lambda>after. attempts_tx env i after limit c) None = Some (Inr xs)
     \<and> map (\<lambda>a. tok_attempt (at_token a)) xs = [1..<j_attempt (sj_job s) + 1]
     \<and> (\<forall>a \<in> set xs. tok_fence (at_token a) = 2 * tok_attempt (at_token a) - 1
          \<and> (at_closed_at_ms a = None \<longleftrightarrow> j_state (sj_job s) = Running \<and> tok_attempt (at_token a) = j_attempt (sj_job s)))"
proof -
  obtain t where t: "job_row_of s t \<in> set (cn_jobs c)" "storable env s" "i = j_id (sj_job s)"
    by (rule get_tx_row [OF inv laws got])
  let ?rs = "attempt_rows i c" and ?it = "\<lambda>a. decoded (decode_attempt env a)"
  have nums: "map (\<lambda>a. nat (a_attempt a)) ?rs = [1..<j_attempt (sj_job s) + 1]"
    using attempt_numbers [OF inv t(1)] t(3) by simp
  have "length ?rs = j_attempt (sj_job s)" using arg_cong [OF nums, of length] by simp
  then have pages: "all_pages n (\<lambda>after. attempts_tx env i after limit c) None = Some (Inr (map ?it ?rs))"
    using attempts.every_page [of "(env, i, limit, c)" n] laws inv page n storable_uuids(1) [OF t(2) laws] t(3)
    by simp
  have row: "tok_attempt (at_token (?it a)) = nat (a_attempt a) \<and> tok_fence (at_token (?it a)) = 2 * nat (a_attempt a) - 1
      \<and> (at_closed_at_ms (?it a) = None \<longleftrightarrow> j_state (sj_job s) = Running \<and> nat (a_attempt a) = j_attempt (sj_job s))"
    if a: "a \<in> set ?rs" for a
  proof -
    have a': "a \<in> set (cn_attempts c)" "a_job_id a = r_id (job_row_of s t)" using a t(3) by (auto simp: attempt_rows_def)
    have fits: "attempt_fits env (job_row_of s t) a" by (rule fits_row [OF inv a'(1) t(1) a'(2)])
    have "a_closed_at_ms a = None \<longleftrightarrow> j_state (sj_job s) = Running \<and> nat (a_attempt a) = j_attempt (sj_job s)"
      using fits by (auto simp: attempt_fits_def attempt_is_open_def attempt_is_closed_def split: if_splits)
    moreover have "nat (a_fence a) = 2 * nat (a_attempt a) - 1" using fits by (simp add: attempt_fits_def)
    ultimately show ?thesis using attempt_decodes(1) [OF fits store_invD(3) [OF inv t(1)] laws] by auto
  qed
  have "map (\<lambda>a. tok_attempt (at_token a)) (map ?it ?rs) = map (\<lambda>a. nat (a_attempt a)) ?rs"
    using row by simp
  with pages nums row show ?thesis by (intro exI [of _ "map ?it ?rs"]) auto
qed

section \<open>Late observations\<close>

definition observation_ok :: "'u store_env \<Rightarrow> observation_row \<Rightarrow> bool" where
  "observation_ok env x \<longleftrightarrow>
     is_uuid_v7 (se_uuid env) (ob_id x) \<and> 0 \<le> ob_observed_at_ms x
     \<and> ob_outcome x \<in> {''succeeded'', ''failed''} \<and> json_text_ok env (ob_evidence_json x)
     \<and> 1 \<le> ob_attempt x \<and> ob_attempt x \<le> int u32_max \<and> ob_fence x = 2 * ob_attempt x - 1"

definition observations_inv :: "'u store_env \<Rightarrow> conn \<Rightarrow> bool" where
  "observations_inv env c \<longleftrightarrow>
     distinct (map ob_id (cn_observations c)) \<and> (\<forall>x \<in> set (cn_observations c). observation_ok env x)"

definition observation_rows :: "string \<Rightarrow> conn \<Rightarrow> observation_row list" where
  "observation_rows i c =
     sort_key (\<lambda>x. (ob_observed_at_ms x, ob_id x)) (filter (\<lambda>x. ob_job_id x = i) (cn_observations c))"

type_synonym 'u observation_query = "'u store_env \<times> string \<times> nat \<times> conn"

fun observation_query_ok :: "'u observation_query \<Rightarrow> bool" where
  "observation_query_ok (env, i, limit, c) \<longleftrightarrow>
     store_laws env \<and> observations_inv env c \<and> 1 \<le> limit \<and> limit \<le> MAX_PAGE_ITEMS
     \<and> is_uuid_v7 (se_uuid env) i"

fun observation_page :: "'u observation_query \<Rightarrow> (int \<times> string) option
    \<Rightarrow> store_error + (outcome_observation, int \<times> string) history_page" where
  "observation_page (env, i, limit, c) = (\<lambda>after. observations_tx env i after limit c)"

fun observation_query_rows :: "'u observation_query \<Rightarrow> observation_row list" where
  "observation_query_rows (env, i, limit, c) = observation_rows i c"

fun observation_item :: "'u observation_query \<Rightarrow> observation_row \<Rightarrow> outcome_observation" where
  "observation_item (env, i, limit, c) = (\<lambda>x. decoded (decode_observation env i x))"

lemma observation_decodes:
  assumes x: "observation_ok env x" and laws: "store_laws env"
  shows "\<exists>v. decode_observation env i x = Inr \<lparr>oo_job_id = i,
        oo_observation = \<lparr>lo_id = ob_id x,
          lo_token = \<lparr>tok_attempt = nat (ob_attempt x), tok_fence = nat (ob_fence x)\<rparr>,
          lo_observed_at_ms = ob_observed_at_ms x,
          lo_outcome = (if ob_outcome x = ''succeeded'' then CompletionSucceeded else CompletionFailed),
          lo_evidence = v\<rparr>\<rparr>"
    "read_observation x" "opt_length (ob_evidence_json x) \<le> MAX_STORED_BYTES"
proof -
  have ev: "json_text_ok env (ob_evidence_json x)" using x by (simp add: observation_ok_def)
  obtain v where v: "decode_optional_json env (ob_evidence_json x) = Inr v" by (rule json_text_decoded [OF ev])
  have "positive (to_u32 (ob_attempt x)) = Inr (nat (ob_attempt x))"
    "positive (to_u64 (ob_fence x)) = Inr (nat (ob_fence x))"
    using x by (simp_all add: observation_ok_def positive_def to_u32_def to_u64_def)
  moreover have "nat (ob_fence x) = 2 * nat (ob_attempt x) - 1" using x by (simp add: observation_ok_def)
  ultimately show "\<exists>v. decode_observation env i x = Inr \<lparr>oo_job_id = i,
        oo_observation = \<lparr>lo_id = ob_id x,
          lo_token = \<lparr>tok_attempt = nat (ob_attempt x), tok_fence = nat (ob_fence x)\<rparr>,
          lo_observed_at_ms = ob_observed_at_ms x,
          lo_outcome = (if ob_outcome x = ''succeeded'' then CompletionSucceeded else CompletionFailed),
          lo_evidence = v\<rparr>\<rparr>"
    using x v by (intro exI [of _ v]) (auto simp: observation_ok_def decode_observation_def validate_uuid_v7_def ensure_def)
  have "length (ob_id x) = 36" using x laws by (simp add: observation_ok_def store_laws_def)
  moreover have "length (ob_outcome x) \<le> 9" using x by (auto simp: observation_ok_def)
  ultimately show "read_observation x" "opt_length (ob_evidence_json x) \<le> MAX_STORED_BYTES"
    using json_text_bytes [OF ev] by (simp_all add: read_observation_def read_text_def)
qed

lemma observations_page:
  fixes after :: "(int \<times> string) option"
  assumes q: "observation_query_ok (env, i, limit, c)"
    and after: "case after of None \<Rightarrow> True | Some (time, k) \<Rightarrow> 0 \<le> time \<and> is_uuid_v7 (se_uuid env) k"
  defines "rs \<equiv> filter (\<lambda>x. past after (ob_observed_at_ms x, ob_id x)) (observation_rows i c)"
  shows "\<exists>k. observations_tx env i after limit c
        = Inr (page_at (\<lambda>x. decoded (decode_observation env i x)) (\<lambda>x. (ob_observed_at_ms x, ob_id x)) rs k)
      \<and> (rs \<noteq> [] \<longrightarrow> 0 < k)"
proof -
  have laws: "store_laws env" using q by simp
  have rows: "sort_key (\<lambda>x. (ob_observed_at_ms x, ob_id x))
      (filter (\<lambda>x. ob_job_id x = i \<and> past after (ob_observed_at_ms x, ob_id x)) (cn_observations c)) = rs"
    by (simp add: rs_def observation_rows_def filter_sort conj_commute)
  have row: "read_observation x \<and> opt_length (ob_evidence_json x) \<le> MAX_STORED_BYTES
      \<and> decode_observation env i x = Inr (decoded (decode_observation env i x))
      \<and> lo_observed_at_ms (oo_observation (decoded (decode_observation env i x))) = ob_observed_at_ms x
      \<and> lo_id (oo_observation (decoded (decode_observation env i x))) = ob_id x" if x: "x \<in> set rs" for x
  proof -
    have "observation_ok env x" using x q by (simp add: rs_def observation_rows_def observations_inv_def)
    from observation_decodes(1) [OF this laws, of i] observation_decodes(2,3) [OF this laws] show ?thesis by auto
  qed
  obtain k where "bind_res (page_loop read_observation (\<lambda>x. opt_length (ob_evidence_json x))
        (decode_observation env i) limit (take (limit + 1) rs) [] 0)
        (\<lambda>p. Inr (page_of (\<lambda>o'. (lo_observed_at_ms (oo_observation o'), lo_id (oo_observation o'))) p))
      = Inr (page_at (\<lambda>x. decoded (decode_observation env i x)) (\<lambda>x. (ob_observed_at_ms x, ob_id x)) rs k)"
    "rs \<noteq> [] \<longrightarrow> 0 < k"
    using page_of_rows [of rs read_observation "\<lambda>x. opt_length (ob_evidence_json x)" "decode_observation env i"
        "\<lambda>x. decoded (decode_observation env i x)"
        "\<lambda>o'. (lo_observed_at_ms (oo_observation o'), lo_id (oo_observation o'))"
        "\<lambda>x. (ob_observed_at_ms x, ob_id x)" limit] row q
    by auto
  with q after show ?thesis
    by (auto simp: observations_tx_def rows Let_def validate_page_def validate_uuid_v7_def ensure_def
        split: option.splits)
qed

interpretation observations: cursor_listing observation_query_ok observation_page observation_query_rows
    "\<lambda>q x. (ob_observed_at_ms x, ob_id x)" observation_item
proof (unfold_locales, goal_cases)
  case (1 q)
  obtain env i limit c where q: "q = (env, i, limit, c)" by (cases q)
  with 1 have "distinct (map ob_id (cn_observations c))" by (simp add: observations_inv_def)
  then have "sorted_wrt (\<lambda>x y. (ob_observed_at_ms x, ob_id x) < (ob_observed_at_ms y, ob_id y)) (observation_rows i c)"
    unfolding observation_rows_def by (rule sort_key_strict) simp
  then show ?case by (simp only: q observation_query_rows.simps)
next
  case (2 q)
  obtain env i limit c where q: "q = (env, i, limit, c)" by (cases q)
  have "filter (\<lambda>x. past None (ob_observed_at_ms x, ob_id x)) (observation_rows i c) = observation_rows i c"
    using 2 q by (auto simp: filter_id_conv observation_rows_def observations_inv_def observation_ok_def intro!: past_None)
  with observations_page [of env i limit c None] 2 q show ?case by simp
next
  case (3 q x)
  obtain env i limit c where q: "q = (env, i, limit, c)" by (cases q)
  have "observation_ok env x" using 3 q by (auto simp: observation_rows_def observations_inv_def)
  with observations_page [of env i limit c "Some (ob_observed_at_ms x, ob_id x)"] 3 q show ?case
    by (simp add: past_key observation_ok_def)
qed

lemma find_snoc: "find P xs = None \<Longrightarrow> find P (xs @ [x]) = (if P x then Some x else None)"
  by (induction xs) (auto split: if_splits)

definition observation_row_of :: "string \<Rightarrow> late_outcome_observation \<Rightarrow> string option \<Rightarrow> observation_row" where
  "observation_row_of job obs evidence =
     \<lparr>ob_id = lo_id obs, ob_job_id = job, ob_attempt = int (tok_attempt (lo_token obs)),
      ob_fence = int (tok_fence (lo_token obs)), ob_observed_at_ms = lo_observed_at_ms obs,
      ob_outcome = completion_name (lo_outcome obs), ob_evidence_json = evidence\<rparr>"

definition evidence_text :: "'u store_env \<Rightarrow> late_outcome_observation \<Rightarrow> store_error + string option" where
  "evidence_text env obs =
     (case lo_evidence obs of
        None \<Rightarrow> Inr None | Some v \<Rightarrow> bind_res (canonical env v) (\<lambda>t. Inr (Some t)))"

text \<open>What an observation must name: an attempt of the job that had begun by then.\<close>

definition observation_due :: "'u store_env \<Rightarrow> string \<Rightarrow> late_outcome_observation \<Rightarrow> conn \<Rightarrow> bool" where
  "observation_due env job obs c \<longleftrightarrow>
     is_uuid_v7 (se_uuid env) job \<and> is_uuid_v7 (se_uuid env) (lo_id obs) \<and> 0 \<le> lo_observed_at_ms obs
     \<and> tok_attempt (lo_token obs) \<noteq> 0 \<and> tok_fence (lo_token obs) \<noteq> 0
     \<and> tok_fence (lo_token obs) = 2 * tok_attempt (lo_token obs) - 1
     \<and> int (tok_fence (lo_token obs)) \<le> i64_max
     \<and> (\<exists>a. find (\<lambda>a. a_job_id a = job \<and> a_attempt a = int (tok_attempt (lo_token obs))
            \<and> a_fence a = int (tok_fence (lo_token obs))) (cn_attempts c) = Some a
          \<and> a_started_at_ms a \<le> lo_observed_at_ms obs)"

lemma observation_due_cong:
  "cn_attempts c = cn_attempts c' \<Longrightarrow> observation_due env job obs c = observation_due env job obs c'"
  by (simp only: observation_due_def)

lemma observation_run:
  assumes tx: "\<not> cn_autocommit c" and ev: "evidence_text env obs = Inr evidence"
    and due: "observation_due env job obs c"
  shows "record_observation_tx env job obs c =
     (case find (\<lambda>x. ob_id x = lo_id obs) (cn_observations c) of
        Some x \<Rightarrow>
          if \<not> (read_text (ob_job_id x) 36 \<and> read_text (ob_outcome x) 9
               \<and> read_optional_text (ob_evidence_json x) 1048576)
          then (Inl SeStorage, c)
          else if x = observation_row_of job obs evidence
          then (Inr \<lparr>oo_job_id = job, oo_observation = obs\<rparr>, c)
          else (Inl SeConflict, c)
      | None \<Rightarrow>
          (case insert_observation (se_sqlite env) (observation_row_of job obs evidence) c of
             Inl _ \<Rightarrow> (Inl SeStorage, c)
           | Inr c' \<Rightarrow> (Inr \<lparr>oo_job_id = job, oo_observation = obs\<rparr>, c')))"
proof -
  have same: "(ob_job_id x = job \<and> ob_attempt x = int (tok_attempt (lo_token obs))
      \<and> ob_fence x = int (tok_fence (lo_token obs)) \<and> ob_observed_at_ms x = lo_observed_at_ms obs
      \<and> ob_outcome x = completion_name (lo_outcome obs) \<and> ob_evidence_json x = evidence)
      \<longleftrightarrow> x = observation_row_of job obs evidence" if "ob_id x = lo_id obs" for x
    using that by (cases x) (auto simp: observation_row_of_def)
  obtain a where a: "find (\<lambda>a. a_job_id a = job \<and> a_attempt a = int (tok_attempt (lo_token obs))
      \<and> a_fence a = int (tok_fence (lo_token obs))) (cn_attempts c) = Some a" "a_started_at_ms a \<le> lo_observed_at_ms obs"
    using due unfolding observation_due_def by blast
  have fence: "to_i64 (tok_fence (lo_token obs)) = Inr (int (tok_fence (lo_token obs)))"
  proof -
    have "int (tok_fence (lo_token obs)) \<le> i64_max" using due unfolding observation_due_def by blast
    then show ?thesis by (simp only: to_i64_def if_True)
  qed
  show ?thesis
  proof (cases "find (\<lambda>x. ob_id x = lo_id obs) (cn_observations c)")
    case None
    with tx ev due a fence show ?thesis
      by (simp add: record_observation_tx_def observation_due_def validate_uuid_v7_def evidence_text_def Let_def
          bind_op_def [of "sql_op _"] sql_op_def return_op_def observation_row_of_def split: sum.splits)
  next
    case (Some x)
    then have i: "ob_id x = lo_id obs" by (auto simp: find_Some_iff)
    from Some tx ev due a fence show ?thesis
      by (simp add: record_observation_tx_def observation_due_def validate_uuid_v7_def evidence_text_def Let_def
          fail_op_def return_op_def same [OF i, symmetric])
  qed
qed

text \<open>
  A new observation is appended; told again it is answered without another row; told otherwise under
  the same id it is refused.
\<close>

lemma observation_appended:
  assumes laws: "store_laws env" and inv: "store_inv env c" and obs_inv: "observations_inv env c"
    and tx: "\<not> cn_autocommit c" and ev: "evidence_text env obs = Inr evidence"
    and readable: "\<And>v. lo_evidence obs = Some v \<Longrightarrow> reads_back (se_values env) v"
    and due: "observation_due env job obs c"
    and new: "lo_id obs \<notin> ob_id ` set (cn_observations c)"
  defines "x \<equiv> observation_row_of job obs evidence"
  defines "c' \<equiv> c\<lparr>cn_observations := cn_observations c @ [x]\<rparr>"
  shows "record_observation_tx env job obs c = (Inr \<lparr>oo_job_id = job, oo_observation = obs\<rparr>, c')"
    "observations_inv env c'"
    "record_observation_tx env job obs c' = (Inr \<lparr>oo_job_id = job, oo_observation = obs\<rparr>, c')"
proof -
  have text_ok: "json_text_ok env evidence"
  proof (cases evidence)
    case (Some t)
    with ev obtain v where v: "lo_evidence obs = Some v" "canonical_json (se_values env) v = Some t"
      by (auto simp: evidence_text_def canonical_def bind_res_Inr split: option.splits)
    obtain w where "parse_bounded_json (se_values env) t = Some w"
      by (rule reads_back_parse [OF readable [OF v(1)] v(2)])
    with laws v(2) Some show ?thesis by (simp add: json_text_ok_def null_or_def store_laws_def)
  qed (simp add: json_text_ok_def null_or_def)
  obtain a where a: "find (\<lambda>a. a_job_id a = job \<and> a_attempt a = int (tok_attempt (lo_token obs))
      \<and> a_fence a = int (tok_fence (lo_token obs))) (cn_attempts c) = Some a"
    using due unfolding observation_due_def by blast
  from find_in [OF a] have a': "a \<in> set (cn_attempts c)" "a_job_id a = job"
    "a_attempt a = int (tok_attempt (lo_token obs))" "a_fence a = int (tok_fence (lo_token obs))" by simp_all
  obtain r where r: "r \<in> set (cn_jobs c)" "attempt_fits env r a" "row_ok env r"
    using store_invD(3,5) [OF inv] a'(1) by blast
  obtain s t where s: "r = job_row_of s t" "storable env s" by (rule row_okE [OF r(3)])
  have small: "tok_attempt (lo_token obs) \<le> u32_max"
    using r(2) a' storable_counters [OF s(2)] by (simp add: attempt_fits_def s(1) u32_max_def)
  have ok: "observation_ok env x"
    using due text_ok small
    by (cases "lo_outcome obs") (simp_all add: observation_ok_def x_def observation_row_of_def observation_due_def of_nat_diff)
  have "observation_checks (se_sqlite env) x"
    using ok json_text_bytes [OF text_ok]
    by (auto simp: observation_checks_def observation_ok_def json_text_ok_def null_or_def x_def observation_row_of_def
        read_optional_text_def split: option.splits)
  moreover have "attempt_exists c (ob_job_id x) (ob_attempt x) (ob_fence x)"
    using a' by (auto simp: attempt_exists_def list_ex_iff x_def observation_row_of_def)
  moreover have "\<not> list_ex (\<lambda>q. ob_id q = ob_id x) (cn_observations c)"
    using new by (auto simp: list_ex_iff x_def observation_row_of_def image_iff)
  ultimately have ins: "insert_observation (se_sqlite env) x c = Inr c'"
    by (simp add: insert_observation_def c'_def)
  have none: "find (\<lambda>x. ob_id x = lo_id obs) (cn_observations c) = None"
    using new by (simp add: find_None_key)
  show "record_observation_tx env job obs c = (Inr \<lparr>oo_job_id = job, oo_observation = obs\<rparr>, c')"
    using observation_run [OF tx ev due] none ins by (simp add: x_def)
  show "observations_inv env c'"
    using obs_inv ok new by (simp add: observations_inv_def c'_def x_def observation_row_of_def)
  have "find (\<lambda>x. ob_id x = lo_id obs) (cn_observations c') = Some x"
    unfolding c'_def by (simp add: find_snoc [OF none] x_def observation_row_of_def)
  moreover have "cn_attempts c' = cn_attempts c" "\<not> cn_autocommit c'" using tx by (simp_all add: c'_def)
  then have "observation_due env job obs c'" "\<not> cn_autocommit c'"
    using due observation_due_cong [of c' c env job obs] by simp_all
  moreover have "read_observation x" by (rule observation_decodes(2) [OF ok laws])
  moreover have "read_text job 36" using due laws by (simp add: read_text_def observation_due_def store_laws_def)
  ultimately show "record_observation_tx env job obs c' = (Inr \<lparr>oo_job_id = job, oo_observation = obs\<rparr>, c')"
    using observation_run [of c' env obs evidence job] ev
    by (simp add: x_def observation_row_of_def read_observation_def)
qed

lemma observation_conflict:
  assumes laws: "store_laws env" and obs_inv: "observations_inv env c" and tx: "\<not> cn_autocommit c"
    and ev: "evidence_text env obs = Inr evidence" and due: "observation_due env job obs c"
    and x: "x \<in> set (cn_observations c)" "ob_id x = lo_id obs" "x \<noteq> observation_row_of job obs evidence"
    "length (ob_job_id x) \<le> 36"
  shows "record_observation_tx env job obs c = (Inl SeConflict, c)"
proof -
  have "find (\<lambda>y. ob_id y = ob_id x) (cn_observations c) = Some x"
    by (rule find_unique [OF _ x(1)]) (use obs_inv in \<open>simp add: observations_inv_def\<close>)
  moreover have "read_observation x"
    using observation_decodes(2) [OF _ laws] obs_inv x(1) by (auto simp: observations_inv_def)
  ultimately show ?thesis
    using observation_run [OF tx ev due] x by (simp add: read_observation_def read_text_def)
qed

section \<open>Output\<close>

definition attempt_output :: "conn \<Rightarrow> string \<Rightarrow> int \<Rightarrow> output_row list" where
  "attempt_output c job attempt = filter (\<lambda>u. u_job_id u = job \<and> u_attempt u = attempt) (cn_outputs c)"

text \<open>The rows of an attempt are numbered from one, in the order they were appended.\<close>

definition numbered :: "conn \<Rightarrow> bool" where
  "numbered c \<longleftrightarrow>
     (\<forall>job attempt. map u_seq (attempt_output c job attempt)
        = map int [1..<length (attempt_output c job attempt) + 1])"

definition output_row_of ::
  "'u store_env \<Rightarrow> string \<Rightarrow> attempt_fence \<Rightarrow> nat \<Rightarrow> new_job_output \<Rightarrow> output_row" where
  "output_row_of env job tok seq row =
     \<lparr>u_job_id = job, u_attempt = int (tok_attempt tok), u_fence = int (tok_fence tok), u_seq = int seq,
      u_kind = output_kind_as_str (no_kind row), u_at_ms = no_at_ms row,
      u_content_json = vl_text (se_values env) (no_content row)\<rparr>"

fun output_rows ::
  "'u store_env \<Rightarrow> string \<Rightarrow> attempt_fence \<Rightarrow> nat \<Rightarrow> new_job_output list \<Rightarrow> output_row list" where
  "output_rows env job tok seq [] = []"
| "output_rows env job tok seq (row # rows) =
     output_row_of env job tok (seq + 1) row # output_rows env job tok (seq + 1) rows"

definition acceptable :: "'u store_env \<Rightarrow> new_job_output \<Rightarrow> bool" where
  "acceptable env row \<longleftrightarrow>
     length (vl_text (se_values env) (no_content row)) \<le> MAX_OUTPUT_BYTES \<and> 0 \<le> no_at_ms row"

lemma fold_max_upto: "fold max (map int [a..<b]) (x :: int) = max x (if a < b then int b - 1 else x)"
  by (induction b) (auto simp: max_def)

lemma last_seq_length:
  assumes "numbered c"
  shows "last_seq c job attempt = int (length (attempt_output c job attempt))"
proof -
  have "map u_seq (filter (\<lambda>u. u_job_id u = job \<and> u_attempt u = attempt) (cn_outputs c))
      = map int [1..<length (attempt_output c job attempt) + 1]"
    using assms by (simp only: numbered_def attempt_output_def)
  then show ?thesis unfolding last_seq_def by (simp only: fold_max_upto) auto
qed

lemma output_kinds: "output_kind_as_str k \<in> {''text'', ''tool_call'', ''tool_result'', ''usage''}"
  by (cases k) simp_all

lemma insert_output_next:
  assumes laws: "store_laws env" and num: "numbered c" and row: "acceptable env row"
    and seq: "seq = length (attempt_output c job (int (tok_attempt tok)))"
  defines "u \<equiv> output_row_of env job tok (seq + 1) row"
  shows "insert_output (se_sqlite env) u c =
      (if attempt_open c job (int (tok_attempt tok)) (int (tok_fence tok))
       then Inr (c\<lparr>cn_outputs := cn_outputs c @ [u]\<rparr>) else Inl OtherSqlError)"
    "numbered (c\<lparr>cn_outputs := cn_outputs c @ [u]\<rparr>)"
    "length (attempt_output (c\<lparr>cn_outputs := cn_outputs c @ [u]\<rparr>) job (int (tok_attempt tok))) = seq + 1"
proof -
  have checks: "output_checks (se_sqlite env) u"
    using laws row output_kinds [of "no_kind row"]
    by (simp add: output_checks_def u_def output_row_of_def store_laws_def acceptable_def MAX_OUTPUT_BYTES_def)
  have "int (seq + 1) \<notin> set (map u_seq (attempt_output c job (int (tok_attempt tok))))"
    using num seq by (auto simp: numbered_def)
  then have new: "\<not> list_ex (\<lambda>q. u_job_id q = u_job_id u \<and> u_attempt q = u_attempt u \<and> u_seq q = u_seq u) (cn_outputs c)"
    by (auto simp: list_ex_iff attempt_output_def u_def output_row_of_def image_iff)
  have "attempt_exists c job (int (tok_attempt tok)) (int (tok_fence tok))"
    if "attempt_open c job (int (tok_attempt tok)) (int (tok_fence tok))"
    using that by (auto simp: attempt_open_def attempt_exists_def list_ex_iff)
  with checks new show "insert_output (se_sqlite env) u c =
      (if attempt_open c job (int (tok_attempt tok)) (int (tok_fence tok))
       then Inr (c\<lparr>cn_outputs := cn_outputs c @ [u]\<rparr>) else Inl OtherSqlError)"
    by (auto simp: insert_output_def u_def output_row_of_def)
  have out: "attempt_output (c\<lparr>cn_outputs := cn_outputs c @ [u]\<rparr>) j a =
      attempt_output c j a @ (if j = job \<and> a = int (tok_attempt tok) then [u] else [])" for j a
    by (auto simp: attempt_output_def u_def output_row_of_def)
  show "length (attempt_output (c\<lparr>cn_outputs := cn_outputs c @ [u]\<rparr>) job (int (tok_attempt tok))) = seq + 1"
    using seq by (simp add: out)
  have "u_seq u = int (seq + 1)" by (simp add: u_def output_row_of_def)
  with num seq show "numbered (c\<lparr>cn_outputs := cn_outputs c @ [u]\<rparr>)"
    by (simp add: numbered_def out)
qed

lemma append_rows_open:
  assumes laws: "store_laws env" and "numbered c" "\<forall>row \<in> set rows. acceptable env row"
    and "attempt_open c job (int (tok_attempt tok)) (int (tok_fence tok))"
    and "seq = length (attempt_output c job (int (tok_attempt tok)))"
  shows "append_rows env job (tok_attempt tok) (int (tok_fence tok)) (int seq) rows c =
       (Inr (int (seq + length rows)), c\<lparr>cn_outputs := cn_outputs c @ output_rows env job tok seq rows\<rparr>)
     \<and> numbered (c\<lparr>cn_outputs := cn_outputs c @ output_rows env job tok seq rows\<rparr>)"
  using assms(2-)
proof (induction rows arbitrary: seq c)
  case (Cons row rows)
  let ?u = "output_row_of env job tok (seq + 1) row"
  let ?c = "c\<lparr>cn_outputs := cn_outputs c @ [?u]\<rparr>"
  note step = insert_output_next [OF laws Cons.prems(1) _ Cons.prems(4), of row]
  have u: "?u = \<lparr>u_job_id = job, u_attempt = int (tok_attempt tok), u_fence = int (tok_fence tok), u_seq = int seq + 1,
      u_kind = output_kind_as_str (no_kind row), u_at_ms = no_at_ms row,
      u_content_json = vl_text (se_values env) (no_content row)\<rparr>" by (simp add: output_row_of_def)
  have ok: "acceptable env row" using Cons.prems(2) by simp
  have "append_rows env job (tok_attempt tok) (int (tok_fence tok)) (int (seq + 1)) rows ?c =
       (Inr (int (seq + 1 + length rows)), ?c\<lparr>cn_outputs := cn_outputs ?c @ output_rows env job tok (seq + 1) rows\<rparr>)
     \<and> numbered (?c\<lparr>cn_outputs := cn_outputs ?c @ output_rows env job tok (seq + 1) rows\<rparr>)"
  proof (rule Cons.IH)
    show "numbered ?c" by (rule step(2) [OF ok])
    show "seq + 1 = length (attempt_output ?c job (int (tok_attempt tok)))" using step(3) [OF ok] by (rule sym)
  qed (use Cons.prems(2,3) in \<open>simp_all add: attempt_open_def\<close>)
  moreover have "append_rows env job (tok_attempt tok) (int (tok_fence tok)) (int seq) (row # rows) c
      = append_rows env job (tok_attempt tok) (int (tok_fence tok)) (int (seq + 1)) rows ?c"
  proof -
    have ins: "sql_op (insert_output (se_sqlite env) \<lparr>u_job_id = job, u_attempt = int (tok_attempt tok),
        u_fence = int (tok_fence tok), u_seq = int seq + 1, u_kind = output_kind_as_str (no_kind row),
        u_at_ms = no_at_ms row, u_content_json = vl_text (se_values env) (no_content row)\<rparr>) c = (Inr (), ?c)"
      unfolding sql_op_def u [symmetric] using step(1) [OF ok] Cons.prems(3) by simp
    show ?thesis
      unfolding of_nat_add of_nat_1 append_rows.simps Let_def
      using ok by (simp add: acceptable_def bind_op_def [of "sql_op _"] ins)
  qed
  ultimately show ?case by simp
qed (simp add: return_op_def)

text \<open>A closed attempt, or one with another fence, takes no output.\<close>

lemma append_rows_closed:
  assumes "\<not> attempt_open c job (int (tok_attempt tok)) (int (tok_fence tok))" "rows \<noteq> []"
  shows "\<exists>e. append_rows env job (tok_attempt tok) (int (tok_fence tok)) seq rows c = (Inl e, c)"
  using assms by (cases rows) (auto simp: Let_def bind_op_def sql_op_def insert_output_def fail_op_def)

lemma append_output:
  assumes laws: "store_laws env" and num: "numbered c" and tx: "\<not> cn_autocommit c"
    and fence: "int (tok_fence tok) \<le> i64_max"
    and ok: "\<forall>row \<in> set rows. acceptable env row"
    and op: "attempt_open c job (int (tok_attempt tok)) (int (tok_fence tok))"
  defines "n \<equiv> length (attempt_output c job (int (tok_attempt tok)))"
  defines "c' \<equiv> c\<lparr>cn_outputs := cn_outputs c @ output_rows env job tok n rows\<rparr>"
  shows "append_output_tx env job tok rows c = (Inr (n + length rows), c')" "numbered c'"
proof -
  have "append_rows env job (tok_attempt tok) (int (tok_fence tok)) (int n) rows c = (Inr (int (n + length rows)), c')"
    "numbered c'"
    using append_rows_open [OF laws num ok op n_def [THEN meta_eq_to_obj_eq]] by (simp_all add: c'_def)
  with tx fence last_seq_length [OF num] show "append_output_tx env job tok rows c = (Inr (n + length rows), c')"
    "numbered c'"
    by (simp_all add: append_output_tx_def to_i64_def n_def [symmetric] return_op_def bind_op_step)
qed

text \<open>What a reader gets: the rows in order with their numbers.\<close>

fun outputs_from :: "nat \<Rightarrow> new_job_output list \<Rightarrow> job_output list" where
  "outputs_from seq [] = []"
| "outputs_from seq (row # rows) =
     \<lparr>jo_seq = seq + 1, jo_kind = no_kind row, jo_at_ms = no_at_ms row, jo_content = no_content row\<rparr>
     # outputs_from (seq + 1) rows"

lemma output_kind_reads_back: "output_kind_parse (output_kind_as_str k) = Some k"
  by (cases k) (simp_all add: output_kind_parse_def)

lemma decode_output_rows:
  assumes "\<forall>row \<in> set rows. vl_parse (se_values env) (vl_text (se_values env) (no_content row)) = Some (no_content row)"
  shows "decode_outputs env (output_rows env job tok n rows) = Inr (outputs_from n rows)"
  using assms
  by (induction rows arbitrary: n) (simp_all add: output_row_of_def to_u64_def output_kind_reads_back nat_add_distrib)

lemma output_rows_length: "length (output_rows env job tok n rows) = length rows"
  by (induction rows arbitrary: n) simp_all

lemma output_rows_numbers:
  "map u_seq (output_rows env job tok n rows) = map int [n + 1..<n + 1 + length rows]"
  "u \<in> set (output_rows env job tok n rows) \<Longrightarrow> u_job_id u = job \<and> u_attempt u = int (tok_attempt tok) \<and> int n < u_seq u"
proof (induction rows arbitrary: n)
  case (Cons row rows)
  case 1
  have "[n + 1..<n + 1 + length (row # rows)] = (n + 1) # [n + 1 + 1..<n + 1 + 1 + length rows]"
    by (simp add: upt_conv_Cons del: upt_Suc)
  then show ?case using Cons(1) [of "n + 1"] by (simp add: output_row_of_def del: upt_Suc)
next
  case (Cons row rows)
  case 2
  then show ?case using Cons(2) [of "n + 1"] by (auto simp: output_row_of_def)
qed simp_all

lemma output_reads_back:
  assumes num: "numbered c" and n: "n = length (attempt_output c job (int (tok_attempt tok)))"
    and small: "int n \<le> i64_max"
    and texts: "\<forall>row \<in> set rows. vl_parse (se_values env) (vl_text (se_values env) (no_content row)) = Some (no_content row)"
    and limit: "length rows \<le> limit" "length rows \<le> 4096"
  shows "output_tx env job (tok_attempt tok) n limit
      (c\<lparr>cn_outputs := cn_outputs c @ output_rows env job tok n rows\<rparr>) = Inr (outputs_from n rows)"
proof -
  let ?new = "output_rows env job tok n rows" and ?P = "\<lambda>u. u_job_id u = job \<and> u_attempt u = int (tok_attempt tok)"
  have old: "u_seq u \<le> int n" if u: "u \<in> set (cn_outputs c)" "?P u" for u
  proof -
    have "u_seq u \<in> set (map u_seq (attempt_output c job (int (tok_attempt tok))))"
      using u by (auto simp: attempt_output_def)
    also have "\<dots> = set (map int [1..<n + 1])" using num n by (simp only: numbered_def)
    finally show ?thesis by (simp del: upt_Suc) auto
  qed
  have "filter (\<lambda>u. u_job_id u = job \<and> u_attempt u = int (tok_attempt tok) \<and> u_seq u > int n) (cn_outputs c @ ?new) = ?new"
    using old output_rows_numbers(2) [of _ env job tok n rows]
    by (auto simp: filter_empty_conv filter_id_conv not_less)
  moreover have "sorted (map u_seq ?new)"
    unfolding output_rows_numbers(1) by (simp add: sorted_wrt_map del: upt_Suc)
  then have "sort_key u_seq ?new = ?new" by (rule sort_key_id_if_sorted)
  moreover have "length ?new = length rows" by (rule output_rows_length)
  ultimately show ?thesis
    using limit small decode_output_rows [OF texts] by (simp add: output_tx_def to_i64_def MAX_PAGE_ITEMS_def)
qed

end
