(* ===== verification/Job_Store_Promises.thy ===== *)
theory Job_Store_Promises
  imports Job_Store_Pages
begin

text \<open>
  What a caller of the job store may rely on, each with a run of a small store: transitions are the
  lifecycle's, an intent is kept once, provenance is kept with its job, a failure leaves nothing
  behind, listings are complete, and output is read as it was appended while its attempt was open.
\<close>

section \<open>A small store\<close>

definition demo_values :: value_lib where
  "demo_values =
     \<lparr>vl_pieces = (\<lambda>_. [''null'']), vl_parse = (\<lambda>t. if t = ''null'' then Some JNull else None)\<rparr>"

definition demo_env :: "unit store_env" where
  "demo_env =
     \<lparr>se_uuid = demo_uuids, se_json = demo_json, se_values = demo_values,
      se_sqlite =
        \<lparr>sq_valid = (\<lambda>_. True), sq_type = (\<lambda>_. Some ''object''),
         sq_field_type = (\<lambda>_ f. Some (if f = ''schema_version'' then ''integer'' else ''text'')),
         sq_field_int = (\<lambda>_ _. Some 1), sq_field_text = (\<lambda>_ _. Some demo_id)\<rparr>\<rparr>"

definition demo_new :: new_extension_job where
  "demo_new =
     \<lparr>nj_job = demo_scheduled, nj_operation = ''run'', nj_invoker = ''agent'', nj_request = JNull\<rparr>"

definition demo_empty :: conn where
  "demo_empty =
     \<lparr>cn_autocommit = False, cn_jobs = [], cn_contexts = [], cn_attempts = [], cn_observations = [],
      cn_outputs = []\<rparr>"

definition demo_stored :: stored_extension_job where
  "demo_stored = stored_as demo_new JNull"

definition demo_conn :: conn where
  "demo_conn = demo_empty\<lparr>cn_jobs := [job_row_of demo_stored ''null'']\<rparr>"

lemma demo_uuids_iff: "is_uuid_v7 demo_uuids v \<longleftrightarrow> v = demo_id"
  by (simp add: is_uuid_v7_def demo_uuids_def)

lemma demo_lengths: "length demo_id = 36" "sql_length demo_id = 36"
  by (simp_all add: demo_id_def sql_length_def byte_def)

lemma demo_laws: "store_laws demo_env"
  by (simp add: store_laws_def demo_env_def demo_uuids_iff demo_lengths)

lemma demo_encoded:
  "encode_json demo_uuids demo_json ctx = Inr t \<Longrightarrow> ctx = context_of_wire demo_wire"
  by (rule ccontr) (simp add: encode_json_def demo_json_def bind_res_Inr)

lemma demo_context_laws: "context_laws demo_env"
proof -
  have "jc_originating_run_id (context_of_wire demo_wire) = demo_id"
    by (simp add: context_of_wire_def demo_wire_def)
  then show ?thesis
    using demo_encoded by (auto simp: context_laws_def demo_env_def demo_reads_back demo_uuids_iff demo_lengths)
qed

lemma demo_canonical_null: "canonical_json demo_values JNull = Some ''null''"
  by (simp add: canonical_json_def validate_json_depth.simps add_bytes_def lower_bytes_of_def MAX_STORED_BYTES_def
      checked_add_u64_def u64_max_def demo_values_def MAX_JSON_DEPTH_def bounded_write_def vl_text_def)

lemma demo_reads_null:
  "reads_back demo_values JNull" "parse_bounded_json demo_values ''null'' = Some JNull"
  "vl_parse demo_values (vl_text demo_values JNull) = Some JNull"
  using demo_canonical_null
  by (simp_all add: reads_back_def parse_bounded_json_def MAX_STORED_BYTES_def)
    (simp_all add: demo_values_def vl_text_def)

lemma demo_validated: "job_validate demo_uuids demo_scheduled = Inr ()"
  using job_queued_inv [OF demo_scheduled_queued] by (simp add: job_inv_def)

lemma demo_job_fields:
  "j_id demo_scheduled = demo_id" "j_run_id demo_scheduled = demo_id" "j_state demo_scheduled = Queued"
  "j_attempt demo_scheduled = 0" "j_fence demo_scheduled = 0" "j_lease_until_ms demo_scheduled = None"
  "j_cancel_at_ms demo_scheduled = None" "j_created_at_ms demo_scheduled = 5"
  "j_updated_at_ms demo_scheduled = 5" "j_owner demo_scheduled = demo_owner"
  "j_intent_key demo_scheduled = ''k''" "j_replay_policy demo_scheduled = Idempotent"
  by (simp_all add: demo_scheduled_def demo_job_def)

lemma demo_new_ok: "new_job_ok demo_env demo_new"
proof -
  have "validate_metadata ''run'' = Inr ()" "validate_metadata ''agent'' = Inr ()"
    by (simp_all add: validate_metadata_Inr char_class_defs)
  then have "validate_new_job demo_env demo_new = Inr ()"
    by (simp add: validate_new_job_def demo_new_def demo_env_def demo_validated demo_job_fields Let_def
        canonical_def demo_canonical_null validate_uuid_v7_def demo_uuids_iff)
  then show ?thesis
    by (simp add: new_job_ok_def new_job_checked_def) (simp add: demo_new_def demo_env_def demo_job_fields demo_owner_def demo_reads_null
        global_name_def kspec_def kind_spec_of_def KINDS_def null_or_def u32_max_def)
qed

lemma demo_storable: "storable demo_env demo_stored"
  unfolding demo_stored_def by (rule validated_new(1) [OF demo_new_ok])

lemma demo_stored_fields:
  "sj_job demo_stored = demo_scheduled" "sj_request demo_stored = JNull" "sj_revision demo_stored = 1"
  by (simp_all add: demo_stored_def stored_as_def demo_new_def)

lemma demo_inv: "store_inv demo_env demo_empty" "store_inv demo_env demo_conn"
proof -
  have "row_ok demo_env (job_row_of demo_stored ''null'')"
    unfolding row_ok_def
    by (intro exI [of _ demo_stored] exI [of _ "''null''"] conjI refl demo_storable)
      (simp add: demo_env_def demo_reads_null demo_stored_fields)
  then show "store_inv demo_env demo_empty" "store_inv demo_env demo_conn"
    by (simp_all add: store_inv_def demo_empty_def demo_conn_def demo_stored_fields demo_job_fields)
qed

lemma demo_get: "get_tx demo_env demo_id demo_conn = Inr (Some demo_stored)"
  using get_stored_row [OF demo_inv(2) demo_laws _ demo_storable, of "''null''"]
  by (simp add: demo_conn_def demo_empty_def demo_stored_fields demo_job_fields demo_env_def demo_reads_null)

section \<open>Transitions\<close>

lemma demo_claim: "\<exists>n token. apply_event demo_scheduled (Claim 10 20 ''k'') = Inr (n, token)"
  unfolding apply_Claim_iff by (simp add: demo_job_fields demo_key_ok counter_bounds)

lemma get_revision:
  "store_laws env \<Longrightarrow> store_inv env c \<Longrightarrow> get_tx env i c = Inr (Some s) \<Longrightarrow> 0 < sj_revision s"
  by (erule (2) get_tx_row) (simp add: storable_def)

text \<open>
  C2. A transition of a stored job is the lifecycle's: with the revision that was read it stores what
  \<open>apply_event\<close> gives under the next revision, or is rejected with its error and stores nothing; no
  check, trigger or key of the tables ever refuses it, and the other jobs stay as they were.
\<close>

theorem stored_transitions_are_the_lifecycles:
  assumes "store_laws env" "store_inv env c" "\<not> cn_autocommit c" "get_tx env i c = Inr (Some s)"
    and "result_of_event env ev result = Inr rt" "\<And>v. result = Some v \<Longrightarrow> reads_back (se_values env) v"
    and "int (sj_revision s) < i64_max"
  shows "case apply_event (sj_job s) ev of
       Inl e \<Rightarrow> transition_tx env i (sj_revision s) ev result c = (Inl (SeTransitionRejected e), c)
     | Inr (n, token) \<Rightarrow>
         (\<exists>c'. transition_tx env i (sj_revision s) ev result c
              = (Inr (s\<lparr>sj_job := n, sj_revision := sj_revision s + 1\<rparr>), c')
            \<and> store_inv env c' \<and> \<not> cn_autocommit c'
            \<and> get_tx env i c' = Inr (Some (s\<lparr>sj_job := n, sj_revision := sj_revision s + 1\<rparr>))
            \<and> (\<forall>k. k \<noteq> i \<longrightarrow> get_tx env k c' = get_tx env k c))"
proof (cases "apply_event (sj_job s) ev")
  case (Inl e)
  with transition_rejected [OF assms(1-5)] show ?thesis by simp
next
  case (Inr r)
  obtain n tk where r: "r = (n, tk)" by (cases r)
  have "apply_event (sj_job s) ev = Inr (n, tk)" using Inr r by simp
  from transition_stored [OF assms this] Inr r show ?thesis by simp
qed

lemma stored_transitions_are_the_lifecycles_witness:
  "\<exists>n token c'. apply_event demo_scheduled (Claim 10 20 ''k'') = Inr (n, token)
     \<and> transition_tx demo_env demo_id 1 (Claim 10 20 ''k'') None demo_conn
         = (Inr (demo_stored\<lparr>sj_job := n, sj_revision := 2\<rparr>), c')"
proof -
  have res: "result_of_event demo_env (Claim 10 20 ''k'') None = Inr None" by (simp add: result_of_event_def)
  have tx: "\<not> cn_autocommit demo_conn" by (simp add: demo_conn_def demo_empty_def)
  obtain n token where ap: "apply_event demo_scheduled (Claim 10 20 ''k'') = Inr (n, token)"
    using demo_claim by blast
  show ?thesis
    using stored_transitions_are_the_lifecycles [OF demo_laws demo_inv(2) tx demo_get res] ap
    by (auto simp: demo_stored_fields i64_max_def)
qed

lemma op_Inr:
  "of_res r c = (Inr a, c') \<longleftrightarrow> r = Inr a \<and> c' = c"
  "read_op g c = (Inr a, c') \<longleftrightarrow> g c = Inr a \<and> c' = c"
  "ensure_transaction c = (Inr u, c') \<longleftrightarrow> \<not> cn_autocommit c \<and> c' = c"
  by (auto simp: of_res_def read_op_def ensure_transaction_def)

lemma transition_done:
  assumes "transition_tx env i n ev result c = (Inr s', c')" "store_laws env" "store_inv env c"
  obtains s rt where "\<not> cn_autocommit c" "get_tx env i c = Inr (Some s)" "n = sj_revision s"
    "result_of_event env ev result = Inr rt" "int n < i64_max" "\<exists>t. apply_event (sj_job s) ev = Inr t"
proof -
  from assms(1) obtain s rt t m where s: "\<not> cn_autocommit c" "get_tx env i c = Inr (Some s)" "n = sj_revision s"
    "result_of_event env ev result = Inr rt" "transition (se_uuid env) (sj_job s) ev = Inr t" "next_revision n = Inr m"
    unfolding transition_tx_def bind_op_Inr op_Inr ensure_op_Inr ok_or_iff
    by (elim exE conjE) (simp split: sum.splits)
  obtain u where u: "storable env s" by (rule get_tx_row [OF assms(3,2) s(2)])
  have "\<exists>t. apply_event (sj_job s) ev = Inr t"
    using transition_of_inv [of "se_uuid env" "sj_job s" ev] u s(5) by (auto simp: storable_def split: sum.splits)
  moreover have "int n < i64_max"
    using s(6) by (auto simp: next_revision_def checked_add_u64_def split: if_splits option.splits)
  ultimately show ?thesis using that s by blast
qed

text \<open>
  C5. Of two writers that read the same revision only the first gets through: after its transition
  every other one that names that revision, whatever it asks, is a conflict and changes nothing.
\<close>

theorem stale_writers_conflict:
  assumes "store_laws env" "store_inv env c" "\<And>v. result = Some v \<Longrightarrow> reads_back (se_values env) v"
    and "transition_tx env i n ev result c = (Inr s', c')"
  shows "transition_tx env i n ev' result' c' = (Inl SeConflict, c')"
proof -
  obtain s rt where s: "\<not> cn_autocommit c" "get_tx env i c = Inr (Some s)" "n = sj_revision s"
    "result_of_event env ev result = Inr rt" "int n < i64_max" "\<exists>t. apply_event (sj_job s) ev = Inr t"
    by (rule transition_done [OF assms(4,1,2)])
  then obtain k tk where ap: "apply_event (sj_job s) ev = Inr (k, tk)" by auto
  obtain c2 where c2: "transition_tx env i (sj_revision s) ev result c
      = (Inr (s\<lparr>sj_job := k, sj_revision := sj_revision s + 1\<rparr>), c2)" "\<not> cn_autocommit c2"
    "get_tx env i c2 = Inr (Some (s\<lparr>sj_job := k, sj_revision := sj_revision s + 1\<rparr>))"
    using transition_stored [OF assms(1,2) s(1,2,4) assms(3) _ ap] s(3,5) by blast
  then have "c2 = c'" using assms(4) s(3) by simp
  with c2 s(3,5) get_revision [OF assms(1,2) s(2)] show ?thesis by (simp add: transition_tx_def)
qed

lemma stale_writers_conflict_witness:
  "\<exists>s' c'. transition_tx demo_env demo_id 1 (Claim 10 20 ''k'') None demo_conn = (Inr s', c')
     \<and> transition_tx demo_env demo_id 1 (Claim 11 20 ''k'') None c' = (Inl SeConflict, c')"
proof -
  obtain n tk where ap: "apply_event (sj_job demo_stored) (Claim 10 20 ''k'') = Inr (n, tk)"
    using demo_claim by (auto simp: demo_stored_fields)
  obtain c' where c': "transition_tx demo_env demo_id (sj_revision demo_stored) (Claim 10 20 ''k'') None demo_conn
      = (Inr (demo_stored\<lparr>sj_job := n, sj_revision := sj_revision demo_stored + 1\<rparr>), c')"
    using transition_stored [OF demo_laws demo_inv(2) _ demo_get _ _ _ ap, of None None]
    by (auto simp: demo_conn_def demo_empty_def result_of_event_def demo_stored_fields i64_max_def)
  have "transition_tx demo_env demo_id (sj_revision demo_stored) (Claim 11 20 ''k'') None c' = (Inl SeConflict, c')"
    by (rule stale_writers_conflict [OF demo_laws demo_inv(2) _ c']) simp
  with c' show ?thesis by (auto simp: demo_stored_fields)
qed

section \<open>Enqueueing\<close>

text \<open>The job that has the intent of a new one, if there is one.\<close>

definition has_intent :: "'u store_env \<Rightarrow> new_extension_job \<Rightarrow> stored_extension_job \<Rightarrow> conn \<Rightarrow> bool" where
  "has_intent env new s c \<longleftrightarrow>
     get_tx env (j_id (sj_job s)) c = Inr (Some s)
     \<and> o_contribution (j_owner (sj_job s)) = o_contribution (j_owner (nj_job new))
     \<and> j_intent_key (sj_job s) = j_intent_key (nj_job new)"

lemma contribution_text_inj:
  assumes "storable env s" "storable env s'"
    "contribution_text (o_contribution (j_owner (sj_job s))) = contribution_text (o_contribution (j_owner (sj_job s')))"
  shows "o_contribution (j_owner (sj_job s)) = o_contribution (j_owner (sj_job s'))"
proof -
  have p: "ref_from_str (contribution_text (o_contribution (j_owner (sj_job u)))) = Inr (reference (o_contribution (j_owner (sj_job u))))"
    "ref_id (reference (o_contribution (j_owner (sj_job u)))) = Some (o_contribution (j_owner (sj_job u)))"
    if "storable env u" for u
    using contribution_text_parse [OF storable_owner(2) [OF that]] that by (simp_all add: storable_def)
  show ?thesis using p [OF assms(1)] p [OF assms(2)] assms(3) by simp
qed

lemma has_intent_found:
  assumes "store_laws env" "store_inv env c" "has_intent env new s c"
  shows "get_by_intent_tx env (contribution_text (o_contribution (j_owner (nj_job new))))
      (j_intent_key (nj_job new)) c = Inr (Some s)"
proof -
  have got: "get_tx env (j_id (sj_job s)) c = Inr (Some s)" using assms(3) by (simp add: has_intent_def)
  obtain t where "job_row_of s t \<in> set (cn_jobs c)" "storable env s"
    "parse_bounded_json (se_values env) t = Some (sj_request s)" by (rule get_tx_row [OF assms(2,1) got])
  from intent_found [OF assms(1,2) this] assms(3) show ?thesis by (simp add: has_intent_def)
qed

lemma no_intent:
  assumes laws: "store_laws env" and inv: "store_inv env c" and new: "new_job_ok env new"
    and none: "\<nexists>s. has_intent env new s c"
  shows "intent_of (job_row_of (stored_as new v) t) \<notin> intent_of ` set (cn_jobs c)"
proof
  assume "intent_of (job_row_of (stored_as new v) t) \<in> intent_of ` set (cn_jobs c)"
  then obtain r where r: "r \<in> set (cn_jobs c)"
    "r_contribution_id r = contribution_text (o_contribution (j_owner (nj_job new)))"
    "r_intent_key r = j_intent_key (nj_job new)" by (auto simp: stored_as_def)
  obtain s u where s: "r = job_row_of s u" "storable env s" "parse_bounded_json (se_values env) u = Some (sj_request s)"
    by (rule row_okE [OF store_invD(3) [OF inv r(1)]])
  have "o_contribution (j_owner (sj_job s)) = o_contribution (j_owner (sj_job (stored_as new v)))"
    by (rule contribution_text_inj [OF s(2) validated_new(1) [OF new]]) (use r s in \<open>simp add: stored_as_def\<close>)
  with r s get_stored_row [OF inv laws _ s(2,3)] have "has_intent env new s c"
    by (simp add: has_intent_def stored_as_def)
  with none show False by blast
qed

lemma id_taken:
  assumes laws: "store_laws env" and inv: "store_inv env c"
  shows "(\<exists>s. get_tx env i c = Inr (Some s)) \<longleftrightarrow> i \<in> r_id ` set (cn_jobs c)"
proof
  assume "\<exists>s. get_tx env i c = Inr (Some s)"
  then obtain s where s: "get_tx env i c = Inr (Some s)" by blast
  obtain t where "job_row_of s t \<in> set (cn_jobs c)" "i = j_id (sj_job s)" by (rule get_tx_row [OF inv laws s])
  then show "i \<in> r_id ` set (cn_jobs c)" by (intro image_eqI [of _ _ "job_row_of s t"]) simp_all
next
  assume "i \<in> r_id ` set (cn_jobs c)"
  then obtain r where r: "r \<in> set (cn_jobs c)" "i = r_id r" by blast
  obtain s t where s: "r = job_row_of s t" "storable env s" "parse_bounded_json (se_values env) t = Some (sj_request s)"
    by (rule row_okE [OF store_invD(3) [OF inv r(1)]])
  with r get_stored_row [OF inv laws _ s(2,3)] show "\<exists>s. get_tx env i c = Inr (Some s)" by auto
qed

text \<open>
  C3. An intent is enqueued once. Where a job of the contribution has the intent key, the answer is
  that job if owner, policy, operation, invoker and canonical request are the same, and a conflict
  of intents otherwise; where none has and the id is taken, a conflict; otherwise the job is
  created, reads back with the same canonical request, and enqueueing it again answers with it.
\<close>

theorem intents_are_enqueued_once:
  assumes laws: "store_laws env" and inv: "store_inv env c" and tx: "\<not> cn_autocommit c" and new: "new_job_ok env new"
  shows "(\<exists>s. has_intent env new s c
            \<and> enqueue_tx env new c = (if same_intent_data env s new then Inr (Existing s) else Inl SeIntentConflict, c))
     \<or> ((\<nexists>s. has_intent env new s c)
        \<and> (if \<exists>s. get_tx env (j_id (nj_job new)) c = Inr (Some s)
            then enqueue_tx env new c = (Inl SeConflict, c)
            else (\<exists>w c'. enqueue_tx env new c = (Inr (created_of new), c') \<and> store_inv env c'
                \<and> get_tx env (j_id (nj_job new)) c' = Inr (Some (stored_as new w))
                \<and> canonical_json (se_values env) w = canonical_json (se_values env) (nj_request new)
                \<and> enqueue_tx env new c' = (Inr (Existing (stored_as new w)), c'))))"
proof (cases "\<exists>s. has_intent env new s c")
  case True
  then obtain s where s: "has_intent env new s c" by blast
  from s enqueue_existing [OF laws inv tx new has_intent_found [OF laws inv s]] show ?thesis by blast
next
  case False
  note missing = no_intent [OF laws inv new False]
  show ?thesis
  proof (cases "\<exists>s. get_tx env (j_id (nj_job new)) c = Inr (Some s)")
    case True
    with False enqueue_taken [OF inv tx laws new missing] id_taken [OF laws inv] show ?thesis by auto
  next
    case free: False
    then obtain w u c' where c': "enqueue_tx env new c = (Inr (created_of new), c')" "store_inv env c'"
      "\<not> cn_autocommit c'" "canonical_json (se_values env) (nj_request new) = Some u"
      "canonical_json (se_values env) w = Some u"
      "get_tx env (j_id (nj_job new)) c' = Inr (Some (stored_as new w))"
      using enqueue_created [OF inv tx laws new missing] id_taken [OF laws inv] by blast
    then have "has_intent env new (stored_as new w) c'" by (simp add: has_intent_def stored_as_def)
    moreover have "same_intent_data env (stored_as new w) new"
      using c'(4,5) by (simp add: same_intent_data_def stored_as_def)
    ultimately have "enqueue_tx env new c' = (Inr (Existing (stored_as new w)), c')"
      using enqueue_existing [OF laws c'(2,3) new has_intent_found [OF laws c'(2)]] by simp
    with False free c' show ?thesis by auto
  qed
qed

lemma intents_are_enqueued_once_witness:
  "\<exists>w c'. enqueue_tx demo_env demo_new demo_empty = (Inr (created_of demo_new), c')
     \<and> enqueue_tx demo_env demo_new c' = (Inr (Existing (stored_as demo_new w)), c')"
proof -
  have tx: "\<not> cn_autocommit demo_empty" by (simp add: demo_empty_def)
  have empty: "get_tx demo_env i demo_empty \<noteq> Inr (Some s)" for i s
    by (auto simp: get_tx_def demo_empty_def bind_res_Inr)
  then show ?thesis
    using intents_are_enqueued_once [OF demo_laws demo_inv(1) tx demo_new_ok] by (auto simp: has_intent_def)
qed

text \<open>
  A job enqueued with its provenance is stored together with it: what \<open>get_context\<close> reads then is
  the very context that was given, and a context for another run than the job's leaves nothing.
\<close>

theorem provenance_is_stored_with_the_job:
  assumes laws: "store_laws env" "context_laws env" and inv: "store_inv env c" and tx: "\<not> cn_autocommit c"
    and new: "new_job_ok env new" and enc: "encode_json (se_uuid env) (se_json env) context = Inr encoded"
    and free: "\<nexists>s. has_intent env new s c" "\<nexists>s. get_tx env (j_id (nj_job new)) c = Inr (Some s)"
  shows "if jc_originating_run_id context = j_run_id (nj_job new)
     then \<exists>c'. enqueue_with_context_tx env new context c = (Inr (created_of new), c') \<and> store_inv env c'
        \<and> get_context_tx env (j_id (nj_job new)) c' = Inr context
     else enqueue_with_context_tx env new context c = (Inl SeInvalidData, c)"
proof (cases "jc_originating_run_id context = j_run_id (nj_job new)")
  case True
  with context_created [OF laws inv tx new enc True no_intent [OF laws(1) inv new free(1)]]
    free(2) id_taken [OF laws(1) inv] show ?thesis by auto
next
  case False
  moreover have "jc_validate (se_uuid env) (se_json env) context = Inr ()"
    using enc by (auto simp: encode_json_def bind_res_Inr)
  ultimately show ?thesis using tx by (simp add: enqueue_with_context_tx_def)
qed

lemma provenance_is_stored_with_the_job_witness:
  "\<exists>c'. enqueue_with_context_tx demo_env demo_new (context_of_wire demo_wire) demo_empty
         = (Inr (created_of demo_new), c')
     \<and> get_context_tx demo_env demo_id c' = Inr (context_of_wire demo_wire)"
proof -
  have tx: "\<not> cn_autocommit demo_empty" by (simp add: demo_empty_def)
  have empty: "get_tx demo_env i demo_empty \<noteq> Inr (Some s)" for i s
    by (auto simp: get_tx_def demo_empty_def bind_res_Inr)
  have enc: "encode_json (se_uuid demo_env) (se_json demo_env) (context_of_wire demo_wire) = Inr ''{}''"
    by (simp add: demo_env_def demo_encodes)
  have "jc_originating_run_id (context_of_wire demo_wire) = j_run_id (nj_job demo_new)"
    by (simp add: context_of_wire_def demo_wire_def demo_new_def demo_job_fields)
  then show ?thesis
    using provenance_is_stored_with_the_job [OF demo_laws demo_context_laws demo_inv(1) tx demo_new_ok enc] empty
    by (auto simp: has_intent_def demo_new_def demo_job_fields)
qed

section \<open>Failure\<close>

lemma clean_transaction: "clean (transaction_or f)"
  by (auto simp: clean_def transaction_or_def split: prod.splits sum.splits)

text \<open>
  C7. A failed operation leaves no trace: enqueueing, with provenance or without, a transition and an
  observation inside a caller's transaction, and output in its own, give back the very tables they
  were given when they give an error.
\<close>

theorem failed_operations_change_nothing:
  "(\<forall>e. fst (enqueue_tx env new c) = Inl e \<longrightarrow> snd (enqueue_tx env new c) = c)
     \<and> (\<forall>e. fst (enqueue_with_context_tx env new context c) = Inl e \<longrightarrow> snd (enqueue_with_context_tx env new context c) = c)
     \<and> (\<forall>e. fst (transition_tx env i n ev result c) = Inl e \<longrightarrow> snd (transition_tx env i n ev result c) = c)
     \<and> (\<forall>e. fst (record_observation_tx env i obs c) = Inl e \<longrightarrow> snd (record_observation_tx env i obs c) = c)
     \<and> (\<forall>e. fst (store_append_output env i tok rows c) = Inl e \<longrightarrow> snd (store_append_output env i tok rows c) = c)"
  using clean_enqueue [of env new] clean_enqueue_with_context [of env new "context"]
    clean_transition [of env i n ev result] clean_observation [of env i obs]
    clean_transaction [of "append_output_tx env i tok rows"]
  by (simp add: clean_def store_append_output_def)

lemma failed_operations_change_nothing_witness:
  "fst (transition_tx demo_env demo_id 7 (RecoverExpired 9) None demo_conn) = Inl SeConflict
     \<and> snd (transition_tx demo_env demo_id 7 (RecoverExpired 9) None demo_conn) = demo_conn"
proof -
  have "\<not> cn_autocommit demo_conn" by (simp add: demo_conn_def demo_empty_def)
  then have "fst (transition_tx demo_env demo_id 7 (RecoverExpired 9) None demo_conn) = Inl SeConflict"
    by (simp add: transition_tx_def demo_get demo_stored_fields i64_max_def)
  then show ?thesis
    using failed_operations_change_nothing [where i = demo_id and env = demo_env and n = 7 and ev = "RecoverExpired 9"
        and result = None and c = demo_conn] by blast
qed

text \<open>
  C10. A request that serde does not read back as it wrote it is accepted all the same, and its job is
  lost: it cannot be read, moved on, or enqueued again, while it still is listed as queued.
\<close>

theorem unreadable_requests_are_accepted:
  assumes laws: "store_laws env" and tx: "\<not> cn_autocommit c" and new: "new_job_checked env new"
    and u: "canonical_json (se_values env) (nj_request new) = Some u" "parse_bounded_json (se_values env) u = None"
    and free: "j_id (nj_job new) \<notin> r_id ` set (cn_jobs c)"
      "(contribution_text (o_contribution (j_owner (nj_job new))), j_intent_key (nj_job new)) \<notin> intent_of ` set (cn_jobs c)"
  shows "\<exists>c'. enqueue_tx env new c = (Inr (created_of new), c')
     \<and> get_tx env (j_id (nj_job new)) c' = Inl SeInvalidData
     \<and> transition_tx env (j_id (nj_job new)) 1 ev result c' = (Inl SeInvalidData, c')
     \<and> enqueue_tx env new c' = (Inl SeInvalidData, c')
     \<and> metadata_tx env (j_id (nj_job new)) c' = Inr (Some (candidate_of (stored_as new (nj_request new))))"
proof -
  let ?s = "stored_as new (nj_request new)"
  let ?r = "job_row_of ?s u"
  let ?c = "c\<lparr>cn_jobs := cn_jobs c @ [?r]\<rparr>"
  have store: "storable env ?s" by (rule checked_new(1) [OF new])
  have run: "enqueue_tx env new c = (Inr (created_of new), ?c)"
    by (rule enqueue_row [OF tx laws new _ free(1) u(1)]) (use free(2) in \<open>simp add: stored_as_def\<close>)
  note uuid = storable_uuids [OF store laws]
  have "find (\<lambda>r. r_id r = j_id (nj_job new)) (cn_jobs c) = None" using free(1) by (simp add: find_None_key)
  from find_snoc [OF this, of ?r] have row: "find (\<lambda>r. r_id r = j_id (nj_job new)) (cn_jobs ?c) = Some ?r"
    by (simp add: stored_as_def)
  have "length u \<le> 1048576" using canonical_json_length [OF u(1)] by (simp add: MAX_STORED_BYTES_def)
  then have "decode_stored_job ?r" "read_recovery_candidate ?r" using row_readable [OF store laws] by simp_all
  moreover have "decode_stored_job_data env ?r = Inl SeInvalidData"
    using decode_job_row [OF store, of u] store u(2)
    by (simp add: decode_stored_job_data_def storable_def decode_revision_def to_u64_def)
  ultimately have get: "get_tx env (j_id (nj_job new)) ?c = Inl SeInvalidData"
    using row uuid by (simp add: get_tx_def validate_uuid_v7_def stored_as_def)
  have meta: "metadata_tx env (j_id (nj_job new)) ?c = Inr (Some (candidate_of ?s))"
    using row uuid \<open>read_recovery_candidate ?r\<close> decode_candidate_row [OF store, of u]
    by (simp add: metadata_tx_def validate_uuid_v7_def stored_as_def candidate_of_def)
  have move: "transition_tx env (j_id (nj_job new)) 1 ev result ?c = (Inl SeInvalidData, ?c)"
    using tx get by (simp add: transition_tx_def i64_max_def)
  have "find (\<lambda>r. r_contribution_id r = contribution_text (o_contribution (j_owner (nj_job new)))
      \<and> r_intent_key r = j_intent_key (nj_job new)) (cn_jobs c) = None"
    using free(2) by (auto simp: find_None_iff image_iff)
  from find_snoc [OF this, of ?r] have "get_by_intent_tx env (contribution_text (o_contribution (j_owner (nj_job new))))
      (j_intent_key (nj_job new)) ?c = Inl SeInvalidData"
    using get uuid by (simp add: get_by_intent_tx_def stored_as_def read_text_def parse_job_id_def validate_uuid_v7_def)
  moreover have "validate_new_job env new = Inr ()" using new by (simp add: new_job_checked_def)
  ultimately have again: "enqueue_tx env new ?c = (Inl SeInvalidData, ?c)"
    using tx by (simp add: enqueue_tx_def Let_def)
  from run get move again meta show ?thesis by blast
qed

text \<open>A serde that prints the number as \<open>1\<close> and reads \<open>1\<close> as a number it prints as \<open>2\<close>.\<close>

definition drifting_values :: value_lib where
  "drifting_values =
     \<lparr>vl_pieces = (\<lambda>v. case v of JNum n \<Rightarrow> [n] | _ \<Rightarrow> [''null'']),
      vl_parse = (\<lambda>t. if t = ''1'' then Some (JNum ''2'') else if t = ''null'' then Some JNull else None)\<rparr>"

lemma unreadable_requests_are_accepted_witness:
  "\<exists>c'. enqueue_tx (demo_env\<lparr>se_values := drifting_values\<rparr>) (demo_new\<lparr>nj_request := JNum ''1''\<rparr>) demo_empty
        = (Inr (created_of (demo_new\<lparr>nj_request := JNum ''1''\<rparr>)), c')
     \<and> get_tx (demo_env\<lparr>se_values := drifting_values\<rparr>) demo_id c' = Inl SeInvalidData"
proof -
  let ?env = "demo_env\<lparr>se_values := drifting_values\<rparr>" and ?new = "demo_new\<lparr>nj_request := JNum ''1''\<rparr>"
  have canon: "canonical_json drifting_values (JNum t) = Some t" if "length t = 1" for t
    using that by (simp add: canonical_json_def validate_json_depth.simps add_bytes_def lower_bytes_of_def MAX_STORED_BYTES_def
        checked_add_u64_def u64_max_def drifting_values_def MAX_JSON_DEPTH_def bounded_write_def vl_text_def)
  have lib: "canonical_json (se_values ?env) (nj_request ?new) = Some ''1''"
    "parse_bounded_json (se_values ?env) ''1'' = None"
    using canon by (simp_all add: parse_bounded_json_def MAX_STORED_BYTES_def) (simp add: drifting_values_def)
  have laws: "store_laws ?env"
    by (simp add: store_laws_def demo_env_def demo_uuids_iff demo_lengths)
  have ok: "new_job_checked ?env ?new"
    using demo_new_ok lib(1)
    by (auto simp: new_job_ok_def new_job_checked_def validate_new_job_def Let_def canonical_def validate_uuid_v7_def
        demo_env_def bind_res_Inr split: sum.splits if_splits)
  have tx: "\<not> cn_autocommit demo_empty" by (simp add: demo_empty_def)
  have i: "j_id (nj_job ?new) = demo_id" by (simp add: demo_new_def demo_job_fields)
  show ?thesis
    using unreadable_requests_are_accepted [OF laws tx ok lib, where ev = "RecoverExpired 0" and result = None] i
    by (auto simp: demo_empty_def)
qed

section \<open>Listings\<close>

text \<open>
  C6. A scheduler that follows the cursors gets every waiting job exactly once, oldest change first:
  the pages of any admissible size end, and together they hold the job of every id that is queued, or
  interrupted or running past its lease, and no other.
\<close>

theorem pages_list_every_waiting_job_once:
  assumes "store_laws env" "store_inv env c" "1 \<le> limit" "limit \<le> MAX_PAGE_ITEMS" "0 \<le> now_ms"
    and "length (cn_jobs c) < n"
  shows "\<exists>ds. all_pages n (\<lambda>after. candidates_tx env now_ms after limit queued c) None = Some (Inr ds)
     \<and> sorted (map (\<lambda>d. (j_updated_at_ms (cd_job d), j_id (cd_job d))) ds)
     \<and> distinct (map (\<lambda>d. j_id (cd_job d)) ds)
     \<and> (\<forall>d. d \<in> set ds \<longleftrightarrow>
          (\<exists>i s. get_tx env i c = Inr (Some s) \<and> waiting queued now_ms (sj_job s) \<and> d = candidate_of s))"
  by (rule waiting_candidates [OF assms])

lemma pages_list_every_waiting_job_once_witness:
  "\<exists>ds. all_pages 2 (\<lambda>after. candidates_tx demo_env 9 after 1 True demo_conn) None = Some (Inr ds)
     \<and> candidate_of demo_stored \<in> set ds"
proof -
  have n: "length (cn_jobs demo_conn) < 2" by (simp add: demo_conn_def demo_empty_def)
  have "waiting True 9 (sj_job demo_stored)" by (simp add: waiting_def demo_stored_fields demo_job_fields)
  then show ?thesis
    using pages_list_every_waiting_job_once [OF demo_laws demo_inv(2), of 1 9 2 True] n demo_get
    by (auto simp: MAX_PAGE_ITEMS_def)
qed

text \<open>
  C8. The history of a stored job is complete: its pages, of any admissible size, hold the attempts
  one to the last in order, each under its claim's fence, and an attempt is without an end exactly
  when it is the last one of a running job.
\<close>

theorem history_numbers_every_attempt:
  assumes "store_laws env" "store_inv env c" "1 \<le> limit" "limit \<le> MAX_PAGE_ITEMS"
    and "get_tx env i c = Inr (Some s)" "j_attempt (sj_job s) < n"
  shows "\<exists>xs. all_pages n (\<lambda>after. attempts_tx env i after limit c) None = Some (Inr xs)
     \<and> map (\<lambda>a. tok_attempt (at_token a)) xs = [1..<j_attempt (sj_job s) + 1]
     \<and> (\<forall>a \<in> set xs. tok_fence (at_token a) = 2 * tok_attempt (at_token a) - 1
          \<and> (at_closed_at_ms a = None \<longleftrightarrow>
               j_state (sj_job s) = Running \<and> tok_attempt (at_token a) = j_attempt (sj_job s)))"
  by (rule attempt_history [OF assms])

lemma history_numbers_every_attempt_witness:
  "\<exists>n token c' xs. apply_event demo_scheduled (Claim 10 20 ''k'') = Inr (n, token)
     \<and> transition_tx demo_env demo_id 1 (Claim 10 20 ''k'') None demo_conn
         = (Inr (demo_stored\<lparr>sj_job := n, sj_revision := 2\<rparr>), c')
     \<and> all_pages 2 (\<lambda>after. attempts_tx demo_env demo_id after 1 c') None = Some (Inr xs)
     \<and> map (\<lambda>a. tok_attempt (at_token a)) xs = [1]"
proof -
  obtain n tk where ap: "apply_event (sj_job demo_stored) (Claim 10 20 ''k'') = Inr (n, tk)"
    using demo_claim by (auto simp: demo_stored_fields)
  then have n: "j_attempt n = 1" by (simp add: apply_Claim_iff demo_stored_fields demo_job_fields)
  obtain c' where c': "transition_tx demo_env demo_id (sj_revision demo_stored) (Claim 10 20 ''k'') None demo_conn
      = (Inr (demo_stored\<lparr>sj_job := n, sj_revision := sj_revision demo_stored + 1\<rparr>), c')" "store_inv demo_env c'"
    "get_tx demo_env demo_id c' = Inr (Some (demo_stored\<lparr>sj_job := n, sj_revision := sj_revision demo_stored + 1\<rparr>))"
    using transition_stored [OF demo_laws demo_inv(2) _ demo_get _ _ _ ap, of None None]
    by (auto simp: demo_conn_def demo_empty_def result_of_event_def demo_stored_fields i64_max_def)
  obtain xs where "all_pages 2 (\<lambda>after. attempts_tx demo_env demo_id after 1 c') None = Some (Inr xs)"
    "map (\<lambda>a. tok_attempt (at_token a)) xs = [1]"
    using history_numbers_every_attempt [OF demo_laws c'(2) _ _ c'(3), of 1 2] n
    by (auto simp: MAX_PAGE_ITEMS_def upt_rec)
  with ap c'(1) show ?thesis by (auto simp: demo_stored_fields numeral_2_eq_2)
qed

section \<open>Output and late observations\<close>

text \<open>
  C9. Output is read as it was appended. While the attempt is open under the caller's fence, the rows
  take the next numbers without a gap, the answer is the last of them, and reading after the number
  there was gives back the very rows; when it is closed, or the fence is another's, no row is stored.
\<close>

theorem output_reads_back_in_order:
  assumes "store_laws env" "numbered c" "\<not> cn_autocommit c" "int (tok_fence tok) \<le> i64_max"
    and "\<forall>row \<in> set rows. acceptable env row"
    and "\<forall>row \<in> set rows. vl_parse (se_values env) (vl_text (se_values env) (no_content row)) = Some (no_content row)"
    and "n = length (attempt_output c job (int (tok_attempt tok)))" "int n \<le> i64_max"
    and "length rows \<le> limit" "length rows \<le> 4096" "rows \<noteq> []"
  shows "if attempt_open c job (int (tok_attempt tok)) (int (tok_fence tok))
     then \<exists>c'. append_output_tx env job tok rows c = (Inr (n + length rows), c') \<and> numbered c'
        \<and> output_tx env job (tok_attempt tok) n limit c' = Inr (outputs_from n rows)
     else \<exists>e. append_output_tx env job tok rows c = (Inl e, c)"
proof (cases "attempt_open c job (int (tok_attempt tok)) (int (tok_fence tok))")
  case True
  with append_output [OF assms(1-5) True] output_reads_back [OF assms(2,7,8,6,9,10)] assms(7) show ?thesis by auto
next
  case False
  obtain e where "append_rows env job (tok_attempt tok) (int (tok_fence tok))
      (last_seq c job (int (tok_attempt tok))) rows c = (Inl e, c)"
    using append_rows_closed [OF False assms(11)] by blast
  with False assms(3,4) show ?thesis
    by (simp add: append_output_tx_def to_i64_def bind_op_def [of "append_rows _ _ _ _ _ _"])
qed

definition demo_claimed :: stored_extension_job where
  "demo_claimed =
     demo_stored\<lparr>sj_job := demo_scheduled\<lparr>j_attempt := 1, j_fence := 1, j_state := Running,
       j_lease_until_ms := Some 30, j_updated_at_ms := 10\<rparr>, sj_revision := 2\<rparr>"

definition demo_open :: conn where
  "demo_open =
     demo_empty\<lparr>cn_jobs := [job_row_of demo_claimed ''null''], cn_attempts := [\<lparr>a_job_id = demo_id, a_attempt = 1, a_fence = 1, a_started_at_ms = 10,
       a_lease_until_ms = 30, a_closed_at_ms = None, a_outcome = None, a_result_json = None\<rparr>]\<rparr>"

lemma output_reads_back_in_order_witness:
  "\<exists>c'. append_output_tx demo_env demo_id \<lparr>tok_attempt = 1, tok_fence = 1\<rparr>
         [\<lparr>no_kind = OutText, no_at_ms = 11, no_content = JNull\<rparr>] demo_open = (Inr 1, c')
     \<and> output_tx demo_env demo_id 1 0 5 c'
         = Inr [\<lparr>jo_seq = 1, jo_kind = OutText, jo_at_ms = 11, jo_content = JNull\<rparr>]"
proof -
  let ?tok = "\<lparr>tok_attempt = 1, tok_fence = 1\<rparr>" and ?rows = "[\<lparr>no_kind = OutText, no_at_ms = 11, no_content = JNull\<rparr>]"
  have num: "numbered demo_open" and none: "0 = length (attempt_output demo_open demo_id (int (tok_attempt ?tok)))"
    by (simp_all add: numbered_def attempt_output_def demo_open_def demo_empty_def)
  have tx: "\<not> cn_autocommit demo_open" by (simp add: demo_open_def demo_empty_def)
  have ok: "\<forall>row \<in> set ?rows. acceptable demo_env row"
    by (simp add: acceptable_def demo_env_def demo_values_def vl_text_def MAX_OUTPUT_BYTES_def)
  have texts: "\<forall>row \<in> set ?rows. vl_parse (se_values demo_env) (vl_text (se_values demo_env) (no_content row)) = Some (no_content row)"
    by (simp add: demo_env_def demo_reads_null)
  have fence: "int (tok_fence ?tok) \<le> i64_max" "int 0 \<le> i64_max" by (simp_all add: i64_max_def)
  have "attempt_open demo_open demo_id (int (tok_attempt ?tok)) (int (tok_fence ?tok))"
    by (simp add: attempt_open_def demo_open_def)
  then show ?thesis
    using output_reads_back_in_order [OF demo_laws num tx fence(1) ok texts none fence(2), of 5] by auto
qed

text \<open>
  A late observation of an attempt that had begun is recorded once: a new one is appended, told
  again it is answered and nothing is stored, and another one under the same id is a conflict.
\<close>

theorem late_observations_are_recorded_once:
  assumes "store_laws env" "store_inv env c" "observations_inv env c" "\<not> cn_autocommit c"
    and "evidence_text env obs = Inr evidence" "\<And>v. lo_evidence obs = Some v \<Longrightarrow> reads_back (se_values env) v"
    and "observation_due env job obs c" "lo_id obs \<notin> ob_id ` set (cn_observations c)"
  shows "\<exists>c'. record_observation_tx env job obs c = (Inr \<lparr>oo_job_id = job, oo_observation = obs\<rparr>, c')
     \<and> observations_inv env c'
     \<and> record_observation_tx env job obs c' = (Inr \<lparr>oo_job_id = job, oo_observation = obs\<rparr>, c')
     \<and> (\<forall>other text. lo_id other = lo_id obs \<and> evidence_text env other = Inr text
          \<and> observation_due env job other c'
          \<and> observation_row_of job other text \<noteq> observation_row_of job obs evidence
          \<longrightarrow> record_observation_tx env job other c' = (Inl SeConflict, c'))"
proof -
  let ?x = "observation_row_of job obs evidence"
  let ?c = "c\<lparr>cn_observations := cn_observations c @ [?x]\<rparr>"
  note added = observation_appended [OF assms]
  have len: "length (ob_job_id ?x) \<le> 36"
    using assms(1,7) by (simp add: observation_row_of_def observation_due_def store_laws_def)
  have conflict: "record_observation_tx env job other ?c = (Inl SeConflict, ?c)"
    if o: "lo_id other = lo_id obs" "evidence_text env other = Inr text" "observation_due env job other ?c"
      "observation_row_of job other text \<noteq> ?x" for other "text"
    by (rule observation_conflict [OF assms(1) added(2) _ o(2,3), of ?x])
      (use assms(4) o(1,4) len in \<open>auto simp: observation_row_of_def\<close>)
  from added conflict show ?thesis by (intro exI [of _ ?c]) simp
qed

lemma demo_open_inv: "store_inv demo_env demo_open"
proof -
  have "apply_event (sj_job demo_stored) (Claim 10 20 ''k'')
      = Inr (sj_job demo_claimed, Some \<lparr>tok_attempt = 1, tok_fence = 1\<rparr>)"
    unfolding apply_Claim_iff
    by (simp add: demo_stored_fields demo_job_fields demo_key_ok counter_bounds demo_claimed_def)
  from storable_next [OF demo_storable this, of 2] have "storable demo_env demo_claimed"
    by (simp add: demo_claimed_def demo_stored_def stored_as_def i64_max_def)
  then have "row_ok demo_env (job_row_of demo_claimed ''null'')"
    unfolding row_ok_def
    by (intro exI [of _ demo_claimed] exI [of _ "''null''"])
      (simp add: demo_env_def demo_reads_null demo_claimed_def demo_stored_fields)
  then show ?thesis
    by (auto simp: store_inv_def demo_open_def demo_empty_def attempt_fits_def attempt_is_open_def demo_claimed_def
        demo_job_fields)
qed

lemma late_observations_are_recorded_once_witness:
  "\<exists>c'. record_observation_tx demo_env demo_id
         \<lparr>lo_id = demo_id, lo_token = \<lparr>tok_attempt = 1, tok_fence = 1\<rparr>, lo_observed_at_ms = 40,
          lo_outcome = CompletionFailed, lo_evidence = Some JNull\<rparr> demo_open
       = (Inr \<lparr>oo_job_id = demo_id, oo_observation =
           \<lparr>lo_id = demo_id, lo_token = \<lparr>tok_attempt = 1, tok_fence = 1\<rparr>, lo_observed_at_ms = 40,
            lo_outcome = CompletionFailed, lo_evidence = Some JNull\<rparr>\<rparr>, c') \<and> observations_inv demo_env c'"
proof -
  let ?o = "\<lparr>lo_id = demo_id, lo_token = \<lparr>tok_attempt = 1, tok_fence = 1\<rparr>, lo_observed_at_ms = 40,
          lo_outcome = CompletionFailed, lo_evidence = Some JNull\<rparr>"
  have obs: "observations_inv demo_env demo_open" and tx: "\<not> cn_autocommit demo_open"
    by (simp_all add: observations_inv_def demo_open_def demo_empty_def)
  have ev: "evidence_text demo_env ?o = Inr (Some ''null'')"
    by (simp add: evidence_text_def canonical_def demo_env_def demo_canonical_null)
  have due: "observation_due demo_env demo_id ?o demo_open"
    by (simp add: observation_due_def demo_env_def demo_uuids_iff i64_max_def demo_open_def)
  have new: "lo_id ?o \<notin> ob_id ` set (cn_observations demo_open)" by (simp add: demo_open_def demo_empty_def)
  show ?thesis
    using late_observations_are_recorded_once [OF demo_laws demo_open_inv obs tx ev _ due new]
    by (auto simp: demo_env_def demo_reads_null)
qed

end
