(* ===== verification/Json_Access.thy ===== *)
theory Json_Access
  imports Store_Json Decimal
begin

text \<open>
  What the JSON-RPC code uses of \<open>serde_json::Value\<close>: a field of an object (\<open>Value::get\<close>), text and
  integers out of a value (\<open>as_str\<close>, \<open>as_u64\<close>, \<open>as_i64\<close>), and integers into one. A number's text is
  the one serde prints, so an integer's is its decimal digits, and a float's has a point or an
  exponent.
\<close>

definition json_get :: "string \<Rightarrow> json \<Rightarrow> json option" where
  "json_get k v = (case v of JObj kvs \<Rightarrow> map_of kvs k | _ \<Rightarrow> None)"

definition as_str :: "json \<Rightarrow> string option" where
  "as_str v = (case v of JStr s \<Rightarrow> Some s | _ \<Rightarrow> None)"

definition as_u64 :: "json \<Rightarrow> nat option" where
  "as_u64 v =
     (case v of JNum t \<Rightarrow> if list_all is_ascii_digit t then parse_uint u64_max t else None | _ \<Rightarrow> None)"

definition negative_int :: "string \<Rightarrow> int option" where
  "negative_int t =
     (if list_all is_ascii_digit t then map_option (\<lambda>n. - int n) (parse_uint (nat (- i64_min)) t) else None)"

definition as_i64 :: "json \<Rightarrow> int option" where
  "as_i64 v =
     (case v of
        JNum t \<Rightarrow>
          (case t of
             c # r \<Rightarrow>
               if c = CHR ''-'' then negative_int r
               else if list_all is_ascii_digit t then map_option int (parse_uint (nat i64_max) t) else None
           | [] \<Rightarrow> None)
      | _ \<Rightarrow> None)"

definition json_u64 :: "nat \<Rightarrow> json" where
  "json_u64 n = JNum (show_nat n)"

definition json_i64 :: "int \<Rightarrow> json" where
  "json_i64 i = JNum (if i < 0 then CHR ''-'' # show_nat (nat (- i)) else show_nat (nat i))"

lemma json_get_simps [simp]:
  "json_get k (JObj kvs) = map_of kvs k"
  "json_get k JNull = None" "json_get k (JBool b) = None" "json_get k (JNum t) = None"
  "json_get k (JStr s) = None" "json_get k (JArr vs) = None"
  by (simp_all add: json_get_def)

lemma as_str_simps [simp]: "as_str (JStr s) = Some s" "as_str v = Some s \<longleftrightarrow> v = JStr s"
  by (simp_all add: as_str_def split: json.splits)

lemma as_u64_json [simp]: "n \<le> u64_max \<Longrightarrow> as_u64 (json_u64 n) = Some n"
  by (simp add: as_u64_def json_u64_def show_nat_digits parse_show_nat)

lemma as_i64_json:
  assumes "i64_min \<le> i" "i \<le> i64_max"
  shows "as_i64 (json_i64 i) = Some i"
proof (cases "i < 0")
  case True
  then show ?thesis
    using assms by (simp add: as_i64_def json_i64_def negative_int_def show_nat_digits parse_show_nat nat_le_iff)
next
  case False
  obtain c r where s: "show_nat (nat i) = c # r" by (cases "show_nat (nat i)") auto
  have "is_ascii_digit c" using show_nat_digits [of "nat i"] by (simp add: s)
  then have "c \<noteq> CHR ''-''" by (auto simp: is_ascii_digit_def byte_def)
  moreover have "parse_uint (nat i64_max) (c # r) = Some (nat i)"
    using parse_show_nat [of "nat i" "nat i64_max"] assms(2) by (simp add: s nat_le_iff)
  ultimately show ?thesis
    using False show_nat_digits [of "nat i"] by (simp add: as_i64_def json_i64_def s)
qed

end
