(* ===== verification/Job_Wire.thy ===== *)
theory Job_Wire
  imports Job_Context Json_Access Ids
begin

text \<open>
  The stored text of a job's provenance: what serde derives for the types of
  \<open>oxplow-domain/src/extension_job_context.rs\<close>, and for \<open>Actor\<close> (\<open>commands.rs\<close>), \<open>Anchors\<close>
  (\<open>events/mod.rs\<close>) and the typed ids (\<open>ids.rs\<close>) inside them. A value of serde's data model is a
  \<open>json\<close>; printing one as text and reading a text as one are the parameter \<open>doc_lib\<close>, where an
  object read has its fields in the text's order, repeated ones included, and a number has the text
  serde prints for it.

  The lemmas: every field is written where it is read, so a context that passes its own check is
  read back from its value, with no assumption about the derived code.
\<close>

record doc_lib =
  dl_print :: "json \<Rightarrow> string list"
  dl_read :: "string \<Rightarrow> json option"

section \<open>Written\<close>

definition json_of_option :: "('a \<Rightarrow> json) \<Rightarrow> 'a option \<Rightarrow> json" where
  "json_of_option f v = (case v of None \<Rightarrow> JNull | Some x \<Rightarrow> f x)"

definition json_of_id :: "entity_kind \<Rightarrow> int \<Rightarrow> json" where
  "json_of_id kind i = JStr (typed_display kind i)"

text \<open>\<open>skip_serializing_if = "Option::is_none"\<close>.\<close>

definition unless_none :: "string \<Rightarrow> ('a \<Rightarrow> json) \<Rightarrow> 'a option \<Rightarrow> (string \<times> json) list" where
  "unless_none k f v = (case v of None \<Rightarrow> [] | Some x \<Rightarrow> [(k, f x)])"

fun json_of_actor :: "actor \<Rightarrow> json" where
  "json_of_actor AHuman = JObj [(''kind'', JStr ''human'')]"
| "json_of_actor (AAgent session thread stream) =
     JObj ((''kind'', JStr ''agent'') # unless_none ''session_id'' (json_of_id AgentSession) session
       @ [(''thread_id'', json_of_option (json_of_id Thread) thread),
          (''stream_id'', json_of_option (json_of_id Stream) stream)])"
| "json_of_actor (APage page on_behalf_of) =
     JObj [(''kind'', JStr ''page''), (''page_id'', JStr page),
       (''on_behalf_of'', json_of_actor on_behalf_of)]"
| "json_of_actor (AComponent component on_behalf_of) =
     JObj [(''kind'', JStr ''component''), (''component'', JStr component),
       (''on_behalf_of'', json_of_actor on_behalf_of)]"
| "json_of_actor ASystem = JObj [(''kind'', JStr ''system'')]"
| "json_of_actor (AEffect effect thread stream) =
     JObj ((''kind'', JStr ''effect'') # (''effect'', JStr effect)
       # unless_none ''thread_id'' (json_of_id Thread) thread
       @ unless_none ''stream_id'' (json_of_id Stream) stream)"
| "json_of_actor (AJob job attempt fence thread stream) =
     JObj [(''kind'', JStr ''job''), (''job_id'', JStr job), (''attempt'', json_u64 attempt),
       (''fence'', json_u64 fence), (''thread_id'', json_of_option (json_of_id Thread) thread),
       (''stream_id'', json_of_option (json_of_id Stream) stream)]"

definition json_of_anchors :: "anchors \<Rightarrow> json" where
  "json_of_anchors a =
     JObj [(''stream_id'', json_of_option (json_of_id Stream) (an_stream a)),
       (''thread_id'', json_of_option (json_of_id Thread) (an_thread a)),
       (''effort_id'', json_of_option (json_of_id Effort) (an_effort a)),
       (''turn_id'', json_of_option json_i64 (an_turn a)),
       (''agent_session_id'', json_of_option (json_of_id AgentSession) (an_session a)),
       (''snapshot_id'', json_of_option json_i64 (an_snapshot a))]"

definition json_of_context :: "job_invocation_context \<Rightarrow> json" where
  "json_of_context c =
     JObj [(''schema_version'', json_u64 (jc_schema_version c)),
       (''originating_run_id'', JStr (jc_originating_run_id c)),
       (''scheduled_by'', json_of_actor (jc_scheduled_by c)),
       (''anchors'', json_of_anchors (jc_anchors c)),
       (''subject'', JArr (map JStr (jc_subject c))),
       (''cause'', json_of_option JStr (jc_cause c))]"

section \<open>Read\<close>

text \<open>
  A derived struct with \<open>deny_unknown_fields\<close> is read from an object of its fields, each at most
  once, or from an array of all of them in order.
\<close>

definition struct_fields :: "string list \<Rightarrow> json \<Rightarrow> json option list option" where
  "struct_fields names v =
     (case v of
        JObj kvs \<Rightarrow>
          if distinct (map fst kvs) \<and> set (map fst kvs) \<subseteq> set names then Some (map (map_of kvs) names)
          else None
      | JArr vs \<Rightarrow> if length vs = length names then Some (map Some vs) else None
      | _ \<Rightarrow> None)"

definition required :: "(json \<Rightarrow> 'a option) \<Rightarrow> json option \<Rightarrow> 'a option" where
  "required rd v = Option.bind v rd"

text \<open>A missing \<open>Option\<close> field is \<open>None\<close>, as \<open>null\<close> is.\<close>

definition optional :: "(json \<Rightarrow> 'a option) \<Rightarrow> json option \<Rightarrow> 'a option option" where
  "optional rd v =
     (case v of None \<Rightarrow> Some None | Some x \<Rightarrow> if x = JNull then Some None else map_option Some (rd x))"

definition read_id :: "entity_kind \<Rightarrow> json \<Rightarrow> int option" where
  "read_id kind v =
     Option.bind (as_str v) (\<lambda>s. case typed_from_str kind s of Inr i \<Rightarrow> Some i | Inl _ \<Rightarrow> None)"

definition read_uint :: "nat \<Rightarrow> json \<Rightarrow> nat option" where
  "read_uint bound v = Option.bind (as_u64 v) (\<lambda>n. if n \<le> bound then Some n else None)"

fun read_all :: "(json \<Rightarrow> 'a option) \<Rightarrow> json list \<Rightarrow> 'a list option" where
  "read_all rd [] = Some []"
| "read_all rd (v # vs) = Option.bind (rd v) (\<lambda>x. map_option (Cons x) (read_all rd vs))"

definition read_strings :: "json \<Rightarrow> string list option" where
  "read_strings v = (case v of JArr vs \<Rightarrow> read_all as_str vs | _ \<Rightarrow> None)"

text \<open>
  An internally tagged enum is read from an object that holds its tag once, or an array that begins
  with it; what is left is the variant's struct. Inside another actor the value is read from what
  serde buffered, where the tag may also be the variant's number.
\<close>

definition tagged :: "json \<Rightarrow> (json \<times> json) option" where
  "tagged v =
     (case v of
        JObj kvs \<Rightarrow>
          (case filter (\<lambda>(k, x). k = ''kind'') kvs of
             [(k, tag)] \<Rightarrow> Some (tag, JObj (filter (\<lambda>(k, x). k \<noteq> ''kind'') kvs))
           | _ \<Rightarrow> None)
      | JArr (tag # vs) \<Rightarrow> Some (tag, JArr vs)
      | _ \<Rightarrow> None)"

definition VARIANTS :: "string list" where
  "VARIANTS = [''human'', ''agent'', ''page'', ''component'', ''system'', ''effect'', ''job'']"

definition variant :: "bool \<Rightarrow> json \<Rightarrow> string option" where
  "variant buffered tag =
     (case tag of
        JStr s \<Rightarrow> if s \<in> set VARIANTS then Some s else None
      | _ \<Rightarrow>
          if buffered
          then Option.bind (as_u64 tag) (\<lambda>n. if n < length VARIANTS then Some (VARIANTS ! n) else None)
          else None)"

lemma field_size:
  assumes "tagged v = Some (tag, r)" "struct_fields names r = Some fs" "Some x \<in> set fs"
  shows "size x < size v"
proof (cases v)
  case (JArr vs)
  with assms obtain us where "vs = tag # us" "x \<in> set us"
    by (auto simp: tagged_def struct_fields_def split: list.splits if_splits)
  with JArr show ?thesis using size_list_estimation' [of x us "size x" size] by simp
next
  case (JObj kvs)
  with assms obtain k where "(k, x) \<in> set kvs"
    by (auto simp: tagged_def struct_fields_def split: list.splits if_splits dest!: map_of_SomeD [OF sym])
  then have "size x < size_list (size_prod (\<lambda>_. 0) size) kvs"
    by (induction kvs) auto
  with JObj show ?thesis by simp
qed (use assms in \<open>simp_all add: tagged_def\<close>)


function read_actor :: "bool \<Rightarrow> json \<Rightarrow> wire_actor option" where
  "read_actor buffered v =
     (case tagged v of
        None \<Rightarrow> None
      | Some (tag, r) \<Rightarrow>
          (case variant buffered tag of
             None \<Rightarrow> None
           | Some kind \<Rightarrow>
               if kind = ''human'' then map_option (\<lambda>_. WHuman) (struct_fields [] r)
               else if kind = ''system'' then map_option (\<lambda>_. WSystem) (struct_fields [] r)
               else if kind = ''agent'' then
                 (case struct_fields [''session_id'', ''thread_id'', ''stream_id''] r of
                    Some [se, th, st] \<Rightarrow>
                      Option.bind (optional (read_id AgentSession) se) (\<lambda>session.
                      Option.bind (optional (read_id Thread) th) (\<lambda>thread.
                        map_option (WAgent session thread) (optional (read_id Stream) st)))
                  | _ \<Rightarrow> None)
               else if kind = ''page'' then
                 (case struct_fields [''page_id'', ''on_behalf_of''] r of
                    Some [p, Some b] \<Rightarrow>
                      Option.bind (required as_str p) (\<lambda>page. map_option (WPage page) (read_actor True b))
                  | _ \<Rightarrow> None)
               else if kind = ''component'' then
                 (case struct_fields [''component'', ''on_behalf_of''] r of
                    Some [p, Some b] \<Rightarrow>
                      Option.bind (required as_str p) (\<lambda>component.
                        map_option (WComponent component) (read_actor True b))
                  | _ \<Rightarrow> None)
               else if kind = ''effect'' then
                 (case struct_fields [''effect'', ''thread_id'', ''stream_id''] r of
                    Some [e, th, st] \<Rightarrow>
                      Option.bind (required as_str e) (\<lambda>effect.
                      Option.bind (optional (read_id Thread) th) (\<lambda>thread.
                        map_option (WEffect effect thread) (optional (read_id Stream) st)))
                  | _ \<Rightarrow> None)
               else
                 (case struct_fields [''job_id'', ''attempt'', ''fence'', ''thread_id'', ''stream_id''] r of
                    Some [j, a, f, th, st] \<Rightarrow>
                      Option.bind (required as_str j) (\<lambda>job.
                      Option.bind (required (read_uint u32_max) a) (\<lambda>attempt.
                      Option.bind (required (read_uint u64_max) f) (\<lambda>fence.
                      Option.bind (optional (read_id Thread) th) (\<lambda>thread.
                        map_option (WJob job attempt fence thread) (optional (read_id Stream) st)))))
                  | _ \<Rightarrow> None)))"
  by pat_completeness auto

termination
  by (relation "measure (\<lambda>(buffered, v). size v)") (auto dest: field_size)

declare read_actor.simps [simp del]

definition read_anchors :: "json \<Rightarrow> anchors option" where
  "read_anchors v =
     (case struct_fields [''stream_id'', ''thread_id'', ''effort_id'', ''turn_id'', ''agent_session_id'',
         ''snapshot_id''] v of
        Some [st, th, ef, tu, se, sn] \<Rightarrow>
          Option.bind (optional (read_id Stream) st) (\<lambda>stream.
          Option.bind (optional (read_id Thread) th) (\<lambda>thread.
          Option.bind (optional (read_id Effort) ef) (\<lambda>effort.
          Option.bind (optional as_i64 tu) (\<lambda>turn.
          Option.bind (optional (read_id AgentSession) se) (\<lambda>session.
          map_option (\<lambda>snapshot.
            \<lparr>an_stream = stream, an_thread = thread, an_effort = effort, an_turn = turn,
             an_session = session, an_snapshot = snapshot\<rparr>) (optional as_i64 sn))))))
      | _ \<Rightarrow> None)"

definition U8_MAX :: nat where "U8_MAX = 255"

definition read_context :: "json \<Rightarrow> wire_context option" where
  "read_context v =
     (case struct_fields [''schema_version'', ''originating_run_id'', ''scheduled_by'', ''anchors'',
         ''subject'', ''cause''] v of
        Some [ve, ru, by_field, an, su, ca] \<Rightarrow>
          Option.bind (required (read_uint U8_MAX) ve) (\<lambda>version.
          Option.bind (required as_str ru) (\<lambda>run.
          Option.bind (required (read_actor False) by_field) (\<lambda>actor.
          Option.bind (required read_anchors an) (\<lambda>anchors.
          Option.bind (required read_strings su) (\<lambda>subject.
          map_option (\<lambda>cause.
            \<lparr>wc_schema_version = version, wc_originating_run_id = run, wc_scheduled_by = actor,
             wc_anchors = anchors, wc_subject = subject, wc_cause = cause\<rparr>)
            (optional as_str ca))))))
      | _ \<Rightarrow> None)"

text \<open>\<open>serde_json::to_string\<close> of a context, and \<open>serde_json::from_str\<close> into its wire form.\<close>

definition derived_json :: "doc_lib \<Rightarrow> json_lib" where
  "derived_json dl =
     \<lparr>js_pieces = (\<lambda>c. (dl_print dl (json_of_context c), False)),
      js_wire = (\<lambda>s. Option.bind (dl_read dl s) read_context)\<rparr>"

section \<open>Read back\<close>

text \<open>The values Rust's integer types can hold.\<close>

fun typed_actor :: "actor \<Rightarrow> bool" where
  "typed_actor (AJob job attempt fence thread stream) \<longleftrightarrow> attempt \<le> u32_max"
| "typed_actor (APage page on_behalf_of) \<longleftrightarrow> typed_actor on_behalf_of"
| "typed_actor (AComponent component on_behalf_of) \<longleftrightarrow> typed_actor on_behalf_of"
| "typed_actor _ \<longleftrightarrow> True"

definition in_i64 :: "int option \<Rightarrow> bool" where
  "in_i64 v \<longleftrightarrow> (case v of None \<Rightarrow> True | Some i \<Rightarrow> i64_min \<le> i \<and> i \<le> i64_max)"

definition typed_context :: "job_invocation_context \<Rightarrow> bool" where
  "typed_context c \<longleftrightarrow>
     typed_actor (jc_scheduled_by c)
     \<and> (let a = jc_anchors c in
        in_i64 (an_stream a) \<and> in_i64 (an_thread a) \<and> in_i64 (an_effort a) \<and> in_i64 (an_turn a)
        \<and> in_i64 (an_session a) \<and> in_i64 (an_snapshot a))"

definition good_id :: "int option \<Rightarrow> bool" where
  "good_id v \<longleftrightarrow> none_or_positive v \<and> in_i64 v"

lemma read_id_written: "0 < i \<Longrightarrow> i \<le> i64_max \<Longrightarrow> read_id kind (json_of_id kind i) = Some i"
  using id_reads_back [of "\<lparr>id_kind = kind, id_value = i\<rparr>"]
  by (simp add: read_id_def json_of_id_def typed_from_str_def typed_display_def typed_from_any_def
      id_display_def id_ok_def)

lemma not_null [simp]: "json_of_id kind i \<noteq> JNull" "json_i64 i \<noteq> JNull"
  by (simp_all add: json_of_id_def json_i64_def)

lemma optional_id:
  "good_id v \<Longrightarrow> optional (read_id kind) (Some (json_of_option (json_of_id kind) v)) = Some v"
  by (cases v) (simp_all add: optional_def json_of_option_def good_id_def none_or_positive_def in_i64_def
      read_id_written)

lemma optional_skipped:
  "good_id v \<Longrightarrow> optional (read_id kind) (map_of (unless_none k (json_of_id kind) v) k) = Some v"
  by (cases v) (simp_all add: optional_def unless_none_def good_id_def none_or_positive_def in_i64_def
      read_id_written)

lemma optional_int: "in_i64 v \<Longrightarrow> optional as_i64 (Some (json_of_option json_i64 v)) = Some v"
  by (cases v) (simp_all add: optional_def json_of_option_def in_i64_def as_i64_json)

lemma optional_string [simp]: "optional as_str (Some (json_of_option JStr v)) = Some v"
  by (cases v) (simp_all add: optional_def json_of_option_def)

lemma read_uint_written [simp]: "n \<le> bound \<Longrightarrow> bound \<le> u64_max \<Longrightarrow> read_uint bound (json_u64 n) = Some n"
  by (simp add: read_uint_def)

lemma read_strings_written [simp]: "read_strings (JArr (map JStr ss)) = Some ss"
  by (induction ss) (simp_all add: read_strings_def)


lemma job_fence_bound: "valid_job_actor ul job attempt fence \<Longrightarrow> fence \<le> u64_max"
  by (simp add: valid_job_actor_def i64_max_def u64_max_def)

lemma matched_id:
  "actor_id_matches v anchor \<Longrightarrow> good_id anchor \<Longrightarrow> good_id v"
  by (auto simp: actor_id_matches_def good_id_def none_or_positive_def in_i64_def)

lemma variant_name [simp]: "s \<in> set VARIANTS \<Longrightarrow> variant b (JStr s) = Some s"
  by (simp add: variant_def)

lemma read_actor_written:
  assumes "good_id (an_stream an)" "good_id (an_thread an)" "good_id (an_session an)"
  shows "valid_actor ul a depth \<Longrightarrow> actor_anchors_match a an \<Longrightarrow> typed_actor a \<Longrightarrow>
    \<exists>w. read_actor buffered (json_of_actor a) = Some w \<and> actor_of_wire w = a"
proof (induction a arbitrary: depth buffered)
  case AHuman
  show ?case by (simp add: read_actor.simps tagged_def variant_def VARIANTS_def struct_fields_def)
next
  case ASystem
  show ?case by (simp add: read_actor.simps tagged_def variant_def VARIANTS_def struct_fields_def)
next
  case (AAgent session thread stream)
  then have good: "good_id session" "good_id thread" "good_id stream"
    using assms by (auto intro: matched_id)
  have "\<exists>kvs. json_of_actor (AAgent session thread stream) = JObj ((''kind'', JStr ''agent'') # kvs)
      \<and> tagged (JObj ((''kind'', JStr ''agent'') # kvs)) = Some (JStr ''agent'', JObj kvs)
      \<and> struct_fields [''session_id'', ''thread_id'', ''stream_id''] (JObj kvs) =
          Some [map_of (unless_none ''session_id'' (json_of_id AgentSession) session) ''session_id'',
            Some (json_of_option (json_of_id Thread) thread), Some (json_of_option (json_of_id Stream) stream)]"
    by (cases session) (simp_all add: unless_none_def tagged_def struct_fields_def)
  then show ?case
    using good by (auto simp: read_actor.simps VARIANTS_def optional_id optional_skipped)
next
  case (APage page on_behalf_of)
  then obtain w where w: "read_actor True (json_of_actor on_behalf_of) = Some w" "actor_of_wire w = on_behalf_of"
    by fastforce
  then show ?case
    by (simp add: read_actor.simps [of buffered "JObj _"] tagged_def VARIANTS_def struct_fields_def required_def)
next
  case (AComponent component on_behalf_of)
  then obtain w where w: "read_actor True (json_of_actor on_behalf_of) = Some w" "actor_of_wire w = on_behalf_of"
    by fastforce
  then show ?case
    by (simp add: read_actor.simps [of buffered "JObj _"] tagged_def VARIANTS_def struct_fields_def required_def)
next
  case (AEffect effect thread stream)
  then have good: "good_id thread" "good_id stream" using assms by (auto intro: matched_id)
  have "\<exists>kvs. json_of_actor (AEffect effect thread stream) = JObj ((''kind'', JStr ''effect'') # kvs)
      \<and> tagged (JObj ((''kind'', JStr ''effect'') # kvs)) = Some (JStr ''effect'', JObj kvs)
      \<and> struct_fields [''effect'', ''thread_id'', ''stream_id''] (JObj kvs) =
          Some [Some (JStr effect),
            map_of (unless_none ''thread_id'' (json_of_id Thread) thread) ''thread_id'',
            map_of (unless_none ''stream_id'' (json_of_id Stream) stream) ''stream_id'']"
    by (cases thread; cases stream) (simp_all add: unless_none_def tagged_def struct_fields_def)
  then show ?case
    using good by (auto simp: read_actor.simps VARIANTS_def optional_skipped required_def)
next
  case (AJob job attempt fence thread stream)
  then have good: "good_id thread" "good_id stream" "attempt \<le> u32_max" "fence \<le> u64_max"
    using assms by (auto intro: matched_id job_fence_bound)
  moreover have "u32_max \<le> u64_max" by (simp add: u32_max_def u64_max_def)
  ultimately show ?case
    by (simp add: read_actor.simps tagged_def VARIANTS_def struct_fields_def required_def optional_id)
qed

lemma read_anchors_written:
  assumes "good_id (an_stream a)" "good_id (an_thread a)" "good_id (an_effort a)" "good_id (an_session a)"
    "in_i64 (an_turn a)" "in_i64 (an_snapshot a)"
  shows "read_anchors (json_of_anchors a) = Some a"
  using assms
  by (simp add: read_anchors_def json_of_anchors_def struct_fields_def optional_id optional_int)

lemma context_written:
  assumes "jc_validate ul js c = Inr ()" "typed_context c"
  shows "\<exists>w. read_context (json_of_context c) = Some w \<and> context_of_wire w = c"
proof -
  let ?a = "jc_anchors c"
  have version: "jc_schema_version c \<le> U8_MAX"
    and act: "valid_actor ul (jc_scheduled_by c) 1" "actor_anchors_match (jc_scheduled_by c) ?a"
    and anch: "valid_anchors ?a"
    using assms(1)
    by (auto simp: jc_validate_def validate_parts_def bind_res_Inr SCHEMA_VERSION_def U8_MAX_def split: if_splits)
  have good: "good_id (an_stream ?a)" "good_id (an_thread ?a)" "good_id (an_effort ?a)"
    "good_id (an_session ?a)" "in_i64 (an_turn ?a)" "in_i64 (an_snapshot ?a)"
    and typed: "typed_actor (jc_scheduled_by c)"
    using anch assms(2) by (auto simp: valid_anchors_def good_id_def typed_context_def Let_def)
  obtain w where w: "read_actor False (json_of_actor (jc_scheduled_by c)) = Some w"
    "actor_of_wire w = jc_scheduled_by c"
    using read_actor_written [OF good(1,2,4) act typed] by blast
  have "U8_MAX \<le> u64_max" by (simp add: U8_MAX_def u64_max_def)
  with w version read_anchors_written [OF good] show ?thesis
    by (simp add: read_context_def json_of_context_def struct_fields_def required_def context_of_wire_def)
qed

text \<open>The derived code reads back what it wrote, for every context its own check accepts.\<close>

lemma derived_decodes:
  assumes "dl_read dl (concat (dl_print dl (json_of_context c))) = Some (json_of_context c)"
    and "typed_context c" "jc_validate ul (derived_json dl) c = Inr ()"
  shows "\<exists>w. js_wire (derived_json dl) (concat (fst (js_pieces (derived_json dl) c))) = Some w
    \<and> context_of_wire w = c"
  using context_written [OF assms(3,2)] assms(1) by (simp add: derived_json_def)

section \<open>A small world\<close>

definition demo_doc :: doc_lib where
  "demo_doc =
     \<lparr>dl_print = (\<lambda>v. if v = json_of_context (context_of_wire demo_wire) then [''{'', ''}''] else [''null'']),
      dl_read = (\<lambda>s. if s = ''{}'' then Some (json_of_context (context_of_wire demo_wire)) else Some JNull)\<rparr>"

lemma demo_doc_encodes: "encode_json demo_uuids (derived_json demo_doc) (context_of_wire demo_wire) = Inr ''{}''"
proof -
  have "encoded_len (derived_json demo_doc) (context_of_wire demo_wire) = Inr 2"
    by (simp add: encoded_len_def derived_json_def demo_doc_def cw_write_def checked_add_u64_def u64_max_def
        MAX_JSON_BYTES_def)
  moreover have "validate_parts demo_uuids (wc_originating_run_id demo_wire)
      (actor_of_wire (wc_scheduled_by demo_wire)) (wc_anchors demo_wire) (wc_subject demo_wire)
      (wc_cause demo_wire) = Inr ()"
    using demo_valid_parts by (simp add: demo_wire_def)
  moreover have "wc_schema_version demo_wire = SCHEMA_VERSION"
    by (simp add: demo_wire_def SCHEMA_VERSION_def)
  ultimately have "jc_validate demo_uuids (derived_json demo_doc) (context_of_wire demo_wire) = Inr ()"
    by (simp add: jc_validate_def context_of_wire_def MAX_JSON_BYTES_def)
  then show ?thesis by (simp add: encode_json_def derived_json_def demo_doc_def)
qed

section \<open>Properties\<close>

text \<open>
  C30. A stored provenance means what was stored: what is encoded fits the limit and decodes to the
  very context it was encoded from. Taken on trust is only that the JSON text of this one value
  parses back to it; that the fields written are the ones the strict wire form reads, at every
  level, and that the checks before and after agree, is proved.
\<close>

theorem provenance_reads_back:
  assumes "dl_read dl (concat (dl_print dl (json_of_context c))) = Some (json_of_context c)"
    and "typed_context c"
    and "encode_json ul (derived_json dl) c = Inr raw"
  shows "decode_json ul (derived_json dl) raw = Inr c \<and> length raw \<le> MAX_JSON_BYTES"
proof -
  let ?js = "derived_json dl"
  from assms(3) have valid: "jc_validate ul ?js c = Inr ()" and raw: "raw = concat (fst (js_pieces ?js c))"
    by (auto simp: encode_json_def bind_res_Inr split: prod.splits if_splits)
  obtain w where "js_wire ?js raw = Some w" "context_of_wire w = c"
    using derived_decodes [OF assms(1,2) valid] raw by blast
  moreover have "length raw \<le> MAX_JSON_BYTES" using encoded_fits [OF valid] raw by simp
  ultimately show ?thesis using valid by (simp add: decode_validates)
qed

lemma provenance_reads_back_witness:
  "decode_json demo_uuids (derived_json demo_doc) ''{}'' = Inr (context_of_wire demo_wire)
    \<and> length ''{}'' \<le> MAX_JSON_BYTES"
  by (rule provenance_reads_back [OF _ _ demo_doc_encodes])
    (simp_all add: demo_doc_def typed_context_def context_of_wire_def demo_wire_def Let_def in_i64_def
      no_anchors_def i64_min_def i64_max_def)

text \<open>Unknown fields are refused, and a field twice, of a context and of its anchors.\<close>

lemma unknown_fields_are_refused:
  "read_context (JObj kvs) = Some w \<Longrightarrow>
     distinct (map fst kvs)
     \<and> set (map fst kvs) \<subseteq> {''schema_version'', ''originating_run_id'', ''scheduled_by'', ''anchors'',
         ''subject'', ''cause''}"
  "read_anchors (JObj kvs) = Some a \<Longrightarrow>
     distinct (map fst kvs)
     \<and> set (map fst kvs) \<subseteq> {''stream_id'', ''thread_id'', ''effort_id'', ''turn_id'',
         ''agent_session_id'', ''snapshot_id''}"
  by (auto simp: read_context_def read_anchors_def struct_fields_def split: if_splits)

text \<open>An empty object has no tag, and an unknown tag names no variant.\<close>

lemma untagged_actors_are_refused:
  "read_actor buffered (JObj []) = None"
  "s \<notin> set VARIANTS \<Longrightarrow> read_actor buffered (JObj ((''kind'', JStr s) # kvs)) = None"
  by (auto simp: read_actor.simps tagged_def variant_def split: list.splits option.splits)

end
