(* ===== verification/Sql_Tokens.thy ===== *)
theory Sql_Tokens
  imports Decimal
begin

text \<open>
  \<open>oxplow-db/src/sql_tokens.rs\<close>: the one tokenizer of SQL text and what is read from the tokens: a
  single read, the calls the semantic layer rewrites, the conditions every row a query reads must
  meet, and the names of its common table expressions. A text is its UTF-8 bytes; a token keeps the
  byte offset it starts at.
\<close>

section \<open>Tokens\<close>

datatype token_kind =
  TkSpace | TkComment | TkStr | TkQuotedIdent | TkWord | TkNumber | TkParam | TkPunct

record sql_token =
  tk_kind :: token_kind
  tk_text :: string
  tk_start :: nat

text \<open>\<open>DomainError::Invalid\<close>, by what its message says.\<close>

datatype sql_refusal =
  UnterminatedBracket nat
| UnterminatedString nat
| UnterminatedQuotedIdent nat
| NotARead
| SecondStatement
| UnclosedCall string nat nat

definition tk_end :: "sql_token \<Rightarrow> nat" where
  "tk_end t = tk_start t + length (tk_text t)"

definition significant_token :: "sql_token \<Rightarrow> bool" where
  "significant_token t \<longleftrightarrow> tk_kind t \<noteq> TkSpace \<and> tk_kind t \<noteq> TkComment"

definition is_word :: "sql_token \<Rightarrow> string \<Rightarrow> bool" where
  "is_word t kw \<longleftrightarrow> tk_kind t = TkWord \<and> eq_ignore_ascii_case (tk_text t) kw"

text \<open>For an ASCII \<open>c\<close>, the only ones it is asked for.\<close>

definition is_punct :: "sql_token \<Rightarrow> char \<Rightarrow> bool" where
  "is_punct t c \<longleftrightarrow> tk_kind t = TkPunct \<and> tk_text t = [c]"

subsection \<open>Keywords\<close>

definition KEYWORDS :: "string list" where
  "KEYWORDS =
     [''ABORT'', ''ACTION'', ''ADD'', ''AFTER'', ''ALL'', ''ALTER'', ''ALWAYS'', ''ANALYZE'', ''AND'',
      ''AS'', ''ASC'', ''ATTACH'', ''AUTOINCREMENT'', ''BEFORE'', ''BEGIN'', ''BETWEEN'', ''BY'',
      ''CASCADE'', ''CASE'', ''CAST'', ''CHECK'', ''COLLATE'', ''COLUMN'', ''COMMIT'', ''CONFLICT'',
      ''CONSTRAINT'', ''CREATE'', ''CROSS'', ''CURRENT'', ''CURRENT_DATE'', ''CURRENT_TIME'',
      ''CURRENT_TIMESTAMP'', ''DATABASE'', ''DEFAULT'', ''DEFERRABLE'', ''DEFERRED'', ''DELETE'',
      ''DESC'', ''DETACH'', ''DISTINCT'', ''DO'', ''DROP'', ''EACH'', ''ELSE'', ''END'', ''ESCAPE'',
      ''EXCEPT'', ''EXCLUDE'', ''EXCLUSIVE'', ''EXISTS'', ''EXPLAIN'', ''FAIL'', ''FILTER'', ''FIRST'',
      ''FOLLOWING'', ''FOR'', ''FOREIGN'', ''FROM'', ''FULL'', ''GENERATED'', ''GLOB'', ''GROUP'',
      ''GROUPS'', ''HAVING'', ''IF'', ''IGNORE'', ''IMMEDIATE'', ''IN'', ''INDEX'', ''INDEXED'',
      ''INITIALLY'', ''INNER'', ''INSERT'', ''INSTEAD'', ''INTERSECT'', ''INTO'', ''IS'', ''ISNULL'',
      ''JOIN'', ''KEY'', ''LAST'', ''LEFT'', ''LIKE'', ''LIMIT'', ''MATCH'', ''MATERIALIZED'',
      ''NATURAL'', ''NO'', ''NOT'', ''NOTHING'', ''NOTNULL'', ''NULL'', ''NULLS'', ''OF'', ''OFFSET'',
      ''ON'', ''OR'', ''ORDER'', ''OTHERS'', ''OUTER'', ''OVER'', ''PARTITION'', ''PLAN'', ''PRAGMA'',
      ''PRECEDING'', ''PRIMARY'', ''QUERY'', ''RAISE'', ''RANGE'', ''RECURSIVE'', ''REFERENCES'',
      ''REGEXP'', ''REINDEX'', ''RELEASE'', ''RENAME'', ''REPLACE'', ''RESTRICT'', ''RETURNING'',
      ''RIGHT'', ''ROLLBACK'', ''ROW'', ''ROWS'', ''SAVEPOINT'', ''SELECT'', ''SET'', ''TABLE'',
      ''TEMP'', ''TEMPORARY'', ''THEN'', ''TIES'', ''TO'', ''TRANSACTION'', ''TRIGGER'',
      ''UNBOUNDED'', ''UNION'', ''UNIQUE'', ''UPDATE'', ''USING'', ''VACUUM'', ''VALUES'', ''VIEW'',
      ''VIRTUAL'', ''WHEN'', ''WHERE'', ''WINDOW'', ''WITH'', ''WITHOUT'']"

text \<open>
  \<open>opened\<close> says whether the in-memory SQLite opens, \<open>refuses\<close> whether it refuses a table of that
  name.
\<close>

definition is_reserved_word :: "bool \<Rightarrow> (string \<Rightarrow> bool) \<Rightarrow> string \<Rightarrow> bool" where
  "is_reserved_word opened refuses word \<longleftrightarrow>
     list_ex (\<lambda>k. eq_ignore_ascii_case k word) (if opened then filter refuses KEYWORDS else KEYWORDS)"

section \<open>The tokenizer\<close>

definition is_ident_start :: "char \<Rightarrow> bool" where
  "is_ident_start c \<longleftrightarrow> is_ascii_alpha c \<or> c = CHR ''_'' \<or> byte c \<ge> 128"

definition is_ident_char :: "char \<Rightarrow> bool" where
  "is_ident_char c \<longleftrightarrow> is_ident_start c \<or> is_ascii_digit c \<or> c = CHR ''$''"

definition is_space :: "char \<Rightarrow> bool" where
  "is_space c \<longleftrightarrow> byte c \<in> {32, 9, 10, 13, 12}"

definition is_alnum :: "char \<Rightarrow> bool" where
  "is_alnum c \<longleftrightarrow> is_ascii_alpha c \<or> is_ascii_digit c"

text \<open>How many bytes from the front satisfy \<open>P\<close>.\<close>

definition run_length :: "(char \<Rightarrow> bool) \<Rightarrow> string \<Rightarrow> nat" where
  "run_length P s = length (takeWhile P s)"

text \<open>The bytes through the quote that closes, in the text after the one that opens.\<close>

fun close_quoted :: "char \<Rightarrow> string \<Rightarrow> nat option" where
  "close_quoted q [] = None"
| "close_quoted q [c] = (if c = q then Some 1 else None)"
| "close_quoted q (c # d # s) =
     (if c = q
      then if d = q then map_option (\<lambda>n. n + 2) (close_quoted q s) else Some 1
      else map_option (\<lambda>n. n + 1) (close_quoted q (d # s)))"

text \<open>The rest of a number: a sign goes on only after an exponent's letter.\<close>

fun number_rest :: "char \<Rightarrow> string \<Rightarrow> nat" where
  "number_rest prev [] = 0"
| "number_rest prev (c # s) =
     (if is_alnum c \<or> c = CHR ''.'' \<or> (c \<in> {CHR ''+'', CHR ''-''} \<and> prev \<in> {CHR ''e'', CHR ''E''})
      then number_rest c s + 1 else 0)"

text \<open>The kind and the length of the token at the front of a text that is not empty, at offset \<open>at\<close>.\<close>

definition next_is :: "(char \<Rightarrow> bool) \<Rightarrow> string \<Rightarrow> bool" where
  "next_is P s = (case s of [] \<Rightarrow> False | c # _ \<Rightarrow> P c)"

definition quoted_token ::
  "token_kind \<Rightarrow> nat \<Rightarrow> char \<Rightarrow> string \<Rightarrow> sql_refusal \<Rightarrow> sql_refusal + token_kind \<times> nat" where
  "quoted_token kind skip q s refusal =
     (case close_quoted q s of None \<Rightarrow> Inl refusal | Some n \<Rightarrow> Inr (kind, skip + n))"

definition lex :: "nat \<Rightarrow> char \<Rightarrow> string \<Rightarrow> sql_refusal + token_kind \<times> nat" where
  "lex at c s =
     (if is_space c then Inr (TkSpace, 1 + run_length is_space s)
      else if c = CHR ''-'' \<and> next_is (\<lambda>d. d = CHR ''-'') s
      then Inr (TkComment, 1 + run_length (\<lambda>d. byte d \<noteq> 10) s)
      else if c = CHR ''/'' \<and> next_is (\<lambda>d. d = CHR ''*'') s
      then Inr (TkComment,
             case find_sub ''*/'' (tl s) of None \<Rightarrow> 1 + length s | Some p \<Rightarrow> 2 + p + 2)
      else if c = CHR 0x27 then quoted_token TkStr 1 (CHR 0x27) s (UnterminatedString at)
      else if c \<in> {CHR ''x'', CHR ''X''} \<and> next_is (\<lambda>d. d = CHR 0x27) s
      then quoted_token TkStr 2 (CHR 0x27) (tl s) (UnterminatedString (at + 1))
      else if c \<in> {CHR 0x22, CHR 0x60}
      then quoted_token TkQuotedIdent 1 c s (UnterminatedQuotedIdent at)
      else if c = CHR ''[''
      then (case find_sub '']'' (c # s) of
              None \<Rightarrow> Inl (UnterminatedBracket at) | Some p \<Rightarrow> Inr (TkQuotedIdent, p + 1))
      else if c = CHR ''?'' then Inr (TkParam, 1 + run_length is_ascii_digit s)
      else if c \<in> {CHR '':'', CHR ''@'', CHR ''$''} \<and> next_is is_ident_start s
      then Inr (TkParam, 1 + run_length is_ident_char s)
      else if is_ascii_digit c then Inr (TkNumber, 1 + number_rest c s)
      else if c = CHR ''.'' \<and> next_is is_ascii_digit s
      then Inr (TkNumber, 1 + run_length (\<lambda>d. is_alnum d \<or> d = CHR ''.'') s)
      else if is_ident_start c then Inr (TkWord, 1 + run_length is_ident_char s)
      else Inr (TkPunct, 1))"

lemma lex_pos: "lex at c s = Inr (k, n) \<Longrightarrow> 0 < n"
  by (auto simp: lex_def quoted_token_def split: if_splits option.splits)

function tokenize_at :: "nat \<Rightarrow> string \<Rightarrow> sql_refusal + sql_token list" where
  "tokenize_at at [] = Inr []"
| "tokenize_at at (c # s) =
     (case lex at c s of
        Inl e \<Rightarrow> Inl e
      | Inr (kind, n) \<Rightarrow>
          bind_res (tokenize_at (at + n) (drop n (c # s))) (\<lambda>rest.
            Inr (\<lparr>tk_kind = kind, tk_text = take n (c # s), tk_start = at\<rparr> # rest)))"
  by pat_completeness auto
termination
proof (relation "measure (\<lambda>(at, s). length s)")
  fix at c s x kind n
  assume "lex at c s = Inr x" "(kind, n) = x"
  then have "0 < n" using lex_pos [of at c s kind n] by simp
  then show "((at + n, drop n (c # s)), at, c # s) \<in> measure (\<lambda>(at, s). length s)" by simp
qed simp

definition tokenize :: "string \<Rightarrow> sql_refusal + sql_token list" where
  "tokenize sql = tokenize_at 0 sql"

definition significant :: "sql_token list \<Rightarrow> sql_token list" where
  "significant ts = filter significant_token ts"

section \<open>A single read\<close>

definition position_of :: "('a \<Rightarrow> bool) \<Rightarrow> 'a list \<Rightarrow> nat option" where
  "position_of P xs = find (\<lambda>i. P (xs ! i)) [0..<length xs]"

definition check_single_read :: "string \<Rightarrow> sql_refusal + unit" where
  "check_single_read sql =
     bind_res (tokenize sql) (\<lambda>tokens.
       case significant tokens of
         [] \<Rightarrow> Inl NotARead
       | t # rest \<Rightarrow>
           if \<not> (is_word t ''SELECT'' \<or> is_word t ''WITH'') then Inl NotARead
           else
             (case position_of (\<lambda>t. is_punct t (CHR '';'')) rest of
                None \<Rightarrow> Inr ()
              | Some semi \<Rightarrow>
                  if list_ex (\<lambda>t. \<not> is_punct t (CHR '';'')) (drop (semi + 1) rest)
                  then Inl SecondStatement else Inr ()))"

section \<open>Calls\<close>

record sql_call =
  call_start :: nat
  call_end :: nat
  call_args :: "string list"

definition slice :: "string \<Rightarrow> nat \<Rightarrow> nat \<Rightarrow> string" where
  "slice sql a b = take (b - a) (drop a sql)"

text \<open>1-based line and column of a byte offset; \<open>chars\<close> counts the bytes that begin a character.\<close>

definition char_count :: "string \<Rightarrow> nat" where
  "char_count t = length (filter (\<lambda>c. \<not> (128 \<le> byte c \<and> byte c < 192)) t)"

definition line_col :: "string \<Rightarrow> nat \<Rightarrow> nat \<times> nat" where
  "line_col sql offset =
     (let front = take offset sql;
          last_line = rev (takeWhile (\<lambda>c. byte c \<noteq> 10) (rev front))
      in (length (filter (\<lambda>c. byte c = 10) front) + 1, char_count last_line + 1))"

text \<open>
  The arguments from the token at \<open>j\<close>, inside \<open>depth\<close> parentheses, with the argument that began at
  \<open>arg_start\<close>: the offset past the closing parenthesis, the arguments, and where it stands.
\<close>

definition push_arg :: "string \<Rightarrow> sql_token list \<Rightarrow> nat \<Rightarrow> nat option \<Rightarrow> string list \<Rightarrow> string list" where
  "push_arg sql sig j arg_start args =
     (case arg_start of None \<Rightarrow> args | Some s \<Rightarrow> args @ [slice sql s (tk_end (sig ! (j - 1)))])"

function scan_args ::
  "string \<Rightarrow> sql_token list \<Rightarrow> nat \<Rightarrow> nat \<Rightarrow> string list \<Rightarrow> nat option
     \<Rightarrow> (nat \<times> string list \<times> nat) option" where
  "scan_args sql sig j depth args arg_start =
     (if length sig \<le> j then None
      else
        (let t = sig ! j;
             begun = (case arg_start of None \<Rightarrow> Some (tk_start t) | Some s \<Rightarrow> Some s)
         in
         if is_punct t (CHR ''('') then
           if depth + 1 = 1 then scan_args sql sig (j + 1) 1 args arg_start
           else scan_args sql sig (j + 1) (depth + 1) args begun
         else if is_punct t (CHR '')'') then
           if depth - 1 = 0 then Some (tk_end t, push_arg sql sig j arg_start args, j)
           else scan_args sql sig (j + 1) (depth - 1) args begun
         else if is_punct t (CHR '','') \<and> depth = 1 then
           scan_args sql sig (j + 1) depth (push_arg sql sig j arg_start args) None
         else scan_args sql sig (j + 1) depth args begun))"
  by pat_completeness auto
termination by (relation "measure (\<lambda>(sql, sig, j, depth, args, arg_start). length sig - j)") auto

declare scan_args.simps [simp del]

lemma scan_args_later: "scan_args sql sig j depth args st = Some (e, as, k) \<Longrightarrow> j \<le> k \<and> k < length sig"
proof (induction "length sig - j" arbitrary: j depth args st rule: less_induct)
  case less
  show ?case
  proof (cases "length sig \<le> j")
    case True
    with less.prems show ?thesis by (simp add: scan_args.simps [of sql sig j])
  next
    case False
    then have later: "j \<le> k \<and> k < length sig" if "scan_args sql sig (j + 1) d as' st' = Some (e, as, k)" for d as' st'
    proof -
      have "j + 1 \<le> k \<and> k < length sig" by (rule less.hyps [OF _ that]) (use False in simp)
      then show ?thesis by simp
    qed
    from False less.prems show ?thesis
      by (simp add: scan_args.simps [of sql sig j] Let_def split: if_splits) (use later in simp_all)
  qed
qed

definition call_here :: "string \<Rightarrow> sql_token list \<Rightarrow> nat \<Rightarrow> bool" where
  "call_here name sig i \<longleftrightarrow>
     is_word (sig ! i) name
     \<and> \<not> (i > 0 \<and> is_punct (sig ! (i - 1)) (CHR ''.''))
     \<and> i + 1 < length sig \<and> is_punct (sig ! (i + 1)) (CHR ''('')"

function calls_from :: "string \<Rightarrow> string \<Rightarrow> sql_token list \<Rightarrow> nat \<Rightarrow> sql_refusal + sql_call list" where
  "calls_from sql name sig i =
     (if length sig \<le> i then Inr []
      else if call_here name sig i then
        (case scan_args sql sig (i + 1) 0 [] None of
           None \<Rightarrow> (let (line, col) = line_col sql (tk_start (sig ! i)) in Inl (UnclosedCall name line col))
         | Some (e, args, j) \<Rightarrow>
             bind_res (calls_from sql name sig (j + 1)) (\<lambda>rest.
               Inr (\<lparr>call_start = tk_start (sig ! i), call_end = e, call_args = args\<rparr> # rest)))
      else calls_from sql name sig (i + 1))"
  by pat_completeness auto
termination
proof (relation "measure (\<lambda>(sql, name, sig, i). length sig - i)")
  fix sql name :: string and sig :: "sql_token list" and i x e y args j
  assume "\<not> length sig \<le> i" "scan_args sql sig (i + 1) 0 [] None = Some x" "(e, y) = x" "(args, j) = y"
  then have "i + 1 \<le> j" using scan_args_later [of sql sig "i + 1" 0 "[]" None e args j] by simp
  with \<open>\<not> length sig \<le> i\<close>
  show "((sql, name, sig, j + 1), sql, name, sig, i) \<in> measure (\<lambda>(sql, name, sig, i). length sig - i)" by simp
qed auto

declare calls_from.simps [simp del]

definition calls :: "string \<Rightarrow> string \<Rightarrow> sql_refusal + sql_call list" where
  "calls sql name = bind_res (tokenize sql) (\<lambda>tokens. calls_from sql name (significant tokens) 0)"

text \<open>\<open>str::replace\<close> of a doubled quote by one.\<close>

fun undouble :: "char \<Rightarrow> string \<Rightarrow> string" where
  "undouble q (c # d # s) = (if c = q \<and> d = q then q # undouble q s else c # undouble q (d # s))"
| "undouble q s = s"

definition inside :: "string \<Rightarrow> string" where
  "inside t = butlast (tl t)"

definition string_literal :: "string \<Rightarrow> string option" where
  "string_literal t =
     (case tokenize t of
        Inl _ \<Rightarrow> None
      | Inr tokens \<Rightarrow>
          (case significant tokens of
             [k] \<Rightarrow>
               if tk_kind k = TkStr \<and> next_is (\<lambda>c. c = CHR 0x27) (tk_text k)
               then Some (undouble (CHR 0x27) (inside (tk_text k))) else None
           | _ \<Rightarrow> None))"

section \<open>Conditions\<close>

datatype operand = OpText string | OpParam string | OpConcat "operand list"

definition names_view :: "string \<Rightarrow> sql_token \<Rightarrow> bool" where
  "names_view view t \<longleftrightarrow>
     (case tk_kind t of
        TkWord \<Rightarrow> eq_ignore_ascii_case (tk_text t) view
      | TkQuotedIdent \<Rightarrow> eq_ignore_ascii_case (inside (tk_text t)) view
      | _ \<Rightarrow> False)"

definition token_at :: "sql_token list \<Rightarrow> nat \<Rightarrow> (sql_token \<Rightarrow> bool) \<Rightarrow> bool" where
  "token_at sig i P \<longleftrightarrow> i < length sig \<and> P (sig ! i)"

definition reads_of :: "string \<Rightarrow> sql_token list \<Rightarrow> nat list" where
  "reads_of view sig =
     filter (\<lambda>j. names_view view (sig ! j) \<and> \<not> token_at sig (j + 1) (\<lambda>n. is_punct n (CHR ''.'')))
       [0..<length sig]"

text \<open>The innermost group around a token: back to its opening, on to its closing parenthesis.\<close>

fun group_open :: "sql_token list \<Rightarrow> nat \<Rightarrow> nat \<Rightarrow> nat option" where
  "group_open sig 0 depth = None"
| "group_open sig (Suc j) depth =
     (if is_punct (sig ! j) (CHR '')'') then group_open sig j (depth + 1)
      else if is_punct (sig ! j) (CHR ''('') then
        if depth = 0 then Some j else group_open sig j (depth - 1)
      else group_open sig j depth)"

fun group_close :: "sql_token list \<Rightarrow> nat \<Rightarrow> nat \<Rightarrow> nat option" where
  "group_close [] j depth = None"
| "group_close (t # ts) j depth =
     (if is_punct t (CHR ''('') then group_close ts (j + 1) (depth + 1)
      else if is_punct t (CHR '')'') then
        if depth = 0 then Some j else group_close ts (j + 1) (depth - 1)
      else group_close ts (j + 1) depth)"

definition narrow_once :: "string \<Rightarrow> sql_token list \<Rightarrow> sql_token list option" where
  "narrow_once view sig =
     (case reads_of view sig of
        [at] \<Rightarrow>
          (case group_open sig at 0 of
             None \<Rightarrow> None
           | Some lparen \<Rightarrow>
               (case group_close (drop at sig) at 0 of
                  None \<Rightarrow> None
                | Some rparen \<Rightarrow>
                    if \<not> token_at sig (lparen + 1) (\<lambda>t. is_word t ''SELECT'') then None
                    else Some (take (rparen - (lparen + 1)) (drop (lparen + 1) sig))))
      | _ \<Rightarrow> None)"

lemma narrow_once_shorter: "narrow_once view sig = Some sig' \<Longrightarrow> length sig' < length sig"
  by (auto simp: narrow_once_def token_at_def split: list.splits option.splits if_splits)

function narrow :: "string \<Rightarrow> sql_token list \<Rightarrow> sql_token list" where
  "narrow view sig = (case narrow_once view sig of None \<Rightarrow> sig | Some inner \<Rightarrow> narrow view inner)"
  by pat_completeness auto
termination by (relation "measure (\<lambda>(view, sig). length sig)") (auto dest: narrow_once_shorter)

declare narrow.simps [simp del]

text \<open>The depth of each token, 0 outside every parenthesis.\<close>

fun depths_from :: "nat \<Rightarrow> sql_token list \<Rightarrow> nat list" where
  "depths_from depth [] = []"
| "depths_from depth (t # ts) =
     (let d = (if is_punct t (CHR '')'') then depth - 1 else depth) in
      d # depths_from (if is_punct t (CHR ''('') then d + 1 else d) ts)"

definition top :: "sql_token list \<Rightarrow> nat \<Rightarrow> string \<Rightarrow> bool" where
  "top sig i kw \<longleftrightarrow> depths_from 0 sig ! i = 0 \<and> is_word (sig ! i) kw"

definition column_of ::
  "string \<Rightarrow> string option \<Rightarrow> string list \<Rightarrow> sql_token list \<Rightarrow> string option" where
  "column_of view alias columns c =
     (let named = (case c of
          [name] \<Rightarrow> Some (None, name)
        | [q, dot, name] \<Rightarrow> if is_punct dot (CHR ''.'') then Some (Some (tk_text q), name) else None
        | _ \<Rightarrow> None)
      in
      case named of
        None \<Rightarrow> None
      | Some (qualifier, name) \<Rightarrow>
          if tk_kind name \<noteq> TkWord then None
          else if (case qualifier of
                     None \<Rightarrow> False
                   | Some q \<Rightarrow> \<not> (eq_ignore_ascii_case q view
                       \<or> (case alias of None \<Rightarrow> False | Some a \<Rightarrow> eq_ignore_ascii_case q a)))
          then None
          else find (\<lambda>k. eq_ignore_ascii_case k (tk_text name)) columns)"

definition operand_of :: "sql_token \<Rightarrow> operand option" where
  "operand_of t =
     (case tk_kind t of
        TkStr \<Rightarrow> map_option OpText (string_literal (tk_text t))
      | TkParam \<Rightarrow> Some (OpParam (tk_text t))
      | _ \<Rightarrow> None)"

fun operands_of :: "sql_token list \<Rightarrow> operand list option" where
  "operands_of [] = None"
| "operands_of (t # after) =
     (case operand_of t of
        None \<Rightarrow> None
      | Some p \<Rightarrow>
          (case after of
             [] \<Rightarrow> Some [p]
           | [_] \<Rightarrow> None
           | a # b # others \<Rightarrow>
               if is_punct a (CHR ''|'') \<and> is_punct b (CHR ''|'')
               then map_option (\<lambda>ps. p # ps) (operands_of others) else None))"

definition value_of :: "sql_token list \<Rightarrow> operand option" where
  "value_of v =
     map_option (\<lambda>parts. case parts of [p] \<Rightarrow> p | _ \<Rightarrow> OpConcat parts) (operands_of v)"

text \<open>The conjuncts of the tokens with their depths, cut at each \<open>AND\<close> of depth 0.\<close>

fun conjuncts :: "(sql_token \<times> nat) list \<Rightarrow> sql_token list \<Rightarrow> sql_token list list" where
  "conjuncts [] current = [current]"
| "conjuncts ((t, d) # ts) current =
     (if d = 0 \<and> is_word t ''AND'' then current # conjuncts ts [] else conjuncts ts (current @ [t]))"

definition both :: "'a option \<Rightarrow> 'b option \<Rightarrow> ('a \<times> 'b) option" where
  "both x y = (case (x, y) of (Some a, Some b) \<Rightarrow> Some (a, b) | _ \<Rightarrow> None)"

definition condition ::
  "string \<Rightarrow> string option \<Rightarrow> string list \<Rightarrow> sql_token list \<Rightarrow> (string \<times> operand) option" where
  "condition view alias columns conjunct =
     (case position_of (\<lambda>t. is_punct t (CHR ''='')) conjunct of
        None \<Rightarrow> None
      | Some eq \<Rightarrow>
          (let left = take eq conjunct; right = drop (eq + 1) conjunct in
           case both (column_of view alias columns left) (value_of right) of
             Some pair \<Rightarrow> Some pair
           | None \<Rightarrow> both (column_of view alias columns right) (value_of left)))"

definition where_end :: "sql_token list \<Rightarrow> nat \<Rightarrow> nat" where
  "where_end sig i =
     (case find (\<lambda>j. depths_from 0 sig ! j = 0
             \<and> (list_ex (\<lambda>kw. is_word (sig ! j) kw) [''GROUP'', ''ORDER'', ''LIMIT'', ''HAVING'', ''WINDOW'']
                \<or> is_punct (sig ! j) (CHR '';''))) [i..<length sig] of
        Some j \<Rightarrow> j
      | None \<Rightarrow> length sig)"

text \<open>\<open>FROM view [[AS] alias]\<close> after the view at \<open>at\<close>: its alias and where \<open>WHERE\<close> must be.\<close>

definition alias_after :: "sql_token list \<Rightarrow> nat \<Rightarrow> string option \<times> nat" where
  "alias_after sig at =
     (if token_at sig (at + 1) (\<lambda>t. is_word t ''AS'')
      then (if at + 2 < length sig then Some (tk_text (sig ! (at + 2))) else None, at + 3)
      else if token_at sig (at + 1) (\<lambda>t. tk_kind t = TkWord \<and> \<not> is_word t ''WHERE'')
      then (Some (tk_text (sig ! (at + 1))), at + 2)
      else (None, at + 1))"

definition conditions ::
  "string \<Rightarrow> string list \<Rightarrow> sql_token list \<Rightarrow> (string \<times> operand) list" where
  "conditions view columns sig =
     (if \<not> token_at sig 0 (\<lambda>t. is_word t ''SELECT'')
         \<or> length (reads_of view sig) \<noteq> 1
         \<or> list_ex (\<lambda>i. top sig i ''UNION'' \<or> top sig i ''INTERSECT'' \<or> top sig i ''EXCEPT'') [0..<length sig]
      then []
      else
        (case position_of (names_view view) sig of
           None \<Rightarrow> []
         | Some at \<Rightarrow>
             if depths_from 0 sig ! at \<noteq> 0 \<or> at = 0 \<or> \<not> top sig (at - 1) ''FROM'' then []
             else
               (let (alias, k) = alias_after sig at in
                if \<not> token_at sig k (\<lambda>t. is_word t ''WHERE'') then []
                else
                  (let i = k + 1; e = where_end sig i in
                   if list_ex (\<lambda>j. top sig j ''OR'' \<or> top sig j ''BETWEEN'' \<or> top sig j ''CASE'') [i..<e]
                   then []
                   else
                     List.map_filter (condition view alias columns)
                       (conjuncts (take (e - i) (drop i (zip sig (depths_from 0 sig)))) [])))))"

definition equality_filters ::
  "string \<Rightarrow> string \<Rightarrow> string list \<Rightarrow> sql_refusal + (string \<times> operand) list" where
  "equality_filters sql view columns =
     bind_res (tokenize sql) (\<lambda>tokens. Inr (conditions view columns (narrow view (significant tokens))))"

subsection \<open>Their values\<close>

text \<open>A real number is kept as its bits.\<close>

datatype sql_cell = CellNull | CellBool bool | CellInt int | CellReal nat | CellText string

datatype sql_params = Positional "sql_cell list" | Named "(string \<times> sql_cell) list"

definition usize_max :: nat where "usize_max = u64_max"

definition param_cell :: "sql_params \<Rightarrow> string \<Rightarrow> sql_cell option" where
  "param_cell params p =
     (case params of
        Positional vs \<Rightarrow>
          (case p of
             [] \<Rightarrow> None
           | c # digits \<Rightarrow>
               if c \<noteq> CHR ''?'' then None
               else
                 (case parse_uint usize_max digits of
                    None \<Rightarrow> None
                  | Some n \<Rightarrow> if n = 0 \<or> n - 1 \<ge> length vs then None else Some (vs ! (n - 1))))
      | Named vs \<Rightarrow>
          (let bare = dropWhile (\<lambda>c. c \<in> {CHR '':'', CHR ''@'', CHR ''$''}) p in
           map_option snd (find (\<lambda>(n, _). n = bare) vs)))"

fun operand_value :: "sql_params \<Rightarrow> operand \<Rightarrow> string option"
  and operand_values :: "sql_params \<Rightarrow> operand list \<Rightarrow> string option" where
  "operand_value params (OpText t) = Some t"
| "operand_value params (OpConcat parts) = operand_values params parts"
| "operand_value params (OpParam p) =
     (case param_cell params p of Some (CellText t) \<Rightarrow> Some t | _ \<Rightarrow> None)"
| "operand_values params [] = Some []"
| "operand_values params (p # ps) =
     (case operand_value params p of
        None \<Rightarrow> None
      | Some v \<Rightarrow> map_option (\<lambda>vs. v @ vs) (operand_values params ps))"

definition text_filters ::
  "string \<Rightarrow> string \<Rightarrow> string list \<Rightarrow> sql_params \<Rightarrow> sql_refusal + (string \<times> string) list" where
  "text_filters sql view columns params =
     bind_res (equality_filters sql view columns) (\<lambda>found.
       Inr (List.map_filter (\<lambda>(column, operand).
         map_option (\<lambda>v. (column, v)) (operand_value params operand)) found))"

section \<open>Common table expressions\<close>

text \<open>Past a column list that begins at \<open>j\<close>: the index after its closing parenthesis, or after the end.\<close>

fun column_list_end :: "sql_token list \<Rightarrow> nat \<Rightarrow> nat \<Rightarrow> nat" where
  "column_list_end [] j depth = j"
| "column_list_end (t # ts) j depth =
     (if is_punct t (CHR ''('') then column_list_end ts (j + 1) (depth + 1)
      else if is_punct t (CHR '')'') then
        if depth - 1 = 0 then j else column_list_end ts (j + 1) (depth - 1)
      else column_list_end ts (j + 1) depth)"

definition cte_at :: "sql_token list \<Rightarrow> nat \<Rightarrow> string option" where
  "cte_at sig i =
     (let name = (case tk_kind (sig ! i) of
          TkWord \<Rightarrow> Some (tk_text (sig ! i))
        | TkQuotedIdent \<Rightarrow> Some (undouble (CHR 0x22) (inside (tk_text (sig ! i))))
        | _ \<Rightarrow> None)
      in
      case name of
        None \<Rightarrow> None
      | Some n \<Rightarrow>
          (let j = (if token_at sig (i + 1) (\<lambda>t. is_punct t (CHR ''(''))
                    then column_list_end (drop (i + 1) sig) (i + 1) 0 + 1 else i + 1)
           in
           if \<not> token_at sig j (\<lambda>t. is_word t ''AS'') then None
           else
             (let skipped = length (takeWhile (\<lambda>t. is_word t ''NOT'' \<or> is_word t ''MATERIALIZED'')
                    (drop (j + 1) sig))
              in if token_at sig (j + 1 + skipped) (\<lambda>t. is_punct t (CHR ''('')) then Some n else None)))"

text \<open>\<open>lower\<close> is \<open>str::to_lowercase\<close>.\<close>

definition cte_names :: "(string \<Rightarrow> string) \<Rightarrow> string \<Rightarrow> sql_refusal + string set" where
  "cte_names lower sql =
     bind_res (tokenize sql) (\<lambda>tokens.
       (let sig = significant tokens in
        Inr (set (map lower (List.map_filter (cte_at sig) [0..<length sig])))))"

section \<open>The tokens cover the text\<close>

lemma run_length_le: "run_length P s \<le> length s"
  by (simp add: run_length_def length_takeWhile_le)

lemma close_quoted_le: "close_quoted q s = Some n \<Longrightarrow> 0 < n \<and> n \<le> length s"
  by (induction q s arbitrary: n rule: close_quoted.induct) (auto split: if_splits)

lemma number_rest_le: "number_rest p s \<le> length s"
  by (induction p s rule: number_rest.induct) auto

lemma lex_cases:
  assumes "lex at c s = Inr (k, n)"
  obtains (run) P where "n = 1 + run_length P s"
    | (block) "next_is (\<lambda>d. d = CHR ''*'') s"
        "n = (case find_sub ''*/'' (tl s) of None \<Rightarrow> 1 + length s | Some p \<Rightarrow> 2 + p + 2)"
    | (quoted) q where "\<exists>m. close_quoted q s = Some m \<and> n = 1 + m"
    | (blob) "next_is (\<lambda>d. d = CHR 0x27) s" "\<exists>m. close_quoted (CHR 0x27) (tl s) = Some m \<and> n = 2 + m"
    | (bracket) p where "find_sub '']'' (c # s) = Some p" "n = p + 1"
    | (number) "n = 1 + number_rest c s"
    | (single) "n = 1"
  using assms unfolding lex_def
  apply (simp only: split: if_split_asm)
  subgoal by (rule run [of "is_space"]) simp
  subgoal by (rule run [of "\<lambda>d. byte d \<noteq> 10"]) simp
  subgoal by (rule block) (simp_all only: sum.inject prod.inject)
  subgoal by (rule quoted [of "CHR 0x27"]) (auto simp: quoted_token_def split: option.splits)
  subgoal by (rule blob) (auto simp: quoted_token_def split: option.splits)
  subgoal by (rule quoted [of c]) (auto simp: quoted_token_def split: option.splits)
  subgoal by (auto simp del: find_sub.simps intro: bracket split: option.splits)
  subgoal by (rule run [of "is_ascii_digit"]) simp
  subgoal by (rule run [of "is_ident_char"]) simp
  subgoal by (rule number) simp
  subgoal by (rule run [of "\<lambda>d. is_alnum d \<or> d = CHR ''.''"]) simp
  subgoal by (rule run [of "is_ident_char"]) simp
  subgoal by (rule single) simp
  done

lemma lex_le: "lex at c s = Inr (k, n) \<Longrightarrow> n \<le> length (c # s)"
proof (erule lex_cases)
  assume b: "next_is (\<lambda>d. d = CHR ''*'') s"
    "n = (case find_sub ''*/'' (tl s) of None \<Rightarrow> 1 + length s | Some p \<Rightarrow> 2 + p + 2)"
  then obtain d s' where s: "s = d # s'" by (cases s) (simp_all add: next_is_def)
  show "n \<le> length (c # s)"
    using b(2) find_sub_Some [of "''*/''" s'] by (cases "find_sub ''*/'' s'") (auto simp: s)
next
  assume "next_is (\<lambda>d. d = CHR 0x27) s" "\<exists>m. close_quoted (CHR 0x27) (tl s) = Some m \<and> n = 2 + m"
  then show "n \<le> length (c # s)" by (cases s) (auto simp: next_is_def dest: close_quoted_le)
next
  fix p assume "find_sub '']'' (c # s) = Some p" "n = p + 1"
  then show "n \<le> length (c # s)" using find_sub_Some [of "'']''" "c # s" p] by simp
qed (auto simp: run_length_le number_rest_le dest: close_quoted_le)

text \<open>What the positions of a token list must be.\<close>

fun laid_out :: "nat \<Rightarrow> sql_token list \<Rightarrow> bool" where
  "laid_out at [] \<longleftrightarrow> True"
| "laid_out at (t # ts) \<longleftrightarrow> tk_start t = at \<and> tk_text t \<noteq> [] \<and> laid_out (tk_end t) ts"

lemma tokenize_at_covers:
  "tokenize_at at s = Inr ts \<Longrightarrow> concat (map tk_text ts) = s \<and> laid_out at ts"
proof (induction at s arbitrary: ts rule: tokenize_at.induct)
  case (2 at c s)
  from "2.prems" obtain k n rest where r: "lex at c s = Inr (k, n)"
    "tokenize_at (at + n) (drop n (c # s)) = Inr rest"
    "ts = \<lparr>tk_kind = k, tk_text = take n (c # s), tk_start = at\<rparr> # rest"
    by (auto simp: bind_res_Inr split: sum.splits)
  have n: "0 < n" "n \<le> length (c # s)" using lex_pos [OF r(1)] lex_le [OF r(1)] by simp_all
  have "concat (map tk_text rest) = drop n (c # s)" "laid_out (at + n) rest"
    using "2.IH" [OF r(1) refl r(2)] by simp_all
  with r(3) n show ?case by (simp add: tk_end_def)
qed simp

section \<open>More text after\<close>

lemma run_length_append: "run_length P s < length s \<Longrightarrow> run_length P (s @ r) = run_length P s"
proof -
  assume "run_length P s < length s"
  then have "\<exists>x \<in> set s. \<not> P x"
    by (metis less_irrefl run_length_def takeWhile_eq_all_conv)
  then show ?thesis by (auto simp: run_length_def)
qed

lemma close_quoted_append: "close_quoted q s = Some n \<Longrightarrow> n < length s \<Longrightarrow> close_quoted q (s @ r) = Some n"
  by (induction q s arbitrary: n rule: close_quoted.induct) (auto split: if_splits)

lemma number_rest_append: "number_rest p s < length s \<Longrightarrow> number_rest p (s @ r) = number_rest p s"
  by (induction p s rule: number_rest.induct) auto

lemma next_is_append: "s \<noteq> [] \<Longrightarrow> next_is P (s @ r) = next_is P s"
  by (cases s) (simp_all add: next_is_def)

lemma quoted_token_append:
  "quoted_token kind skip q s e = Inr (k, n) \<Longrightarrow> n < skip + length s
    \<Longrightarrow> quoted_token kind skip q (s @ r) e = Inr (k, n)"
  by (auto simp: quoted_token_def close_quoted_append split: option.splits)

text \<open>A token that ends before the text does is the same token whatever comes after the text.\<close>

lemma lex_append:
  assumes "lex at c s = Inr (k, n)" "n < length (c # s)"
  shows "lex at c (s @ r) = Inr (k, n)"
proof -
  have ne: "s \<noteq> []" using assms lex_pos [OF assms(1)] by auto
  note nx = next_is_append [OF ne]
  have tl: "tl (s @ r) = tl s @ r" using ne by simp
  have bracket: "find_sub '']'' (c # s @ r) = Some i" if "find_sub '']'' (c # s) = Some i" for i
    using find_sub_append [OF that, of r] by (simp only: append_Cons)
  show ?thesis
    using assms unfolding lex_def nx tl
    apply (simp only: if_True if_False split: if_split_asm)
    subgoal by (simp add: run_length_append)
    subgoal by (simp add: run_length_append)
    subgoal by (cases "find_sub ''*/'' (tl s)") (simp_all add: find_sub_append)
    subgoal by (simp add: quoted_token_append)
    subgoal using ne by (cases s) (simp_all add: quoted_token_append)
    subgoal by (simp add: quoted_token_append)
    subgoal using bracket by (cases "find_sub '']'' (c # s)") (simp_all del: find_sub.simps)
    subgoal by (simp add: run_length_append)
    subgoal by (simp add: run_length_append)
    subgoal by (simp add: number_rest_append)
    subgoal by (simp add: run_length_append)
    subgoal by (simp add: run_length_append)
    done
qed

lemma lex_offset: "lex at c s = Inr (k, n) \<Longrightarrow> lex at' c s = Inr (k, n)"
proof -
  assume lex: "lex at c s = Inr (k, n)"
  then show ?thesis
    unfolding lex_def
    by (simp only: if_True if_False split: if_split_asm)
      (simp_all add: quoted_token_def del: find_sub.simps split: option.splits)
qed

lemma tokenize_at_offset:
  "tokenize_at at s = Inr ts \<Longrightarrow> tokenize_at (at + m) s = Inr (map (\<lambda>t. t\<lparr>tk_start := tk_start t + m\<rparr>) ts)"
proof (induction at s arbitrary: ts rule: tokenize_at.induct)
  case (2 at c s)
  from "2.prems" obtain k n rest where r: "lex at c s = Inr (k, n)"
    "tokenize_at (at + n) (drop n (c # s)) = Inr rest"
    "ts = \<lparr>tk_kind = k, tk_text = take n (c # s), tk_start = at\<rparr> # rest"
    by (auto simp: bind_res_Inr split: sum.splits)
  have "lex (at + m) c s = Inr (k, n)" by (rule lex_offset [OF r(1)])
  with "2.IH" [OF r(1) refl r(2)] r(3) show ?case by (simp add: add.commute add.left_commute add.assoc)
qed simp

text \<open>
  A text whose last token may be followed by anything that does not go on with it: the tokens of what
  follows come after its own.
\<close>

definition ends_before :: "sql_token \<Rightarrow> string \<Rightarrow> bool" where
  "ends_before t r \<longleftrightarrow>
     (\<forall>c s. tk_text t = c # s \<longrightarrow> lex (tk_start t) c (s @ r) = Inr (tk_kind t, length (tk_text t)))"

lemma tokenize_at_append:
  assumes "tokenize_at at a = Inr ts" "tokenize_at (at + length a) r = Inr us"
    and "ts = [] \<or> ends_before (last ts) r"
  shows "tokenize_at at (a @ r) = Inr (ts @ us)"
  using assms
proof (induction at a arbitrary: ts rule: tokenize_at.induct)
  case (2 at c s)
  from "2.prems"(1) obtain k n rest where h: "lex at c s = Inr (k, n)"
    "tokenize_at (at + n) (drop n (c # s)) = Inr rest"
    "ts = \<lparr>tk_kind = k, tk_text = take n (c # s), tk_start = at\<rparr> # rest"
    by (auto simp: bind_res_Inr split: sum.splits)
  have n: "0 < n" "n \<le> length (c # s)" using lex_pos [OF h(1)] lex_le [OF h(1)] by simp_all
  have lex: "lex at c (s @ r) = Inr (k, n)"
  proof (cases "n < length (c # s)")
    case True
    then show ?thesis by (rule lex_append [OF h(1)])
  next
    case False
    with n have "n = length (c # s)" by simp
    with h(2) have "rest = []" by simp
    with \<open>n = length (c # s)\<close> h(3) "2.prems"(3) show ?thesis by (auto simp: ends_before_def)
  qed
  have "tokenize_at (at + n) (drop n (c # s) @ r) = Inr (rest @ us)"
  proof (rule "2.IH" [OF h(1) refl h(2)])
    show "tokenize_at (at + n + length (drop n (c # s))) r = Inr us"
      using "2.prems"(2) n by (simp add: add.assoc)
    show "rest = [] \<or> ends_before (last rest) r" using "2.prems"(3) h(3) by (auto split: if_splits)
  qed
  moreover have "drop n ((c # s) @ r) = drop n (c # s) @ r" "take n ((c # s) @ r) = take n (c # s)"
    using n by (simp_all only: drop_append take_append) simp_all
  ultimately show ?case using lex h(3) by simp
qed simp

section \<open>Quoted values\<close>

text \<open>\<open>format!("'{}'", s.replace('\'', "''"))\<close>, as the crates that write SQL quote a value.\<close>

fun double :: "char \<Rightarrow> string \<Rightarrow> string" where
  "double q [] = []"
| "double q (c # s) = (if c = q then q # q # double q s else c # double q s)"

definition quote :: "string \<Rightarrow> string" where
  "quote v = CHR 0x27 # double (CHR 0x27) v @ [CHR 0x27]"

lemma close_double:
  "\<not> next_is (\<lambda>c. c = q) r \<Longrightarrow> close_quoted q (double q v @ q # r) = Some (length (double q v) + 1)"
proof (induction v)
  case Nil
  then show ?case by (cases r) (simp_all add: next_is_def)
next
  case (Cons c v)
  show ?case
  proof (cases "c = q")
    case False
    obtain d t where "double q v @ q # r = d # t" by (cases "double q v") auto
    with Cons False show ?thesis by simp
  qed (use Cons in simp)
qed

lemma quote_token:
  assumes "\<not> next_is (\<lambda>c. c = CHR 0x27) r"
  shows "lex at (CHR 0x27) (double (CHR 0x27) v @ CHR 0x27 # r) = Inr (TkStr, length (quote v))"
proof -
  have "\<not> is_space (CHR 0x27)" by (simp add: is_space_def byte_def)
  with close_double [OF assms, of v] show ?thesis by (simp add: lex_def quoted_token_def quote_def)
qed

lemma undouble_double: "undouble q (double q v) = v"
proof (induction v)
  case (Cons c v)
  then show ?case
    by (cases v) (auto split: if_splits)
qed simp

text \<open>A run of spaces at the end of a text is a token of its own, whatever quoted value comes next.\<close>

lemma space_ends_before:
  assumes "tokenize_at at a = Inr ts" "ts \<noteq> []" "tk_kind (last ts) = TkSpace" "\<not> is_space d"
  shows "ends_before (last ts) (d # r)"
proof -
  have "\<exists>c s. tk_text (last ts) = c # s \<and> is_space c \<and> (\<forall>x \<in> set s. is_space x)" using assms(1-3)
  proof (induction at a arbitrary: ts rule: tokenize_at.induct)
    case (2 at c s)
    from "2.prems"(1) obtain k n rest where h: "lex at c s = Inr (k, n)"
      "tokenize_at (at + n) (drop n (c # s)) = Inr rest"
      "ts = \<lparr>tk_kind = k, tk_text = take n (c # s), tk_start = at\<rparr> # rest"
      by (auto simp: bind_res_Inr split: sum.splits)
    show ?case
    proof (cases "rest = []")
      case True
      with h "2.prems"(3) have "lex at c s = Inr (TkSpace, n)" by simp
      then have "is_space c" "n = 1 + run_length is_space s"
        by (simp_all add: lex_def quoted_token_def split: if_splits option.splits)
      then show ?thesis using True h(3)
        by (auto simp: run_length_def takeWhile_eq_take [symmetric] dest: set_takeWhileD)
    next
      case False
      with "2.IH" [OF h(1) refl h(2) False] "2.prems"(3) h(3) show ?thesis by simp
    qed
  qed simp
  then obtain c s where t: "tk_text (last ts) = c # s" "is_space c" "\<forall>x \<in> set s. is_space x" by blast
  have "run_length is_space (s @ d # r) = length s"
    using t(3) assms(4) by (simp add: run_length_def takeWhile_append2)
  with t assms(3) show ?thesis by (simp add: ends_before_def lex_def)
qed

definition shifted :: "nat \<Rightarrow> sql_token \<Rightarrow> sql_token" where
  "shifted m t = t\<lparr>tk_start := tk_start t + m\<rparr>"

lemma tokenize_quoted:
  assumes a: "tokenize a = Inr ts" "ts = [] \<or> tk_kind (last ts) = TkSpace"
    and b: "tokenize b = Inr us" "\<not> next_is (\<lambda>c. c = CHR 0x27) b"
  shows "tokenize (a @ quote v @ b)
     = Inr (ts @ \<lparr>tk_kind = TkStr, tk_text = quote v, tk_start = length a\<rparr>
            # map (shifted (length a + length (quote v))) us)"
proof -
  let ?q = "quote v" and ?m = "length a"
  let ?x = "double (CHR 0x27) v @ CHR 0x27 # b"
  have spelt: "CHR 0x27 # ?x = ?q @ b" by (simp add: quote_def)
  have "tokenize_at (?m + length ?q) b = Inr (map (shifted (?m + length ?q)) us)"
    using tokenize_at_offset [of 0 b us "?m + length ?q"] b(1) by (simp add: tokenize_def shifted_def)
  then have "tokenize_at ?m (CHR 0x27 # ?x)
      = Inr (\<lparr>tk_kind = TkStr, tk_text = ?q, tk_start = ?m\<rparr> # map (shifted (?m + length ?q)) us)"
    by (simp only: tokenize_at.simps(2) quote_token [OF b(2), of ?m v]) (simp only: spelt, simp)
  then have "tokenize_at ?m (?q @ b)
      = Inr (\<lparr>tk_kind = TkStr, tk_text = ?q, tk_start = ?m\<rparr> # map (shifted (?m + length ?q)) us)"
    by (simp only: spelt)
  moreover have "ts = [] \<or> ends_before (last ts) (?q @ b)"
    using space_ends_before [of 0 a ts "CHR 0x27" ?x] a unfolding spelt
    by (auto simp: tokenize_def is_space_def byte_def)
  ultimately show ?thesis
    using tokenize_at_append [of 0 a ts "?q @ b"] a(1) by (simp add: tokenize_def)
qed

text \<open>Tokens that a check cannot tell apart: a literal's text does not matter to it.\<close>

definition alike :: "sql_token \<Rightarrow> sql_token \<Rightarrow> bool" where
  "alike t u \<longleftrightarrow> tk_kind t = tk_kind u \<and> (tk_kind t = TkStr \<or> tk_text t = tk_text u)"

lemma alike_same: "alike t u \<Longrightarrow> is_word t = is_word u \<and> is_punct t = is_punct u"
  by (auto simp: alike_def is_word_def is_punct_def fun_eq_iff)

lemma significant_alike:
  "list_all2 alike ts us \<Longrightarrow> list_all2 alike (significant ts) (significant us)"
  unfolding significant_def
  by (induction rule: list_all2_induct) (auto simp: significant_token_def alike_def)

lemma position_alike:
  assumes "list_all2 alike ts us"
  shows "position_of (\<lambda>t. is_punct t c) ts = position_of (\<lambda>t. is_punct t c) us"
proof -
  have "length ts = length us" using assms by (rule list_all2_lengthD)
  moreover have "is_punct (ts ! i) c = is_punct (us ! i) c" if "i < length ts" for i
    using alike_same [OF list_all2_nthD [OF assms that]] by simp
  ultimately show ?thesis
    unfolding position_of_def by (auto intro!: find_cong)
qed

lemma check_alike:
  assumes "tokenize s = Inr ts" "tokenize t = Inr us" "list_all2 alike ts us"
  shows "check_single_read s = check_single_read t"
proof (cases "significant ts")
  case Nil
  with significant_alike [OF assms(3)] have "significant us = []" by simp
  with Nil assms(1,2) show ?thesis by (simp add: check_single_read_def)
next
  case (Cons k rest)
  with significant_alike [OF assms(3)] obtain k' rest' where r: "significant us = k' # rest'" "alike k k'"
    "list_all2 alike rest rest'" by (auto simp: list_all2_Cons1)
  have "list_ex (\<lambda>t. \<not> is_punct t c) (drop n rest) = list_ex (\<lambda>t. \<not> is_punct t c) (drop n rest')" for n c
  proof -
    have "list_all2 alike (drop n rest) (drop n rest')" using r(3) by (rule list_all2_dropI)
    then show ?thesis by (induction rule: list_all2_induct) (auto dest: alike_same)
  qed
  with Cons r(1) alike_same [OF r(2)] position_alike [OF r(3), of "CHR '';''"] assms(1,2)
  show ?thesis by (simp add: check_single_read_def split: option.splits)
qed

section \<open>Accepted reads\<close>

lemma position_of_None: "position_of P xs = None \<longleftrightarrow> (\<forall>x \<in> set xs. \<not> P x)"
  by (auto simp: position_of_def find_None_iff all_set_conv_all_nth)

lemma position_of_Some:
  "position_of P xs = Some i \<longleftrightarrow> i < length xs \<and> P (xs ! i) \<and> (\<forall>j < i. \<not> P (xs ! j))"
  by (auto simp: position_of_def find_Some_iff)

lemma single_read:
  "check_single_read sql = Inr () \<longleftrightarrow>
     (\<exists>ts first body semis. tokenize sql = Inr ts \<and> significant ts = first # body @ semis
        \<and> (is_word first ''SELECT'' \<or> is_word first ''WITH'')
        \<and> (\<forall>t \<in> set body. \<not> is_punct t (CHR '';'')) \<and> (\<forall>t \<in> set semis. is_punct t (CHR '';'')))"
  (is "_ \<longleftrightarrow> ?spec")
proof
  assume "check_single_read sql = Inr ()"
  then obtain ts where ts: "tokenize sql = Inr ts" by (auto simp: check_single_read_def bind_res_Inr)
  with \<open>check_single_read sql = Inr ()\<close> obtain first rest where "significant ts = first # rest"
    by (cases "significant ts") (simp_all add: check_single_read_def)
  with ts \<open>check_single_read sql = Inr ()\<close> have t: "tokenize sql = Inr ts" "significant ts = first # rest"
    "is_word first ''SELECT'' \<or> is_word first ''WITH''"
    "case position_of (\<lambda>t. is_punct t (CHR '';'')) rest of None \<Rightarrow> True
      | Some semi \<Rightarrow> \<not> list_ex (\<lambda>t. \<not> is_punct t (CHR '';'')) (drop (semi + 1) rest)"
    by (simp_all add: check_single_read_def split: if_splits option.splits)
  show ?spec
  proof (cases "position_of (\<lambda>t. is_punct t (CHR '';'')) rest")
    case None
    with t show ?thesis by (intro exI [of _ ts] exI [of _ first] exI [of _ rest] exI [of _ "[]"]) (simp add: position_of_None)
  next
    case (Some k)
    then have k: "k < length rest" "is_punct (rest ! k) (CHR '';'')" "\<forall>j < k. \<not> is_punct (rest ! j) (CHR '';'')"
      by (simp_all add: position_of_Some)
    have "set (drop k rest) = insert (rest ! k) (set (drop (k + 1) rest))"
      using k(1) by (simp flip: Cons_nth_drop_Suc)
    then have "\<forall>t \<in> set (drop k rest). is_punct t (CHR '';'')" using t(4) Some k(2) by (auto simp: list_ex_iff)
    moreover have "\<forall>t \<in> set (take k rest). \<not> is_punct t (CHR '';'')" using k(1,3) by (auto simp: in_set_conv_nth)
    ultimately show ?thesis using t
      by (intro exI [of _ ts] exI [of _ first] exI [of _ "take k rest"] exI [of _ "drop k rest"]) simp
  qed
next
  assume ?spec
  then obtain ts first body semis where t: "tokenize sql = Inr ts" "significant ts = first # body @ semis"
    "is_word first ''SELECT'' \<or> is_word first ''WITH''" "\<forall>t \<in> set body. \<not> is_punct t (CHR '';'')"
    "\<forall>t \<in> set semis. is_punct t (CHR '';'')" by blast
  have "\<not> list_ex (\<lambda>t. \<not> is_punct t (CHR '';'')) (drop (k + 1) (body @ semis))"
    if "position_of (\<lambda>t. is_punct t (CHR '';'')) (body @ semis) = Some k" for k
  proof -
    have "length body \<le> k" using that t(4) by (auto simp: position_of_Some nth_append split: if_splits)
    then show ?thesis using t(5) by (auto simp: list_ex_iff dest: in_set_dropD)
  qed
  with t show "check_single_read sql = Inr ()" by (auto simp: check_single_read_def split: option.splits)
qed

section \<open>Calls in their places\<close>

lemma laid_out_places:
  assumes "laid_out at ts"
  shows "sorted_wrt (\<lambda>t u. tk_end t \<le> tk_start u) ts
    \<and> (\<forall>t \<in> set ts. at \<le> tk_start t \<and> tk_text t \<noteq> [] \<and> tk_end t \<le> at + length (concat (map tk_text ts))
        \<and> take (length (tk_text t)) (drop (tk_start t - at) (concat (map tk_text ts))) = tk_text t)"
  using assms
proof (induction ts arbitrary: at)
  case (Cons t ts)
  then have h: "tk_start t = at" "tk_text t \<noteq> []" "laid_out (tk_end t) ts" by simp_all
  note IH = Cons.IH [OF h(3)]
  have e: "tk_end t = at + length (tk_text t)" using h(1) by (simp add: tk_end_def)
  have later: "take (length (tk_text u)) (drop (tk_start u - at) (concat (map tk_text (t # ts)))) = tk_text u"
    if u: "u \<in> set ts" for u
  proof -
    have "tk_end t \<le> tk_start u" "take (length (tk_text u)) (drop (tk_start u - tk_end t) (concat (map tk_text ts))) = tk_text u"
      using IH u by auto
    moreover from this(1) e have "tk_start u - at = length (tk_text t) + (tk_start u - tk_end t)" by simp
    ultimately show ?thesis by simp
  qed
  have "tk_end u \<le> at + length (concat (map tk_text (t # ts)))" if "u \<in> set ts" for u
    using IH that e by auto
  with IH h e later show ?case by auto
qed simp

lemma tokens_in_text:
  assumes "tokenize sql = Inr ts"
  shows "sorted_wrt (\<lambda>t u. tk_end t \<le> tk_start u) (significant ts)"
    "t \<in> set ts \<Longrightarrow> tk_start t < tk_end t \<and> tk_end t \<le> length sql \<and> slice sql (tk_start t) (tk_end t) = tk_text t"
proof -
  have c: "concat (map tk_text ts) = sql" "laid_out 0 ts"
    using tokenize_at_covers [of 0 sql ts] assms by (simp_all add: tokenize_def)
  note places = laid_out_places [OF c(2), unfolded c(1)]
  show "sorted_wrt (\<lambda>t u. tk_end t \<le> tk_start u) (significant ts)"
    using places by (auto simp: significant_def intro: sorted_wrt_filter)
  show "tk_start t < tk_end t \<and> tk_end t \<le> length sql \<and> slice sql (tk_start t) (tk_end t) = tk_text t"
    if "t \<in> set ts" using places that by (auto simp: slice_def tk_end_def)
qed

lemma scan_args_closes:
  "scan_args sql sig j depth args st = Some (e, as, k) \<Longrightarrow> e = tk_end (sig ! k) \<and> is_punct (sig ! k) (CHR '')'')"
proof (induction "length sig - j" arbitrary: j depth args st rule: less_induct)
  case less
  show ?case
  proof (cases "length sig \<le> j")
    case True
    with less.prems show ?thesis by (simp add: scan_args.simps [of sql sig j])
  next
    case False
    then have later: "e = tk_end (sig ! k) \<and> is_punct (sig ! k) (CHR '')'')"
      if "scan_args sql sig (j + 1) d as' st' = Some (e, as, k)" for d as' st'
      by (intro less.hyps [OF _ that]) simp
    from False less.prems show ?thesis
      by (simp add: scan_args.simps [of sql sig j] Let_def split: if_splits) (use later in auto)
  qed
qed

text \<open>A call as a range of tokens.\<close>

definition call_between :: "string \<Rightarrow> sql_token list \<Rightarrow> nat \<Rightarrow> nat \<Rightarrow> sql_call \<Rightarrow> bool" where
  "call_between name sig i k c \<longleftrightarrow>
     i + 1 < k \<and> k < length sig \<and> is_word (sig ! i) name \<and> is_punct (sig ! (i + 1)) (CHR ''('')
     \<and> is_punct (sig ! k) (CHR '')'') \<and> call_start c = tk_start (sig ! i) \<and> call_end c = tk_end (sig ! k)"

lemma scan_args_first:
  assumes "scan_args sql sig (i + 1) 0 [] None = Some (e, as, k)" "is_punct (sig ! (i + 1)) (CHR ''('')"
  shows "i + 1 < k"
proof -
  have "i + 1 < length sig" using scan_args_later [OF assms(1)] by simp
  with assms have "scan_args sql sig (i + 1 + 1) 1 [] None = Some (e, as, k)"
    by (simp add: scan_args.simps [of sql sig "Suc i"] Let_def)
  from scan_args_later [OF this] show ?thesis by simp
qed

lemma calls_from_between:
  "calls_from sql name sig i = Inr cs \<Longrightarrow>
     \<exists>places. length places = length cs \<and> sorted_wrt (\<lambda>p q. snd p < fst q) places
       \<and> (\<forall>n < length cs. call_between name sig (fst (places ! n)) (snd (places ! n)) (cs ! n))
       \<and> (\<forall>p \<in> set places. i \<le> fst p)"
proof (induction sql name sig i arbitrary: cs rule: calls_from.induct)
  case (1 sql name sig i)
  show ?case
  proof (cases "length sig \<le> i")
    case True
    with "1.prems" show ?thesis by (simp add: calls_from.simps [of sql name sig i])
  next
    case inside: False
    show ?thesis
    proof (cases "call_here name sig i")
      case False
      with "1.prems" inside have "calls_from sql name sig (i + 1) = Inr cs"
        by (simp add: calls_from.simps [of sql name sig i])
      from "1.IH"(2) [OF inside False this] show ?thesis by (meson Suc_leD Suc_eq_plus1 order_trans le_add1)
    next
      case True
      from "1.prems" inside True obtain e as k rest where r: "scan_args sql sig (i + 1) 0 [] None = Some (e, as, k)"
        "calls_from sql name sig (k + 1) = Inr rest"
        "cs = \<lparr>call_start = tk_start (sig ! i), call_end = e, call_args = as\<rparr> # rest"
        by (auto simp: calls_from.simps [of sql name sig i] bind_res_Inr Let_def split: option.splits prod.splits)
      obtain places where p: "length places = length rest" "sorted_wrt (\<lambda>p q. snd p < fst q) places"
        "\<forall>n < length rest. call_between name sig (fst (places ! n)) (snd (places ! n)) (rest ! n)"
        "\<forall>p \<in> set places. k + 1 \<le> fst p"
        using "1.IH"(1) [OF inside True r(1) refl refl r(2)] by blast
      have "call_between name sig i k \<lparr>call_start = tk_start (sig ! i), call_end = e, call_args = as\<rparr>"
        using True scan_args_closes [OF r(1)] scan_args_later [OF r(1)] scan_args_first [OF r(1)]
        by (simp add: call_between_def call_here_def)
      moreover have "i < k" using scan_args_later [OF r(1)] by simp
      ultimately show ?thesis
        using p r(3) by (intro exI [of _ "(i, k) # places"]) (auto simp: nth_Cons split: nat.splits)
    qed
  qed
qed

lemma calls_separate:
  assumes "calls sql name = Inr cs"
  shows "sorted_wrt (\<lambda>c d. call_end c \<le> call_start d) cs
    \<and> (\<forall>c \<in> set cs. call_start c < call_end c \<and> call_end c \<le> length sql
        \<and> eq_ignore_ascii_case (slice sql (call_start c) (call_start c + length name)) name
        \<and> last (slice sql (call_start c) (call_end c)) = CHR '')'')"
proof -
  obtain ts where ts: "tokenize sql = Inr ts" "calls_from sql name (significant ts) 0 = Inr cs"
    using assms by (auto simp: calls_def bind_res_Inr)
  let ?sig = "significant ts"
  obtain places where p: "length places = length cs" "sorted_wrt (\<lambda>p q. snd p < fst q) places"
    "\<forall>n < length cs. call_between name ?sig (fst (places ! n)) (snd (places ! n)) (cs ! n)"
    using calls_from_between [OF ts(2)] by blast
  have sig: "t \<in> set ts" if "t \<in> set ?sig" for t using that by (simp add: significant_def)
  have order: "tk_end (?sig ! m) \<le> tk_start (?sig ! n)" if "m < n" "n < length ?sig" for m n
    using sorted_wrt_nth_less [OF tokens_in_text(1) [OF ts(1)] that] .
  have one: "call_start c < call_end c \<and> call_end c \<le> length sql
        \<and> eq_ignore_ascii_case (slice sql (call_start c) (call_start c + length name)) name
        \<and> last (slice sql (call_start c) (call_end c)) = CHR '')''"
    if c: "call_between name ?sig i k c" for i k c
  proof -
    have ik: "i < k" "k < length ?sig" "is_word (?sig ! i) name" "is_punct (?sig ! k) (CHR '')'')"
      "call_start c = tk_start (?sig ! i)" "call_end c = tk_end (?sig ! k)"
      using c by (auto simp: call_between_def)
    have i: "tk_start (?sig ! i) < tk_end (?sig ! i)"
      "slice sql (tk_start (?sig ! i)) (tk_end (?sig ! i)) = tk_text (?sig ! i)"
      using tokens_in_text(2) [OF ts(1) sig, of "?sig ! i"] ik by auto
    have k: "tk_start (?sig ! k) < tk_end (?sig ! k)" "tk_end (?sig ! k) \<le> length sql"
      "slice sql (tk_start (?sig ! k)) (tk_end (?sig ! k)) = tk_text (?sig ! k)"
      using tokens_in_text(2) [OF ts(1) sig, of "?sig ! k"] ik by auto
    have name: "eq_ignore_ascii_case (tk_text (?sig ! i)) name" using ik(3) by (simp add: is_word_def)
    then have "length (tk_text (?sig ! i)) = length name" by (metis eq_ignore_ascii_case_def length_map)
    with i(2) name have "eq_ignore_ascii_case (slice sql (call_start c) (call_start c + length name)) name"
      by (simp add: slice_def tk_end_def ik(5))
    moreover have "tk_text (?sig ! k) = [CHR '')'']" using ik(4) by (simp add: is_punct_def)
    then have "tk_end (?sig ! k) = tk_start (?sig ! k) + 1" "sql ! tk_start (?sig ! k) = CHR '')''"
      using k by (auto simp: tk_end_def slice_def take_Suc_conv_app_nth hd_drop_conv_nth [symmetric] take_Suc)
    then have "last (slice sql (call_start c) (call_end c)) = CHR '')''"
      using k(2) order [OF ik(1,2)] i(1) by (simp add: slice_def ik(5,6) last_conv_nth)
    ultimately show ?thesis using i(1) k order [OF ik(1,2)] ik(5,6) by simp
  qed
  have "sorted_wrt (\<lambda>c d. call_end c \<le> call_start d) cs"
  proof (rule sorted_wrt_iff_nth_less [THEN iffD2], intro allI impI)
    fix m n assume mn: "m < n" "n < length cs"
    then have "snd (places ! m) < fst (places ! n)" using p(1) sorted_wrt_nth_less [OF p(2), of m n] by simp
    moreover have "call_between name ?sig (fst (places ! m)) (snd (places ! m)) (cs ! m)"
      "call_between name ?sig (fst (places ! n)) (snd (places ! n)) (cs ! n)" using p(3) mn by simp_all
    ultimately show "call_end (cs ! m) \<le> call_start (cs ! n)"
      using order by (simp add: call_between_def)
  qed
  moreover have "\<exists>i k. call_between name ?sig i k c" if "c \<in> set cs" for c
    using that p(3) by (auto simp: in_set_conv_nth)
  ultimately show ?thesis using one by blast
qed

section \<open>Promises\<close>

text \<open>
  C12. A quoted value stays a value. Written by doubling its quotes where a literal may stand, after a
  space and before anything but a quote, it is one string token whatever its bytes are; the tokens of
  the text around it are what they are without it, and whether the whole is a single read does not
  depend on the value.
\<close>

theorem quoted_values_stay_values:
  assumes "tokenize a = Inr ts" "ts = [] \<or> tk_kind (last ts) = TkSpace"
    and "tokenize b = Inr us" "\<not> next_is (\<lambda>c. c = CHR 0x27) b"
  shows "tokenize (a @ quote v @ b)
      = Inr (ts @ \<lparr>tk_kind = TkStr, tk_text = quote v, tk_start = length a\<rparr>
             # map (shifted (length a + length (quote v))) us)
    \<and> check_single_read (a @ quote v @ b) = check_single_read (a @ quote w @ b)"
proof -
  note v = tokenize_quoted [OF assms, of v] and w = tokenize_quoted [OF assms, of w]
  have "list_all2 alike (map (shifted m) us) (map (shifted n) us)" for m n
    by (simp add: list_all2_conv_all_nth alike_def shifted_def)
  moreover have "list_all2 alike ts ts" by (simp add: list_all2_conv_all_nth alike_def)
  ultimately have "check_single_read (a @ quote v @ b) = check_single_read (a @ quote w @ b)"
    by (intro check_alike [OF v w] list_all2_appendI) (simp_all add: alike_def)
  with v show ?thesis by blast
qed

lemma quoted_values_stay_values_witness:
  "check_single_read (''SELECT '' @ quote ''x'' @ '';'') = check_single_read (''SELECT '' @ quote [CHR 0x27, CHR '';''] @ '';'')"
proof -
  have "tokenize ''SELECT '' = Inr [\<lparr>tk_kind = TkWord, tk_text = ''SELECT'', tk_start = 0\<rparr>,
      \<lparr>tk_kind = TkSpace, tk_text = '' '', tk_start = 6\<rparr>]" by code_simp
  moreover have "tokenize '';'' = Inr [\<lparr>tk_kind = TkPunct, tk_text = '';'', tk_start = 0\<rparr>]" by code_simp
  ultimately show ?thesis
    using quoted_values_stay_values [of "''SELECT ''" _ "'';''"] by (simp add: next_is_def)
qed

text \<open>
  C35. What is accepted as a single read is one: the text tokenizes into itself, the first token that
  means anything is \<open>SELECT\<close> or \<open>WITH\<close>, and after the first \<open>;\<close> that is no part of a string, a
  quoted name or a comment there is nothing but such semicolons; every such text is accepted.
\<close>

theorem accepted_reads_are_single:
  "check_single_read sql = Inr () \<longleftrightarrow>
     (\<exists>ts first body semis. tokenize sql = Inr ts \<and> concat (map tk_text ts) = sql
        \<and> significant ts = first # body @ semis
        \<and> (is_word first ''SELECT'' \<or> is_word first ''WITH'')
        \<and> (\<forall>t \<in> set body. \<not> is_punct t (CHR '';'')) \<and> (\<forall>t \<in> set semis. is_punct t (CHR '';'')))"
  unfolding single_read using tokenize_at_covers [of 0 sql] by (auto simp: tokenize_def)

lemma accepted_reads_are_single_witness:
  "\<exists>ts first body semis. tokenize ''SELECT 1;'' = Inr ts \<and> significant ts = first # body @ semis
     \<and> (\<forall>t \<in> set semis. is_punct t (CHR '';''))"
proof -
  have "check_single_read ''SELECT 1;'' = Inr ()" by code_simp
  then show ?thesis using accepted_reads_are_single [of "''SELECT 1;''"] by blast
qed

text \<open>
  The calls found in a text can be replaced in place: they lie in the text one after another, none
  inside another, each begins with the name as it is written there and ends with its parenthesis.
\<close>

theorem calls_can_be_replaced:
  assumes "calls sql name = Inr cs"
  shows "sorted_wrt (\<lambda>c d. call_end c \<le> call_start d) cs
    \<and> (\<forall>c \<in> set cs. call_start c < call_end c \<and> call_end c \<le> length sql
        \<and> eq_ignore_ascii_case (slice sql (call_start c) (call_start c + length name)) name
        \<and> last (slice sql (call_start c) (call_end c)) = CHR '')'')"
  by (rule calls_separate [OF assms])

lemma calls_can_be_replaced_witness:
  "calls ''f(F(1), 2) f(3)'' ''f'' = Inr [\<lparr>call_start = 0, call_end = 10, call_args = [''F(1)'', ''2'']\<rparr>,
       \<lparr>call_start = 11, call_end = 15, call_args = [''3'']\<rparr>]
     \<and> (10 :: nat) \<le> 11"
proof -
  have c: "calls ''f(F(1), 2) f(3)'' ''f'' = Inr [\<lparr>call_start = 0, call_end = 10, call_args = [''F(1)'', ''2'']\<rparr>,
       \<lparr>call_start = 11, call_end = 15, call_args = [''3'']\<rparr>]" by code_simp
  with calls_can_be_replaced [OF c] show ?thesis by simp
qed

text \<open>
  A literal reads back as the value that was quoted.
\<close>

lemma literal_reads_back: "string_literal (quote v) = Some v"
proof -
  have t: "tokenize (quote v) = Inr [\<lparr>tk_kind = TkStr, tk_text = quote v, tk_start = 0\<rparr>]"
    using tokenize_quoted [of "[]" "[]" "[]" "[]" v] by (simp add: tokenize_def next_is_def)
  have "inside (quote v) = double (CHR 0x27) v" by (simp add: inside_def quote_def butlast_append)
  then show ?thesis
    by (simp add: string_literal_def t significant_def significant_token_def undouble_double)
      (simp add: quote_def next_is_def)
qed

text \<open>
  SQLite takes a string literal for a table's name where only a name can stand. Such a read of the view
  is not among the reads counted, so a second read spelled that way leaves the conditions of the first
  standing for rows it does not hold to them.
\<close>

lemma literal_names_are_not_reads:
  "\<forall>t \<in> set sig. tk_kind t = TkStr \<longrightarrow> \<not> names_view view t"
  by (auto simp: names_view_def)

end
