(* ===== verification/Task_List.thy ===== *)
theory Task_List
  imports Actor Store_Json
begin

text \<open>
  What oxplow's task list is made of: the types of \<open>oxplow-tasks/src/model.rs\<close>, the ids and refs of
  its \<open>ids.rs\<close> and \<open>refs.rs\<close>, how its statuses and its one native field map onto the work-item
  interface (\<open>mapping.rs\<close>), and the inputs and the record of that interface
  (\<open>oxplow-domain/src/work_items.rs\<close>). A timestamp is its fixed-width text, which is what is stored
  and compared. Refusals are without their wording. The lemmas: every name reads back, and a state
  pair names one status and one canonical state.
\<close>

section \<open>Tasks\<close>

datatype task_status = TsReady | TsInProgress | TsBlocked | TsDone | TsCanceled | TsArchived
datatype task_priority = PrLow | PrMedium | PrHigh | PrUrgent
datatype task_actor_kind = CbUser | CbAgent | CbSystem
datatype task_author = AuUser | AuAgent
datatype task_link_type =
  LtBlocks | LtRelatesTo | LtDiscoveredFrom | LtDuplicates | LtSupersedes | LtRepliesTo | LtAbout

record task =
  t_id :: int
  t_thread :: "int option"
  t_parent :: "int option"
  t_title :: string
  t_description :: string
  t_status :: task_status
  t_priority :: task_priority
  t_sort :: int
  t_created_by :: task_actor_kind
  t_created_at :: string
  t_updated_at :: string
  t_completed_at :: "string option"
  t_deleted_at :: "string option"
  t_note_count :: int
  t_author :: "task_author option"

definition set_status :: "task_status \<Rightarrow> string \<Rightarrow> task \<Rightarrow> task" where
  "set_status to now t =
     (if to = TsDone \<and> t_status t \<noteq> TsDone then t\<lparr>t_completed_at := Some now\<rparr>
      else if to \<noteq> TsDone \<and> to \<noteq> TsArchived then t\<lparr>t_completed_at := None\<rparr>
      else t)
     \<lparr>t_status := to, t_updated_at := now\<rparr>"

text \<open>A note on a task, and a link from one.\<close>

record task_note =
  n_id :: int
  n_task :: int
  n_body :: string
  n_author :: string
  n_created_at :: string

section \<open>Names\<close>

fun status_to_str :: "task_status \<Rightarrow> string" where
  "status_to_str TsReady = ''ready''"
| "status_to_str TsInProgress = ''in_progress''"
| "status_to_str TsBlocked = ''blocked''"
| "status_to_str TsDone = ''done''"
| "status_to_str TsCanceled = ''canceled''"
| "status_to_str TsArchived = ''archived''"

definition STATUSES :: "task_status list" where
  "STATUSES = [TsReady, TsInProgress, TsBlocked, TsDone, TsCanceled, TsArchived]"

text \<open>A \<open>match\<close> on the text: the value whose name it is.\<close>

definition named :: "('a \<Rightarrow> string) \<Rightarrow> 'a list \<Rightarrow> string \<Rightarrow> 'a option" where
  "named name values s = find (\<lambda>v. name v = s) values"

definition str_to_status :: "string \<Rightarrow> task_status option" where
  "str_to_status = named status_to_str STATUSES"

fun priority_to_str :: "task_priority \<Rightarrow> string" where
  "priority_to_str PrLow = ''low''"
| "priority_to_str PrMedium = ''medium''"
| "priority_to_str PrHigh = ''high''"
| "priority_to_str PrUrgent = ''urgent''"

definition str_to_priority :: "string \<Rightarrow> task_priority option" where
  "str_to_priority = named priority_to_str [PrLow, PrMedium, PrHigh, PrUrgent]"

fun actor_to_str :: "task_actor_kind \<Rightarrow> string" where
  "actor_to_str CbUser = ''user''"
| "actor_to_str CbAgent = ''agent''"
| "actor_to_str CbSystem = ''system''"

definition str_to_actor :: "string \<Rightarrow> task_actor_kind option" where
  "str_to_actor = named actor_to_str [CbUser, CbAgent, CbSystem]"

fun author_to_str :: "task_author \<Rightarrow> string" where
  "author_to_str AuUser = ''user''"
| "author_to_str AuAgent = ''agent''"

definition str_to_author :: "string \<Rightarrow> task_author option" where
  "str_to_author = named author_to_str [AuUser, AuAgent]"

fun link_type_to_str :: "task_link_type \<Rightarrow> string" where
  "link_type_to_str LtBlocks = ''blocks''"
| "link_type_to_str LtRelatesTo = ''relates_to''"
| "link_type_to_str LtDiscoveredFrom = ''discovered_from''"
| "link_type_to_str LtDuplicates = ''duplicates''"
| "link_type_to_str LtSupersedes = ''supersedes''"
| "link_type_to_str LtRepliesTo = ''replies_to''"
| "link_type_to_str LtAbout = ''about''"

definition LINK_TYPES :: "task_link_type list" where
  "LINK_TYPES = [LtBlocks, LtRelatesTo, LtDiscoveredFrom, LtDuplicates, LtSupersedes, LtRepliesTo, LtAbout]"

lemma names_read_back [simp]:
  "str_to_status (status_to_str s) = Some s"
  "str_to_priority (priority_to_str p) = Some p"
  "str_to_actor (actor_to_str a) = Some a"
  "str_to_author (author_to_str u) = Some u"
  "named link_type_to_str LINK_TYPES (link_type_to_str l) = Some l"
  by (cases s, simp_all add: str_to_status_def named_def STATUSES_def)
    (cases p, simp_all add: str_to_priority_def named_def,
     cases a, simp_all add: str_to_actor_def named_def,
     cases u, simp_all add: str_to_author_def named_def,
     cases l, simp_all add: LINK_TYPES_def named_def)

section \<open>Refusals\<close>

text \<open>
  \<open>DomainError\<close> as the task store answers with it, and \<open>CommandError\<close>: an invalid input names its
  field when one is at fault.
\<close>

datatype task_error = TeNotFound | TeInvalid | TeConstraint | TeStorage

datatype verb_refusal = VrInvalid "string option" | VrFailed

fun from_domain :: "task_error \<Rightarrow> verb_refusal" where
  "from_domain TeInvalid = VrInvalid None"
| "from_domain _ = VrFailed"

definition invalid_at :: "string \<Rightarrow> verb_refusal" where
  "invalid_at field = VrInvalid (Some field)"

section \<open>Ids and refs\<close>

definition TASK_PREFIX :: string where "TASK_PREFIX = ''tsk''"

definition task_id_display :: "int \<Rightarrow> string" where
  "task_id_display i = TASK_PREFIX @ show_int i"

definition task_id_from_str :: "string \<Rightarrow> int option" where
  "task_id_from_str s =
     (case strip_prefix TASK_PREFIX s of
        None \<Rightarrow> None
      | Some n \<Rightarrow> if n \<noteq> [] \<and> list_all is_ascii_digit n then digits_i64 n else None)"

definition PROVIDER :: string where "PROVIDER = ''oxplow''"

text \<open>The builder panics on a bad key; the keys of a work item are good ones.\<close>

definition work_item_ref :: "int \<Rightarrow> string" where
  "work_item_ref t = (case work_item_uri PROVIDER (task_id_display t) of Some u \<Rightarrow> u | None \<Rightarrow> [])"

definition task_of_work_item_ref :: "string \<Rightarrow> int option" where
  "task_of_work_item_ref r =
     (case work_item_of_uri r of
        None \<Rightarrow> None
      | Some (provider, i) \<Rightarrow> if provider = PROVIDER then task_id_from_str i else None)"

definition provider_of :: "string \<Rightarrow> string option" where
  "provider_of item_ref =
     (case work_item_of_uri item_ref of
        None \<Rightarrow> None
      | Some (p, i) \<Rightarrow> if p \<noteq> [] \<and> i \<noteq> [] then Some p else None)"

definition task_ref :: "string \<Rightarrow> string \<Rightarrow> verb_refusal + int" where
  "task_ref item_ref field =
     (case provider_of item_ref of
        Some p \<Rightarrow> if p \<noteq> PROVIDER then Inl (invalid_at field)
                  else ok_or (task_of_work_item_ref item_ref) (invalid_at field)
      | None \<Rightarrow> ok_or (task_of_work_item_ref item_ref) (invalid_at field))"

lemma work_item_ref_built: "work_item_uri PROVIDER (task_id_display t) = Some (work_item_ref t)"
proof -
  obtain r where "resource_name_parse WORK_ITEM = Inr r"
    by (simp add: WORK_ITEM_def resource_name_parse_def resource_name_new_def is_extension_def is_name_def
        char_class_defs)
  then have "\<exists>u. work_item_uri PROVIDER (task_id_display t) = Some u"
    unfolding work_item_uri_def uri_of_def by (rule keys_build) (auto simp: is_key_def char_class_defs)
  then show ?thesis by (auto simp: work_item_ref_def)
qed

lemma task_id_reads_back:
  assumes "0 \<le> t" "t \<le> i64_max"
  shows "task_id_from_str (task_id_display t) = Some t"
  using show_int_digits [OF assms(1)] digits_show [OF assms]
  by (simp add: task_id_from_str_def task_id_display_def)

lemma task_id_text: "utf8_valid (task_id_display t)" "task_id_display t \<noteq> []"
proof -
  have "list_all is_ascii (show_int t)"
    using show_nat_digits [of "nat t"] show_nat_digits [of "nat (- t)"]
    by (fastforce simp: show_int_def list_all_iff char_class_defs)
  then show "utf8_valid (task_id_display t)"
    by (auto intro!: utf8_valid_ascii simp: list_all_iff task_id_display_def TASK_PREFIX_def char_class_defs)
qed (simp add: task_id_display_def TASK_PREFIX_def)

lemma ref_names_task:
  assumes "0 \<le> t" "t \<le> i64_max"
  shows "task_of_work_item_ref (work_item_ref t) = Some t" "task_ref (work_item_ref t) field = Inr t"
proof -
  have "work_item_of_uri (work_item_ref t) = Some (PROVIDER, task_id_display t)"
    by (rule work_item_of_work_item_uri [OF work_item_ref_built])
      (auto simp: task_id_text intro!: utf8_valid_ascii simp: PROVIDER_def char_class_defs)
  then show "task_of_work_item_ref (work_item_ref t) = Some t" "task_ref (work_item_ref t) field = Inr t"
    using task_id_reads_back [OF assms] task_id_text(2) [of t]
    by (simp_all add: task_of_work_item_ref_def task_ref_def provider_of_def PROVIDER_def)
qed

section \<open>The work-item interface\<close>

datatype canonical_state = CsTodo | CsInProgress | CsBlocked | CsDone | CsCanceled

fun native_status :: "canonical_state \<Rightarrow> task_status" where
  "native_status CsTodo = TsReady"
| "native_status CsInProgress = TsInProgress"
| "native_status CsBlocked = TsBlocked"
| "native_status CsDone = TsDone"
| "native_status CsCanceled = TsCanceled"

fun state_of :: "task_status \<Rightarrow> bool \<Rightarrow> canonical_state" where
  "state_of TsReady completed = CsTodo"
| "state_of TsInProgress completed = CsInProgress"
| "state_of TsBlocked completed = CsBlocked"
| "state_of TsDone completed = CsDone"
| "state_of TsCanceled completed = CsCanceled"
| "state_of TsArchived completed = (if completed then CsDone else CsCanceled)"

text \<open>A status serializes as its snake case name, which is also the one the rows hold.\<close>

definition state_pair :: "task_status \<Rightarrow> bool \<Rightarrow> canonical_state \<times> string" where
  "state_pair status completed = (state_of status completed, status_to_str status)"

definition canonical_of :: "task \<Rightarrow> canonical_state" where
  "canonical_of t = fst (state_pair (t_status t) (t_completed_at t \<noteq> None))"

definition fits :: "task_status \<Rightarrow> canonical_state \<Rightarrow> bool" where
  "fits status state \<longleftrightarrow>
     (if status = TsArchived then state = CsDone \<or> state = CsCanceled else native_status state = status)"

definition oxplow_status ::
  "canonical_state option \<Rightarrow> string option \<Rightarrow> verb_refusal + task_status option" where
  "oxplow_status state native_state =
     (case native_state of
        None \<Rightarrow> Inr (map_option native_status state)
      | Some raw \<Rightarrow>
          bind_res (ok_or (str_to_status raw) (invalid_at ''/native_state'')) (\<lambda>status.
            case state of
              None \<Rightarrow> Inr (Some status)
            | Some s \<Rightarrow> if fits status s then Inr (Some status) else Inl (invalid_at ''/native_state'')))"

text \<open>
  A unit variant as serde reads it from a value: its name, or an object of the name and null. A
  struct is an object, or an array of its fields in their order.
\<close>

fun unit_variant :: "json \<Rightarrow> string option" where
  "unit_variant (JStr s) = Some s"
| "unit_variant (JObj [(s, JNull)]) = Some s"
| "unit_variant _ = None"

definition read_priority :: "json \<Rightarrow> task_priority option option" where
  "read_priority v =
     (if v = JNull then Some None else map_option Some (Option.bind (unit_variant v) str_to_priority))"

fun native_fields :: "json \<Rightarrow> task_priority option option" where
  "native_fields (JObj []) = Some None"
| "native_fields (JObj [(k, v)]) = (if k = ''priority'' then read_priority v else None)"
| "native_fields (JArr []) = Some None"
| "native_fields (JArr [v]) = read_priority v"
| "native_fields _ = None"

definition oxplow_native :: "json option \<Rightarrow> verb_refusal + task_priority option" where
  "oxplow_native native =
     (case native of None \<Rightarrow> Inr None | Some v \<Rightarrow> ok_or (native_fields v) (invalid_at ''/native''))"

definition native_of :: "task_priority \<Rightarrow> json" where
  "native_of p = JObj [(''priority'', JStr (priority_to_str p))]"

lemma oxplow_native_reads_back: "oxplow_native (map_option native_of p) = Inr p"
  by (cases p) (simp_all add: oxplow_native_def native_of_def read_priority_def)

text \<open>The pair a task reads as is taken back as its status.\<close>

lemma state_pair_reads_back:
  "oxplow_status (Some (state_of status completed)) (Some (status_to_str status)) = Inr (Some status)"
  using names_read_back(1) [of status] by (cases status) (simp_all add: oxplow_status_def fits_def del: names_read_back)

section \<open>Inputs and records\<close>

datatype work_list = Backlog | OnThread string

record link_record =
  lr_target :: string
  lr_type :: string

record comment_record =
  cr_id :: string
  cr_body :: string
  cr_author :: "string option"
  cr_created_at :: "string option"

record work_item_record =
  wr_uri :: string
  wr_title :: string
  wr_body :: string
  wr_state :: canonical_state
  wr_native_state :: string
  wr_native :: json
  wr_parent_uri :: "string option"
  wr_deleted :: bool
  wr_rank :: "int option"
  wr_links :: "link_record list option"
  wr_comments :: "comment_record list option"
  wr_list :: "work_list option"

record create_input =
  ci_title :: string
  ci_body :: "string option"
  ci_parent_uri :: "string option"
  ci_state :: "canonical_state option"
  ci_native_state :: "string option"
  ci_native :: "json option"
  ci_thread :: "string option"
  ci_links :: "link_record list"

record update_input =
  ui_uri :: string
  ui_title :: "string option"
  ui_body :: "string option"
  ui_parent_uri :: "string option"
  ui_state :: "canonical_state option"
  ui_native_state :: "string option"
  ui_native :: "json option"

record link_input =
  li_uri :: string
  li_target :: string
  li_link_type :: string

text \<open>A verb's name with its input as serde reads it.\<close>

datatype verb_call =
  VCreate create_input
| VUpdate update_input
| VTransition string canonical_state "string option"
| VLink link_input
| VUnlink link_input
| VComment string string
| VDelete string
| VReorder string "string option" "string option"
| VMove string work_list "string option" "string option"

end
