(* ===== verification/Task_Store.thy ===== *)
theory Task_Store
  imports Task_List State_Result
begin

text \<open>
  The tables of oxplow's task list and the operations over them: \<open>oxplow-tasks/src/store.rs\<close>,
  \<open>satellite.rs\<close> and \<open>record.rs\<close>, with the tables of \<open>oxplow-db/migrations/V1__baseline.sql\<close>. A row
  holds text where the table does; rows are in the order of their ids, and rows an \<open>ORDER BY\<close> does
  not tell apart stay in that order. A busy database and a failing disk are not modelled. The lemmas:
  a row and the task it holds are one to one, every statement keeps the tables sound, and placing a
  task edits its list as it says.
\<close>

section \<open>Tables\<close>

record task_row =
  r_id :: int
  r_thread :: "int option"
  r_parent :: "int option"
  r_title :: string
  r_description :: string
  r_status :: string
  r_priority :: string
  r_sort :: int
  r_created_by :: string
  r_created_at :: string
  r_updated_at :: string
  r_completed_at :: "string option"
  r_deleted_at :: "string option"
  r_author :: "string option"

record link_row =
  l_id :: int
  l_from :: int
  l_to :: string
  l_type :: string
  l_created_at :: string

text \<open>The tables, the threads there are, and the last id each table gave out.\<close>

record task_db =
  d_tasks :: "task_row list"
  d_links :: "link_row list"
  d_notes :: "task_note list"
  d_threads :: "int list"
  d_task_seq :: int
  d_link_seq :: int
  d_note_seq :: int

type_synonym 'a top = "(task_db, task_error, 'a) state_op"

text \<open>The checks of the table: each text is one of its names.\<close>

definition row_checks :: "task_row \<Rightarrow> bool" where
  "row_checks r \<longleftrightarrow>
     str_to_status (r_status r) \<noteq> None \<and> str_to_priority (r_priority r) \<noteq> None
     \<and> str_to_actor (r_created_by r) \<noteq> None
     \<and> (case r_author r of None \<Rightarrow> True | Some a \<Rightarrow> str_to_author a \<noteq> None)"

text \<open>The references of a row: a thread there is, and a task there is.\<close>

definition refs_ok :: "task_db \<Rightarrow> int list \<Rightarrow> int option \<Rightarrow> int option \<Rightarrow> bool" where
  "refs_ok d ids thread parent \<longleftrightarrow>
     (case thread of None \<Rightarrow> True | Some t \<Rightarrow> t \<in> set (d_threads d))
     \<and> (case parent of None \<Rightarrow> True | Some p \<Rightarrow> p \<in> set ids)"

definition live :: "task_row \<Rightarrow> bool" where
  "live r \<longleftrightarrow> r_deleted_at r = None"

section \<open>Rows and tasks\<close>

definition row_of_task :: "task \<Rightarrow> task_row" where
  "row_of_task t =
     \<lparr>r_id = t_id t, r_thread = t_thread t, r_parent = t_parent t, r_title = t_title t,
      r_description = t_description t, r_status = status_to_str (t_status t),
      r_priority = priority_to_str (t_priority t), r_sort = t_sort t,
      r_created_by = actor_to_str (t_created_by t), r_created_at = t_created_at t,
      r_updated_at = t_updated_at t, r_completed_at = t_completed_at t,
      r_deleted_at = t_deleted_at t, r_author = map_option author_to_str (t_author t)\<rparr>"

definition note_count :: "task_db \<Rightarrow> int \<Rightarrow> int" where
  "note_count d i = int (length (filter (\<lambda>n. n_task n = i) (d_notes d)))"

text \<open>An author that is no name reads as none; every other column that does is an error.\<close>

definition row_to_task :: "task_db \<Rightarrow> task_row \<Rightarrow> task_error + task" where
  "row_to_task d r =
     (case (str_to_status (r_status r), str_to_priority (r_priority r), str_to_actor (r_created_by r)) of
        (Some status, Some priority, Some created_by) \<Rightarrow>
          Inr \<lparr>t_id = r_id r, t_thread = r_thread r, t_parent = r_parent r, t_title = r_title r,
               t_description = r_description r, t_status = status, t_priority = priority,
               t_sort = r_sort r, t_created_by = created_by, t_created_at = r_created_at r,
               t_updated_at = r_updated_at r, t_completed_at = r_completed_at r,
               t_deleted_at = r_deleted_at r, t_note_count = note_count d (r_id r),
               t_author = Option.bind (r_author r) str_to_author\<rparr>
      | _ \<Rightarrow> Inl TeStorage)"

section \<open>Statements\<close>

definition find_task :: "(task_row \<Rightarrow> bool) \<Rightarrow> task_db \<Rightarrow> int \<Rightarrow> task_row option" where
  "find_task P d i = find (\<lambda>r. r_id r = i \<and> P r) (d_tasks d)"

definition get_task_tx :: "int \<Rightarrow> task_db \<Rightarrow> task_error + task option" where
  "get_task_tx i d =
     (case find_task live d i of
        None \<Rightarrow> Inr None
      | Some r \<Rightarrow> bind_res (row_to_task d r) (\<lambda>t. Inr (Some t)))"

definition get_live :: "int \<Rightarrow> task top" where
  "get_live i =
     bind_op (read_op (get_task_tx i)) (\<lambda>found. of_res (ok_or found TeNotFound))"

text \<open>An \<open>UPDATE\<close> of the live row of an id: how many rows it changed.\<close>

definition update_row :: "int \<Rightarrow> (task_row \<Rightarrow> task_row) \<Rightarrow> task_db \<Rightarrow> nat \<times> task_db" where
  "update_row i f d =
     (length (filter (\<lambda>r. r_id r = i \<and> live r) (d_tasks d)),
      d\<lparr>d_tasks := map (\<lambda>r. if r_id r = i \<and> live r then f r else r) (d_tasks d)\<rparr>)"

definition write_fields :: "task \<Rightarrow> task_row \<Rightarrow> task_row" where
  "write_fields t r =
     r\<lparr>r_thread := t_thread t, r_parent := t_parent t, r_title := t_title t,
       r_description := t_description t, r_priority := priority_to_str (t_priority t),
       r_sort := t_sort t, r_updated_at := t_updated_at t, r_deleted_at := t_deleted_at t,
       r_author := map_option author_to_str (t_author t)\<rparr>"

definition update_task_tx :: "task \<Rightarrow> nat top" where
  "update_task_tx item d =
     (let (n, d') = update_row (t_id item) (write_fields item) d in
      if n > 0 \<and> \<not> refs_ok d (map r_id (d_tasks d)) (t_thread item) (t_parent item)
      then (Inl TeConstraint, d) else (Inr n, d'))"

definition write_status_tx :: "task \<Rightarrow> unit top" where
  "write_status_tx item d =
     (let (n, d') = update_row (t_id item)
            (\<lambda>r. r\<lparr>r_status := status_to_str (t_status item), r_completed_at := t_completed_at item,
                  r_updated_at := t_updated_at item\<rparr>) d in
      if n = 0 then (Inl TeNotFound, d') else (Inr (), d'))"

record status_change =
  sc_before :: task
  sc_after :: task

definition set_status_tx :: "int \<Rightarrow> task_status \<Rightarrow> string \<Rightarrow> status_change top" where
  "set_status_tx i to now =
     bind_op (get_live i) (\<lambda>before.
       (let after = set_status to now before in
        bind_op (write_status_tx after) (\<lambda>_. return_op \<lparr>sc_before = before, sc_after = after\<rparr>)))"

definition update_with_status_tx :: "task \<Rightarrow> task_status option \<Rightarrow> string \<Rightarrow> task top" where
  "update_with_status_tx item status now =
     bind_op (update_task_tx item) (\<lambda>n.
     bind_op (ensure_op (n \<noteq> 0) TeNotFound) (\<lambda>_.
     bind_op (case status of
                None \<Rightarrow> return_op ()
              | Some to \<Rightarrow> bind_op (set_status_tx (t_id item) to now) (\<lambda>_. return_op ())) (\<lambda>_.
     get_live (t_id item))))"

text \<open>An id is one more than the last; the last there can be leaves none.\<close>

definition insert_task_tx :: "task \<Rightarrow> int top" where
  "insert_task_tx item d =
     (let i = d_task_seq d + 1 in
      if i > i64_max then (Inl TeStorage, d)
      else if \<not> refs_ok d (map r_id (d_tasks d) @ [i]) (t_thread item) (t_parent item)
      then (Inl TeConstraint, d)
      else (Inr i, d\<lparr>d_tasks := d_tasks d @ [(row_of_task item)\<lparr>r_id := i\<rparr>], d_task_seq := i\<rparr>))"

definition soft_delete_tx :: "int \<Rightarrow> string \<Rightarrow> unit top" where
  "soft_delete_tx i now d =
     (let (n, d') = update_row i (\<lambda>r. r\<lparr>r_deleted_at := Some now, r_updated_at := now\<rparr>) d in
      if n = 0 then (Inl TeNotFound, d') else (Inr (), d'))"

section \<open>Lists\<close>

text \<open>
  \<open>ORDER BY sort_index, created_at\<close> of the live rows of a thread, or of the backlog.
\<close>

definition on_list :: "int option \<Rightarrow> task_row \<Rightarrow> bool" where
  "on_list thread r \<longleftrightarrow> r_thread r = thread \<and> live r"

definition list_rows :: "task_db \<Rightarrow> int option \<Rightarrow> task_row list" where
  "list_rows d thread =
     sort_key (\<lambda>r. (r_sort r, r_created_at r)) (filter (on_list thread) (d_tasks d))"

definition list_ids :: "task_db \<Rightarrow> int option \<Rightarrow> int list" where
  "list_ids d thread = map r_id (list_rows d thread)"

fun read_rows :: "task_db \<Rightarrow> task_row list \<Rightarrow> task_error + task list" where
  "read_rows d [] = Inr []"
| "read_rows d (r # rs) =
     bind_res (row_to_task d r) (\<lambda>t. bind_res (read_rows d rs) (\<lambda>ts. Inr (t # ts)))"

definition list_for_thread :: "int \<Rightarrow> task_db \<Rightarrow> task_error + task list" where
  "list_for_thread thread d = read_rows d (list_rows d (Some thread))"

definition list_by_status_for_thread :: "int \<Rightarrow> task_status \<Rightarrow> task_db \<Rightarrow> task_error + task list" where
  "list_by_status_for_thread thread status d =
     read_rows d (filter (\<lambda>r. r_status r = status_to_str status) (list_rows d (Some thread)))"

definition list_backlog :: "task_db \<Rightarrow> task_error + task list" where
  "list_backlog d = read_rows d (list_rows d None)"

text \<open>\<open>COALESCE(MAX(sort_index), -1) + 1\<close>; a sum past an integer is a real, which is no index.\<close>

definition next_sort_index_tx :: "int option \<Rightarrow> task_db \<Rightarrow> task_error + int" where
  "next_sort_index_tx thread d =
     (let sorts = map r_sort (filter (on_list thread) (d_tasks d));
          top = (if sorts = [] then - 1 else Max (set sorts)) in
      ok_or (checked_add_i64 top 1) TeStorage)"

datatype placement = PlEnd | PlBefore int | PlAfter int

record placed =
  pl_task :: task
  pl_from_thread :: "int option"
  pl_from_place :: placement
  pl_renumbered :: "int list"

definition index_of :: "'a \<Rightarrow> 'a list \<Rightarrow> nat option" where
  "index_of x xs = find (\<lambda>i. xs ! i = x) [0..<length xs]"

definition from_place_of :: "int list \<Rightarrow> int \<Rightarrow> placement" where
  "from_place_of from_list i =
     (case index_of i from_list of
        None \<Rightarrow> PlEnd
      | Some k \<Rightarrow>
          if k > 0 then PlAfter (from_list ! (k - 1))
          else if k + 1 < length from_list then PlBefore (from_list ! (k + 1))
          else PlEnd)"

definition place_index :: "int list \<Rightarrow> placement \<Rightarrow> task_error + nat" where
  "place_index xs place =
     (case place of
        PlEnd \<Rightarrow> Inr (length xs)
      | PlBefore other \<Rightarrow> ok_or (index_of other xs) TeInvalid
      | PlAfter other \<Rightarrow> bind_res (ok_or (index_of other xs) TeInvalid) (\<lambda>i. Inr (i + 1)))"

text \<open>\<open>UPDATE task SET sort_index = ?2 WHERE id = ?1 AND sort_index != ?2\<close>.\<close>

definition write_sort :: "int \<Rightarrow> int \<Rightarrow> task_db \<Rightarrow> nat \<times> task_db" where
  "write_sort i k d =
     (length (filter (\<lambda>r. r_id r = i \<and> r_sort r \<noteq> k) (d_tasks d)),
      d\<lparr>d_tasks := map (\<lambda>r. if r_id r = i \<and> r_sort r \<noteq> k then r\<lparr>r_sort := k\<rparr> else r) (d_tasks d)\<rparr>)"

fun renumber :: "int \<Rightarrow> nat \<Rightarrow> int list \<Rightarrow> task_db \<Rightarrow> int list \<times> task_db" where
  "renumber i k [] d = ([], d)"
| "renumber i k (t # ts) d =
     (if t = i then renumber i (k + 1) ts d
      else
        (let (n, d') = write_sort t (int k) d;
             (moved, d'') = renumber i (k + 1) ts d' in
         (if n > 0 then t # moved else moved, d'')))"

definition place_task_tx :: "int \<Rightarrow> int option \<Rightarrow> placement \<Rightarrow> string \<Rightarrow> placed top" where
  "place_task_tx i dest place now =
     bind_op (get_live i) (\<lambda>item d.
       (let from_thread = t_thread item;
            from_place = from_place_of (list_ids d from_thread) i;
            list = filter (\<lambda>t. t \<noteq> i) (list_ids d dest) in
        bind_op (of_res (place_index list place)) (\<lambda>index d.
          (let (moved, d') = renumber i 0 (take index list @ i # drop index list) d;
               item' = item\<lparr>t_thread := dest, t_sort := int index, t_updated_at := now\<rparr> in
           bind_op (update_task_tx item') (\<lambda>n.
           bind_op (ensure_op (n \<noteq> 0) TeNotFound) (\<lambda>_.
             return_op \<lparr>pl_task = item', pl_from_thread = from_thread, pl_from_place = from_place,
                        pl_renumbered = moved\<rparr>)) d')) d))"

section \<open>Links and notes\<close>

definition create_link_tx :: "int \<Rightarrow> string \<Rightarrow> task_link_type \<Rightarrow> string \<Rightarrow> bool top" where
  "create_link_tx from to ty now d =
     (let k = d_link_seq d + 1; name = link_type_to_str ty in
      if \<exists>l \<in> set (d_links d). l_from l = from \<and> l_to l = to \<and> l_type l = name then (Inr False, d)
      else if from \<notin> set (map r_id (d_tasks d)) then (Inl TeConstraint, d)
      else if k > i64_max then (Inl TeStorage, d)
      else (Inr True,
        d\<lparr>d_links := d_links d @ [\<lparr>l_id = k, l_from = from, l_to = to, l_type = name, l_created_at = now\<rparr>],
          d_link_seq := k\<rparr>))"

definition delete_link_tx :: "int \<Rightarrow> string \<Rightarrow> task_link_type \<Rightarrow> bool top" where
  "delete_link_tx from to ty d =
     (let gone = (\<lambda>l. l_from l = from \<and> l_to l = to \<and> l_type l = link_type_to_str ty) in
      (Inr (length (filter gone (d_links d)) > 0), d\<lparr>d_links := filter (\<lambda>l. \<not> gone l) (d_links d)\<rparr>))"

definition add_task_note_tx :: "int \<Rightarrow> string \<Rightarrow> string \<Rightarrow> string \<Rightarrow> task_note top" where
  "add_task_note_tx item body author now d =
     (let k = d_note_seq d + 1;
          note = \<lparr>n_id = k, n_task = item, n_body = body, n_author = author, n_created_at = now\<rparr> in
      if k > i64_max then (Inl TeStorage, d)
      else if item \<notin> set (map r_id (d_tasks d)) then (Inl TeConstraint, d)
      else (Inr note, d\<lparr>d_notes := d_notes d @ [note], d_note_seq := k\<rparr>))"

definition list_for_item :: "int \<Rightarrow> task_db \<Rightarrow> task_note list" where
  "list_for_item item d = sort_key n_created_at (filter (\<lambda>n. n_task n = item) (d_notes d))"

section \<open>The store\<close>

text \<open>Each writes in one transaction: a failure leaves the tables as they were.\<close>

definition move_task :: "int \<Rightarrow> int option \<Rightarrow> string \<Rightarrow> task top" where
  "move_task i dest now =
     atomic_op (bind_op (get_live i) (\<lambda>item.
       if t_thread item = dest then return_op item
       else bind_op (place_task_tx i dest PlEnd now) (\<lambda>p. return_op (pl_task p))))"

definition store_set_status :: "int \<Rightarrow> task_status \<Rightarrow> string \<Rightarrow> status_change top" where
  "store_set_status i to now = atomic_op (set_status_tx i to now)"

definition update_with_status :: "task \<Rightarrow> task_status option \<Rightarrow> string \<Rightarrow> task top" where
  "update_with_status item status now = atomic_op (update_with_status_tx item status now)"

definition store_update :: "task \<Rightarrow> string \<Rightarrow> unit top" where
  "store_update item now = atomic_op (bind_op (update_with_status_tx item None now) (\<lambda>_. return_op ()))"

definition store_insert :: "task \<Rightarrow> int top" where
  "store_insert item = atomic_op (insert_task_tx item)"

definition store_soft_delete :: "int \<Rightarrow> string \<Rightarrow> unit top" where
  "store_soft_delete i now =
     atomic_op (\<lambda>d. case soft_delete_tx i now d of
                     (Inl TeNotFound, d') \<Rightarrow> (Inr (), d')
                   | r \<Rightarrow> r)"

definition store_get :: "int \<Rightarrow> task_db \<Rightarrow> task_error + task option" where
  "store_get i d =
     (case find_task (\<lambda>_. True) d i of
        None \<Rightarrow> Inr None
      | Some r \<Rightarrow> bind_res (row_to_task d r) (\<lambda>t. Inr (Some t)))"

section \<open>Records\<close>

text \<open>
  A task whole, a deleted one too; the rank is the index as a float, which for a list's indices is
  the same number.
\<close>

definition record_tx :: "int \<Rightarrow> task_db \<Rightarrow> task_error + work_item_record" where
  "record_tx i d =
     bind_res (ok_or (find_task (\<lambda>_. True) d i) TeNotFound) (\<lambda>r.
     bind_res (ok_or (str_to_status (r_status r)) TeInvalid) (\<lambda>status.
       (let (state, native_state) = state_pair status (r_completed_at r \<noteq> None) in
        Inr \<lparr>wr_uri = work_item_ref i, wr_title = r_title r, wr_body = r_description r,
             wr_state = state, wr_native_state = native_state,
             wr_native = JObj [(''priority'', JStr (r_priority r)),
                               (''author'', case r_author r of None \<Rightarrow> JNull | Some a \<Rightarrow> JStr a)],
             wr_parent_uri = map_option work_item_ref (r_parent r),
             wr_deleted = (r_deleted_at r \<noteq> None),
             wr_rank = Some (r_sort r),
             wr_links = Some (map (\<lambda>l. \<lparr>lr_target = l_to l, lr_type = l_type l\<rparr>)
               (sort_key (\<lambda>l. (l_created_at l, l_id l)) (filter (\<lambda>l. l_from l = i) (d_links d)))),
             wr_comments = Some (map (\<lambda>n. \<lparr>cr_id = typed_display Note (n_id n), cr_body = n_body n,
                 cr_author = Some (n_author n), cr_created_at = Some (n_created_at n)\<rparr>)
               (sort_key (\<lambda>n. (n_created_at n, n_id n)) (filter (\<lambda>n. n_task n = i) (d_notes d)))),
             wr_list = Some (case r_thread r of
                 None \<Rightarrow> Backlog | Some t \<Rightarrow> OnThread (typed_display Thread t))\<rparr>)))"

end
