(* ===== verification/Task_Verbs.thy ===== *)
theory Task_Verbs
  imports Task_Store Std_Text
begin

text \<open>
  What oxplow's task list answers the work-item verbs with: \<open>oxplow-tasks/src/verbs.rs\<close>, and running
  one of them in its transaction, \<open>provider.rs\<close>. A verb runs at one instant. Serde's reading of an
  input is not modelled: a call is a verb with its input read. The inverse a verb answers with is such
  a call too. The lemmas: what each verb writes, in terms of the tables.
\<close>

section \<open>Answers\<close>

record answer =
  an_result :: json
  an_inverse :: "verb_call option"
  an_changed :: "int list"

type_synonym 'a vop = "(task_db, verb_refusal, 'a) state_op"

definition uri_result :: "string \<Rightarrow> json" where
  "uri_result uri = JObj [(''uri'', JStr uri)]"

text \<open>\<open>DomainError::NotFound\<close> answered as the verb says; the rest as \<open>CommandError::from\<close> says.\<close>

definition or_not_found :: "verb_refusal \<Rightarrow> task_error \<Rightarrow> verb_refusal" where
  "or_not_found e x = (if x = TeNotFound then e else from_domain x)"

definition live_task_tx :: "int \<Rightarrow> string \<Rightarrow> task_db \<Rightarrow> verb_refusal + unit" where
  "live_task_tx task field d =
     (case find_task (\<lambda>_. True) d task of
        Some r \<Rightarrow> if live r then Inr () else Inl (invalid_at field)
      | None \<Rightarrow> Inl (invalid_at field))"

definition parse_thread :: "string \<Rightarrow> string \<Rightarrow> verb_refusal + int" where
  "parse_thread raw field =
     (case typed_from_str Thread raw of Inr t \<Rightarrow> Inr t | Inl _ \<Rightarrow> Inl (invalid_at field))"

definition optional :: "('a \<Rightarrow> 'e + 'b) \<Rightarrow> 'a option \<Rightarrow> 'e + 'b option" where
  "optional f x = (case x of None \<Rightarrow> Inr None | Some a \<Rightarrow> bind_res (f a) (\<lambda>b. Inr (Some b)))"

fun author_of_actor :: "actor \<Rightarrow> task_author option" where
  "author_of_actor AHuman = Some AuUser"
| "author_of_actor (AAgent session thread stream) = Some AuAgent"
| "author_of_actor (APage page on_behalf_of) = author_of_actor on_behalf_of"
| "author_of_actor (AComponent component on_behalf_of) = author_of_actor on_behalf_of"
| "author_of_actor _ = None"

text \<open>A job's source is a URI, whose builder panics on a bad key; the key of a job is a good one.\<close>

fun note_author :: "actor \<Rightarrow> string" where
  "note_author AHuman = ''user''"
| "note_author (AAgent session thread stream) = ''agent''"
| "note_author (APage page on_behalf_of) = note_author on_behalf_of"
| "note_author (AComponent component on_behalf_of) = note_author on_behalf_of"
| "note_author (AEffect effect thread stream) = effect_source effect"
| "note_author ASystem = ''oxplow''"
| "note_author (AJob job attempt fence thread stream) =
     (case source (AJob job attempt fence thread stream) of Some s \<Rightarrow> s | None \<Rightarrow> [])"

section \<open>Links\<close>

definition link_target_tx :: "string \<Rightarrow> task_db \<Rightarrow> verb_refusal + int option" where
  "link_target_tx target d =
     (case resource_of target of
        None \<Rightarrow> Inl (invalid_at ''/target'')
      | Some kind \<Rightarrow>
          if kind = WORK_ITEM then
            bind_res (task_ref target ''/target'') (\<lambda>to.
            bind_res (live_task_tx to ''/target'' d) (\<lambda>_. Inr (Some to)))
          else Inr None)"

definition link_type_of :: "string \<Rightarrow> verb_refusal + task_link_type" where
  "link_type_of raw = ok_or (named link_type_to_str LINK_TYPES raw) (invalid_at ''/link_type'')"

fun at_link :: "nat \<Rightarrow> verb_refusal \<Rightarrow> verb_refusal" where
  "at_link n (VrInvalid field) = VrInvalid (map_option (\<lambda>f. ''/links/'' @ show_nat n @ f) field)"
| "at_link n VrFailed = VrFailed"

definition create_links_one :: "int \<Rightarrow> nat \<Rightarrow> link_record \<Rightarrow> string \<Rightarrow> unit vop" where
  "create_links_one i n link now =
     bind_op (map_err_op (at_link n) (read_op (link_target_tx (lr_target link)))) (\<lambda>_.
     bind_op (map_err_op (at_link n) (of_res (link_type_of (lr_type link)))) (\<lambda>ty.
     bind_op (map_err_op from_domain (create_link_tx i (lr_target link) ty now)) (\<lambda>_. return_op ())))"

fun create_links :: "int \<Rightarrow> nat \<Rightarrow> link_record list \<Rightarrow> string \<Rightarrow> unit vop" where
  "create_links i n [] now = return_op ()"
| "create_links i n (link # links) now =
     bind_op (create_links_one i n link now) (\<lambda>_. create_links i (n + 1) links now)"

definition link_tx :: "link_input \<Rightarrow> string \<Rightarrow> answer vop" where
  "link_tx input now =
     bind_op (of_res (task_ref (li_uri input) ''/uri'')) (\<lambda>from.
     bind_op (read_op (live_task_tx from ''/uri'')) (\<lambda>_.
     bind_op (read_op (link_target_tx (li_target input))) (\<lambda>_.
     bind_op (of_res (link_type_of (li_link_type input))) (\<lambda>ty.
     bind_op (map_err_op from_domain (create_link_tx from (li_target input) ty now)) (\<lambda>added.
       return_op \<lparr>an_result = JObj [(''uri'', JStr (li_uri input)), (''linked'', JBool added)],
                  an_inverse = (if added then Some (VUnlink input) else None),
                  an_changed = [from]\<rparr>)))))"

definition unlink_tx :: "link_input \<Rightarrow> answer vop" where
  "unlink_tx input =
     bind_op (of_res (task_ref (li_uri input) ''/uri'')) (\<lambda>from.
     bind_op (of_res (link_type_of (li_link_type input))) (\<lambda>ty.
     bind_op (map_err_op from_domain (delete_link_tx from (li_target input) ty)) (\<lambda>removed.
       return_op \<lparr>an_result = JObj [(''uri'', JStr (li_uri input)), (''unlinked'', JBool removed)],
                  an_inverse = (if removed then Some (VLink input) else None),
                  an_changed = [from]\<rparr>)))"

section \<open>Creating and editing\<close>

definition filed_completed :: "task_status \<Rightarrow> canonical_state option \<Rightarrow> bool" where
  "filed_completed status asked \<longleftrightarrow> status = TsDone \<or> status = TsArchived \<and> asked = Some CsDone"

definition create_tx :: "actor \<Rightarrow> create_input \<Rightarrow> string \<Rightarrow> answer vop" where
  "create_tx actor input now =
     bind_op (of_res (optional (\<lambda>r. task_ref r ''/parent_uri'') (ci_parent_uri input))) (\<lambda>new_parent.
     bind_op (of_res (oxplow_native (ci_native input))) (\<lambda>priority.
     bind_op (of_res (optional (\<lambda>raw. parse_thread raw ''/thread'') (ci_thread input))) (\<lambda>thread.
     bind_op (of_res (oxplow_status (ci_state input) (ci_native_state input))) (\<lambda>asked.
     bind_op (map_err_op from_domain (read_op (next_sort_index_tx thread))) (\<lambda>sort.
       (let status = (case asked of Some s \<Rightarrow> s | None \<Rightarrow> TsReady);
            item = \<lparr>t_id = PLACEHOLDER, t_thread = thread, t_parent = new_parent, t_title = ci_title input,
              t_description = (case ci_body input of Some b \<Rightarrow> b | None \<Rightarrow> []),
              t_status = status,
              t_priority = (case priority of Some p \<Rightarrow> p | None \<Rightarrow> PrMedium),
              t_sort = sort, t_created_by = CbUser, t_created_at = now, t_updated_at = now,
              t_completed_at = (if filed_completed status (ci_state input) then Some now else None),
              t_deleted_at = None, t_note_count = 0, t_author = author_of_actor actor\<rparr> in
        bind_op (map_err_op from_domain (insert_task_tx item)) (\<lambda>i.
        bind_op (create_links i 0 (ci_links input) now) (\<lambda>_.
          return_op \<lparr>an_result = uri_result (work_item_ref i), an_inverse = None, an_changed = [i]\<rparr>))))))))"

definition set_status_through ::
  "task \<Rightarrow> task_status \<Rightarrow> canonical_state option \<Rightarrow> string \<Rightarrow> status_change vop" where
  "set_status_through task to asked now =
     (let set = (\<lambda>status. map_err_op (or_not_found VrFailed) (set_status_tx (t_id task) status now));
          through = (if to = TsArchived
                     then Option.bind (map_option native_status asked)
                       (\<lambda>s. if (t_completed_at task \<noteq> None) \<noteq> (s = TsDone) then Some s else None)
                     else None) in
      bind_op (case through of
                 Some status \<Rightarrow> bind_op (set status) (\<lambda>ch. return_op (Some (sc_before ch)))
               | None \<Rightarrow> return_op None) (\<lambda>before.
      bind_op (set to) (\<lambda>change.
        return_op (case before of Some b \<Rightarrow> change\<lparr>sc_before := b\<rparr> | None \<Rightarrow> change))))"

definition parent_of_input :: "string option \<Rightarrow> verb_refusal + int option option" where
  "parent_of_input uri =
     (case uri of
        None \<Rightarrow> Inr None
      | Some r \<Rightarrow>
          if r = [] then Inr (Some None)
          else bind_res (task_ref r ''/parent_uri'') (\<lambda>p. Inr (Some (Some p))))"

definition edited :: "update_input \<Rightarrow> int option option \<Rightarrow> task_priority option \<Rightarrow> string \<Rightarrow> task \<Rightarrow> task" where
  "edited input new_parent priority now before =
     before
     \<lparr>t_title := (case ui_title input of Some t \<Rightarrow> t | None \<Rightarrow> t_title before),
      t_description := (case ui_body input of Some b \<Rightarrow> b | None \<Rightarrow> t_description before),
      t_priority := (case priority of Some p \<Rightarrow> p | None \<Rightarrow> t_priority before),
      t_parent := (case new_parent of Some p \<Rightarrow> p | None \<Rightarrow> t_parent before),
      t_updated_at := now\<rparr>"

definition update_inverse :: "update_input \<Rightarrow> task_priority option \<Rightarrow> task \<Rightarrow> update_input" where
  "update_inverse input priority before =
     (let moved = (ui_state input \<noteq> None \<or> ui_native_state input \<noteq> None) in
      \<lparr>ui_uri = ui_uri input,
       ui_title = map_option (\<lambda>_. t_title before) (ui_title input),
       ui_body = map_option (\<lambda>_. t_description before) (ui_body input),
       ui_parent_uri = map_option
         (\<lambda>_. case t_parent before of Some p \<Rightarrow> work_item_ref p | None \<Rightarrow> []) (ui_parent_uri input),
       ui_state = (if moved then Some (canonical_of before) else None),
       ui_native_state = (if moved then Some (status_to_str (t_status before)) else None),
       ui_native = map_option (\<lambda>_. native_of (t_priority before)) priority\<rparr>)"

definition update_tx :: "update_input \<Rightarrow> string \<Rightarrow> answer vop" where
  "update_tx input now =
     bind_op (of_res (task_ref (ui_uri input) ''/uri'')) (\<lambda>i.
     bind_op (of_res (parent_of_input (ui_parent_uri input))) (\<lambda>new_parent.
     bind_op (of_res (oxplow_native (ui_native input))) (\<lambda>priority.
     bind_op (of_res (oxplow_status (ui_state input) (ui_native_state input))) (\<lambda>status.
     bind_op (map_err_op (or_not_found VrFailed) (get_live i)) (\<lambda>before.
     bind_op (map_err_op (or_not_found VrFailed)
               (update_with_status_tx (edited input new_parent priority now before) None now)) (\<lambda>after_fields.
     bind_op (case status of
                None \<Rightarrow> return_op ()
              | Some to \<Rightarrow>
                  bind_op (set_status_through after_fields to (ui_state input) now) (\<lambda>_. return_op ())) (\<lambda>_.
       return_op \<lparr>an_result = uri_result (ui_uri input),
                  an_inverse = Some (VUpdate (update_inverse input priority before)),
                  an_changed = [i]\<rparr>)))))))"

definition transition_tx :: "string \<Rightarrow> canonical_state \<Rightarrow> string option \<Rightarrow> string \<Rightarrow> answer vop" where
  "transition_tx uri to native_state now =
     bind_op (of_res (task_ref uri ''/uri'')) (\<lambda>i.
     bind_op (of_res (oxplow_status (Some to) native_state)) (\<lambda>status.
     bind_op (of_res (ok_or status (invalid_at ''/to''))) (\<lambda>status.
     bind_op (map_err_op (or_not_found VrFailed) (get_live i)) (\<lambda>task.
     bind_op (set_status_through task status (Some to) now) (\<lambda>change.
       return_op \<lparr>an_result = uri_result uri,
                  an_inverse = Some (VTransition uri (canonical_of (sc_before change))
                    (Some (status_to_str (t_status (sc_before change))))),
                  an_changed = [i]\<rparr>)))))"

definition comment_tx :: "actor \<Rightarrow> string \<Rightarrow> string \<Rightarrow> string \<Rightarrow> answer vop" where
  "comment_tx actor uri body now =
     bind_op (of_res (task_ref uri ''/uri'')) (\<lambda>task.
     bind_op (read_op (live_task_tx task ''/uri'')) (\<lambda>_.
     bind_op (ensure_op (trim body \<noteq> []) (invalid_at ''/body'')) (\<lambda>_.
     bind_op (map_err_op from_domain (add_task_note_tx task body (note_author actor) now)) (\<lambda>note.
       return_op \<lparr>an_result = JObj [(''uri'', JStr uri), (''comment'', JStr (typed_display Note (n_id note)))],
                  an_inverse = None, an_changed = [task]\<rparr>))))"

definition delete_tx :: "string \<Rightarrow> string \<Rightarrow> answer vop" where
  "delete_tx uri now =
     bind_op (of_res (task_ref uri ''/uri'')) (\<lambda>i.
     bind_op (map_err_op (or_not_found (invalid_at ''/uri'')) (soft_delete_tx i now)) (\<lambda>_.
       return_op \<lparr>an_result = uri_result uri, an_inverse = None, an_changed = [i]\<rparr>))"

section \<open>Places\<close>

definition placement_of :: "string option \<Rightarrow> string option \<Rightarrow> verb_refusal + placement" where
  "placement_of before after =
     (case (before, after) of
        (Some _, Some _) \<Rightarrow> Inl (invalid_at ''/after'')
      | (Some b, None) \<Rightarrow> bind_res (task_ref b ''/before'') (\<lambda>t. Inr (PlBefore t))
      | (None, Some a) \<Rightarrow> bind_res (task_ref a ''/after'') (\<lambda>t. Inr (PlAfter t))
      | (None, None) \<Rightarrow> Inr PlEnd)"

definition neighbour :: "placement \<Rightarrow> string option \<times> string option" where
  "neighbour place =
     (case place of
        PlEnd \<Rightarrow> (None, None)
      | PlBefore t \<Rightarrow> (Some (work_item_ref t), None)
      | PlAfter t \<Rightarrow> (None, Some (work_item_ref t)))"

definition move_dest :: "work_list \<Rightarrow> verb_refusal + int option" where
  "move_dest to =
     (case to of
        Backlog \<Rightarrow> Inr None
      | OnThread raw \<Rightarrow> bind_res (parse_thread raw ''/to/thread'') (\<lambda>t. Inr (Some t)))"

definition move_to :: "int option \<Rightarrow> work_list" where
  "move_to thread = (case thread of None \<Rightarrow> Backlog | Some t \<Rightarrow> OnThread (typed_display Thread t))"

text \<open>A missing task is at fault as the item, a place that is not in the list as nothing named.\<close>

definition place :: "int \<Rightarrow> int option \<Rightarrow> placement \<Rightarrow> string \<Rightarrow> placed vop" where
  "place i dest at now =
     bind_op (read_op (\<lambda>d. case dest of
                None \<Rightarrow> Inr ()
              | Some t \<Rightarrow> ensure (t \<in> set (d_threads d)) (invalid_at ''/to''))) (\<lambda>_.
     map_err_op (or_not_found (invalid_at ''/uri'')) (place_task_tx i dest at now))"

definition reorder_tx :: "string \<Rightarrow> string option \<Rightarrow> string option \<Rightarrow> string \<Rightarrow> answer vop" where
  "reorder_tx uri before after now =
     bind_op (of_res (task_ref uri ''/uri'')) (\<lambda>i.
     bind_op (of_res (placement_of before after)) (\<lambda>at.
     bind_op (map_err_op from_domain (read_op (get_task_tx i))) (\<lambda>found.
     bind_op (of_res (ok_or found (invalid_at ''/uri''))) (\<lambda>task.
     bind_op (place i (t_thread task) at now) (\<lambda>p.
       return_op \<lparr>an_result = uri_result uri,
                  an_inverse = Some (VReorder uri (fst (neighbour (pl_from_place p)))
                                       (snd (neighbour (pl_from_place p)))),
                  an_changed = i # pl_renumbered p\<rparr>)))))"

definition move_tx ::
  "string \<Rightarrow> work_list \<Rightarrow> string option \<Rightarrow> string option \<Rightarrow> string \<Rightarrow> answer vop" where
  "move_tx uri to before after now =
     bind_op (of_res (task_ref uri ''/uri'')) (\<lambda>i.
     bind_op (of_res (placement_of before after)) (\<lambda>at.
     bind_op (of_res (move_dest to)) (\<lambda>dest.
     bind_op (place i dest at now) (\<lambda>p.
       return_op \<lparr>an_result = uri_result uri,
                  an_inverse = Some (VMove uri (move_to (pl_from_thread p))
                                       (fst (neighbour (pl_from_place p)))
                                       (snd (neighbour (pl_from_place p)))),
                  an_changed = i # pl_renumbered p\<rparr>))))"

section \<open>Running a verb\<close>

fun verb_tx :: "actor \<Rightarrow> verb_call \<Rightarrow> string \<Rightarrow> answer vop" where
  "verb_tx actor (VCreate input) now = create_tx actor input now"
| "verb_tx actor (VUpdate input) now = update_tx input now"
| "verb_tx actor (VTransition uri to native_state) now = transition_tx uri to native_state now"
| "verb_tx actor (VLink input) now = link_tx input now"
| "verb_tx actor (VUnlink input) now = unlink_tx input"
| "verb_tx actor (VComment uri body) now = comment_tx actor uri body now"
| "verb_tx actor (VDelete uri) now = delete_tx uri now"
| "verb_tx actor (VReorder uri before after) now = reorder_tx uri before after now"
| "verb_tx actor (VMove uri to before after) now = move_tx uri to before after now"

fun read_records :: "int list \<Rightarrow> task_db \<Rightarrow> task_error + work_item_record list" where
  "read_records [] d = Inr []"
| "read_records (i # is) d =
     bind_res (record_tx i d) (\<lambda>r. bind_res (read_records is d) (\<lambda>rs. Inr (r # rs)))"

definition run_tx :: "actor \<Rightarrow> verb_call \<Rightarrow> string \<Rightarrow> (answer \<times> work_item_record list) vop" where
  "run_tx actor call now =
     bind_op (verb_tx actor call now) (\<lambda>answer.
     bind_op (map_err_op from_domain (read_op (read_records (an_changed answer)))) (\<lambda>records.
       return_op (answer, records)))"

text \<open>
  The records become the events of the outcome, each \<open>work_item.recorded\<close> with the item as its
  subject; a refusal rolls the transaction back and is answered as it was.
\<close>

definition invoke :: "actor \<Rightarrow> verb_call \<Rightarrow> string \<Rightarrow> (answer \<times> work_item_record list) vop" where
  "invoke actor call now = atomic_op (run_tx actor call now)"

end
