(* ===== verification/Task_Inv.thy ===== *)
theory Task_Inv
  imports Task_Verbs
begin

text \<open>
  What the task tables keep to, and what each operation does to them: a statement on a live task
  rewrites its one row, placing a task is the insertion it asks for, and every verb keeps the tables
  sound.
\<close>

section \<open>Sound tables\<close>

definition completion_ok :: "task_row \<Rightarrow> bool" where
  "completion_ok r \<longleftrightarrow>
     (r_status r = ''done'' \<longrightarrow> r_completed_at r \<noteq> None)
     \<and> (r_status r \<noteq> ''done'' \<and> r_status r \<noteq> ''archived'' \<longrightarrow> r_completed_at r = None)"

definition row_ok :: "int set \<Rightarrow> int set \<Rightarrow> task_row \<Rightarrow> bool" where
  "row_ok threads ids r \<longleftrightarrow>
     row_checks r \<and> completion_ok r
     \<and> (\<forall>t. r_thread r = Some t \<longrightarrow> t \<in> threads) \<and> (\<forall>p. r_parent r = Some p \<longrightarrow> p \<in> ids)"

abbreviation ids_of :: "task_db \<Rightarrow> int list" where
  "ids_of d \<equiv> map r_id (d_tasks d)"

definition sound :: "task_db \<Rightarrow> bool" where
  "sound d \<longleftrightarrow>
     distinct (ids_of d) \<and> (\<forall>i \<in> set (ids_of d). 0 < i \<and> i \<le> d_task_seq d)
     \<and> 0 \<le> d_task_seq d \<and> d_task_seq d \<le> i64_max
     \<and> (\<forall>t \<in> set (d_threads d). 0 < t \<and> t \<le> i64_max)
     \<and> (\<forall>r \<in> set (d_tasks d). row_ok (set (d_threads d)) (set (ids_of d)) r)
     \<and> (\<forall>l \<in> set (d_links d). l_from l \<in> set (ids_of d))
     \<and> (\<forall>n \<in> set (d_notes d). n_task n \<in> set (ids_of d))"

text \<open>One row rewritten.\<close>

definition row_set :: "int \<Rightarrow> (task_row \<Rightarrow> task_row) \<Rightarrow> task_db \<Rightarrow> task_db" where
  "row_set i f d = d\<lparr>d_tasks := map (\<lambda>r. if r_id r = i then f r else r) (d_tasks d)\<rparr>"

lemma row_set_simps [simp]:
  "d_links (row_set i f d) = d_links d" "d_notes (row_set i f d) = d_notes d"
  "d_threads (row_set i f d) = d_threads d" "d_task_seq (row_set i f d) = d_task_seq d"
  "d_link_seq (row_set i f d) = d_link_seq d" "d_note_seq (row_set i f d) = d_note_seq d"
  "d_tasks (row_set i f d) = map (\<lambda>r. if r_id r = i then f r else r) (d_tasks d)"
  by (simp_all add: row_set_def)

definition keeps_id :: "(task_row \<Rightarrow> task_row) \<Rightarrow> bool" where
  "keeps_id f \<longleftrightarrow> (\<forall>r. r_id (f r) = r_id r)"

lemma ids_row_set [simp]: "keeps_id f \<Longrightarrow> ids_of (row_set i f d) = ids_of d"
  by (auto simp: keeps_id_def)

lemma sound_row_set:
  assumes "sound d" "keeps_id f"
    and "\<And>r. r \<in> set (d_tasks d) \<Longrightarrow> r_id r = i \<Longrightarrow> row_ok (set (d_threads d)) (set (ids_of d)) r
      \<Longrightarrow> row_ok (set (d_threads d)) (set (ids_of d)) (f r)"
  shows "sound (row_set i f d)"
proof -
  have "\<forall>r \<in> set (d_tasks (row_set i f d)). row_ok (set (d_threads d)) (set (ids_of d)) r"
    using assms by (auto simp: sound_def)
  then show ?thesis using assms(1) ids_row_set [OF assms(2), of i d] by (simp only: sound_def) simp
qed

lemma find_task_Some:
  "find_task P d i = Some r \<Longrightarrow> r \<in> set (d_tasks d) \<and> r_id r = i \<and> P r"
  by (auto simp: find_task_def find_Some_iff)

lemma find_task_iff:
  assumes "distinct (ids_of d)"
  shows "find_task P d i = Some r \<longleftrightarrow> r \<in> set (d_tasks d) \<and> r_id r = i \<and> P r"
proof
  assume r: "r \<in> set (d_tasks d) \<and> r_id r = i \<and> P r"
  obtain s where "find_task P d i = Some s"
    using r by (cases "find_task P d i") (auto simp: find_task_def find_None_iff)
  with r find_task_Some [OF this] assms show "find_task P d i = Some r"
    by (metis distinct_map inj_onD)
qed (rule find_task_Some)

lemma find_task_None: "find_task P d i = None \<longleftrightarrow> (\<forall>r \<in> set (d_tasks d). r_id r = i \<longrightarrow> \<not> P r)"
  by (auto simp: find_task_def find_None_iff)

lemma filter_one:
  assumes "distinct (map g xs)" "x \<in> set xs" "g x = i" "P x"
  shows "filter (\<lambda>y. g y = i \<and> P y) xs = [x]"
  using assms by (induction xs) (auto simp: filter_empty_conv, metis imageI)

lemma update_row_live:
  assumes "distinct (ids_of d)" "find_task live d i = Some r"
  shows "update_row i f d = (1, row_set i f d)"
proof -
  have r: "r \<in> set (d_tasks d)" "r_id r = i" "live r" using find_task_Some [OF assms(2)] by auto
  have "live s" if "s \<in> set (d_tasks d)" "r_id s = i" for s
    using that r assms(1) by (metis distinct_map inj_onD)
  then show ?thesis
    using filter_one [of r_id "d_tasks d" r i live] assms(1) r
    by (simp add: update_row_def row_set_def cong: map_cong)
qed

lemma update_row_gone: "find_task live d i = None \<Longrightarrow> update_row i f d = (0, d)"
  by (auto simp: update_row_def find_task_None filter_empty_conv intro!: task_db.equality map_idI)

text \<open>Rows a sound table holds are tasks.\<close>

definition task_of_row :: "task_db \<Rightarrow> task_row \<Rightarrow> task" where
  "task_of_row d r =
     \<lparr>t_id = r_id r, t_thread = r_thread r, t_parent = r_parent r, t_title = r_title r,
      t_description = r_description r, t_status = the (str_to_status (r_status r)),
      t_priority = the (str_to_priority (r_priority r)), t_sort = r_sort r,
      t_created_by = the (str_to_actor (r_created_by r)), t_created_at = r_created_at r,
      t_updated_at = r_updated_at r, t_completed_at = r_completed_at r,
      t_deleted_at = r_deleted_at r, t_note_count = note_count d (r_id r),
      t_author = Option.bind (r_author r) str_to_author\<rparr>"

lemma row_to_task_ok: "row_checks r \<Longrightarrow> row_to_task d r = Inr (task_of_row d r)"
  by (auto simp: row_checks_def row_to_task_def task_of_row_def)

lemma row_to_task_Inr: "row_to_task d r = Inr t \<Longrightarrow> t = task_of_row d r"
  by (auto simp: row_to_task_def task_of_row_def split: option.splits)

lemma named_Some: "named name values s = Some v \<Longrightarrow> name v = s"
  by (auto simp: named_def find_Some_iff)

lemma names_back:
  "str_to_status s = Some a \<Longrightarrow> status_to_str a = s"
  "str_to_priority s = Some b \<Longrightarrow> priority_to_str b = s"
  "str_to_author s = Some c \<Longrightarrow> author_to_str c = s"
  "str_to_actor s = Some e \<Longrightarrow> actor_to_str e = s"
  by (auto simp: str_to_status_def str_to_priority_def str_to_author_def str_to_actor_def dest: named_Some)

lemma get_live_Inr:
  "get_live i d = (Inr t, d') \<longleftrightarrow>
     d' = d \<and> (\<exists>r. find_task live d i = Some r \<and> row_to_task d r = Inr t)"
  by (auto simp: get_live_def get_task_tx_def bind_op_Inr ok_or_iff result_simps split: option.splits)

lemma get_live_found:
  assumes "sound d" "find_task live d i = Some r"
  shows "get_live i d = (Inr (task_of_row d r), d)"
  using assms find_task_Some [OF assms(2)] row_to_task_ok [of r d]
  by (auto simp: get_live_Inr sound_def row_ok_def)

lemma get_live_gone: "find_task live d i = None \<Longrightarrow> get_live i d = (Inl TeNotFound, d)"
  by (simp add: get_live_def get_task_tx_def of_res_def)

section \<open>Statuses\<close>

definition status_row :: "task \<Rightarrow> task_row \<Rightarrow> task_row" where
  "status_row t r =
     r\<lparr>r_status := status_to_str (t_status t), r_completed_at := t_completed_at t,
       r_updated_at := t_updated_at t\<rparr>"

lemma keeps_id_rows [simp]:
  "keeps_id (status_row t)" "keeps_id (write_fields t)" "keeps_id (r_sort_update g)"
  "keeps_id (\<lambda>r. r\<lparr>r_deleted_at := a, r_updated_at := b\<rparr>)"
  by (simp_all add: keeps_id_def status_row_def write_fields_def)

lemma set_status_simps [simp]:
  "t_id (set_status to now t) = t_id t" "t_status (set_status to now t) = to"
  by (simp_all add: set_status_def)

lemma set_status_tx_live:
  assumes "sound d" "find_task live d i = Some r"
  shows "set_status_tx i to now d =
    (Inr \<lparr>sc_before = task_of_row d r, sc_after = set_status to now (task_of_row d r)\<rparr>,
     row_set i (status_row (set_status to now (task_of_row d r))) d)"
proof -
  have i: "t_id (task_of_row d r) = i" using find_task_Some [OF assms(2)] by (simp add: task_of_row_def)
  have f: "status_row t = (\<lambda>r. r\<lparr>r_status := status_to_str (t_status t), r_completed_at := t_completed_at t,
      r_updated_at := t_updated_at t\<rparr>)" for t
    by (simp add: status_row_def [abs_def])
  have "write_status_tx (set_status to now (task_of_row d r)) d
      = (Inr (), row_set i (status_row (set_status to now (task_of_row d r))) d)"
    using update_row_live [OF _ assms(2)] assms(1) i by (simp add: write_status_tx_def f sound_def)
  with get_live_found [OF assms] show ?thesis
    by (simp add: set_status_tx_def bind_op_step [of "get_live i"] Let_def)
      (simp add: bind_op_def return_op_def)
qed

lemma set_status_tx_gone: "find_task live d i = None \<Longrightarrow> set_status_tx i to now d = (Inl TeNotFound, d)"
  by (simp add: set_status_tx_def bind_op_fails [OF get_live_gone])

lemma set_status_tx_Inr:
  assumes "sound d" "set_status_tx i to now d = (Inr ch, d')"
  obtains r where "find_task live d i = Some r"
    "ch = \<lparr>sc_before = task_of_row d r, sc_after = set_status to now (task_of_row d r)\<rparr>"
    "d' = row_set i (status_row (set_status to now (task_of_row d r))) d"
proof (cases "find_task live d i")
  case None
  with set_status_tx_gone [OF None] assms(2) show ?thesis by simp
next
  case (Some r)
  with set_status_tx_live [OF assms(1) Some] assms(2) show ?thesis by (auto intro: that)
qed

lemma status_done_text: "status_to_str s = ''done'' \<longleftrightarrow> s = TsDone" "status_to_str s = ''archived'' \<longleftrightarrow> s = TsArchived"
  by (cases s; simp)+

lemma completion_set_status:
  assumes "row_ok T I r"
  shows "completion_ok (status_row (set_status to now (task_of_row d r)) r)"
proof -
  obtain s where s: "r_status r = status_to_str s"
    using assms by (auto simp: row_ok_def row_checks_def dest: names_back(1) [THEN sym])
  with assms have "completion_ok r" by (simp add: row_ok_def)
  with s show ?thesis
    by (auto simp: completion_ok_def status_row_def set_status_def task_of_row_def status_done_text)
qed

lemma row_ok_status:
  assumes "row_ok T I r"
  shows "row_ok T I (status_row (set_status to now (task_of_row d r)) r)"
  using assms completion_set_status [OF assms, of to now d]
  by (auto simp: row_ok_def row_checks_def status_row_def)

lemma same_task_row: "sound d \<Longrightarrow> r \<in> set (d_tasks d) \<Longrightarrow> s \<in> set (d_tasks d) \<Longrightarrow> r_id r = r_id s \<Longrightarrow> r = s"
  by (metis sound_def distinct_map inj_onD)

lemma sound_set_status:
  assumes "sound d" "set_status_tx i to now d = (Inr ch, d')"
  shows "sound d'"
proof -
  obtain r where r: "find_task live d i = Some r"
    "d' = row_set i (status_row (set_status to now (task_of_row d r))) d"
    using assms by (elim set_status_tx_Inr)
  have "sound (row_set i (status_row (set_status to now (task_of_row d r))) d)"
    by (rule sound_row_set [OF assms(1)])
      (use find_task_Some [OF r(1)] same_task_row [OF assms(1)] in \<open>auto intro: row_ok_status\<close>)
  with r(2) show ?thesis by simp
qed

section \<open>Fields\<close>

lemma update_task_tx_live:
  assumes "sound d" "find_task live d (t_id item) = Some r"
    and "refs_ok d (ids_of d) (t_thread item) (t_parent item)"
  shows "update_task_tx item d = (Inr 1, row_set (t_id item) (write_fields item) d)"
  using assms update_row_live [OF _ assms(2)] by (simp add: update_task_tx_def sound_def)

lemma update_task_tx_gone: "find_task live d (t_id item) = None \<Longrightarrow> update_task_tx item d = (Inr 0, d)"
  by (simp add: update_task_tx_def update_row_gone)

lemma update_task_tx_Inr:
  assumes "sound d" "update_task_tx item d = (Inr n, d')" "n \<noteq> 0"
  obtains r where "find_task live d (t_id item) = Some r"
    "refs_ok d (ids_of d) (t_thread item) (t_parent item)"
    "d' = row_set (t_id item) (write_fields item) d"
proof (cases "find_task live d (t_id item)")
  case None
  with update_task_tx_gone [OF None] assms show ?thesis by simp
next
  case (Some r)
  with assms update_row_live [OF _ Some] show ?thesis
    by (auto simp: update_task_tx_def sound_def split: if_splits intro: that)
qed

lemma row_ok_fields:
  assumes "row_ok (set (d_threads d)) (set (ids_of d)) r" "refs_ok d (ids_of d) (t_thread item) (t_parent item)"
  shows "row_ok (set (d_threads d)) (set (ids_of d)) (write_fields item r)"
  using assms
  by (auto simp: row_ok_def row_checks_def completion_ok_def write_fields_def refs_ok_def split: option.splits)

lemma sound_update_task:
  assumes "sound d" "update_task_tx item d = (Inr n, d')" "n \<noteq> 0"
  shows "sound d'"
proof -
  obtain r where r: "refs_ok d (ids_of d) (t_thread item) (t_parent item)"
    "d' = row_set (t_id item) (write_fields item) d"
    using assms by (elim update_task_tx_Inr)
  have "sound (row_set (t_id item) (write_fields item) d)"
    by (rule sound_row_set [OF assms(1)]) (use r in \<open>auto intro: row_ok_fields [unfolded set_map]\<close>)
  with r(2) show ?thesis by simp
qed

section \<open>Orders\<close>

lemma sort_key_unique:
  assumes "distinct (map r_id xs)" "distinct L" "set L = r_id ` set xs"
    and "\<And>r. r \<in> set xs \<Longrightarrow> \<exists>k < length L. L ! k = r_id r \<and> r_sort r = int k"
  shows "map r_id (sort_key (\<lambda>r. (r_sort r, r_created_at r)) xs) = L"
proof -
  let ?f = "\<lambda>r. (r_sort r, r_created_at r)" and ?ys = "sort_key (\<lambda>r. (r_sort r, r_created_at r)) xs"
  have len: "length L = length xs"
    using assms(1-3) by (metis distinct_card length_map set_map)
  have at: "r_sort (?ys ! k) = int k" if "k < length xs" for k
  proof -
    have srt: "sorted (map r_sort ?ys)"
    proof -
      have "sorted (map ?f ?ys)" by simp
      then show ?thesis by (fastforce simp: sorted_iff_nth_mono less_eq_prod_def)
    qed
    have rng: "r_sort ` set xs = int ` {..<length xs}"
    proof
      show "r_sort ` set xs \<subseteq> int ` {..<length xs}" using assms(4) len by fastforce
      show "int ` {..<length xs} \<subseteq> r_sort ` set xs"
      proof
        fix z assume "z \<in> int ` {..<length xs}"
        then obtain j where j: "z = int j" "j < length L" using len by auto
        then have "L ! j \<in> r_id ` set xs" using assms(3) by (metis nth_mem)
        then obtain r where r: "r \<in> set xs" "r_id r = L ! j" by auto
        obtain k where "k < length L" "L ! k = r_id r" "r_sort r = int k" using assms(4) [OF r(1)] by auto
        with r j assms(2) have "r_sort r = int j" by (simp add: nth_eq_iff_index_eq)
        with j r show "z \<in> r_sort ` set xs" by (metis imageI)
      qed
    qed
    have d: "distinct (map r_sort ?ys)"
    proof (rule card_distinct)
      have "set (map r_sort ?ys) = int ` {..<length xs}" using rng by simp
      then show "card (set (map r_sort ?ys)) = length (map r_sort ?ys)" by (simp add: card_image)
    qed
    have "map r_sort ?ys = map int [0..<length xs]"
      by (rule sorted_distinct_set_unique [OF srt d])
        (use rng in \<open>auto simp: sorted_map distinct_map atLeast0LessThan sorted_wrt_map\<close>)
    then have "map r_sort ?ys ! k = map int [0..<length xs] ! k" by simp
    with that show ?thesis by simp
  qed
  show ?thesis
  proof (rule nth_equalityI)
    show "length (map r_id ?ys) = length L" using len by simp
    fix k assume k: "k < length (map r_id ?ys)"
    then have "?ys ! k \<in> set xs" by (metis length_map nth_mem set_sort)
    then obtain j where "j < length L" "L ! j = r_id (?ys ! k)" "r_sort (?ys ! k) = int j"
      using assms(4) by blast
    with at [of k] k show "map r_id ?ys ! k = L ! k" by simp
  qed
qed

lemma index_of_Some: "index_of x xs = Some k \<longleftrightarrow> k < length xs \<and> xs ! k = x \<and> (\<forall>j < k. xs ! j \<noteq> x)"
  by (auto simp: index_of_def find_Some_iff)

lemma index_of_None: "index_of x xs = None \<longleftrightarrow> x \<notin> set xs"
  by (auto simp: index_of_def find_None_iff in_set_conv_nth)

lemma index_of_distinct:
  "distinct xs \<Longrightarrow> index_of x xs = Some k \<longleftrightarrow> k < length xs \<and> xs ! k = x"
  by (auto simp: index_of_Some nth_eq_iff_index_eq)

text \<open>Every row of the list gets its index, but the one being placed.\<close>

definition numbered :: "int \<Rightarrow> nat \<Rightarrow> int list \<Rightarrow> task_row \<Rightarrow> task_row" where
  "numbered i k ks r =
     (if r_id r = i then r
      else case index_of (r_id r) ks of Some j \<Rightarrow> r\<lparr>r_sort := int (k + j)\<rparr> | None \<Rightarrow> r)"

lemma write_sort_row_set: "snd (write_sort t k d) = row_set t (r_sort_update (\<lambda>_. k)) d"
  by (auto simp: write_sort_def row_set_def intro!: task_db.equality map_cong)

lemma index_of_Cons:
  "index_of x (y # ys) = (if x = y then Some 0 else map_option Suc (index_of x ys))"
proof (cases "x \<in> set (y # ys)")
  case True
  show ?thesis
  proof (cases "index_of x ys")
    case None
    with True show ?thesis by (auto simp: index_of_Some index_of_None nth_Cons')
  next
    case (Some j)
    then have "x \<noteq> y \<Longrightarrow> index_of x (y # ys) = Some (Suc j)" "x = y \<Longrightarrow> index_of x (y # ys) = Some 0"
      unfolding index_of_Some by (auto simp: less_Suc_eq_0_disj)
    with Some show ?thesis by simp
  qed
next
  case False
  then have "index_of x (y # ys) = None" "index_of x ys = None" by (simp_all add: index_of_None)
  with False show ?thesis by simp
qed

lemma renumber_tasks:
  assumes "distinct ks"
  shows "snd (renumber i k ks d) = d\<lparr>d_tasks := map (numbered i k ks) (d_tasks d)\<rparr>"
  using assms
proof (induction ks arbitrary: k d)
  case Nil
  show ?case
    by (simp add: numbered_def index_of_def map_idI)
next
  case (Cons t ts)
  have skip: "numbered i k (t # ts) = numbered i (Suc k) ts" if "t = i"
    using that by (intro ext) (auto simp: numbered_def index_of_Cons split: option.splits)
  show ?case
  proof (cases "t = i")
    case True
    with Cons skip [OF True] show ?thesis by simp
  next
    case False
    let ?d = "snd (write_sort t (int k) d)"
    have step: "numbered i (Suc k) ts (if r_id r = t then r\<lparr>r_sort := int k\<rparr> else r)
        = numbered i k (t # ts) r" for r
      using False Cons.prems by (auto simp: numbered_def index_of_Cons index_of_None [THEN iffD2] split: option.splits)
    have "snd (renumber i k (t # ts) d) = snd (renumber i (Suc k) ts ?d)"
      using False by (simp add: Let_def split: prod.splits)
    also have "\<dots> = ?d\<lparr>d_tasks := map (numbered i (Suc k) ts) (d_tasks ?d)\<rparr>"
      using Cons by simp
    also have "\<dots> = d\<lparr>d_tasks := map (numbered i k (t # ts)) (d_tasks d)\<rparr>"
      by (simp add: write_sort_row_set row_set_def comp_def step)
    finally show ?thesis .
  qed
qed

section \<open>Placing\<close>

text \<open>The list with a task put where it is asked.\<close>

definition put :: "int \<Rightarrow> nat \<Rightarrow> int list \<Rightarrow> int list" where
  "put i k xs = take k xs @ i # drop k xs"

definition without :: "int \<Rightarrow> int list \<Rightarrow> int list" where
  "without i xs = filter (\<lambda>t. t \<noteq> i) xs"

lemma put_facts:
  "set (put i k xs) = insert i (set xs)" "distinct xs \<Longrightarrow> i \<notin> set xs \<Longrightarrow> distinct (put i k xs)"
proof -
  have s: "set (take k xs) \<union> set (drop k xs) = set xs" by (metis append_take_drop_id set_append)
  then show "set (put i k xs) = insert i (set xs)" by (auto simp: put_def)
  assume "distinct xs" "i \<notin> set xs"
  moreover from this s have "i \<notin> set (take k xs)" "i \<notin> set (drop k xs)" by blast+
  ultimately show "distinct (put i k xs)"
    using set_take_disj_set_drop_if_distinct [of xs k k] by (simp add: put_def distinct_append)
qed

lemma without_put: "i \<notin> set xs \<Longrightarrow> without i (put i k xs) = xs"
proof -
  assume "i \<notin> set xs"
  then have "without i (take k xs) = take k xs" "without i (drop k xs) = drop k xs"
    by (auto simp: without_def filter_id_conv dest: in_set_takeD in_set_dropD)
  then show ?thesis by (simp add: put_def without_def)
qed

lemma put_at: "k \<le> length xs \<Longrightarrow> put i k xs ! k = i" "length (put i k xs) = Suc (length xs)"
  by (auto simp: put_def nth_append)

lemma place_index_le: "place_index xs pl = Inr k \<Longrightarrow> k \<le> length xs"
  by (auto simp: place_index_def ok_or_iff index_of_Some result_simps split: placement.splits)

lemma list_ids_set: "set (list_ids d th) = r_id ` {r \<in> set (d_tasks d). on_list th r}"
  by (auto simp: list_ids_def list_rows_def)

lemma list_ids_distinct: "sound d \<Longrightarrow> distinct (list_ids d th)"
  unfolding list_ids_def list_rows_def sound_def
  by (metis (no_types, lifting) distinct_map distinct_sort distinct_filter inj_on_subset set_sort filter_is_subset)

definition placed_row :: "int \<Rightarrow> int list \<Rightarrow> (task_row \<Rightarrow> task_row) \<Rightarrow> task_row \<Rightarrow> task_row" where
  "placed_row i ks f r = (if r_id r = i then f r else numbered i 0 ks r)"

lemma place_task_tx_live:
  fixes now :: string
  assumes "sound d" "find_task live d i = Some r" "place_index (without i (list_ids d dest)) pl = Inr k"
    and "\<forall>t. dest = Some t \<longrightarrow> t \<in> set (d_threads d)"
  defines "item \<equiv> (task_of_row d r)\<lparr>t_thread := dest, t_sort := int k, t_updated_at := now\<rparr>"
    and "ks \<equiv> put i k (without i (list_ids d dest))"
  shows "place_task_tx i dest pl now d =
    (Inr \<lparr>pl_task = item, pl_from_thread = r_thread r,
          pl_from_place = from_place_of (list_ids d (r_thread r)) i, pl_renumbered = fst (renumber i 0 ks d)\<rparr>,
     d\<lparr>d_tasks := map (placed_row i ks (write_fields item)) (d_tasks d)\<rparr>)"
proof -
  have r: "r \<in> set (d_tasks d)" "r_id r = i" "live r" using find_task_Some [OF assms(2)] by auto
  have rid: "t_id item = i" "t_parent item = r_parent r" "t_thread item = dest"
    using r by (simp_all add: item_def task_of_row_def)
  let ?d = "d\<lparr>d_tasks := map (numbered i 0 ks) (d_tasks d)\<rparr>"
  have ids: "r_id (numbered i 0 ks s) = r_id s" for s
    by (auto simp: numbered_def split: option.splits)
  have dist: "distinct ks"
    unfolding ks_def using list_ids_distinct [OF assms(1), of dest]
    by (intro put_facts) (auto simp: without_def)
  obtain moved where ren: "renumber i 0 ks d = (moved, ?d)"
    using renumber_tasks [OF dist, of i 0 d] by (cases "renumber i 0 ks d") simp
  have di: "distinct (ids_of ?d)" using assms(1) by (simp add: sound_def comp_def ids)
  have "numbered i 0 ks r = r" using r by (simp add: numbered_def)
  then have f: "find_task live ?d i = Some r"
    unfolding find_task_iff [OF di] using r by force
  have refs: "refs_ok ?d (ids_of ?d) dest (r_parent r)"
    using assms(1,4) r by (auto simp: refs_ok_def sound_def row_ok_def comp_def ids split: option.splits)
  have up: "update_row i (write_fields item) ?d = (1, row_set i (write_fields item) ?d)"
    by (rule update_row_live [OF di f])
  have "update_task_tx item ?d = (Inr 1, row_set i (write_fields item) ?d)"
    using up refs by (simp add: update_task_tx_def rid)
  moreover have "row_set i (write_fields item) ?d
      = d\<lparr>d_tasks := map (placed_row i ks (write_fields item)) (d_tasks d)\<rparr>"
    by (auto simp: row_set_def placed_row_def numbered_def split: option.splits intro!: task_db.equality)
  ultimately have u: "update_task_tx item ?d
      = (Inr 1, d\<lparr>d_tasks := map (placed_row i ks (write_fields item)) (d_tasks d)\<rparr>)" by simp
  have th: "t_thread (task_of_row d r) = r_thread r" by (simp add: task_of_row_def)
  show ?thesis
    using get_live_found [OF assms(1,2)] assms(3) ren u
    by (simp add: place_task_tx_def bind_op_step [of "get_live i"] th Let_def without_def [symmetric]
        put_def [symmetric] ks_def [symmetric] item_def [symmetric] bind_op_step [of "update_task_tx _"])
qed

lemma placed_row_id [simp]: "keeps_id f \<Longrightarrow> r_id (placed_row i ks f r) = r_id r"
  by (auto simp: placed_row_def numbered_def keeps_id_def split: option.splits)

lemma numbered_same:
  "r_thread (numbered i k ks r) = r_thread r" "r_created_at (numbered i k ks r) = r_created_at r"
  "live (numbered i k ks r) = live r"
  by (auto simp: numbered_def live_def split: option.splits)

lemma on_list_placed:
  assumes "t_thread item = dest" "t_deleted_at item = None"
  shows "on_list th (placed_row i ks (write_fields item) s) \<longleftrightarrow>
     (if r_id s = i then th = dest else on_list th s)"
  using assms by (auto simp: placed_row_def on_list_def numbered_same write_fields_def) (simp_all add: live_def)

lemma list_after_place:
  assumes d: "sound d" and r: "r \<in> set (d_tasks d)" "r_id r = i"
    and item: "t_thread item = dest" "t_deleted_at item = None" "t_sort item = int k"
    and k: "k \<le> length (without i (list_ids d dest))"
  defines "ks \<equiv> put i k (without i (list_ids d dest))"
  shows "list_ids (d\<lparr>d_tasks := map (placed_row i ks (write_fields item)) (d_tasks d)\<rparr>) dest = ks"
proof -
  let ?rows = "filter (on_list dest) (map (placed_row i ks (write_fields item)) (d_tasks d))"
  let ?xs = "without i (list_ids d dest)"
  have xs: "i \<notin> set ?xs" "distinct ?xs" using list_ids_distinct [OF d] by (auto simp: without_def)
  have dk: "distinct ks" unfolding ks_def by (rule put_facts(2)) (use xs in auto)
  have dr: "distinct (map r_id (map (placed_row i ks (write_fields item)) (d_tasks d)))"
    using d by (simp add: sound_def comp_def)
  have mem: "s \<in> set ?rows \<longleftrightarrow> (\<exists>t \<in> set (d_tasks d). s = placed_row i ks (write_fields item) t
      \<and> (r_id t = i \<or> on_list dest t))" for s
    by (auto simp: on_list_placed [OF item(1,2)] split: if_splits)
  have "map r_id (sort_key (\<lambda>r. (r_sort r, r_created_at r)) ?rows) = ks"
  proof (rule sort_key_unique)
    show "distinct (map r_id ?rows)" using dr by (rule distinct_map_filter)
    show "distinct ks" by fact
    have "set ks = insert i (set ?xs)" unfolding ks_def by (rule put_facts)
    also have "\<dots> = r_id ` set ?rows"
    proof (rule set_eqI)
      fix j
      have "j \<in> r_id ` set ?rows \<longleftrightarrow>
          (\<exists>t \<in> set (d_tasks d). r_id t = j \<and> (r_id t = i \<or> on_list dest t))"
        unfolding image_iff Bex_def mem by auto
      also have "\<dots> \<longleftrightarrow> j \<in> insert i (set ?xs)"
        using r by (auto simp: without_def list_ids_set)
      finally show "j \<in> insert i (set ?xs) \<longleftrightarrow> j \<in> r_id ` set ?rows" by blast
    qed
    finally show "set ks = r_id ` set ?rows" .
    fix s assume "s \<in> set ?rows"
    then obtain t where t: "t \<in> set (d_tasks d)" "s = placed_row i ks (write_fields item) t"
      "r_id t = i \<or> on_list dest t" unfolding mem by blast
    show "\<exists>j < length ks. ks ! j = r_id s \<and> r_sort s = int j"
    proof (cases "r_id t = i")
      case True
      with t(2) item(3) k show ?thesis
        by (intro exI [of _ k]) (simp add: ks_def put_at placed_row_def write_fields_def)
    next
      case False
      with t have "r_id t \<in> set ks" by (auto simp: ks_def put_facts(1) without_def list_ids_set)
      then obtain j where "index_of (r_id t) ks = Some j" by (cases "index_of (r_id t) ks") (auto simp: index_of_None)
      with False t(2) show ?thesis
        by (intro exI [of _ j]) (auto simp: placed_row_def numbered_def index_of_Some)
    qed
  qed
  then show ?thesis by (simp add: list_ids_def list_rows_def)
qed

lemma numbered_off_list:
  assumes "r_id s \<notin> set ks"
  shows "numbered i k ks s = s"
  using assms by (simp add: numbered_def index_of_None [THEN iffD2])

lemma other_list_after_place:
  assumes d: "sound d" and item: "t_thread item = dest" "t_deleted_at item = None" and th: "th \<noteq> dest"
    and ks: "set ks = insert i (set (without i (list_ids d dest)))"
  shows "list_ids (d\<lparr>d_tasks := map (placed_row i ks (write_fields item)) (d_tasks d)\<rparr>) th
    = without i (list_ids d th)"
proof -
  have "filter (on_list th) (map (placed_row i ks (write_fields item)) (d_tasks d))
      = filter (\<lambda>s. r_id s \<noteq> i) (filter (on_list th) (d_tasks d))"
  proof -
    have "placed_row i ks (write_fields item) s = s"
      if s: "s \<in> set (d_tasks d)" "on_list th s" "r_id s \<noteq> i" for s
    proof -
      have "r_id s \<notin> set (list_ids d dest)"
        using s th same_task_row [OF d s(1)] by (auto simp: list_ids_set on_list_def)
      with s(3) ks show ?thesis by (simp add: placed_row_def numbered_off_list without_def)
    qed
    moreover have "filter (\<lambda>s. on_list th (placed_row i ks (write_fields item) s)) (d_tasks d)
        = filter (\<lambda>s. r_id s \<noteq> i) (filter (on_list th) (d_tasks d))"
      using th by (auto simp: on_list_placed [OF item] intro: filter_cong)
    ultimately show ?thesis
      by (simp only: filter_map comp_def) (auto intro!: map_idI)
  qed
  then show ?thesis
    by (simp add: list_ids_def list_rows_def without_def filter_map comp_def filter_sort [symmetric])
qed

lemma sound_place:
  assumes d: "sound d" and r: "find_task live d i = Some r" and dest: "\<forall>t. dest = Some t \<longrightarrow> t \<in> set (d_threads d)"
    and item: "t_thread item = dest" "t_parent item = r_parent r"
  shows "sound (d\<lparr>d_tasks := map (placed_row i ks (write_fields item)) (d_tasks d)\<rparr>)"
proof -
  have "r \<in> set (d_tasks d)" using find_task_Some [OF r] by simp
  then have refs: "refs_ok d (ids_of d) (t_thread item) (t_parent item)"
    using d dest item by (auto simp: refs_ok_def sound_def row_ok_def split: option.splits)
  have "row_ok (set (d_threads d)) (r_id ` set (d_tasks d)) (placed_row i ks (write_fields item) s)"
    if s: "s \<in> set (d_tasks d)" for s
  proof -
    have ok: "row_ok (set (d_threads d)) (r_id ` set (d_tasks d)) s" using d s by (simp add: sound_def)
    have "row_ok T I (numbered i 0 ks s) = row_ok T I s" for T I
      by (auto simp: numbered_def row_ok_def row_checks_def completion_ok_def split: option.splits)
    with ok row_ok_fields [OF ok [folded set_map] refs] show ?thesis
      by (simp add: placed_row_def)
  qed
  with d show ?thesis by (auto simp: sound_def comp_def)
qed

lemma placed_row_other:
  "placed_row i ks f s = s\<lparr>r_sort := x\<rparr> \<Longrightarrow> r_thread (placed_row i ks f s) = r_thread s"
  by simp

text \<open>What a verb's placing does, when it is not refused.\<close>

lemma place_Inr:
  assumes d: "sound d" and p: "place i dest at now d = (Inr p, d')"
  obtains r k where "find_task live d i = Some r"
    "place_index (without i (list_ids d dest)) at = Inr k"
    "\<forall>t. dest = Some t \<longrightarrow> t \<in> set (d_threads d)"
    "sound d'" "d_threads d' = d_threads d"
    "ids_of d' = ids_of d" "d_links d' = d_links d" "d_notes d' = d_notes d"
    "list_ids d' dest = put i k (without i (list_ids d dest))"
    "\<And>th. th \<noteq> dest \<Longrightarrow> list_ids d' th = without i (list_ids d th)"
    "pl_from_thread p = r_thread r" "pl_from_place p = from_place_of (list_ids d (r_thread r)) i"
    "\<exists>s. find_task live d' i = Some s \<and> r_thread s = dest"
    "pl_renumbered p = fst (renumber i 0 (put i k (without i (list_ids d dest))) d)"
    "d_tasks d' = map (placed_row i (put i k (without i (list_ids d dest)))
       (write_fields ((task_of_row d r)\<lparr>t_thread := dest, t_sort := int k, t_updated_at := now\<rparr>))) (d_tasks d)"
proof -
  have dest: "\<forall>t. dest = Some t \<longrightarrow> t \<in> set (d_threads d)"
    and p: "place_task_tx i dest at now d = (Inr p, d')"
    using p by (auto simp: place_def bind_op_Inr result_simps split: option.splits)
  obtain r where r: "find_task live d i = Some r"
    using p by (cases "find_task live d i") (simp_all add: place_task_tx_def bind_op_fails [OF get_live_gone])
  obtain k where k: "place_index (without i (list_ids d dest)) at = Inr k"
  proof (cases "place_index (without i (list_ids d dest)) at")
    case (Inl e)
    with p get_live_found [OF d r] show ?thesis
      by (simp add: place_task_tx_def bind_op_step [of "get_live i"] Let_def without_def)
  qed (rule that)
  let ?item = "(task_of_row d r)\<lparr>t_thread := dest, t_sort := int k, t_updated_at := now\<rparr>"
  let ?ks = "put i k (without i (list_ids d dest))"
  let ?d = "d\<lparr>d_tasks := map (placed_row i ?ks (write_fields ?item)) (d_tasks d)\<rparr>"
  from place_task_tx_live [OF d r k dest, of now] p have
    d': "d' = ?d" and pl: "pl_from_thread p = r_thread r"
      "pl_from_place p = from_place_of (list_ids d (r_thread r)) i" "pl_renumbered p = fst (renumber i 0 ?ks d)"
    by auto
  have rr: "r \<in> set (d_tasks d)" "r_id r = i" "live r" using find_task_Some [OF r] by auto
  have item: "t_thread ?item = dest" "t_deleted_at ?item = None" "t_sort ?item = int k" "t_parent ?item = r_parent r"
    using rr by (simp_all add: task_of_row_def live_def)
  have snd: "sound ?d" by (rule sound_place [OF d r dest item(1,4)])
  have "live (write_fields ?item r)" "r_thread (write_fields ?item r) = dest"
    using item by (simp_all add: live_def write_fields_def)
  moreover have "placed_row i ?ks (write_fields ?item) r = write_fields ?item r"
    using rr by (simp add: placed_row_def)
  moreover have "distinct (ids_of ?d)" using snd by (simp add: sound_def)
  ultimately have "find_task live ?d i = Some (write_fields ?item r)"
    using rr keeps_id_rows(2) [of ?item]
    by (subst find_task_iff) (auto simp: keeps_id_def intro!: image_eqI [of _ _ r])
  then have live: "\<exists>s. find_task live ?d i = Some s \<and> r_thread s = dest"
    by (simp add: write_fields_def)
  show ?thesis
    by (rule that [OF r k dest])
      (use d' pl snd live list_after_place [OF d rr(1,2) item(1-3) place_index_le [OF k]]
        other_list_after_place [OF d item(1,2) _ put_facts(1)] in \<open>simp_all add: comp_def\<close>)
qed

text \<open>Back where it was.\<close>

lemma put_back:
  assumes "distinct xs" "i \<in> set xs"
  obtains k where "place_index (without i xs) (from_place_of xs i) = Inr k" "put i k (without i xs) = xs"
proof -
  obtain a b where xs: "xs = a @ i # b" using assms(2) by (meson split_list)
  with assms(1) have i: "i \<notin> set a" "i \<notin> set b" by auto
  have "filter (\<lambda>t. t \<noteq> i) a = a" "filter (\<lambda>t. t \<noteq> i) b = b"
    by (rule filter_True, use i in blast)+
  then have w: "without i xs = a @ b" by (simp add: without_def xs)
  have at: "index_of i xs = Some (length a)"
    using index_of_distinct [OF assms(1), of i "length a"] by (simp add: xs)
  have dw: "distinct (a @ b)" using assms(1) xs by simp
  have "place_index (a @ b) (from_place_of xs i) = Inr (length a)"
  proof (cases "a = []")
    case False
    then have "index_of (last a) (a @ b) = Some (length a - 1)"
      unfolding index_of_distinct [OF dw] by (simp add: nth_append last_conv_nth) (cases a; simp)
    moreover have "from_place_of xs i = PlAfter (last a)"
      using False at by (simp add: from_place_of_def xs nth_append last_conv_nth)
    ultimately show ?thesis using False by (simp add: place_index_def)
  next
    case True
    show ?thesis
    proof (cases b)
      case Nil
      with True at show ?thesis by (simp add: from_place_of_def xs place_index_def)
    next
      case (Cons c cs)
      with True at have "from_place_of xs i = PlBefore c" by (simp add: from_place_of_def xs)
      moreover have "index_of c (a @ b) = Some 0" unfolding index_of_distinct [OF dw] using True Cons by simp
      ultimately show ?thesis using True by (simp add: place_index_def)
    qed
  qed
  moreover have "put i (length a) (a @ b) = xs" by (simp add: put_def xs)
  ultimately show ?thesis using w that by metis
qed

section \<open>What a verb changes\<close>

text \<open>The tables stay sound, and a task outside the set is recorded as it was.\<close>

definition changes :: "int set \<Rightarrow> task_db \<Rightarrow> task_db \<Rightarrow> bool" where
  "changes S d d' \<longleftrightarrow>
     sound d' \<and> set (ids_of d) \<subseteq> set (ids_of d') \<and> d_threads d' = d_threads d
     \<and> (\<forall>j. j \<notin> S \<longrightarrow> record_tx j d' = record_tx j d)"

lemma changes_trans: "changes S d d' \<Longrightarrow> changes T d' d'' \<Longrightarrow> changes (S \<union> T) d d''"
  unfolding changes_def by auto

lemma changes_refl: "sound d \<Longrightarrow> changes S d d"
  by (simp add: changes_def)

lemma record_same:
  assumes "find_task (\<lambda>_. True) d' j = find_task (\<lambda>_. True) d j"
    and "filter (\<lambda>l. l_from l = j) (d_links d') = filter (\<lambda>l. l_from l = j) (d_links d)"
    and "filter (\<lambda>n. n_task n = j) (d_notes d') = filter (\<lambda>n. n_task n = j) (d_notes d)"
  shows "record_tx j d' = record_tx j d"
  using assms by (simp add: record_tx_def)

lemma find_map:
  "(\<And>s. s \<in> set xs \<Longrightarrow> Q (g s) = Q s) \<Longrightarrow> find Q (map g xs) = map_option g (find Q xs)"
  by (induction xs) auto

lemma changes_map:
  assumes "sound (d\<lparr>d_tasks := map g (d_tasks d)\<rparr>)" "\<And>s. r_id (g s) = r_id s"
    and "\<And>s. s \<in> set (d_tasks d) \<Longrightarrow> r_id s \<notin> S \<Longrightarrow> g s = s"
  shows "changes S d (d\<lparr>d_tasks := map g (d_tasks d)\<rparr>)"
proof -
  have "find_task (\<lambda>_. True) (d\<lparr>d_tasks := map g (d_tasks d)\<rparr>) j = find_task (\<lambda>_. True) d j" if "j \<notin> S" for j
  proof -
    have "find_task (\<lambda>_. True) (d\<lparr>d_tasks := map g (d_tasks d)\<rparr>) j = map_option g (find_task (\<lambda>_. True) d j)"
      using assms(2) by (simp add: find_task_def find_map)
    then show ?thesis
      using assms(3) that by (cases "find_task (\<lambda>_. True) d j") (auto dest: find_task_Some)
  qed
  then show ?thesis using assms(1,2) by (auto simp: changes_def comp_def intro: record_same)
qed

lemma changes_row_set:
  "sound (row_set i f d) \<Longrightarrow> keeps_id f \<Longrightarrow> changes {i} d (row_set i f d)"
  unfolding row_set_def by (rule changes_map) (auto simp: keeps_id_def)

lemma find_live_id: "find_task P d i = Some r \<Longrightarrow> i \<in> set (ids_of d)"
  by (auto dest!: find_task_Some)

lemma changes_set_status:
  assumes "sound d" "set_status_tx i to now d = (Inr ch, d')"
  shows "changes {i} d d'"
proof -
  obtain r where "find_task live d i = Some r" "d' = row_set i (status_row (set_status to now (task_of_row d r))) d"
    using assms by (elim set_status_tx_Inr)
  with sound_set_status [OF assms] find_live_id show ?thesis by (auto intro: changes_row_set)
qed

lemma changes_update_task:
  assumes "sound d" "update_task_tx item d = (Inr n, d')" "n \<noteq> 0"
  shows "changes {t_id item} d d'"
proof -
  obtain r where "find_task live d (t_id item) = Some r" "d' = row_set (t_id item) (write_fields item) d"
    using assms by (elim update_task_tx_Inr)
  with sound_update_task [OF assms] find_live_id show ?thesis by (auto intro: changes_row_set)
qed

lemma changes_update_with_status:
  assumes "sound d" "update_with_status_tx item None now d = (Inr t, d')"
  shows "changes {t_id item} d d'"
  using assms changes_update_task [OF assms(1)]
  by (auto simp: update_with_status_tx_def bind_op_Inr ensure_op_Inr get_live_Inr)

lemma set_status_through_Inr:
  "set_status_through task to asked now d = (Inr ch, d') \<Longrightarrow>
     \<exists>ch'. set_status_tx (t_id task) to now d = (Inr ch', d')
     \<or> (\<exists>s ch'' d''. set_status_tx (t_id task) s now d = (Inr ch'', d'')
          \<and> set_status_tx (t_id task) to now d'' = (Inr ch', d'))"
  unfolding set_status_through_def Let_def
  by (auto simp: bind_op_Inr split: option.splits) blast+

lemma changes_through:
  assumes "sound d" "set_status_through task to asked now d = (Inr ch, d')"
  shows "changes {t_id task} d d'"
proof -
  consider ch' where "set_status_tx (t_id task) to now d = (Inr ch', d')"
    | s ch' ch'' d'' where "set_status_tx (t_id task) s now d = (Inr ch'', d'')"
      "set_status_tx (t_id task) to now d'' = (Inr ch', d')"
    using set_status_through_Inr [OF assms(2)] by blast
  then show ?thesis
  proof cases
    case 1
    with assms(1) show ?thesis by (rule changes_set_status)
  next
    case 2
    have one: "changes {t_id task} d d''" by (rule changes_set_status [OF assms(1) 2(1)])
    moreover have "changes {t_id task} d'' d'"
      using one 2(2) by (intro changes_set_status) (simp_all add: changes_def)
    ultimately show ?thesis using changes_trans by fastforce
  qed
qed

lemma changes_delete:
  assumes "sound d" "soft_delete_tx i now d = (Inr u, d')"
  shows "changes {i} d d'"
proof (cases "find_task live d i")
  case None
  with assms(2) show ?thesis by (simp add: soft_delete_tx_def update_row_gone)
next
  case (Some r)
  let ?f = "\<lambda>r. r\<lparr>r_deleted_at := Some now, r_updated_at := now\<rparr>"
  have "sound (row_set i ?f d)"
    by (rule sound_row_set [OF assms(1)]) (auto simp: row_ok_def row_checks_def completion_ok_def)
  moreover have "d' = row_set i ?f d"
    using assms update_row_live [OF _ Some] by (simp add: soft_delete_tx_def sound_def)
  ultimately show ?thesis using find_live_id [OF Some] by (auto intro: changes_row_set)
qed

lemma sound_links:
  assumes "sound d" "\<forall>l \<in> set ls. l_from l \<in> set (ids_of d)"
  shows "sound (d\<lparr>d_links := ls, d_link_seq := k\<rparr>)" "sound (d\<lparr>d_links := ls\<rparr>)"
  using assms by (simp_all add: sound_def)

lemma record_links:
  assumes "filter (\<lambda>l. l_from l = j) ls = filter (\<lambda>l. l_from l = j) (d_links d)"
  shows "record_tx j (d\<lparr>d_links := ls, d_link_seq := k\<rparr>) = record_tx j d"
    "record_tx j (d\<lparr>d_links := ls\<rparr>) = record_tx j d"
  by (rule record_same; simp add: find_task_def assms)+

lemma create_link_Inr:
  assumes "create_link_tx i to ty now d = (Inr b, d')"
  obtains "d' = d"
    | l where "d' = d\<lparr>d_links := d_links d @ [l], d_link_seq := d_link_seq d + 1\<rparr>" "l_from l = i" "i \<in> set (ids_of d)"
  using assms unfolding create_link_tx_def Let_def by (auto split: if_splits)

lemma changes_link:
  assumes "sound d" "create_link_tx i to ty now d = (Inr b, d')"
  shows "sound d' \<and> set (ids_of d') = set (ids_of d) \<and> d_threads d' = d_threads d
    \<and> (\<forall>j. j \<noteq> i \<longrightarrow> record_tx j d' = record_tx j d)"
  using assms(2)
proof (cases rule: create_link_Inr)
  case (2 l)
  have "\<forall>x \<in> set (d_links d @ [l]). l_from x \<in> set (ids_of d)" using assms(1) 2(2,3) by (auto simp: sound_def)
  from sound_links(1) [OF assms(1) this] 2 show ?thesis by (simp add: record_links)
qed (use assms(1) in simp)

lemma changes_unlink:
  assumes "sound d" "delete_link_tx i to ty d = (Inr b, d')"
  shows "sound d' \<and> set (ids_of d') = set (ids_of d) \<and> d_threads d' = d_threads d
    \<and> (\<forall>j. j \<noteq> i \<longrightarrow> record_tx j d' = record_tx j d)"
proof -
  obtain P where d': "d' = d\<lparr>d_links := filter P (d_links d)\<rparr>" and P: "\<And>l. l_from l \<noteq> i \<Longrightarrow> P l"
    using assms(2) by (auto simp: delete_link_tx_def Let_def)
  have "\<forall>x \<in> set (filter P (d_links d)). l_from x \<in> set (ids_of d)" using assms(1) by (auto simp: sound_def)
  from sound_links(2) [OF assms(1) this] have "sound d'" by (simp add: d')
  moreover have "filter (\<lambda>l. l_from l = j) (filter P (d_links d)) = filter (\<lambda>l. l_from l = j) (d_links d)"
    if "j \<noteq> i" for j
    using that P by (auto simp: conj_commute intro!: filter_cong)
  ultimately show ?thesis by (simp add: d' record_links)
qed

lemma changes_note:
  assumes "sound d" "add_task_note_tx i body author now d = (Inr n, d')"
  shows "changes {i} d d'"
  using assms unfolding add_task_note_tx_def Let_def
  by (auto simp: sound_def changes_def split: if_splits intro!: record_same) (simp_all add: find_task_def)

lemma numbered_skip: "r_id s \<noteq> u \<Longrightarrow> numbered i k (u # us) s = numbered i (Suc k) us s"
  by (auto simp: numbered_def index_of_Cons split: option.split)

lemma renumbered_rest:
  assumes "distinct ks" "t \<in> set ks" "t \<noteq> i" "t \<notin> set (fst (renumber i k ks d))"
    and "s \<in> set (d_tasks d)" "r_id s = t"
  shows "numbered i k ks s = s"
  using assms
proof (induction ks arbitrary: k d)
  case (Cons u us)
  show ?case
  proof (cases "u = i")
    case True
    with Cons.prems have "t \<noteq> u" by simp
    with Cons.prems True Cons.IH [of "Suc k" d] show ?thesis by (simp add: numbered_skip)
  next
    case False
    obtain n d' where w: "write_sort u (int k) d = (n, d')" by force
    have d': "d' = row_set u (r_sort_update (\<lambda>_. int k)) d" using write_sort_row_set [of u "int k" d] w by simp
    have tail: "set (fst (renumber i (Suc k) us d')) \<subseteq> set (fst (renumber i k (u # us) d))"
      using False w by (auto simp: Let_def split: prod.splits)
    show ?thesis
    proof (cases "t = u")
      case True
      have "n = 0" using Cons.prems(4) False w True by (auto simp: Let_def split: prod.splits if_splits)
      with w have "\<forall>s \<in> set (d_tasks d). r_id s = u \<longrightarrow> r_sort s = int k"
        by (auto simp: write_sort_def filter_empty_conv)
      with Cons.prems True show ?thesis by (simp add: numbered_def index_of_Cons)
    next
      case False
      then have "s \<in> set (d_tasks d')" using Cons.prems(5,6) by (force simp: d')
      with Cons.IH [of "Suc k" d'] Cons.prems tail False have "numbered i (Suc k) us s = s" by auto
      with False Cons.prems(6) show ?thesis by (simp add: numbered_skip)
    qed
  qed
qed simp

lemma renumbered_sub: "set (fst (renumber i k ks d)) \<subseteq> set ks"
proof (induction ks arbitrary: k d)
  case (Cons t ts)
  from Cons [of "Suc k"] show ?case
    by (auto simp: Let_def split: prod.splits if_splits) (metis fst_conv subsetD)+
qed simp

lemma changes_place:
  assumes d: "sound d" and p: "place i dest at now d = (Inr p, d')"
  shows "changes (set (i # pl_renumbered p)) d d'"
proof -
  obtain r k where r: "find_task live d i = Some r" and
    s: "sound d'" "d_threads d' = d_threads d" "ids_of d' = ids_of d" "d_links d' = d_links d" "d_notes d' = d_notes d"
    and pl: "pl_renumbered p = fst (renumber i 0 (put i k (without i (list_ids d dest))) d)"
    and t: "d_tasks d' = map (placed_row i (put i k (without i (list_ids d dest)))
       (write_fields ((task_of_row d r)\<lparr>t_thread := dest, t_sort := int k, t_updated_at := now\<rparr>))) (d_tasks d)"
    by (rule place_Inr [OF d p]) (rule that; assumption)
  let ?ks = "put i k (without i (list_ids d dest))"
  let ?f = "write_fields ((task_of_row d r)\<lparr>t_thread := dest, t_sort := int k, t_updated_at := now\<rparr>)"
  have dk: "distinct ?ks"
    by (rule put_facts(2)) (use list_ids_distinct [OF d, of dest] in \<open>auto simp: without_def\<close>)
  have ids: "set ?ks \<subseteq> set (ids_of d)"
    using find_live_id [OF r] by (auto simp: put_facts(1) without_def list_ids_set)
  have S: "set (i # pl_renumbered p) \<subseteq> set (ids_of d)"
    using ids renumbered_sub [of i 0 ?ks d] pl find_live_id [OF r] by auto
  have same: "find_task (\<lambda>_. True) d' j = find_task (\<lambda>_. True) d j" if j: "j \<notin> set (i # pl_renumbered p)" for j
  proof -
    have "find_task (\<lambda>_. True) d' j = map_option (placed_row i ?ks ?f) (find_task (\<lambda>_. True) d j)"
      by (simp add: find_task_def t find_map)
    moreover have "placed_row i ?ks ?f s = s" if "find_task (\<lambda>_. True) d j = Some s" for s
    proof (cases "j \<in> set ?ks")
      case True
      with that j pl dk renumbered_rest [OF dk True, of i 0 d s] show ?thesis
        by (simp add: placed_row_def find_task_Some [OF that])
    next
      case False
      with that j show ?thesis by (auto simp: placed_row_def numbered_off_list dest: find_task_Some)
    qed
    ultimately show ?thesis by (cases "find_task (\<lambda>_. True) d j") auto
  qed
  have "record_tx j d' = record_tx j d" if "j \<notin> set (i # pl_renumbered p)" for j
    by (rule record_same) (use same [OF that] s in simp_all)
  with S s show ?thesis by (simp add: changes_def)
qed

lemma find_snoc_no: "\<not> Q y \<Longrightarrow> find Q (xs @ [y]) = find Q xs"
  by (induction xs) auto

lemma changes_insert:
  assumes d: "sound d" and item: "insert_task_tx item d = (Inr i, d')"
    and finished: "completion_ok (row_of_task item)"
  shows "changes {i} d d'" "i = d_task_seq d + 1"
    "d' = d\<lparr>d_tasks := d_tasks d @ [(row_of_task item)\<lparr>r_id := i\<rparr>], d_task_seq := i\<rparr>"
proof -
  show i: "i = d_task_seq d + 1" and
    d': "d' = d\<lparr>d_tasks := d_tasks d @ [(row_of_task item)\<lparr>r_id := i\<rparr>], d_task_seq := i\<rparr>"
    using item by (auto simp: insert_task_tx_def Let_def split: if_splits)
  let ?r = "(row_of_task item)\<lparr>r_id := i\<rparr>"
  have b: "i \<le> i64_max" "refs_ok d (ids_of d @ [i]) (t_thread item) (t_parent item)"
    using item by (auto simp: insert_task_tx_def Let_def split: if_splits)
  have new: "i \<notin> set (ids_of d)" using d i by (auto simp: sound_def)
  have "row_checks ?r"
    by (simp add: row_checks_def row_of_task_def split: option.splits)
  then have ok: "row_ok (set (d_threads d)) (insert i (set (ids_of d))) ?r"
    using b finished by (auto simp: row_ok_def refs_ok_def row_of_task_def completion_ok_def split: option.splits)
  have old: "row_ok T I r \<Longrightarrow> row_ok T (insert i I) r" for T I r
    by (auto simp: row_ok_def)
  have "sound d'" unfolding sound_def d'
    using d new ok old b(1) i by (auto simp: sound_def)
  moreover have "record_tx j d' = record_tx j d" if "j \<noteq> i" for j
    using that by (intro record_same) (simp_all add: d' find_task_def find_snoc_no)
  ultimately show "changes {i} d d'" by (auto simp: changes_def d')
qed

end
