(* ===== verification/Task_Promises.thy ===== *)
theory Task_Promises
  imports Task_Inv
begin

text \<open>
  What oxplow's task list promises the work-item interface: its verbs keep the tables sound and
  answer with a record of everything they changed, a place is where it was asked and can be undone,
  and so can an edit; a copy read before cannot turn a status back.
\<close>

section \<open>Every verb\<close>

lemma record_total:
  assumes "sound d" "i \<in> set (ids_of d)"
  shows "\<exists>rec. record_tx i d = Inr rec"
proof -
  obtain r where r: "r \<in> set (d_tasks d)" "r_id r = i" using assms(2) by auto
  then have f: "find_task (\<lambda>_. True) d i = Some r" using assms(1) find_task_iff by (simp add: sound_def)
  obtain s where "str_to_status (r_status r) = Some s"
    using assms(1) r by (auto simp: sound_def row_ok_def row_checks_def)
  with f show ?thesis by (auto simp: record_tx_def state_pair_def)
qed

lemma read_records_total:
  assumes "sound d" "set is \<subseteq> set (ids_of d)"
  shows "\<exists>recs. read_records is d = Inr recs \<and> list_all2 (\<lambda>i r. record_tx i d = Inr r) is recs"
  using assms(2)
proof (induction "is")
  case (Cons i js)
  then obtain recs where "read_records js d = Inr recs" "list_all2 (\<lambda>i r. record_tx i d = Inr r) js recs"
    by auto
  moreover obtain rec where "record_tx i d = Inr rec" using record_total [OF assms(1), of i] Cons.prems by auto
  ultimately show ?case by auto
qed simp

lemma changes_create_links:
  assumes "create_links i n links now d = (Inr u, d')" "sound d" "i \<in> set (ids_of d)"
  shows "changes {i} d d'"
  using assms
proof (induction links arbitrary: n d)
  case Nil
  then show ?case by (auto intro: changes_refl)
next
  case (Cons l ls)
  from Cons.prems(1) obtain d1 b ty where
    "create_link_tx i (lr_target l) ty now d = (Inr b, d1)" and rest: "create_links i (n + 1) ls now d1 = (Inr u, d')"
    by (auto simp: create_links_one_def bind_op_Inr)
  then have c: "changes {i} d d1" using changes_link [OF Cons.prems(2)] Cons.prems(3) by (auto simp: changes_def)
  then have "changes {i} d1 d'" using Cons.prems(3) by (intro Cons.IH [OF rest]) (auto simp: changes_def)
  with c show ?case using changes_trans by fastforce
qed

lemma changes_create:
  assumes "sound d" "create_tx actor input now d = (Inr ans, d')"
  shows "changes (set (an_changed ans)) d d'"
proof -
  from assms(2) obtain item i d1 where ins: "insert_task_tx item d = (Inr i, d1)"
    and links: "create_links i 0 (ci_links input) now d1 = (Inr (), d')" and ans: "an_changed ans = [i]"
    and item: "\<exists>asked. t_completed_at item = (if filed_completed (t_status item) asked then Some now else None)"
    by (auto simp: create_tx_def bind_op_Inr Let_def) (rule that, assumption+, auto)
  have "completion_ok (row_of_task item)"
    using item by (auto simp: completion_ok_def row_of_task_def filed_completed_def status_done_text)
  from changes_insert(1) [OF assms(1) ins this] have one: "changes {i} d d1" .
  moreover have "changes {i} d1 d'"
    using one changes_insert(3) [OF assms(1) ins] \<open>completion_ok (row_of_task item)\<close>
    by (intro changes_create_links [OF links]) (auto simp: changes_def)
  ultimately show ?thesis using changes_trans ans by fastforce
qed

lemma update_tx_Inr:
  assumes "update_tx input now d = (Inr ans, d')"
  obtains i par prio st r t d1 where "task_ref (ui_uri input) ''/uri'' = Inr i"
    "parent_of_input (ui_parent_uri input) = Inr par" "oxplow_native (ui_native input) = Inr prio"
    "oxplow_status (ui_state input) (ui_native_state input) = Inr st" "find_task live d i = Some r"
    "update_with_status_tx (edited input par prio now (task_of_row d r)) None now d = (Inr t, d1)"
    "(case st of
        None \<Rightarrow> return_op ()
      | Some to \<Rightarrow> bind_op (set_status_through t to (ui_state input) now) (\<lambda>_. return_op ())) d1 = (Inr (), d')"
    "ans = \<lparr>an_result = uri_result (ui_uri input),
            an_inverse = Some (VUpdate (update_inverse input prio (task_of_row d r))), an_changed = [i]\<rparr>"
proof -
  from assms obtain i par prio st x t d1 r where *: "task_ref (ui_uri input) ''/uri'' = Inr i"
    "parent_of_input (ui_parent_uri input) = Inr par" "oxplow_native (ui_native input) = Inr prio"
    "oxplow_status (ui_state input) (ui_native_state input) = Inr st"
    "find_task live d i = Some r" "row_to_task d r = Inr x"
    "update_with_status_tx (edited input par prio now x) None now d = (Inr t, d1)"
    "(case st of
        None \<Rightarrow> return_op ()
      | Some to \<Rightarrow> bind_op (set_status_through t to (ui_state input) now) (\<lambda>_. return_op ())) d1 = (Inr (), d')"
    "ans = \<lparr>an_result = uri_result (ui_uri input),
            an_inverse = Some (VUpdate (update_inverse input prio x)), an_changed = [i]\<rparr>"
    by (auto simp: update_tx_def bind_op_Inr get_live_Inr)
  show ?thesis by (rule that) (use * row_to_task_Inr [OF *(6)] in simp_all)
qed

lemma edited_id [simp]: "t_id (edited input par prio now t) = t_id t"
  by (simp add: edited_def)

lemma task_of_row_id: "find_task P d i = Some r \<Longrightarrow> t_id (task_of_row d r) = i"
  by (auto simp: task_of_row_def dest: find_task_Some)

lemma changes_update:
  assumes "sound d" "update_tx input now d = (Inr ans, d')"
  shows "changes (set (an_changed ans)) d d'"
  using assms(2)
proof (cases rule: update_tx_Inr)
  case (1 i par prio st r t d1)
  have one: "changes {i} d d1"
    using changes_update_with_status [OF assms(1) 1(6)] task_of_row_id [OF 1(5)] by simp
  have "t_id t = i"
    using 1(6) task_of_row_id [OF 1(5)] by (auto simp: update_with_status_tx_def bind_op_Inr get_live_Inr
        dest!: row_to_task_Inr task_of_row_id)
  then have "d' = d1 \<or> changes {i} d1 d'"
  proof (cases st)
    case (Some to)
    then obtain ch where "set_status_through t to (ui_state input) now d1 = (Inr ch, d')"
      using 1(7) by (auto simp: bind_op_Inr)
    from changes_through [OF _ this] one \<open>t_id t = i\<close> show ?thesis by (simp add: changes_def)
  qed (use 1(7) in simp)
  with one show ?thesis using changes_trans 1(8) by fastforce
qed

lemma changes_transition:
  assumes "sound d" "transition_tx uri to native_state now d = (Inr ans, d')"
  shows "changes (set (an_changed ans)) d d'"
  using assms changes_through [OF assms(1)]
  by (auto simp: transition_tx_def bind_op_Inr get_live_Inr task_of_row_def dest!: row_to_task_Inr find_task_Some)
    fastforce

lemma changes_verb:
  assumes d: "sound d" and v: "verb_tx actor call now d = (Inr ans, d')"
  shows "changes (set (an_changed ans)) d d'"
proof (cases call)
  case (VCreate input)
  with v d show ?thesis by (auto intro: changes_create)
next
  case (VUpdate input)
  with v d show ?thesis by (auto intro: changes_update)
next
  case (VTransition uri to native_state)
  with v d show ?thesis by (auto intro: changes_transition)
next
  case (VLink input)
  then obtain frm b ty where l: "create_link_tx frm (li_target input) ty now d = (Inr b, d')"
    and ans: "an_changed ans = [frm]" and live: "live_task_tx frm ''/uri'' d = Inr ()"
    using v by (auto simp: link_tx_def bind_op_Inr)
  have "frm \<in> set (ids_of d)" using live by (auto simp: live_task_tx_def split: option.splits dest: find_live_id)
  with changes_link [OF d l] ans show ?thesis by (auto simp: changes_def)
next
  case (VUnlink input)
  then obtain frm b ty where l: "delete_link_tx frm (li_target input) ty d = (Inr b, d')"
    and ans: "an_changed ans = [frm]"
    using v by (auto simp: unlink_tx_def bind_op_Inr)
  then show ?thesis using changes_unlink [OF d l] ans by (auto simp: changes_def)
next
  case (VComment uri body)
  with v changes_note [OF d] show ?thesis by (auto simp: comment_tx_def bind_op_Inr ensure_op_Inr)
next
  case (VDelete uri)
  with v changes_delete [OF d] show ?thesis by (auto simp: delete_tx_def bind_op_Inr)
next
  case (VReorder uri before after)
  with v changes_place [OF d] show ?thesis by (auto simp: reorder_tx_def bind_op_Inr)
next
  case (VMove uri to before after)
  with v changes_place [OF d] show ?thesis by (auto simp: move_tx_def bind_op_Inr)
qed

lemma run_tx_Inr:
  assumes "run_tx actor call now d = (Inr (ans, recs), d')"
  shows "verb_tx actor call now d = (Inr ans, d')" "read_records (an_changed ans) d' = Inr recs"
  using assms by (auto simp: run_tx_def bind_op_Inr)

lemma invoke_Inr: "invoke actor call now d = (Inr x, d') \<longleftrightarrow> run_tx actor call now d = (Inr x, d')"
  by (simp add: invoke_def)

lemma records_of:
  "read_records is d = Inr recs \<Longrightarrow> list_all2 (\<lambda>i r. record_tx i d = Inr r) is recs"
  by (induction "is" arbitrary: recs) (auto simp: result_simps)

lemma run_tx_ok:
  assumes "sound d" "verb_tx actor call now d = (Inr ans, d')" "set (an_changed ans) \<subseteq> set (ids_of d')"
  shows "\<exists>recs. invoke actor call now d = (Inr (ans, recs), d')"
proof -
  have "sound d'" using changes_verb [OF assms(1,2)] by (simp add: changes_def)
  from read_records_total [OF this assms(3)] obtain recs where "read_records (an_changed ans) d' = Inr recs" by blast
  with assms(2) show ?thesis unfolding invoke_Inr by (auto simp: run_tx_def bind_op_Inr)
qed

section \<open>Promises\<close>

text \<open>A list of two tasks on a thread, and one in the backlog.\<close>

definition demo_task :: "int \<Rightarrow> int option \<Rightarrow> int \<Rightarrow> task_row" where
  "demo_task i thread k =
     \<lparr>r_id = i, r_thread = thread, r_parent = None, r_title = ''t'', r_description = [],
      r_status = ''ready'', r_priority = ''medium'', r_sort = k, r_created_by = ''user'',
      r_created_at = ''1'', r_updated_at = ''1'', r_completed_at = None, r_deleted_at = None,
      r_author = None\<rparr>"

definition demo_db :: task_db where
  "demo_db =
     \<lparr>d_tasks = [demo_task 1 (Some 3) 0, demo_task 2 (Some 3) 1, demo_task 3 None 0], d_links = [],
      d_notes = [], d_threads = [3], d_task_seq = 3, d_link_seq = 0, d_note_seq = 0\<rparr>"

lemma demo_sound: "sound demo_db"
  by (simp add: sound_def demo_db_def demo_task_def row_ok_def row_checks_def completion_ok_def i64_max_def
      str_to_status_def str_to_priority_def str_to_actor_def named_def STATUSES_def)

text \<open>
  C1. A verb tells the interface all it did. Whatever it is asked, the tables stay sound; a refused
  verb leaves them as they were; and one that is not answers with the record of each task it names as
  changed, as the tables then hold it, while every other task is recorded exactly as it was.
\<close>

theorem verbs_record_what_they_change:
  assumes "sound d" "invoke actor call now d = (r, d')"
  shows "sound d' \<and> (\<forall>e. r = Inl e \<longrightarrow> d' = d)
    \<and> (\<forall>ans recs. r = Inr (ans, recs) \<longrightarrow>
         list_all2 (\<lambda>i rec. record_tx i d' = Inr rec) (an_changed ans) recs
         \<and> (\<forall>j. j \<notin> set (an_changed ans) \<longrightarrow> record_tx j d' = record_tx j d))"
proof (cases r)
  case (Inl e)
  with assms atomic_op_Inl show ?thesis by (fastforce simp: invoke_def)
next
  case (Inr x)
  then obtain ans recs where x: "r = Inr (ans, recs)" by (cases x) auto
  with assms(2) have "run_tx actor call now d = (Inr (ans, recs), d')" by (simp add: invoke_Inr)
  from run_tx_Inr [OF this] changes_verb [OF assms(1)] records_of x show ?thesis
    by (auto simp: changes_def)
qed

text \<open>Where a move asks to be, read off its two references: the list split as \<open>us @ i # vs\<close>.\<close>

lemma placed_beside:
  assumes "placement_of before after = Inr at" "place_index xs at = Inr k"
    and "us = take k xs" "vs = drop k xs"
  shows "case (before, after) of
      (None, None) \<Rightarrow> vs = []
    | (Some b, None) \<Rightarrow> \<exists>t rest. task_ref b ''/before'' = Inr t \<and> vs = t # rest
    | (None, Some a) \<Rightarrow> \<exists>t rest. task_ref a ''/after'' = Inr t \<and> us = rest @ [t]
    | (Some b, Some a) \<Rightarrow> False"
proof -
  have before: "vs = t # drop (Suc k) xs" if "at = PlBefore t" for t
    using that assms(2,4) by (auto simp: place_index_def ok_or_iff index_of_Some Cons_nth_drop_Suc)
  have after: "us = take (k - 1) xs @ [t]" if "at = PlAfter t" for t
    using that assms(2,3)
    by (auto simp: place_index_def ok_or_iff index_of_Some bind_res_Inr take_Suc_conv_app_nth)
  have last: "vs = []" if "at = PlEnd" using that assms(2,4) by (simp add: place_index_def)
  show ?thesis
    using assms(1) before after last
    by (cases before; cases after) (auto simp: placement_of_def bind_res_Inr)
qed

text \<open>
  C20. A task goes where it was asked to. Moving one puts it on the list asked for: last when no
  neighbour is named, directly before the task that \<open>before\<close> names, or directly after the one that
  \<open>after\<close> names; the rest of that list keeps its order, and every other list loses the task and
  nothing else. Naming both neighbours is never accepted.
\<close>

theorem moves_go_where_asked:
  assumes "sound d" "invoke actor (VMove uri to before after) now d = (Inr (ans, recs), d')"
  shows "\<exists>i dest us vs. task_ref uri ''/uri'' = Inr i \<and> move_dest to = Inr dest
    \<and> list_ids d' dest = us @ i # vs
    \<and> us @ vs = filter (\<lambda>t. t \<noteq> i) (list_ids d dest)
    \<and> (case (before, after) of
          (None, None) \<Rightarrow> vs = []
        | (Some b, None) \<Rightarrow> \<exists>t rest. task_ref b ''/before'' = Inr t \<and> vs = t # rest
        | (None, Some a) \<Rightarrow> \<exists>t rest. task_ref a ''/after'' = Inr t \<and> us = rest @ [t]
        | (Some b, Some a) \<Rightarrow> False)
    \<and> (\<forall>th. th \<noteq> dest \<longrightarrow> list_ids d' th = filter (\<lambda>t. t \<noteq> i) (list_ids d th))"
proof -
  from assms(2) obtain i dest at p where t: "task_ref uri ''/uri'' = Inr i" "move_dest to = Inr dest"
    "placement_of before after = Inr at" and p: "place i dest at now d = (Inr p, d')"
    unfolding invoke_Inr by (auto dest!: run_tx_Inr(1) simp: move_tx_def bind_op_Inr)
  show ?thesis
  proof (rule place_Inr [OF assms(1) p], goal_cases)
    case (1 r k)
    define xs where "xs = without i (list_ids d dest)"
    from 1 have k: "place_index xs at = Inr k" by (simp add: xs_def)
    from 1 have d': "list_ids d' dest = take k xs @ i # drop k xs"
      "\<forall>th. th \<noteq> dest \<longrightarrow> list_ids d' th = without i (list_ids d th)"
      by (simp_all add: xs_def put_def)
    show ?case
      by (intro exI conjI)
        (use t d' placed_beside [OF t(3) k refl refl] in \<open>auto simp: xs_def without_def\<close>)
  qed
qed

text \<open>The same tasks in the same order on every list, after what undoes it.\<close>

lemma thread_reads_back:
  assumes "sound d" "t \<in> set (d_threads d)"
  shows "parse_thread (typed_display Thread t) field = Inr t"
proof -
  have "id_ok \<lparr>id_kind = Thread, id_value = t\<rparr>" using assms by (auto simp: id_ok_def sound_def)
  from id_reads_back [OF this] show ?thesis
    by (simp add: parse_thread_def typed_from_str_def typed_display_def id_display_def typed_from_any_def)
qed

lemma id_in_range: "sound d \<Longrightarrow> i \<in> set (ids_of d) \<Longrightarrow> 0 \<le> i \<and> i \<le> i64_max"
  by (force simp: sound_def)

lemma neighbour_reads_back:
  assumes "\<forall>t. pl = PlBefore t \<or> pl = PlAfter t \<longrightarrow> 0 \<le> t \<and> t \<le> i64_max"
  shows "placement_of (fst (neighbour pl)) (snd (neighbour pl)) = Inr pl"
  using assms by (cases pl) (simp_all add: placement_of_def neighbour_def ref_names_task)

lemma from_place_named:
  "from_place_of xs i = PlBefore t \<or> from_place_of xs i = PlAfter t \<Longrightarrow> t \<in> set xs"
  by (auto simp: from_place_of_def index_of_Some split: option.splits if_splits)

lemma without_absent: "i \<notin> set xs \<Longrightarrow> without i xs = xs"
  by (auto simp: without_def filter_id_conv)

lemma without_twice [simp]: "without i (without i xs) = without i xs"
  by (simp add: without_def)

lemma not_in_without [simp]: "i \<notin> set (without i xs)"
  by (simp add: without_def)

lemma on_one_list:
  assumes "sound d" "find_task live d i = Some r"
  shows "i \<in> set (list_ids d th) \<longleftrightarrow> th = r_thread r"
  using find_task_Some [OF assms(2)] same_task_row [OF assms(1)] by (auto simp: list_ids_set on_list_def)

lemma place_undone:
  assumes d: "sound d" and p: "place i dest at now d = (Inr p, d1)"
  shows "\<exists>p2 d2. place i (pl_from_thread p) (pl_from_place p) now2 d1 = (Inr p2, d2)
    \<and> (\<forall>th. list_ids d2 th = list_ids d th)"
proof (rule place_Inr [OF d p], goal_cases)
  case (1 r k)
  let ?from = "r_thread r"
  define xs where "xs = list_ids d ?from"
  have xs: "distinct xs" "i \<in> set xs"
    unfolding xs_def using list_ids_distinct [OF d] on_one_list [OF d 1(1)] by auto
  have rest: "without i (list_ids d1 ?from) = without i xs"
  proof (cases "?from = dest")
    case True
    with 1(9) show ?thesis by (simp add: xs_def without_put)
  next
    case False
    with 1(10) [of ?from] show ?thesis by (simp add: xs_def)
  qed
  obtain k2 where k2: "place_index (without i xs) (from_place_of xs i) = Inr k2" "put i k2 (without i xs) = xs"
    by (rule put_back [OF xs])
  obtain s where s: "find_task live d1 i = Some s" using 1(13) by blast
  have r: "r \<in> set (d_tasks d)" using find_task_Some [OF 1(1)] by simp
  have threads: "\<forall>t. ?from = Some t \<longrightarrow> t \<in> set (d_threads d1)"
    using d r 1(5) by (auto simp: sound_def row_ok_def)
  obtain p2 d2 where "place_task_tx i ?from (pl_from_place p) now2 d1 = (Inr p2, d2)"
    using place_task_tx_live [OF 1(4) s _ threads] k2(1) by (simp add: 1(12) xs_def [symmetric] rest)
  then have p2: "place i ?from (pl_from_place p) now2 d1 = (Inr p2, d2)"
    using threads by (cases ?from) (simp_all add: place_def map_err_op_def ensure_def)
  have "\<forall>th. list_ids d2 th = list_ids d th"
  proof (rule place_Inr [OF 1(4) p2], goal_cases)
    case (1 s' k')
    then have k': "k' = k2" using k2(1) 1(12) by (simp add: \<open>pl_from_place p = _\<close> xs_def [symmetric] rest)
    show ?case
    proof
      fix th
      show "list_ids d2 th = list_ids d th"
      proof (cases "th = ?from")
        case True
        with 1(9) k' k2(2) rest show ?thesis by (simp add: xs_def)
      next
        case False
        then have i: "i \<notin> set (list_ids d th)" using on_one_list [OF d \<open>find_task live d i = Some r\<close>] by simp
        have "list_ids d1 th = (if th = dest then put i k (without i (list_ids d dest)) else without i (list_ids d th))"
          using \<open>list_ids d1 dest = _\<close> \<open>\<And>th. th \<noteq> dest \<Longrightarrow> list_ids d1 th = _ th\<close> by simp
        then have "without i (list_ids d1 th) = list_ids d th"
          using i by (auto simp: without_put without_absent split: if_splits)
        with 1(10) [OF False] show ?thesis by simp
      qed
    qed
  qed
  with p2 1(11) show ?case by auto
qed

lemma place_changed_ids:
  assumes "sound d" "place i dest at now d = (Inr p, d')"
  shows "set (i # pl_renumbered p) \<subseteq> set (ids_of d')"
proof (rule place_Inr [OF assms], goal_cases)
  case (1 r k)
  then have "set (put i k (without i (list_ids d dest))) \<subseteq> set (ids_of d)"
    using find_live_id [OF 1(1)] by (auto simp: put_facts(1) without_def list_ids_set)
  with renumbered_sub [of i 0 "put i k (without i (list_ids d dest))" d] 1(6,14) find_live_id [OF 1(1)]
  show ?case by auto
qed

lemma get_task_live:
  assumes "sound d" "find_task live d i = Some r"
  shows "get_task_tx i d = Inr (Some (task_of_row d r))"
  using assms find_task_Some [OF assms(2)] by (simp add: get_task_tx_def row_to_task_ok sound_def row_ok_def)

lemma get_task_Some:
  "get_task_tx i d = Inr (Some t) \<Longrightarrow> \<exists>r. find_task live d i = Some r \<and> t = task_of_row d r"
  by (auto simp: get_task_tx_def result_simps dest: row_to_task_Inr split: option.splits)

lemma from_place_in_range:
  assumes "sound d" "pl_from_place p = from_place_of (list_ids d th) i"
  shows "placement_of (fst (neighbour (pl_from_place p))) (snd (neighbour (pl_from_place p))) = Inr (pl_from_place p)"
proof (rule neighbour_reads_back, intro allI impI)
  fix t assume "pl_from_place p = PlBefore t \<or> pl_from_place p = PlAfter t"
  with assms(2) from_place_named have "t \<in> set (list_ids d th)" by metis
  then show "0 \<le> t \<and> t \<le> i64_max" by (intro id_in_range [OF assms(1)]) (auto simp: list_ids_set)
qed

lemma move_undone:
  assumes d: "sound d" and v: "move_tx uri to before after now d = (Inr ans, d1)"
  shows "\<exists>undo ans2 d2. an_inverse ans = Some undo \<and> verb_tx other undo now2 d1 = (Inr ans2, d2)
    \<and> set (an_changed ans2) \<subseteq> set (ids_of d2) \<and> (\<forall>th. list_ids d2 th = list_ids d th)"
proof -
  from v obtain i dest at p where i: "task_ref uri ''/uri'' = Inr i" and p: "place i dest at now d = (Inr p, d1)"
    and ans: "an_inverse ans = Some (VMove uri (move_to (pl_from_thread p))
        (fst (neighbour (pl_from_place p))) (snd (neighbour (pl_from_place p))))"
    by (auto simp: move_tx_def bind_op_Inr)
  obtain r where r: "find_task live d i = Some r" "sound d1" "pl_from_thread p = r_thread r"
    "pl_from_place p = from_place_of (list_ids d (r_thread r)) i"
    by (rule place_Inr [OF d p]) (rule that; assumption)
  have "t \<in> set (d_threads d)" if "r_thread r = Some t" for t
    using d that find_task_Some [OF r(1)] by (auto simp: sound_def row_ok_def)
  then have dest: "move_dest (move_to (pl_from_thread p)) = Inr (pl_from_thread p)"
    using r(3) thread_reads_back [OF d] by (cases "r_thread r") (simp_all add: move_dest_def move_to_def)
  obtain p2 d2 where p2: "place i (pl_from_thread p) (pl_from_place p) now2 d1 = (Inr p2, d2)"
    and lists: "\<forall>th. list_ids d2 th = list_ids d th"
    using place_undone [OF d p] by blast
  show ?thesis
    using ans lists place_changed_ids [OF r(2) p2] from_place_in_range [OF d r(4)] dest
    by (simp add: move_tx_def i bind_op_step [of "place i _ _ _"] p2 return_op_def)
qed

lemma reorder_undone:
  assumes d: "sound d" and v: "reorder_tx uri before after now d = (Inr ans, d1)"
  shows "\<exists>undo ans2 d2. an_inverse ans = Some undo \<and> verb_tx other undo now2 d1 = (Inr ans2, d2)
    \<and> set (an_changed ans2) \<subseteq> set (ids_of d2) \<and> (\<forall>th. list_ids d2 th = list_ids d th)"
proof -
  from v obtain i at t p where i: "task_ref uri ''/uri'' = Inr i" and t: "get_task_tx i d = Inr (Some t)"
    and p: "place i (t_thread t) at now d = (Inr p, d1)"
    and ans: "an_inverse ans = Some (VReorder uri
        (fst (neighbour (pl_from_place p))) (snd (neighbour (pl_from_place p))))"
    by (auto simp: reorder_tx_def bind_op_Inr result_simps)
  obtain r s where r: "find_task live d i = Some r" "sound d1" "pl_from_thread p = r_thread r"
    "pl_from_place p = from_place_of (list_ids d (r_thread r)) i"
    and s: "find_task live d1 i = Some s" "r_thread s = t_thread t"
    by (rule place_Inr [OF d p], elim exE conjE) (rule that; assumption)
  have own: "t_thread (task_of_row d1 s) = pl_from_thread p"
    using get_task_Some [OF t] r s by (auto simp: task_of_row_def)
  obtain p2 d2 where p2: "place i (pl_from_thread p) (pl_from_place p) now2 d1 = (Inr p2, d2)"
    and lists: "\<forall>th. list_ids d2 th = list_ids d th"
    using place_undone [OF d p] by blast
  have "map_err_op from_domain (read_op (get_task_tx i)) d1 = (Inr (Some (task_of_row d1 s)), d1)"
    using get_task_live [OF r(2) s(1)] by simp
  then show ?thesis
    using ans lists place_changed_ids [OF r(2) p2] from_place_in_range [OF d r(4)]
    by (simp add: reorder_tx_def i bind_op_step [of "map_err_op _ _"] own bind_op_step [of "place i _ _ _"] p2 return_op_def)
qed

text \<open>
  C14. Undoing a move or a reorder puts every list back. Whoever runs what it answers as its inverse,
  next and at any time, it is not refused, and every list then holds its tasks in the order it held
  them before.
\<close>

theorem places_are_undone:
  assumes "sound d" "invoke actor call now d = (Inr (ans, recs), d1)"
    and "(\<exists>uri to before after. call = VMove uri to before after)
      \<or> (\<exists>uri before after. call = VReorder uri before after)"
  shows "\<exists>undo ans2 recs2 d2. an_inverse ans = Some undo
    \<and> invoke other undo now2 d1 = (Inr (ans2, recs2), d2) \<and> (\<forall>th. list_ids d2 th = list_ids d th)"
proof -
  have v: "verb_tx actor call now d = (Inr ans, d1)" using assms(2) run_tx_Inr(1) by (simp add: invoke_Inr)
  then have d1: "sound d1" using changes_verb [OF assms(1)] by (auto simp: changes_def)
  have "\<exists>undo ans2 d2. an_inverse ans = Some undo \<and> verb_tx other undo now2 d1 = (Inr ans2, d2)
      \<and> set (an_changed ans2) \<subseteq> set (ids_of d2) \<and> (\<forall>th. list_ids d2 th = list_ids d th)"
    using assms(3) v move_undone [OF assms(1)] reorder_undone [OF assms(1)] by auto
  then show ?thesis using run_tx_ok [OF d1] by blast
qed

text \<open>A row without the moments of its status, and one without its status.\<close>

definition timeless :: "task_row \<Rightarrow> task_row" where
  "timeless r = r\<lparr>r_updated_at := [], r_completed_at := map_option (\<lambda>_. []) (r_completed_at r)\<rparr>"

definition statusless :: "task_row \<Rightarrow> task_row" where
  "statusless r = r\<lparr>r_status := [], r_updated_at := [], r_completed_at := None\<rparr>"

definition moves_status :: "(task_row \<Rightarrow> task_row) \<Rightarrow> bool" where
  "moves_status g \<longleftrightarrow> keeps_id g \<and> (\<forall>r. statusless (g r) = statusless r)"

lemma moves_status_row [simp]: "moves_status (status_row t)"
  by (simp add: moves_status_def statusless_def status_row_def)

lemma moves_status_comp: "moves_status f \<Longrightarrow> moves_status g \<Longrightarrow> moves_status (\<lambda>r. g (f r))"
  by (simp add: moves_status_def keeps_id_def)

lemma moves_status_live: "moves_status g \<Longrightarrow> live (g r) = live r"
proof -
  assume "moves_status g"
  then have "r_deleted_at (statusless (g r)) = r_deleted_at (statusless r)" by (simp add: moves_status_def)
  then show ?thesis by (simp add: statusless_def live_def)
qed

lemma row_set_comp:
  "keeps_id f \<Longrightarrow> row_set i g (row_set i f d) = row_set i (\<lambda>r. g (f r)) d"
  by (auto simp: row_set_def keeps_id_def intro!: task_db.equality)

lemma find_row_set:
  assumes "sound d" "find_task live d i = Some r" "keeps_id f" "live (f r)"
  shows "find_task live (row_set i f d) i = Some (f r)"
proof -
  have "distinct (ids_of (row_set i f d))"
    unfolding ids_row_set [OF assms(3)] using assms(1) by (simp add: sound_def)
  then show ?thesis
    using find_task_Some [OF assms(2)] assms(3,4)
    by (subst find_task_iff) (auto simp: keeps_id_def intro!: image_eqI [of _ _ r])
qed

lemma set_status_row:
  assumes "sound d" "find_task live d i = Some r"
  shows "r_status (status_row (set_status to now (task_of_row d r)) r) = status_to_str to"
    "r_completed_at (status_row (set_status to now (task_of_row d r)) r) \<noteq> None \<longleftrightarrow>
       to = TsDone \<or> to = TsArchived \<and> r_completed_at r \<noteq> None"
proof -
  have ok: "row_ok (set (d_threads d)) (set (ids_of d)) r"
    using assms(1) find_task_Some [OF assms(2)] by (simp add: sound_def)
  show "r_status (status_row (set_status to now (task_of_row d r)) r) = status_to_str to"
    by (simp add: status_row_def)
  have "t_status (task_of_row d r) = TsDone \<Longrightarrow> r_completed_at r \<noteq> None"
  proof -
    obtain st where "r_status r = status_to_str st"
      using ok by (auto simp: row_ok_def row_checks_def dest: names_back(1) [THEN sym])
    moreover assume "t_status (task_of_row d r) = TsDone"
    ultimately show ?thesis using ok by (auto simp: row_ok_def completion_ok_def task_of_row_def)
  qed
  then show "r_completed_at (status_row (set_status to now (task_of_row d r)) r) \<noteq> None \<longleftrightarrow>
       to = TsDone \<or> to = TsArchived \<and> r_completed_at r \<noteq> None"
    by (auto simp: status_row_def set_status_def task_of_row_def)
qed

lemma through_row:
  assumes d: "sound d" and r: "find_task live d i = Some r"
  shows "\<exists>ch g. set_status_through (task_of_row d r) to asked now d = (Inr ch, row_set i g d)
    \<and> sc_before ch = task_of_row d r \<and> moves_status g \<and> r_status (g r) = status_to_str to
    \<and> (to = TsArchived \<longrightarrow> (\<exists>s. asked = Some s \<and> (s = CsDone \<or> s = CsCanceled)) \<longrightarrow>
        (r_completed_at (g r) \<noteq> None \<longleftrightarrow> asked = Some CsDone))
    \<and> (to \<noteq> TsArchived \<longrightarrow> (r_completed_at (g r) \<noteq> None \<longleftrightarrow> to = TsDone))"
proof -
  define t where "t = task_of_row d r"
  define f where "f s = status_row (set_status s now t)" for s
  have i: "t_id t = i" unfolding t_def by (rule task_of_row_id [OF r])
  have set1: "set_status_tx i s now d = (Inr \<lparr>sc_before = t, sc_after = set_status s now t\<rparr>, row_set i (f s) d)" for s
    unfolding f_def t_def by (rule set_status_tx_live [OF d r])
  define through where "through = (if to = TsArchived
       then Option.bind (map_option native_status asked)
         (\<lambda>s. if (t_completed_at t \<noteq> None) \<noteq> (s = TsDone) then Some s else None) else None)"
  show ?thesis
  proof (cases through)
    case None
    have "set_status_through t to asked now d = (Inr \<lparr>sc_before = t, sc_after = set_status to now t\<rparr>, row_set i (f to) d)"
      using None set1 [of to]
      by (simp add: set_status_through_def through_def [symmetric] Let_def i bind_op_step [of "map_err_op _ _"] return_op_def)
    moreover have "to = TsArchived \<Longrightarrow> asked = Some s \<Longrightarrow> s = CsDone \<or> s = CsCanceled
        \<Longrightarrow> r_completed_at r \<noteq> None \<longleftrightarrow> s = CsDone" for s
      using None by (auto simp: through_def t_def task_of_row_def split: if_splits)
    ultimately show ?thesis
      using set_status_row [OF d r, of to now] unfolding t_def [symmetric] f_def [symmetric]
      by (intro exI [of _ "\<lparr>sc_before = t, sc_after = set_status to now t\<rparr>"] exI [of _ "f to"])
        (auto simp: f_def)
  next
    case (Some s)
    then have to: "to = TsArchived" and asked: "\<exists>a. asked = Some a \<and> s = native_status a"
      by (auto simp: through_def bind_eq_Some_conv split: if_splits)
    let ?d = "row_set i (f s) d"
    have d1: "sound ?d" using sound_set_status [OF d set1] .
    have live1: "live (f s r)" using find_task_Some [OF r] by (simp add: f_def moves_status_live)
    have k: "keeps_id (f s)" by (simp add: f_def)
    have r1: "find_task live ?d i = Some (f s r)" by (rule find_row_set [OF d r k live1])
    define g where "g x = status_row (set_status to now (task_of_row ?d (f s r))) (f s x)" for x
    have set2: "set_status_tx i to now ?d = (Inr \<lparr>sc_before = task_of_row ?d (f s r),
        sc_after = set_status to now (task_of_row ?d (f s r))\<rparr>, row_set i g d)"
      using set_status_tx_live [OF d1 r1, of to now] by (simp add: row_set_comp [OF k] g_def [abs_def])
    have "set_status_through t to asked now d = (Inr \<lparr>sc_before = t,
        sc_after = set_status to now (task_of_row ?d (f s r))\<rparr>, row_set i g d)"
      using Some set1 [of s] set2
      by (simp add: set_status_through_def through_def [symmetric] Let_def i bind_op_step [of "map_err_op _ _"]
          bind_op_step [of "bind_op _ _"] return_op_def)
    moreover have "moves_status g" unfolding g_def [abs_def]
      by (rule moves_status_comp) (simp_all add: f_def)
    moreover have "r_status (g r) = status_to_str to" by (simp add: g_def status_row_def)
    moreover have "asked = Some a \<Longrightarrow> a = CsDone \<or> a = CsCanceled
        \<Longrightarrow> r_completed_at (g r) \<noteq> None \<longleftrightarrow> asked = Some CsDone" for a
      using set_status_row(2) [OF d1 r1, of to now] set_status_row(2) [OF d r, of s now] to asked
      unfolding g_def [symmetric] t_def [symmetric] f_def [symmetric] by auto
    ultimately show ?thesis using to
      by (intro exI [of _ "\<lparr>sc_before = t, sc_after = set_status to now (task_of_row ?d (f s r))\<rparr>"] exI [of _ g])
        (auto simp: t_def)
  qed
qed

lemma timeless_eq:
  assumes "statusless x = statusless y" "r_status x = r_status y"
    "r_completed_at x \<noteq> None \<longleftrightarrow> r_completed_at y \<noteq> None"
  shows "timeless x = timeless y"
proof -
  have t: "timeless z = (statusless z)\<lparr>r_status := r_status z, r_completed_at := map_option (\<lambda>_. []) (r_completed_at z)\<rparr>" for z
    by (simp add: timeless_def statusless_def)
  have "map_option (\<lambda>_. [] :: string) (r_completed_at x) = map_option (\<lambda>_. []) (r_completed_at y)"
    using assms(3) by (cases "r_completed_at x"; cases "r_completed_at y") simp_all
  with assms(1,2) show ?thesis by (simp add: t)
qed

lemma timeless_row_set:
  assumes "sound d" "r \<in> set (d_tasks d)" "r_id r = i" "timeless (f r) = timeless r"
  shows "map timeless (d_tasks (row_set i f d)) = map timeless (d_tasks d)"
proof -
  have "timeless (if r_id s = i then f s else s) = timeless s" if "s \<in> set (d_tasks d)" for s
    using same_task_row [OF assms(1) that assms(2)] assms(3,4) by (cases "r_id s = i") simp_all
  then show ?thesis by simp
qed

lemma status_text: "row_checks r \<Longrightarrow> status_to_str (t_status (task_of_row d r)) = r_status r"
  by (auto simp: row_checks_def task_of_row_def dest: names_back)

lemma canonical_completed:
  assumes "row_ok T I r"
  shows "t_status (task_of_row d r) = TsArchived \<Longrightarrow>
      canonical_of (task_of_row d r) = (if r_completed_at r \<noteq> None then CsDone else CsCanceled)"
    "t_status (task_of_row d r) \<noteq> TsArchived \<Longrightarrow>
      r_completed_at r \<noteq> None \<longleftrightarrow> t_status (task_of_row d r) = TsDone"
proof -
  show "t_status (task_of_row d r) = TsArchived \<Longrightarrow>
      canonical_of (task_of_row d r) = (if r_completed_at r \<noteq> None then CsDone else CsCanceled)"
    by (simp add: canonical_of_def state_pair_def) (simp add: task_of_row_def)
  have "status_to_str (t_status (task_of_row d r)) = r_status r" using assms status_text by (simp add: row_ok_def)
  with assms show "t_status (task_of_row d r) \<noteq> TsArchived \<Longrightarrow>
      r_completed_at r \<noteq> None \<longleftrightarrow> t_status (task_of_row d r) = TsDone"
    using status_done_text [of "t_status (task_of_row d r)"] by (auto simp: row_ok_def completion_ok_def)
qed

text \<open>A status taken back, through whatever states it went.\<close>

lemma status_restored:
  assumes r: "row_ok T I r" and x: "statusless x = statusless r" "r_status x = r_status r"
    and a: "t_status (task_of_row d r) = TsArchived \<longrightarrow>
        (\<exists>s. Some (canonical_of (task_of_row d r)) = Some s \<and> (s = CsDone \<or> s = CsCanceled)) \<longrightarrow>
        (r_completed_at x \<noteq> None \<longleftrightarrow> Some (canonical_of (task_of_row d r)) = Some CsDone)"
    and b: "t_status (task_of_row d r) \<noteq> TsArchived \<longrightarrow>
        (r_completed_at x \<noteq> None \<longleftrightarrow> t_status (task_of_row d r) = TsDone)"
  shows "timeless x = timeless r"
proof (rule timeless_eq [OF x])
  show "r_completed_at x \<noteq> None \<longleftrightarrow> r_completed_at r \<noteq> None"
    using a b canonical_completed [OF r, of d]
    by (cases "t_status (task_of_row d r) = TsArchived") (auto split: if_splits)
qed

lemma sound_row: "sound d \<Longrightarrow> r \<in> set (d_tasks d) \<Longrightarrow> row_ok (set (d_threads d)) (set (ids_of d)) r"
  by (simp add: sound_def)

lemma transition_undone:
  assumes d: "sound d" and v: "transition_tx uri to native_state now d = (Inr ans, d1)"
  shows "\<exists>undo ans2 d2. an_inverse ans = Some undo \<and> verb_tx other undo now2 d1 = (Inr ans2, d2)
    \<and> set (an_changed ans2) \<subseteq> set (ids_of d2) \<and> map timeless (d_tasks d2) = map timeless (d_tasks d)"
proof -
  from v obtain i st t ch where i: "task_ref uri ''/uri'' = Inr i" and t: "get_live i d = (Inr t, d)"
    and through: "set_status_through t st (Some to) now d = (Inr ch, d1)"
    and ans: "an_inverse ans = Some (VTransition uri (canonical_of (sc_before ch))
        (Some (status_to_str (t_status (sc_before ch)))))"
    by (auto simp: transition_tx_def bind_op_Inr get_live_Inr)
  then obtain r where r: "find_task live d i = Some r" and t: "t = task_of_row d r"
    by (auto simp: get_live_Inr dest: row_to_task_Inr)
  have rr: "r \<in> set (d_tasks d)" "r_id r = i" "live r" using find_task_Some [OF r] by auto
  have ok: "row_ok (set (d_threads d)) (set (ids_of d)) r" by (rule sound_row [OF d rr(1)])
  obtain g where g: "d1 = row_set i g d" "sc_before ch = t" "moves_status g"
    using through_row [OF d r, of st "Some to" now] through t by auto
  have d1: "sound d1" using changes_through [OF d through] by (simp add: changes_def)
  have k: "keeps_id g" using g(3) by (simp add: moves_status_def)
  have r1: "find_task live d1 i = Some (g r)"
    unfolding g(1) using rr g(3) by (intro find_row_set [OF d r k]) (simp add: moves_status_live)
  let ?st = "t_status t" and ?cs = "canonical_of t"
  have cs: "?cs = state_of ?st (t_completed_at t \<noteq> None)" by (simp add: canonical_of_def state_pair_def)
  have same_state: "oxplow_status (Some ?cs) (Some (status_to_str ?st)) = Inr (Some ?st)"
    unfolding cs by (rule state_pair_reads_back)
  obtain ch2 g2 where g2: "set_status_through (task_of_row d1 (g r)) ?st (Some ?cs) now2 d1 = (Inr ch2, row_set i g2 d1)"
    "moves_status g2" "r_status (g2 (g r)) = status_to_str ?st"
    and c: "?st = TsArchived \<longrightarrow> (\<exists>s. Some ?cs = Some s \<and> (s = CsDone \<or> s = CsCanceled)) \<longrightarrow>
        (r_completed_at (g2 (g r)) \<noteq> None \<longleftrightarrow> Some ?cs = Some CsDone)"
      "?st \<noteq> TsArchived \<longrightarrow> (r_completed_at (g2 (g r)) \<noteq> None \<longleftrightarrow> ?st = TsDone)"
    using through_row [OF d1 r1, of ?st "Some ?cs" now2] by blast
  have "timeless (g2 (g r)) = timeless r"
    by (rule status_restored [OF ok, of _ d])
      (use c g(3) g2(2,3) ok t in \<open>simp_all add: moves_status_def status_text row_ok_def\<close>)
  then have "map timeless (d_tasks (row_set i g2 d1)) = map timeless (d_tasks d)"
    unfolding g(1) row_set_comp [OF k] by (rule timeless_row_set [OF d rr(1,2)])
  moreover have "map_err_op (or_not_found VrFailed) (get_live i) d1 = (Inr (task_of_row d1 (g r)), d1)"
    using get_live_found [OF d1 r1] by simp
  moreover have "i \<in> set (ids_of (row_set i g2 d1))"
    using find_live_id [OF r1] g2(2) ids_row_set by (metis moves_status_def)
  ultimately show ?thesis
    using ans g(2) g2(1) same_state
    by (simp add: transition_tx_def i bind_op_step [of "map_err_op _ _"]
        bind_op_step [of "set_status_through _ _ _ _"] return_op_def del: set_map row_set_simps)
qed

text \<open>What an edit writes on its row.\<close>

definition edit_row ::
  "update_input \<Rightarrow> int option option \<Rightarrow> task_priority option \<Rightarrow> string \<Rightarrow> task_row \<Rightarrow> task_row" where
  "edit_row input par prio now r =
     r\<lparr>r_title := (case ui_title input of Some t \<Rightarrow> t | None \<Rightarrow> r_title r),
       r_description := (case ui_body input of Some b \<Rightarrow> b | None \<Rightarrow> r_description r),
       r_priority := (case prio of Some p \<Rightarrow> priority_to_str p | None \<Rightarrow> r_priority r),
       r_parent := (case par of Some p \<Rightarrow> p | None \<Rightarrow> r_parent r),
       r_updated_at := now\<rparr>"

lemma keeps_id_edit [simp]: "keeps_id (edit_row input par prio now)"
  by (simp add: keeps_id_def edit_row_def)

lemma write_edited:
  assumes "row_checks r" "live r"
  shows "write_fields (edited input par prio now (task_of_row d r)) r = edit_row input par prio now r"
proof -
  have "map_option author_to_str (Option.bind (r_author r) str_to_author) = r_author r"
    using assms(1) by (cases "r_author r") (auto simp: row_checks_def dest: names_back)
  moreover have "priority_to_str (the (str_to_priority (r_priority r))) = r_priority r"
    using assms(1) by (auto simp: row_checks_def dest: names_back)
  ultimately show ?thesis
    using assms(2)
    by (intro task_row.equality) (simp_all add: write_fields_def edited_def task_of_row_def edit_row_def live_def
        split: option.splits)
qed

lemma update_with_status_edit:
  assumes d: "sound d" and r: "find_task live d i = Some r"
    and par: "\<forall>p. par = Some (Some p) \<longrightarrow> p \<in> set (ids_of d)"
  shows "update_with_status_tx (edited input par prio now (task_of_row d r)) None now d
    = (Inr (task_of_row (row_set i (edit_row input par prio now) d) (edit_row input par prio now r)),
       row_set i (edit_row input par prio now) d)"
    and "sound (row_set i (edit_row input par prio now) d)"
    and "find_task live (row_set i (edit_row input par prio now) d) i = Some (edit_row input par prio now r)"
proof -
  let ?item = "edited input par prio now (task_of_row d r)"
  have rr: "r \<in> set (d_tasks d)" "r_id r = i" "live r" using find_task_Some [OF r] by auto
  have ok: "row_ok (set (d_threads d)) (set (ids_of d)) r" by (rule sound_row [OF d rr(1)])
  have i: "t_id ?item = i" using task_of_row_id [OF r] by simp
  have refs: "refs_ok d (ids_of d) (t_thread ?item) (t_parent ?item)"
    using ok par by (auto simp: refs_ok_def edited_def task_of_row_def row_ok_def split: option.splits)
  have up: "update_task_tx ?item d = (Inr 1, row_set i (write_fields ?item) d)"
    using update_task_tx_live [OF d _ refs] r i by simp
  have eq: "row_set i (write_fields ?item) d = row_set i (edit_row input par prio now) d"
  proof -
    have "(if r_id s = i then write_fields ?item s else s) = (if r_id s = i then edit_row input par prio now s else s)"
      if "s \<in> set (d_tasks d)" for s
      using same_task_row [OF d that rr(1)] rr write_edited [of r] ok by (cases "r_id s = i") (simp_all add: row_ok_def)
    then show ?thesis by (simp add: row_set_def cong: map_cong)
  qed
  show snd: "sound (row_set i (edit_row input par prio now) d)"
    using sound_update_task [OF d up] eq by simp
  show f: "find_task live (row_set i (edit_row input par prio now) d) i = Some (edit_row input par prio now r)"
    by (rule find_row_set [OF d r]) (use rr in \<open>simp_all add: live_def edit_row_def\<close>)
  show "update_with_status_tx ?item None now d
    = (Inr (task_of_row (row_set i (edit_row input par prio now) d) (edit_row input par prio now r)),
       row_set i (edit_row input par prio now) d)"
    using up get_live_found [OF snd f] unfolding eq
    by (simp add: update_with_status_tx_def bind_op_step [of "update_task_tx _"] task_of_row_id [OF r])
qed

definition status_moved :: "task_status option \<Rightarrow> canonical_state option \<Rightarrow> (task_row \<Rightarrow> task_row) \<Rightarrow> task_row \<Rightarrow> bool" where
  "status_moved st asked g r \<longleftrightarrow>
     (case st of
        None \<Rightarrow> g = (\<lambda>r. r)
      | Some to \<Rightarrow>
          moves_status g \<and> r_status (g r) = status_to_str to
          \<and> (to = TsArchived \<longrightarrow> (\<exists>s. asked = Some s \<and> (s = CsDone \<or> s = CsCanceled)) \<longrightarrow>
              (r_completed_at (g r) \<noteq> None \<longleftrightarrow> asked = Some CsDone))
          \<and> (to \<noteq> TsArchived \<longrightarrow> (r_completed_at (g r) \<noteq> None \<longleftrightarrow> to = TsDone)))"

lemma update_tx_run:
  assumes d: "sound d" and r: "find_task live d i = Some r"
    and input: "task_ref (ui_uri input) ''/uri'' = Inr i" "parent_of_input (ui_parent_uri input) = Inr par"
      "oxplow_native (ui_native input) = Inr prio"
      "oxplow_status (ui_state input) (ui_native_state input) = Inr st"
    and par: "\<forall>p. par = Some (Some p) \<longrightarrow> p \<in> set (ids_of d)"
  shows "\<exists>g. update_tx input now d
      = (Inr \<lparr>an_result = uri_result (ui_uri input),
              an_inverse = Some (VUpdate (update_inverse input prio (task_of_row d r))), an_changed = [i]\<rparr>,
         row_set i (\<lambda>r. g (edit_row input par prio now r)) d)
    \<and> status_moved st (ui_state input) g (edit_row input par prio now r)"
proof -
  note e = update_with_status_edit [OF d r par, of input prio now]
  let ?d = "row_set i (edit_row input par prio now) d" and ?r = "edit_row input par prio now r"
  have get: "map_err_op (or_not_found VrFailed) (get_live i) d = (Inr (task_of_row d r), d)"
    using get_live_found [OF d r] by simp
  have upd: "map_err_op (or_not_found VrFailed)
        (update_with_status_tx (edited input par prio now (task_of_row d r)) None now) d
      = (Inr (task_of_row ?d ?r), ?d)"
    using e(1) by simp
  show ?thesis
  proof (cases st)
    case None
    with get upd show ?thesis
      by (intro exI [of _ "\<lambda>r. r"])
        (simp add: update_tx_def input bind_op_step [of "map_err_op _ _"] return_op_def status_moved_def)
  next
    case (Some to)
    from through_row [OF e(2,3), of to "ui_state input" now] obtain ch g where
      g: "set_status_through (task_of_row ?d ?r) to (ui_state input) now ?d = (Inr ch, row_set i g ?d)"
      "status_moved st (ui_state input) g ?r"
      unfolding status_moved_def Some by auto
    have "row_set i g ?d = row_set i (\<lambda>r. g (edit_row input par prio now r)) d" by (rule row_set_comp) simp
    with get upd g Some show ?thesis
      by (intro exI [of _ g])
        (simp add: update_tx_def input bind_op_step [of "map_err_op _ _"]
          bind_op_step [of "bind_op (set_status_through _ _ _ _) _"]
          bind_op_step [of "set_status_through _ _ _ _"] return_op_def)
  qed
qed

lemma statusless_edit:
  "statusless (edit_row input par prio now x) = edit_row input par prio [] (statusless x)"
  by (simp add: statusless_def edit_row_def split: option.split)

lemma edit_undone:
  assumes r: "row_checks r" and x: "statusless x = statusless (edit_row input par prio now r)"
    and par: "par' = (if par = None then None else Some (r_parent r))"
  shows "statusless (edit_row (update_inverse input prio (task_of_row d r)) par'
      (map_option (\<lambda>_. t_priority (task_of_row d r)) prio) now2 x) = statusless r"
proof -
  have p: "priority_to_str (the (str_to_priority (r_priority r))) = r_priority r"
    using r by (auto simp: row_checks_def dest: names_back)
  show ?thesis
    unfolding statusless_edit x par
    by (simp add: edit_row_def statusless_def update_inverse_def Let_def task_of_row_def p split: option.split)
qed

lemma update_undone:
  assumes d: "sound d" and v: "update_tx input now d = (Inr ans, d1)"
  shows "\<exists>undo ans2 d2. an_inverse ans = Some undo \<and> verb_tx other undo now2 d1 = (Inr ans2, d2)
    \<and> set (an_changed ans2) \<subseteq> set (ids_of d2) \<and> map timeless (d_tasks d2) = map timeless (d_tasks d)"
  using v
proof (cases rule: update_tx_Inr)
  case (1 i par prio st r t d')
  have rr: "r \<in> set (d_tasks d)" "r_id r = i" "live r" using find_task_Some [OF 1(5)] by auto
  have ok: "row_ok (set (d_threads d)) (set (ids_of d)) r" by (rule sound_row [OF d rr(1)])
  have par: "\<forall>p. par = Some (Some p) \<longrightarrow> p \<in> set (ids_of d)"
  proof -
    from 1(6) obtain n where "update_task_tx (edited input par prio now (task_of_row d r)) d = (Inr n, d')" "n \<noteq> 0"
      by (auto simp: update_with_status_tx_def bind_op_Inr ensure_op_Inr get_live_Inr)
    then show ?thesis
      by (rule update_task_tx_Inr [OF d]) (auto simp: refs_ok_def edited_def split: option.splits)
  qed
  obtain g where run: "update_tx input now d = (Inr ans, row_set i (\<lambda>r. g (edit_row input par prio now r)) d)"
    and g: "status_moved st (ui_state input) g (edit_row input par prio now r)"
    using update_tx_run [OF d 1(5,1,2,3,4) par, of now] 1(8) by blast
  let ?f = "\<lambda>r. g (edit_row input par prio now r)" and ?t = "task_of_row d r"
  have d1: "d1 = row_set i ?f d" using run v by simp
  have s1: "sound d1" using changes_update [OF d v] by (simp add: changes_def)
  have ms: "moves_status g" using g by (cases st) (auto simp: status_moved_def moves_status_def keeps_id_def)
  have k: "keeps_id ?f" using ms by (simp add: moves_status_def keeps_id_def edit_row_def)
  have r1: "find_task live d1 i = Some (?f r)"
    unfolding d1 by (rule find_row_set [OF d 1(5) k]) (use rr ms in \<open>simp add: moves_status_live\<close>, simp add: live_def edit_row_def)
  let ?undo = "update_inverse input prio ?t"
  define par' where "par' = (if par = None then None else Some (r_parent r))"
  have ids: "set (ids_of d1) = set (ids_of d)" unfolding d1 ids_row_set [OF k] ..
  have parent: "parent_of_input (ui_parent_uri ?undo) = Inr par'"
  proof (cases "ui_parent_uri input")
    case None
    with 1(2) show ?thesis by (simp add: update_inverse_def Let_def parent_of_input_def par'_def)
  next
    case (Some u)
    then have "par \<noteq> None" using 1(2) by (auto simp: parent_of_input_def result_simps split: if_splits)
    moreover have "work_item_ref p \<noteq> []" "task_ref (work_item_ref p) ''/parent_uri'' = Inr p" if "r_parent r = Some p" for p
    proof -
      have "p \<in> set (ids_of d)" using ok that by (simp add: row_ok_def)
      from ref_names_task [OF conjunct1 [OF id_in_range [OF d this]] conjunct2 [OF id_in_range [OF d this]]]
      show t: "task_ref (work_item_ref p) ''/parent_uri'' = Inr p" by simp
      show "work_item_ref p \<noteq> []"
        using t by (auto simp: task_ref_def provider_of_def task_of_work_item_ref_def work_item_of_uri_def
            parse_resource_def uri_parse_def strip_prefix_def split: option.splits sum.splits)
    qed
    ultimately show ?thesis
      using Some by (cases "r_parent r")
        (simp_all add: update_inverse_def Let_def parent_of_input_def par'_def task_of_row_def)
  qed
  have par2: "\<forall>p. par' = Some (Some p) \<longrightarrow> p \<in> set (ids_of d1)"
    unfolding ids par'_def using ok by (auto simp: row_ok_def)
  let ?cs = "canonical_of ?t" and ?st = "t_status ?t"
  let ?moved = "ui_state input \<noteq> None \<or> ui_native_state input \<noteq> None"
  define st2 where "st2 = (if ?moved then Some ?st else None)"
  have "?cs = state_of ?st (t_completed_at ?t \<noteq> None)" by (simp add: canonical_of_def state_pair_def)
  then have state: "oxplow_status (ui_state ?undo) (ui_native_state ?undo) = Inr st2"
    using state_pair_reads_back [of ?st "t_completed_at ?t \<noteq> None"]
    by (simp add: update_inverse_def Let_def st2_def) (simp add: oxplow_status_def)
  have native: "oxplow_native (ui_native ?undo) = Inr (map_option (\<lambda>_. t_priority ?t) prio)"
    using oxplow_native_reads_back [of "map_option (\<lambda>_. t_priority ?t) prio"]
    by (simp add: update_inverse_def Let_def option.map_comp comp_def)
  have uri: "task_ref (ui_uri ?undo) ''/uri'' = Inr i" using 1(1) by (simp add: update_inverse_def Let_def)
  obtain g2 ans2 where run2: "update_tx ?undo now2 d1
      = (Inr ans2, row_set i (\<lambda>x. g2 (edit_row ?undo par' (map_option (\<lambda>_. t_priority ?t) prio) now2 x)) d1)"
    and changed: "an_changed ans2 = [i]"
    and g2: "status_moved st2 (ui_state ?undo) g2
        (edit_row ?undo par' (map_option (\<lambda>_. t_priority ?t) prio) now2 (?f r))"
    using update_tx_run [OF s1 r1 uri parent native state par2, of now2] by auto
  let ?x = "edit_row ?undo par' (map_option (\<lambda>_. t_priority ?t) prio) now2 (?f r)"
  have x: "statusless ?x = statusless r"
    by (rule edit_undone [OF _ _ par'_def]) (use ok ms in \<open>simp_all add: row_ok_def moves_status_def\<close>)
  have st: "st = None \<longleftrightarrow> \<not> ?moved"
    using 1(4) by (auto simp: oxplow_status_def result_simps split: option.splits if_splits)
  have "timeless (g2 ?x) = timeless r"
  proof (cases ?moved)
    case False
    then have "g = (\<lambda>r. r)" "g2 = (\<lambda>r. r)" using g g2 st by (auto simp: st2_def status_moved_def)
    then show ?thesis using x by (intro timeless_eq) (simp_all add: edit_row_def)
  next
    case True
    then have "st2 = Some ?st" "ui_state ?undo = Some ?cs" by (auto simp: st2_def update_inverse_def Let_def)
    with g2 have m: "moves_status g2" "r_status (g2 ?x) = status_to_str ?st"
      and c: "?st = TsArchived \<longrightarrow> (\<exists>s. Some ?cs = Some s \<and> (s = CsDone \<or> s = CsCanceled)) \<longrightarrow>
        (r_completed_at (g2 ?x) \<noteq> None \<longleftrightarrow> Some ?cs = Some CsDone)"
      "?st \<noteq> TsArchived \<longrightarrow> (r_completed_at (g2 ?x) \<noteq> None \<longleftrightarrow> ?st = TsDone)"
      by (simp_all add: status_moved_def)
    show ?thesis
      by (rule status_restored [OF ok _ _ c])
        (use m x ok in \<open>simp_all add: moves_status_def status_text row_ok_def\<close>)
  qed
  then have "map timeless (d_tasks (row_set i (\<lambda>x. g2 (edit_row ?undo par' (map_option (\<lambda>_. t_priority ?t) prio) now2 x)) d1))
      = map timeless (d_tasks d)"
    unfolding d1 row_set_comp [OF k] by (rule timeless_row_set [OF d rr(1,2)])
  moreover have "i \<in> set (ids_of (snd (update_tx ?undo now2 d1)))"
    using changes_update [OF s1 run2] find_live_id [OF r1] by (auto simp: run2 changes_def)
  ultimately show ?thesis
    using run2 changed 1(8) by (simp del: row_set_simps set_map)
qed

text \<open>
  C13. Undoing an edit or a transition gives the task back. Whoever runs what it answers as its
  inverse, next and at any time, it is not refused, and the tasks are as they were before: every field
  of every one, its state and whether it is completed, all but the moments the two runs wrote.
\<close>

theorem edits_are_undone:
  assumes "sound d" "invoke actor call now d = (Inr (ans, recs), d1)"
    and "(\<exists>input. call = VUpdate input) \<or> (\<exists>uri to native_state. call = VTransition uri to native_state)"
  shows "\<exists>undo ans2 recs2 d2. an_inverse ans = Some undo
    \<and> invoke other undo now2 d1 = (Inr (ans2, recs2), d2)
    \<and> map timeless (d_tasks d2) = map timeless (d_tasks d)"
proof -
  have v: "verb_tx actor call now d = (Inr ans, d1)" using assms(2) run_tx_Inr(1) by (simp add: invoke_Inr)
  then have d1: "sound d1" using changes_verb [OF assms(1)] by (auto simp: changes_def)
  have "\<exists>undo ans2 d2. an_inverse ans = Some undo \<and> verb_tx other undo now2 d1 = (Inr ans2, d2)
      \<and> set (an_changed ans2) \<subseteq> set (ids_of d2) \<and> map timeless (d_tasks d2) = map timeless (d_tasks d)"
    using assms(3) v update_undone [OF assms(1)] transition_undone [OF assms(1)] by auto
  then show ?thesis using run_tx_ok [OF d1] by blast
qed

text \<open>
  C36. A copy read before turns no status back. Writing a task's fields from any copy of it, stale or
  made up, leaves the status and the completion of every task as the tables hold them.
\<close>

theorem stale_copies_keep_statuses:
  "map (\<lambda>r. (r_id r, r_status r, r_completed_at r)) (d_tasks (snd (store_update item now d)))
     = map (\<lambda>r. (r_id r, r_status r, r_completed_at r)) (d_tasks d)"
proof (cases "store_update item now d")
  case (Pair x d')
  show ?thesis
  proof (cases x)
    case (Inl e)
    with Pair show ?thesis using atomic_op_Inl by (fastforce simp: store_update_def)
  next
    case (Inr u)
    with Pair obtain n where "update_task_tx item d = (Inr n, d')"
      by (auto simp: store_update_def update_with_status_tx_def bind_op_Inr ensure_op_Inr get_live_Inr)
    then have "d' = snd (update_row (t_id item) (write_fields item) d)"
      by (auto simp: update_task_tx_def Let_def split: if_splits prod.splits)
    then show ?thesis using Pair by (auto simp: update_row_def write_fields_def)
  qed
qed

section \<open>At work\<close>

lemma demo_find:
  "find_task live demo_db 1 = Some (demo_task 1 (Some 3) 0)" "find_task live demo_db 2 = Some (demo_task 2 (Some 3) 1)"
  by (simp_all add: find_task_def demo_db_def demo_task_def live_def)

lemma demo_ref: "1 \<le> i \<Longrightarrow> i \<le> 3 \<Longrightarrow> task_ref (work_item_ref i) field = Inr i"
  by (rule ref_names_task(2)) (simp_all add: i64_max_def)

text \<open>Task 2 is moved before task 1.\<close>

definition demo_move :: verb_call where
  "demo_move = VReorder (work_item_ref 2) (Some (work_item_ref 1)) None"

lemma demo_lists: "list_ids demo_db (Some 3) = [1, 2]" "list_ids demo_db None = [3]"
  by (simp_all add: list_ids_def list_rows_def demo_db_def demo_task_def on_list_def live_def)

lemma demo_place:
  "\<exists>p d'. place 2 (Some 3) (PlBefore 1) ''2'' demo_db = (Inr p, d')"
proof -
  have "place_index (without 2 (list_ids demo_db (Some 3))) (PlBefore 1) = Inr 0"
    by (simp add: place_index_def demo_lists without_def index_of_def)
  from place_task_tx_live [OF demo_sound demo_find(2) this, of "''2''"] show ?thesis
    by (simp add: place_def demo_db_def map_err_op_def)
qed

lemma demo_moves:
  "\<exists>ans recs d'. invoke AHuman (VMove (work_item_ref 2) (OnThread (typed_display Thread 3)) (Some (work_item_ref 1)) None)
     ''2'' demo_db = (Inr (ans, recs), d')"
proof -
  obtain p d' where p: "place 2 (Some 3) (PlBefore 1) ''2'' demo_db = (Inr p, d')" using demo_place by blast
  have dest: "move_dest (OnThread (typed_display Thread 3)) = Inr (Some 3)"
    using thread_reads_back [OF demo_sound, of 3] by (simp add: move_dest_def demo_db_def)
  have "\<exists>ans. verb_tx AHuman (VMove (work_item_ref 2) (OnThread (typed_display Thread 3)) (Some (work_item_ref 1)) None)
      ''2'' demo_db = (Inr ans, d') \<and> an_changed ans = 2 # pl_renumbered p"
    by (simp add: move_tx_def demo_ref placement_of_def dest bind_op_step [of "place 2 _ _ _"] p return_op_def)
  then show ?thesis
    using run_tx_ok [OF demo_sound] place_changed_ids [OF demo_sound p] by metis
qed

lemma verbs_record_what_they_change_witness:
  "sound (snd (invoke AHuman demo_move ''2'' demo_db))"
  using verbs_record_what_they_change [OF demo_sound prod.collapse [symmetric]] by blast

lemma moves_go_where_asked_witness:
  "\<exists>ans recs d'. invoke AHuman
       (VMove (work_item_ref 2) (OnThread (typed_display Thread 3)) (Some (work_item_ref 1)) None) ''2'' demo_db
     = (Inr (ans, recs), d') \<and> list_ids d' (Some 3) = [2, 1] \<and> list_ids d' None = [3]"
proof -
  from demo_moves obtain ans recs d' where
    v: "invoke AHuman (VMove (work_item_ref 2) (OnThread (typed_display Thread 3)) (Some (work_item_ref 1)) None)
     ''2'' demo_db = (Inr (ans, recs), d')" by blast
  have dest: "move_dest (OnThread (typed_display Thread 3)) = Inr (Some 3)"
    using thread_reads_back [OF demo_sound, of 3] by (simp add: move_dest_def demo_db_def)
  from moves_go_where_asked [OF demo_sound v] obtain us rest where
    "list_ids d' (Some 3) = us @ 2 # 1 # rest" "us @ 1 # rest = [1]" "list_ids d' None = [3]"
    by (auto simp: demo_ref dest demo_lists)
  then have "list_ids d' (Some 3) = [2, 1] \<and> list_ids d' None = [3]" by (cases us) auto
  with v show ?thesis by blast
qed

lemma places_are_undone_witness:
  "\<exists>undo ans recs d' d2. an_inverse ans = Some undo
     \<and> invoke AHuman (VMove (work_item_ref 2) (OnThread (typed_display Thread 3)) (Some (work_item_ref 1)) None)
         ''2'' demo_db = (Inr (ans, recs), d')
     \<and> snd (invoke ASystem undo ''3'' d') = d2 \<and> list_ids d2 (Some 3) = [1, 2]"
proof -
  from demo_moves obtain ans recs d' where
    v: "invoke AHuman (VMove (work_item_ref 2) (OnThread (typed_display Thread 3)) (Some (work_item_ref 1)) None)
     ''2'' demo_db = (Inr (ans, recs), d')" by blast
  from places_are_undone [OF demo_sound v, of ASystem "''3''"] v show ?thesis
    by (fastforce simp: demo_lists)
qed

text \<open>An edit that names the task itself as its parent.\<close>

definition own_parent :: update_input where
  "own_parent =
     \<lparr>ui_uri = work_item_ref 1, ui_title = None, ui_body = None, ui_parent_uri = Some (work_item_ref 1),
      ui_state = None, ui_native_state = None, ui_native = None\<rparr>"

lemma own_parent_runs:
  "\<exists>ans recs d'. invoke AHuman (VUpdate own_parent) ''2'' demo_db = (Inr (ans, recs), d')
     \<and> (\<exists>r \<in> set (d_tasks d'). r_id r = 1 \<and> r_parent r = Some 1)"
proof -
  have n: "work_item_ref 1 \<noteq> []"
    using demo_ref [of 1] by (auto simp: task_ref_def provider_of_def task_of_work_item_ref_def work_item_of_uri_def
        parse_resource_def uri_parse_def strip_prefix_def split: option.splits sum.splits)
  have p: "parent_of_input (ui_parent_uri own_parent) = Inr (Some (Some 1))"
    using n by (simp add: own_parent_def parent_of_input_def demo_ref)
  have "\<forall>p. Some (Some 1) = Some (Some p) \<longrightarrow> p \<in> set (ids_of demo_db)"
    by (simp add: demo_db_def demo_task_def)
  from update_tx_run [OF demo_sound demo_find(1) _ p _ _ this, of None None "''2''"]
  have run: "\<exists>ans. update_tx own_parent ''2'' demo_db
      = (Inr ans, row_set 1 (edit_row own_parent (Some (Some 1)) None ''2'') demo_db) \<and> an_changed ans = [1]"
    by (auto simp: own_parent_def demo_ref oxplow_native_def oxplow_status_def status_moved_def)
  then obtain ans where a: "verb_tx AHuman (VUpdate own_parent) ''2'' demo_db
      = (Inr ans, row_set 1 (edit_row own_parent (Some (Some 1)) None ''2'') demo_db)" "an_changed ans = [1]" by auto
  have "\<exists>r \<in> set (d_tasks (row_set 1 (edit_row own_parent (Some (Some 1)) None ''2'') demo_db)).
      r_id r = 1 \<and> r_parent r = Some 1" "1 \<in> set (ids_of (row_set 1 (edit_row own_parent (Some (Some 1)) None ''2'') demo_db))"
    by (simp_all add: demo_db_def demo_task_def edit_row_def)
  note row = this(1) and ids = this(2)
  from ids a(2) have "set (an_changed ans)
      \<subseteq> set (ids_of (row_set 1 (edit_row own_parent (Some (Some 1)) None ''2'') demo_db))" by simp
  from run_tx_ok [OF demo_sound a(1) this] row show ?thesis by blast
qed

lemma edits_are_undone_witness:
  "\<exists>undo ans recs d' d2. an_inverse ans = Some undo
     \<and> invoke AHuman (VUpdate own_parent) ''2'' demo_db = (Inr (ans, recs), d')
     \<and> snd (invoke ASystem undo ''3'' d') = d2 \<and> map timeless (d_tasks d2) = map timeless (d_tasks demo_db)"
proof -
  from own_parent_runs obtain ans recs d' where
    v: "invoke AHuman (VUpdate own_parent) ''2'' demo_db = (Inr (ans, recs), d')" by blast
  from edits_are_undone [OF demo_sound v, of ASystem "''3''"] v show ?thesis by fastforce
qed

end
