(* ===== verification/Lsp_Codec.thy ===== *)
theory Lsp_Codec
  imports Std_Text Decimal
begin

text \<open>
  The framing of the language-server connection, \<open>oxplow-lsp/src/codec.rs\<close>, and the loop of
  \<open>reader_task\<close> in \<open>proxy.rs\<close> that feeds it whatever the pipe hands over. A message is a header
  block, a blank line and as many bytes as its \<open>Content-Length\<close> says. The lemmas: a decoded message
  does not depend on the bytes behind it, an encoded one decodes to itself, so the loop delivers the
  messages sent however the pipe cuts them; and a header that cannot be read is never consumed.
\<close>

section \<open>Frames\<close>

text \<open>What a reader of frames takes off the front of its buffer, and all it takes of one buffer.\<close>

locale framing =
  fixes next_frame :: "'b list \<Rightarrow> ('m \<times> 'b list) option"
    and frames :: "'b list \<Rightarrow> 'm list \<times> 'b list"
  assumes frame_kept: "next_frame b = Some (m, r) \<Longrightarrow> next_frame (b @ c) = Some (m, r @ c)"
    and frame_shorter: "next_frame b = Some (m, r) \<Longrightarrow> length r < length b"
    and frames_none: "next_frame b = None \<Longrightarrow> frames b = ([], b)"
    and frames_some: "next_frame b = Some (m, r) \<Longrightarrow> frames b = (m # fst (frames r), snd (frames r))"
begin

text \<open>Reading a buffer and then more bytes is reading both at once.\<close>

lemma frames_append:
  "frames (b @ c) = (fst (frames b) @ fst (frames (snd (frames b) @ c)), snd (frames (snd (frames b) @ c)))"
proof (induction b rule: measure_induct_rule [of length])
  case (less b)
  show ?case
  proof (cases "next_frame b")
    case None
    then show ?thesis by (simp add: frames_none)
  next
    case (Some p)
    obtain m r where p: "p = (m, r)" by (cases p)
    have "frames (b @ c) = (m # fst (frames (r @ c)), snd (frames (r @ c)))"
      by (rule frames_some [OF frame_kept]) (simp add: Some p)
    with less.IH [of r] frame_shorter [of b m r] frames_some [of b m r] Some p show ?thesis by simp
  qed
qed

lemma frames_stop: "next_frame (snd (frames b)) = None"
proof (induction b rule: measure_induct_rule [of length])
  case (less b)
  show ?case
  proof (cases "next_frame b")
    case (Some p)
    with less [of "snd p"] show ?thesis by (cases p) (simp add: frames_some frame_shorter)
  qed (simp add: frames_none)
qed

end

section \<open>The codec\<close>

definition CRLF :: string where "CRLF = [CHR 0x0D, CHR 0x0A]"
definition BLANK_LINE :: string where "BLANK_LINE = CRLF @ CRLF"

text \<open>\<open>str::split\<close> with a text between the parts.\<close>

function split_str :: "string \<Rightarrow> string \<Rightarrow> string list" where
  "split_str p s =
     (case find_sub p s of
        Some i \<Rightarrow> if p = [] then [s] else take i s # split_str p (drop (i + length p) s)
      | None \<Rightarrow> [s])"
  by pat_completeness auto
termination
proof (relation "measure (length \<circ> snd)", goal_cases)
  case (2 p s i)
  then show ?case using find_sub_Some [of p s i] by (cases p) auto
qed simp

declare split_str.simps [simp del]

text \<open>
  What \<open>ParseIntError\<close> says of a text \<open>parse::<usize>\<close> refuses: it reads the digits from the left and
  stops at the first that is none or that does not fit.
\<close>

fun digits_error :: "nat \<Rightarrow> nat \<Rightarrow> string \<Rightarrow> string" where
  "digits_error bound n [] = ''number too large to fit in target type''"
| "digits_error bound n (c # cs) =
     (if \<not> is_ascii_digit c then ''invalid digit found in string''
      else if bound < n * 10 + digit_value c then ''number too large to fit in target type''
      else digits_error bound (n * 10 + digit_value c) cs)"

definition int_error :: "nat \<Rightarrow> string \<Rightarrow> string" where
  "int_error bound s =
     (if s = [] then ''cannot parse integer from empty string''
      else if s = ''+'' \<or> s = ''-'' then ''invalid digit found in string''
      else digits_error bound 0 (unsigned_part s))"

datatype codec_error =
  BadHeader string
| MissingLength
| BadBody

text \<open>
  What \<open>decode\<close> does to the buffer: a message and what is left, nothing yet, an error and what is
  left, or the overflow of \<open>header_end + 4 + len\<close>. (A debug build panics at the addition; a release
  build wraps to a total the buffer has, and then panics in \<open>split_to\<close>.)
\<close>

datatype decoded =
  Ready string string
| Wait
| Refuse codec_error string
| Overflow

fun header_length :: "string list \<Rightarrow> nat option \<Rightarrow> codec_error + nat option" where
  "header_length [] n = Inr n"
| "header_length (l # ls) n =
     (if l = [] then header_length ls n
      else case split_once (CHR '':'') l of
        None \<Rightarrow> Inl (BadHeader l)
      | Some (name, v) \<Rightarrow>
          if eq_ignore_ascii_case name ''Content-Length'' then
            (case parse_uint u64_max (trim v) of
               None \<Rightarrow> Inl (BadHeader (int_error u64_max (trim v)))
             | Some k \<Rightarrow> header_length ls (Some k))
          else header_length ls n)"

definition read_header :: "string \<Rightarrow> codec_error + nat" where
  "read_header h =
     (if \<not> utf8_valid h then Inl BadBody
      else bind_res (header_length (split_str CRLF h) None) (\<lambda>n. ok_or n MissingLength))"

definition decode_frame :: "string \<Rightarrow> decoded" where
  "decode_frame src =
     (case find_sub BLANK_LINE src of
        None \<Rightarrow> Wait
      | Some e \<Rightarrow>
          (case read_header (take e src) of
             Inl err \<Rightarrow> Refuse err src
           | Inr len \<Rightarrow>
               if u64_max < e + 4 + len then Overflow
               else if length src < e + 4 + len then Wait
               else
                 let body = take len (drop (e + 4) src); rest = drop (e + 4 + len) src in
                 if utf8_valid body then Ready body rest else Refuse BadBody rest))"

definition encode_frame :: "string \<Rightarrow> string" where
  "encode_frame item = ''Content-Length: '' @ show_nat (length item) @ BLANK_LINE @ item"

section \<open>The reader\<close>

lemma blank_line_length [simp]: "length BLANK_LINE = 4"
  by (simp add: BLANK_LINE_def CRLF_def)

lemma decode_Ready:
  assumes "decode_frame b = Ready m r"
  obtains e where "find_sub BLANK_LINE b = Some e" "read_header (take e b) = Inr (length m)"
    "e + 4 + length m \<le> u64_max" "drop (e + 4) b = m @ r" "utf8_valid m"
    "e + 4 + length m \<le> length b"
proof -
  from assms obtain e len where e: "find_sub BLANK_LINE b = Some e" and h: "read_header (take e b) = Inr len"
    and small: "e + 4 + len \<le> u64_max" "e + 4 + len \<le> length b" "utf8_valid m"
    and m: "m = take len (drop (e + 4) b)" "r = drop (e + 4 + len) b"
    by (auto simp: decode_frame_def Let_def split: option.splits sum.splits if_splits)
  have "length m = len" using small(2) by (simp add: m(1))
  moreover have "drop (e + 4) b = m @ r"
    using append_take_drop_id [of len "drop (e + 4) b"] by (simp add: m ac_simps)
  ultimately show ?thesis using that e h small by simp
qed

lemma decode_shorter: "decode_frame b = Ready m r \<Longrightarrow> length r < length b"
  by (erule decode_Ready) (auto dest: arg_cong [where f = length])

text \<open>One buffer: until the decoder wants more bytes or refuses. \<open>None\<close> is a task that panicked.\<close>

function drain :: "string \<Rightarrow> string list \<times> string option" where
  "drain b =
     (case decode_frame b of
        Ready m r \<Rightarrow> (m # fst (drain r), snd (drain r))
      | Wait \<Rightarrow> ([], Some b)
      | Refuse _ r \<Rightarrow> ([], Some r)
      | Overflow \<Rightarrow> ([], None))"
  by pat_completeness auto
termination by (relation "measure length") (auto dest: decode_shorter)

declare drain.simps [simp del]

text \<open>The chunks the pipe hands over, one read each.\<close>

fun read_chunks :: "string option \<Rightarrow> string list \<Rightarrow> string list \<times> string option" where
  "read_chunks None cs = ([], None)"
| "read_chunks (Some b) [] = ([], Some b)"
| "read_chunks (Some b) (c # cs) =
     (fst (drain (b @ c)) @ fst (read_chunks (snd (drain (b @ c))) cs),
      snd (read_chunks (snd (drain (b @ c))) cs))"


section \<open>Decoding and more bytes\<close>

lemma find_sub_head:
  assumes "c \<notin> set xs"
  shows "find_sub (c # p) (xs @ c # p @ ys) = Some (length xs)"
  using assms by (induction xs) auto

lemma find_sub_absent: "c \<notin> set xs \<Longrightarrow> find_sub (c # p) xs = None"
  by (induction xs) auto

lemma decode_kept: "decode_frame b = Ready m r \<Longrightarrow> decode_frame (b @ c) = Ready m (r @ c)"
proof (erule decode_Ready)
  fix e
  assume e: "find_sub BLANK_LINE b = Some e" and h: "read_header (take e b) = Inr (length m)"
    and small: "e + 4 + length m \<le> u64_max" "e + 4 + length m \<le> length b" "utf8_valid m"
    and cut: "drop (e + 4) b = m @ r"
  have "drop (e + 4 + length m) b = r"
    using drop_drop [of "length m" "e + 4" b] cut by (simp add: ac_simps)
  with e h small cut show "decode_frame (b @ c) = Ready m (r @ c)"
    by (simp add: decode_frame_def find_sub_append Let_def)
qed

text \<open>An error of the header leaves the bytes where they are, and more bytes change nothing.\<close>

lemma refused_header_kept: "decode_frame b = Refuse e b \<Longrightarrow> decode_frame (b @ c) = Refuse e (b @ c)"
proof -
  assume r: "decode_frame b = Refuse e b"
  then obtain i where i: "find_sub BLANK_LINE b = Some i" by (auto simp: decode_frame_def split: option.splits)
  then have "i + 4 \<le> length b" using find_sub_Some [OF i] by simp
  moreover from this have "drop (i + 4 + n) b \<noteq> b" for n by (auto dest: arg_cong [where f = length])
  ultimately show ?thesis using i r
    by (auto simp: decode_frame_def find_sub_append Let_def split: sum.splits if_splits)
qed

definition clean_frame :: "string \<Rightarrow> (string \<times> string) option" where
  "clean_frame b = (case decode_frame b of Ready m r \<Rightarrow> Some (m, r) | _ \<Rightarrow> None)"

function clean_frames :: "string \<Rightarrow> string list \<times> string" where
  "clean_frames b =
     (case decode_frame b of Ready m r \<Rightarrow> (m # fst (clean_frames r), snd (clean_frames r)) | _ \<Rightarrow> ([], b))"
  by pat_completeness auto
termination by (relation "measure length") (auto dest: decode_shorter)

declare clean_frames.simps [simp del]

lemma clean_frame_Some [simp]: "clean_frame b = Some (m, r) \<longleftrightarrow> decode_frame b = Ready m r"
  by (simp add: clean_frame_def split: decoded.splits)

interpretation clean: framing clean_frame clean_frames
proof
  fix b
  assume "clean_frame b = None"
  then show "clean_frames b = ([], b)"
    by (simp add: clean_frames.simps [of b] clean_frame_def split: decoded.splits)
qed (simp_all add: decode_kept decode_shorter clean_frames.simps [of b for b])


section \<open>What was sent arrives\<close>

lemma show_nat_ascii: "\<forall>c \<in> set (show_nat n). is_ascii c"
  using show_nat_digits [of n] by (auto simp: list_all_iff is_ascii_digit_def is_ascii_def)

definition frame_head :: "string \<Rightarrow> string" where
  "frame_head item = ''Content-Length: '' @ show_nat (length item)"

lemma encode_head: "encode_frame item = frame_head item @ BLANK_LINE @ item"
  by (simp add: encode_frame_def frame_head_def)

lemma head_no_return: "CHR 0x0D \<notin> set (frame_head item)"
  using show_nat_no [of "CHR 0x0D" "length item"]
  by (auto simp: frame_head_def is_ascii_digit_def byte_def)

lemma blank_line_cons: "BLANK_LINE = CHR 0x0D # [CHR 0x0A, CHR 0x0D, CHR 0x0A]"
  by (simp add: BLANK_LINE_def CRLF_def)

lemma trim_count: "trim (CHR '' '' # show_nat n) = show_nat n"
proof -
  have digits: "\<forall>c \<in> set (show_nat n). 48 \<le> byte c \<and> byte c \<le> 57"
    using show_nat_digits [of n] by (auto simp: list_all_iff is_ascii_digit_def)
  have first: "w \<in> set WHITESPACE \<Longrightarrow> byte (hd w) < 48 \<or> 57 < byte (hd w)"
    and last: "w \<in> set WHITESPACE \<Longrightarrow> byte (last w) < 48 \<or> 57 < byte (last w)" for w
    by (auto simp: WHITESPACE_def byte_def)
  have no_front: "\<not> prefix w (show_nat n)" if w: "w \<in> set WHITESPACE" "w \<noteq> []" for w
  proof
    assume "prefix w (show_nat n)"
    then have "hd w \<in> set (show_nat n)" using w(2) by (auto simp: prefix_def)
    with digits first [OF w(1)] show False by fastforce
  qed
  have no_back: "\<not> prefix (rev w) (rev (show_nat n))" if w: "w \<in> set WHITESPACE" "w \<noteq> []" for w
  proof
    assume "prefix (rev w) (rev (show_nat n))"
    then obtain zs where "rev (show_nat n) = rev w @ zs" by (auto simp: prefix_def)
    then have "set w \<subseteq> set (show_nat n)" by (metis Un_upper1 set_append set_rev)
    then have "last w \<in> set (show_nat n)" using w(2) by auto
    with digits last [OF w(1)] show False by fastforce
  qed
  have "trim_front WHITESPACE (CHR '' '' # show_nat n) = trim_front WHITESPACE (show_nat n)"
  proof -
    have "strip_any WHITESPACE (CHR '' '' # show_nat n) = Some (show_nat n)"
      by (simp add: strip_any_def whitespace_bytes)
    then show ?thesis by (simp add: trim_front.simps [of WHITESPACE "CHR '' '' # show_nat n"])
  qed
  also have "\<dots> = show_nat n" by (rule trim_front_id) (use no_front in blast)
  finally have front: "trim_front WHITESPACE (CHR '' '' # show_nat n) = show_nat n" .
  have "trim_front (map rev WHITESPACE) (rev (show_nat n)) = rev (show_nat n)"
    by (rule trim_front_id) (use no_back in auto)
  then show ?thesis by (simp add: trim_def front trim_back_def)
qed

lemma read_frame_head:
  assumes "length item \<le> u64_max"
  shows "read_header (frame_head item) = Inr (length item)"
proof -
  have ascii: "utf8_valid (frame_head item)"
    by (rule utf8_valid_ascii) (use show_nat_ascii [of "length item"] in \<open>auto simp: frame_head_def is_ascii_def byte_def\<close>)
  have "split_str CRLF (frame_head item) = [frame_head item]"
    using find_sub_absent [OF head_no_return [of item], of "[CHR 0x0A]"]
    by (subst split_str.simps) (simp add: CRLF_def)
  moreover have "split_once (CHR '':'') (frame_head item) = Some (''Content-Length'', CHR '' '' # show_nat (length item))"
    by (simp add: frame_head_def)
  ultimately show ?thesis
    using ascii assms
    by (simp add: read_header_def frame_head_def trim_count parse_show_nat ok_or_def bind_res_def)
qed

lemma frame_reads_back:
  assumes "utf8_valid item" "length (encode_frame item) \<le> u64_max"
  shows "decode_frame (encode_frame item @ r) = Ready item r"
proof -
  have "find_sub BLANK_LINE (encode_frame item @ r) = Some (length (frame_head item))"
    using find_sub_head [OF head_no_return [of item], of "[CHR 0x0A, CHR 0x0D, CHR 0x0A]" "item @ r"]
    by (simp add: encode_head blank_line_cons)
  moreover have "read_header (frame_head item) = Inr (length item)"
    by (rule read_frame_head) (use assms(2) in \<open>simp add: encode_frame_def\<close>)
  ultimately show ?thesis
    using assms by (simp add: decode_frame_def encode_head Let_def)
qed

text \<open>A frame that has not arrived in full is waited for.\<close>

lemma partial_frame_waits:
  assumes "strict_prefix t (encode_frame item)" "length (encode_frame item) \<le> u64_max"
  shows "decode_frame t = Wait"
proof (cases "find_sub BLANK_LINE t")
  case None
  then show ?thesis by (simp add: decode_frame_def)
next
  case (Some i)
  from assms(1) obtain u where u: "encode_frame item = t @ u" "u \<noteq> []"
    by (auto simp: strict_prefix_def prefix_def)
  have "find_sub BLANK_LINE (encode_frame item) = Some (length (frame_head item))"
    using find_sub_head [OF head_no_return [of item], of "[CHR 0x0A, CHR 0x0D, CHR 0x0A]" item]
    by (simp add: encode_head blank_line_cons)
  with find_sub_append [OF Some, of u] u(1) have i: "i = length (frame_head item)" by simp
  have "i \<le> length t" using find_sub_Some [OF Some] by simp
  then have "take i t = frame_head item"
    using arg_cong [OF u(1), of "take i"] by (simp add: encode_head i)
  moreover have "read_header (frame_head item) = Inr (length item)"
    by (rule read_frame_head) (use assms(2) in \<open>simp add: encode_frame_def\<close>)
  moreover have "length t < i + 4 + length item"
    using arg_cong [OF u(1), of length] u(2) by (cases u) (simp_all add: encode_head i)
  moreover have "i + 4 + length item \<le> u64_max"
    using assms(2) by (simp add: encode_head i)
  ultimately show ?thesis by (simp add: decode_frame_def Some)
qed

text \<open>As long as no frame is refused, the reader is the clean one.\<close>

lemma drain_clean:
  assumes "decode_frame (snd (clean_frames b)) = Wait"
  shows "drain b = (fst (clean_frames b), Some (snd (clean_frames b)))"
  using assms
proof (induction b rule: measure_induct_rule [of length])
  case (less b)
  show ?case
  proof (cases "decode_frame b")
    case (Ready m r)
    with less.IH [of r] less.prems show ?thesis
      by (simp add: drain.simps [of b] clean_frames.simps [of b] decode_shorter)
  qed (use less.prems in \<open>simp_all add: drain.simps [of b] clean_frames.simps [of b]\<close>)
qed

definition stuck :: "decoded \<Rightarrow> bool" where
  "stuck d \<longleftrightarrow> (case d of Ready m r \<Rightarrow> False | Wait \<Rightarrow> False | _ \<Rightarrow> True)"

lemma stuck_kept:
  assumes "stuck (decode_frame b)"
  shows "stuck (decode_frame (b @ c))"
proof (cases "find_sub BLANK_LINE b")
  case (Some i)
  then have "i + 4 \<le> length b" using find_sub_Some [OF Some] by simp
  with Some assms show ?thesis
    by (auto simp: stuck_def decode_frame_def find_sub_append Let_def split: sum.splits if_splits)
qed (use assms in \<open>simp add: stuck_def decode_frame_def\<close>)

lemma stuck_frames: "stuck (decode_frame b) \<Longrightarrow> clean_frames b = ([], b)"
  by (simp add: clean_frames.simps [of b] stuck_def split: decoded.splits)

lemma waits_before:
  assumes "decode_frame (snd (clean_frames (b @ c))) = Wait"
  shows "decode_frame (snd (clean_frames b)) = Wait"
proof (rule ccontr)
  let ?q = "snd (clean_frames b)"
  assume no: "decode_frame ?q \<noteq> Wait"
  have "clean_frame ?q = None" by (rule clean.frames_stop)
  with no have "stuck (decode_frame ?q)" by (simp add: stuck_def clean_frame_def split: decoded.splits)
  then have "stuck (decode_frame (?q @ c))" by (rule stuck_kept)
  moreover from this have "snd (clean_frames (b @ c)) = ?q @ c"
    using clean.frames_append [of b c] by (simp add: stuck_frames)
  ultimately show False using assms by (simp add: stuck_def)
qed

lemma read_chunks_clean:
  assumes "decode_frame (snd (clean_frames (b @ concat cs))) = Wait" "decode_frame b = Wait"
  shows "read_chunks (Some b) cs =
           (fst (clean_frames (b @ concat cs)), Some (snd (clean_frames (b @ concat cs))))"
  using assms
proof (induction cs arbitrary: b)
  case Nil
  then show ?case by (simp add: clean_frames.simps [of b])
next
  case (Cons c cs)
  let ?q = "snd (clean_frames (b @ c))"
  have whole: "clean_frames (b @ concat (c # cs)) =
      (fst (clean_frames (b @ c)) @ fst (clean_frames (?q @ concat cs)), snd (clean_frames (?q @ concat cs)))"
    using clean.frames_append [of "b @ c" "concat cs"] by simp
  have "decode_frame ?q = Wait"
    by (rule waits_before [of _ "concat cs"]) (use Cons.prems(1) in simp)
  with Cons.IH [of ?q] Cons.prems whole show ?case by (simp add: drain_clean)
qed

definition sendable :: "string \<Rightarrow> bool" where
  "sendable item \<longleftrightarrow> utf8_valid item \<and> length (encode_frame item) \<le> u64_max"

lemma clean_encoded:
  "list_all sendable items \<Longrightarrow> decode_frame t = Wait \<Longrightarrow>
     clean_frames (concat (map encode_frame items) @ t) = (items, t)"
  by (induction items)
     (simp_all add: clean_frames.simps [of t] clean_frames.simps [of "encode_frame i @ r" for i r]
       frame_reads_back sendable_def)

lemma sendableI: "utf8_valid item \<Longrightarrow> length item < 1000 \<Longrightarrow> sendable item"
proof -
  assume "utf8_valid item" and small: "length item < 1000"
  have "length (show_nat n) \<le> Suc n" for n
  proof (induction n rule: show_nat.induct)
    case (1 n)
    then show ?case by (subst show_nat.simps) fastforce
  qed
  from this [of "length item"] small \<open>utf8_valid item\<close> show ?thesis
    by (simp add: sendable_def encode_frame_def u64_max_def)
qed

text \<open>
  C18. However the pipe cuts the bytes of the messages a server wrote, the reader delivers exactly
  those messages, in order and each once, and keeps in its buffer the part of the next one that has
  arrived.
\<close>

theorem messages_arrive_however_cut:
  assumes "concat chunks = concat (map encode_frame items) @ t"
    and "list_all sendable items" "t = [] \<or> (sendable next_one \<and> strict_prefix t (encode_frame next_one))"
  shows "read_chunks (Some []) chunks = (items, Some t)"
proof -
  have none_yet: "decode_frame [] = Wait" by (simp add: decode_frame_def blank_line_cons)
  have "decode_frame t = Wait"
    using assms(3) by (auto simp: sendable_def none_yet intro: partial_frame_waits)
  with read_chunks_clean [of "[]" chunks] clean_encoded [OF assms(2), of t] assms(1)
  show ?thesis by (simp add: none_yet)
qed

theorem messages_arrive_however_cut_witness:
  "read_chunks (Some []) [''Content-Le'', ''ngth: 2'' @ CRLF, CRLF @ ''{}Con'', ''tent''] = ([''{}''], Some ''Content'')"
proof (rule messages_arrive_however_cut [where next_one = "''[]''"])
  show "concat [''Content-Le'', ''ngth: 2'' @ CRLF, CRLF @ ''{}Con'', ''tent''] =
      concat (map encode_frame [''{}'']) @ ''Content''"
    by code_simp
  have "utf8_valid ''{}''" "utf8_valid ''[]''" by code_simp+
  then have ok: "sendable ''{}''" "sendable ''[]''" by (auto intro: sendableI)
  then show "list_all sendable [''{}'']" by simp
  show "''Content'' = [] \<or> sendable ''[]'' \<and> strict_prefix ''Content'' (encode_frame ''[]'')"
    using ok(2) by (simp add: encode_frame_def strict_prefix_def)
qed

text \<open>
  A header block that cannot be read stays in the buffer: the reader logs it, waits for more
  bytes and decodes the same block again, so no later message is delivered on that connection.
\<close>

theorem bad_header_blocks_the_reader:
  assumes "decode_frame b = Refuse e b"
  shows "read_chunks (Some b) chunks = ([], Some (b @ concat chunks))"
  using assms
proof (induction chunks arbitrary: b)
  case (Cons c cs)
  from refused_header_kept [OF Cons.prems] have "decode_frame (b @ c) = Refuse e (b @ c)" .
  with Cons.IH [of "b @ c"] show ?case by (simp add: drain.simps [of "b @ c"])
qed simp

theorem bad_header_blocks_the_reader_witness:
  "decode_frame (''Content-Length 2'' @ BLANK_LINE) = Refuse (BadHeader ''Content-Length 2'') (''Content-Length 2'' @ BLANK_LINE)
   \<and> read_chunks (Some (''Content-Length 2'' @ BLANK_LINE)) [''{}'', encode_frame ''[]''] =
       ([], Some (''Content-Length 2'' @ BLANK_LINE @ ''{}'' @ encode_frame ''[]''))"
proof
  show *: "decode_frame (''Content-Length 2'' @ BLANK_LINE) =
      Refuse (BadHeader ''Content-Length 2'') (''Content-Length 2'' @ BLANK_LINE)"
    by code_simp
  show "read_chunks (Some (''Content-Length 2'' @ BLANK_LINE)) [''{}'', encode_frame ''[]''] =
      ([], Some (''Content-Length 2'' @ BLANK_LINE @ ''{}'' @ encode_frame ''[]''))"
    using bad_header_blocks_the_reader [OF *, of "[''{}'', encode_frame ''[]'']"] by simp
qed

text \<open>A count near the top of \<open>usize\<close> ends the reader.\<close>

lemma huge_count_panics:
  "read_chunks (Some []) [''Content-Length: 18446744073709551615'' @ BLANK_LINE, encode_frame ''[]''] = ([], None)"
proof -
  let ?h = "''Content-Length: 18446744073709551615''"
  have "find_sub BLANK_LINE (?h @ BLANK_LINE) = Some (length ?h)" by code_simp
  moreover have "utf8_valid ?h" "split_str CRLF ?h = [?h]" "trim '' 18446744073709551615'' = ''18446744073709551615''"
    by code_simp+
  then have "read_header ?h = Inr u64_max"
    by (simp add: read_header_def eq_ignore_ascii_case_refl parse_uint_def Let_def unsigned_part_def is_ascii_digit_def
        byte_def digits_value_def digit_value_def u64_max_def ok_or_def bind_res_def)
  ultimately have "decode_frame (?h @ BLANK_LINE) = Overflow" by (simp add: decode_frame_def)
  then show ?thesis by (simp add: drain.simps [of "?h @ BLANK_LINE", simplified])
qed

end
