(* ===== verification/Reply_Table.thy ===== *)
theory Reply_Table
  imports Prelude
begin

text \<open>
  The table of outstanding requests both JSON-RPC connections keep: a map from a request's id to the
  sending half of a one-shot channel whose receiving half the caller awaits. A call is the number of
  its channel; dropping a sender that never sent closes its channel. The lemmas: what each operation
  keeps of the table's invariant, and that a channel is filled at most once.
\<close>

section \<open>Channels and the table\<close>

datatype 'r slot =
  Pending
| Replied 'r
| SenderGone

record ('i, 'r) reply_table =
  rt_slots :: "('i \<times> 'r slot) list"
  rt_pending :: "('i \<times> nat) list"

definition empty_table :: "('i, 'r) reply_table" where
  "empty_table = \<lparr>rt_slots = [], rt_pending = []\<rparr>"

text \<open>\<open>oneshot::channel()\<close> for a request that will carry this id.\<close>

definition open_channel :: "'i \<Rightarrow> ('i, 'r) reply_table \<Rightarrow> ('i, 'r) reply_table" where
  "open_channel i t = t\<lparr>rt_slots := rt_slots t @ [(i, Pending)]\<rparr>"

definition settle :: "nat \<Rightarrow> 'r slot \<Rightarrow> ('i, 'r) reply_table \<Rightarrow> ('i, 'r) reply_table" where
  "settle n v t = t\<lparr>rt_slots := (rt_slots t)[n := (fst (rt_slots t ! n), v)]\<rparr>"

definition unlist :: "'i \<Rightarrow> ('i, 'r) reply_table \<Rightarrow> ('i, 'r) reply_table" where
  "unlist i t = t\<lparr>rt_pending := filter (\<lambda>(k, n). k \<noteq> i) (rt_pending t)\<rparr>"

text \<open>\<open>remove\<close>, and what is done with the sender removed: sent on, or dropped.\<close>

definition finish_waiter :: "'i \<Rightarrow> 'r slot \<Rightarrow> ('i, 'r) reply_table \<Rightarrow> ('i, 'r) reply_table" where
  "finish_waiter i v t =
     (case map_of (rt_pending t) i of None \<Rightarrow> t | Some n \<Rightarrow> settle n v (unlist i t))"

text \<open>\<open>insert\<close>: a sender that was there under the same id is dropped.\<close>

definition add_waiter :: "'i \<Rightarrow> nat \<Rightarrow> ('i, 'r) reply_table \<Rightarrow> ('i, 'r) reply_table" where
  "add_waiter i n t =
     (let t' = finish_waiter i SenderGone t in t'\<lparr>rt_pending := (i, n) # rt_pending t'\<rparr>)"

text \<open>\<open>drain\<close>, sending the same reply to each.\<close>

definition drain_waiters :: "'r \<Rightarrow> ('i, 'r) reply_table \<Rightarrow> ('i, 'r) reply_table" where
  "drain_waiters r t = foldl (\<lambda>t i. finish_waiter i (Replied r) t) t (map fst (rt_pending t))"

section \<open>The invariant\<close>

definition waits_at :: "('i, 'r) reply_table \<Rightarrow> 'i \<times> nat \<Rightarrow> bool" where
  "waits_at t p \<longleftrightarrow> snd p < length (rt_slots t) \<and> rt_slots t ! snd p = (fst p, Pending)"

definition table_inv :: "('i, 'r) reply_table \<Rightarrow> bool" where
  "table_inv t \<longleftrightarrow>
     distinct (map fst (rt_pending t)) \<and> distinct (map snd (rt_pending t))
     \<and> (\<forall>p \<in> set (rt_pending t). waits_at t p)"

text \<open>What no operation undoes: the channels made, their ids, and what has been sent on them.\<close>

definition slots_kept :: "('i, 'r) reply_table \<Rightarrow> ('i, 'r) reply_table \<Rightarrow> bool" where
  "slots_kept t t' \<longleftrightarrow>
     length (rt_slots t) \<le> length (rt_slots t')
     \<and> (\<forall>n < length (rt_slots t).
          fst (rt_slots t' ! n) = fst (rt_slots t ! n)
          \<and> (snd (rt_slots t ! n) \<noteq> Pending \<longrightarrow> snd (rt_slots t' ! n) = snd (rt_slots t ! n)))"

lemma slots_kept_refl [simp]: "slots_kept t t"
  by (simp add: slots_kept_def)

lemma slots_kept_trans: "slots_kept s t \<Longrightarrow> slots_kept t u \<Longrightarrow> slots_kept s u"
  unfolding slots_kept_def by (auto intro: order_trans)

lemma empty_table_inv [simp]: "table_inv empty_table"
  by (simp add: table_inv_def empty_table_def)

lemma open_channel_inv:
  "table_inv t \<Longrightarrow> table_inv (open_channel i t)"
  by (auto simp: table_inv_def open_channel_def waits_at_def nth_append)

lemma open_channel_kept: "slots_kept t (open_channel i t)"
  by (simp add: slots_kept_def open_channel_def nth_append)

lemma map_of_pending:
  assumes "table_inv t"
  shows "map_of (rt_pending t) i = Some n \<longleftrightarrow> (i, n) \<in> set (rt_pending t)"
  using assms by (simp add: table_inv_def)

lemma finish_waiter_inv:
  assumes "table_inv t"
  shows "table_inv (finish_waiter i v t)"
proof (cases "map_of (rt_pending t) i")
  case (Some n)
  then have n: "(i, n) \<in> set (rt_pending t)" by (rule map_of_SomeD)
  have other: "m \<noteq> n" if "(k, m) \<in> set (rt_pending t)" "k \<noteq> i" for k m
  proof
    assume "m = n"
    with n that have "(k, n) = (i, n)"
      using assms by (metis distinct_map inj_onD snd_conv table_inv_def)
    with that show False by simp
  qed
  have "distinct (map fst (filter f (rt_pending t)))" "distinct (map snd (filter f (rt_pending t)))" for f
    using assms by (auto simp: table_inv_def intro: distinct_map_filter)
  with assms other show ?thesis
    by (fastforce simp: finish_waiter_def Some settle_def unlist_def table_inv_def waits_at_def)
qed (use assms in \<open>simp add: finish_waiter_def\<close>)

lemma finish_waiter_kept:
  assumes "table_inv t"
  shows "slots_kept t (finish_waiter i v t)"
proof (cases "map_of (rt_pending t) i")
  case (Some n)
  then have "waits_at t (i, n)" using assms by (auto simp: table_inv_def dest: map_of_SomeD)
  then show ?thesis
    by (auto simp: finish_waiter_def Some settle_def unlist_def slots_kept_def waits_at_def nth_list_update)
qed (simp add: finish_waiter_def)

lemma finish_waiter_pending:
  "set (rt_pending (finish_waiter i v t)) = {p \<in> set (rt_pending t). fst p \<noteq> i}"
proof (cases "map_of (rt_pending t) i")
  case None
  then have "i \<notin> fst ` set (rt_pending t)" by (simp add: map_of_eq_None_iff)
  then show ?thesis by (auto simp: finish_waiter_def None)
qed (auto simp: finish_waiter_def settle_def unlist_def)

lemma finish_waiter_length [simp]: "length (rt_slots (finish_waiter i v t)) = length (rt_slots t)"
  by (simp add: finish_waiter_def settle_def unlist_def split: option.split)

text \<open>Exactly the channel listed under the id is settled.\<close>

lemma finish_waiter_slot:
  assumes "table_inv t" "n < length (rt_slots t)"
  shows "rt_slots (finish_waiter i v t) ! n =
           (if (i, n) \<in> set (rt_pending t) then (i, v) else rt_slots t ! n)"
proof (cases "map_of (rt_pending t) i")
  case None
  then have "i \<notin> fst ` set (rt_pending t)" by (simp add: map_of_eq_None_iff)
  then show ?thesis by (force simp: finish_waiter_def None)
next
  case (Some m)
  then have m: "(i, m) \<in> set (rt_pending t)" by (rule map_of_SomeD)
  have "(i, n) \<in> set (rt_pending t) \<longleftrightarrow> n = m"
    using Some map_of_pending [OF assms(1), of i n] by auto
  moreover have "fst (rt_slots t ! m) = i" "m < length (rt_slots t)"
    using assms(1) m by (auto simp: table_inv_def waits_at_def)
  ultimately show ?thesis using assms(2)
    by (simp add: finish_waiter_def Some settle_def unlist_def nth_list_update)
qed

lemma add_waiter_inv:
  assumes "table_inv t" "waits_at t (i, n)" "n \<notin> snd ` set (rt_pending t)"
  shows "table_inv (add_waiter i n t)"
proof -
  let ?t = "finish_waiter i SenderGone t"
  have inv: "table_inv ?t" by (rule finish_waiter_inv [OF assms(1)])
  have sub: "set (rt_pending ?t) \<subseteq> set (rt_pending t)" and i: "i \<notin> fst ` set (rt_pending ?t)"
    by (auto simp: finish_waiter_pending)
  have "(i, n) \<notin> set (rt_pending t)" using assms(3) by force
  then have "waits_at ?t (i, n)"
    using assms(2) finish_waiter_slot [OF assms(1), of n i SenderGone] by (simp add: waits_at_def)
  moreover have "n \<notin> snd ` set (rt_pending ?t)" using assms(3) sub by blast
  ultimately show ?thesis using inv i by (auto simp: add_waiter_def Let_def table_inv_def waits_at_def)
qed

lemma add_waiter_slots [simp]: "rt_slots (add_waiter i n t) = rt_slots (finish_waiter i SenderGone t)"
  by (simp add: add_waiter_def Let_def)

lemma add_waiter_pending:
  "set (rt_pending (add_waiter i n t)) = insert (i, n) {p \<in> set (rt_pending t). fst p \<noteq> i}"
  by (simp add: add_waiter_def Let_def finish_waiter_pending)

lemma add_waiter_kept: "table_inv t \<Longrightarrow> slots_kept t (add_waiter i n t)"
  using finish_waiter_kept [of t i SenderGone] by (simp add: slots_kept_def)

section \<open>Draining\<close>

lemma finish_all:
  assumes "table_inv t"
  shows "table_inv (foldl (\<lambda>t i. finish_waiter i v t) t is)
       \<and> slots_kept t (foldl (\<lambda>t i. finish_waiter i v t) t is)
       \<and> set (rt_pending (foldl (\<lambda>t i. finish_waiter i v t) t is)) = {p \<in> set (rt_pending t). fst p \<notin> set is}
       \<and> length (rt_slots (foldl (\<lambda>t i. finish_waiter i v t) t is)) = length (rt_slots t)
       \<and> (\<forall>n < length (rt_slots t). rt_slots (foldl (\<lambda>t i. finish_waiter i v t) t is) ! n =
            (if \<exists>i \<in> set is. (i, n) \<in> set (rt_pending t) then (fst (rt_slots t ! n), v) else rt_slots t ! n))"
  using assms
proof (induction "is" arbitrary: t)
  case (Cons i "is")
  let ?t = "finish_waiter i v t"
  have inv: "table_inv ?t" by (rule finish_waiter_inv [OF Cons.prems])
  have own: "fst (rt_slots t ! n) = k" if "(k, n) \<in> set (rt_pending t)" for k n
    using Cons.prems that by (auto simp: table_inv_def waits_at_def)
  from Cons.IH [OF inv] finish_waiter_slot [OF Cons.prems, of _ i v] finish_waiter_kept [OF Cons.prems, of i v] own
  show ?case
    by (auto simp: finish_waiter_pending intro: slots_kept_trans)
qed simp

lemma drain_waiters_inv: "table_inv t \<Longrightarrow> table_inv (drain_waiters r t)"
  and drain_waiters_kept: "table_inv t \<Longrightarrow> slots_kept t (drain_waiters r t)"
  and drain_waiters_length: "table_inv t \<Longrightarrow> length (rt_slots (drain_waiters r t)) = length (rt_slots t)"
  using finish_all [of t "Replied r" "map fst (rt_pending t)"] by (simp_all add: drain_waiters_def)

lemma drain_waiters_pending: "table_inv t \<Longrightarrow> rt_pending (drain_waiters r t) = []"
proof -
  assume "table_inv t"
  then have "set (rt_pending (drain_waiters r t)) = {}"
    using finish_all [of t "Replied r" "map fst (rt_pending t)"] by (auto simp: drain_waiters_def)
  then show ?thesis by simp
qed

lemma drain_waiters_slot:
  assumes "table_inv t" "n < length (rt_slots t)"
  shows "rt_slots (drain_waiters r t) ! n =
           (if n \<in> snd ` set (rt_pending t) then (fst (rt_slots t ! n), Replied r) else rt_slots t ! n)"
proof -
  have "(\<exists>i \<in> set (map fst (rt_pending t)). (i, n) \<in> set (rt_pending t)) \<longleftrightarrow> n \<in> snd ` set (rt_pending t)"
    by force
  then show ?thesis
    using finish_all [OF assms(1), of "Replied r" "map fst (rt_pending t)"] assms(2)
    by (simp add: drain_waiters_def)
qed

end
