(* ===== verification/Lsp_Proxy.thy ===== *)
theory Lsp_Proxy
  imports Lsp_Codec Json_Access Reply_Table
begin

text \<open>
  The language-server connection of \<open>oxplow-lsp/src/proxy.rs\<close> as a machine: the callers of
  \<open>request\<close>, the writer task, the reader task with its buffer, and the other end of the pipes, one
  step for each stretch of code between two points at which another of them can run. A frame is text;
  serde's printer and parser are parameters (\<open>value_lib\<close>). Not modelled: the child process, stderr,
  and the subscribers of the events (the events are listed as they are sent).
\<close>

section \<open>State\<close>

text \<open>What a reply puts on a call's channel, and what \<open>request\<close> returns.\<close>

datatype lsp_reply =
  ResultReply json
| ServerReply int string

datatype lsp_outcome =
  Answered lsp_reply
| ServerClosed
| Dropped

datatype server_event =
  Notification string json
| Request json string json
| Closed

text \<open>A caller: its id is taken, its channel is listed, its frame is on the way to the writer.\<close>

datatype lsp_phase =
  Allocated string
| Registered string
| Sent
| Ended lsp_outcome

datatype lsp_reader =
  Idle string
| Decoding string
| Panicked
| ReaderEnded

record lsp =
  lp_next :: int
  lp_table :: "(int, lsp_reply) reply_table"
  lp_phases :: "lsp_phase list"
  lp_queue :: "string list"
  lp_written :: string
  lp_writer :: bool
  lp_reader :: lsp_reader
  lp_events :: "server_event list"

definition QUEUE_FRAMES :: nat where "QUEUE_FRAMES = 64"

definition lsp_spawn :: lsp where
  "lsp_spawn =
     \<lparr>lp_next = 1, lp_table = empty_table, lp_phases = [], lp_queue = [], lp_written = [],
      lp_writer = True, lp_reader = Idle [], lp_events = []\<rparr>"

section \<open>What the server sends\<close>

text \<open>\<open>handle_message\<close>'s reading of a value: a request, a reply to a call, a notification, or nothing.\<close>

definition error_reply :: "json \<Rightarrow> lsp_reply" where
  "error_reply err =
     ServerReply
       (case Option.bind (json_get ''code'' err) as_i64 of Some c \<Rightarrow> c | None \<Rightarrow> - 1)
       (case Option.bind (json_get ''message'' err) as_str of Some m \<Rightarrow> m | None \<Rightarrow> ''(no message)'')"

definition or_null :: "json option \<Rightarrow> json" where
  "or_null v = (case v of Some x \<Rightarrow> x | None \<Rightarrow> JNull)"

definition reply_body :: "json \<Rightarrow> lsp_reply" where
  "reply_body v =
     (case json_get ''error'' v of
        Some err \<Rightarrow> error_reply err
      | None \<Rightarrow> ResultReply (or_null (json_get ''result'' v)))"

definition method_text :: "json \<Rightarrow> string" where
  "method_text v = (case Option.bind (json_get ''method'' v) as_str of Some m \<Rightarrow> m | None \<Rightarrow> [])"

definition handle_value :: "json \<Rightarrow> lsp \<Rightarrow> lsp" where
  "handle_value v s =
     (case json_get ''id'' v of
        Some i \<Rightarrow>
          if json_get ''method'' v \<noteq> None then
            s\<lparr>lp_events := lp_events s @ [Request i (method_text v) (or_null (json_get ''params'' v))]\<rparr>
          else (case as_i64 i of
            None \<Rightarrow> s
          | Some n \<Rightarrow> s\<lparr>lp_table := finish_waiter n (Replied (reply_body v)) (lp_table s)\<rparr>)
      | None \<Rightarrow>
          (case Option.bind (json_get ''method'' v) as_str of
             Some m \<Rightarrow> s\<lparr>lp_events := lp_events s @ [Notification m (or_null (json_get ''params'' v))]\<rparr>
           | None \<Rightarrow> s))"

definition handle_message :: "value_lib \<Rightarrow> string \<Rightarrow> lsp \<Rightarrow> lsp" where
  "handle_message vl raw s = (case vl_parse vl raw of None \<Rightarrow> s | Some v \<Rightarrow> handle_value v s)"

section \<open>Steps\<close>

datatype lsp_step =
  Begin string json
| Register nat
| Queue nat
| Await nat
| Notify string json
| Respond json json
| WriterWrites
| WriterFails nat
| ReadChunk string
| DecodeOne
| ReadEnds

text \<open>\<open>AtomicI64::fetch_add\<close> wraps.\<close>

definition wrap_i64 :: "int \<Rightarrow> int" where
  "wrap_i64 x = (x + 2 ^ 63) mod 2 ^ 64 - 2 ^ 63"

definition request_frame :: "value_lib \<Rightarrow> int \<Rightarrow> string \<Rightarrow> json \<Rightarrow> string" where
  "request_frame vl i m ps =
     vl_text vl (JObj [(''jsonrpc'', JStr ''2.0''), (''id'', json_i64 i), (''method'', JStr m), (''params'', ps)])"

definition notify_frame :: "value_lib \<Rightarrow> string \<Rightarrow> json \<Rightarrow> string" where
  "notify_frame vl m ps =
     vl_text vl (JObj [(''jsonrpc'', JStr ''2.0''), (''method'', JStr m), (''params'', ps)])"

definition respond_frame :: "value_lib \<Rightarrow> json \<Rightarrow> json \<Rightarrow> string" where
  "respond_frame vl i result =
     vl_text vl (JObj [(''jsonrpc'', JStr ''2.0''), (''id'', i), (''result'', result)])"

definition phase_is :: "lsp \<Rightarrow> nat \<Rightarrow> lsp_phase \<Rightarrow> bool" where
  "phase_is s n p \<longleftrightarrow> n < length (lp_phases s) \<and> lp_phases s ! n = p"

definition set_phase :: "nat \<Rightarrow> lsp_phase \<Rightarrow> lsp \<Rightarrow> lsp" where
  "set_phase n p s = s\<lparr>lp_phases := (lp_phases s)[n := p]\<rparr>"

text \<open>
  \<open>write_tx.send\<close>: it waits while the queue is full and fails once the writer is gone (\<open>Inl\<close> of the
  inner sum). A step that cannot be taken now is \<open>None\<close>.
\<close>

definition send_frame :: "string \<Rightarrow> lsp \<Rightarrow> (lsp + lsp) option" where
  "send_frame f s =
     (if \<not> lp_writer s then Some (Inl s)
      else if length (lp_queue s) < QUEUE_FRAMES then Some (Inr (s\<lparr>lp_queue := lp_queue s @ [f]\<rparr>))
      else None)"

definition either_way :: "(lsp + lsp) option \<Rightarrow> lsp option" where
  "either_way r = (case r of None \<Rightarrow> None | Some (Inl s) \<Rightarrow> Some s | Some (Inr s) \<Rightarrow> Some s)"

definition call_id :: "lsp \<Rightarrow> nat \<Rightarrow> int" where
  "call_id s n = fst (rt_slots (lp_table s) ! n)"

definition register_call :: "nat \<Rightarrow> lsp \<Rightarrow> lsp option" where
  "register_call n s =
     (if n < length (lp_phases s) then
        (case lp_phases s ! n of
           Allocated f \<Rightarrow>
             Some (set_phase n (Registered f) (s\<lparr>lp_table := add_waiter (call_id s n) n (lp_table s)\<rparr>))
         | _ \<Rightarrow> None)
      else None)"

definition queue_call :: "nat \<Rightarrow> lsp \<Rightarrow> lsp option" where
  "queue_call n s =
     (if n < length (lp_phases s) then
        (case lp_phases s ! n of
           Registered f \<Rightarrow>
             (case send_frame f s of
                None \<Rightarrow> None
              | Some (Inl s') \<Rightarrow> Some (set_phase n (Ended Dropped) s')
              | Some (Inr s') \<Rightarrow> Some (set_phase n Sent s'))
         | _ \<Rightarrow> None)
      else None)"

definition await_call :: "nat \<Rightarrow> lsp \<Rightarrow> lsp option" where
  "await_call n s =
     (if phase_is s n Sent then
        (case snd (rt_slots (lp_table s) ! n) of
           Pending \<Rightarrow> None
         | Replied r \<Rightarrow> Some (set_phase n (Ended (Answered r)) s)
         | SenderGone \<Rightarrow> Some (set_phase n (Ended ServerClosed) s))
      else None)"

definition decode_one :: "value_lib \<Rightarrow> lsp \<Rightarrow> lsp option" where
  "decode_one vl s =
     (case lp_reader s of
        Decoding b \<Rightarrow>
          Some (case decode_frame b of
             Ready m r \<Rightarrow> handle_message vl m (s\<lparr>lp_reader := Decoding r\<rparr>)
           | Wait \<Rightarrow> s\<lparr>lp_reader := Idle b\<rparr>
           | Refuse _ r \<Rightarrow> s\<lparr>lp_reader := Idle r\<rparr>
           | Overflow \<Rightarrow> s\<lparr>lp_reader := Panicked\<rparr>)
      | _ \<Rightarrow> None)"

fun lsp_try :: "value_lib \<Rightarrow> lsp \<Rightarrow> lsp_step \<Rightarrow> lsp option" where
  "lsp_try vl s (Begin m ps) =
     Some (s\<lparr>lp_next := wrap_i64 (lp_next s + 1),
             lp_table := open_channel (lp_next s) (lp_table s),
             lp_phases := lp_phases s @ [Allocated (request_frame vl (lp_next s) m ps)]\<rparr>)"
| "lsp_try vl s (Register n) = register_call n s"
| "lsp_try vl s (Queue n) = queue_call n s"
| "lsp_try vl s (Await n) = await_call n s"
| "lsp_try vl s (Notify m ps) = either_way (send_frame (notify_frame vl m ps) s)"
| "lsp_try vl s (Respond i result) = either_way (send_frame (respond_frame vl i result) s)"
| "lsp_try vl s WriterWrites =
     (case lp_queue s of
        f # fs \<Rightarrow>
          if lp_writer s then Some (s\<lparr>lp_queue := fs, lp_written := lp_written s @ encode_frame f\<rparr>) else None
      | [] \<Rightarrow> None)"
| "lsp_try vl s (WriterFails k) =
     (case lp_queue s of
        f # fs \<Rightarrow>
          if lp_writer s then
            Some (s\<lparr>lp_writer := False, lp_queue := [], lp_written := lp_written s @ take k (encode_frame f)\<rparr>)
          else None
      | [] \<Rightarrow> None)"
| "lsp_try vl s (ReadChunk c) =
     (case lp_reader s of Idle b \<Rightarrow> if c = [] then None else Some (s\<lparr>lp_reader := Decoding (b @ c)\<rparr>) | _ \<Rightarrow> None)"
| "lsp_try vl s DecodeOne = decode_one vl s"
| "lsp_try vl s ReadEnds =
     (case lp_reader s of
        Idle b \<Rightarrow> Some (s\<lparr>lp_reader := ReaderEnded, lp_events := lp_events s @ [Closed]\<rparr>)
      | _ \<Rightarrow> None)"

definition lsp_step :: "value_lib \<Rightarrow> lsp \<Rightarrow> lsp_step \<Rightarrow> unit + lsp" where
  "lsp_step vl s e = (case lsp_try vl s e of None \<Rightarrow> Inl () | Some s' \<Rightarrow> Inr s')"


section \<open>The invariant\<close>

definition few_calls :: "lsp \<Rightarrow> bool" where
  "few_calls s \<longleftrightarrow> length (lp_phases s) < 2 ^ 63"

definition is_allocated :: "lsp_phase \<Rightarrow> bool" where
  "is_allocated p \<longleftrightarrow> (\<exists>f. p = Allocated f)"

text \<open>
  The calls' ids count up from 1; a call that has not been listed waits on an untouched channel; and
  until the ids wrap, every call listed and not answered is found under its id.
\<close>

definition call_ok :: "bool \<Rightarrow> (int, lsp_reply) reply_table \<Rightarrow> nat \<Rightarrow> lsp_phase \<Rightarrow> bool" where
  "call_ok few t n p \<longleftrightarrow>
     fst (rt_slots t ! n) = wrap_i64 (int n + 1)
     \<and> (is_allocated p \<longrightarrow> snd (rt_slots t ! n) = Pending \<and> n \<notin> snd ` set (rt_pending t))
     \<and> (few \<longrightarrow> \<not> is_allocated p \<longrightarrow> snd (rt_slots t ! n) = Pending \<longrightarrow> n \<in> snd ` set (rt_pending t))"

definition lsp_inv :: "lsp \<Rightarrow> bool" where
  "lsp_inv s \<longleftrightarrow>
     table_inv (lp_table s) \<and> length (rt_slots (lp_table s)) = length (lp_phases s)
     \<and> lp_next s = wrap_i64 (int (length (lp_phases s)) + 1)
     \<and> (\<forall>n < length (lp_phases s). call_ok (few_calls s) (lp_table s) n (lp_phases s ! n))"

lemma wrap_i64_small: "- (2 ^ 63) \<le> x \<Longrightarrow> x < 2 ^ 63 \<Longrightarrow> wrap_i64 x = x"
  by (simp add: wrap_i64_def)

lemma wrap_i64_next: "wrap_i64 (wrap_i64 x + 1) = wrap_i64 (x + 1)"
proof -
  have "((x + 2 ^ 63) mod 2 ^ 64 + 1) mod 2 ^ 64 = (x + 2 ^ 63 + 1) mod (2 ^ 64 :: int)"
    by (rule mod_add_left_eq)
  then show ?thesis by (simp add: wrap_i64_def ac_simps)
qed

lemma lsp_spawn_inv: "lsp_inv lsp_spawn"
  by (simp add: lsp_inv_def lsp_spawn_def empty_table_def table_inv_def wrap_i64_small)

text \<open>A step that leaves table, ids and phases alone keeps it.\<close>

lemma same_calls_inv:
  "lp_table s' = lp_table s \<Longrightarrow> lp_next s' = lp_next s \<Longrightarrow> lp_phases s' = lp_phases s \<Longrightarrow>
     lsp_inv s \<Longrightarrow> lsp_inv s'"
  by (simp add: lsp_inv_def few_calls_def)

lemma call_id_small:
  "lsp_inv s \<Longrightarrow> few_calls s \<Longrightarrow> n < length (lp_phases s) \<Longrightarrow> call_id s n = int n + 1"
  by (simp add: lsp_inv_def few_calls_def wrap_i64_small call_id_def call_ok_def)

lemma table_own: "table_inv t \<Longrightarrow> (i, n) \<in> set (rt_pending t) \<Longrightarrow> n < length (rt_slots t) \<and> rt_slots t ! n = (i, Pending)"
  by (auto simp: table_inv_def waits_at_def)

lemma call_ok_finish:
  assumes t: "table_inv t" and n: "n < length (rt_slots t)" and ok: "call_ok few t n p" and v: "v \<noteq> Pending"
  shows "call_ok few (finish_waiter i v t) n p"
proof (cases "(i, n) \<in> set (rt_pending t)")
  case True
  then have "\<not> is_allocated p" using ok by (force simp: call_ok_def)
  with True ok v table_own [OF t True] show ?thesis
    by (simp add: call_ok_def finish_waiter_slot [OF t n])
next
  case False
  then have "n \<in> snd ` set (rt_pending t) \<longleftrightarrow> n \<in> snd ` set (rt_pending (finish_waiter i v t))"
    by (force simp: finish_waiter_pending)
  with False ok show ?thesis by (simp add: call_ok_def finish_waiter_slot [OF t n])
qed

lemma finish_inv:
  assumes "lsp_inv s"
  shows "lsp_inv (s\<lparr>lp_table := finish_waiter i (Replied r) (lp_table s)\<rparr>)"
  using assms by (simp add: lsp_inv_def few_calls_def finish_waiter_inv call_ok_finish)

lemma events_inv: "lsp_inv s \<Longrightarrow> lsp_inv (s\<lparr>lp_events := es\<rparr>)"
  by (rule same_calls_inv) simp_all

lemma handle_message_inv: "lsp_inv s \<Longrightarrow> lsp_inv (handle_message vl raw s)"
  by (simp add: handle_message_def handle_value_def finish_inv events_inv split: option.splits)

text \<open>The phase of one call moves on; whether it is listed does not change.\<close>

lemma phase_inv:
  assumes "lsp_inv s" "n < length (lp_phases s)" "is_allocated p = is_allocated (lp_phases s ! n)"
  shows "lsp_inv (set_phase n p s)"
  using assms by (simp add: lsp_inv_def set_phase_def few_calls_def nth_list_update call_ok_def)

lemma register_inv:
  assumes inv: "lsp_inv s" and step: "register_call n s = Some s'"
  shows "lsp_inv s'"
proof -
  from step obtain f where n: "n < length (lp_phases s)" and p: "lp_phases s ! n = Allocated f"
    and s': "s' = set_phase n (Registered f) (s\<lparr>lp_table := add_waiter (call_id s n) n (lp_table s)\<rparr>)"
    by (auto simp: register_call_def split: if_splits lsp_phase.splits)
  let ?t = "lp_table s" and ?i = "call_id s n" and ?few = "few_calls s"
  have t: "table_inv ?t" and len: "length (rt_slots ?t) = length (lp_phases s)"
    and ok: "\<And>m. m < length (lp_phases s) \<Longrightarrow> call_ok ?few ?t m (lp_phases s ! m)"
    using inv by (simp_all add: lsp_inv_def)
  have free: "n \<notin> snd ` set (rt_pending ?t)" and pend: "snd (rt_slots ?t ! n) = Pending"
    using ok [OF n] p by (auto simp: call_ok_def is_allocated_def)
  have at: "waits_at ?t (?i, n)"
    using n len pend by (simp add: waits_at_def call_id_def prod_eq_iff)
  have "call_ok ?few (add_waiter ?i n ?t) m ((lp_phases s)[n := Registered f] ! m)"
    if m: "m < length (lp_phases s)" for m
  proof (cases "m = n")
    case True
    have "(?i, n) \<notin> set (rt_pending ?t)" using free by force
    with True ok [OF n] show ?thesis
      using finish_waiter_slot [OF t, of n ?i SenderGone] n len
      by (simp add: call_ok_def is_allocated_def add_waiter_pending)
  next
    case False
    have "call_ok ?few (finish_waiter ?i SenderGone ?t) m (lp_phases s ! m)"
      by (rule call_ok_finish [OF t _ ok [OF m]]) (use m len in simp_all)
    then show ?thesis using False
      by (simp add: call_ok_def add_waiter_pending finish_waiter_pending)
  qed
  with inv show ?thesis using add_waiter_inv [OF t at free]
    by (simp add: s' set_phase_def lsp_inv_def few_calls_def)
qed

lemma send_frame_inv:
  assumes "lsp_inv s"
  shows "send_frame f s = Some (Inl s') \<Longrightarrow> lsp_inv s' \<and> lp_phases s' = lp_phases s"
    and "send_frame f s = Some (Inr s') \<Longrightarrow> lsp_inv s' \<and> lp_phases s' = lp_phases s"
  using assms by (auto simp: send_frame_def split: if_splits intro: same_calls_inv)

lemma begin_inv:
  assumes inv: "lsp_inv s"
  shows "lsp_inv (s\<lparr>lp_next := wrap_i64 (lp_next s + 1), lp_table := open_channel (lp_next s) (lp_table s),
                    lp_phases := lp_phases s @ [Allocated f]\<rparr>)"
proof -
  have t: "table_inv (lp_table s)" and len: "length (rt_slots (lp_table s)) = length (lp_phases s)"
    using inv by (simp_all add: lsp_inv_def)
  have "snd p < length (lp_phases s)" if "p \<in> set (rt_pending (lp_table s))" for p
    using table_own [OF t, of "fst p" "snd p"] that len by simp
  then have new: "length (lp_phases s) \<notin> snd ` set (rt_pending (lp_table s))" by force
  have next_id: "lp_next s = wrap_i64 (int (length (lp_phases s)) + 1)" using inv by (simp add: lsp_inv_def)
  have "call_ok few (open_channel (lp_next s) (lp_table s)) n ((lp_phases s @ [Allocated f]) ! n)"
    if "n < Suc (length (lp_phases s))" "few \<longrightarrow> few_calls s" for n few
  proof (cases "n = length (lp_phases s)")
    case True
    with new len next_id show ?thesis
      by (simp add: call_ok_def open_channel_def is_allocated_def nth_append)
  next
    case False
    with that inv len show ?thesis
      by (auto simp: lsp_inv_def call_ok_def open_channel_def nth_append)
  qed
  then show ?thesis
    using len next_id open_channel_inv [OF t, of "lp_next s"]
      wrap_i64_next [of "int (length (lp_phases s)) + 1"]
    by (simp add: lsp_inv_def few_calls_def open_channel_def [of _ "lp_table s"] ac_simps)
qed

lemma lsp_step_inv: "lsp_inv s \<Longrightarrow> lsp_step vl s e = Inr s' \<Longrightarrow> lsp_inv s'"
proof (cases e)
  case (Queue n)
  assume inv: "lsp_inv s" and "lsp_step vl s e = Inr s'"
  with Queue show ?thesis
    by (auto simp: lsp_step_def queue_call_def is_allocated_def split: option.splits if_splits lsp_phase.splits sum.splits
        dest!: send_frame_inv [OF inv] intro!: phase_inv)
next
  case (Await n)
  assume "lsp_inv s" "lsp_step vl s e = Inr s'"
  with Await show ?thesis
    by (auto simp: lsp_step_def await_call_def phase_is_def is_allocated_def split: if_splits slot.splits intro!: phase_inv)
next
  case (Notify m ps)
  assume inv: "lsp_inv s" and "lsp_step vl s e = Inr s'"
  with Notify show ?thesis
    by (auto simp: lsp_step_def either_way_def split: option.splits sum.splits dest!: send_frame_inv [OF inv])
next
  case (Respond i result)
  assume inv: "lsp_inv s" and "lsp_step vl s e = Inr s'"
  with Respond show ?thesis
    by (auto simp: lsp_step_def either_way_def split: option.splits sum.splits dest!: send_frame_inv [OF inv])
next
  case DecodeOne
  have keep: "lsp_inv s \<Longrightarrow> lsp_inv (s\<lparr>lp_reader := r\<rparr>)" for r by (rule same_calls_inv) simp_all
  assume "lsp_inv s" "lsp_step vl s e = Inr s'"
  with DecodeOne show ?thesis
    by (auto simp: lsp_step_def decode_one_def keep intro!: handle_message_inv split: lsp_reader.splits decoded.splits)
qed (auto simp: lsp_step_def split: option.splits list.splits if_splits lsp_reader.splits
      intro: begin_inv register_inv same_calls_inv)

interpretation lsp: guarded_machine "lsp_step vl" lsp_inv
  by unfold_locales (rule lsp_step_inv)

section \<open>Replies\<close>

text \<open>The id a reply is for: an answer to one of our calls has an id and no method.\<close>

definition reply_id :: "json \<Rightarrow> int option" where
  "reply_id v = (if json_get ''method'' v = None then Option.bind (json_get ''id'' v) as_i64 else None)"

text \<open>
  C19. A reply goes to the call whose request carried its id, and to no other: the call's channel
  gets the reply's result or error, every other channel is as before, and nothing else in the
  connection changes.
\<close>

theorem replies_reach_their_call:
  assumes "lsp_inv s" "few_calls s" "n < length (lp_phases s)" "\<not> is_allocated (lp_phases s ! n)"
    and "snd (rt_slots (lp_table s) ! n) = Pending"
    and "vl_parse vl raw = Some v" "reply_id v = Some (int n + 1)"
  shows "\<exists>t. handle_message vl raw s = s\<lparr>lp_table := t\<rparr>
           \<and> (\<forall>m < length (lp_phases s).
                rt_slots t ! m = (if m = n then (int n + 1, Replied (reply_body v)) else rt_slots (lp_table s) ! m))"
proof (intro exI conjI allI impI)
  let ?t = "lp_table s"
  have t: "table_inv ?t" and len: "length (rt_slots ?t) = length (lp_phases s)"
    using assms(1) by (simp_all add: lsp_inv_def)
  obtain i where "json_get ''id'' v = Some i" "as_i64 i = Some (int n + 1)" "json_get ''method'' v = None"
    using assms(7) by (auto simp: reply_id_def bind_eq_Some_conv split: if_splits)
  with assms(6) show "handle_message vl raw s = s\<lparr>lp_table := finish_waiter (int n + 1) (Replied (reply_body v)) ?t\<rparr>"
    by (simp add: handle_message_def handle_value_def)
  fix m
  assume m: "m < length (lp_phases s)"
  have "n \<in> snd ` set (rt_pending ?t)"
    using assms(1-5) by (simp add: lsp_inv_def call_ok_def)
  then obtain k where k: "(k, n) \<in> set (rt_pending ?t)" by force
  have id: "fst (rt_slots ?t ! l) = int l + 1" if "l < length (lp_phases s)" for l
    using call_id_small [OF assms(1,2) that] by (simp add: call_id_def)
  have "(int n + 1, m) \<in> set (rt_pending ?t) \<longleftrightarrow> m = n"
    using k table_own [OF t] id [OF m] id [OF assms(3)] by fastforce
  then show "rt_slots (finish_waiter (int n + 1) (Replied (reply_body v)) ?t) ! m =
      (if m = n then (int n + 1, Replied (reply_body v)) else rt_slots ?t ! m)"
    using finish_waiter_slot [OF t, of m] m len by simp
qed

section \<open>After the server\<close>

definition call_waits :: "lsp \<Rightarrow> nat \<Rightarrow> bool" where
  "call_waits s n \<longleftrightarrow> phase_is s n Sent \<and> snd (rt_slots (lp_table s) ! n) = Pending"

definition reader_gone :: "lsp \<Rightarrow> bool" where
  "reader_gone s \<longleftrightarrow> lp_reader s = ReaderEnded \<or> lp_reader s = Panicked"

lemma few_before: "lsp_step vl s e = Inr s' \<Longrightarrow> length (lp_phases s) \<le> length (lp_phases s')"
  by (cases e) (auto simp: lsp_step_def register_call_def queue_call_def await_call_def decode_one_def
      send_frame_def either_way_def set_phase_def handle_message_def handle_value_def
      split: option.splits if_splits lsp_phase.splits slot.splits list.splits lsp_reader.splits sum.splits decoded.splits)

lemma register_waits:
  assumes inv: "lsp_inv s" "few_calls s" and step: "register_call m s = Some s'" and n: "call_waits s n"
  shows "call_waits s' n"
proof -
  from step obtain f where m: "m < length (lp_phases s)" and p: "lp_phases s ! m = Allocated f"
    and s': "s' = set_phase m (Registered f) (s\<lparr>lp_table := add_waiter (call_id s m) m (lp_table s)\<rparr>)"
    by (auto simp: register_call_def split: if_splits lsp_phase.splits)
  let ?t = "lp_table s"
  have t: "table_inv ?t" and len: "length (rt_slots ?t) = length (lp_phases s)"
    using inv by (simp_all add: lsp_inv_def)
  have other: "n \<noteq> m" "n < length (lp_phases s)" using n p by (auto simp: call_waits_def phase_is_def)
  have "(call_id s m, n) \<notin> set (rt_pending ?t)"
    using table_own [OF t, of "call_id s m" n] call_id_small [OF inv, of n] call_id_small [OF inv, of m] other m
    by (auto simp: call_id_def)
  then show ?thesis
    using n other len finish_waiter_slot [OF t, of n]
    by (simp add: s' call_waits_def phase_is_def set_phase_def)
qed

lemma waits_on:
  assumes "lsp_inv s" "few_calls s" "lsp_step vl s e = Inr s'" "call_waits s n" "reader_gone s"
  shows "call_waits s' n \<and> reader_gone s'"
proof (cases e)
  case (Register m)
  with assms(3) have r: "register_call m s = Some s'" by (simp add: lsp_step_def split: option.splits)
  then have "lp_reader s' = lp_reader s"
    by (auto simp: register_call_def set_phase_def split: if_splits lsp_phase.splits)
  with register_waits [OF assms(1,2) r assms(4)] assms(5) show ?thesis by (simp add: reader_gone_def)
next
  case (Begin m ps)
  have "length (rt_slots (lp_table s)) = length (lp_phases s)" using assms(1) by (simp add: lsp_inv_def)
  with Begin assms(3-5) show ?thesis
    by (auto simp: lsp_step_def call_waits_def phase_is_def open_channel_def nth_append reader_gone_def)
next
  case (Queue m)
  with assms(3-5) show ?thesis
    by (auto simp: lsp_step_def queue_call_def send_frame_def set_phase_def call_waits_def phase_is_def reader_gone_def
        nth_list_update split: if_splits lsp_phase.splits option.splits sum.splits)
next
  case (Await m)
  with assms(3-5) show ?thesis
    by (auto simp: lsp_step_def await_call_def set_phase_def call_waits_def phase_is_def reader_gone_def
        nth_list_update split: if_splits slot.splits option.splits)
qed (use assms(3-5) in \<open>auto simp: lsp_step_def call_waits_def phase_is_def reader_gone_def send_frame_def
      either_way_def decode_one_def split: option.splits if_splits list.splits lsp_reader.splits sum.splits\<close>)

text \<open>
  Once the reader task has ended, whether the server closed its pipe or a count made the task
  panic, a call that is still waiting stays so: no later step of the connection answers it or tells
  it that the server closed.
\<close>

theorem waiting_calls_outlive_the_reader:
  assumes "lsp_inv s" "few_calls (run_events (lsp_step vl) s es)" "call_waits s n" "reader_gone s"
  shows "call_waits (run_events (lsp_step vl) s es) n"
  using assms
proof (induction es arbitrary: s)
  case (Cons e es)
  let ?s = "attempt_step (lsp_step vl) s e"
  have grow: "length (lp_phases s) \<le> length (lp_phases (run_events (lsp_step vl) s es))" for s es
  proof (induction es arbitrary: s)
    case (Cons e es)
    from Cons [of "attempt_step (lsp_step vl) s e"] show ?case
      by (auto simp: attempt_step_def dest: few_before split: sum.splits intro: order_trans)
  qed simp
  have "few_calls s" using Cons.prems(2) grow [of s "e # es"] by (simp add: few_calls_def)
  then have "call_waits ?s n \<and> reader_gone ?s"
    using Cons.prems waits_on [of s vl e _ n] by (auto simp: attempt_step_def split: sum.splits)
  with Cons.IH [of ?s] Cons.prems show ?case using lsp.attempt_inv [of s vl e] by simp
qed simp

section \<open>The reader task\<close>

text \<open>
  The decoding steps between two reads are \<open>drain\<close>: they handle its messages in order and leave the
  reader as it says.
\<close>

lemma handle_message_reader:
  "handle_message vl m (s\<lparr>lp_reader := r\<rparr>) = (handle_message vl m s)\<lparr>lp_reader := r\<rparr>"
  by (simp add: handle_message_def handle_value_def split: option.split)

definition after_drain :: "string option \<Rightarrow> lsp_reader" where
  "after_drain q = (case q of Some b \<Rightarrow> Idle b | None \<Rightarrow> Panicked)"

lemma decoding_is_draining:
  "run_events (lsp_step vl) (s\<lparr>lp_reader := Decoding b\<rparr>) (replicate (Suc (length (fst (drain b)))) DecodeOne) =
     (fold (handle_message vl) (fst (drain b)) s)\<lparr>lp_reader := after_drain (snd (drain b))\<rparr>"
proof (induction b arbitrary: s rule: drain.induct)
  case (1 b)
  show ?case
  proof (cases "decode_frame b")
    case (Ready m r)
    with 1 [OF Ready, of "handle_message vl m s"] show ?thesis
      by (simp add: drain.simps [of b] attempt_step_def lsp_step_def decode_one_def handle_message_reader)
  qed (simp_all add: drain.simps [of b] attempt_step_def lsp_step_def decode_one_def after_drain_def)
qed

section \<open>At concrete inputs\<close>

definition demo_lsp_lib :: value_lib where
  "demo_lsp_lib =
     \<lparr>vl_pieces = (\<lambda>v. [''{}'']),
      vl_parse = (\<lambda>s. if s = ''reply'' then Some (JObj [(''id'', JNum ''1''), (''result'', JBool True)]) else None)\<rparr>"

definition demo_called :: lsp where
  "demo_called = run_events (lsp_step demo_lsp_lib) lsp_spawn [Begin ''initialize'' JNull, Register 0, Queue 0]"

lemma demo_called_inv: "lsp_inv demo_called"
  unfolding demo_called_def by (rule lsp.run_inv [OF lsp_spawn_inv])

lemma demo_called_state:
  "lp_phases demo_called = [Sent]" "lp_table demo_called = \<lparr>rt_slots = [(1, Pending)], rt_pending = [(1, 0)]\<rparr>"
  "lp_reader demo_called = Idle []"
  by (simp_all add: demo_called_def lsp_spawn_def attempt_step_def lsp_step_def empty_table_def open_channel_def
      register_call_def call_id_def add_waiter_def finish_waiter_def set_phase_def queue_call_def send_frame_def
      QUEUE_FRAMES_def)

theorem replies_reach_their_call_witness:
  "\<exists>t. handle_message demo_lsp_lib ''reply'' demo_called = demo_called\<lparr>lp_table := t\<rparr>
     \<and> (\<forall>m < length (lp_phases demo_called).
          rt_slots t ! m = (if m = 0 then (int 0 + 1, Replied (reply_body (JObj [(''id'', JNum ''1''), (''result'', JBool True)])))
                            else rt_slots (lp_table demo_called) ! m))"
proof (rule replies_reach_their_call [OF demo_called_inv])
  show "reply_id (JObj [(''id'', JNum ''1''), (''result'', JBool True)]) = Some (int 0 + 1)"
    by (simp add: reply_id_def as_i64_def is_ascii_digit_def byte_def parse_uint_def unsigned_part_def
        digits_value_def digit_value_def i64_max_def)
qed (simp_all add: demo_called_state few_calls_def is_allocated_def demo_lsp_lib_def)

theorem waiting_calls_outlive_the_reader_witness:
  "call_waits (run_events (lsp_step demo_lsp_lib) (attempt_step (lsp_step demo_lsp_lib) demo_called ReadEnds)
     [Await 0, DecodeOne, ReadChunk ''x'', Await 0]) 0"
proof (rule waiting_calls_outlive_the_reader)
  show "lsp_inv (attempt_step (lsp_step demo_lsp_lib) demo_called ReadEnds)"
    by (rule lsp.attempt_inv [OF demo_called_inv])
qed (simp_all add: demo_called_state few_calls_def call_waits_def reader_gone_def phase_is_def attempt_step_def
    lsp_step_def await_call_def decode_one_def)

end
