(* ===== verification/Provider_Message.thy ===== *)
theory Provider_Message
  imports Json_Access Std_Text
begin

text \<open>
  The messages a provider and its host exchange: \<open>codec.rs\<close> and \<open>errors.rs\<close> of
  \<open>oxplow-provider-protocol\<close>. A message is a JSON-RPC 2.0 object on a line of its own; a typed error
  travels as a code, a text and a datum. Serde's printer and parser of JSON text are parameters. The
  lemmas: what is written is read back, and what survives of an error on the way.
\<close>

section \<open>Errors\<close>

datatype error_object = ErrorObject (eo_code: int) (eo_message: string) (eo_data: "json option")

definition PARSE_ERROR :: int where "PARSE_ERROR = - 32700"
definition INVALID_REQUEST :: int where "INVALID_REQUEST = - 32600"
definition METHOD_NOT_FOUND :: int where "METHOD_NOT_FOUND = - 32601"
definition INVALID_PARAMS :: int where "INVALID_PARAMS = - 32602"
definition INTERNAL_ERROR :: int where "INTERNAL_ERROR = - 32603"
definition NOT_CONFIGURED :: int where "NOT_CONFIGURED = - 32001"
definition AUTH :: int where "AUTH = - 32002"
definition RATE_LIMITED :: int where "RATE_LIMITED = - 32003"
definition INVALID_INPUT :: int where "INVALID_INPUT = - 32004"
definition CANCELLED :: int where "CANCELLED = - 32800"

lemmas code_defs =
  PARSE_ERROR_def INVALID_REQUEST_def METHOD_NOT_FOUND_def INVALID_PARAMS_def INTERNAL_ERROR_def
  NOT_CONFIGURED_def AUTH_def RATE_LIMITED_def INVALID_INPUT_def CANCELLED_def

datatype protocol_error =
  ParseError string
| InvalidRequest string
| MethodNotFound string
| InvalidParams string
| Internal string
| NotConfigured string
| Auth string "string option"
| RateLimited string "nat option"
| InvalidInput string string
| Cancelled
| Other int string

definition show_int :: "int \<Rightarrow> string" where
  "show_int i = (if i < 0 then CHR ''-'' # show_nat (nat (- i)) else show_nat (nat i))"

text \<open>Its \<open>Display\<close>.\<close>

fun error_text :: "protocol_error \<Rightarrow> string" where
  "error_text (ParseError m) = ''parse error: '' @ m"
| "error_text (InvalidRequest m) = ''invalid request: '' @ m"
| "error_text (MethodNotFound m) = ''no method `'' @ m @ ''`''"
| "error_text (InvalidParams m) = ''invalid params: '' @ m"
| "error_text (Internal m) = m"
| "error_text (NotConfigured m) = ''not configured: '' @ m"
| "error_text (Auth m c) = ''authentication failed: '' @ m"
| "error_text (RateLimited m ms) = ''rate limited: '' @ m"
| "error_text (InvalidInput f m) = ''invalid input at `'' @ f @ ''`: '' @ m"
| "error_text Cancelled = ''cancelled''"
| "error_text (Other code m) = ''error '' @ show_int code @ '': '' @ m"

fun error_code :: "protocol_error \<Rightarrow> int" where
  "error_code (ParseError m) = PARSE_ERROR"
| "error_code (InvalidRequest m) = INVALID_REQUEST"
| "error_code (MethodNotFound m) = METHOD_NOT_FOUND"
| "error_code (InvalidParams m) = INVALID_PARAMS"
| "error_code (Internal m) = INTERNAL_ERROR"
| "error_code (NotConfigured m) = NOT_CONFIGURED"
| "error_code (Auth m c) = AUTH"
| "error_code (RateLimited m ms) = RATE_LIMITED"
| "error_code (InvalidInput f m) = INVALID_INPUT"
| "error_code Cancelled = CANCELLED"
| "error_code (Other code m) = code"

fun error_data :: "protocol_error \<Rightarrow> json option" where
  "error_data (Auth m c) = map_option (\<lambda>c. JObj [(''credential'', JStr c)]) c"
| "error_data (RateLimited m ms) = map_option (\<lambda>ms. JObj [(''retry_after_ms'', json_u64 ms)]) ms"
| "error_data (InvalidInput f m) = Some (JObj [(''field'', JStr f)])"
| "error_data _ = None"

definition error_message :: "protocol_error \<Rightarrow> string" where
  "error_message e =
     (case e of
        InvalidInput f m \<Rightarrow> m | RateLimited m ms \<Rightarrow> m | Auth m c \<Rightarrow> m
      | _ \<Rightarrow> error_text e)"

definition object_of_error :: "protocol_error \<Rightarrow> error_object" where
  "object_of_error e = ErrorObject (error_code e) (error_message e) (error_data e)"

definition error_of_object :: "error_object \<Rightarrow> protocol_error" where
  "error_of_object o' =
     (let code = eo_code o'; m = eo_message o'; field = (\<lambda>k. Option.bind (eo_data o') (json_get k)) in
      if code = PARSE_ERROR then ParseError m
      else if code = INVALID_REQUEST then InvalidRequest m
      else if code = METHOD_NOT_FOUND then MethodNotFound m
      else if code = INVALID_PARAMS then InvalidParams m
      else if code = INTERNAL_ERROR then Internal m
      else if code = NOT_CONFIGURED then NotConfigured m
      else if code = AUTH then Auth m (Option.bind (field ''credential'') as_str)
      else if code = RATE_LIMITED then RateLimited m (Option.bind (field ''retry_after_ms'') as_u64)
      else if code = INVALID_INPUT then
        InvalidInput (case Option.bind (field ''field'') as_str of Some f \<Rightarrow> f | None \<Rightarrow> []) m
      else if code = CANCELLED then Cancelled
      else Other code m)"

section \<open>Messages\<close>

datatype message =
  Request nat string json
| Response nat json
| Error "nat option" error_object
| Notification string json

datatype codec_failure =
  BadJson
| Shape string

definition id_value :: "nat option \<Rightarrow> json" where
  "id_value i = (case i of Some n \<Rightarrow> json_u64 n | None \<Rightarrow> JNull)"

definition error_object_to_value :: "error_object \<Rightarrow> json" where
  "error_object_to_value o' =
     JObj ([(''code'', json_i64 (eo_code o')), (''message'', JStr (eo_message o'))]
           @ (case eo_data o' of Some d \<Rightarrow> [(''data'', d)] | None \<Rightarrow> []))"

text \<open>
  The derived reader of the struct: an object with no other field, or an array in the fields' order;
  a datum of null reads as none.
\<close>

definition read_data :: "json option \<Rightarrow> json option" where
  "read_data v = (if v = Some JNull then None else v)"

definition error_object_from_value :: "json \<Rightarrow> error_object option" where
  "error_object_from_value v =
     (case v of
        JObj kvs \<Rightarrow>
          if \<not> set (map fst kvs) \<subseteq> {''code'', ''message'', ''data''} then None
          else
            Option.bind (Option.bind (map_of kvs ''code'') as_i64) (\<lambda>c.
            Option.bind (Option.bind (map_of kvs ''message'') as_str) (\<lambda>m.
            Some (ErrorObject c m (read_data (map_of kvs ''data'')))))
      | JArr (c # m # rest) \<Rightarrow>
          if length rest \<le> 1 then
            Option.bind (as_i64 c) (\<lambda>c. Option.bind (as_str m) (\<lambda>m.
              Some (ErrorObject c m (case rest of [] \<Rightarrow> None | d # _ \<Rightarrow> read_data (Some d)))))
          else None
      | _ \<Rightarrow> None)"

fun to_value :: "message \<Rightarrow> json" where
  "to_value (Request i m ps) =
     JObj [(''jsonrpc'', JStr ''2.0''), (''id'', json_u64 i), (''method'', JStr m), (''params'', ps)]"
| "to_value (Response i r) = JObj [(''jsonrpc'', JStr ''2.0''), (''id'', json_u64 i), (''result'', r)]"
| "to_value (Error i o') =
     JObj [(''jsonrpc'', JStr ''2.0''), (''id'', id_value i), (''error'', error_object_to_value o')]"
| "to_value (Notification m ps) = JObj [(''jsonrpc'', JStr ''2.0''), (''method'', JStr m), (''params'', ps)]"

definition to_line :: "value_lib \<Rightarrow> message \<Rightarrow> string" where
  "to_line vl m = vl_text vl (to_value m) @ [CHR 0x0A]"

definition read_id :: "value_lib \<Rightarrow> (string \<times> json) list \<Rightarrow> codec_failure + nat option" where
  "read_id vl kvs =
     (case map_of kvs ''id'' of
        None \<Rightarrow> Inr None
      | Some v \<Rightarrow>
          if v = JNull then Inr None
          else (case as_u64 v of
            Some n \<Rightarrow> Inr (Some n)
          | None \<Rightarrow> Inl (Shape (''id '' @ vl_text vl v @ '' isn'' @ [CHR 0x27] @ ''t a non-negative integer''))))"

definition from_value :: "value_lib \<Rightarrow> json \<Rightarrow> codec_failure + message" where
  "from_value vl v =
     (case v of
        JObj kvs \<Rightarrow>
          if map_of kvs ''jsonrpc'' \<noteq> Some (JStr ''2.0'') then Inl (Shape (''`jsonrpc` isn'' @ [CHR 0x27] @ ''t '' @ [CHR 0x22] @ ''2.0'' @ [CHR 0x22]))
          else
            let m = Option.bind (map_of kvs ''method'') as_str;
                ps = (case map_of kvs ''params'' of Some p \<Rightarrow> p | None \<Rightarrow> JNull)
            in bind_res (read_id vl kvs) (\<lambda>i.
                 (case m of
                    Some m \<Rightarrow> (case i of Some i \<Rightarrow> Inr (Request i m ps) | None \<Rightarrow> Inr (Notification m ps))
                  | None \<Rightarrow>
                      (case map_of kvs ''error'' of
                         Some e \<Rightarrow>
                           (case error_object_from_value e of
                              Some o' \<Rightarrow> Inr (Error i o')
                            | None \<Rightarrow> Inl BadJson)
                       | None \<Rightarrow>
                           (case (map_of kvs ''result'', i) of
                              (Some r, Some i) \<Rightarrow> Inr (Response i r)
                            | _ \<Rightarrow> Inl (Shape ''neither a request, a notification, a result nor an error'')))))
      | _ \<Rightarrow> Inl (Shape ''not an object''))"

definition from_line :: "value_lib \<Rightarrow> string \<Rightarrow> codec_failure + message" where
  "from_line vl line =
     (case vl_parse vl (trim_back WHITESPACE line) of
        Some v \<Rightarrow> from_value vl v
      | None \<Rightarrow> Inl BadJson)"


section \<open>What is written is read back\<close>

text \<open>The values a message holds in the program: ids of 64 bits, codes of 64 bits, and no null datum.\<close>

definition error_object_ok :: "error_object \<Rightarrow> bool" where
  "error_object_ok o' \<longleftrightarrow> i64_min \<le> eo_code o' \<and> eo_code o' \<le> i64_max \<and> eo_data o' \<noteq> Some JNull"

fun message_ok :: "message \<Rightarrow> bool" where
  "message_ok (Request i m ps) \<longleftrightarrow> i \<le> u64_max"
| "message_ok (Response i r) \<longleftrightarrow> i \<le> u64_max"
| "message_ok (Error i o') \<longleftrightarrow> (case i of Some n \<Rightarrow> n \<le> u64_max | None \<Rightarrow> True) \<and> error_object_ok o'"
| "message_ok (Notification m ps) \<longleftrightarrow> True"

lemma json_u64_not_null [simp]: "json_u64 n \<noteq> JNull"
  by (simp add: json_u64_def)

lemma error_object_round:
  "error_object_ok o' \<Longrightarrow> error_object_from_value (error_object_to_value o') = Some o'"
  by (cases o')
     (auto simp: error_object_ok_def error_object_from_value_def error_object_to_value_def as_i64_json read_data_def
       split: option.splits)

lemma message_round: "message_ok m \<Longrightarrow> from_value vl (to_value m) = Inr m"
  by (cases m)
     (auto simp: from_value_def read_id_def id_value_def bind_res_def error_object_round split: option.splits)

interpretation wire: roundtrip to_value "from_value vl" message_ok
  by unfold_locales (rule message_round)

text \<open>
  What the code relies on of serde for a value: it reads back the text it prints, which has no line
  break, is UTF-8 and, for an object, ends in its brace.
\<close>

definition prints_line :: "value_lib \<Rightarrow> json \<Rightarrow> bool" where
  "prints_line vl v \<longleftrightarrow>
     vl_parse vl (vl_text vl v) = Some v \<and> CHR 0x0A \<notin> set (vl_text vl v) \<and> utf8_valid (vl_text vl v)
     \<and> vl_text vl v \<noteq> [] \<and> last (vl_text vl v) = CHR ''}''"

lemma trim_end_brace:
  assumes "t \<noteq> []" "last t = CHR ''}''"
  shows "trim_back WHITESPACE t = t"
proof -
  obtain u where u: "rev t = CHR ''}'' # u" using assms by (cases t rule: rev_cases) auto
  have "\<not> prefix (rev w) (CHR ''}'' # u)" if "w \<in> set WHITESPACE" "w \<noteq> []" for w
    using that by (auto simp: whitespace_bytes)
  then have "trim_front (map rev WHITESPACE) (rev t) = rev t"
    by (intro trim_front_id) (auto simp: u)
  then show ?thesis by (simp add: trim_back_def)
qed

lemma line_round:
  assumes "message_ok m" "prints_line vl (to_value m)"
  shows "from_line vl (vl_text vl (to_value m)) = Inr m"
  using assms by (simp add: from_line_def prints_line_def trim_end_brace message_round)

section \<open>What survives of an error\<close>

definition known_codes :: "int set" where
  "known_codes =
     {PARSE_ERROR, INVALID_REQUEST, METHOD_NOT_FOUND, INVALID_PARAMS, INTERNAL_ERROR, NOT_CONFIGURED, AUTH,
      RATE_LIMITED, INVALID_INPUT, CANCELLED}"

fun error_ok :: "protocol_error \<Rightarrow> bool" where
  "error_ok (RateLimited m ms) \<longleftrightarrow> (case ms of Some n \<Rightarrow> n \<le> u64_max | None \<Rightarrow> True)"
| "error_ok (Other code m) \<longleftrightarrow> code \<notin> known_codes \<and> i64_min \<le> code \<and> code \<le> i64_max"
| "error_ok _ \<longleftrightarrow> True"

fun keeps_message :: "protocol_error \<Rightarrow> bool" where
  "keeps_message (Internal m) \<longleftrightarrow> True"
| "keeps_message (Auth m c) \<longleftrightarrow> True"
| "keeps_message (RateLimited m ms) \<longleftrightarrow> True"
| "keeps_message (InvalidInput f m) \<longleftrightarrow> True"
| "keeps_message Cancelled \<longleftrightarrow> True"
| "keeps_message _ \<longleftrightarrow> False"

lemma error_object_wire:
  "error_ok e \<Longrightarrow> error_object_ok (object_of_error e)"
  by (cases e) (auto simp: object_of_error_def error_object_ok_def code_defs i64_min_def i64_max_def)

text \<open>The same kind and data with another message.\<close>

fun with_message :: "protocol_error \<Rightarrow> string \<Rightarrow> protocol_error" where
  "with_message (ParseError _) t = ParseError t"
| "with_message (InvalidRequest _) t = InvalidRequest t"
| "with_message (MethodNotFound _) t = MethodNotFound t"
| "with_message (InvalidParams _) t = InvalidParams t"
| "with_message (Internal _) t = Internal t"
| "with_message (NotConfigured _) t = NotConfigured t"
| "with_message (Auth _ c) t = Auth t c"
| "with_message (RateLimited _ ms) t = RateLimited t ms"
| "with_message (InvalidInput f _) t = InvalidInput f t"
| "with_message Cancelled t = Cancelled"
| "with_message (Other code _) t = Other code t"

lemma codes_distinct:
  "distinct [PARSE_ERROR, INVALID_REQUEST, METHOD_NOT_FOUND, INVALID_PARAMS, INTERNAL_ERROR, NOT_CONFIGURED, AUTH,
     RATE_LIMITED, INVALID_INPUT, CANCELLED]"
  by (simp add: code_defs)

lemma error_round:
  assumes "error_ok e"
  shows "error_of_object (object_of_error e) = (if keeps_message e then e else with_message e (error_text e))"
proof (cases e)
  case (Auth m c)
  then show ?thesis
    using codes_distinct by (cases c) (auto simp: error_of_object_def object_of_error_def error_message_def)
next
  case (RateLimited m ms)
  then show ?thesis
    using codes_distinct assms by (cases ms) (auto simp: error_of_object_def object_of_error_def error_message_def)
next
  case (Other code m)
  then show ?thesis
    using assms by (auto simp: error_of_object_def object_of_error_def error_message_def known_codes_def Let_def)
qed (use codes_distinct in \<open>auto simp: error_of_object_def object_of_error_def error_message_def\<close>)

text \<open>
  An error that crosses the connection comes back as the same kind with the same data. The kinds
  the host acts on - a refused credential, a rate limit, an input field, a cancellation - and the
  internal ones come back as they were; the others carry the text of the error as it was shown, in
  place of the message it was made of.
\<close>

theorem errors_keep_kind_and_data:
  assumes "error_ok e" "i \<le> u64_max"
  shows "from_value vl (to_value (Error (Some i) (object_of_error e))) = Inr (Error (Some i) (object_of_error e))
       \<and> error_of_object (object_of_error e) = (if keeps_message e then e else with_message e (error_text e))"
  using message_round [of "Error (Some i) (object_of_error e)"] error_object_wire [OF assms(1)] error_round [OF assms(1)]
    assms(2)
  by simp

theorem errors_keep_kind_and_data_witness:
  "error_of_object (object_of_error (RateLimited ''slow down'' (Some 250))) = RateLimited ''slow down'' (Some 250)
   \<and> error_of_object (object_of_error (NotConfigured ''no token'')) = NotConfigured ''not configured: no token''"
  using errors_keep_kind_and_data [of "RateLimited ''slow down'' (Some 250)" 1]
    errors_keep_kind_and_data [of "NotConfigured ''no token''" 1]
  by (simp add: u64_max_def)

end
