(* ===== verification/Provider_Line.thy ===== *)
theory Provider_Line
  imports Provider_Message
begin

text \<open>
  \<open>read_line\<close> of \<open>oxplow-provider-protocol/src/peer.rs\<close> over whatever the pipe hands the buffered reader,
  and the lines a connection reads until it ends. The lemmas: the lines do not depend on how the
  bytes are cut, none is longer than the limit, and the messages one side writes are the messages
  the other side reads.
\<close>

section \<open>Text out of bytes\<close>

text \<open>
  \<open>String::from_utf8_lossy\<close>: one U+FFFD for each maximal start of a character that is not finished.
  \<open>bad_length\<close> is how many bytes of a text that starts with no character go.
\<close>

definition REPLACEMENT :: string where "REPLACEMENT = [CHR 0xEF, CHR 0xBF, CHR 0xBD]"

definition second_ok :: "char \<Rightarrow> char \<Rightarrow> bool" where
  "second_ok a b \<longleftrightarrow>
     utf8_cont b \<and> (byte a = 224 \<longrightarrow> 160 \<le> byte b) \<and> (byte a = 237 \<longrightarrow> byte b \<le> 159)
     \<and> (byte a = 240 \<longrightarrow> 144 \<le> byte b) \<and> (byte a = 244 \<longrightarrow> byte b \<le> 143)"

definition char_length :: "char \<Rightarrow> nat" where
  "char_length a =
     (if is_ascii a then 1 else if byte_in 194 223 a then 2 else if byte_in 224 239 a then 3
      else if byte_in 240 244 a then 4 else 0)"

definition bad_length :: "string \<Rightarrow> nat" where
  "bad_length s =
     (case s of
        a # b # r \<Rightarrow>
          if char_length a \<le> 2 \<or> \<not> second_ok a b then 1
          else if char_length a = 4 \<and> (case r of c # _ \<Rightarrow> utf8_cont c | [] \<Rightarrow> False) then 3
          else 2
      | _ \<Rightarrow> 1)"

function utf8_lossy :: "string \<Rightarrow> string" where
  "utf8_lossy s =
     (case s of
        [] \<Rightarrow> []
      | a # _ \<Rightarrow>
          (let n = char_length a in
           if 0 < n \<and> n \<le> length s \<and> utf8_valid (take n s) then take n s @ utf8_lossy (drop n s)
           else REPLACEMENT @ utf8_lossy (drop (bad_length s) s)))"
  by pat_completeness auto
termination
  by (relation "measure length") (auto simp: bad_length_def split: list.splits)

declare utf8_lossy.simps [simp del]

section \<open>A line\<close>

datatype line =
  Text string
| TooLong
| End

text \<open>
  What the pipe still holds: the parts \<open>fill_buf\<close> will return, \<open>None\<close> for a read that fails. After the
  last part, and at an empty one, the stream has ended.
\<close>

fun read_line :: "nat \<Rightarrow> string \<Rightarrow> string option list \<Rightarrow> line \<times> string option list" where
  "read_line limit buf [] = (if buf = [] then End else Text (utf8_lossy buf), [])"
| "read_line limit buf (None # cs) = (End, cs)"
| "read_line limit buf (Some c # cs) =
     (if c = [] then (if buf = [] then End else Text (utf8_lossy buf), cs)
      else
        let content = takeWhile (\<lambda>b. b \<noteq> CHR 0x0A) c in
        if limit < length buf + length content then (TooLong, Some c # cs)
        else if length content < length c then
          (let rest = drop (Suc (length content)) c in
           (Text (utf8_lossy (buf @ content)), if rest = [] then cs else Some rest # cs))
        else read_line limit (buf @ c) cs)"

text \<open>The same of the bytes at once.\<close>

definition line_of :: "nat \<Rightarrow> string \<Rightarrow> line" where
  "line_of limit bs =
     (let content = takeWhile (\<lambda>b. b \<noteq> CHR 0x0A) bs in
      if bs = [] then End else if limit < length content then TooLong else Text (utf8_lossy content))"

definition after_line :: "string \<Rightarrow> string" where
  "after_line bs = drop (Suc (length (takeWhile (\<lambda>b. b \<noteq> CHR 0x0A) bs))) bs"

definition parts :: "string list \<Rightarrow> string option list" where
  "parts cs = map Some cs"

lemma no_break: "CHR 0x0A \<notin> set t \<Longrightarrow> takeWhile (\<lambda>b. b \<noteq> CHR 0x0A) (t @ x) = t @ takeWhile (\<lambda>b. b \<noteq> CHR 0x0A) x"
  by (rule takeWhile_append2) auto

lemma read_line_spec:
  assumes "[] \<notin> set cs" "CHR 0x0A \<notin> set buf" "length buf \<le> limit"
  shows "fst (read_line limit buf (parts cs)) = line_of limit (buf @ concat cs)
       \<and> (line_of limit (buf @ concat cs) \<noteq> TooLong \<longrightarrow>
           (\<exists>ds. snd (read_line limit buf (parts cs)) = parts ds \<and> [] \<notin> set ds
                 \<and> concat ds = after_line (buf @ concat cs)))"
  using assms
proof (induction cs arbitrary: buf)
  case Nil
  have own: "takeWhile (\<lambda>b. b \<noteq> CHR 0x0A) buf = buf"
    using no_break [OF Nil.prems(2), of "[]"] by simp
  with Nil.prems show ?case by (simp add: parts_def line_of_def after_line_def own Let_def)
next
  case (Cons c cs)
  let ?nl = "\<lambda>b. b \<noteq> CHR 0x0A"
  have c: "c \<noteq> []" "[] \<notin> set cs" using Cons.prems by auto
  show ?case
  proof (cases "CHR 0x0A \<in> set c")
    case False
    then have t: "takeWhile ?nl c = c" using no_break [OF False, of "[]"] by simp
    have whole: "takeWhile ?nl (buf @ c @ x) = buf @ c @ takeWhile ?nl x" for x
      using no_break [of "buf @ c" x] Cons.prems(2) False by simp
    show ?thesis
    proof (cases "limit < length buf + length c")
      case True
      then show ?thesis using c(1) by (simp add: parts_def t Let_def line_of_def whole)
    next
      case ok: False
      have "CHR 0x0A \<notin> set (buf @ c)" "length (buf @ c) \<le> limit"
        using Cons.prems(2) False ok by simp_all
      from Cons.IH [OF c(2) this] show ?thesis
        using c(1) ok by (simp add: parts_def t Let_def)
    qed
  next
    case True
    then obtain t r where cr: "c = t @ CHR 0x0A # r" and no: "CHR 0x0A \<notin> set t"
      by (metis split_list_first)
    have t: "takeWhile ?nl (t @ CHR 0x0A # x) = t" for x using no_break [OF no, of "CHR 0x0A # x"] by simp
    have whole: "takeWhile ?nl (buf @ t @ CHR 0x0A # x) = buf @ t" for x
      using no_break [of "buf @ t" "CHR 0x0A # x"] Cons.prems(2) no by simp
    show ?thesis
    proof (cases "r = []")
      case True
      with c(2) show ?thesis
        by (auto simp: parts_def cr t Let_def line_of_def after_line_def whole intro: exI [of _ cs])
    next
      case False
      with c(2) show ?thesis
        by (auto simp: parts_def cr t Let_def line_of_def after_line_def whole intro!: exI [of _ "r # cs"])
    qed
  qed
qed

section \<open>A connection's lines\<close>

definition weight :: "string option list \<Rightarrow> nat" where
  "weight cs = sum_list (map (\<lambda>c. case c of Some x \<Rightarrow> Suc (length x) | None \<Rightarrow> 1) cs)"

lemma read_line_shorter:
  "read_line limit buf cs = (Text t, ds) \<Longrightarrow> cs \<noteq> [] \<Longrightarrow> weight ds < weight cs"
proof (induction limit buf cs rule: read_line.induct)
  case (3 limit buf c cs)
  show ?case
  proof (cases "cs = []")
    case True
    with 3 show ?thesis by (auto simp: weight_def Let_def split: if_splits)
  next
    case False
    with 3 show ?thesis by (auto simp: weight_def Let_def split: if_splits)
  qed
qed simp_all

text \<open>The loop of the reading task, up to the end of the stream or a line too long.\<close>

function read_lines :: "nat \<Rightarrow> string option list \<Rightarrow> string list \<times> line" where
  "read_lines limit cs =
     (case read_line limit [] cs of
        (Text t, ds) \<Rightarrow> (t # fst (read_lines limit ds), snd (read_lines limit ds))
      | (l, ds) \<Rightarrow> ([], l))"
  by pat_completeness auto
termination
proof (relation "measure (weight \<circ> snd)", goal_cases)
  case (2 limit cs l ds t)
  then show ?case using read_line_shorter [of limit "[]" cs t ds] by (cases cs) auto
next
  case (3 limit cs l ds t)
  then show ?case using read_line_shorter [of limit "[]" cs t ds] by (cases cs) auto
qed simp

declare read_lines.simps [simp del]

text \<open>The same of the bytes at once.\<close>

function lines_of :: "nat \<Rightarrow> string \<Rightarrow> string list \<times> line" where
  "lines_of limit bs =
     (case line_of limit bs of
        Text t \<Rightarrow> (t # fst (lines_of limit (after_line bs)), snd (lines_of limit (after_line bs)))
      | l \<Rightarrow> ([], l))"
  by pat_completeness auto
termination
  by (relation "measure (length \<circ> snd)") (auto simp: line_of_def after_line_def Let_def split: if_splits)

declare lines_of.simps [simp del]

lemma read_lines_spec:
  "[] \<notin> set cs \<Longrightarrow> read_lines limit (parts cs) = lines_of limit (concat cs)"
proof (induction "length (concat cs)" arbitrary: cs rule: less_induct)
  case less
  obtain l ds where r: "read_line limit [] (parts cs) = (l, ds)" by (cases "read_line limit [] (parts cs)")
  have l: "l = line_of limit (concat cs)"
    and rest: "l \<noteq> TooLong \<Longrightarrow> \<exists>es. ds = parts es \<and> [] \<notin> set es \<and> concat es = after_line (concat cs)"
    using read_line_spec [OF less.prems, of "[]" limit] r by simp_all
  show ?case
  proof (cases l)
    case (Text t)
    with rest obtain es where es: "ds = parts es" "[] \<notin> set es" "concat es = after_line (concat cs)" by auto
    have empty: "line_of limit [] = End" by (simp add: line_of_def)
    have "concat cs \<noteq> []"
    proof
      assume "concat cs = []"
      with l empty have "l = End" by (simp only:)
      with Text show False by simp
    qed
    then have "length (concat es) < length (concat cs)" by (simp add: es(3) after_line_def)
    from less.hyps [OF this es(2)] es r l Text show ?thesis
      by (simp add: read_lines.simps [of limit "parts cs"] lines_of.simps [of limit "concat cs"] split: line.split)
  qed (use r l in \<open>simp_all add: read_lines.simps [of limit "parts cs"] lines_of.simps [of limit "concat cs"]\<close>)
qed

text \<open>Text that is UTF-8 is read as it is.\<close>

lemma char_step:
  assumes "utf8_valid (a # s)"
  shows "0 < char_length a \<and> char_length a \<le> length (a # s) \<and> utf8_valid (take (char_length a) (a # s))
       \<and> utf8_valid (drop (char_length a) (a # s))"
  using assms
  by (subst (asm) utf8_valid.simps)
     (auto simp: char_length_def utf8_valid.simps(2) split: list.splits if_splits)

lemma utf8_lossy_valid: "utf8_valid s \<Longrightarrow> utf8_lossy s = s"
proof (induction s rule: utf8_lossy.induct)
  case (1 s)
  show ?case
  proof (cases s)
    case (Cons a r)
    with 1 char_step [of a r] show ?thesis
      by (simp add: utf8_lossy.simps [of "a # r"] Let_def)
  qed (simp add: utf8_lossy.simps)
qed


section \<open>What one side writes the other reads\<close>

lemma line_of_written:
  assumes "CHR 0x0A \<notin> set t" "length t \<le> limit" "utf8_valid t"
  shows "line_of limit (t @ CHR 0x0A # r) = Text t" "after_line (t @ CHR 0x0A # r) = r"
  using assms no_break [OF assms(1), of "CHR 0x0A # r"]
  by (simp_all add: line_of_def after_line_def Let_def utf8_lossy_valid)

definition message_line_ok :: "value_lib \<Rightarrow> nat \<Rightarrow> message \<Rightarrow> bool" where
  "message_line_ok vl limit m \<longleftrightarrow>
     message_ok m \<and> prints_line vl (to_value m) \<and> length (vl_text vl (to_value m)) \<le> limit"

lemma lines_of_line:
  "CHR 0x0A \<notin> set t \<Longrightarrow> length t \<le> limit \<Longrightarrow> utf8_valid t \<Longrightarrow>
     lines_of limit (t @ CHR 0x0A # r) = (t # fst (lines_of limit r), snd (lines_of limit r))"
  by (simp add: lines_of.simps [of limit "t @ CHR 0x0A # r"] line_of_written)

definition written_texts :: "value_lib \<Rightarrow> message list \<Rightarrow> string list" where
  "written_texts vl ms = map (\<lambda>m. vl_text vl (to_value m)) ms"

lemma lines_of_written:
  "list_all (message_line_ok vl limit) ms \<Longrightarrow>
     lines_of limit (concat (map (to_line vl) ms) @ r) =
       (written_texts vl ms @ fst (lines_of limit r), snd (lines_of limit r))"
  by (induction ms)
     (simp_all add: written_texts_def to_line_def message_line_ok_def prints_line_def lines_of_line)

text \<open>
  C17. Whatever the parts the pipe hands over, the messages one side wrote are the messages the other
  side reads: each once, in order, the last one followed by the end of the stream. (The code relies on
  serde printing a value on one line it reads back, and each line is within the limit.)
\<close>

theorem messages_cross_the_pipe:
  assumes "[] \<notin> set chunks" "concat chunks = concat (map (to_line vl) ms)"
    and "list_all (message_line_ok vl limit) ms"
  shows "map (from_line vl) (fst (read_lines limit (parts chunks))) = map Inr ms
       \<and> snd (read_lines limit (parts chunks)) = End"
proof -
  have "read_lines limit (parts chunks) = (written_texts vl ms, End)"
    using read_lines_spec [OF assms(1)] lines_of_written [OF assms(3), of "[]"] assms(2)
    by (simp add: lines_of.simps [of limit "[]"] line_of_def)
  then show ?thesis
    using assms(3) by (auto simp: list_all_iff message_line_ok_def line_round written_texts_def)
qed

definition demo_line_lib :: value_lib where
  "demo_line_lib =
     \<lparr>vl_pieces = (\<lambda>v. [''{'', ''}'']),
      vl_parse = (\<lambda>s. if s = ''{}'' then Some (to_value (Response 1 JNull)) else None)\<rparr>"

theorem messages_cross_the_pipe_witness:
  "map (from_line demo_line_lib) (fst (read_lines 16 (parts [''{'', ''}'' @ [CHR 0x0A]]))) = [Inr (Response 1 JNull)]
   \<and> snd (read_lines 16 (parts [''{'', ''}'' @ [CHR 0x0A]])) = End"
proof -
  have "message_line_ok demo_line_lib 16 (Response 1 JNull)"
    using utf8_valid_ascii [of "''{}''"]
    by (simp add: message_line_ok_def u64_max_def prints_line_def vl_text_def demo_line_lib_def is_ascii_def byte_def)
  then show ?thesis
    using messages_cross_the_pipe [of "[''{'', ''}'' @ [CHR 0x0A]]" demo_line_lib "[Response 1 JNull]" 16]
    by (simp add: to_line_def vl_text_def demo_line_lib_def)
qed

text \<open>
  No line longer than the limit is taken in, however it arrives: the connection ends there, and
  the lines before it were read.
\<close>

theorem long_lines_end_the_connection:
  assumes "[] \<notin> set chunks" "concat chunks = concat (map (to_line vl) ms) @ long @ rest"
    and "list_all (message_line_ok vl limit) ms" "CHR 0x0A \<notin> set long" "limit < length long"
  shows "read_lines limit (parts chunks) = (written_texts vl ms, TooLong)"
proof -
  have "line_of limit (long @ rest) = TooLong"
    using no_break [OF assms(4), of rest] assms(5) by (auto simp: line_of_def Let_def)
  with lines_of_written [OF assms(3), of "long @ rest"] read_lines_spec [OF assms(1)] assms(2)
  show ?thesis by (simp add: lines_of.simps [of limit "long @ rest"])
qed

theorem long_lines_end_the_connection_witness:
  "read_lines 4 (parts [''{}'' @ [CHR 0x0A] @ ''123'', ''45'', ''6'']) = ([''{}''], TooLong)"
proof -
  have "message_line_ok demo_line_lib 4 (Response 1 JNull)"
    using utf8_valid_ascii [of "''{}''"]
    by (simp add: message_line_ok_def u64_max_def prints_line_def vl_text_def demo_line_lib_def is_ascii_def byte_def)
  then show ?thesis
    using long_lines_end_the_connection [of "[''{}'' @ [CHR 0x0A] @ ''123'', ''45'', ''6'']" demo_line_lib
        "[Response 1 JNull]" "''123456''" "[]" 4]
    by (simp add: to_line_def written_texts_def vl_text_def demo_line_lib_def)
qed

end
