(* ===== verification/Provider_Peer.thy ===== *)
theory Provider_Peer
  imports Provider_Line Reply_Table
begin

text \<open>
  One side of a provider connection, \<open>oxplow-provider-protocol/src/peer.rs\<close>, as a machine: the callers
  of \<open>start\<close> and \<open>start_streaming\<close>, the reading task, and whoever takes from the channels, one step for
  each stretch of code between two points at which another of them can run (a lock taken or given
  back, an atomic read or written, an await). The lemmas: a listed call is answered once and only
  under its own id, none waits after the connection has ended, and what the other side sends about a
  request goes to that request's channel for as long as its reply is outstanding. Serde, its words
  for a line it cannot read, and the system's for a write that failed are parameters.
\<close>

section \<open>State\<close>

datatype incoming =
  IncomingRequest nat string json
| IncomingNotification string json

text \<open>A bounded channel: what waits in it, and whether its receiver is still there.\<close>

datatype channel = Channel (ch_queue: "incoming list") (ch_listening: bool)

text \<open>
  A caller: the id is taken; the waiter is listed and the lock still held; the lock is given back;
  the request is written and the \<open>Call\<close> returned. A write that failed takes the waiter and the stream
  back.
\<close>

datatype peer_phase =
  Begun message
| Locked message
| Listed message
| Written
| Failing string
| Unlisted string
| Refused protocol_error
| Answered json
| Failed protocol_error

datatype peer_reader =
  Reading
| Delivering "nat option" incoming
| Replying nat "protocol_error + json"
| Complaining string
| StreamsOpen string
| WaitersOpen string
| Drained
| Gone

record peer =
  pe_next :: nat
  pe_table :: "(nat, protocol_error + json) reply_table"
  pe_phases :: "peer_phase list"
  pe_channels :: "channel option list"
  pe_streams :: "(nat \<times> nat) list"
  pe_lock :: "nat option"
  pe_closed :: bool
  pe_cut_off :: nat
  pe_finished :: bool
  pe_reader :: peer_reader
  pe_incoming :: channel
  pe_wire :: string

record peer_lib =
  pl_values :: value_lib
  pl_json_error :: "string \<Rightarrow> string"

record peer_limits =
  max_line_bytes :: nat
  channel_capacity :: nat

definition default_limits :: peer_limits where
  "default_limits = \<lparr>max_line_bytes = 16 * 1024 * 1024, channel_capacity = 1024\<rparr>"

definition peer_spawn :: peer where
  "peer_spawn =
     \<lparr>pe_next = 1, pe_table = empty_table, pe_phases = [], pe_channels = [], pe_streams = [], pe_lock = None,
      pe_closed = False, pe_cut_off = 0, pe_finished = False, pe_reader = Reading,
      pe_incoming = Channel [] True, pe_wire = []\<rparr>"

section \<open>Callers\<close>

text \<open>\<open>AtomicU64::fetch_add\<close> wraps.\<close>

definition wrap_u64 :: "nat \<Rightarrow> nat" where
  "wrap_u64 n = n mod 2 ^ 64"

definition peer_id :: "peer \<Rightarrow> nat \<Rightarrow> nat" where
  "peer_id s n = fst (rt_slots (pe_table s) ! n)"

definition at_phase :: "peer \<Rightarrow> nat \<Rightarrow> peer_phase option" where
  "at_phase s n = (if n < length (pe_phases s) then Some (pe_phases s ! n) else None)"

definition to_phase :: "nat \<Rightarrow> peer_phase \<Rightarrow> peer \<Rightarrow> peer" where
  "to_phase n p s = s\<lparr>pe_phases := (pe_phases s)[n := p]\<rparr>"

definition CLOSED :: string where "CLOSED = ''the peer closed''"

definition start_call :: "string \<Rightarrow> json \<Rightarrow> bool \<Rightarrow> peer \<Rightarrow> peer" where
  "start_call m ps streaming s =
     s\<lparr>pe_next := wrap_u64 (pe_next s + 1),
       pe_table := open_channel (pe_next s) (pe_table s),
       pe_phases := pe_phases s @ [Begun (Request (pe_next s) m ps)],
       pe_channels := pe_channels s @ [if streaming then Some (Channel [] True) else None]\<rparr>"

definition check_call :: "nat \<Rightarrow> peer \<Rightarrow> peer option" where
  "check_call n s =
     (case at_phase s n of
        Some (Begun m) \<Rightarrow>
          if pe_lock s \<noteq> None then None
          else if pe_closed s then Some (to_phase n (Refused (Internal CLOSED)) s)
          else
            (let s' = s\<lparr>pe_table := add_waiter (peer_id s n) n (pe_table s)\<rparr> in
             Some (case pe_channels s ! n of
                     Some _ \<Rightarrow> to_phase n (Locked m) (s'\<lparr>pe_lock := Some n\<rparr>)
                   | None \<Rightarrow> to_phase n (Listed m) s'))
      | _ \<Rightarrow> None)"

definition put_stream :: "nat \<Rightarrow> nat \<Rightarrow> (nat \<times> nat) list \<Rightarrow> (nat \<times> nat) list" where
  "put_stream i n ss = (i, n) # filter (\<lambda>(k, _). k \<noteq> i) ss"

definition drop_stream :: "nat \<Rightarrow> (nat \<times> nat) list \<Rightarrow> (nat \<times> nat) list" where
  "drop_stream i ss = filter (\<lambda>(k, _). k \<noteq> i) ss"

definition add_stream :: "nat \<Rightarrow> peer \<Rightarrow> peer option" where
  "add_stream n s =
     (case at_phase s n of
        Some (Locked m) \<Rightarrow>
          Some (to_phase n (Listed m)
            (s\<lparr>pe_streams := put_stream (peer_id s n) n (pe_streams s), pe_lock := None\<rparr>))
      | _ \<Rightarrow> None)"

text \<open>\<open>send\<close>: the whole line, or some of it and the system's error.\<close>

definition write_line :: "peer_lib \<Rightarrow> message \<Rightarrow> (nat \<times> string) option \<Rightarrow> peer \<Rightarrow> peer" where
  "write_line lib m fault s =
     (let line = to_line (pl_values lib) m in
      s\<lparr>pe_wire := pe_wire s @ (case fault of None \<Rightarrow> line | Some (k, _) \<Rightarrow> take k line)\<rparr>)"

definition write_call :: "peer_lib \<Rightarrow> nat \<Rightarrow> (nat \<times> string) option \<Rightarrow> peer \<Rightarrow> peer option" where
  "write_call lib n fault s =
     (case at_phase s n of
        Some (Listed m) \<Rightarrow>
          Some (to_phase n (case fault of None \<Rightarrow> Written | Some (_, e) \<Rightarrow> Failing (''write: '' @ e))
            (write_line lib m fault s))
      | _ \<Rightarrow> None)"

definition unlist_call :: "nat \<Rightarrow> peer \<Rightarrow> peer option" where
  "unlist_call n s =
     (case at_phase s n of
        Some (Failing e) \<Rightarrow>
          if pe_lock s \<noteq> None then None
          else Some (to_phase n (Unlisted e) (s\<lparr>pe_table := finish_waiter (peer_id s n) SenderGone (pe_table s)\<rparr>))
      | _ \<Rightarrow> None)"

definition unstream_call :: "nat \<Rightarrow> peer \<Rightarrow> peer option" where
  "unstream_call n s =
     (case at_phase s n of
        Some (Unlisted e) \<Rightarrow>
          Some (to_phase n (Refused (Internal e)) (s\<lparr>pe_streams := drop_stream (peer_id s n) (pe_streams s)\<rparr>))
      | _ \<Rightarrow> None)"

text \<open>\<open>Call::reply\<close>.\<close>

definition await_reply :: "nat \<Rightarrow> peer \<Rightarrow> peer option" where
  "await_reply n s =
     (case at_phase s n of
        Some Written \<Rightarrow>
          (case snd (rt_slots (pe_table s) ! n) of
             Pending \<Rightarrow> None
           | Replied (Inr r) \<Rightarrow> Some (to_phase n (Answered r) s)
           | Replied (Inl e) \<Rightarrow> Some (to_phase n (Failed e) s)
           | SenderGone \<Rightarrow> Some (to_phase n (Failed (Internal CLOSED)) s))
      | _ \<Rightarrow> None)"

section \<open>Channels\<close>

definition set_channel :: "nat \<Rightarrow> channel \<Rightarrow> peer \<Rightarrow> peer" where
  "set_channel n c s = s\<lparr>pe_channels := (pe_channels s)[n := Some c]\<rparr>"

definition channel_of :: "nat \<Rightarrow> peer \<Rightarrow> channel option" where
  "channel_of n s = (if n < length (pe_channels s) then pe_channels s ! n else None)"

definition take_from :: "channel \<Rightarrow> channel option" where
  "take_from c =
     (case ch_queue c of x # q \<Rightarrow> if ch_listening c then Some (Channel q True) else None | [] \<Rightarrow> None)"

text \<open>\<open>send\<close>: it waits for room; with no receiver left the message is dropped.\<close>

definition send_to :: "nat \<Rightarrow> incoming \<Rightarrow> channel \<Rightarrow> channel option" where
  "send_to capacity x c =
     (if \<not> ch_listening c then Some c
      else if length (ch_queue c) < capacity then Some (Channel (ch_queue c @ [x]) True)
      else None)"

section \<open>The reading task\<close>

definition ABOUT_A_REQUEST :: "string list" where
  "ABOUT_A_REQUEST = [''$/progress'', ''$/record'', ''$/state'']"

text \<open>The request a notification is about.\<close>

definition about :: "string \<Rightarrow> json \<Rightarrow> nat option" where
  "about m ps = (if m \<in> set ABOUT_A_REQUEST then Option.bind (json_get ''id'' ps) as_u64 else None)"

definition failure_text :: "peer_lib \<Rightarrow> string \<Rightarrow> codec_failure \<Rightarrow> string" where
  "failure_text lib t f =
     (case f of
        BadJson \<Rightarrow> ''not JSON: '' @ pl_json_error lib t
      | Shape e \<Rightarrow> ''not a JSON-RPC 2.0 message: '' @ e)"

definition read_text :: "peer_lib \<Rightarrow> string \<Rightarrow> peer \<Rightarrow> peer" where
  "read_text lib t s =
     (if trim t = [] then s
      else case from_line (pl_values lib) t of
        Inr (Response i r) \<Rightarrow>
          s\<lparr>pe_streams := drop_stream i (pe_streams s), pe_reader := Replying i (Inr r)\<rparr>
      | Inr (Error (Some i) o') \<Rightarrow>
          s\<lparr>pe_streams := drop_stream i (pe_streams s), pe_reader := Replying i (Inl (error_of_object o'))\<rparr>
      | Inr (Error None _) \<Rightarrow> s
      | Inr (Request i m ps) \<Rightarrow> s\<lparr>pe_reader := Delivering None (IncomingRequest i m ps)\<rparr>
      | Inr (Notification m ps) \<Rightarrow>
          s\<lparr>pe_reader := Delivering (Option.bind (about m ps) (map_of (pe_streams s))) (IncomingNotification m ps)\<rparr>
      | Inl f \<Rightarrow> s\<lparr>pe_reader := Complaining (failure_text lib t f)\<rparr>)"

definition too_long :: "peer_limits \<Rightarrow> string" where
  "too_long lim =
     ''the peer sent a message over '' @ show_nat (max_line_bytes lim) @ '' bytes; the connection is closed''"

definition read_next :: "peer_limits \<Rightarrow> peer_lib \<Rightarrow> line \<Rightarrow> peer \<Rightarrow> peer option" where
  "read_next lim lib l s =
     (case pe_reader s of
        Reading \<Rightarrow>
          Some (case l of
             Text t \<Rightarrow> read_text lib t s
           | End \<Rightarrow> s\<lparr>pe_closed := True, pe_reader := StreamsOpen CLOSED\<rparr>
           | TooLong \<Rightarrow> s\<lparr>pe_closed := True, pe_reader := StreamsOpen (too_long lim)\<rparr>)
      | _ \<Rightarrow> None)"

definition deliver :: "peer_limits \<Rightarrow> peer \<Rightarrow> peer option" where
  "deliver lim s =
     (case pe_reader s of
        Delivering (Some n) x \<Rightarrow>
          Option.bind (channel_of n s) (\<lambda>c. map_option (\<lambda>c'. (set_channel n c' s)\<lparr>pe_reader := Reading\<rparr>)
            (send_to (channel_capacity lim) x c))
      | Delivering None x \<Rightarrow>
          map_option (\<lambda>c'. s\<lparr>pe_incoming := c', pe_reader := Reading\<rparr>)
            (send_to (channel_capacity lim) x (pe_incoming s))
      | _ \<Rightarrow> None)"

definition give_reply :: "peer \<Rightarrow> peer option" where
  "give_reply s =
     (case pe_reader s of
        Replying i r \<Rightarrow>
          if pe_lock s \<noteq> None then None
          else Some (s\<lparr>pe_table := finish_waiter i (Replied r) (pe_table s), pe_reader := Reading\<rparr>)
      | _ \<Rightarrow> None)"

definition complain :: "peer_lib \<Rightarrow> (nat \<times> string) option \<Rightarrow> peer \<Rightarrow> peer option" where
  "complain lib fault s =
     (case pe_reader s of
        Complaining e \<Rightarrow>
          Some ((write_line lib (Error None (object_of_error (ParseError e))) fault s)\<lparr>pe_reader := Reading\<rparr>)
      | _ \<Rightarrow> None)"

definition clear_streams :: "peer \<Rightarrow> peer option" where
  "clear_streams s =
     (case pe_reader s of
        StreamsOpen why \<Rightarrow> Some (s\<lparr>pe_streams := [], pe_reader := WaitersOpen why\<rparr>)
      | _ \<Rightarrow> None)"

definition drain_pending :: "peer \<Rightarrow> peer option" where
  "drain_pending s =
     (case pe_reader s of
        WaitersOpen why \<Rightarrow>
          if pe_lock s \<noteq> None then None
          else
            Some (s\<lparr>pe_table := drain_waiters (Inl (Internal why)) (pe_table s),
                    pe_cut_off := pe_cut_off s + length (rt_pending (pe_table s)), pe_reader := Drained\<rparr>)
      | _ \<Rightarrow> None)"

definition finish_end :: "peer \<Rightarrow> peer option" where
  "finish_end s =
     (case pe_reader s of Drained \<Rightarrow> Some (s\<lparr>pe_finished := True, pe_reader := Gone\<rparr>) | _ \<Rightarrow> None)"

text \<open>What \<open>notify\<close>, \<open>cancel\<close> and \<open>respond\<close> send.\<close>

definition cancel_message :: "nat \<Rightarrow> message" where
  "cancel_message i = Notification ''$/cancel'' (JObj [(''id'', json_u64 i)])"

definition respond_message :: "nat \<Rightarrow> protocol_error + json \<Rightarrow> message" where
  "respond_message i result =
     (case result of Inr r \<Rightarrow> Response i r | Inl e \<Rightarrow> Error (Some i) (object_of_error e))"

section \<open>Steps\<close>

datatype peer_step =
  Start string json bool
| Check nat
| AddStream nat
| Write nat "(nat \<times> string) option"
| Unlist nat
| Unstream nat
| Await nat
| TakeStream nat
| StopListening nat
| TakeIncoming
| StopIncoming
| ReadNext line
| Deliver
| GiveReply
| Complain "(nat \<times> string) option"
| ClearStreams
| DrainPending
| FinishEnd
| Notify string json "(nat \<times> string) option"
| Cancel nat "(nat \<times> string) option"
| Respond nat "protocol_error + json" "(nat \<times> string) option"

fun peer_try :: "peer_limits \<Rightarrow> peer_lib \<Rightarrow> peer \<Rightarrow> peer_step \<Rightarrow> peer option" where
  "peer_try lim lib s (Start m ps streaming) = Some (start_call m ps streaming s)"
| "peer_try lim lib s (Check n) = check_call n s"
| "peer_try lim lib s (AddStream n) = add_stream n s"
| "peer_try lim lib s (Write n fault) = write_call lib n fault s"
| "peer_try lim lib s (Unlist n) = unlist_call n s"
| "peer_try lim lib s (Unstream n) = unstream_call n s"
| "peer_try lim lib s (Await n) = await_reply n s"
| "peer_try lim lib s (TakeStream n) =
     Option.bind (channel_of n s) (\<lambda>c. map_option (\<lambda>c'. set_channel n c' s) (take_from c))"
| "peer_try lim lib s (StopListening n) =
     map_option (\<lambda>c. set_channel n (Channel [] False) s) (channel_of n s)"
| "peer_try lim lib s TakeIncoming = map_option (\<lambda>c'. s\<lparr>pe_incoming := c'\<rparr>) (take_from (pe_incoming s))"
| "peer_try lim lib s StopIncoming = Some (s\<lparr>pe_incoming := Channel [] False\<rparr>)"
| "peer_try lim lib s (ReadNext l) = read_next lim lib l s"
| "peer_try lim lib s Deliver = deliver lim s"
| "peer_try lim lib s GiveReply = give_reply s"
| "peer_try lim lib s (Complain fault) = complain lib fault s"
| "peer_try lim lib s ClearStreams = clear_streams s"
| "peer_try lim lib s DrainPending = drain_pending s"
| "peer_try lim lib s FinishEnd = finish_end s"
| "peer_try lim lib s (Notify m ps fault) = Some (write_line lib (Notification m ps) fault s)"
| "peer_try lim lib s (Cancel i fault) = Some (write_line lib (cancel_message i) fault s)"
| "peer_try lim lib s (Respond i result fault) = Some (write_line lib (respond_message i result) fault s)"

definition peer_step :: "peer_limits \<Rightarrow> peer_lib \<Rightarrow> peer \<Rightarrow> peer_step \<Rightarrow> unit + peer" where
  "peer_step lim lib s e = (case peer_try lim lib s e of None \<Rightarrow> Inl () | Some s' \<Rightarrow> Inr s')"


section \<open>The invariant\<close>

definition few_calls :: "peer \<Rightarrow> bool" where
  "few_calls s \<longleftrightarrow> length (pe_phases s) < 2 ^ 64 - 1"

definition is_begun :: "peer_phase \<Rightarrow> bool" where
  "is_begun p \<longleftrightarrow> (\<exists>m. p = Begun m)"

text \<open>Its waiter has been put in the table and not been taken back.\<close>

definition is_listed :: "peer_phase \<Rightarrow> bool" where
  "is_listed p \<longleftrightarrow> (case p of Locked _ \<Rightarrow> True | Listed _ \<Rightarrow> True | Written \<Rightarrow> True | Failing _ \<Rightarrow> True | _ \<Rightarrow> False)"

text \<open>Its stream has been put in the map and its caller is not giving up.\<close>

definition is_streamed :: "peer_phase \<Rightarrow> bool" where
  "is_streamed p \<longleftrightarrow> (case p of Listed _ \<Rightarrow> True | Written \<Rightarrow> True | _ \<Rightarrow> False)"

text \<open>The reader still passes on what it reads about a request.\<close>

definition passes_on :: "peer_reader \<Rightarrow> nat \<Rightarrow> bool" where
  "passes_on r i \<longleftrightarrow>
     (case r of Reading \<Rightarrow> True | Delivering _ _ \<Rightarrow> True | Complaining _ \<Rightarrow> True | Replying j _ \<Rightarrow> j \<noteq> i | _ \<Rightarrow> False)"

definition is_open :: "peer_reader \<Rightarrow> bool" where
  "is_open r \<longleftrightarrow>
     (case r of Reading \<Rightarrow> True | Delivering _ _ \<Rightarrow> True | Complaining _ \<Rightarrow> True | Replying _ _ \<Rightarrow> True | _ \<Rightarrow> False)"

definition item_about :: "nat \<Rightarrow> incoming \<Rightarrow> bool" where
  "item_about i x \<longleftrightarrow> (case x of IncomingNotification m ps \<Rightarrow> about m ps = Some i | _ \<Rightarrow> False)"

definition channel_ok :: "peer_limits \<Rightarrow> (nat \<Rightarrow> incoming \<Rightarrow> bool) \<Rightarrow> nat \<Rightarrow> channel option \<Rightarrow> bool" where
  "channel_ok lim fits i c \<longleftrightarrow>
     (case c of
        Some c \<Rightarrow> length (ch_queue c) \<le> channel_capacity lim \<and> list_all (fits i) (ch_queue c)
      | None \<Rightarrow> True)"

text \<open>One call: its id, its waiter, its stream.\<close>

definition waiter_ok :: "bool \<Rightarrow> (nat, protocol_error + json) reply_table \<Rightarrow> nat \<Rightarrow> peer_phase \<Rightarrow> bool" where
  "waiter_ok few t n p \<longleftrightarrow>
     fst (rt_slots t ! n) = wrap_u64 (n + 1)
     \<and> (is_begun p \<longrightarrow> snd (rt_slots t ! n) = Pending \<and> n \<notin> snd ` set (rt_pending t))
     \<and> (few \<longrightarrow> is_listed p \<longrightarrow> snd (rt_slots t ! n) = Pending \<longrightarrow> n \<in> snd ` set (rt_pending t))"

definition wants :: "peer \<Rightarrow> nat \<Rightarrow> bool" where
  "wants s n \<longleftrightarrow>
     few_calls s \<and> (\<exists>p. at_phase s n = Some p \<and> is_streamed p) \<and> channel_of n s \<noteq> None
     \<and> snd (rt_slots (pe_table s) ! n) = Pending \<and> passes_on (pe_reader s) (n + 1)"

definition table_part :: "peer \<Rightarrow> bool" where
  "table_part s \<longleftrightarrow>
     table_inv (pe_table s) \<and> length (rt_slots (pe_table s)) = length (pe_phases s)
     \<and> pe_next s = wrap_u64 (length (pe_phases s) + 1)
     \<and> (\<forall>n < length (pe_phases s). waiter_ok (few_calls s) (pe_table s) n (pe_phases s ! n))"

definition streams_wf :: "peer \<Rightarrow> bool" where
  "streams_wf s \<longleftrightarrow>
     length (pe_channels s) = length (pe_phases s) \<and> distinct (map fst (pe_streams s))
     \<and> (\<forall>(i, n) \<in> set (pe_streams s). n < length (pe_phases s) \<and> i = wrap_u64 (n + 1))"

text \<open>A request whose reply is outstanding has its channel in the map.\<close>

definition routed :: "peer \<Rightarrow> bool" where
  "routed s \<longleftrightarrow> (\<forall>n. wants s n \<longrightarrow> (n + 1, n) \<in> set (pe_streams s))"

text \<open>What a channel holds is about its request, and no more than its capacity.\<close>

definition queues_ok :: "peer_limits \<Rightarrow> peer \<Rightarrow> bool" where
  "queues_ok lim s \<longleftrightarrow>
     (\<forall>n < length (pe_channels s). channel_ok lim item_about (wrap_u64 (n + 1)) (pe_channels s ! n))
     \<and> (\<forall>n x. pe_reader s = Delivering (Some n) x \<longrightarrow> item_about (wrap_u64 (n + 1)) x)
     \<and> channel_ok lim (\<lambda>_ _. True) 0 (Some (pe_incoming s))"

definition end_part :: "peer \<Rightarrow> bool" where
  "end_part s \<longleftrightarrow>
     (pe_closed s \<longleftrightarrow> \<not> is_open (pe_reader s))
     \<and> (pe_finished s \<longleftrightarrow> pe_reader s = Gone)
     \<and> (pe_reader s = Drained \<or> pe_reader s = Gone \<longrightarrow> rt_pending (pe_table s) = [] \<and> pe_lock s = None)
     \<and> (\<forall>n. pe_lock s = Some n \<longleftrightarrow> (\<exists>m. at_phase s n = Some (Locked m)))"

definition peer_inv :: "peer_limits \<Rightarrow> peer \<Rightarrow> bool" where
  "peer_inv lim s \<longleftrightarrow> table_part s \<and> streams_wf s \<and> routed s \<and> queues_ok lim s \<and> end_part s"

lemma peer_spawn_inv: "peer_inv lim peer_spawn"
  by (simp add: peer_inv_def table_part_def streams_wf_def routed_def wants_def queues_ok_def end_part_def
      peer_spawn_def empty_table_def table_inv_def wrap_u64_def is_open_def channel_ok_def at_phase_def)

lemma wrap_u64_next: "wrap_u64 (wrap_u64 n + 1) = wrap_u64 (n + 1)"
  by (simp add: wrap_u64_def mod_Suc_eq)

lemma wrap_u64_small: "n < 2 ^ 64 \<Longrightarrow> wrap_u64 n = n"
  by (simp add: wrap_u64_def)

section \<open>The table\<close>

lemma table_listed: "table_inv t \<Longrightarrow> (i, n) \<in> set (rt_pending t) \<Longrightarrow> n < length (rt_slots t) \<and> rt_slots t ! n = (i, Pending)"
  by (auto simp: table_inv_def waits_at_def)

lemma waiter_ok_finish:
  assumes t: "table_inv t" and n: "n < length (rt_slots t)" and ok: "waiter_ok few t n p" and v: "v \<noteq> Pending"
  shows "waiter_ok few (finish_waiter i v t) n p"
proof (cases "(i, n) \<in> set (rt_pending t)")
  case True
  then have "\<not> is_begun p" using ok by (force simp: waiter_ok_def)
  with True ok v table_listed [OF t True] show ?thesis
    by (simp add: waiter_ok_def finish_waiter_slot [OF t n])
next
  case False
  then have "n \<in> snd ` set (rt_pending t) \<longleftrightarrow> n \<in> snd ` set (rt_pending (finish_waiter i v t))"
    by (force simp: finish_waiter_pending)
  with False ok show ?thesis by (simp add: waiter_ok_def finish_waiter_slot [OF t n])
qed

lemma waiter_ok_drain:
  assumes t: "table_inv t" and n: "n < length (rt_slots t)" and ok: "waiter_ok few t n p"
  shows "waiter_ok few (drain_waiters r t) n p"
  using ok by (auto simp: waiter_ok_def drain_waiters_slot [OF t n] drain_waiters_pending [OF t])

lemma waiter_ok_phase:
  "waiter_ok few t n p \<Longrightarrow> (is_begun q \<Longrightarrow> is_begun p) \<Longrightarrow> (is_listed q \<Longrightarrow> is_listed p) \<Longrightarrow> waiter_ok few t n q"
  by (auto simp: waiter_ok_def)

lemma table_part_same:
  "pe_table s' = pe_table s \<Longrightarrow> pe_next s' = pe_next s \<Longrightarrow> pe_phases s' = pe_phases s \<Longrightarrow>
     table_part s' = table_part s"
  by (simp add: table_part_def few_calls_def)

lemma table_part_phase:
  assumes "table_part s" "at_phase s n = Some p" "is_begun q \<Longrightarrow> is_begun p" "is_listed q \<Longrightarrow> is_listed p"
  shows "table_part (to_phase n q s)"
  using assms
  by (auto simp: table_part_def to_phase_def few_calls_def at_phase_def nth_list_update split: if_splits
      intro: waiter_ok_phase)

lemma table_part_finish:
  "table_part s \<Longrightarrow> v \<noteq> Pending \<Longrightarrow> table_part (s\<lparr>pe_table := finish_waiter i v (pe_table s)\<rparr>)"
  by (simp add: table_part_def few_calls_def finish_waiter_inv waiter_ok_finish)

lemma table_part_drain:
  "table_part s \<Longrightarrow> table_part (s\<lparr>pe_table := drain_waiters r (pe_table s)\<rparr>)"
  by (simp add: table_part_def few_calls_def drain_waiters_inv drain_waiters_length waiter_ok_drain)

lemma peer_id_wrap: "table_part s \<Longrightarrow> n < length (pe_phases s) \<Longrightarrow> peer_id s n = wrap_u64 (n + 1)"
  by (simp add: table_part_def waiter_ok_def peer_id_def)

lemma peer_id_small: "table_part s \<Longrightarrow> few_calls s \<Longrightarrow> n < length (pe_phases s) \<Longrightarrow> peer_id s n = n + 1"
  by (simp add: peer_id_wrap few_calls_def wrap_u64_small)

lemma table_part_list:
  assumes tp: "table_part s" and p: "at_phase s n = Some (Begun m)" and q: "\<not> is_begun q" "is_listed q"
  shows "table_part (to_phase n q (s\<lparr>pe_table := add_waiter (peer_id s n) n (pe_table s)\<rparr>))"
proof -
  let ?t = "pe_table s" and ?i = "peer_id s n" and ?few = "few_calls s"
  have n: "n < length (pe_phases s)" and ph: "pe_phases s ! n = Begun m"
    using p by (auto simp: at_phase_def split: if_splits)
  have t: "table_inv ?t" and len: "length (rt_slots ?t) = length (pe_phases s)"
    and ok: "\<And>k. k < length (pe_phases s) \<Longrightarrow> waiter_ok ?few ?t k (pe_phases s ! k)"
    using tp by (simp_all add: table_part_def)
  have free: "n \<notin> snd ` set (rt_pending ?t)" and pend: "snd (rt_slots ?t ! n) = Pending"
    using ok [OF n] ph by (auto simp: waiter_ok_def is_begun_def)
  have at: "waits_at ?t (?i, n)"
    using n len pend by (simp add: waits_at_def peer_id_def prod_eq_iff)
  have "waiter_ok ?few (add_waiter ?i n ?t) k ((pe_phases s)[n := q] ! k)" if k: "k < length (pe_phases s)" for k
  proof (cases "k = n")
    case True
    have "(?i, n) \<notin> set (rt_pending ?t)" using free by force
    with True ok [OF n] n q show ?thesis
      using finish_waiter_slot [OF t, of n ?i SenderGone] len
      by (simp add: waiter_ok_def add_waiter_pending)
  next
    case False
    have "waiter_ok ?few (finish_waiter ?i SenderGone ?t) k (pe_phases s ! k)"
      by (rule waiter_ok_finish [OF t _ ok [OF k]]) (use k len in simp_all)
    then show ?thesis using False
      by (simp add: waiter_ok_def add_waiter_pending finish_waiter_pending)
  qed
  with tp show ?thesis using add_waiter_inv [OF t at free]
    by (simp add: to_phase_def table_part_def few_calls_def)
qed

lemma table_part_start:
  assumes tp: "table_part s"
  shows "table_part (start_call m ps streaming s)"
proof -
  have t: "table_inv (pe_table s)" and len: "length (rt_slots (pe_table s)) = length (pe_phases s)"
    and next_id: "pe_next s = wrap_u64 (length (pe_phases s) + 1)"
    using tp by (simp_all add: table_part_def)
  have "snd p < length (pe_phases s)" if "p \<in> set (rt_pending (pe_table s))" for p
    using table_listed [OF t, of "fst p" "snd p"] that len by simp
  then have new: "length (pe_phases s) \<notin> snd ` set (rt_pending (pe_table s))" by force
  have "waiter_ok few (open_channel (pe_next s) (pe_table s)) n ((pe_phases s @ [Begun (Request (pe_next s) m ps)]) ! n)"
    if "n < Suc (length (pe_phases s))" "few \<longrightarrow> few_calls s" for n few
  proof (cases "n = length (pe_phases s)")
    case True
    with new len next_id show ?thesis
      by (simp add: waiter_ok_def open_channel_def is_listed_def nth_append)
  next
    case False
    with that tp len show ?thesis
      by (auto simp: table_part_def waiter_ok_def open_channel_def nth_append)
  qed
  then show ?thesis
    using len next_id open_channel_inv [OF t, of "pe_next s"] wrap_u64_next [of "length (pe_phases s) + 1"]
    by (simp add: table_part_def start_call_def few_calls_def open_channel_def [of _ "pe_table s"])
qed

lemmas peer_ops =
  check_call_def add_stream_def write_call_def unlist_call_def unstream_call_def await_reply_def read_next_def
  read_text_def deliver_def give_reply_def complain_def clear_streams_def drain_pending_def finish_end_def
  write_line_def set_channel_def

text \<open>Updates that leave the table, the ids and the phases alone.\<close>

lemma table_part_frame [simp]:
  "table_part (s\<lparr>pe_channels := x1\<rparr>) = table_part s"
  "table_part (s\<lparr>pe_streams := x2\<rparr>) = table_part s"
  "table_part (s\<lparr>pe_lock := x3\<rparr>) = table_part s"
  "table_part (s\<lparr>pe_closed := x4\<rparr>) = table_part s"
  "table_part (s\<lparr>pe_cut_off := x5\<rparr>) = table_part s"
  "table_part (s\<lparr>pe_finished := x6\<rparr>) = table_part s"
  "table_part (s\<lparr>pe_reader := x7\<rparr>) = table_part s"
  "table_part (s\<lparr>pe_incoming := x8\<rparr>) = table_part s"
  "table_part (s\<lparr>pe_wire := x9\<rparr>) = table_part s"
  by (rule table_part_same; simp)+

lemma to_phase_frame [simp]:
  "to_phase n p (s\<lparr>pe_streams := x2\<rparr>) = (to_phase n p s)\<lparr>pe_streams := x2\<rparr>"
  "to_phase n p (s\<lparr>pe_lock := x3\<rparr>) = (to_phase n p s)\<lparr>pe_lock := x3\<rparr>"
  "to_phase n p (s\<lparr>pe_wire := x9\<rparr>) = (to_phase n p s)\<lparr>pe_wire := x9\<rparr>"
  by (simp_all add: to_phase_def)

lemma at_phase_table [simp]: "at_phase (s\<lparr>pe_table := t\<rparr>) n = at_phase s n"
  by (simp add: at_phase_def)

lemma check_cases:
  assumes "check_call n s = Some s'"
  obtains m where "at_phase s n = Some (Begun m)" "pe_closed s" "s' = to_phase n (Refused (Internal CLOSED)) s"
  | m c where "at_phase s n = Some (Begun m)" "pe_lock s = None" "\<not> pe_closed s" "pe_channels s ! n = Some c"
      "s' = (to_phase n (Locked m) (s\<lparr>pe_table := add_waiter (peer_id s n) n (pe_table s)\<rparr>))\<lparr>pe_lock := Some n\<rparr>"
  | m where "at_phase s n = Some (Begun m)" "pe_lock s = None" "\<not> pe_closed s" "pe_channels s ! n = None"
      "s' = to_phase n (Listed m) (s\<lparr>pe_table := add_waiter (peer_id s n) n (pe_table s)\<rparr>)"
  using assms by (auto simp: check_call_def Let_def split: option.splits peer_phase.splits if_splits)

lemma table_part_check:
  assumes "table_part s" "check_call n s = Some s'"
  shows "table_part s'"
  using assms(2)
proof (cases rule: check_cases)
  case (1 m)
  then show ?thesis using table_part_phase [OF assms(1) 1(1), of "Refused (Internal CLOSED)"] by (simp add: is_begun_def is_listed_def)
next
  case (2 m c)
  then show ?thesis using table_part_list [OF assms(1) 2(1), of "Locked m"] by (simp add: is_begun_def is_listed_def)
next
  case (3 m)
  then show ?thesis using table_part_list [OF assms(1) 3(1), of "Listed m"] by (simp add: is_begun_def is_listed_def)
qed

lemma table_part_callers:
  assumes "table_part s"
  shows "add_stream n s = Some s' \<Longrightarrow> table_part s'" "write_call lib n fault s = Some s' \<Longrightarrow> table_part s'"
    "unlist_call n s = Some s' \<Longrightarrow> table_part s'" "unstream_call n s = Some s' \<Longrightarrow> table_part s'"
    "await_reply n s = Some s' \<Longrightarrow> table_part s'"
  using assms
  by (auto simp: add_stream_def write_call_def write_line_def unlist_call_def unstream_call_def await_reply_def Let_def
      is_begun_def is_listed_def split: option.splits peer_phase.splits if_splits slot.splits sum.splits
      intro!: table_part_phase table_part_finish)

lemma table_part_reader:
  assumes "table_part s"
  shows "table_part (read_text lib t s)" "read_next lim lib l s = Some s' \<Longrightarrow> table_part s'"
    "deliver lim s = Some s' \<Longrightarrow> table_part s'" "give_reply s = Some s' \<Longrightarrow> table_part s'"
    "complain lib fault s = Some s' \<Longrightarrow> table_part s'" "clear_streams s = Some s' \<Longrightarrow> table_part s'"
    "drain_pending s = Some s' \<Longrightarrow> table_part s'" "finish_end s = Some s' \<Longrightarrow> table_part s'"
proof -
  show r: "table_part (read_text lib t s)" for t
    using assms by (auto simp: read_text_def split: sum.splits message.splits option.splits)
  then show "read_next lim lib l s = Some s' \<Longrightarrow> table_part s'"
    using assms by (auto simp: read_next_def split: peer_reader.splits line.splits)
qed (use assms in \<open>auto simp: deliver_def give_reply_def complain_def clear_streams_def drain_pending_def finish_end_def
      set_channel_def write_line_def Let_def bind_eq_Some_conv split: peer_reader.splits option.splits if_splits
      intro!: table_part_finish table_part_drain\<close>)

lemma table_part_step:
  assumes "table_part s" "peer_try lim lib s e = Some s'"
  shows "table_part s'"
  using assms(2)
  by (cases e)
     (simp_all only: peer_try.simps option.inject map_option_eq_Some bind_eq_Some_conv,
      auto simp: set_channel_def write_line_def Let_def assms(1) table_part_start
        dest: table_part_check [OF assms(1)] table_part_callers [OF assms(1)] table_part_reader(2-) [OF assms(1)])

section \<open>The end of the connection\<close>

definition lock_ok :: "peer \<Rightarrow> bool" where
  "lock_ok s \<longleftrightarrow> (\<forall>n. pe_lock s = Some n \<longleftrightarrow> (\<exists>m. at_phase s n = Some (Locked m)))"

definition end_ok :: "peer \<Rightarrow> bool" where
  "end_ok s \<longleftrightarrow>
     (pe_closed s \<longleftrightarrow> \<not> is_open (pe_reader s)) \<and> (pe_finished s \<longleftrightarrow> pe_reader s = Gone)
     \<and> (pe_reader s = Drained \<or> pe_reader s = Gone \<longrightarrow> rt_pending (pe_table s) = [] \<and> pe_lock s = None)"

lemma end_part_iff: "end_part s \<longleftrightarrow> end_ok s \<and> lock_ok s"
  by (auto simp: end_part_def end_ok_def lock_ok_def)

lemma at_phase_to_phase:
  "at_phase (to_phase n q s) k = (if k = n then map_option (\<lambda>_. q) (at_phase s n) else at_phase s k)"
  by (simp add: at_phase_def to_phase_def)

lemma to_phase_fields [simp]:
  "pe_next (to_phase n q s) = pe_next s" "pe_table (to_phase n q s) = pe_table s"
  "pe_channels (to_phase n q s) = pe_channels s" "pe_streams (to_phase n q s) = pe_streams s"
  "pe_lock (to_phase n q s) = pe_lock s" "pe_closed (to_phase n q s) = pe_closed s"
  "pe_cut_off (to_phase n q s) = pe_cut_off s" "pe_finished (to_phase n q s) = pe_finished s"
  "pe_reader (to_phase n q s) = pe_reader s" "pe_incoming (to_phase n q s) = pe_incoming s"
  "pe_wire (to_phase n q s) = pe_wire s" "length (pe_phases (to_phase n q s)) = length (pe_phases s)"
  by (simp_all add: to_phase_def)

lemma lock_same: "pe_lock s' = pe_lock s \<Longrightarrow> pe_phases s' = pe_phases s \<Longrightarrow> lock_ok s' = lock_ok s"
  by (simp add: lock_ok_def at_phase_def)

lemma at_phase_lock [simp]: "at_phase (s\<lparr>pe_lock := l\<rparr>) n = at_phase s n"
  by (simp add: at_phase_def)

text \<open>A call that is not locked moves to a phase that is not.\<close>

lemma lock_phase:
  assumes "lock_ok s" "at_phase s n = Some p" "\<And>m. p \<noteq> Locked m" "\<And>m. q \<noteq> Locked m"
  shows "lock_ok (to_phase n q s)"
  using assms by (auto simp: lock_ok_def at_phase_to_phase)

lemma lock_frame [simp]:
  "lock_ok (s\<lparr>pe_channels := x1\<rparr>) = lock_ok s"
  "lock_ok (s\<lparr>pe_streams := x2\<rparr>) = lock_ok s"
  "lock_ok (s\<lparr>pe_table := x3\<rparr>) = lock_ok s"
  "lock_ok (s\<lparr>pe_closed := x4\<rparr>) = lock_ok s"
  "lock_ok (s\<lparr>pe_cut_off := x5\<rparr>) = lock_ok s"
  "lock_ok (s\<lparr>pe_finished := x6\<rparr>) = lock_ok s"
  "lock_ok (s\<lparr>pe_reader := x7\<rparr>) = lock_ok s"
  "lock_ok (s\<lparr>pe_incoming := x8\<rparr>) = lock_ok s"
  "lock_ok (s\<lparr>pe_wire := x9\<rparr>) = lock_ok s"
  by (rule lock_same; simp)+

lemma lock_check:
  assumes "lock_ok s" "check_call n s = Some s'"
  shows "lock_ok s'"
  using assms(2)
proof (cases rule: check_cases)
  case (1 m)
  then show ?thesis using lock_phase [OF assms(1) 1(1)] by simp
next
  case (2 m c)
  have "\<And>k m'. at_phase s k \<noteq> Some (Locked m')" using assms(1) 2(2) by (auto simp: lock_ok_def)
  with 2 show ?thesis by (auto simp: lock_ok_def at_phase_to_phase)
next
  case (3 m)
  then show ?thesis using lock_phase [of "s\<lparr>pe_table := add_waiter (peer_id s n) n (pe_table s)\<rparr>" n "Begun m" "Listed m"]
      assms(1) by simp
qed

lemma add_cases:
  assumes "add_stream n s = Some s'"
  obtains m where "at_phase s n = Some (Locked m)"
    "s' = (to_phase n (Listed m) s)\<lparr>pe_streams := put_stream (peer_id s n) n (pe_streams s), pe_lock := None\<rparr>"
  using assms by (auto simp: add_stream_def split: option.splits peer_phase.splits)

lemma lock_add:
  assumes "lock_ok s" "add_stream n s = Some s'"
  shows "lock_ok s'"
  using assms(2)
proof (cases rule: add_cases)
  case (1 m)
  have only: "k = n" if "at_phase s k = Some (Locked m')" for k m'
    using assms(1) 1(1) that unfolding lock_ok_def by (metis option.inject)
  have "at_phase s' k \<noteq> Some (Locked m')" for k m'
    using 1 only [of k m'] at_phase_to_phase [of n "Listed m" s k] by (auto simp: at_phase_def split: if_splits)
  with 1(2) show ?thesis by (simp add: lock_ok_def)
qed

lemma lock_callers:
  assumes "lock_ok s"
  shows "write_call lib n fault s = Some s' \<Longrightarrow> lock_ok s'"
    "unlist_call n s = Some s' \<Longrightarrow> lock_ok s'" "unstream_call n s = Some s' \<Longrightarrow> lock_ok s'"
    "await_reply n s = Some s' \<Longrightarrow> lock_ok s'"
  using assms
  by (auto simp: write_call_def write_line_def unlist_call_def unstream_call_def await_reply_def Let_def
      split: option.splits peer_phase.splits if_splits slot.splits sum.splits intro!: lock_phase)

lemma lock_reader:
  assumes "lock_ok s"
  shows "lock_ok (read_text lib t s)" "read_next lim lib l s = Some s' \<Longrightarrow> lock_ok s'"
    "deliver lim s = Some s' \<Longrightarrow> lock_ok s'" "give_reply s = Some s' \<Longrightarrow> lock_ok s'"
    "complain lib fault s = Some s' \<Longrightarrow> lock_ok s'" "clear_streams s = Some s' \<Longrightarrow> lock_ok s'"
    "drain_pending s = Some s' \<Longrightarrow> lock_ok s'" "finish_end s = Some s' \<Longrightarrow> lock_ok s'"
proof -
  show r: "lock_ok (read_text lib t s)" for t
    using assms by (auto simp: read_text_def split: sum.splits message.splits option.splits)
  then show "read_next lim lib l s = Some s' \<Longrightarrow> lock_ok s'"
    using assms by (auto simp: read_next_def split: peer_reader.splits line.splits)
qed (use assms in \<open>auto simp: deliver_def give_reply_def complain_def clear_streams_def drain_pending_def finish_end_def
      set_channel_def write_line_def Let_def bind_eq_Some_conv split: peer_reader.splits option.splits if_splits\<close>)

lemma lock_start: "lock_ok s \<Longrightarrow> lock_ok (start_call m ps streaming s)"
  by (auto simp: lock_ok_def start_call_def at_phase_def nth_append)

lemma lock_step:
  assumes "lock_ok s" "peer_try lim lib s e = Some s'"
  shows "lock_ok s'"
  using assms(2)
  by (cases e)
     (simp_all only: peer_try.simps option.inject map_option_eq_Some bind_eq_Some_conv,
      auto simp: set_channel_def write_line_def Let_def assms(1) lock_start
        dest: lock_check [OF assms(1)] lock_add [OF assms(1)] lock_callers [OF assms(1)] lock_reader(2-) [OF assms(1)])

lemma end_ok_frame [simp]:
  "end_ok (s\<lparr>pe_channels := x1\<rparr>) = end_ok s"
  "end_ok (s\<lparr>pe_streams := x2\<rparr>) = end_ok s"
  "end_ok (s\<lparr>pe_incoming := x8\<rparr>) = end_ok s"
  "end_ok (s\<lparr>pe_wire := x9\<rparr>) = end_ok s"
  "end_ok (to_phase n p s) = end_ok s"
  by (simp_all add: end_ok_def)

lemma end_ok_check: "end_ok s \<Longrightarrow> check_call n s = Some s' \<Longrightarrow> end_ok s'"
  by (erule check_cases) (auto simp: end_ok_def is_open_def split: peer_reader.splits)

lemma end_ok_add: "end_ok s \<Longrightarrow> add_stream n s = Some s' \<Longrightarrow> end_ok s'"
  by (erule add_cases) (auto simp: end_ok_def)

lemma finish_waiter_Nil [simp]: "rt_pending t = [] \<Longrightarrow> rt_pending (finish_waiter i v t) = []"
  by (simp add: finish_waiter_def)

lemma end_ok_callers:
  assumes "end_ok s"
  shows "write_call lib n fault s = Some s' \<Longrightarrow> end_ok s'"
    "unlist_call n s = Some s' \<Longrightarrow> end_ok s'" "unstream_call n s = Some s' \<Longrightarrow> end_ok s'"
    "await_reply n s = Some s' \<Longrightarrow> end_ok s'"
  using assms
  by (auto simp: write_call_def write_line_def unlist_call_def unstream_call_def await_reply_def Let_def
      end_ok_def [of "t\<lparr>pe_table := x\<rparr>" for t x] end_ok_def [of s]
      split: option.splits peer_phase.splits if_splits slot.splits sum.splits)

lemma end_ok_reader:
  assumes "end_ok s" "table_inv (pe_table s)"
  shows "pe_reader s = Reading \<Longrightarrow> end_ok (read_text lib t s)" "read_next lim lib l s = Some s' \<Longrightarrow> end_ok s'"
    "deliver lim s = Some s' \<Longrightarrow> end_ok s'" "give_reply s = Some s' \<Longrightarrow> end_ok s'"
    "complain lib fault s = Some s' \<Longrightarrow> end_ok s'" "clear_streams s = Some s' \<Longrightarrow> end_ok s'"
    "drain_pending s = Some s' \<Longrightarrow> end_ok s'" "finish_end s = Some s' \<Longrightarrow> end_ok s'"
proof -
  show r: "pe_reader s = Reading \<Longrightarrow> end_ok (read_text lib t s)" for t
    using assms by (auto simp: read_text_def end_ok_def is_open_def split: sum.splits message.splits option.splits)
  have "pe_reader s = Reading \<Longrightarrow> end_ok (s\<lparr>pe_closed := True, pe_reader := StreamsOpen w\<rparr>)" for w
    using assms(1) by (simp add: end_ok_def is_open_def)
  with r show "read_next lim lib l s = Some s' \<Longrightarrow> end_ok s'"
    by (auto simp: read_next_def split: peer_reader.splits line.splits)
qed (use assms in \<open>auto simp: deliver_def give_reply_def complain_def clear_streams_def drain_pending_def finish_end_def
      set_channel_def write_line_def Let_def bind_eq_Some_conv end_ok_def is_open_def drain_waiters_pending
      split: peer_reader.splits option.splits if_splits\<close>)

lemma end_ok_step:
  assumes "end_ok s" "table_part s" "peer_try lim lib s e = Some s'"
  shows "end_ok s'"
proof -
  have t: "table_inv (pe_table s)" using assms(2) by (simp add: table_part_def)
  have "end_ok (start_call m ps streaming s)" for m ps streaming
    using assms(1) by (simp add: end_ok_def start_call_def open_channel_def)
  with assms(3) show ?thesis
    by (cases e)
       (simp_all only: peer_try.simps option.inject map_option_eq_Some bind_eq_Some_conv,
        auto simp: set_channel_def write_line_def Let_def assms(1)
          dest: end_ok_check [OF assms(1)] end_ok_add [OF assms(1)] end_ok_callers [OF assms(1)]
            end_ok_reader(2-) [OF assms(1) t])
qed

section \<open>The streams\<close>

lemma routed_mono:
  assumes "routed s" "\<And>n. wants s' n \<Longrightarrow> wants s n \<and> ((n + 1, n) \<in> set (pe_streams s) \<longrightarrow> (n + 1, n) \<in> set (pe_streams s'))"
  shows "routed s'"
  using assms by (auto simp: routed_def)

lemma phase_frame [simp]:
  "at_phase (s\<lparr>pe_channels := c\<rparr>) n = at_phase s n"
  "at_phase (s\<lparr>pe_streams := x\<rparr>) n = at_phase s n"
  "at_phase (s\<lparr>pe_closed := b\<rparr>) n = at_phase s n"
  "at_phase (s\<lparr>pe_cut_off := k\<rparr>) n = at_phase s n"
  "at_phase (s\<lparr>pe_finished := f\<rparr>) n = at_phase s n"
  "at_phase (s\<lparr>pe_reader := r\<rparr>) n = at_phase s n"
  "at_phase (s\<lparr>pe_incoming := i\<rparr>) n = at_phase s n"
  "at_phase (s\<lparr>pe_wire := w\<rparr>) n = at_phase s n"
  by (simp_all add: at_phase_def)

lemma few_calls_frame [simp]:
  "few_calls (s\<lparr>pe_channels := c\<rparr>) = few_calls s"
  "few_calls (s\<lparr>pe_streams := x\<rparr>) = few_calls s"
  "few_calls (s\<lparr>pe_lock := l\<rparr>) = few_calls s"
  "few_calls (s\<lparr>pe_closed := b\<rparr>) = few_calls s"
  "few_calls (s\<lparr>pe_cut_off := k\<rparr>) = few_calls s"
  "few_calls (s\<lparr>pe_finished := f\<rparr>) = few_calls s"
  "few_calls (s\<lparr>pe_reader := r\<rparr>) = few_calls s"
  "few_calls (s\<lparr>pe_incoming := i\<rparr>) = few_calls s"
  "few_calls (s\<lparr>pe_wire := w\<rparr>) = few_calls s"
  "few_calls (s\<lparr>pe_table := t\<rparr>) = few_calls s"
  by (simp_all add: few_calls_def)

lemma channel_frame [simp]:
  "channel_of n (s\<lparr>pe_streams := x\<rparr>) = channel_of n s"
  "channel_of n (s\<lparr>pe_lock := l\<rparr>) = channel_of n s"
  "channel_of n (s\<lparr>pe_closed := b\<rparr>) = channel_of n s"
  "channel_of n (s\<lparr>pe_cut_off := k\<rparr>) = channel_of n s"
  "channel_of n (s\<lparr>pe_finished := f\<rparr>) = channel_of n s"
  "channel_of n (s\<lparr>pe_reader := r\<rparr>) = channel_of n s"
  "channel_of n (s\<lparr>pe_incoming := i\<rparr>) = channel_of n s"
  "channel_of n (s\<lparr>pe_wire := w\<rparr>) = channel_of n s"
  "channel_of n (s\<lparr>pe_table := t\<rparr>) = channel_of n s"
  by (simp_all add: channel_of_def)

lemma few_to_phase [simp]: "few_calls (to_phase k p s) = few_calls s"
  and channel_to_phase [simp]: "channel_of n (to_phase k p s) = channel_of n s"
  by (simp_all add: few_calls_def channel_of_def)

lemma wants_frame [simp]:
  "wants (s\<lparr>pe_streams := x2\<rparr>) n = wants s n"
  "wants (s\<lparr>pe_lock := x3\<rparr>) n = wants s n"
  "wants (s\<lparr>pe_closed := x4\<rparr>) n = wants s n"
  "wants (s\<lparr>pe_cut_off := x5\<rparr>) n = wants s n"
  "wants (s\<lparr>pe_finished := x6\<rparr>) n = wants s n"
  "wants (s\<lparr>pe_incoming := x8\<rparr>) n = wants s n"
  "wants (s\<lparr>pe_wire := x9\<rparr>) n = wants s n"
  by (simp_all add: wants_def)

lemma wants_phase:
  "wants (to_phase n q s) k \<longleftrightarrow>
     (if k = n then is_streamed q \<and> few_calls s \<and> at_phase s n \<noteq> None \<and> channel_of n s \<noteq> None
        \<and> snd (rt_slots (pe_table s) ! n) = Pending \<and> passes_on (pe_reader s) (n + 1)
      else wants s k)"
  by (auto simp: wants_def at_phase_to_phase)

lemma wants_reader:
  "wants (s\<lparr>pe_reader := r\<rparr>) n \<Longrightarrow> (passes_on r (n + 1) \<Longrightarrow> passes_on (pe_reader s) (n + 1)) \<Longrightarrow> wants s n"
  by (auto simp: wants_def)

lemma finish_pending_before:
  assumes "table_inv t" "n < length (rt_slots t)" "v \<noteq> Pending" "snd (rt_slots (finish_waiter i v t) ! n) = Pending"
  shows "snd (rt_slots t ! n) = Pending"
  using assms finish_waiter_slot [OF assms(1,2), of i v] by (simp split: if_splits)

lemma wants_finish:
  assumes "table_part s" "wants (s\<lparr>pe_table := finish_waiter i v (pe_table s)\<rparr>) n" "v \<noteq> Pending"
  shows "wants s n"
proof -
  have "n < length (rt_slots (pe_table s))"
    using assms(1,2) by (auto simp: wants_def table_part_def at_phase_def split: if_splits)
  then show ?thesis
    using assms finish_pending_before [of "pe_table s" n v i] by (auto simp: wants_def table_part_def)
qed

lemma wants_add:
  assumes "table_part s" "wants (s\<lparr>pe_table := add_waiter i m (pe_table s)\<rparr>) n"
  shows "wants s n"
proof (rule wants_finish [OF assms(1), of i SenderGone])
  show "wants (s\<lparr>pe_table := finish_waiter i SenderGone (pe_table s)\<rparr>) n"
    using assms(2) by (simp add: wants_def)
qed simp

lemma routed_check:
  assumes "table_part s" "routed s" "check_call n s = Some s'"
  shows "routed s'"
  using assms(3)
proof (cases rule: check_cases)
  case (1 m)
  then show ?thesis by (intro routed_mono [OF assms(2)]) (auto simp: wants_phase is_streamed_def split: if_splits)
next
  case (2 m c)
  then show ?thesis
    by (intro routed_mono [OF assms(2)])
       (auto simp: wants_phase is_streamed_def split: if_splits dest: wants_add [OF assms(1)])
next
  case (3 m)
  then show ?thesis
    by (intro routed_mono [OF assms(2)])
       (auto simp: wants_phase is_streamed_def channel_of_def split: if_splits dest: wants_add [OF assms(1)])
qed

lemma wants_range: "wants s n \<Longrightarrow> n < length (pe_phases s) \<and> few_calls s"
  by (auto simp: wants_def at_phase_def split: if_splits)

lemma routed_add:
  assumes "table_part s" "routed s" "add_stream n s = Some s'"
  shows "routed s'"
  using assms(3)
proof (cases rule: add_cases)
  case (1 m)
  have n: "n < length (pe_phases s)" using 1(1) by (auto simp: at_phase_def split: if_splits)
  show ?thesis
    unfolding routed_def
  proof (intro allI impI)
    fix k
    assume w: "wants s' k"
    then have few: "few_calls s" using 1(2) by (auto simp: wants_phase wants_def split: if_splits)
    then have id: "peer_id s n = n + 1" using peer_id_small [OF assms(1) _ n] by simp
    show "(k + 1, k) \<in> set (pe_streams s')"
    proof (cases "k = n")
      case False
      with w 1(2) have "wants s k" by (simp add: wants_phase)
      with assms(2) False show ?thesis by (simp add: 1(2) put_stream_def id routed_def)
    qed (simp add: 1(2) put_stream_def id)
  qed
qed

lemma routed_callers:
  assumes "table_part s" "routed s"
  shows "write_call lib n fault s = Some s' \<Longrightarrow> routed s'"
    "unlist_call n s = Some s' \<Longrightarrow> routed s'" "unstream_call n s = Some s' \<Longrightarrow> routed s'"
    "await_reply n s = Some s' \<Longrightarrow> routed s'"
proof -
  assume "write_call lib n fault s = Some s'"
  then obtain m where p: "at_phase s n = Some (Listed m)" and s': "pe_streams s' = pe_streams s"
    "\<And>k. wants s' k = wants (to_phase n (case fault of None \<Rightarrow> Written | Some (_, e) \<Rightarrow> Failing (''write: '' @ e)) s) k"
    by (auto simp: write_call_def write_line_def Let_def split: option.splits peer_phase.splits)
  show "routed s'"
    by (rule routed_mono [OF assms(2)])
       (use p s' in \<open>auto simp: wants_phase is_streamed_def wants_def [of s] split: if_splits option.splits\<close>)
next
  assume "unlist_call n s = Some s'"
  then obtain e where s': "s' = to_phase n (Unlisted e) (s\<lparr>pe_table := finish_waiter (peer_id s n) SenderGone (pe_table s)\<rparr>)"
    by (auto simp: unlist_call_def split: option.splits peer_phase.splits if_splits)
  show "routed s'"
    by (rule routed_mono [OF assms(2)])
       (auto simp: s' wants_phase is_streamed_def split: if_splits dest: wants_finish [OF assms(1)])
next
  assume "unstream_call n s = Some s'"
  then obtain e where p: "at_phase s n = Some (Unlisted e)"
    and s': "s' = (to_phase n (Refused (Internal e)) s)\<lparr>pe_streams := drop_stream (peer_id s n) (pe_streams s)\<rparr>"
    by (auto simp: unstream_call_def split: option.splits peer_phase.splits)
  have n: "n < length (pe_phases s)" using p by (auto simp: at_phase_def split: if_splits)
  show "routed s'"
  proof (rule routed_mono [OF assms(2)])
    fix k
    assume w: "wants s' k"
    then have "k \<noteq> n" "wants s k" by (auto simp: s' wants_phase is_streamed_def split: if_splits)
    moreover have "peer_id s n = n + 1"
      using peer_id_small [OF assms(1) _ n] wants_range [OF \<open>wants s k\<close>] by simp
    ultimately show "wants s k \<and> ((k + 1, k) \<in> set (pe_streams s) \<longrightarrow> (k + 1, k) \<in> set (pe_streams s'))"
      by (simp add: s' drop_stream_def)
  qed
next
  assume "await_reply n s = Some s'"
  then obtain q where "s' = to_phase n q s" "\<not> is_streamed q"
    by (auto simp: await_reply_def is_streamed_def split: option.splits peer_phase.splits slot.splits sum.splits)
  then show "routed s'"
    by (intro routed_mono [OF assms(2)]) (auto simp: wants_phase split: if_splits)
qed

lemma routed_reply:
  assumes "table_part s" "routed s" "give_reply s = Some s'"
  shows "routed s'"
proof -
  from assms(3) obtain i r where r: "pe_reader s = Replying i r"
    and s': "s' = s\<lparr>pe_table := finish_waiter i (Replied r) (pe_table s), pe_reader := Reading\<rparr>"
    by (auto simp: give_reply_def split: peer_reader.splits if_splits)
  have t: "table_inv (pe_table s)" and len: "length (rt_slots (pe_table s)) = length (pe_phases s)"
    using assms(1) by (simp_all add: table_part_def)
  show ?thesis
  proof (rule routed_mono [OF assms(2)])
    fix n
    assume w: "wants s' n"
    let ?s = "s\<lparr>pe_table := finish_waiter i (Replied r) (pe_table s)\<rparr>"
    obtain p where p: "at_phase s n = Some p" "is_streamed p" and few: "few_calls s"
      and pend: "snd (rt_slots (finish_waiter i (Replied r) (pe_table s)) ! n) = Pending"
      and ch: "channel_of n s \<noteq> None"
      using w by (auto simp: s' wants_def)
    have n: "n < length (pe_phases s)" using p by (auto simp: at_phase_def split: if_splits)
    have was: "snd (rt_slots (pe_table s) ! n) = Pending"
      by (rule finish_pending_before [OF t _ _ pend]) (use n len in simp_all)
    have "is_listed p" using p(2) by (auto simp: is_streamed_def is_listed_def split: peer_phase.splits)
    then have "n \<in> snd ` set (rt_pending (pe_table s))"
      using assms(1) n few was p(1) by (auto simp: table_part_def waiter_ok_def at_phase_def)
    then obtain k where k: "(k, n) \<in> set (rt_pending (pe_table s))" by force
    have "k = n + 1"
      using table_listed [OF t k] peer_id_small [OF assms(1) few n] by (simp add: peer_id_def)
    with k have "i \<noteq> n + 1"
      using pend finish_waiter_slot [OF t, of n i "Replied r"] n len by auto
    then have "passes_on (pe_reader s) (n + 1)" by (simp add: r passes_on_def)
    with p few was ch show "wants s n \<and> ((n + 1, n) \<in> set (pe_streams s) \<longrightarrow> (n + 1, n) \<in> set (pe_streams s'))"
      by (simp add: wants_def s')
  qed
qed

lemma passes_on_simps [simp]:
  "passes_on Reading i" "passes_on (Delivering d x) i" "passes_on (Complaining e) i"
  "passes_on (Replying j r) i \<longleftrightarrow> j \<noteq> i" "\<not> passes_on (StreamsOpen w) i" "\<not> passes_on (WaitersOpen w) i"
  "\<not> passes_on Drained i" "\<not> passes_on Gone i"
  by (simp_all add: passes_on_def)

lemma routed_same:
  assumes "routed s" "pe_streams s' = pe_streams s" "\<And>n. wants s' n \<Longrightarrow> wants s n"
  shows "routed s'"
  by (rule routed_mono [OF assms(1)]) (use assms(2,3) in simp)

lemma wants_set_reader: "wants (s\<lparr>pe_reader := r\<rparr>) n \<Longrightarrow> passes_on (pe_reader s) (n + 1) \<Longrightarrow> wants s n"
  by (rule wants_reader)

lemma routed_text:
  assumes "routed s" "pe_reader s = Reading"
  shows "routed (read_text lib t s)"
proof -
  have keep: "routed (s\<lparr>pe_reader := r\<rparr>)" for r
    by (rule routed_same [OF assms(1)]) (auto intro: wants_set_reader simp: assms(2))
  have drop: "routed (s\<lparr>pe_streams := drop_stream i (pe_streams s), pe_reader := Replying i r\<rparr>)" for i r
  proof (rule routed_mono [OF assms(1)])
    fix n
    assume w: "wants (s\<lparr>pe_streams := drop_stream i (pe_streams s), pe_reader := Replying i r\<rparr>) n"
    then have "i \<noteq> n + 1" by (simp add: wants_def)
    moreover have "wants s n" using w by (simp add: wants_def assms(2))
    ultimately show "wants s n \<and> ((n + 1, n) \<in> set (pe_streams s) \<longrightarrow> (n + 1, n) \<in> set
        (pe_streams (s\<lparr>pe_streams := drop_stream i (pe_streams s), pe_reader := Replying i r\<rparr>)))"
      by (auto simp: drop_stream_def)
  qed
  show ?thesis
    using assms(1) by (auto simp: read_text_def keep drop split: sum.splits message.splits option.splits)
qed

lemma channel_of_set [simp]:
  "channel_of n s = Some c \<Longrightarrow> channel_of k (set_channel n c' s) = (if k = n then Some c' else channel_of k s)"
  by (auto simp: channel_of_def set_channel_def split: if_splits)

lemma set_channel_fields [simp]:
  "pe_streams (set_channel n c s) = pe_streams s" "pe_reader (set_channel n c s) = pe_reader s"
  "pe_table (set_channel n c s) = pe_table s" "pe_phases (set_channel n c s) = pe_phases s"
  "pe_incoming (set_channel n c s) = pe_incoming s" "at_phase (set_channel n c s) k = at_phase s k"
  "few_calls (set_channel n c s) = few_calls s" "length (pe_channels (set_channel n c s)) = length (pe_channels s)"
  by (simp_all add: set_channel_def)

lemma wants_set_channel: "channel_of n s = Some c \<Longrightarrow> wants (set_channel n c' s) k = wants s k"
  by (simp add: wants_def)

lemma routed_reader:
  assumes "routed s"
  shows "read_next lim lib l s = Some s' \<Longrightarrow> routed s'" "deliver lim s = Some s' \<Longrightarrow> routed s'"
    "complain lib fault s = Some s' \<Longrightarrow> routed s'" "clear_streams s = Some s' \<Longrightarrow> routed s'"
    "drain_pending s = Some s' \<Longrightarrow> routed s'" "finish_end s = Some s' \<Longrightarrow> routed s'"
proof -
  have gone: "routed t" if "\<And>i. \<not> passes_on (pe_reader t) i" for t
    using that by (simp add: routed_def wants_def)
  show "read_next lim lib l s = Some s' \<Longrightarrow> routed s'"
    using routed_text [OF assms] by (auto simp: read_next_def intro: gone split: peer_reader.splits line.splits)
  show "deliver lim s = Some s' \<Longrightarrow> routed s'"
    by (auto simp: deliver_def bind_eq_Some_conv split: peer_reader.splits option.splits
        intro!: routed_same [OF assms] dest!: wants_set_reader simp: wants_set_channel)
  show "complain lib fault s = Some s' \<Longrightarrow> routed s'"
    by (auto simp: complain_def write_line_def Let_def split: peer_reader.splits intro!: routed_same [OF assms])
       (simp_all add: wants_def)
  show "clear_streams s = Some s' \<Longrightarrow> routed s'" "drain_pending s = Some s' \<Longrightarrow> routed s'" "finish_end s = Some s' \<Longrightarrow> routed s'"
    by (auto simp: clear_streams_def drain_pending_def finish_end_def intro!: gone split: peer_reader.splits if_splits)
qed

lemma routed_start:
  assumes "table_part s" "length (pe_channels s) = length (pe_phases s)" "routed s"
  shows "routed (start_call m ps streaming s)"
proof (rule routed_same [OF assms(3)])
  fix n
  assume w: "wants (start_call m ps streaming s) n"
  have len: "length (rt_slots (pe_table s)) = length (pe_phases s)" using assms(1) by (simp add: table_part_def)
  have few: "few_calls s" using w by (simp add: wants_def few_calls_def start_call_def)
  have "n \<noteq> length (pe_phases s)"
    using w by (auto simp: wants_def start_call_def at_phase_def is_streamed_def)
  then show "wants s n"
    using w few len assms(2)
    by (auto simp: wants_def start_call_def at_phase_def channel_of_def open_channel_def nth_append less_Suc_eq
        split: if_splits)
qed (simp add: start_call_def)

lemma routed_step:
  assumes "table_part s" "streams_wf s" "routed s" "peer_try lim lib s e = Some s'"
  shows "routed s'"
proof -
  have same: "routed (set_channel n c' s)" if "channel_of n s = Some c" for n c c'
    by (rule routed_same [OF assms(3)]) (use wants_set_channel [OF that] in simp_all)
  have wire: "routed (write_line lib m fault s)" for m fault
    by (rule routed_same [OF assms(3)]) (simp_all add: write_line_def Let_def)
  have inc: "routed (s\<lparr>pe_incoming := c\<rparr>)" for c
    by (rule routed_same [OF assms(3)]) simp_all
  show ?thesis
    using assms(4) routed_start [OF assms(1) _ assms(3)] assms(2)
    by (cases e)
       (simp_all only: peer_try.simps option.inject map_option_eq_Some bind_eq_Some_conv,
        auto simp: same wire inc streams_wf_def
          dest: routed_check [OF assms(1,3)] routed_add [OF assms(1,3)] routed_callers [OF assms(1,3)]
            routed_reader [OF assms(3)] routed_reply [OF assms(1,3)])
qed

section \<open>The map and the queues\<close>

lemma streams_wf_drop:
  "streams_wf s \<Longrightarrow> streams_wf (s\<lparr>pe_streams := drop_stream i (pe_streams s)\<rparr>)"
  by (auto simp: streams_wf_def drop_stream_def intro: distinct_map_filter)

lemma streams_wf_same:
  "streams_wf s \<Longrightarrow> length (pe_phases s') = length (pe_phases s) \<Longrightarrow>
     length (pe_channels s') = length (pe_channels s) \<Longrightarrow> pe_streams s' = pe_streams s \<Longrightarrow> streams_wf s'"
  by (simp add: streams_wf_def)

lemma streams_wf_add:
  assumes "table_part s" "streams_wf s" "add_stream n s = Some s'"
  shows "streams_wf s'"
  using assms(3)
proof (cases rule: add_cases)
  case (1 m)
  then have n: "n < length (pe_phases s)" by (auto simp: at_phase_def split: if_splits)
  have id: "peer_id s n = wrap_u64 (n + 1)" by (rule peer_id_wrap [OF assms(1) n])
  have "distinct (map fst (filter f (pe_streams s)))" for f
    using assms(2) by (auto simp: streams_wf_def intro: distinct_map_filter)
  with assms(2) n show ?thesis by (auto simp: 1(2) streams_wf_def put_stream_def id)
qed

lemma streams_wf_step:
  assumes "table_part s" "streams_wf s" "peer_try lim lib s e = Some s'"
  shows "streams_wf s'"
proof -
  have same: "streams_wf t" if "length (pe_phases t) = length (pe_phases s)"
    "length (pe_channels t) = length (pe_channels s)" "pe_streams t = pe_streams s" for t
    by (rule streams_wf_same [OF assms(2) that])
  have drop: "streams_wf t" if "length (pe_phases t) = length (pe_phases s)"
    "length (pe_channels t) = length (pe_channels s)" "pe_streams t = drop_stream i (pe_streams s)" for t i
    by (rule streams_wf_same [OF streams_wf_drop [OF assms(2)], of _ i]) (use that in simp_all)
  have reads: "streams_wf (read_text lib t s)" for t
    using assms(2)
    by (auto simp: read_text_def intro: same drop split: sum.splits message.splits option.splits)
  have start: "streams_wf (start_call m ps streaming s)" for m ps streaming
    using assms(2) by (auto simp: streams_wf_def start_call_def)
  have clear: "streams_wf t" if "length (pe_phases t) = length (pe_phases s)"
    "length (pe_channels t) = length (pe_channels s)" "pe_streams t = []" for t
    using that assms(2) by (simp add: streams_wf_def)
  show ?thesis
    using assms(3)
    by (cases e)
       (simp_all only: peer_try.simps option.inject map_option_eq_Some bind_eq_Some_conv,
        auto simp: reads start read_next_def deliver_def give_reply_def complain_def clear_streams_def drain_pending_def
          finish_end_def write_call_def unlist_call_def unstream_call_def await_reply_def write_line_def Let_def
          bind_eq_Some_conv
          intro: same drop clear
          elim!: check_cases dest: streams_wf_add [OF assms(1,2)]
          split: peer_reader.splits peer_phase.splits option.splits if_splits line.splits slot.splits sum.splits)
qed

lemma queues_ok_same:
  "queues_ok lim s \<Longrightarrow> pe_channels s' = pe_channels s \<Longrightarrow> pe_incoming s' = pe_incoming s \<Longrightarrow>
     (\<And>n x. pe_reader s' = Delivering (Some n) x \<Longrightarrow> item_about (wrap_u64 (n + 1)) x) \<Longrightarrow> queues_ok lim s'"
  by (simp add: queues_ok_def)

lemma queues_ok_reader: "queues_ok lim s \<Longrightarrow> pe_reader s = Delivering (Some n) x \<Longrightarrow> item_about (wrap_u64 (n + 1)) x"
  by (simp add: queues_ok_def)

lemma queues_ok_channel:
  assumes "queues_ok lim s" "channel_of n s = Some c" "channel_ok lim item_about (wrap_u64 (n + 1)) (Some c')"
  shows "queues_ok lim (set_channel n c' s)"
  using assms(1,3) by (auto simp: queues_ok_def set_channel_def) (case_tac "na = n"; simp)

lemma channel_of_ok:
  "queues_ok lim s \<Longrightarrow> channel_of n s = Some c \<Longrightarrow> channel_ok lim item_about (wrap_u64 (n + 1)) (Some c)"
  by (auto simp: queues_ok_def channel_of_def split: if_splits)

lemma take_from_ok: "channel_ok lim f i (Some c) \<Longrightarrow> take_from c = Some c' \<Longrightarrow> channel_ok lim f i (Some c')"
  by (auto simp: channel_ok_def take_from_def split: list.splits if_splits)

lemma send_to_ok:
  "channel_ok lim f i (Some c) \<Longrightarrow> f i x \<Longrightarrow> send_to (channel_capacity lim) x c = Some c' \<Longrightarrow> channel_ok lim f i (Some c')"
  by (auto simp: channel_ok_def send_to_def split: if_splits)

lemma queues_ok_text:
  assumes "streams_wf s" "queues_ok lim s" "pe_reader s = Reading"
  shows "queues_ok lim (read_text lib t s)"
proof -
  have own: "item_about (wrap_u64 (Suc n)) (IncomingNotification m ps)"
    if "about m ps = Some i" "map_of (pe_streams s) i = Some n" for m ps i n
    using that assms(1) by (auto simp: item_about_def streams_wf_def dest!: map_of_SomeD)
  show ?thesis
    using assms(2,3)
    by (auto simp: read_text_def bind_eq_Some_conv intro!: queues_ok_same [OF assms(2)] own split: sum.splits message.splits option.splits)
qed

lemma queues_ok_deliver:
  assumes "queues_ok lim s" "deliver lim s = Some s'"
  shows "queues_ok lim s'"
proof -
  from assms(2) consider
    n x c c' where "pe_reader s = Delivering (Some n) x" "channel_of n s = Some c"
      "send_to (channel_capacity lim) x c = Some c'" "s' = (set_channel n c' s)\<lparr>pe_reader := Reading\<rparr>"
  | x c' where "pe_reader s = Delivering None x"
      "send_to (channel_capacity lim) x (pe_incoming s) = Some c'" "s' = s\<lparr>pe_incoming := c', pe_reader := Reading\<rparr>"
    by (auto simp: deliver_def bind_eq_Some_conv split: peer_reader.splits option.splits)
  then show ?thesis
  proof cases
    case 1
    have "channel_ok lim item_about (wrap_u64 (n + 1)) (Some c')"
      by (rule send_to_ok [OF channel_of_ok [OF assms(1) 1(2)] queues_ok_reader [OF assms(1) 1(1)] 1(3)])
    from queues_ok_same [OF queues_ok_channel [OF assms(1) 1(2) this], of s'] show ?thesis by (simp add: 1(4))
  next
    case 2
    have "channel_ok lim (\<lambda>_ _. True) 0 (Some (pe_incoming s))" using assms(1) by (simp add: queues_ok_def)
    from send_to_ok [OF this _ 2(2)] assms(1) show ?thesis by (simp add: 2(3) queues_ok_def)
  qed
qed

lemma queues_ok_start: "length (pe_channels s) = length (pe_phases s) \<Longrightarrow> queues_ok lim s \<Longrightarrow> queues_ok lim (start_call m ps streaming s)"
  by (auto simp: queues_ok_def start_call_def nth_append less_Suc_eq channel_ok_def)

lemma queues_ok_step:
  assumes "streams_wf s" "queues_ok lim s" "peer_try lim lib s e = Some s'"
  shows "queues_ok lim s'"
proof -
  have same: "queues_ok lim t" if "pe_channels t = pe_channels s" "pe_incoming t = pe_incoming s"
    "pe_reader t = pe_reader s \<or> (\<forall>n x. pe_reader t \<noteq> Delivering (Some n) x)" for t
    by (rule queues_ok_same [OF assms(2) that(1,2)]) (use that(3) queues_ok_reader [OF assms(2)] in auto)
  have incoming: "channel_ok lim (\<lambda>_ _. True) 0 (Some (pe_incoming s))" using assms(2) by (simp add: queues_ok_def)
  have inc: "queues_ok lim (s\<lparr>pe_incoming := c\<rparr>)" if "channel_ok lim (\<lambda>_ _. True) 0 (Some c)" for c
    using assms(2) that by (simp add: queues_ok_def)
  have start: "queues_ok lim (start_call m ps streaming s)" for m ps streaming
    by (rule queues_ok_start) (use assms in \<open>simp_all add: streams_wf_def\<close>)
  have none: "channel_ok lim f i (Some (Channel [] b))" for f i b by (simp add: channel_ok_def)
  show ?thesis
    using assms(3)
    by (cases e)
       (simp_all only: peer_try.simps option.inject map_option_eq_Some bind_eq_Some_conv,
        auto simp: start none read_next_def give_reply_def complain_def clear_streams_def drain_pending_def
          finish_end_def write_call_def unlist_call_def unstream_call_def await_reply_def write_line_def Let_def
          intro: same inc queues_ok_text [OF assms(1,2)] queues_ok_channel [OF assms(2)] take_from_ok [OF incoming]
            take_from_ok [OF channel_of_ok [OF assms(2)]]
          elim!: check_cases add_cases dest: queues_ok_deliver [OF assms(2)]
          split: peer_reader.splits peer_phase.splits option.splits if_splits line.splits slot.splits sum.splits)
qed

lemma peer_step_inv:
  assumes "peer_inv lim s" "peer_step lim lib s e = Inr s'"
  shows "peer_inv lim s'"
proof -
  have "peer_try lim lib s e = Some s'" using assms(2) by (auto simp: peer_step_def split: option.splits)
  with assms(1) show ?thesis
    using table_part_step [of s lim lib e s'] streams_wf_step [of s lim lib e s'] routed_step [of s lim lib e s']
      queues_ok_step [of s lim lib e s'] end_ok_step [of s lim lib e s'] lock_step [of s lim lib e s']
    by (simp add: peer_inv_def end_part_iff)
qed

interpretation peer: guarded_machine "peer_step lim lib" "peer_inv lim"
  by unfold_locales (rule peer_step_inv)

section \<open>Promises\<close>

lemma run_inv_peer: "peer_inv lim (run_events (peer_step lim lib) peer_spawn es)"
  by (rule peer.run_inv [OF peer_spawn_inv])

lemma waits_in_table:
  assumes "table_part s" "few_calls s" "at_phase s n = Some p" "is_listed p" "snd (rt_slots (pe_table s) ! n) = Pending"
  shows "(n + 1, n) \<in> set (rt_pending (pe_table s))"
proof -
  have n: "n < length (pe_phases s)" and p: "pe_phases s ! n = p" using assms(3) by (auto simp: at_phase_def split: if_splits)
  have "n \<in> snd ` set (rt_pending (pe_table s))"
    using assms n p by (simp add: table_part_def waiter_ok_def)
  then obtain k where k: "(k, n) \<in> set (rt_pending (pe_table s))" by force
  moreover have "k = n + 1"
    using table_listed [OF _ k] peer_id_small [OF assms(1,2) n] assms(1) by (simp add: peer_id_def table_part_def)
  ultimately show ?thesis by simp
qed

text \<open>
  C15. However the callers, the reading task and the other side interleave, no call waits for ever
  once the connection has ended: whoever has its \<open>Call\<close> finds its reply or an error there, and
  whoever starts one is refused at once.
\<close>

theorem none_waits_after_the_end:
  assumes "s = run_events (peer_step lim lib) peer_spawn es" "pe_finished s" "few_calls s"
  shows "(at_phase s n = Some Written \<longrightarrow>
            (\<exists>q. peer_try lim lib s (Await n) = Some (to_phase n q s) \<and> ((\<exists>r. q = Answered r) \<or> (\<exists>e. q = Failed e))))
       \<and> (at_phase s n = Some (Begun m) \<longrightarrow>
            peer_try lim lib s (Check n) = Some (to_phase n (Refused (Internal CLOSED)) s))"
proof (intro conjI impI)
  have inv: "peer_inv lim s" unfolding assms(1) by (rule run_inv_peer)
  have gone: "pe_reader s = Gone" "rt_pending (pe_table s) = []" "pe_lock s = None" "pe_closed s"
    using inv assms(2) by (simp_all add: peer_inv_def end_part_iff end_ok_def is_open_def)
  {
    assume w: "at_phase s n = Some Written"
    have "snd (rt_slots (pe_table s) ! n) \<noteq> Pending"
      using waits_in_table [of s n Written] inv assms(3) w gone(2) by (auto simp: peer_inv_def is_listed_def)
    with w show "\<exists>q. peer_try lim lib s (Await n) = Some (to_phase n q s) \<and> ((\<exists>r. q = Answered r) \<or> (\<exists>e. q = Failed e))"
      by (cases "snd (rt_slots (pe_table s) ! n)") (auto simp: await_reply_def split: sum.split)
  }
  assume "at_phase s n = Some (Begun m)"
  with gone show "peer_try lim lib s (Check n) = Some (to_phase n (Refused (Internal CLOSED)) s)"
    by (simp add: check_call_def)
qed

text \<open>
  A reply goes to the request that carried its id and to no other: it settles that call's
  channel, and every other call's is as before.
\<close>

theorem reply_settles_its_request:
  assumes "s = run_events (peer_step lim lib) peer_spawn es" "few_calls s" "pe_lock s = None"
    and "at_phase s n = Some p" "is_listed p" "snd (rt_slots (pe_table s) ! n) = Pending"
    and "pe_reader s = Replying (n + 1) r"
  shows "\<exists>t. peer_try lim lib s GiveReply = Some (s\<lparr>pe_table := t, pe_reader := Reading\<rparr>)
           \<and> (\<forall>k < length (pe_phases s).
                rt_slots t ! k = (if k = n then (n + 1, Replied r) else rt_slots (pe_table s) ! k))"
proof -
  have tp: "table_part s" using run_inv_peer [of lim lib es] by (simp add: assms(1) peer_inv_def)
  have t: "table_inv (pe_table s)" and len: "length (rt_slots (pe_table s)) = length (pe_phases s)"
    using tp by (simp_all add: table_part_def)
  have listed: "(n + 1, n) \<in> set (rt_pending (pe_table s))"
    by (rule waits_in_table [OF tp assms(2,4,5,6)])
  have "(n + 1, k) \<in> set (rt_pending (pe_table s)) \<longleftrightarrow> k = n" if "k < length (pe_phases s)" for k
    using listed table_listed [OF t, of "n + 1" k] peer_id_small [OF tp assms(2) that] by (auto simp: peer_id_def)
  then have "\<forall>k < length (pe_phases s). rt_slots (finish_waiter (n + 1) (Replied r) (pe_table s)) ! k =
      (if k = n then (n + 1, Replied r) else rt_slots (pe_table s) ! k)"
    using finish_waiter_slot [OF t, of _ "n + 1" "Replied r"] len by simp
  moreover have "peer_try lim lib s GiveReply =
      Some (s\<lparr>pe_table := finish_waiter (n + 1) (Replied r) (pe_table s), pe_reader := Reading\<rparr>)"
    using assms(3,7) by (simp add: give_reply_def)
  ultimately show ?thesis by blast
qed

text \<open>The end settles every call still listed, with the reason it ended, and counts them.\<close>

lemma end_settles_who_waits:
  assumes "table_part s" "pe_lock s = None" "pe_reader s = WaitersOpen why"
  shows "\<exists>t. drain_pending s =
             Some (s\<lparr>pe_table := t, pe_cut_off := pe_cut_off s + card (snd ` set (rt_pending (pe_table s))),
                     pe_reader := Drained\<rparr>)
           \<and> (\<forall>k < length (pe_phases s).
                snd (rt_slots t ! k) =
                  (if k \<in> snd ` set (rt_pending (pe_table s)) then Replied (Inl (Internal why))
                   else snd (rt_slots (pe_table s) ! k)))"
proof -
  have t: "table_inv (pe_table s)" and len: "length (rt_slots (pe_table s)) = length (pe_phases s)"
    using assms(1) by (simp_all add: table_part_def)
  have "length (rt_pending (pe_table s)) = card (snd ` set (rt_pending (pe_table s)))"
    using t distinct_card [of "map snd (rt_pending (pe_table s))"] by (simp add: table_inv_def)
  then have "drain_pending s =
      Some (s\<lparr>pe_table := drain_waiters (Inl (Internal why)) (pe_table s),
              pe_cut_off := pe_cut_off s + card (snd ` set (rt_pending (pe_table s))), pe_reader := Drained\<rparr>)"
    using assms(2,3) by (simp add: drain_pending_def)
  moreover have "\<forall>k < length (pe_phases s). snd (rt_slots (drain_waiters (Inl (Internal why)) (pe_table s)) ! k) =
      (if k \<in> snd ` set (rt_pending (pe_table s)) then Replied (Inl (Internal why)) else snd (rt_slots (pe_table s) ! k))"
    using drain_waiters_slot [OF t, of _ "Inl (Internal why)"] len by simp
  ultimately show ?thesis by blast
qed

text \<open>
  C16. What the other side sends about a streaming request, from the moment it can have read the
  request until it answers it, goes on that request's channel; and no channel ever holds a message
  about another request, or more than its capacity.
\<close>

theorem streams_get_their_own:
  assumes "s = run_events (peer_step lim lib) peer_spawn es" "few_calls s" "pe_reader s = Reading"
    and "at_phase s n = Some Written" "channel_of n s = Some c" "snd (rt_slots (pe_table s) ! n) = Pending"
    and "trim t \<noteq> []" "from_line (pl_values lib) t = Inr (Notification m ps)" "about m ps = Some (n + 1)"
  shows "peer_try lim lib s (ReadNext (Text t)) =
           Some (s\<lparr>pe_reader := Delivering (Some n) (IncomingNotification m ps)\<rparr>)
       \<and> (\<forall>k d. channel_of k s = Some d \<longrightarrow>
            length (ch_queue d) \<le> channel_capacity lim \<and> list_all (item_about (k + 1)) (ch_queue d))"
proof (intro conjI allI impI)
  have inv: "peer_inv lim s" unfolding assms(1) by (rule run_inv_peer)
  have "wants s n" using assms by (simp add: wants_def is_streamed_def)
  then have "(n + 1, n) \<in> set (pe_streams s)" using inv by (simp add: peer_inv_def routed_def)
  then have "map_of (pe_streams s) (n + 1) = Some n"
    using inv by (simp add: peer_inv_def streams_wf_def)
  with assms show "peer_try lim lib s (ReadNext (Text t)) =
      Some (s\<lparr>pe_reader := Delivering (Some n) (IncomingNotification m ps)\<rparr>)"
    by (simp add: read_next_def read_text_def)
  fix k d
  assume d: "channel_of k s = Some d"
  then have "k < length (pe_phases s)"
    using inv by (auto simp: channel_of_def peer_inv_def streams_wf_def split: if_splits)
  then have "wrap_u64 (k + 1) = k + 1" using assms(2) by (simp add: few_calls_def wrap_u64_small)
  moreover have "channel_ok lim item_about (wrap_u64 (k + 1)) (Some d)"
    using channel_of_ok [OF _ d] inv by (simp add: peer_inv_def)
  ultimately show "length (ch_queue d) \<le> channel_capacity lim" "list_all (item_about (k + 1)) (ch_queue d)"
    by (simp_all add: channel_ok_def)
qed

section \<open>At concrete inputs\<close>

definition demo_record :: json where
  "demo_record = JObj [(''id'', JNum ''1''), (''row'', JNull)]"

definition demo_peer_lib :: peer_lib where
  "demo_peer_lib =
     \<lparr>pl_values = \<lparr>vl_pieces = (\<lambda>v. [''{}'']),
        vl_parse = (\<lambda>s. if s = ''row'' then Some (to_value (Notification ''$/record'' demo_record))
                        else if s = ''reply'' then Some (to_value (Response 1 JNull)) else None)\<rparr>,
      pl_json_error = (\<lambda>_. ''expected value'')\<rparr>"

definition demo_calls :: "peer_step list" where
  "demo_calls = [Start ''read'' JNull True, Check 0, AddStream 0, Write 0 None]"

definition run_demo :: "peer_step list \<Rightarrow> peer" where
  "run_demo es = run_events (peer_step default_limits demo_peer_lib) peer_spawn es"

lemmas demo_steps =
  run_demo_def demo_calls_def run_events_simps attempt_step_def peer_step_def peer_spawn_def start_call_def
  check_call_def add_stream_def write_call_def write_line_def at_phase_def to_phase_def empty_table_def
  open_channel_def add_waiter_def finish_waiter_def settle_def unlist_def put_stream_def peer_id_def wrap_u64_def
  read_next_def clear_streams_def drain_pending_def finish_end_def drain_waiters_def

lemma demo_called_peer:
  "at_phase (run_demo demo_calls) 0 = Some Written" "channel_of 0 (run_demo demo_calls) = Some (Channel [] True)"
  "rt_slots (pe_table (run_demo demo_calls)) = [(1, Pending)]" "pe_reader (run_demo demo_calls) = Reading"
  "length (pe_phases (run_demo demo_calls)) = 1" "pe_lock (run_demo demo_calls) = None"
  by (simp_all add: demo_steps channel_of_def)

lemma demo_texts: "trim ''row'' = ''row''" "trim_back WHITESPACE ''row'' = ''row''" "trim ''reply'' = ''reply''"
  "trim_back WHITESPACE ''reply'' = ''reply''"
  by code_simp+

lemma demo_about: "about ''$/record'' demo_record = Some 1"
  by (simp add: about_def ABOUT_A_REQUEST_def demo_record_def as_u64_def is_ascii_digit_def byte_def parse_uint_def
      unsigned_part_def digits_value_def digit_value_def u64_max_def)

lemma demo_row: "from_line (pl_values demo_peer_lib) ''row'' = Inr (Notification ''$/record'' demo_record)"
  using message_round [of "Notification ''$/record'' demo_record" "pl_values demo_peer_lib"]
  by (simp add: from_line_def demo_texts demo_peer_lib_def)

lemma demo_reply: "from_line (pl_values demo_peer_lib) ''reply'' = Inr (Response 1 JNull)"
  using message_round [of "Response 1 JNull" "pl_values demo_peer_lib"]
  by (simp add: from_line_def demo_texts demo_peer_lib_def u64_max_def)

theorem none_waits_after_the_end_witness:
  "\<exists>q. peer_try default_limits demo_peer_lib
          (run_demo (demo_calls @ [ReadNext End, ClearStreams, DrainPending, FinishEnd])) (Await 0) =
        Some (to_phase 0 q (run_demo (demo_calls @ [ReadNext End, ClearStreams, DrainPending, FinishEnd])))
      \<and> ((\<exists>r. q = Answered r) \<or> (\<exists>e. q = Failed e))"
proof -
  let ?s = "run_demo (demo_calls @ [ReadNext End, ClearStreams, DrainPending, FinishEnd])"
  have s: "pe_finished ?s" "few_calls ?s" "at_phase ?s 0 = Some Written"
    by (simp_all add: demo_steps few_calls_def)
  show ?thesis
    using none_waits_after_the_end [of ?s default_limits demo_peer_lib _ 0, OF _ s(1,2)] s(3)
    by (auto simp: run_demo_def)
qed

theorem reply_settles_its_request_witness:
  "\<exists>t. peer_try default_limits demo_peer_lib (run_demo (demo_calls @ [ReadNext (Text ''reply'')])) GiveReply =
        Some ((run_demo (demo_calls @ [ReadNext (Text ''reply'')]))\<lparr>pe_table := t, pe_reader := Reading\<rparr>)
      \<and> rt_slots t ! 0 = (1, Replied (Inr JNull))"
proof -
  let ?s = "run_demo (demo_calls @ [ReadNext (Text ''reply'')])"
  have step: "?s = (run_demo demo_calls)\<lparr>pe_streams := drop_stream 1 (pe_streams (run_demo demo_calls)),
      pe_reader := Replying 1 (Inr JNull)\<rparr>"
    by (simp add: run_demo_def run_events_append)
       (simp add: run_demo_def [symmetric] attempt_step_def peer_step_def read_next_def read_text_def
         demo_called_peer demo_reply demo_texts)
  have "?s = run_events (peer_step default_limits demo_peer_lib) peer_spawn (demo_calls @ [ReadNext (Text ''reply'')])"
    by (simp only: run_demo_def)
  from reply_settles_its_request [OF this, of 0 Written "Inr JNull"] show ?thesis
    by (fastforce simp: step demo_called_peer few_calls_def is_listed_def)
qed

theorem streams_get_their_own_witness:
  "peer_try default_limits demo_peer_lib (run_demo demo_calls) (ReadNext (Text ''row'')) =
     Some ((run_demo demo_calls)\<lparr>pe_reader := Delivering (Some 0) (IncomingNotification ''$/record'' demo_record)\<rparr>)"
proof -
  have "run_demo demo_calls = run_events (peer_step default_limits demo_peer_lib) peer_spawn demo_calls"
    by (simp only: run_demo_def)
  from streams_get_their_own [OF this, of 0 "Channel [] True" "''row''" "''$/record''" demo_record] show ?thesis
    by (simp add: demo_called_peer few_calls_def demo_texts demo_row demo_about)
qed

text \<open>
  A caller can put its stream in the map after the reading task has emptied it: the check that the
  connection is open and the insertion are made under the table's lock, the emptying is not. Its call
  is failed, and its channel stays in the map of a connection that has ended.
\<close>

lemma late_stream_stays_open:
  "pe_streams (run_demo [Start ''read'' JNull True, Check 0, ReadNext End, ClearStreams, AddStream 0, Write 0 None,
      DrainPending, FinishEnd, Await 0]) = [(1, 0)]"
  "pe_finished (run_demo [Start ''read'' JNull True, Check 0, ReadNext End, ClearStreams, AddStream 0, Write 0 None,
      DrainPending, FinishEnd, Await 0])"
  "at_phase (run_demo [Start ''read'' JNull True, Check 0, ReadNext End, ClearStreams, AddStream 0, Write 0 None,
      DrainPending, FinishEnd, Await 0]) 0 = Some (Failed (Internal CLOSED))"
  by (simp_all add: demo_steps await_reply_def)

end
