(* ===== verification/Spec2Isabelle.thy ===== *)
theory Spec2Isabelle
  imports Extension_Job Ordering Permissions Tree_Diff Smart_Merge Watch_Router Agent_Status
    Run_Context Param_Pattern When_Expr Job_Store_Promises Job_Wire Sql_Tokens Task_Promises Lsp_Proxy Provider_Peer
begin

text \<open>
  A model of the core logic of oxplow, a desktop workspace in Rust: agents, tasks and extensions
  around a project's files. The sources are the crates under \<open>src/crates/\<close>; the paths below leave out
  that prefix and the crate's \<open>src/\<close>.

  \<^bold>\<open>The parts and how they meet.\<close>
  An extension declares contributions with names and refs (\<open>oxplow-domain/contribution.rs\<close>,
  \<open>uri/\<close>) and permissions a person approves (\<open>permissions.rs\<close>, \<open>grant.rs\<close>). Its code runs under a
  run context (\<open>run.rs\<close>), which decides each need against the declaration and the grant, as an actor
  (\<open>commands.rs\<close>). Longer work is a job: a lifecycle of guarded events (\<open>extension_job.rs\<close>), the
  provenance it was scheduled with (\<open>extension_job_context.rs\<close>), and tables that keep both
  (\<open>oxplow-db/extension_job_store.rs\<close>). Effects and collectors run in the order their \<open>after\<close> asks for
  (\<open>ordering.rs\<close>). Files reach the system through the watch (\<open>oxplow-fs-watch\<close>): OS events go through
  the workspace filter to subscribers. Work items come from oxplow's own task list (\<open>oxplow-tasks\<close>) or
  from providers spoken to over a line protocol (\<open>oxplow-provider-protocol\<close>); editors speak to language
  servers (\<open>oxplow-lsp\<close>). Both connections keep a table of outstanding requests.

  \<^bold>\<open>Shared theories.\<close>
  \<^item> Prelude: results as sums, ordered maps, machine-integer bounds and checked arithmetic, text as
    bytes, and the interfaces several components share: \<open>roundtrip\<close>, \<open>canonical_roundtrip\<close>,
    \<open>guarded_machine\<close>, \<open>ranked_machine\<close>.
  \<^item> Std_Text, Decimal: what is used of the standard library's trimming, paths and decimal numbers.
  \<^item> State_Result: operations that pass a state on and may fail, for the two stores.
  \<^item> Store_Json, Json_Access: JSON values, the job store's canonical text, fields and numbers.
  \<^item> Reply_Table: the requests a connection waits on.

  \<^bold>\<open>Components.\<close>
  \<^item> Contribution, Uri, Uri_Build, Ids: \<open>contribution.rs\<close>, \<open>uri/oxplow_uri.rs\<close>, \<open>uri/build.rs\<close>,
    \<open>ids.rs\<close>. A name, a ref, a URI or an id prints and reads back; the readers of refs and spellings.
  \<^item> Scope_Service, Permissions: \<open>scope.rs\<close>, \<open>service.rs\<close>, \<open>permissions.rs\<close>, \<open>grant.rs\<close>. Coverage of one
    permission set by another, what a deploy asks, what a run is allowed.
  \<^item> Actor, Run_Context: \<open>Actor\<close> of \<open>commands.rs\<close>, \<open>run.rs\<close>. What clones of a run share is a heap of
    flags, usages, traces and lists of decisions; \<open>nested\<close> and \<open>stops_with\<close> are the families of runs.
  \<^item> Extension_Job: \<open>extension_job.rs\<close>, every event of the lifecycle with its guards and tokens.
  \<^item> Job_Context, Job_Wire: \<open>extension_job_context.rs\<close>, its checks and limits, and the code serde
    derives to write and strictly read it.
  \<^item> Job_Store, Job_Store_Inv, Job_Store_Pages, Job_Store_Promises: \<open>extension_job_store.rs\<close> with the
    tables, checks, keys and triggers of \<open>V1__baseline.sql\<close>, transactions and savepoints; the
    invariant of the tables, and what callers rely on.
  \<^item> Ordering: \<open>ordering.rs\<close>. Targets resolved, levels compiled, cycles and unknown names told.
  \<^item> When_Expr: \<open>when.rs\<close>. Lexer, parser, check and evaluation of a command's condition.
  \<^item> Param_Pattern: \<open>oxplow-app/param_pattern.rs\<close>. The patterns of a resource's parameters.
  \<^item> Agent_Status: \<open>oxplow-app/agent_status_derive.rs\<close>. A session's status from its activity.
  \<^item> Tree_Diff, Smart_Merge: \<open>tree_diff.rs\<close>, \<open>oxplow-git/smart_merge.rs\<close>.
  \<^item> Fs_Watch, Watch_Filter, Watch_Router: \<open>pending.rs\<close>, \<open>filter.rs\<close>, \<open>router.rs\<close> with \<open>lib.rs\<close> and
    \<open>registrar.rs\<close>. The filter's caches are proved against a filter without any (the locales \<open>memo\<close> and
    \<open>yes_no\<close>); the router and the follower share one state.
  \<^item> Sql_Tokens: \<open>oxplow-db/sql_tokens.rs\<close>, and the quoting of values in \<open>semantic_layer.rs\<close> and
    \<open>metric_expr.rs\<close>.
  \<^item> Task_List, Task_Store, Task_Verbs, Task_Inv, Task_Promises: \<open>oxplow-tasks\<close>: types and names, the
    tables, the verbs with their inverses and records, the tables' invariant, the promises.
  \<^item> Lsp_Codec, Lsp_Proxy: \<open>oxplow-lsp/codec.rs\<close>, \<open>proxy.rs\<close>: frames, and the connection as a machine.
  \<^item> Provider_Message, Provider_Line, Provider_Peer: \<open>codec.rs\<close>, \<open>errors.rs\<close>, \<open>peer.rs\<close>: messages, lines
    out of a pipe, and one side of the connection as a machine.

  \<^bold>\<open>What the lemmas show.\<close>
  State machines (jobs, the stores, the connections, the watch) keep their invariant through every
  operation, so through every run; a refused operation leaves the state as it was, and a refusal is
  one of the code's guards. Stored and sent values read back: URIs, ids, permission lists, contexts,
  messages and frames however the bytes are cut. Optimised code answers as plain code does: the
  filter with its caches, the strict reader of a context, the pager of a listing. Algorithms meet
  their purpose: an order exists exactly when the compiler finds one, a parser accepts exactly its
  grammar, separate edits are both merged, an undone edit is undone.

  \<^bold>\<open>Conventions.\<close>
  A Rust \<open>Result\<close> is a sum with \<open>Inl\<close> for the error; a panic (an index out of range, an overflow of a
  debug build) is \<open>None\<close>. Text is its UTF-8 bytes, or its code points where the code works on
  characters. Unsigned integers are naturals and signed ones integers, with the type's bounds where
  the code depends on them. Code outside the repository (serde_json, uuid, SQLite's JSON functions,
  the ignore, similar, notify and regex crates) is an argument of the definitions that use it; what a
  property takes from it is among its hypotheses and is what its documentation says.

  \<^bold>\<open>Bounds, fuel and atomicity.\<close>
  All recursion is structural or has a measure, but for two loops that can run on. The follower's walk
  ends only if the tree does: it returns an option, and is proved to return when no readable
  directory lies deeper than some \<open>N\<close>. A caller that follows cursors (\<open>all_pages\<close>) has fuel; as many
  rounds as there are rows and one more are proved to be enough. Where the code holds a lock, one
  operation is one step; where another task can run in between, it is several, and the machines
  interleave them freely. A turn of the follower is one step, though the router runs beside it.

  \<^bold>\<open>Not modelled.\<close>
  The desktop interface (TypeScript), the daemon's transports, child processes, HTTP, git2, OAuth and
  the script host: I/O around the parts above. The stores of facts, metrics, pages, chat and most
  other tables: their logic is SQL text. The orchestration in \<open>oxplow-app\<close> over these services. The
  event log with its pump is the next part to model. The wording of most refusals and time-outs that
  only wait are left out; so is what a release build does where an addition overflows.
\<close>

end
